(* ===== verification/Prelude.thy ===== *)
theory Prelude
  imports Main "HOL-Library.Word"
begin

text \<open>
  Shared vocabulary of the development.

  Fallible Rust code (\<open>Result<T, E>\<close>, and the places where a safe operation would panic)
  is a value of the sum type \<open>error + 'a\<close>: \<open>Inr\<close> carries the value, \<open>Inl\<close> an error.
  \<open>Rejected\<close> is an \<open>Err\<close> the code returns, \<open>Detailed\<close> a message that the code formats from data, \<open>Panicked\<close> an out-of-range index, a failed \<open>unwrap\<close> or a
  reached \<open>unreachable!\<close>, written out so that its absence is a theorem.  The combinators
  below are the \<open>?\<close> operator, early returns, \<open>collect::<Result<Vec<_>>>\<close> and indexing.
\<close>

named_theorems result_simps \<open>evaluation of the result combinators\<close>
named_theorems result_splits \<open>inversion of a successful result\<close>

section \<open>Results\<close>

datatype ('m, 'd) failure =
    Rejected 'm
  | Detailed 'd
  | Panicked

definition bindE :: "'e + 'a \<Rightarrow> ('a \<Rightarrow> 'e + 'b) \<Rightarrow> 'e + 'b" where
  "bindE m f = (case m of Inl e \<Rightarrow> Inl e | Inr x \<Rightarrow> f x)"

lemma bindE_simps [simp, result_simps]:
  "bindE (Inl e) f = Inl e"
  "bindE (Inr x) f = f x"
  by (simp_all add: bindE_def)

lemma bindE_eq_Inr [simp, result_splits]:
  "bindE m f = Inr y \<longleftrightarrow> (\<exists>x. m = Inr x \<and> f x = Inr y)"
  by (cases m) auto

lemma bindE_eq_Inl:
  "bindE m f = Inl e \<longleftrightarrow> m = Inl e \<or> (\<exists>x. m = Inr x \<and> f x = Inl e)"
  by (cases m) auto

lemma bindE_cong [fundef_cong]:
  "m = m' \<Longrightarrow> (\<And>x. m' = Inr x \<Longrightarrow> f x = g x) \<Longrightarrow> bindE m f = bindE m' g"
  by (cases m') auto

lemma bindE_assoc: "bindE (bindE m f) g = bindE m (\<lambda>x. bindE (f x) g)"
  by (cases m) auto

definition mapE :: "('a \<Rightarrow> 'b) \<Rightarrow> 'e + 'a \<Rightarrow> 'e + 'b" where
  "mapE f m = bindE m (\<lambda>x. Inr (f x))"

lemma mapE_simps [simp, result_simps]:
  "mapE f (Inl e) = Inl e"
  "mapE f (Inr x) = Inr (f x)"
  by (simp_all add: mapE_def)

lemma mapE_eq_Inr [simp, result_splits]:
  "mapE f m = Inr y \<longleftrightarrow> (\<exists>x. m = Inr x \<and> y = f x)"
  by (cases m) auto

lemma mapE_eq_Inl [simp]: "mapE f m = Inl e \<longleftrightarrow> m = Inl e"
  by (cases m) auto

text \<open>\<open>if condition { return Err(message) }\<close>.\<close>

definition ensure :: "bool \<Rightarrow> 'e \<Rightarrow> 'e + unit" where
  "ensure b e = (if b then Inr () else Inl e)"

lemma ensure_simps [simp, result_simps]:
  "ensure True e = Inr ()"
  "ensure False e = Inl e"
  by (simp_all add: ensure_def)

lemma ensure_eq_Inr [simp, result_splits]: "ensure b e = Inr u \<longleftrightarrow> b"
  by (simp add: ensure_def)

lemma ensure_eq_Inl [simp]: "ensure b e = Inl e' \<longleftrightarrow> \<not> b \<and> e' = e"
  by (auto simp: ensure_def)

text \<open>A left-to-right \<open>||\<close> chain whose later disjuncts are evaluated only when the earlier
  ones are false, and may themselves fail.\<close>

fun anyE :: "('e + bool) list \<Rightarrow> 'e + bool" where
  "anyE [] = Inr False"
| "anyE (c # cs) = bindE c (\<lambda>b. if b then Inr True else anyE cs)"

definition reject_if :: "'e + bool \<Rightarrow> 'e \<Rightarrow> 'e + unit" where
  "reject_if c e = bindE c (\<lambda>b. if b then Inl e else Inr ())"

lemma reject_if_simps [simp, result_simps]:
  "reject_if (Inr True) e = Inl e"
  "reject_if (Inr False) e = Inr ()"
  "reject_if (Inl e') e = Inl e'"
  by (simp_all add: reject_if_def)

lemma reject_if_eq_Inr [simp, result_splits]: "reject_if c e = Inr u \<longleftrightarrow> c = Inr False"
  by (auto simp: reject_if_def split: if_splits)

lemma anyE_eq_False [simp, result_splits]:
  "anyE cs = Inr False \<longleftrightarrow> (\<forall>c \<in> set cs. c = Inr False)"
  by (induction cs) (auto split: if_splits)

text \<open>\<open>iter().map(f).collect::<Result<Vec<_>>>()\<close>: stops at the first error.\<close>

fun traverse :: "('a \<Rightarrow> 'e + 'b) \<Rightarrow> 'a list \<Rightarrow> 'e + 'b list" where
  "traverse f [] = Inr []"
| "traverse f (x # xs) = bindE (f x) (\<lambda>y. bindE (traverse f xs) (\<lambda>ys. Inr (y # ys)))"

lemma traverse_cong [fundef_cong]:
  "xs = ys \<Longrightarrow> (\<And>x. x \<in> set ys \<Longrightarrow> f x = g x) \<Longrightarrow> traverse f xs = traverse g ys"
  by (induction xs arbitrary: ys) auto

lemma traverse_eq_Inr [result_splits]:
  "traverse f xs = Inr ys \<longleftrightarrow> list_all2 (\<lambda>x y. f x = Inr y) xs ys"
  by (induction xs arbitrary: ys) (auto simp: list_all2_Cons1)

lemma traverse_length: "traverse f xs = Inr ys \<Longrightarrow> length ys = length xs"
  by (auto simp: traverse_eq_Inr dest: list_all2_lengthD)

lemma traverse_nth: "traverse f xs = Inr ys \<Longrightarrow> i < length xs \<Longrightarrow> f (xs ! i) = Inr (ys ! i)"
  by (auto simp: traverse_eq_Inr list_all2_conv_all_nth)

lemma traverse_set: "traverse f xs = Inr ys \<Longrightarrow> y \<in> set ys \<Longrightarrow> \<exists>x \<in> set xs. f x = Inr y"
proof -
  assume "traverse f xs = Inr ys" and "y \<in> set ys"
  then obtain i where "i < length xs" and "f (xs ! i) = Inr y"
    by (auto simp: traverse_eq_Inr list_all2_conv_all_nth in_set_conv_nth)
  then show ?thesis by (auto intro: nth_mem)
qed

lemma traverse_Inl: "traverse f xs = Inl e \<Longrightarrow> \<exists>x \<in> set xs. f x = Inl e"
  by (induction xs) (auto simp: bindE_eq_Inl)

lemma traverse_Inr: "(\<And>x. x \<in> set xs \<Longrightarrow> f x = Inr (g x)) \<Longrightarrow> traverse f xs = Inr (map g xs)"
  by (induction xs) auto

text \<open>An effectful loop over a list that stops at the first error.\<close>

fun foldE :: "('a \<Rightarrow> 's \<Rightarrow> 'e + 's) \<Rightarrow> 'a list \<Rightarrow> 's \<Rightarrow> 'e + 's" where
  "foldE f [] s = Inr s"
| "foldE f (x # xs) s = bindE (f x s) (foldE f xs)"

lemma foldE_cong [fundef_cong]:
  "xs = ys \<Longrightarrow> s = t \<Longrightarrow> (\<And>x u. x \<in> set ys \<Longrightarrow> f x u = g x u) \<Longrightarrow> foldE f xs s = foldE g ys t"
  by (induction xs arbitrary: ys s t) (auto intro!: bindE_cong)

lemma foldE_append [simp]: "foldE f (xs @ ys) s = bindE (foldE f xs s) (foldE f ys)"
  by (induction xs arbitrary: s) (auto simp: bindE_assoc intro!: bindE_cong)

lemma foldE_invariant:
  assumes "foldE f xs s = Inr t" and "P s"
    and "\<And>x s t. x \<in> set xs \<Longrightarrow> P s \<Longrightarrow> f x s = Inr t \<Longrightarrow> P t"
  shows "P t"
  using assms by (induction xs arbitrary: s) auto

text \<open>\<open>option.ok_or(e)\<close>.\<close>

definition ok_or :: "'a option \<Rightarrow> 'e \<Rightarrow> 'e + 'a" where
  "ok_or o' e = (case o' of None \<Rightarrow> Inl e | Some x \<Rightarrow> Inr x)"

lemma ok_or_simps [simp, result_simps]:
  "ok_or None e = Inl e"
  "ok_or (Some x) e = Inr x"
  by (simp_all add: ok_or_def)

lemma ok_or_eq_Inr [simp, result_splits]: "ok_or o' e = Inr x \<longleftrightarrow> o' = Some x"
  by (cases o') auto

lemma ok_or_eq_Inl [simp]: "ok_or o' e = Inl e' \<longleftrightarrow> o' = None \<and> e' = e"
  by (cases o') auto

text \<open>\<open>slice.get(i)\<close>, and the panicking \<open>slice[i]\<close>.\<close>

definition get_nth :: "'a list \<Rightarrow> nat \<Rightarrow> 'a option" where
  "get_nth xs i = (if i < length xs then Some (xs ! i) else None)"

lemma get_nth_eq_Some [simp]: "get_nth xs i = Some x \<longleftrightarrow> i < length xs \<and> xs ! i = x"
  by (auto simp: get_nth_def)

lemma get_nth_eq_None [simp]: "get_nth xs i = None \<longleftrightarrow> length xs \<le> i"
  by (auto simp: get_nth_def)

definition idx :: "'a list \<Rightarrow> nat \<Rightarrow> ('m, 'd) failure + 'a" where
  "idx xs i = ok_or (get_nth xs i) Panicked"

lemma idx_eq_Inr [simp, result_splits]: "idx xs i = Inr x \<longleftrightarrow> i < length xs \<and> xs ! i = x"
  by (simp add: idx_def)

lemma idx_eq_Inl [simp]: "idx xs i = Inl e \<longleftrightarrow> length xs \<le> i \<and> e = Panicked"
  by (auto simp: idx_def)

lemma idx_in_range [simp]: "i < length xs \<Longrightarrow> idx xs i = Inr (xs ! i)"
  by simp

section \<open>Panic freedom\<close>

text \<open>\<open>safe m\<close>: the computation \<open>m\<close> does not panic.\<close>

definition safe :: "('m, 'd) failure + 'a \<Rightarrow> bool" where
  "safe m \<longleftrightarrow> m \<noteq> Inl Panicked"

named_theorems safe_intros \<open>introduction rules for panic freedom\<close>

lemma safe_simps [simp]:
  "safe (Inr x)" "safe (Inl (Rejected r))" "safe (Inl (Detailed d))" "\<not> safe (Inl Panicked)"
  by (simp_all add: safe_def)

lemma safe_bindE [safe_intros]:
  "safe m \<Longrightarrow> (\<And>x. m = Inr x \<Longrightarrow> safe (f x)) \<Longrightarrow> safe (bindE m f)"
  by (cases m) (auto simp: safe_def)

lemma safe_mapE [simp]: "safe (mapE f m) = safe m"
  by (cases m) (auto simp: safe_def)

lemma safe_ensure [simp]: "safe (ensure b (Rejected r))" "safe (ensure b (Detailed d))"
  by (auto simp: ensure_def)

lemma safe_ok_or [simp]: "safe (ok_or o' (Rejected r))"
  by (cases o') auto

lemma safe_idx [simp]: "safe (idx xs i) \<longleftrightarrow> i < length xs"
  by (auto simp: safe_def)

lemma safe_traverse [safe_intros]: "(\<And>x. x \<in> set xs \<Longrightarrow> safe (f x)) \<Longrightarrow> safe (traverse f xs)"
  by (induction xs) (auto intro!: safe_intros)

lemma safe_anyE [safe_intros]: "(\<And>c. c \<in> set cs \<Longrightarrow> safe c) \<Longrightarrow> safe (anyE cs)"
  by (induction cs) (auto intro!: safe_intros)

lemma safe_reject_if [simp]: "safe (reject_if c (Rejected r)) = safe c"
  by (cases c) (auto simp: reject_if_def safe_def)

lemma safe_foldE:
  assumes "P s"
    and "\<And>x s. x \<in> set xs \<Longrightarrow> P s \<Longrightarrow> safe (f x s)"
    and "\<And>x s t. x \<in> set xs \<Longrightarrow> P s \<Longrightarrow> f x s = Inr t \<Longrightarrow> P t"
  shows "safe (foldE f xs s)"
  using assms
proof (induction xs arbitrary: s)
  case (Cons x xs)
  have "safe (foldE f xs t)" if "f x s = Inr t" for t
  proof (rule Cons.IH)
    show "P t"
      using Cons.prems(3) [of x s t] Cons.prems(1) that by simp
    show "safe (f y u)" if "y \<in> set xs" and "P u" for y u
      using Cons.prems(2) that by simp
    show "P v" if "y \<in> set xs" and "P u" and "f y u = Inr v" for y u v
      using Cons.prems(3) [of y u v] that by simp
  qed
  then show ?case
    using Cons.prems by (auto intro!: safe_intros)
qed simp

section \<open>Lists\<close>

lemma list_all2_same_nth:
  "list_all2 P xs ys \<Longrightarrow> i < length xs \<Longrightarrow> P (xs ! i) (ys ! i)"
  by (simp add: list_all2_conv_all_nth)

lemma mapE_cong [fundef_cong]:
  "m = m' \<Longrightarrow> (\<And>x. m' = Inr x \<Longrightarrow> f x = g x) \<Longrightarrow> mapE f m = mapE g m'"
  by (cases m') auto

lemma idx_in: "idx xs i = Inr x \<Longrightarrow> x \<in> set xs"
  by auto

lemma get_nth_Nil [simp]: "get_nth [] i = None"
  by (simp add: get_nth_def)

text \<open>\<open>slice[i] = v\<close>.\<close>

definition set_idx :: "'a list \<Rightarrow> nat \<Rightarrow> 'a \<Rightarrow> ('m, 'd) failure + 'a list" where
  "set_idx xs i v = (if i < length xs then Inr (xs[i := v]) else Inl Panicked)"

lemma set_idx_eq_Inr [simp, result_splits]:
  "set_idx xs i v = Inr ys \<longleftrightarrow> i < length xs \<and> ys = xs[i := v]"
  by (auto simp: set_idx_def)

lemma safe_set_idx [simp]: "safe (set_idx xs i v) \<longleftrightarrow> i < length xs"
  by (simp add: set_idx_def)

end
