(* ===== verification/Model.thy ===== *)
theory Model
  imports Prelude
begin

text \<open>
  The checked native IR of \<open>compiler/src/model.rs\<close>: types, operators, runtime primitives and
  the \<open>checked\<close> module's program, function, block, statement and expression forms.

  \<open>usize\<close> indices are \<open>nat\<close>, \<open>i64\<close> literals are \<open>int\<close> (the decoder keeps them in range),
  an \<open>f64\<close> is its 64-bit pattern, and a \<open>String\<close> is its UTF-8 byte sequence, a \<open>string\<close> whose
  characters are bytes.  \<open>Box\<close> disappears.  The source enum \<open>Primitive\<close> is the disjoint union
  of three enumerations that follow its order of declaration: the value and container
  operations, the platform operations and the scheduling operations.
\<close>

section \<open>Spans and types\<close>

record span =
  sp_start :: nat
  sp_end :: nat

datatype (plugins only: code size) ty =
    TInt | TFloat | TBool | TText | TBytes
  | TList nat
  | TDyn nat
  | TFunction nat
  | TUnit
  | TData nat
  | TParameter nat

section \<open>Operators and runtime primitives\<close>

datatype (plugins only: code size) unary = UNeg | UNot | UBitNot

datatype (plugins only: code size) binary =
    BAdd | BSub | BMul | BDiv | BRem | BEq | BNe | BLt | BLe | BGt | BGe | BAnd | BOr
  | BBitAnd | BBitOr | BBitXor | BShl | BShr

datatype (plugins only: code size) core_op =
    FloatFromInt | FloatToInt | FloatParse | FloatFormat | TextLen | TextByte
  | TextConcat | TextEqual | TextSlice | UnicodeAlphabetic | UnicodeAlphanumeric
  | UnicodeWhitespace | ArgCount | ArgText | ProcessRun | ProcessRunInput
  | ProcessCaptureConfigured | ProcessCaptureInputConfigured | EnvGet | Exit
  | BytesNew | BytesLen | BytesGet | BytesPush | BytesSet | BytesUtf8 | BytesTextCopy
  | ListNew | ListNewCapacity | ListLen | ListGet | ListPush | ListSet | ListPop
  | ListRetainRange | CleanupEach

datatype (plugins only: code size) platform_op =
    Open | Create | Read | Write | WriteBytes | Close | SocketListen
  | SocketBindDatagram | SocketConnectDatagram | SocketDatagramBroadcast
  | SocketMembershipV4 | SocketMembershipV6 | SocketMulticastV4 | SocketMulticastV6
  | SocketConnect | SocketConnectStatus | SocketAccept | SocketRead | SocketWriteBytes
  | SocketReceiveFrom | SocketSendTo | SocketSendDatagram | SocketClose
  | SocketLocalPort | SocketAddress | SocketSetNodelay | SocketSetKeepalive
  | SocketBuffer | SocketShutdownWrite | SocketAbort | TlsClient | TlsServer
  | TlsReceive | TlsRead | TlsWrite | TlsOutput | TlsStatus | TlsShutdown | TlsRelease
  | TlsProtocol | TlsPeerCertificate | TlsGeneration | TlsNotify | DirectoryRead
  | PathKind | PathCanonical | DirectoryCreate | PathRename | FileRemove
  | DirectoryRemove | PathEntryKind

datatype (plugins only: code size) task_op =
    TaskCreate | TaskAdopt | TaskReturn | TaskCleanupPush | TaskResultCleanupPush
  | TaskCleanupPop | TaskAwait | TaskObserve | TaskWaitNext | TaskNextResult
  | TaskNextTerminalResult | TaskNextTerminalIndex | TaskNextTerminalFailure
  | TaskStatus | TaskFailure | TaskCancelBegin | TaskDrain | FaultText | TaskResult
  | TaskResultCase | TaskRelease | TaskRun | TaskWaitTimer | TaskWaitSocket
  | TaskWaitTls | TaskWaitFileRead | TaskWaitWorker | TaskWorkerResult
  | TaskWaitFileWrite | TaskWaitFileWriteBytes | TaskFileResult | TaskBytesResult
  | TaskWaitResolve | TaskWaitProcessCapture | TaskProcessCaptureResult
  | TaskWaitFileOpen | TaskWaitFileClose | TaskFileOpenResult | FileAbort
  | MonotonicNs | MutexLock | MutexUnlock

datatype (plugins only: code size) primitive =
    Core core_op
  | Platform platform_op
  | Scheduling task_op

section \<open>Checked programs\<close>

record source_position =
  pos_file :: nat
  pos_line :: nat
  pos_column :: nat

text \<open>\<open>sites\<close> is a \<open>BTreeMap\<close> keyed by native function and span.\<close>

record source_map =
  paths :: "string list"
  sites :: "(nat \<times> span) \<rightharpoonup> source_position"

record signature =
  sig_params :: "ty list"
  sig_result :: ty

text \<open>Method signatures exclude the erased receiver.\<close>

type_synonym interface = "signature list"

text \<open>Absent method slots are unreferenced by the selected closed-world program.\<close>

record witness =
  wit_interface :: nat
  wit_concrete :: ty
  wit_methods :: "nat option list"

datatype (plugins only: code size) data_kind =
    KRecord "(string \<times> ty) list"
  | KEnum "(string \<times> ty list) list"
  | KRefined ty
  | KTask ty
  | KFrame "(string \<times> ty) list"

record data =
  data_name :: string
  data_kind_of :: data_kind

datatype (plugins only: code size)
  expr = Expr (e_kind: expr_kind) (e_ty: ty) (e_span: span)
and expr_kind =
    EInt int
  | EFloat "64 word"
  | EBool bool
  | EText string
  | EBytes "8 word list"
  | EPrimitive primitive "expr list"
  | ECoerce expr
  | ELocal nat
  | EUnary unary expr
  | EBinary binary expr expr
  | ECall nat "expr list"
  | EFunctionRef nat
  | EClosure nat expr
  | EIndirectCall expr "expr list"
  | EDynBox nat expr
  | EDynCall expr nat "expr list"
  | ERecord "(nat \<times> expr) list"
  | EFrameNew "(nat \<times> expr) list"
  | EFrameStore expr nat expr
  | EList "expr list"
  | EField expr nat
  | EVariant nat "expr list"
  | EMatch expr "match_arm list"
  | EBlock block
  | EIf expr block "block option"
and match_arm =
    MatchArm (arm_variant: "nat option") (arm_bindings: "nat option list")
      (arm_whole: "nat option") (arm_body: block)
and block = Block (b_statements: "stmt list") (b_tail: "expr option") (b_falls_through: bool)
and stmt = Stmt (s_kind: stmt_kind) (s_span: span)
and stmt_kind =
    SLet nat expr
  | SAssign nat expr
  | SReturn "expr option"
  | SAssert expr string
  | SDiscard expr
  | SExpr expr
  | SWhile expr block
  | SBreak
  | SContinue
  | SDefer nat block
  | SCleanup nat block

record func =
  fn_name :: string
  fn_params :: "ty list"
  fn_result :: ty
  fn_locals :: "ty list"
  fn_requires :: "expr list"
  fn_body :: block
  fn_span :: span

record program =
  p_types :: "data list"
  p_lists :: "ty list"
  p_functions :: "func list"
  p_function_types :: "signature list"
  p_interfaces :: "interface list"
  p_witnesses :: "witness list"
  p_entry :: "nat option"
  p_tests :: "nat list"
  p_test_names :: "string list"
  p_target_inputs :: "(string \<times> string) list"
  p_source_locations :: source_map
  p_exports :: "nat list"

section \<open>Type references\<close>

text \<open>A type reference is in range when every table index it carries is.\<close>

fun ty_in_range :: "program \<Rightarrow> ty \<Rightarrow> bool" where
  "ty_in_range p (TList i) = (i < length (p_lists p))"
| "ty_in_range p (TDyn i) = (i < length (p_interfaces p))"
| "ty_in_range p (TFunction i) = (i < length (p_function_types p))"
| "ty_in_range p (TData i) = (i < length (p_types p))"
| "ty_in_range p _ = True"

section \<open>Results\<close>

text \<open>The decoder's results: an \<open>Err\<close> carries one of its messages, or the data of the one message
  it formats (the field, expected type and found type of a mistyped frame store).\<close>

type_synonym error = "(string, nat \<times> ty \<times> ty) failure"

type_synonym 'a result = "error + 'a"

end
