(* ===== verification/Utf8.thy ===== *)
theory Utf8
  imports Prelude
begin

text \<open>
  What the decoder uses of Rust's strings and number parsing.  A \<open>&str\<close> is its UTF-8 byte
  sequence (a \<open>string\<close>, whose characters are bytes); \<open>valid_utf8\<close> is the invariant of the
  type \<open>str\<close>, \<open>is_char_boundary\<close> decides which byte offsets may slice it.  \<open>parse_i64\<close> is
  \<open>str::parse::<i64>\<close> and \<open>show_int\<close> the decimal formatting of an integer; \<open>parse_f64\<close> is
  \<open>str::parse::<f64>\<close>, correctly rounded to the nearest binary64 value, ties to even.
\<close>

section \<open>Bytes and character boundaries\<close>

definition byte_of :: "char \<Rightarrow> nat" where
  "byte_of c = of_char c"

definition is_continuation :: "char \<Rightarrow> bool" where
  "is_continuation c = (128 \<le> byte_of c \<and> byte_of c < 192)"

definition is_char_boundary :: "string \<Rightarrow> nat \<Rightarrow> bool" where
  "is_char_boundary s i =
     (i = 0 \<or> (if i < length s then \<not> is_continuation (s ! i) else i = length s))"

fun valid_utf8 :: "string \<Rightarrow> bool" where
  "valid_utf8 [] = True"
| "valid_utf8 (a # s) =
     (let n = byte_of a in
      if n < 128 then valid_utf8 s
      else if 194 \<le> n \<and> n \<le> 223 then
        (case s of b # t \<Rightarrow> is_continuation b \<and> valid_utf8 t | _ \<Rightarrow> False)
      else if 224 \<le> n \<and> n \<le> 239 then
        (case s of b # c # t \<Rightarrow>
           is_continuation b \<and> is_continuation c \<and>
           (n = 224 \<longrightarrow> 160 \<le> byte_of b) \<and> (n = 237 \<longrightarrow> byte_of b < 160) \<and> valid_utf8 t
         | _ \<Rightarrow> False)
      else if 240 \<le> n \<and> n \<le> 244 then
        (case s of b # c # d # t \<Rightarrow>
           is_continuation b \<and> is_continuation c \<and> is_continuation d \<and>
           (n = 240 \<longrightarrow> 144 \<le> byte_of b) \<and> (n = 244 \<longrightarrow> byte_of b < 144) \<and> valid_utf8 t
         | _ \<Rightarrow> False)
      else False)"

text \<open>The part of the invariant that slicing after an ASCII byte relies on.\<close>

fun ascii_closed :: "string \<Rightarrow> bool" where
  "ascii_closed [] = True"
| "ascii_closed [a] = True"
| "ascii_closed (a # b # s) = ((byte_of a < 128 \<longrightarrow> \<not> is_continuation b) \<and> ascii_closed (b # s))"

lemma valid_utf8_head: "valid_utf8 (a # s) \<Longrightarrow> \<not> is_continuation a"
  by (auto simp: Let_def is_continuation_def split: if_splits)

lemma ascii_closed_Cons:
  "ascii_closed (a # s) \<longleftrightarrow> (byte_of a < 128 \<and> s \<noteq> [] \<longrightarrow> \<not> is_continuation (hd s)) \<and> ascii_closed s"
  by (cases s) auto

lemma continuation_high: "is_continuation b \<Longrightarrow> \<not> byte_of b < 128"
  by (simp add: is_continuation_def)

lemma valid_utf8_hd: "valid_utf8 s \<Longrightarrow> s \<noteq> [] \<Longrightarrow> \<not> is_continuation (hd s)"
  by (cases s) (auto dest: valid_utf8_head simp del: valid_utf8.simps)

text \<open>One encoded character: its lead byte is ASCII, or its remaining bytes are continuations.\<close>

lemma valid_utf8_step:
  assumes "valid_utf8 (a # s)"
  obtains k where "k \<le> length s" "valid_utf8 (drop k s)" "\<forall>i<k. is_continuation (s ! i)"
    "byte_of a < 128 \<longrightarrow> k = 0"
proof -
  consider "byte_of a < 128" | "194 \<le> byte_of a \<and> byte_of a \<le> 223"
    | "224 \<le> byte_of a \<and> byte_of a \<le> 239" | "240 \<le> byte_of a \<and> byte_of a \<le> 244"
    using assms by (auto simp: Let_def split: if_splits)
  then show thesis
  proof cases
    case 1
    with assms show thesis by (intro that [of 0]) auto
  next
    case 2
    with assms show thesis
      by (intro that [of 1]) (auto simp: Let_def split: list.splits)
  next
    case 3
    with assms show thesis
      by (intro that [of 2]) (auto simp: Let_def less_Suc_eq numeral_2_eq_2 split: list.splits)
  next
    case 4
    with assms show thesis
      by (intro that [of 3]) (auto simp: Let_def less_Suc_eq numeral_3_eq_3 split: list.splits)
  qed
qed

lemma ascii_closed_continuations:
  "ascii_closed (drop k s) \<Longrightarrow> \<forall>i<k. is_continuation (s ! i) \<Longrightarrow> k \<le> length s \<Longrightarrow> ascii_closed s"
proof (induction k arbitrary: s)
  case (Suc k)
  then obtain b t where s: "s = b # t" by (cases s) auto
  with Suc.prems have "\<forall>i<k. is_continuation (t ! i)" and "is_continuation b" by auto
  with Suc s show ?case by (auto simp: ascii_closed_Cons continuation_high)
qed simp

lemma valid_utf8_ascii_closed: "valid_utf8 s \<Longrightarrow> ascii_closed s"
proof (induction s rule: length_induct)
  case (1 s)
  show ?case
  proof (cases s)
    case (Cons a t)
    with "1.prems" have "valid_utf8 (a # t)" by simp
    from valid_utf8_step [OF this] obtain k where k: "k \<le> length t" "valid_utf8 (drop k t)"
        "\<forall>i<k. is_continuation (t ! i)" "byte_of a < 128 \<longrightarrow> k = 0" .
    have shorter: "length (drop k t) < length s"
      using Cons by simp
    from "1.IH" [rule_format, OF shorter k(2)] have "ascii_closed (drop k t)" .
    from ascii_closed_continuations [OF this k(3,1)] have "ascii_closed t" .
    moreover have "\<not> is_continuation (hd t)" if "byte_of a < 128" and "t \<noteq> []"
      using valid_utf8_hd [of t] k(2) k(4) that by simp
    ultimately show ?thesis
      using Cons by (simp add: ascii_closed_Cons)
  qed simp
qed

lemma ascii_closed_nth:
  "ascii_closed s \<Longrightarrow> byte_of (s ! i) < 128 \<Longrightarrow> Suc i < length s \<Longrightarrow> \<not> is_continuation (s ! Suc i)"
proof (induction s arbitrary: i rule: ascii_closed.induct)
  case (3 a b s)
  then show ?case by (cases i) auto
qed auto

lemma ascii_boundary:
  "valid_utf8 s \<Longrightarrow> i < length s \<Longrightarrow> byte_of (s ! i) < 128 \<Longrightarrow> is_char_boundary s (Suc i)"
  using ascii_closed_nth [OF valid_utf8_ascii_closed, of s i]
  by (auto simp: is_char_boundary_def)

lemma is_char_boundary_0 [simp]: "is_char_boundary s 0"
  by (simp add: is_char_boundary_def)

lemma is_char_boundary_length [simp]: "is_char_boundary s (length s)"
  by (simp add: is_char_boundary_def)

lemma is_char_boundary_le: "is_char_boundary s i \<Longrightarrow> i \<le> length s"
  by (auto simp: is_char_boundary_def split: if_splits)

section \<open>Decimal integers\<close>

definition is_digit :: "char \<Rightarrow> bool" where
  "is_digit c = (48 \<le> byte_of c \<and> byte_of c \<le> 57)"

definition digit_value :: "char \<Rightarrow> int" where
  "digit_value c = int (byte_of c) - 48"

fun digits_value :: "int \<Rightarrow> string \<Rightarrow> int" where
  "digits_value n [] = n"
| "digits_value n (c # s) = digits_value (10 * n + digit_value c) s"

definition i64_min :: int where "i64_min = - (2 ^ 63)"
definition i64_max :: int where "i64_max = 2 ^ 63 - 1"

definition in_i64 :: "int \<Rightarrow> bool" where
  "in_i64 v = (i64_min \<le> v \<and> v \<le> i64_max)"

text \<open>An optional sign, then at least one digit; values outside \<open>i64\<close> are an error.\<close>

definition parse_i64 :: "string \<Rightarrow> int option" where
  "parse_i64 s =
     (let negative = (s \<noteq> [] \<and> hd s = CHR ''-'');
          digits = (if s \<noteq> [] \<and> (hd s = CHR ''-'' \<or> hd s = CHR ''+'') then tl s else s);
          magnitude = digits_value 0 digits;
          value = (if negative then - magnitude else magnitude)
      in if digits \<noteq> [] \<and> list_all is_digit digits \<and> in_i64 value then Some value else None)"

definition digit_char :: "nat \<Rightarrow> char" where
  "digit_char d = char_of (48 + d)"

fun show_nat :: "nat \<Rightarrow> string" where
  "show_nat n = (if n < 10 then [digit_char n] else show_nat (n div 10) @ [digit_char (n mod 10)])"

declare show_nat.simps [simp del]

definition show_int :: "int \<Rightarrow> string" where
  "show_int v = (if v < 0 then CHR ''-'' # show_nat (nat (- v)) else show_nat (nat v))"

lemma byte_of_digit_char: "d < 10 \<Longrightarrow> byte_of (digit_char d) = 48 + d"
  by (simp add: byte_of_def digit_char_def)

lemma digit_char_digit [simp]: "d < 10 \<Longrightarrow> is_digit (digit_char d)"
  by (simp add: is_digit_def byte_of_digit_char)

lemma digit_value_digit_char [simp]: "d < 10 \<Longrightarrow> digit_value (digit_char d) = int d"
  by (simp add: digit_value_def byte_of_digit_char)

lemma digits_value_append: "digits_value n (s @ t) = digits_value (digits_value n s) t"
  by (induction s arbitrary: n) auto

lemma show_nat_digits: "list_all is_digit (show_nat n)"
proof (induction n rule: show_nat.induct)
  case (1 n)
  then show ?case by (cases "n < 10") (simp_all add: show_nat.simps [of n])
qed

lemma show_nat_nonempty [simp]: "show_nat n \<noteq> []"
  by (subst show_nat.simps) simp

lemma digits_value_show_nat: "digits_value 0 (show_nat n) = int n"
proof (induction n rule: show_nat.induct)
  case (1 n)
  then show ?case
    by (cases "n < 10")
      (simp_all add: show_nat.simps [of n] digits_value_append zmod_int zdiv_int)
qed

lemma digit_not_sign: "is_digit c \<Longrightarrow> c \<noteq> CHR ''-'' \<and> c \<noteq> CHR ''+'' \<and> c \<noteq> CHR 0x0A"
  by (auto simp: is_digit_def byte_of_def)

lemma digit_ascii: "is_digit c \<Longrightarrow> byte_of c < 128"
  by (simp add: is_digit_def)

lemma parse_show_int: "in_i64 v \<Longrightarrow> parse_i64 (show_int v) = Some v"
proof -
  assume range: "in_i64 v"
  have hd: "is_digit (hd (show_nat n))" for n
    using show_nat_digits [of n] by (cases "show_nat n") auto
  from range show ?thesis
    using digit_not_sign [OF hd [of "nat v"]] show_nat_digits
    by (auto simp: parse_i64_def show_int_def digits_value_show_nat Let_def)
qed

lemma show_int_no_newline: "c \<in> set (show_int v) \<Longrightarrow> c \<noteq> CHR 0x0A"
  using show_nat_digits digit_not_sign
  by (auto simp: show_int_def list_all_iff split: if_splits)

lemma parse_i64_range: "parse_i64 s = Some v \<Longrightarrow> in_i64 v"
  by (auto simp: parse_i64_def Let_def split: if_splits)

section \<open>Binary64 literals\<close>

text \<open>
  The grammar of \<open>str::parse::<f64>\<close>: an optional sign, then \<open>inf\<close>, \<open>infinity\<close> or \<open>nan\<close> in
  any case, or digits with an optional point and an optional exponent, at least one digit in
  the mantissa and in the exponent.
\<close>

definition lower :: "char \<Rightarrow> char" where
  "lower c = (if 65 \<le> byte_of c \<and> byte_of c \<le> 90 then char_of (byte_of c + 32) else c)"

fun span_digits :: "string \<Rightarrow> string \<times> string" where
  "span_digits [] = ([], [])"
| "span_digits (c # s) =
     (if is_digit c then (let (d, r) = span_digits s in (c # d, r)) else ([], c # s))"

definition parse_exponent :: "string \<Rightarrow> int option" where
  "parse_exponent s =
     (case s of
        [] \<Rightarrow> Some 0
      | c # t \<Rightarrow>
          if lower c \<noteq> CHR ''e'' then None
          else
            (let negative = (t \<noteq> [] \<and> hd t = CHR ''-'');
                 d = (if t \<noteq> [] \<and> (hd t = CHR ''-'' \<or> hd t = CHR ''+'') then tl t else t)
             in if d \<noteq> [] \<and> list_all is_digit d
                then Some (if negative then - digits_value 0 d else digits_value 0 d)
                else None))"

text \<open>A decimal literal as mantissa and exponent of ten.\<close>

definition parse_decimal :: "string \<Rightarrow> (int \<times> int) option" where
  "parse_decimal s =
     (let (whole, r) = span_digits s;
          (frac, r') = (case r of c # t \<Rightarrow> if c = CHR ''.'' then span_digits t else ([], r) | [] \<Rightarrow> ([], []))
      in if whole = [] \<and> frac = [] then None
         else map_option (\<lambda>e. (digits_value 0 (whole @ frac), e - int (length frac))) (parse_exponent r'))"

function bit_length :: "int \<Rightarrow> int" where
  "bit_length n = (if n \<le> 0 then 0 else 1 + bit_length (n div 2))"
  by pat_completeness auto
termination
  by (relation "measure nat") auto

declare bit_length.simps [simp del]

text \<open>The quotient of two positive integers rounded to the nearest integer, ties to even.\<close>

definition round_div :: "int \<Rightarrow> int \<Rightarrow> int" where
  "round_div n d =
     (let q = n div d; r = n mod d in
      if 2 * r < d then q else if 2 * r > d then q + 1 else q + q mod 2)"

text \<open>
  The magnitude \<open>n / d\<close> as a binary64 pattern without the sign bit: \<open>exponent\<close> is the exponent
  of the unit in the last place, at least \<open>-1074\<close>; a mantissa that rounds up to \<open>2 ^ 53\<close>
  carries into the exponent field, and an exponent beyond the largest gives infinity.
\<close>

definition round_f64 :: "int \<Rightarrow> int \<Rightarrow> int" where
  "round_f64 n d =
     (if n = 0 then 0
      else
        (let guess = bit_length n - bit_length d - 53;
             scaled = (\<lambda>e. if 0 \<le> e then (n, d * 2 ^ nat e) else (n * 2 ^ nat (- e), d));
             ulp = (let (a, b) = scaled guess in if a < b * 2 ^ 53 then guess else guess + 1);
             exponent = max ulp (- 1074);
             mantissa = (let (a, b) = scaled exponent in round_div a b);
             pattern = mantissa + (exponent + 1074) * 2 ^ 52
         in min pattern (2047 * 2 ^ 52)))"

definition parse_f64 :: "string \<Rightarrow> 64 word option" where
  "parse_f64 s =
     (let negative = (s \<noteq> [] \<and> hd s = CHR ''-'');
          body = (if s \<noteq> [] \<and> (hd s = CHR ''-'' \<or> hd s = CHR ''+'') then tl s else s);
          word = map lower body;
          magnitude =
            (if word = ''inf'' \<or> word = ''infinity'' then Some (2047 * 2 ^ 52)
             else if word = ''nan'' then Some (2047 * 2 ^ 52 + 2 ^ 51)
             else
               map_option
                 (\<lambda>(m, e). if 0 \<le> e then round_f64 (m * 10 ^ nat e) 1
                    else round_f64 m (10 ^ nat (- e)))
                 (parse_decimal body))
      in map_option (\<lambda>p. word_of_int (p + (if negative then 2 ^ 63 else 0))) magnitude)"

end
