(* ===== verification/Wire.thy ===== *)
theory Wire
  imports Model Utf8
begin

text \<open>
  The reader of the private checked-IR stream (\<open>compiler/src/native_input.rs\<close>, \<open>struct Reader\<close>
  and the wire forms \<open>Data\<close>, \<open>Function\<close>, \<open>Expr\<close> and \<open>Arm\<close>).  Reading functions take the
  reader state and return the item with the advanced state.  Slicing the text at a byte that
  starts no character, or past its end, panics.
\<close>

section \<open>Wire forms\<close>

datatype (plugins only: code size)
  wexpr = WExpr (w_tag: nat) (w_ty: nat) (w_span: span) (w_text: string) (w_index: int)
    (w_falls: bool) (w_children: "wexpr list") (w_arms: "warm list")
and warm = WArm (wa_variant: "nat option") (wa_bindings: "nat option list")
    (wa_whole: "nat option") (wa_body: "wexpr list")

record wdata =
  wd_tag :: nat
  wd_symbol :: int
  wd_element :: nat
  wd_params :: "nat list"
  wd_fields :: "(string \<times> nat) list"
  wd_variants :: "(string \<times> nat list) list"

record wfunction =
  wf_symbol :: int
  wf_span :: span
  wf_params :: "nat list"
  wf_result :: nat
  wf_locals :: "nat list"
  wf_preconditions :: "wexpr list"
  wf_body :: wexpr

section \<open>Index conversions\<close>

definition index :: "int \<Rightarrow> nat result" where
  "index value =
     (if value < 0 then Inl (Rejected ''negative checked-IR index'') else Inr (nat value))"

definition optional :: "int \<Rightarrow> nat option result" where
  "optional value = (if value = - 1 then Inr None else mapE Some (index value))"

definition at :: "'a list \<Rightarrow> nat \<Rightarrow> 'a result" where
  "at values i = ok_or (get_nth values i) (Rejected ''checked-IR reference is out of bounds'')"

section \<open>The reader\<close>

record reader =
  r_text :: string
  r_offset :: nat

type_synonym 'a reading = "reader \<Rightarrow> (error + 'a \<times> reader)"

definition bindR :: "'a reading \<Rightarrow> ('a \<Rightarrow> 'b reading) \<Rightarrow> 'b reading" where
  "bindR m f = (\<lambda>r. bindE (m r) (\<lambda>(x, r'). f x r'))"

definition returnR :: "'a \<Rightarrow> 'a reading" where
  "returnR x = (\<lambda>r. Inr (x, r))"

definition liftR :: "'a result \<Rightarrow> 'a reading" where
  "liftR m = (\<lambda>r. mapE (\<lambda>x. (x, r)) m)"

fun find_newline :: "string \<Rightarrow> nat option" where
  "find_newline [] = None"
| "find_newline (c # s) = (if c = CHR 0x0A then Some 0 else map_option Suc (find_newline s))"

text \<open>\<open>Reader::integer\<close>: a decimal line.\<close>

definition rd_integer :: "int reading" where
  "rd_integer r =
     (if \<not> is_char_boundary (r_text r) (r_offset r) then Inl Panicked
      else
        (let rest = drop (r_offset r) (r_text r) in
         bindE (ok_or (find_newline rest) (Rejected ''truncated checked-IR integer'')) (\<lambda>n.
         bindE (ok_or (parse_i64 (take n rest)) (Rejected ''invalid checked-IR integer'')) (\<lambda>v.
         Inr (v, r\<lparr>r_offset := r_offset r + n + 1\<rparr>)))))"

text \<open>\<open>Reader::index\<close>.\<close>

definition rd_index :: "nat reading" where
  "rd_index = bindR rd_integer (\<lambda>v. liftR (index v))"

text \<open>\<open>Reader::string\<close>: a byte length, then that many bytes on character boundaries.\<close>

definition rd_string :: "string reading" where
  "rd_string = bindR rd_index (\<lambda>len r.
     (let stop = r_offset r + len in
      if (2::int) ^ 64 \<le> int stop then Inl (Rejected ''text length overflow'')
      else if is_char_boundary (r_text r) (r_offset r) \<and> is_char_boundary (r_text r) stop
      then Inr (take len (drop (r_offset r) (r_text r)), r\<lparr>r_offset := stop\<rparr>)
      else Inl (Rejected ''truncated or invalid UTF-8 field'')))"

primrec repeatR :: "nat \<Rightarrow> 'a reading \<Rightarrow> 'a list reading" where
  "repeatR 0 item = returnR []"
| "repeatR (Suc n) item = bindR item (\<lambda>x. bindR (repeatR n item) (\<lambda>xs. returnR (x # xs)))"

text \<open>\<open>Reader::sequence\<close>: a count that the remaining bytes can hold, then the items.  The
  subtraction \<open>len - offset\<close> would overflow past the end of the text.\<close>

definition rd_sequence :: "'a reading \<Rightarrow> 'a list reading" where
  "rd_sequence item = bindR rd_index (\<lambda>count r.
     if length (r_text r) < r_offset r then Inl Panicked
     else if length (r_text r) - r_offset r < count
     then Inl (Rejected ''truncated checked-IR sequence'')
     else repeatR count item r)"

text \<open>\<open>Reader::span\<close>.\<close>

definition rd_span :: "span reading" where
  "rd_span =
     bindR rd_index (\<lambda>start.
     bindR rd_index (\<lambda>stop.
     if stop < start then liftR (Inl (Rejected ''reversed checked-IR span''))
     else returnR \<lparr>sp_start = start, sp_end = stop\<rparr>))"

definition rd_optional :: "nat option reading" where
  "rd_optional = bindR rd_integer (\<lambda>v. liftR (optional v))"

definition rd_falls :: "bool reading" where
  "rd_falls = bindR rd_integer (\<lambda>v.
     if v = 0 then returnR False
     else if v = 1 then returnR True
     else liftR (Inl (Rejected ''invalid checked-IR fallthrough flag'')))"

definition rd_arm :: "wexpr reading \<Rightarrow> warm reading" where
  "rd_arm item =
     bindR rd_optional (\<lambda>variant.
     bindR (rd_sequence rd_optional) (\<lambda>bindings.
     bindR rd_optional (\<lambda>whole.
     bindR (rd_sequence item) (\<lambda>body.
     returnR (WArm variant bindings whole body)))))"

text \<open>
  \<open>Reader::expression\<close>.  The code counts the depth up and refuses depths above 512; the model
  counts the levels left down, so \<open>rd_expression depth\<close> is the call at that depth and
  \<open>rd_expr 0\<close> is the refused one.
\<close>

primrec rd_expr :: "nat \<Rightarrow> wexpr reading" where
  "rd_expr 0 =
     liftR (Inl (Rejected ''checked-IR nesting exceeds the native bridge limit''))"
| "rd_expr (Suc levels) =
     bindR rd_index (\<lambda>tag.
     bindR rd_index (\<lambda>t.
     bindR rd_span (\<lambda>span.
     bindR rd_string (\<lambda>text.
     bindR rd_integer (\<lambda>i.
     bindR rd_falls (\<lambda>falls.
     bindR (rd_sequence (rd_expr levels)) (\<lambda>children.
     bindR (rd_sequence (rd_arm (rd_expr levels))) (\<lambda>arms.
     returnR (WExpr tag t span text i falls children arms)))))))))"

text \<open>Evaluation reads a level only when there is a reader to read from.\<close>

lemma rd_expr_code [code]:
  "rd_expr 0 \<lparr>r_text = s, r_offset = n\<rparr> =
     Inl (Rejected ''checked-IR nesting exceeds the native bridge limit'')"
  "rd_expr (Suc levels) \<lparr>r_text = s, r_offset = n\<rparr> =
     bindR rd_index (\<lambda>tag.
     bindR rd_index (\<lambda>t.
     bindR rd_span (\<lambda>span.
     bindR rd_string (\<lambda>text.
     bindR rd_integer (\<lambda>i.
     bindR rd_falls (\<lambda>falls.
     bindR (rd_sequence (rd_expr levels)) (\<lambda>children.
     bindR (rd_sequence (rd_arm (rd_expr levels))) (\<lambda>arms.
     returnR (WExpr tag t span text i falls children arms)))))))))
     \<lparr>r_text = s, r_offset = n\<rparr>"
  by (simp_all add: liftR_def)

definition rd_expression :: "nat \<Rightarrow> wexpr reading" where
  "rd_expression depth = rd_expr (513 - depth)"

section \<open>Type and function tables\<close>

definition rd_data :: "wdata reading" where
  "rd_data =
     bindR rd_index (\<lambda>tag.
     bindR rd_integer (\<lambda>symbol.
     bindR (if tag = 12 then rd_sequence rd_index else returnR []) (\<lambda>params.
     bindR (if tag \<in> {6, 9, 12, 13} then rd_index else returnR 0) (\<lambda>element.
     bindR (if tag = 7 \<or> tag = 14
            then rd_sequence (bindR rd_string (\<lambda>name. bindR rd_index (\<lambda>t. returnR (name, t))))
            else returnR []) (\<lambda>fields.
     bindR (if tag = 8
            then rd_sequence (bindR rd_string (\<lambda>name.
                   bindR (rd_sequence rd_index) (\<lambda>ts. returnR (name, ts))))
            else returnR []) (\<lambda>variants.
     returnR \<lparr>wd_tag = tag, wd_symbol = symbol, wd_element = element, wd_params = params,
              wd_fields = fields, wd_variants = variants\<rparr>))))))"

definition rd_function :: "wfunction reading" where
  "rd_function =
     bindR rd_integer (\<lambda>symbol.
     bindR rd_span (\<lambda>span.
     bindR (rd_sequence rd_index) (\<lambda>params.
     bindR rd_index (\<lambda>result.
     bindR (rd_sequence rd_index) (\<lambda>locals.
     bindR (rd_sequence (rd_expression 0)) (\<lambda>preconditions.
     bindR (rd_expression 0) (\<lambda>body.
     returnR \<lparr>wf_symbol = symbol, wf_span = span, wf_params = params, wf_result = result,
              wf_locals = locals, wf_preconditions = preconditions, wf_body = body\<rparr>)))))))"

end
