(* ===== verification/Operators.thy ===== *)
theory Operators
  imports Wire
begin

text \<open>
  The operator and runtime-primitive tables of the decoder: \<open>binary\<close>, \<open>primitive\<close>,
  \<open>primitive_arity\<close> and the fixed signatures that \<open>Converter::expr\<close> checks for the operations
  that have one.  The \<open>match\<close> on a string is an association list in the source's order.
\<close>

section \<open>Operators\<close>

definition binary_table :: "(string \<times> binary) list" where
  "binary_table =
     [(''+'', BAdd), (''-'', BSub), (''*'', BMul), (''/'', BDiv), (''%'', BRem),
      (''=='', BEq), (''!='', BNe), (''<'', BLt), (''<='', BLe), (''>'', BGt), (''>='', BGe),
      (''&&'', BAnd), (''||'', BOr), (''&'', BBitAnd), (''|'', BBitOr), (''^'', BBitXor),
      (''<<'', BShl), (''>>'', BShr)]"

definition binary :: "string \<Rightarrow> binary result" where
  "binary value =
     ok_or (map_of binary_table value) (Rejected ''unknown checked binary operation'')"

definition unary_operation :: "string \<Rightarrow> unary result" where
  "unary_operation value =
     (if value = ''-'' then Inr UNeg
      else if value = ''!'' then Inr UNot
      else if value = ''~'' then Inr UBitNot
      else Inl (Rejected ''unknown checked unary operation''))"

section \<open>Runtime primitives\<close>

definition primitive_table :: "(string \<times> primitive) list" where
  "primitive_table =
     [(''float_from_int'', Core FloatFromInt),
      (''float_to_int'', Core FloatToInt),
      (''float_parse'', Core FloatParse),
      (''float_format'', Core FloatFormat),
      (''text_len'', Core TextLen),
      (''text_byte'', Core TextByte),
      (''text_concat'', Core TextConcat),
      (''text_equal'', Core TextEqual),
      (''text_slice'', Core TextSlice),
      (''unicode_alphabetic'', Core UnicodeAlphabetic),
      (''unicode_alphanumeric'', Core UnicodeAlphanumeric),
      (''unicode_whitespace'', Core UnicodeWhitespace),
      (''arg_count'', Core ArgCount),
      (''arg_text'', Core ArgText),
      (''exit'', Core Exit),
      (''process_run'', Core ProcessRun),
      (''process_run_input'', Core ProcessRunInput),
      (''process_capture_configured'', Core ProcessCaptureConfigured),
      (''process_capture_input_configured'', Core ProcessCaptureInputConfigured),
      (''env_get'', Core EnvGet),
      (''bytes_new'', Core BytesNew),
      (''bytes_len'', Core BytesLen),
      (''bytes_get'', Core BytesGet),
      (''bytes_push'', Core BytesPush),
      (''bytes_set'', Core BytesSet),
      (''bytes_utf8'', Core BytesUtf8),
      (''bytes_text_copy'', Core BytesTextCopy),
      (''list_new'', Core ListNew),
      (''list_new_capacity'', Core ListNewCapacity),
      (''list_len'', Core ListLen),
      (''list_get'', Core ListGet),
      (''list_push'', Core ListPush),
      (''list_set'', Core ListSet),
      (''list_pop'', Core ListPop),
      (''list_retain_range'', Core ListRetainRange),
      (''open'', Platform Open),
      (''create'', Platform Create),
      (''read'', Platform Read),
      (''write'', Platform Write),
      (''write_bytes'', Platform WriteBytes),
      (''close'', Platform Close),
      (''socket_listen'', Platform SocketListen),
      (''socket_bind_datagram'', Platform SocketBindDatagram),
      (''socket_connect_datagram'', Platform SocketConnectDatagram),
      (''socket_datagram_broadcast'', Platform SocketDatagramBroadcast),
      (''socket_membership_v4'', Platform SocketMembershipV4),
      (''socket_membership_v6'', Platform SocketMembershipV6),
      (''socket_multicast_v4'', Platform SocketMulticastV4),
      (''socket_multicast_v6'', Platform SocketMulticastV6),
      (''socket_connect'', Platform SocketConnect),
      (''socket_connect_status'', Platform SocketConnectStatus),
      (''socket_accept'', Platform SocketAccept),
      (''socket_read'', Platform SocketRead),
      (''socket_write_bytes'', Platform SocketWriteBytes),
      (''socket_receive_from'', Platform SocketReceiveFrom),
      (''socket_send_to'', Platform SocketSendTo),
      (''socket_send_datagram'', Platform SocketSendDatagram),
      (''socket_close'', Platform SocketClose),
      (''socket_local_port'', Platform SocketLocalPort),
      (''socket_address'', Platform SocketAddress),
      (''socket_set_nodelay'', Platform SocketSetNodelay),
      (''socket_set_keepalive'', Platform SocketSetKeepalive),
      (''socket_buffer'', Platform SocketBuffer),
      (''socket_shutdown_write'', Platform SocketShutdownWrite),
      (''socket_abort'', Platform SocketAbort),
      (''tls_client'', Platform TlsClient),
      (''tls_server'', Platform TlsServer),
      (''tls_receive'', Platform TlsReceive),
      (''tls_read'', Platform TlsRead),
      (''tls_write'', Platform TlsWrite),
      (''tls_output'', Platform TlsOutput),
      (''tls_status'', Platform TlsStatus),
      (''tls_shutdown'', Platform TlsShutdown),
      (''tls_release'', Platform TlsRelease),
      (''tls_protocol'', Platform TlsProtocol),
      (''tls_peer_certificate'', Platform TlsPeerCertificate),
      (''tls_generation'', Platform TlsGeneration),
      (''tls_notify'', Platform TlsNotify),
      (''directory_read'', Platform DirectoryRead),
      (''path_kind'', Platform PathKind),
      (''path_canonical'', Platform PathCanonical),
      (''directory_create'', Platform DirectoryCreate),
      (''path_rename'', Platform PathRename),
      (''file_remove'', Platform FileRemove),
      (''directory_remove'', Platform DirectoryRemove),
      (''path_entry_kind'', Platform PathEntryKind),
      (''task_create'', Scheduling TaskCreate),
      (''task_adopt'', Scheduling TaskAdopt),
      (''task_return'', Scheduling TaskReturn),
      (''task_cleanup_push'', Scheduling TaskCleanupPush),
      (''task_result_cleanup_push'', Scheduling TaskResultCleanupPush),
      (''task_cleanup_pop'', Scheduling TaskCleanupPop),
      (''task_await'', Scheduling TaskAwait),
      (''task_observe'', Scheduling TaskObserve),
      (''task_wait_next'', Scheduling TaskWaitNext),
      (''task_next_result'', Scheduling TaskNextResult),
      (''task_next_terminal_result'', Scheduling TaskNextTerminalResult),
      (''task_next_terminal_index'', Scheduling TaskNextTerminalIndex),
      (''task_next_terminal_failure'', Scheduling TaskNextTerminalFailure),
      (''task_status'', Scheduling TaskStatus),
      (''task_failure'', Scheduling TaskFailure),
      (''task_cancel_begin'', Scheduling TaskCancelBegin),
      (''task_drain'', Scheduling TaskDrain),
      (''fault_text'', Scheduling FaultText),
      (''task_result'', Scheduling TaskResult),
      (''task_result_case'', Scheduling TaskResultCase),
      (''task_release'', Scheduling TaskRelease),
      (''task_run'', Scheduling TaskRun),
      (''task_wait_timer'', Scheduling TaskWaitTimer),
      (''task_wait_socket'', Scheduling TaskWaitSocket),
      (''task_wait_tls'', Scheduling TaskWaitTls),
      (''task_wait_file_read'', Scheduling TaskWaitFileRead),
      (''task_wait_worker'', Scheduling TaskWaitWorker),
      (''task_worker_result'', Scheduling TaskWorkerResult),
      (''task_wait_file_write'', Scheduling TaskWaitFileWrite),
      (''task_wait_file_write_bytes'', Scheduling TaskWaitFileWriteBytes),
      (''task_file_result'', Scheduling TaskFileResult),
      (''task_bytes_result'', Scheduling TaskBytesResult),
      (''task_wait_resolve'', Scheduling TaskWaitResolve),
      (''task_wait_process_capture'', Scheduling TaskWaitProcessCapture),
      (''task_process_capture_result'', Scheduling TaskProcessCaptureResult),
      (''task_wait_file_open'', Scheduling TaskWaitFileOpen),
      (''task_wait_file_close'', Scheduling TaskWaitFileClose),
      (''task_file_open_result'', Scheduling TaskFileOpenResult),
      (''file_abort'', Scheduling FileAbort),
      (''clock_monotonic_ns'', Scheduling MonotonicNs),
      (''mutex_lock'', Scheduling MutexLock),
      (''mutex_unlock'', Scheduling MutexUnlock),
      (''cleanup_each'', Core CleanupEach)]"

definition primitive :: "string \<Rightarrow> primitive result" where
  "primitive value =
     ok_or (map_of primitive_table value) (Rejected ''unknown private checked runtime operation'')"

text \<open>The argument count of each primitive, per family.\<close>

primrec core_arity :: "core_op \<Rightarrow> nat" where
  "core_arity FloatFromInt = 1"
| "core_arity FloatToInt = 1"
| "core_arity FloatParse = 1"
| "core_arity FloatFormat = 1"
| "core_arity TextLen = 1"
| "core_arity TextByte = 2"
| "core_arity TextConcat = 2"
| "core_arity TextEqual = 2"
| "core_arity TextSlice = 3"
| "core_arity UnicodeAlphabetic = 1"
| "core_arity UnicodeAlphanumeric = 1"
| "core_arity UnicodeWhitespace = 1"
| "core_arity ArgCount = 0"
| "core_arity ArgText = 1"
| "core_arity ProcessRun = 1"
| "core_arity ProcessRunInput = 2"
| "core_arity ProcessCaptureConfigured = 6"
| "core_arity ProcessCaptureInputConfigured = 7"
| "core_arity EnvGet = 2"
| "core_arity Exit = 1"
| "core_arity BytesNew = 0"
| "core_arity BytesLen = 1"
| "core_arity BytesGet = 2"
| "core_arity BytesPush = 2"
| "core_arity BytesSet = 3"
| "core_arity BytesUtf8 = 1"
| "core_arity BytesTextCopy = 1"
| "core_arity ListNew = 0"
| "core_arity ListNewCapacity = 1"
| "core_arity ListLen = 1"
| "core_arity ListGet = 2"
| "core_arity ListPush = 2"
| "core_arity ListSet = 3"
| "core_arity ListPop = 1"
| "core_arity ListRetainRange = 4"
| "core_arity CleanupEach = 3"

primrec platform_arity :: "platform_op \<Rightarrow> nat" where
  "platform_arity Open = 1"
| "platform_arity Create = 1"
| "platform_arity Read = 3"
| "platform_arity Write = 3"
| "platform_arity WriteBytes = 3"
| "platform_arity Close = 1"
| "platform_arity SocketListen = 1"
| "platform_arity SocketBindDatagram = 1"
| "platform_arity SocketConnectDatagram = 1"
| "platform_arity SocketDatagramBroadcast = 2"
| "platform_arity SocketMembershipV4 = 4"
| "platform_arity SocketMembershipV6 = 4"
| "platform_arity SocketMulticastV4 = 4"
| "platform_arity SocketMulticastV6 = 4"
| "platform_arity SocketConnect = 1"
| "platform_arity SocketConnectStatus = 1"
| "platform_arity SocketAccept = 1"
| "platform_arity SocketRead = 3"
| "platform_arity SocketWriteBytes = 4"
| "platform_arity SocketReceiveFrom = 4"
| "platform_arity SocketSendTo = 4"
| "platform_arity SocketSendDatagram = 3"
| "platform_arity SocketClose = 1"
| "platform_arity SocketLocalPort = 1"
| "platform_arity SocketAddress = 2"
| "platform_arity SocketSetNodelay = 2"
| "platform_arity SocketSetKeepalive = 5"
| "platform_arity SocketBuffer = 3"
| "platform_arity SocketShutdownWrite = 1"
| "platform_arity SocketAbort = 1"
| "platform_arity TlsClient = 6"
| "platform_arity TlsServer = 5"
| "platform_arity TlsReceive = 3"
| "platform_arity TlsRead = 3"
| "platform_arity TlsWrite = 4"
| "platform_arity TlsOutput = 2"
| "platform_arity TlsStatus = 1"
| "platform_arity TlsShutdown = 1"
| "platform_arity TlsRelease = 1"
| "platform_arity TlsProtocol = 1"
| "platform_arity TlsPeerCertificate = 2"
| "platform_arity TlsGeneration = 1"
| "platform_arity TlsNotify = 1"
| "platform_arity DirectoryRead = 2"
| "platform_arity PathKind = 1"
| "platform_arity PathCanonical = 2"
| "platform_arity DirectoryCreate = 1"
| "platform_arity PathRename = 2"
| "platform_arity FileRemove = 1"
| "platform_arity DirectoryRemove = 1"
| "platform_arity PathEntryKind = 1"

primrec task_arity :: "task_op \<Rightarrow> nat" where
  "task_arity TaskCreate = 3"
| "task_arity TaskAdopt = 2"
| "task_arity TaskReturn = 1"
| "task_arity TaskCleanupPush = 2"
| "task_arity TaskResultCleanupPush = 1"
| "task_arity TaskCleanupPop = 1"
| "task_arity TaskAwait = 1"
| "task_arity TaskObserve = 2"
| "task_arity TaskWaitNext = 0"
| "task_arity TaskNextResult = 0"
| "task_arity TaskNextTerminalResult = 0"
| "task_arity TaskNextTerminalIndex = 0"
| "task_arity TaskNextTerminalFailure = 0"
| "task_arity TaskStatus = 1"
| "task_arity TaskFailure = 1"
| "task_arity TaskCancelBegin = 1"
| "task_arity TaskDrain = 2"
| "task_arity FaultText = 1"
| "task_arity TaskResult = 1"
| "task_arity TaskResultCase = 1"
| "task_arity TaskRelease = 1"
| "task_arity TaskRun = 1"
| "task_arity TaskWaitTimer = 1"
| "task_arity TaskWaitSocket = 2"
| "task_arity TaskWaitTls = 2"
| "task_arity TaskWaitFileRead = 2"
| "task_arity TaskWaitWorker = 2"
| "task_arity TaskWorkerResult = 1"
| "task_arity TaskWaitFileWrite = 3"
| "task_arity TaskWaitFileWriteBytes = 3"
| "task_arity TaskFileResult = 0"
| "task_arity TaskBytesResult = 1"
| "task_arity TaskWaitResolve = 2"
| "task_arity TaskWaitProcessCapture = 6"
| "task_arity TaskProcessCaptureResult = 3"
| "task_arity TaskWaitFileOpen = 2"
| "task_arity TaskWaitFileClose = 1"
| "task_arity TaskFileOpenResult = 0"
| "task_arity FileAbort = 1"
| "task_arity MonotonicNs = 0"
| "task_arity MutexLock = 1"
| "task_arity MutexUnlock = 1"

definition primitive_arity :: "primitive \<Rightarrow> nat" where
  "primitive_arity operation =
     (case operation of
        Core op \<Rightarrow> core_arity op
      | Platform op \<Rightarrow> platform_arity op
      | Scheduling op \<Rightarrow> task_arity op)"

section \<open>Fixed signatures\<close>

text \<open>Parameter and result types of the operations whose call has exactly one typing.\<close>

definition core_signature :: "core_op \<Rightarrow> (ty list \<times> ty) option" where
  "core_signature op =
     (if op = BytesGet then Some ([TBytes, TInt], TInt)
      else if op = BytesSet then Some ([TBytes, TInt, TInt], TUnit)
      else if op = EnvGet then Some ([TText, TBytes], TInt)
      else None)"

definition platform_signature :: "platform_op \<Rightarrow> (ty list \<times> ty) option" where
  "platform_signature op =
     (if op = WriteBytes then Some ([TInt, TBytes, TInt], TInt)
      else if op \<in> {SocketListen, SocketConnect, SocketConnectDatagram, SocketBindDatagram}
      then Some ([TText], TInt)
      else if op \<in> {SocketAccept, SocketConnectStatus, SocketClose, SocketShutdownWrite,
        SocketAbort, TlsStatus, TlsShutdown, TlsRelease, TlsGeneration, TlsNotify,
        SocketLocalPort}
      then Some ([TInt], TInt)
      else if op = TlsProtocol then Some ([TInt], TText)
      else if op \<in> {TlsOutput, TlsPeerCertificate} then Some ([TInt, TBytes], TInt)
      else if op = SocketAddress then Some ([TInt, TInt], TText)
      else if op \<in> {SocketSetNodelay, SocketDatagramBroadcast} then Some ([TInt, TInt], TInt)
      else if op = SocketBuffer then Some ([TInt, TInt, TInt], TInt)
      else if op = SocketMembershipV4 then Some ([TInt, TText, TText, TInt], TInt)
      else if op = SocketMembershipV6 then Some ([TInt, TText, TInt, TInt], TInt)
      else if op = SocketMulticastV4 then Some ([TInt, TText, TInt, TInt], TInt)
      else if op = SocketMulticastV6 then Some ([TInt, TInt, TInt, TInt], TInt)
      else if op = SocketSetKeepalive then Some ([TInt, TInt, TInt, TInt, TInt], TInt)
      else if op \<in> {SocketRead, TlsRead, TlsReceive} then Some ([TInt, TBytes, TInt], TInt)
      else if op \<in> {SocketWriteBytes, TlsWrite} then Some ([TInt, TBytes, TInt, TInt], TInt)
      else if op = SocketReceiveFrom then Some ([TInt, TBytes, TInt, TBytes], TInt)
      else if op = SocketSendDatagram then Some ([TInt, TBytes, TInt], TInt)
      else if op = SocketSendTo then Some ([TInt, TBytes, TInt, TText], TInt)
      else if op \<in> {DirectoryCreate, FileRemove, DirectoryRemove, PathEntryKind}
      then Some ([TText], TInt)
      else if op = PathRename then Some ([TText, TText], TInt)
      else None)"

definition op_signature :: "primitive \<Rightarrow> (ty list \<times> ty) option" where
  "op_signature operation =
     (case operation of
        Core op \<Rightarrow> core_signature op
      | Platform op \<Rightarrow> platform_signature op
      | Scheduling op \<Rightarrow> if op = MutexUnlock then Some ([TInt], TBool) else None)"

section \<open>Table properties\<close>

lemma binary_table_distinct: "distinct (map fst binary_table)"
  by (simp add: binary_table_def)

lemma binary_table_onto: "op \<in> snd ` set binary_table"
  by (cases op) (simp_all add: binary_table_def)

lemma binary_table_injective: "distinct (map snd binary_table)"
  by (simp add: binary_table_def)

lemma core_signature_arity:
  "core_signature op = Some s \<Longrightarrow> length (fst s) = core_arity op"
  by (cases op) (simp_all add: core_signature_def, auto)

lemma platform_signature_arity:
  "platform_signature op = Some s \<Longrightarrow> length (fst s) = platform_arity op"
  by (cases op) (simp_all add: platform_signature_def, auto)

lemma signature_arity:
  "op_signature op = Some (params, t) \<Longrightarrow> length params = primitive_arity op"
  by (cases op)
    (auto simp: op_signature_def primitive_arity_def
      dest: core_signature_arity platform_signature_arity split: if_splits)

end
