(* ===== verification/Access.thy ===== *)
theory Access
  imports Operators
begin

text \<open>
  The context of the wire-to-checked converter (\<open>struct Converter\<close> in
  \<open>compiler/src/native_input.rs\<close>) and its lookups, and \<open>task_operation\<close>, which validates the
  argument and result types of the scheduling primitives.  An index into a program table that
  the code writes as \<open>table[id]\<close> is \<open>idx\<close>, which panics out of range.
\<close>

record converter =
  cv_program :: program
  cv_types :: "ty list"
  cv_functions :: "wfunction list"
  cv_source :: wfunction
  cv_loop_depth :: nat

section \<open>Lookups\<close>

definition cv_ty :: "converter \<Rightarrow> nat \<Rightarrow> ty result" where
  "cv_ty c i = at (cv_types c) i"

definition cv_local :: "converter \<Rightarrow> int \<Rightarrow> nat result" where
  "cv_local c i =
     bindE (index i) (\<lambda>n. bindE (at (wf_locals (cv_source c)) n) (\<lambda>_. Inr n))"

definition cv_child :: "wexpr \<Rightarrow> nat \<Rightarrow> nat \<Rightarrow> wexpr result" where
  "cv_child node i count =
     (if length (w_children node) \<noteq> count
      then Inl (Rejected ''wrong checked-IR node arity'')
      else at (w_children node) i)"

text \<open>\<open>self.program.types[id].kind\<close> of a data type, or the error of another type.\<close>

definition data_kind_at :: "converter \<Rightarrow> ty \<Rightarrow> string \<Rightarrow> data_kind result" where
  "data_kind_at c t message =
     (case t of
        TData i \<Rightarrow> mapE data_kind_of (idx (p_types (cv_program c)) i)
      | _ \<Rightarrow> Inl (Rejected message))"

definition cv_record :: "converter \<Rightarrow> ty \<Rightarrow> (string \<times> ty) list result" where
  "cv_record c t =
     (let message = ''checked field requires a record layout'' in
      bindE (data_kind_at c t message) (\<lambda>kind.
      case kind of KRecord fs \<Rightarrow> Inr fs | _ \<Rightarrow> Inl (Rejected message)))"

definition cv_frame :: "converter \<Rightarrow> ty \<Rightarrow> (string \<times> ty) list result" where
  "cv_frame c t =
     (let message = ''checked frame operation requires a generated frame'' in
      bindE (data_kind_at c t message) (\<lambda>kind.
      case kind of KFrame fs \<Rightarrow> Inr fs | _ \<Rightarrow> Inl (Rejected message)))"

text \<open>A disequality test of a value that may fail to be computed.\<close>

definition ne :: "'a result \<Rightarrow> 'a \<Rightarrow> bool result" where
  "ne m x = mapE (\<lambda>y. y \<noteq> x) m"

definition coroutine_frame :: "converter \<Rightarrow> ty \<Rightarrow> (string \<times> ty) list result" where
  "coroutine_frame c t =
     bindE (cv_frame c t) (\<lambda>fields.
     bindE (reject_if (anyE [Inr (length fields < 2), ne (mapE snd (idx fields 1)) TInt])
       (Rejected ''checked coroutine frame requires a result prefix and Int state'')) (\<lambda>_.
     Inr fields))"

definition task_result :: "converter \<Rightarrow> ty \<Rightarrow> ty result" where
  "task_result c t =
     (let message = ''checked task operation requires a Task type'' in
      bindE (data_kind_at c t message) (\<lambda>kind.
      case kind of KTask result \<Rightarrow> Inr result | _ \<Rightarrow> Inl (Rejected message)))"

definition cv_variant :: "converter \<Rightarrow> ty \<Rightarrow> nat \<Rightarrow> ty list result" where
  "cv_variant c t variant =
     (let message = ''checked variant requires an enum layout'' in
      bindE (data_kind_at c t message) (\<lambda>kind.
      case kind of KEnum variants \<Rightarrow> mapE snd (at variants variant) | _ \<Rightarrow> Inl (Rejected message)))"

section \<open>Argument types\<close>

definition arg_ty :: "expr list \<Rightarrow> nat \<Rightarrow> ty result" where
  "arg_ty arguments i = mapE e_ty (idx arguments i)"

definition arg_ne :: "expr list \<Rightarrow> nat \<Rightarrow> ty \<Rightarrow> bool result" where
  "arg_ne arguments i t = ne (arg_ty arguments i) t"

text \<open>\<open>matches!(ty, Type::List(id) if self.program.lists[id] == element)\<close>.\<close>

definition list_of :: "converter \<Rightarrow> ty \<Rightarrow> ty \<Rightarrow> bool result" where
  "list_of c element t =
     (case t of
        TList i \<Rightarrow> mapE (\<lambda>e. e = element) (idx (p_lists (cv_program c)) i)
      | _ \<Rightarrow> Inr False)"

definition arg_not_list_of :: "converter \<Rightarrow> expr list \<Rightarrow> nat \<Rightarrow> ty \<Rightarrow> bool result" where
  "arg_not_list_of c arguments i element =
     bindE (arg_ty arguments i) (\<lambda>t. mapE Not (list_of c element t))"

text \<open>\<open>&self.program.function_types[id]\<close> of a \<open>Type::Function\<close> argument.\<close>

definition signature_of :: "converter \<Rightarrow> ty \<Rightarrow> string \<Rightarrow> signature result" where
  "signature_of c t message =
     (case t of
        TFunction i \<Rightarrow> idx (p_function_types (cv_program c)) i
      | _ \<Rightarrow> Inl (Rejected message))"

section \<open>Scheduling primitives\<close>

text \<open>\<open>task_operation\<close>, first part: draining, observation and faults.\<close>

definition check_observation ::
    "converter \<Rightarrow> task_op \<Rightarrow> expr list \<Rightarrow> ty \<Rightarrow> unit result" where
  "check_observation c op arguments result =
     (if op = TaskDrain then
        bindE (arg_ty arguments 0) (\<lambda>t. bindE (task_result c t) (\<lambda>_.
        reject_if (anyE [arg_ne arguments 1 TBool, Inr (result \<noteq> TUnit)])
          (Rejected ''checked task drain signature mismatch'')))
      else if op = FaultText then
        reject_if (anyE [arg_ne arguments 0 TText, Inr (result \<noteq> TUnit)])
          (Rejected ''checked fault signature mismatch'')
      else if op = TaskObserve then
        bindE (arg_ty arguments 0) (\<lambda>t. bindE (task_result c t) (\<lambda>_.
        reject_if (anyE [arg_ne arguments 1 TInt, mapE (\<lambda>t. result \<noteq> t) (arg_ty arguments 0)])
          (Rejected ''checked task observation must preserve its typed handle'')))
      else if op \<in> {TaskWaitNext, TaskNextResult, TaskNextTerminalResult, TaskNextTerminalIndex,
          TaskNextTerminalFailure} then
        (let expected = (if op = TaskWaitNext then TBool
                         else if op = TaskNextTerminalFailure then TText else TInt)
         in ensure (result = expected)
              (Rejected ''checked task observation result type mismatch''))
      else Inr ())"

text \<open>\<open>task_operation\<close>, second part: external waits and their results.\<close>

definition check_native_wait ::
    "converter \<Rightarrow> task_op \<Rightarrow> expr list \<Rightarrow> ty \<Rightarrow> unit result" where
  "check_native_wait c op arguments result =
     (if op = TaskWaitResolve then
        reject_if (anyE [arg_ne arguments 0 TText, arg_ne arguments 1 TInt, Inr (result \<noteq> TBool)])
          (Rejected ''checked resolve wait signature mismatch'')
      else if op = TaskWaitProcessCapture then
        reject_if (anyE [arg_not_list_of c arguments 0 TText, arg_ne arguments 1 TBytes,
            arg_ne arguments 2 TText, arg_ne arguments 3 TInt, arg_not_list_of c arguments 4 TText,
            arg_ne arguments 5 TInt, Inr (result \<noteq> TBool)])
          (Rejected ''checked process wait signature mismatch'')
      else if op = TaskProcessCaptureResult then
        ensure (\<not> (list_ex (\<lambda>a. e_ty a \<noteq> TBytes) arguments \<or> result \<noteq> TInt))
          (Rejected ''checked process result signature mismatch'')
      else if op = TaskWaitFileOpen then
        reject_if (anyE [arg_ne arguments 0 TText, arg_ne arguments 1 TBool, Inr (result \<noteq> TBool)])
          (Rejected ''checked file open wait signature mismatch'')
      else if op = TaskWaitFileClose \<or> op = FileAbort then
        (let expected = (if op = FileAbort then TInt else TBool)
         in reject_if (anyE [arg_ne arguments 0 TInt, Inr (result \<noteq> expected)])
              (Rejected ''checked file close signature mismatch''))
      else if op = TaskFileOpenResult then
        ensure (result = TInt) (Rejected ''checked file open result requires Int'')
      else if op = TaskWaitFileRead then
        ensure (\<not> (list_ex (\<lambda>a. e_ty a \<noteq> TInt) arguments \<or> result \<noteq> TBool))
          (Rejected ''checked file read wait signature mismatch'')
      else if op = TaskWaitFileWrite \<or> op = TaskWaitFileWriteBytes then
        (let input = (if op = TaskWaitFileWrite then TText else TBytes)
         in reject_if (anyE [arg_ne arguments 0 TInt, arg_ne arguments 1 input,
                arg_ne arguments 2 TInt, Inr (result \<noteq> TBool)])
              (Rejected ''checked file write wait signature mismatch''))
      else if op = TaskFileResult then
        ensure (result = TInt) (Rejected ''checked file result requires Int'')
      else if op = TaskBytesResult then
        reject_if (anyE [arg_ne arguments 0 TBytes, Inr (result \<noteq> TInt)])
          (Rejected ''checked worker bytes result requires Bytes and returns Int'')
      else if op = TaskWaitTimer then
        reject_if (anyE [arg_ne arguments 0 TInt, Inr (result \<noteq> TBool)])
          (Rejected ''checked timer wait requires an Int deadline and Bool readiness'')
      else if op = TaskWaitSocket \<or> op = TaskWaitTls then
        ensure (\<not> (list_ex (\<lambda>a. e_ty a \<noteq> TInt) arguments \<or> result \<noteq> TBool))
          (Rejected ''checked readiness wait requires two Ints and Bool readiness'')
      else if op = MonotonicNs then
        ensure (result = TInt) (Rejected ''checked monotonic clock requires an Int result'')
      else Inr ())"

text \<open>The worker operations: a frame and a callback over it.\<close>

definition check_worker ::
    "converter \<Rightarrow> task_op \<Rightarrow> expr list \<Rightarrow> ty \<Rightarrow> unit result" where
  "check_worker c op arguments result =
     (let needs_frame = ''worker needs a frame'' in
      if op = TaskWaitWorker then
        bindE (arg_ty arguments 0) (\<lambda>frame.
        bindE (data_kind_at c frame needs_frame) (\<lambda>kind.
        bindE (ensure (case kind of KFrame _ \<Rightarrow> True | _ \<Rightarrow> False) (Rejected needs_frame)) (\<lambda>_.
        bindE (arg_ty arguments 1) (\<lambda>callback.
        bindE (signature_of c callback ''worker requires a callback'') (\<lambda>signature.
        ensure (\<not> (result \<noteq> TBool \<or> sig_params signature \<noteq> [frame]
                   \<or> sig_result signature \<noteq> TUnit))
          (Rejected ''checked worker callback signature mismatch''))))))
      else if op = TaskWorkerResult then
        bindE (arg_ty arguments 0) (\<lambda>frame.
        bindE (data_kind_at c frame needs_frame) (\<lambda>kind.
        case kind of
          KFrame fs \<Rightarrow>
            ensure (map_option snd (get_nth fs 0) = Some result)
              (Rejected ''checked worker result mismatch'')
        | _ \<Rightarrow> Inl (Rejected needs_frame)))
      else Inr ())"

text \<open>\<open>task_operation\<close>, third part: construction, ownership, cleanup and results of tasks.\<close>

definition check_task_lifecycle ::
    "converter \<Rightarrow> task_op \<Rightarrow> expr list \<Rightarrow> ty \<Rightarrow> unit result" where
  "check_task_lifecycle c op arguments result =
     (if op = TaskCreate then
        bindE (arg_ty arguments 0) (\<lambda>frame.
        bindE (coroutine_frame c frame) (\<lambda>fields.
        bindE (arg_ty arguments 1) (\<lambda>resume.
        bindE (signature_of c resume ''checked task resume requires a function pointer'') (\<lambda>signature.
        reject_if (anyE [
            bindE (idx fields 0) (\<lambda>field. mapE (\<lambda>r. snd field \<noteq> r) (task_result c result)),
            Inr (sig_params signature \<noteq> [frame]), Inr (sig_result signature \<noteq> TInt),
            arg_ne arguments 2 TText])
          (Rejected ''checked task constructor/resume signature mismatch'')))))
      else if op = TaskAdopt then
        bindE (arg_ty arguments 0) (\<lambda>t0. bindE (task_result c t0) (\<lambda>_.
        bindE (arg_ty arguments 1) (\<lambda>t1. bindE (task_result c t1) (\<lambda>_.
        ensure (result = TUnit) (Rejected ''checked task adoption requires an empty result'')))))
      else if op = TaskCleanupPush then
        bindE (arg_ty arguments 1) (\<lambda>callback.
        bindE (signature_of c callback ''checked task cleanup requires a function pointer'') (\<lambda>signature.
        bindE (reject_if (anyE [arg_ne arguments 0 TInt, Inr (result \<noteq> TUnit),
            Inr (length (sig_params signature) \<noteq> 1), Inr (sig_result signature \<noteq> TUnit)])
          (Rejected ''checked task cleanup signature mismatch'')) (\<lambda>_.
        bindE (idx (sig_params signature) 0) (\<lambda>frame.
        mapE (\<lambda>_. ()) (coroutine_frame c frame)))))
      else if op = TaskCleanupPop then
        reject_if (anyE [arg_ne arguments 0 TInt, Inr (result \<noteq> TUnit)])
          (Rejected ''checked task cleanup pop requires an Int identity'')
      else if op = TaskResultCleanupPush then
        bindE (arg_ty arguments 0) (\<lambda>callback.
        bindE (signature_of c callback ''checked task result cleanup requires a function pointer'')
          (\<lambda>signature.
        bindE (ensure (\<not> (result \<noteq> TUnit \<or> length (sig_params signature) \<noteq> 1
            \<or> sig_result signature \<noteq> TUnit))
          (Rejected ''checked task result cleanup signature mismatch'')) (\<lambda>_.
        bindE (idx (sig_params signature) 0) (\<lambda>frame.
        mapE (\<lambda>_. ()) (coroutine_frame c frame)))))
      else if op = TaskReturn then
        bindE (arg_ty arguments 0) (\<lambda>t. bindE (task_result c t) (\<lambda>_.
        ensure (result = t) (Rejected ''checked task return must preserve its handle type'')))
      else if op = TaskRun then
        bindE (arg_ty arguments 0) (\<lambda>constructor.
        bindE (signature_of c constructor ''checked task entry requires a constructor pointer'')
          (\<lambda>signature.
        reject_if (anyE [Inr (sig_params signature \<noteq> []), Inr (result \<noteq> TUnit),
            ne (task_result c (sig_result signature)) TUnit])
          (Rejected ''checked task entry signature mismatch'')))
      else Inr ())"

text \<open>Awaiting a task and reading its outcome.\<close>

definition check_task_outcome ::
    "converter \<Rightarrow> task_op \<Rightarrow> expr list \<Rightarrow> ty \<Rightarrow> unit result" where
  "check_task_outcome c op arguments result =
     (if op \<in> {TaskAwait, TaskResult, TaskResultCase, TaskRelease, TaskStatus, TaskFailure,
          TaskCancelBegin} then
        bindE (arg_ty arguments 0) (\<lambda>t.
        bindE (task_result c t) (\<lambda>logical.
        bindE (reject_if
            (if op = TaskResultCase then
               (case logical of
                  TData i \<Rightarrow> mapE (\<lambda>d. case data_kind_of d of KEnum _ \<Rightarrow> False | _ \<Rightarrow> True)
                               (idx (p_types (cv_program c)) i)
                | _ \<Rightarrow> Inr True)
             else Inr False)
            (Rejected ''checked task case requires an enum result'')) (\<lambda>_.
        let expected =
          (if op = TaskAwait then TBool
           else if op = TaskRelease \<or> op = TaskCancelBegin then TUnit
           else if op = TaskStatus \<or> op = TaskResultCase then TInt
           else if op = TaskFailure then TText
           else logical)
        in ensure (result = expected) (Rejected ''checked task result type mismatch''))))
      else Inr ())"

definition task_operation ::
    "converter \<Rightarrow> primitive \<Rightarrow> expr list \<Rightarrow> ty \<Rightarrow> unit result" where
  "task_operation c operation arguments result =
     (case operation of
        Scheduling op \<Rightarrow>
          bindE (check_observation c op arguments result) (\<lambda>_.
          bindE (check_native_wait c op arguments result) (\<lambda>_.
          bindE (check_worker c op arguments result) (\<lambda>_.
          bindE (check_task_lifecycle c op arguments result) (\<lambda>_.
          check_task_outcome c op arguments result))))
      | _ \<Rightarrow> Inr ())"

end
