(* ===== verification/Convert.thy ===== *)
theory Convert
  imports Access
begin

text \<open>
  The conversion of wire nodes to checked expressions, blocks and statements
  (\<open>Converter::expr\<close>, \<open>block\<close> and \<open>statement\<close> in \<open>compiler/src/native_input.rs\<close>).  Every tag
  of the \<open>match\<close> is a definition of its own, over the recursive calls it makes: \<open>ex\<close> converts
  an expression, \<open>bl\<close> a block.  The theory \<open>Converter\<close> dispatches over them and ties the
  recursion.
\<close>

unbundle bit_operations_syntax

section \<open>Slices and alternatives\<close>

definition slice_from :: "'a list \<Rightarrow> nat \<Rightarrow> 'a list result" where
  "slice_from xs i = (if i \<le> length xs then Inr (drop i xs) else Inl Panicked)"

text \<open>\<open>first.or_else(|_| second)\<close>; a panic is not an \<open>Err\<close>.\<close>

definition or_else :: "'a result \<Rightarrow> 'a result \<Rightarrow> 'a result" where
  "or_else m m' = (case m of Inl Panicked \<Rightarrow> Inl Panicked | Inl _ \<Rightarrow> m' | Inr x \<Rightarrow> Inr x)"

section \<open>Literals\<close>

definition nibble :: "char \<Rightarrow> nat result" where
  "nibble digit =
     (if 48 \<le> byte_of digit \<and> byte_of digit \<le> 57 then Inr (byte_of digit - 48)
      else if 97 \<le> byte_of digit \<and> byte_of digit \<le> 102 then Inr (byte_of digit - 97 + 10)
      else Inl (Rejected ''invalid checked byte literal''))"

fun hex_bytes :: "string \<Rightarrow> 8 word list result" where
  "hex_bytes (a # b # digits) =
     bindE (nibble a) (\<lambda>high.
     bindE (nibble b) (\<lambda>low.
     mapE (\<lambda>bytes. (push_bit 4 (word_of_nat high) OR word_of_nat low) # bytes) (hex_bytes digits)))"
| "hex_bytes digits = Inr []"

definition convert_literal :: "wexpr \<Rightarrow> ty \<Rightarrow> expr_kind result" where
  "convert_literal node t =
     (if w_tag node = 0 then
        mapE EInt (ok_or (parse_i64 (w_text node)) (Rejected ''invalid checked Int literal''))
      else if w_tag node = 21 then
        mapE EFloat (ok_or (parse_f64 (w_text node)) (Rejected ''invalid checked Float literal''))
      else if w_tag node = 1 then
        (if w_text node = ''true'' then Inr (EBool True)
         else if w_text node = ''false'' then Inr (EBool False)
         else Inl (Rejected ''invalid checked Bool literal''))
      else if w_tag node = 2 then Inr (EText (w_text node))
      else
        bindE (ensure (\<not> (t \<noteq> TBytes \<or> w_children node \<noteq> [] \<or> \<not> w_falls node))
          (Rejected ''checked byte literal requires a childless Bytes value'')) (\<lambda>_.
        bindE (ensure (length (w_text node) mod 2 = 0)
          (Rejected ''invalid checked byte literal'')) (\<lambda>_.
        mapE EBytes (hex_bytes (w_text node)))))"

section \<open>Operators and calls\<close>

definition convert_unary :: "(wexpr \<Rightarrow> expr result) \<Rightarrow> wexpr \<Rightarrow> ty \<Rightarrow> expr_kind result" where
  "convert_unary ex node t =
     bindE (unary_operation (w_text node)) (\<lambda>operation.
     bindE (cv_child node 0 1) (\<lambda>child. bindE (ex child) (\<lambda>value.
     bindE (ensure (\<not> (operation = UBitNot \<and> (t \<noteq> TInt \<or> e_ty value \<noteq> TInt)))
       (Rejected ''checked bitwise operations require Int operands and result'')) (\<lambda>_.
     Inr (EUnary operation value)))))"

definition convert_binary :: "(wexpr \<Rightarrow> expr result) \<Rightarrow> wexpr \<Rightarrow> ty \<Rightarrow> expr_kind result" where
  "convert_binary ex node t =
     bindE (binary (w_text node)) (\<lambda>operation.
     bindE (cv_child node 0 2) (\<lambda>c0. bindE (ex c0) (\<lambda>left.
     bindE (cv_child node 1 2) (\<lambda>c1. bindE (ex c1) (\<lambda>right.
     bindE (ensure (\<not> (operation \<in> {BBitAnd, BBitOr, BBitXor, BShl, BShr} \<and>
         (t \<noteq> TInt \<or> e_ty left \<noteq> TInt \<or> e_ty right \<noteq> TInt)))
       (Rejected ''checked bitwise operations require Int operands and result'')) (\<lambda>_.
     Inr (EBinary operation left right)))))))"

definition convert_call ::
    "converter \<Rightarrow> (wexpr \<Rightarrow> expr result) \<Rightarrow> wexpr \<Rightarrow> expr_kind result" where
  "convert_call c ex node =
     bindE (index (w_index node)) (\<lambda>i.
     bindE (at (cv_functions c) i) (\<lambda>f.
     bindE (ensure (length (wf_params f) = length (w_children node))
       (Rejected ''checked call arity mismatch'')) (\<lambda>_.
     mapE (ECall i) (traverse ex (w_children node)))))"

section \<open>Runtime primitives\<close>

definition convert_cell_get ::
    "converter \<Rightarrow> (wexpr \<Rightarrow> expr result) \<Rightarrow> wexpr \<Rightarrow> ty \<Rightarrow> expr_kind result" where
  "convert_cell_get c ex node t =
     bindE (cv_child node 0 1) (\<lambda>child. bindE (ex child) (\<lambda>value.
     bindE (cv_frame c (e_ty value)) (\<lambda>fields.
     bindE (reject_if (anyE [Inr (length fields \<noteq> 1), ne (mapE snd (idx fields 0)) t])
       (Rejected ''checked cell load type mismatch'')) (\<lambda>_.
     Inr (EField value 0)))))"

definition is_list_ty :: "ty \<Rightarrow> bool" where
  "is_list_ty t = (case t of TList _ \<Rightarrow> True | _ \<Rightarrow> False)"

definition check_cleanup_each ::
    "converter \<Rightarrow> primitive \<Rightarrow> expr list \<Rightarrow> ty \<Rightarrow> unit result" where
  "check_cleanup_each c operation arguments t =
     (if operation = Core CleanupEach then
        bindE (reject_if (anyE [Inr (t \<noteq> TUnit), mapE (\<lambda>t. \<not> is_list_ty t) (arg_ty arguments 0),
            arg_ne arguments 2 TInt])
          (Rejected ''collection cleanup requires List, callback and step count'')) (\<lambda>_.
        bindE (idx arguments 1) (\<lambda>a1.
        case e_kind a1 of
          EFunctionRef target \<Rightarrow>
            bindE (at (cv_functions c) target) (\<lambda>callback.
            let param = (\<lambda>i. bindE (idx (wf_params callback) i) (cv_ty c)) in
            reject_if (anyE [Inr (length (wf_params callback) \<noteq> 3),
                bindE (param 0) (\<lambda>p. mapE (\<lambda>t. p \<noteq> t) (arg_ty arguments 0)),
                ne (param 1) TInt, ne (param 2) TInt, ne (cv_ty c (wf_result callback)) TUnit])
              (Rejected ''collection cleanup callback signature mismatch''))
        | _ \<Rightarrow> Inl (Rejected ''collection cleanup requires a direct checked callback'')))
      else Inr ())"

definition check_container ::
    "converter \<Rightarrow> primitive \<Rightarrow> expr list \<Rightarrow> ty \<Rightarrow> unit result" where
  "check_container c operation arguments t =
     bindE (if operation = Core ListNewCapacity then
              reject_if (anyE [Inr (\<not> is_list_ty t), arg_ne arguments 0 TInt])
                (Rejected ''list capacity allocation requires Int and returns List'')
            else Inr ()) (\<lambda>_.
     bindE (if operation = Scheduling MutexLock then
              reject_if (anyE [Inr (t \<noteq> TInt), arg_not_list_of c arguments 0 TInt])
                (Rejected ''mutex acquisition requires List[Int] identity and Int token'')
            else Inr ()) (\<lambda>_.
     bindE (if operation = Core ListPop then
              reject_if (arg_not_list_of c arguments 0 t)
                (Rejected ''checked list pop type mismatch'')
            else Inr ()) (\<lambda>_.
     if operation = Core ListRetainRange then
       reject_if (anyE [mapE (\<lambda>t. \<not> is_list_ty t) (arg_ty arguments 0), Inr (t \<noteq> TUnit),
           arg_ne arguments 2 TInt, arg_ne arguments 3 TInt,
           bindE (arg_ty arguments 0) (\<lambda>source. arg_not_list_of c arguments 1 source)])
         (Rejected ''list retained range type mismatch'')
     else Inr ())))"

definition check_process_capture ::
    "converter \<Rightarrow> primitive \<Rightarrow> expr list \<Rightarrow> ty \<Rightarrow> unit result" where
  "check_process_capture c operation arguments t =
     (if operation \<in> {Core ProcessCaptureConfigured, Core ProcessCaptureInputConfigured} then
        (let input = (if operation = Core ProcessCaptureInputConfigured then 1 else 0)
         in reject_if (anyE [Inr (t \<noteq> TInt), arg_not_list_of c arguments 0 TText,
                (if input = 1 then arg_ne arguments 1 TBytes else Inr False),
                arg_ne arguments (1 + input) TText, arg_ne arguments (2 + input) TInt,
                arg_not_list_of c arguments (3 + input) TText,
                arg_ne arguments (4 + input) TBytes, arg_ne arguments (5 + input) TBytes])
              (Rejected ''checked process capture type mismatch''))
      else Inr ())"

definition check_tls ::
    "converter \<Rightarrow> primitive \<Rightarrow> expr list \<Rightarrow> ty \<Rightarrow> unit result" where
  "check_tls c operation arguments t =
     (if operation = Platform TlsClient then
        reject_if (anyE [arg_ne arguments 0 TText, arg_ne arguments 1 TBytes,
            arg_ne arguments 2 TInt, arg_ne arguments 3 TBytes, arg_ne arguments 4 TBytes,
            arg_not_list_of c arguments 5 TText, Inr (t \<noteq> TInt)])
          (Rejected ''checked TLS configuration type mismatch'')
      else if operation = Platform TlsServer then
        reject_if (anyE [arg_ne arguments 0 TBytes, arg_ne arguments 1 TBytes,
            arg_ne arguments 2 TBytes, arg_ne arguments 3 TInt,
            arg_not_list_of c arguments 4 TText, Inr (t \<noteq> TInt)])
          (Rejected ''checked TLS configuration type mismatch'')
      else Inr ())"

definition check_signature :: "primitive \<Rightarrow> expr list \<Rightarrow> ty \<Rightarrow> unit result" where
  "check_signature operation arguments t =
     (case op_signature operation of
        Some (params, result) \<Rightarrow>
          ensure (\<not> (t \<noteq> result \<or> map e_ty arguments \<noteq> params))
            (Rejected ''checked runtime operation type mismatch'')
      | None \<Rightarrow> Inr ())"

definition check_primitive ::
    "converter \<Rightarrow> primitive \<Rightarrow> expr list \<Rightarrow> ty \<Rightarrow> unit result" where
  "check_primitive c operation arguments t =
     bindE (task_operation c operation arguments t) (\<lambda>_.
     bindE (check_cleanup_each c operation arguments t) (\<lambda>_.
     bindE (check_container c operation arguments t) (\<lambda>_.
     bindE (check_process_capture c operation arguments t) (\<lambda>_.
     bindE (check_tls c operation arguments t) (\<lambda>_.
     check_signature operation arguments t)))))"

definition convert_primitive ::
    "converter \<Rightarrow> (wexpr \<Rightarrow> expr result) \<Rightarrow> wexpr \<Rightarrow> ty \<Rightarrow> expr_kind result" where
  "convert_primitive c ex node t =
     bindE (primitive (w_text node)) (\<lambda>operation.
     bindE (ensure (length (w_children node) = primitive_arity operation)
       (Rejected ''checked runtime operation arity mismatch'')) (\<lambda>_.
     bindE (traverse ex (w_children node)) (\<lambda>arguments.
     bindE (check_primitive c operation arguments t) (\<lambda>_.
     Inr (EPrimitive operation arguments)))))"

section \<open>Aggregates\<close>

text \<open>The indexed field wrappers of record and frame literals: one pass that marks the fields
  seen and collects the values in order.\<close>

definition convert_record_field ::
    "(string \<times> ty) list \<Rightarrow> (wexpr \<Rightarrow> expr result) \<Rightarrow> wexpr \<Rightarrow> bool list \<times> (nat \<times> expr) list
      \<Rightarrow> (bool list \<times> (nat \<times> expr) list) result" where
  "convert_record_field fs ex field state =
     bindE (ensure (w_tag field = 9)
       (Rejected ''record children must be indexed field wrappers'')) (\<lambda>_.
     bindE (index (w_index field)) (\<lambda>i.
     bindE (at fs i) (\<lambda>_.
     bindE (idx (fst state) i) (\<lambda>seen.
     bindE (ensure (\<not> seen) (Rejected ''duplicate checked record field'')) (\<lambda>_.
     bindE (cv_child field 0 1) (\<lambda>child. bindE (ex child) (\<lambda>value.
     Inr ((fst state)[i := True], snd state @ [(i, value)]))))))))"

definition convert_record ::
    "converter \<Rightarrow> (wexpr \<Rightarrow> expr result) \<Rightarrow> wexpr \<Rightarrow> ty \<Rightarrow> expr_kind result" where
  "convert_record c ex node t =
     bindE (cv_record c t) (\<lambda>fields.
     bindE (ensure (length fields = length (w_children node))
       (Rejected ''checked record initializer count mismatch'')) (\<lambda>_.
     bindE (foldE (convert_record_field fields ex) (w_children node)
       (replicate (length fields) False, [])) (\<lambda>state.
     Inr (ERecord (snd state)))))"

definition convert_list ::
    "converter \<Rightarrow> (wexpr \<Rightarrow> expr result) \<Rightarrow> wexpr \<Rightarrow> ty \<Rightarrow> expr_kind result" where
  "convert_list c ex node t =
     (case t of
        TList i \<Rightarrow>
          bindE (idx (p_lists (cv_program c)) i) (\<lambda>element.
          bindE (traverse ex (w_children node)) (\<lambda>values.
          bindE (ensure (\<not> list_ex (\<lambda>v. e_ty v \<noteq> element) values)
            (Rejected ''checked list literal element type mismatch'')) (\<lambda>_.
          Inr (EList values))))
      | _ \<Rightarrow> Inl (Rejected ''checked list literal requires a list type''))"

definition convert_frame_field ::
    "(string \<times> ty) list \<Rightarrow> (wexpr \<Rightarrow> expr result) \<Rightarrow> wexpr \<Rightarrow> bool list \<times> (nat \<times> expr) list
      \<Rightarrow> (bool list \<times> (nat \<times> expr) list) result" where
  "convert_frame_field fs ex field state =
     bindE (ensure (w_tag field = 9)
       (Rejected ''frame initializers require indexed wrappers'')) (\<lambda>_.
     bindE (index (w_index field)) (\<lambda>i.
     bindE (mapE snd (at fs i)) (\<lambda>expected.
     bindE (cv_child field 0 1) (\<lambda>child. bindE (ex child) (\<lambda>value.
     bindE (reject_if (anyE [idx (fst state) i, Inr (e_ty value \<noteq> expected)])
       (Rejected ''duplicate or mistyped frame initializer'')) (\<lambda>_.
     Inr ((fst state)[i := True], snd state @ [(i, value)])))))))"

definition convert_frame_new ::
    "converter \<Rightarrow> (wexpr \<Rightarrow> expr result) \<Rightarrow> wexpr \<Rightarrow> ty \<Rightarrow> expr_kind result" where
  "convert_frame_new c ex node t =
     bindE (ensure (w_text node \<noteq> ''opaque environment'')
       (Rejected ''opaque captured environment escaped identity staging'')) (\<lambda>_.
     bindE (cv_frame c t) (\<lambda>fields.
     bindE (foldE (convert_frame_field fields ex) (w_children node)
       (replicate (length fields) False, [])) (\<lambda>state.
     Inr (EFrameNew (snd state)))))"

definition convert_frame_store ::
    "converter \<Rightarrow> (wexpr \<Rightarrow> expr result) \<Rightarrow> wexpr \<Rightarrow> ty \<Rightarrow> expr_kind result" where
  "convert_frame_store c ex node t =
     bindE (cv_child node 0 2) (\<lambda>c0. bindE (ex c0) (\<lambda>frame.
     bindE (cv_child node 1 2) (\<lambda>c1. bindE (ex c1) (\<lambda>value.
     bindE (index (w_index node)) (\<lambda>field.
     let expected = bindE (cv_frame c (e_ty frame)) (\<lambda>fields. mapE snd (at fields field)) in
     bindE (anyE [Inr (t \<noteq> TUnit), mapE (\<lambda>e. e_ty value \<noteq> e) expected]) (\<lambda>mismatch.
     if mismatch
     then bindE expected (\<lambda>e. Inl (Detailed (field, e, e_ty value)))
     else Inr (EFrameStore frame field value)))))))"

definition convert_field ::
    "converter \<Rightarrow> (wexpr \<Rightarrow> expr result) \<Rightarrow> wexpr \<Rightarrow> ty \<Rightarrow> expr_kind result" where
  "convert_field c ex node t =
     bindE (cv_child node 0 1) (\<lambda>child. bindE (ex child) (\<lambda>value.
     bindE (index (w_index node)) (\<lambda>i.
     bindE (or_else (cv_record c (e_ty value)) (cv_frame c (e_ty value))) (\<lambda>fields.
     bindE (at fields i) (\<lambda>field.
     bindE (ensure (snd field = t) (Rejected ''checked field type mismatch'')) (\<lambda>_.
     Inr (EField value i)))))))"

definition convert_variant ::
    "converter \<Rightarrow> (wexpr \<Rightarrow> expr result) \<Rightarrow> wexpr \<Rightarrow> ty \<Rightarrow> expr_kind result" where
  "convert_variant c ex node t =
     bindE (index (w_index node)) (\<lambda>variant.
     bindE (cv_variant c t variant) (\<lambda>payload.
     bindE (ensure (length payload = length (w_children node))
       (Rejected ''checked variant payload count mismatch'')) (\<lambda>_.
     mapE (EVariant variant) (traverse ex (w_children node)))))"

section \<open>Control flow\<close>

definition convert_if ::
    "(wexpr \<Rightarrow> expr result) \<Rightarrow> (wexpr \<Rightarrow> block result) \<Rightarrow> wexpr \<Rightarrow> expr_kind result" where
  "convert_if ex bl node =
     bindE (ensure (2 \<le> length (w_children node) \<and> length (w_children node) \<le> 3)
       (Rejected ''checked if needs two or three children'')) (\<lambda>_.
     bindE (idx (w_children node) 0) (\<lambda>c0. bindE (ex c0) (\<lambda>condition.
     bindE (idx (w_children node) 1) (\<lambda>c1. bindE (bl c1) (\<lambda>then_body.
     bindE (case get_nth (w_children node) 2 of
              None \<Rightarrow> Inr None | Some c2 \<Rightarrow> mapE Some (bl c2)) (\<lambda>else_body.
     Inr (EIf condition then_body else_body)))))))"

definition convert_arm ::
    "converter \<Rightarrow> (wexpr \<Rightarrow> block result) \<Rightarrow> ty \<Rightarrow> warm \<Rightarrow> match_arm result" where
  "convert_arm c bl scrutinee arm =
     bindE (case wa_variant arm of
              None \<Rightarrow> Inr ()
            | Some variant \<Rightarrow>
                bindE (cv_variant c scrutinee variant) (\<lambda>payload.
                ensure (length payload = length (wa_bindings arm))
                  (Rejected ''checked match binding count mismatch''))) (\<lambda>_.
     bindE (traverse (\<lambda>b. case b of None \<Rightarrow> Inr () | Some l \<Rightarrow>
              mapE (\<lambda>_. ()) (at (wf_locals (cv_source c)) l)) (wa_bindings arm @ [wa_whole arm])) (\<lambda>_.
     bindE (ensure (length (wa_body arm) = 1)
       (Rejected ''checked match arm needs one block'')) (\<lambda>_.
     bindE (idx (wa_body arm) 0) (\<lambda>body. bindE (bl body) (\<lambda>block.
     Inr (MatchArm (wa_variant arm) (wa_bindings arm) (wa_whole arm) block))))))"

definition convert_match ::
    "converter \<Rightarrow> (wexpr \<Rightarrow> expr result) \<Rightarrow> (wexpr \<Rightarrow> block result) \<Rightarrow> wexpr \<Rightarrow> expr_kind result" where
  "convert_match c ex bl node =
     bindE (cv_child node 0 1) (\<lambda>child. bindE (ex child) (\<lambda>value.
     bindE (traverse (convert_arm c bl (e_ty value)) (w_arms node)) (\<lambda>arms.
     Inr (EMatch value arms))))"

section \<open>Erased values and function values\<close>

definition convert_dyn_box ::
    "converter \<Rightarrow> (wexpr \<Rightarrow> expr result) \<Rightarrow> wexpr \<Rightarrow> ty \<Rightarrow> expr_kind result" where
  "convert_dyn_box c ex node t =
     bindE (index (w_index node)) (\<lambda>witness.
     bindE (at (p_witnesses (cv_program c)) witness) (\<lambda>table.
     bindE (cv_child node 0 1) (\<lambda>child. bindE (ex child) (\<lambda>value.
     bindE (ensure (\<not> (t \<noteq> TDyn (wit_interface table) \<or> e_ty value \<noteq> wit_concrete table))
       (Rejected ''checked dyn construction type mismatch'')) (\<lambda>_.
     Inr (EDynBox witness value))))))"

definition convert_dyn_call ::
    "converter \<Rightarrow> (wexpr \<Rightarrow> expr result) \<Rightarrow> wexpr \<Rightarrow> ty \<Rightarrow> expr_kind result" where
  "convert_dyn_call c ex node t =
     bindE (at (w_children node) 0) (\<lambda>c0. bindE (ex c0) (\<lambda>receiver.
     bindE (case e_ty receiver of
              TDyn interface \<Rightarrow> Inr interface
            | _ \<Rightarrow> Inl (Rejected ''checked dyn call requires an erased receiver'')) (\<lambda>interface.
     bindE (index (w_index node)) (\<lambda>slot.
     bindE (at (p_interfaces (cv_program c)) interface) (\<lambda>methods.
     bindE (at methods slot) (\<lambda>method.
     bindE (ensure (\<not> (length (sig_params method) + 1 \<noteq> length (w_children node)
         \<or> t \<noteq> sig_result method))
       (Rejected ''checked dyn call signature mismatch'')) (\<lambda>_.
     bindE (slice_from (w_children node) 1) (\<lambda>rest.
     bindE (traverse ex rest) (\<lambda>arguments.
     bindE (ensure (map e_ty arguments = sig_params method)
       (Rejected ''checked dyn call argument type mismatch'')) (\<lambda>_.
     Inr (EDynCall receiver slot arguments)))))))))))"

definition convert_function_ref ::
    "converter \<Rightarrow> (wexpr \<Rightarrow> expr result) \<Rightarrow> wexpr \<Rightarrow> ty \<Rightarrow> expr_kind result" where
  "convert_function_ref c ex node t =
     bindE (case t of
              TFunction signature \<Rightarrow> Inr signature
            | _ \<Rightarrow> Inl (Rejected ''checked function reference requires a function type'')) (\<lambda>signature.
     bindE (ensure (\<not> 1 < length (w_children node))
       (Rejected ''checked function reference has at most one environment'')) (\<lambda>_.
     bindE (case get_nth (w_children node) 0 of
              None \<Rightarrow> Inr None | Some child \<Rightarrow> mapE Some (ex child)) (\<lambda>environment.
     bindE (case environment of
              None \<Rightarrow> Inr () | Some e \<Rightarrow> mapE (\<lambda>_. ()) (cv_frame c (e_ty e))) (\<lambda>_.
     bindE (index (w_index node)) (\<lambda>target.
     bindE (at (cv_functions c) target) (\<lambda>f.
     bindE (at (p_function_types (cv_program c)) signature) (\<lambda>sig.
     bindE (traverse (cv_ty c) (wf_params f)) (\<lambda>params.
     let expected = (case environment of None \<Rightarrow> [] | Some e \<Rightarrow> [e_ty e]) @ sig_params sig in
     bindE (reject_if (anyE [Inr (params \<noteq> expected), ne (cv_ty c (wf_result f)) (sig_result sig)])
       (Rejected ''checked function reference signature mismatch'')) (\<lambda>_.
     case environment of
       Some e \<Rightarrow> Inr (EClosure target e)
     | None \<Rightarrow> Inr (EFunctionRef target))))))))))"

definition convert_indirect_call ::
    "converter \<Rightarrow> (wexpr \<Rightarrow> expr result) \<Rightarrow> wexpr \<Rightarrow> ty \<Rightarrow> expr_kind result" where
  "convert_indirect_call c ex node t =
     bindE (ensure (w_index node = - 1)
       (Rejected ''checked indirect call has no direct function ID'')) (\<lambda>_.
     bindE (at (w_children node) 0) (\<lambda>c0. bindE (ex c0) (\<lambda>callee.
     bindE (case e_ty callee of
              TFunction signature \<Rightarrow> Inr signature
            | _ \<Rightarrow> Inl (Rejected ''checked indirect call requires a function value'')) (\<lambda>signature.
     bindE (at (p_function_types (cv_program c)) signature) (\<lambda>sig.
     bindE (slice_from (w_children node) 1) (\<lambda>rest.
     bindE (traverse ex rest) (\<lambda>arguments.
     bindE (ensure (\<not> (t \<noteq> sig_result sig \<or> map e_ty arguments \<noteq> sig_params sig))
       (Rejected ''checked indirect call signature mismatch'')) (\<lambda>_.
     Inr (EIndirectCall callee arguments)))))))))"

definition convert_environment ::
    "converter \<Rightarrow> (wexpr \<Rightarrow> expr result) \<Rightarrow> wexpr \<Rightarrow> ty \<Rightarrow> expr_kind result" where
  "convert_environment c ex node t =
     bindE (cv_frame c t) (\<lambda>_.
     bindE (cv_child node 0 1) (\<lambda>child. bindE (ex child) (\<lambda>value.
     bindE (case e_ty value of
              TFunction signature \<Rightarrow> Inr signature
            | _ \<Rightarrow> Inl (Rejected ''checked environment projection requires a function value''))
       (\<lambda>signature.
     bindE (index (w_index node)) (\<lambda>i.
     bindE (at (cv_functions c) i) (\<lambda>target.
     bindE (at (p_function_types (cv_program c)) signature) (\<lambda>sig.
     bindE (traverse (cv_ty c) (wf_params target)) (\<lambda>params.
     bindE (reject_if (anyE [Inr (get_nth params 0 \<noteq> Some t),
         mapE (\<lambda>rest. rest \<noteq> sig_params sig) (slice_from params 1),
         ne (cv_ty c (wf_result target)) (sig_result sig)])
       (Rejected ''checked environment projection signature mismatch'')) (\<lambda>_.
     Inr (EField value 0))))))))))"

end
