(* ===== verification/Converter.thy ===== *)
theory Converter
  imports Convert
begin

text \<open>
  The dispatch of \<open>Converter::expr\<close>, \<open>block\<close> and \<open>statement\<close> over the definitions of the theory
  \<open>Convert\<close>, and the mutual recursion \<open>conv_expr\<close>, \<open>conv_block\<close>, \<open>conv_stmt\<close> that ties them.  The
  congruence rules say that a step only uses its recursive calls on nodes below its own, which
  is what the termination of the recursion rests on.
\<close>

section \<open>Expressions\<close>

definition kind_step ::
    "converter \<Rightarrow> (wexpr \<Rightarrow> expr result) \<Rightarrow> (wexpr \<Rightarrow> block result) \<Rightarrow> wexpr \<Rightarrow> ty
      \<Rightarrow> expr_kind result" where
  "kind_step c ex bl node t =
     (if w_tag node \<in> {0, 21, 1, 2, 33} then convert_literal node t
      else if w_tag node = 3 then mapE ELocal (cv_local c (w_index node))
      else if w_tag node = 4 then convert_unary ex node t
      else if w_tag node = 5 then convert_binary ex node t
      else if w_tag node = 6 then convert_call c ex node
      else if w_tag node = 7 \<and> w_text node = ''cell_get'' then convert_cell_get c ex node t
      else if w_tag node = 7 then convert_primitive c ex node t
      else if w_tag node = 8 then convert_record c ex node t
      else if w_tag node = 28 then convert_list c ex node t
      else if w_tag node = 31 then convert_frame_new c ex node t
      else if w_tag node = 32 then convert_frame_store c ex node t
      else if w_tag node = 9 then convert_field c ex node t
      else if w_tag node = 10 then convert_variant c ex node t
      else if w_tag node = 11 then mapE EBlock (bl node)
      else if w_tag node = 18 then convert_if ex bl node
      else if w_tag node = 19 then convert_match c ex bl node
      else if w_tag node = 20 then bindE (cv_child node 0 1) (\<lambda>child. mapE ECoerce (ex child))
      else if w_tag node = 22 then convert_dyn_box c ex node t
      else if w_tag node = 23 then convert_dyn_call c ex node t
      else if w_tag node = 24 then convert_function_ref c ex node t
      else if w_tag node = 25 then convert_indirect_call c ex node t
      else if w_tag node = 34 then convert_environment c ex node t
      else Inl (Rejected ''unknown or misplaced checked expression tag''))"

definition expr_step ::
    "converter \<Rightarrow> (wexpr \<Rightarrow> expr result) \<Rightarrow> (wexpr \<Rightarrow> block result) \<Rightarrow> wexpr \<Rightarrow> expr result" where
  "expr_step c ex bl node =
     bindE (cv_ty c (w_ty node)) (\<lambda>t.
     bindE (ensure (\<not> (w_tag node \<noteq> 19 \<and> w_arms node \<noteq> []))
       (Rejected ''only match nodes have checked arms'')) (\<lambda>_.
     mapE (\<lambda>kind. Expr kind t (w_span node)) (kind_step c ex bl node t)))"

section \<open>Blocks and statements\<close>

definition statement_tags :: "nat set" where
  "statement_tags = {12, 13, 14, 15, 16, 17, 26, 27, 29, 30}"

fun convert_children ::
    "(wexpr \<Rightarrow> expr result) \<Rightarrow> (wexpr \<Rightarrow> stmt result) \<Rightarrow> wexpr list
      \<Rightarrow> (stmt list \<times> expr option) result" where
  "convert_children ex st [] = Inr ([], None)"
| "convert_children ex st (child # rest) =
     (if rest = [] \<and> w_tag child \<notin> statement_tags
      then mapE (\<lambda>e. ([], Some e)) (ex child)
      else bindE (st child) (\<lambda>s.
           mapE (\<lambda>(ss, tail). (s # ss, tail)) (convert_children ex st rest)))"

definition block_step ::
    "(wexpr \<Rightarrow> expr result) \<Rightarrow> (wexpr \<Rightarrow> stmt result) \<Rightarrow> wexpr \<Rightarrow> block result" where
  "block_step ex st node =
     bindE (ensure (w_tag node = 11) (Rejected ''expected a checked block'')) (\<lambda>_.
     mapE (\<lambda>(statements, tail). Block statements tail (w_falls node))
       (convert_children ex st (w_children node)))"

definition convert_store ::
    "converter \<Rightarrow> (wexpr \<Rightarrow> expr result) \<Rightarrow> wexpr \<Rightarrow> stmt_kind result" where
  "convert_store c ex node =
     bindE (cv_local c (w_index node)) (\<lambda>l.
     bindE (cv_child node 0 1) (\<lambda>child. bindE (ex child) (\<lambda>value.
     bindE (reject_if (ne (bindE (idx (wf_locals (cv_source c)) l) (cv_ty c)) (e_ty value))
       (Rejected ''checked local storage type mismatch'')) (\<lambda>_.
     Inr (if w_tag node = 12 then SLet l value else SAssign l value)))))"

definition convert_loop_control :: "converter \<Rightarrow> wexpr \<Rightarrow> stmt_kind result" where
  "convert_loop_control c node =
     bindE (ensure (cv_loop_depth c \<noteq> 0)
       (Rejected ''checked loop control requires an enclosing loop body'')) (\<lambda>_.
     bindE (reject_if (anyE [ne (cv_ty c (w_ty node)) TUnit, Inr (w_falls node),
         Inr (w_children node \<noteq> []), Inr (w_arms node \<noteq> [])])
       (Rejected ''invalid checked loop control'')) (\<lambda>_.
     Inr (if w_tag node = 26 then SBreak else SContinue)))"

definition convert_cleanup ::
    "converter \<Rightarrow> (nat \<Rightarrow> wexpr \<Rightarrow> block result) \<Rightarrow> wexpr \<Rightarrow> stmt_kind result" where
  "convert_cleanup c bl node =
     bindE (reject_if (anyE [ne (cv_ty c (w_ty node)) TUnit, Inr (w_arms node \<noteq> [])])
       (Rejected ''invalid checked cleanup marker'')) (\<lambda>_.
     bindE (index (w_index node)) (\<lambda>i.
     bindE (cv_child node 0 1) (\<lambda>child.
     bindE (reject_if (ne (cv_ty c (w_ty child)) TUnit)
       (Rejected ''checked cleanup body must return no value'')) (\<lambda>_.
     bindE (bl 0 child) (\<lambda>body.
     if w_tag node = 29 then
       bindE (ensure (w_falls node) (Rejected ''cleanup registration must fall through'')) (\<lambda>_.
       Inr (SDefer i body))
     else
       bindE (ensure (w_falls node = b_falls_through body)
         (Rejected ''cleanup fallthrough mismatch'')) (\<lambda>_.
       Inr (SCleanup i body)))))))"

text \<open>\<open>bl d\<close> converts a block at loop depth \<open>d\<close>.\<close>

definition statement_step ::
    "converter \<Rightarrow> (wexpr \<Rightarrow> expr result) \<Rightarrow> (nat \<Rightarrow> wexpr \<Rightarrow> block result) \<Rightarrow> wexpr
      \<Rightarrow> stmt_kind result" where
  "statement_step c ex bl node =
     (if w_tag node = 12 \<or> w_tag node = 13 then convert_store c ex node
      else if w_tag node = 14 then
        bindE (ensure (\<not> 1 < length (w_children node))
          (Rejected ''return accepts at most one checked value'')) (\<lambda>_.
        case get_nth (w_children node) 0 of
          None \<Rightarrow> Inr (SReturn None)
        | Some value \<Rightarrow> mapE (\<lambda>e. SReturn (Some e)) (ex value))
      else if w_tag node = 15 then
        bindE (cv_child node 0 1) (\<lambda>child. mapE (\<lambda>e. SAssert e (w_text node)) (ex child))
      else if w_tag node = 16 then
        bindE (cv_child node 0 1) (\<lambda>child. mapE SDiscard (ex child))
      else if w_tag node = 17 then
        bindE (cv_child node 0 2) (\<lambda>c0. bindE (ex c0) (\<lambda>condition.
        bindE (cv_child node 1 2) (\<lambda>c1. bindE (bl (cv_loop_depth c + 1) c1) (\<lambda>body.
        Inr (SWhile condition body)))))
      else if w_tag node = 26 \<or> w_tag node = 27 then convert_loop_control c node
      else if w_tag node = 29 \<or> w_tag node = 30 then convert_cleanup c bl node
      else mapE SExpr (ex node))"

section \<open>The recursion\<close>

text \<open>The nodes a step may convert recursively: the children, the children of field wrappers
  and the bodies of match arms.\<close>

definition subnodes :: "wexpr \<Rightarrow> wexpr set" where
  "subnodes node =
     set (w_children node) \<union> (\<Union>child \<in> set (w_children node). set (w_children child)) \<union>
     (\<Union>arm \<in> set (w_arms node). set (wa_body arm))"

lemma size_child: "child \<in> set (w_children node) \<Longrightarrow> size child < size node"
  by (cases node) (auto simp: less_Suc_eq_le dest!: size_list_estimation' [where f = size, OF _ order_refl] intro: trans_le_add1)

lemma size_arm_body: "arm \<in> set (w_arms node) \<Longrightarrow> body \<in> set (wa_body arm) \<Longrightarrow> size body < size node"
proof (cases node; cases arm)
  fix tag t sp s i falls children arms variant bindings whole bodies
  assume *: "arm \<in> set (w_arms node)" "body \<in> set (wa_body arm)"
    "node = WExpr tag t sp s i falls children arms" "arm = WArm variant bindings whole bodies"
  have "size body \<le> size_list size bodies"
    using * by (auto intro: size_list_estimation')
  moreover have "size arm \<le> size_list size arms"
    using * by (auto intro: size_list_estimation')
  ultimately show ?thesis
    using * by simp
qed

lemma size_subnode: "n \<in> subnodes node \<Longrightarrow> size n < size node"
  by (auto simp: subnodes_def intro: size_child size_arm_body less_trans)


text \<open>Two converters agree on a step when they agree on the nodes below it.\<close>

lemma child_subnode: "n \<in> set (w_children node) \<Longrightarrow> n \<in> subnodes node"
  by (simp add: subnodes_def)

lemma cv_child_in: "cv_child node i k = Inr n \<Longrightarrow> n \<in> set (w_children node)"
  by (auto simp: cv_child_def at_def split: if_splits)

lemma cv_child_subnode: "cv_child node i k = Inr n \<Longrightarrow> n \<in> subnodes node"
  by (auto dest: cv_child_in simp: subnodes_def)

lemma wrapper_subnode:
  "field \<in> set (w_children node) \<Longrightarrow> cv_child field i k = Inr n \<Longrightarrow> n \<in> subnodes node"
  by (auto dest: cv_child_in simp: subnodes_def)

lemma at_subnode: "at (w_children node) i = Inr n \<Longrightarrow> n \<in> subnodes node"
  by (auto simp: at_def subnodes_def)

lemma idx_subnode: "idx (w_children node) i = Inr n \<Longrightarrow> n \<in> subnodes node"
  by (auto simp: subnodes_def)

lemma get_subnode: "get_nth (w_children node) i = Some n \<Longrightarrow> n \<in> subnodes node"
  by (auto simp: subnodes_def)

lemma slice_subnode:
  "slice_from (w_children node) i = Inr rest \<Longrightarrow> n \<in> set rest \<Longrightarrow> n \<in> subnodes node"
  by (auto simp: slice_from_def subnodes_def split: if_splits dest: in_set_dropD)

lemma arm_subnode:
  "arm \<in> set (w_arms node) \<Longrightarrow> n \<in> set (wa_body arm) \<Longrightarrow> n \<in> subnodes node"
  by (auto simp: subnodes_def)

lemma arm_body_subnode:
  "arm \<in> set (w_arms node) \<Longrightarrow> idx (wa_body arm) i = Inr n \<Longrightarrow> n \<in> subnodes node"
  by (auto simp: subnodes_def simp del: idx_eq_Inr dest: idx_in)

lemmas subnode_intros =
  child_subnode cv_child_subnode wrapper_subnode at_subnode idx_subnode get_subnode
  slice_subnode arm_body_subnode

lemmas step_congs = bindE_cong mapE_cong traverse_cong foldE_cong

lemma convert_unary_cong [fundef_cong]:
  "(\<And>n. n \<in> subnodes node \<Longrightarrow> ex n = ex' n)
    \<Longrightarrow> convert_unary ex node t = convert_unary ex' node t"
  unfolding convert_unary_def 
  by (auto simp del: idx_eq_Inr idx_in_range get_nth_eq_Some intro!: step_congs intro: subnode_intros split: option.splits)

lemma convert_binary_cong [fundef_cong]:
  "(\<And>n. n \<in> subnodes node \<Longrightarrow> ex n = ex' n)
    \<Longrightarrow> convert_binary ex node t = convert_binary ex' node t"
  unfolding convert_binary_def 
  by (auto simp del: idx_eq_Inr idx_in_range get_nth_eq_Some intro!: step_congs intro: subnode_intros split: option.splits)

lemma convert_call_cong [fundef_cong]:
  "(\<And>n. n \<in> subnodes node \<Longrightarrow> ex n = ex' n)
    \<Longrightarrow> convert_call c ex node = convert_call c ex' node"
  unfolding convert_call_def 
  by (auto simp del: idx_eq_Inr idx_in_range get_nth_eq_Some intro!: step_congs intro: subnode_intros split: option.splits)

lemma convert_cell_get_cong [fundef_cong]:
  "(\<And>n. n \<in> subnodes node \<Longrightarrow> ex n = ex' n)
    \<Longrightarrow> convert_cell_get c ex node t = convert_cell_get c ex' node t"
  unfolding convert_cell_get_def 
  by (auto simp del: idx_eq_Inr idx_in_range get_nth_eq_Some intro!: step_congs intro: subnode_intros split: option.splits)

lemma convert_primitive_cong [fundef_cong]:
  "(\<And>n. n \<in> subnodes node \<Longrightarrow> ex n = ex' n)
    \<Longrightarrow> convert_primitive c ex node t = convert_primitive c ex' node t"
  unfolding convert_primitive_def 
  by (auto simp del: idx_eq_Inr idx_in_range get_nth_eq_Some intro!: step_congs intro: subnode_intros split: option.splits)

lemma convert_record_cong [fundef_cong]:
  "(\<And>n. n \<in> subnodes node \<Longrightarrow> ex n = ex' n)
    \<Longrightarrow> convert_record c ex node t = convert_record c ex' node t"
  unfolding convert_record_def convert_record_field_def
  by (auto simp del: idx_eq_Inr idx_in_range get_nth_eq_Some intro!: step_congs intro: subnode_intros split: option.splits)

lemma convert_list_cong [fundef_cong]:
  "(\<And>n. n \<in> subnodes node \<Longrightarrow> ex n = ex' n)
    \<Longrightarrow> convert_list c ex node t = convert_list c ex' node t"
  unfolding convert_list_def 
  by (auto simp del: idx_eq_Inr idx_in_range get_nth_eq_Some intro!: step_congs intro: subnode_intros split: ty.splits)

lemma convert_frame_new_cong [fundef_cong]:
  "(\<And>n. n \<in> subnodes node \<Longrightarrow> ex n = ex' n)
    \<Longrightarrow> convert_frame_new c ex node t = convert_frame_new c ex' node t"
  unfolding convert_frame_new_def convert_frame_field_def
  by (auto simp del: idx_eq_Inr idx_in_range get_nth_eq_Some intro!: step_congs intro: subnode_intros split: option.splits)

lemma convert_frame_store_cong [fundef_cong]:
  "(\<And>n. n \<in> subnodes node \<Longrightarrow> ex n = ex' n)
    \<Longrightarrow> convert_frame_store c ex node t = convert_frame_store c ex' node t"
  unfolding convert_frame_store_def 
  by (auto simp del: idx_eq_Inr idx_in_range get_nth_eq_Some intro!: step_congs intro: subnode_intros split: option.splits)

lemma convert_field_cong [fundef_cong]:
  "(\<And>n. n \<in> subnodes node \<Longrightarrow> ex n = ex' n)
    \<Longrightarrow> convert_field c ex node t = convert_field c ex' node t"
  unfolding convert_field_def 
  by (auto simp del: idx_eq_Inr idx_in_range get_nth_eq_Some intro!: step_congs intro: subnode_intros split: option.splits)

lemma convert_variant_cong [fundef_cong]:
  "(\<And>n. n \<in> subnodes node \<Longrightarrow> ex n = ex' n)
    \<Longrightarrow> convert_variant c ex node t = convert_variant c ex' node t"
  unfolding convert_variant_def 
  by (auto simp del: idx_eq_Inr idx_in_range get_nth_eq_Some intro!: step_congs intro: subnode_intros split: option.splits)

lemma convert_dyn_box_cong [fundef_cong]:
  "(\<And>n. n \<in> subnodes node \<Longrightarrow> ex n = ex' n)
    \<Longrightarrow> convert_dyn_box c ex node t = convert_dyn_box c ex' node t"
  unfolding convert_dyn_box_def 
  by (auto simp del: idx_eq_Inr idx_in_range get_nth_eq_Some intro!: step_congs intro: subnode_intros split: option.splits)

lemma convert_dyn_call_cong [fundef_cong]:
  "(\<And>n. n \<in> subnodes node \<Longrightarrow> ex n = ex' n)
    \<Longrightarrow> convert_dyn_call c ex node t = convert_dyn_call c ex' node t"
  unfolding convert_dyn_call_def 
  by (auto simp del: idx_eq_Inr idx_in_range get_nth_eq_Some intro!: step_congs intro: subnode_intros split: option.splits)

lemma convert_function_ref_cong [fundef_cong]:
  "(\<And>n. n \<in> subnodes node \<Longrightarrow> ex n = ex' n)
    \<Longrightarrow> convert_function_ref c ex node t = convert_function_ref c ex' node t"
  unfolding convert_function_ref_def 
  by (auto simp del: idx_eq_Inr idx_in_range get_nth_eq_Some intro!: step_congs intro: subnode_intros split: option.splits)

lemma convert_indirect_call_cong [fundef_cong]:
  "(\<And>n. n \<in> subnodes node \<Longrightarrow> ex n = ex' n)
    \<Longrightarrow> convert_indirect_call c ex node t = convert_indirect_call c ex' node t"
  unfolding convert_indirect_call_def 
  by (auto simp del: idx_eq_Inr idx_in_range get_nth_eq_Some intro!: step_congs intro: subnode_intros split: option.splits)

lemma convert_environment_cong [fundef_cong]:
  "(\<And>n. n \<in> subnodes node \<Longrightarrow> ex n = ex' n)
    \<Longrightarrow> convert_environment c ex node t = convert_environment c ex' node t"
  unfolding convert_environment_def 
  by (auto simp del: idx_eq_Inr idx_in_range get_nth_eq_Some intro!: step_congs intro: subnode_intros split: option.splits)

lemma convert_if_cong [fundef_cong]:
  "(\<And>n. n \<in> subnodes node \<Longrightarrow> ex n = ex' n) \<Longrightarrow> (\<And>n. n \<in> subnodes node \<Longrightarrow> bl n = bl' n)
    \<Longrightarrow> convert_if ex bl node = convert_if ex' bl' node"
  unfolding convert_if_def 
  by (auto simp del: idx_eq_Inr idx_in_range get_nth_eq_Some intro!: step_congs intro: subnode_intros split: option.splits)
    (simp add: get_nth_def)

lemma convert_match_cong [fundef_cong]:
  "(\<And>n. n \<in> subnodes node \<Longrightarrow> ex n = ex' n) \<Longrightarrow> (\<And>n. n \<in> subnodes node \<Longrightarrow> bl n = bl' n)
    \<Longrightarrow> convert_match c ex bl node = convert_match c ex' bl' node"
  unfolding convert_match_def convert_arm_def
  by (auto simp del: idx_eq_Inr idx_in_range get_nth_eq_Some intro!: step_congs intro: subnode_intros split: option.splits)

lemma kind_step_cong [fundef_cong]:
  assumes "\<And>n. n \<in> subnodes node \<Longrightarrow> ex n = ex' n"
    and "\<And>n. n \<in> insert node (subnodes node) \<Longrightarrow> bl n = bl' n"
  shows "kind_step c ex bl node t = kind_step c ex' bl' node t"
  unfolding kind_step_def using assms
  by (intro if_cong refl; intro convert_unary_cong convert_binary_cong convert_call_cong
      convert_cell_get_cong convert_primitive_cong convert_record_cong convert_list_cong
      convert_frame_new_cong convert_frame_store_cong convert_field_cong convert_variant_cong
      convert_if_cong convert_match_cong convert_dyn_box_cong convert_dyn_call_cong
      convert_function_ref_cong convert_indirect_call_cong convert_environment_cong step_congs
      refl; simp add: cv_child_subnode)

lemma expr_step_cong [fundef_cong]:
  assumes "\<And>n. n \<in> subnodes node \<Longrightarrow> ex n = ex' n"
    and "\<And>n. n \<in> insert node (subnodes node) \<Longrightarrow> bl n = bl' n"
  shows "expr_step c ex bl node = expr_step c ex' bl' node"
  unfolding expr_step_def
  by (intro bindE_cong mapE_cong kind_step_cong refl assms)

lemma convert_children_cong:
  "(\<And>n. n \<in> set children \<Longrightarrow> ex n = ex' n) \<Longrightarrow> (\<And>n. n \<in> set children \<Longrightarrow> st n = st' n)
    \<Longrightarrow> convert_children ex st children = convert_children ex' st' children"
  by (induction children) (auto intro!: step_congs)

lemma block_step_cong [fundef_cong]:
  assumes "\<And>n. n \<in> set (w_children node) \<Longrightarrow> ex n = ex' n"
    and "\<And>n. n \<in> set (w_children node) \<Longrightarrow> st n = st' n"
  shows "block_step ex st node = block_step ex' st' node"
  unfolding block_step_def by (intro step_congs convert_children_cong refl assms)

lemma convert_store_cong [fundef_cong]:
  "(\<And>n. n \<in> subnodes node \<Longrightarrow> ex n = ex' n) \<Longrightarrow> convert_store c ex node = convert_store c ex' node"
  unfolding convert_store_def
  by (auto simp del: idx_eq_Inr idx_in_range get_nth_eq_Some intro!: step_congs intro: subnode_intros)

lemma convert_cleanup_cong [fundef_cong]:
  "(\<And>d n. n \<in> subnodes node \<Longrightarrow> bl d n = bl' d n) \<Longrightarrow> convert_cleanup c bl node = convert_cleanup c bl' node"
  unfolding convert_cleanup_def
  by (auto simp del: idx_eq_Inr idx_in_range get_nth_eq_Some intro!: step_congs intro: subnode_intros)

lemma statement_step_cong [fundef_cong]:
  assumes "\<And>n. n \<in> insert node (subnodes node) \<Longrightarrow> ex n = ex' n"
    and "\<And>d n. n \<in> subnodes node \<Longrightarrow> bl d n = bl' d n"
  shows "statement_step c ex bl node = statement_step c ex' bl' node"
  unfolding statement_step_def 
  by (auto simp del: get_nth_eq_Some intro!: step_congs convert_store_cong convert_cleanup_cong
      intro: subnode_intros assms
      split: option.splits)

function (sequential)
  conv_expr :: "converter \<Rightarrow> wexpr \<Rightarrow> expr result" and
  conv_block :: "converter \<Rightarrow> wexpr \<Rightarrow> block result" and
  conv_stmt :: "converter \<Rightarrow> wexpr \<Rightarrow> stmt result" where
  "conv_expr c node = expr_step c (conv_expr c) (conv_block c) node"
| "conv_block c node = block_step (conv_expr c) (conv_stmt c) node"
| "conv_stmt c node =
     mapE (\<lambda>kind. Stmt kind (w_span node))
       (statement_step c (conv_expr c) (\<lambda>d. conv_block (c\<lparr>cv_loop_depth := d\<rparr>)) node)"
  by pat_completeness auto

termination
  by (relation "measure (\<lambda>x. case x of
        Inl (c, node) \<Rightarrow> 3 * size node + 1
      | Inr (Inl (c, node)) \<Rightarrow> 3 * size node
      | Inr (Inr (c, node)) \<Rightarrow> 3 * size node + 2)")
    (auto dest: size_subnode size_child)

declare conv_expr.simps [simp del] conv_block.simps [simp del] conv_stmt.simps [simp del]

text \<open>Evaluation unfolds the recursion only at a constructor.\<close>

lemma conv_code [code]:
  "conv_expr c (WExpr tag t sp s i fl children arms) =
     expr_step c (conv_expr c) (conv_block c) (WExpr tag t sp s i fl children arms)"
  "conv_block c (WExpr tag t sp s i fl children arms) =
     block_step (conv_expr c) (conv_stmt c) (WExpr tag t sp s i fl children arms)"
  "conv_stmt c (WExpr tag t sp s i fl children arms) =
     mapE (\<lambda>kind. Stmt kind sp)
       (statement_step c (conv_expr c) (\<lambda>d. conv_block (c\<lparr>cv_loop_depth := d\<rparr>))
         (WExpr tag t sp s i fl children arms))"
  by (simp_all add: conv_expr.simps conv_block.simps conv_stmt.simps)

end
