(* ===== verification/Layout.thy ===== *)
theory Layout
  imports Model
begin

text \<open>
  The layout check of the decoder (\<open>layout\<close> in \<open>compiler/src/native_input.rs\<close>): a depth-first
  walk over the by-value containments of the declared data types that rejects a cycle.  The
  state has one entry per type: 0 unvisited, 1 on the current path, 2 finished.
\<close>

section \<open>The walk\<close>

definition refined_message :: string where
  "refined_message = ''native refined layout needs Int, Bool, Float, Text, Bytes, a record/tuple, an enum or a List''"

text \<open>A refined type needs a base with a native layout of its own.\<close>

definition refined_base :: "program \<Rightarrow> ty \<Rightarrow> unit result" where
  "refined_base p base =
     bindE (case base of
              TData i \<Rightarrow> mapE (\<lambda>d. case data_kind_of d of KRecord _ \<Rightarrow> True | KEnum _ \<Rightarrow> True | _ \<Rightarrow> False)
                           (idx (p_types p) i)
            | _ \<Rightarrow> Inr False) (\<lambda>inline_data.
     ensure (\<not> (base \<noteq> TInt \<and> base \<noteq> TBool \<and> base \<noteq> TFloat \<and> base \<noteq> TText \<and> base \<noteq> TBytes
         \<and> \<not> (case base of TList _ \<Rightarrow> True | _ \<Rightarrow> False) \<and> \<not> inline_data))
       (Rejected refined_message))"

text \<open>The types stored inline in a value of a data kind, after the check of a refined base.\<close>

definition inline_types :: "program \<Rightarrow> data_kind \<Rightarrow> ty list result" where
  "inline_types p kind =
     (case kind of
        KTask _ \<Rightarrow> Inr []
      | KFrame _ \<Rightarrow> Inr []
      | KRecord fs \<Rightarrow> Inr (map snd fs)
      | KEnum variants \<Rightarrow> Inr (concat (map snd variants))
      | KRefined base \<Rightarrow> mapE (\<lambda>_. [base]) (refined_base p base))"

text \<open>
  \<open>layout\<close>.  The fuel bounds the nesting of the recursive calls; running out of it is written as a
  panic, and the theory \<open>Decode\<close> calls it with one more than the number of types, which is proved
  enough.
\<close>

primrec layout :: "nat \<Rightarrow> program \<Rightarrow> ty \<Rightarrow> nat list \<Rightarrow> nat list result" where
  "layout 0 p t state = Inl Panicked"
| "layout (Suc fuel) p t state =
     (case t of
        TData i \<Rightarrow>
          bindE (idx state i) (\<lambda>mark.
          if mark = 2 then Inr state
          else
            bindE (ensure (mark \<noteq> 1) (Rejected ''recursive by-value checked-IR layout'')) (\<lambda>_.
            bindE (idx (p_types p) i) (\<lambda>d.
            bindE (inline_types p (data_kind_of d)) (\<lambda>ts.
            bindE (foldE (layout fuel p) ts (state[i := 1])) (\<lambda>state'.
            set_idx state' i 2)))))
      | _ \<Rightarrow> Inr state)"

text \<open>\<open>decode\<close> walks every declared type, and the fields of a frame, which is a handle itself but
  whose allocation stores its fields by value.\<close>

definition check_type :: "program \<Rightarrow> nat \<Rightarrow> nat list \<Rightarrow> nat list result" where
  "check_type p i state =
     (let fuel = Suc (length (p_types p)) in
      bindE (layout fuel p (TData i) state) (\<lambda>state.
      bindE (idx (p_types p) i) (\<lambda>d.
      case data_kind_of d of
        KFrame fs \<Rightarrow> foldE (layout fuel p) (map snd fs) state
      | _ \<Rightarrow> Inr state)))"

definition check_layouts :: "program \<Rightarrow> nat list result" where
  "check_layouts p =
     foldE (check_type p) [0..<length (p_types p)] (replicate (length (p_types p)) 0)"

section \<open>Containment\<close>

text \<open>The types a data type holds by value.  Tasks and coroutine frames are handles.\<close>

definition kind_contents :: "data_kind \<Rightarrow> ty list" where
  "kind_contents kind =
     (case kind of
        KTask _ \<Rightarrow> [] | KFrame _ \<Rightarrow> []
      | KRecord fs \<Rightarrow> map snd fs
      | KEnum variants \<Rightarrow> concat (map snd variants)
      | KRefined base \<Rightarrow> [base])"

definition contains_value :: "program \<Rightarrow> (nat \<times> nat) set" where
  "contains_value p =
     {(i, j). i < length (p_types p) \<and> TData j \<in> set (kind_contents (data_kind_of (p_types p ! i)))}"

lemma inline_types_contents: "inline_types p kind = Inr ts \<Longrightarrow> ts = kind_contents kind"
  by (auto simp: inline_types_def kind_contents_def split: data_kind.splits)

definition finished :: "nat list \<Rightarrow> nat set" where
  "finished state = {i. i < length state \<and> state ! i = 2}"

definition walking :: "nat list \<Rightarrow> nat set" where
  "walking state = {i. i < length state \<and> state ! i = 1}"

text \<open>The invariant of the walk: the finished types are closed under containment, pass the check
  of a refined base, and contain no cycle.\<close>

definition walked :: "program \<Rightarrow> nat list \<Rightarrow> bool" where
  "walked p state \<longleftrightarrow>
     length state = length (p_types p) \<and>
     contains_value p `` finished state \<subseteq> finished state \<and>
     (\<forall>i \<in> finished state. \<exists>ts. inline_types p (data_kind_of (p_types p ! i)) = Inr ts) \<and>
     acyclic (contains_value p \<inter> finished state \<times> UNIV)"

text \<open>A call only finishes types: a finished type stays finished, the path stays as it is.\<close>

definition grows :: "nat list \<Rightarrow> nat list \<Rightarrow> bool" where
  "grows s s' \<longleftrightarrow>
     length s' = length s \<and> finished s \<subseteq> finished s' \<and> walking s' = walking s"

definition type_finished :: "nat list \<Rightarrow> ty \<Rightarrow> bool" where
  "type_finished s t \<longleftrightarrow> (case t of TData i \<Rightarrow> i \<in> finished s | _ \<Rightarrow> True)"

lemma grows_refl [simp]: "grows s s"
  by (simp add: grows_def)

lemma grows_trans: "grows s t \<Longrightarrow> grows t u \<Longrightarrow> grows s u"
  by (auto simp: grows_def)

lemma grows_finished: "grows s s' \<Longrightarrow> type_finished s t \<Longrightarrow> type_finished s' t"
  by (auto simp: grows_def type_finished_def split: ty.splits)

lemma finished_update: "i < length s \<Longrightarrow> finished (s[i := 2]) = insert i (finished s)"
  by (auto simp: finished_def nth_list_update)

lemma finished_start: "s ! i \<noteq> 2 \<Longrightarrow> finished (s[i := Suc 0]) = finished s"
  by (cases "i < length s") (auto simp: finished_def nth_list_update split: if_splits)

lemma walking_start: "i < length s \<Longrightarrow> walking (s[i := Suc 0]) = insert i (walking s)"
  by (auto simp: walking_def nth_list_update)

lemma walking_stop: "walking (s[i := 2]) = walking s - {i}"
  by (cases "i < length s") (auto simp: walking_def nth_list_update split: if_splits)

lemma acyclic_insert_source:
  assumes "acyclic (r \<inter> B \<times> UNIV)" and "r `` B \<subseteq> B" and "r `` {i} \<subseteq> B" and "i \<notin> B"
  shows "acyclic (r \<inter> insert i B \<times> UNIV)"
proof (rule acyclicI, rule allI, rule notI)
  let ?r = "r \<inter> B \<times> UNIV" and ?r' = "r \<inter> insert i B \<times> UNIV"
  have stay: "(y, z) \<in> ?r\<^sup>+ \<and> z \<in> B" if "(y, z) \<in> ?r'\<^sup>+" and "y \<in> B" for y z
    using that
  proof (induction rule: trancl_induct)
    case (base z)
    then show ?case using assms(2,4) by auto
  next
    case (step z u)
    then have "(z, u) \<in> ?r" and "u \<in> B"
      using assms(2,4) by auto
    with step show ?case by (meson trancl.trancl_into_trancl)
  qed
  fix x assume cycle: "(x, x) \<in> ?r'\<^sup>+"
  then obtain y where y: "(x, y) \<in> ?r'" "(y, x) \<in> ?r'\<^sup>*"
    by (meson tranclD)
  have "x \<in> B"
  proof (rule ccontr)
    assume "x \<notin> B"
    with y have "y \<in> B" and "(y, x) \<in> ?r'\<^sup>+"
      using assms(3,4) by (auto simp: rtrancl_eq_or_trancl)
    with stay \<open>x \<notin> B\<close> show False by blast
  qed
  with stay [OF cycle] assms(1) show False
    by (simp add: acyclic_def)
qed

lemma foldE_walked:
  assumes "foldE f xs s = Inr s'" and "walked p s"
    and "\<And>x s s'. x \<in> set xs \<Longrightarrow> f x s = Inr s' \<Longrightarrow> walked p s \<Longrightarrow> walked p s' \<and> grows s s' \<and> D x s'"
    and "\<And>x s s'. grows s s' \<Longrightarrow> D x s \<Longrightarrow> D x s'"
  shows "walked p s' \<and> grows s s' \<and> (\<forall>x \<in> set xs. D x s')"
  using assms(1-3)
proof (induction xs arbitrary: s)
  case (Cons x xs)
  then obtain u where u: "f x s = Inr u" "foldE f xs u = Inr s'" by auto
  then have fu: "walked p u" "grows s u" "D x u"
    using Cons.prems by auto
  then have "walked p s' \<and> grows u s' \<and> (\<forall>x \<in> set xs. D x s')"
    using Cons.IH [OF u(2)] Cons.prems(3) by (meson list.set_intros(2))
  with fu show ?case
    using grows_trans assms(4) by auto
qed simp

lemma contains_value_finished:
  assumes "\<forall>t \<in> set (kind_contents (data_kind_of (p_types p ! i))). type_finished s t"
  shows "contains_value p `` {i} \<subseteq> finished s"
  using assms by (auto simp: contains_value_def type_finished_def)

lemma walked_start:
  "walked p s \<Longrightarrow> i < length s \<Longrightarrow> s ! i \<noteq> 2 \<Longrightarrow> walked p (s[i := 1])"
  by (simp add: walked_def finished_start)

lemma walked_stop:
  assumes "walked p s" and "i < length s" and "i \<notin> finished s"
    and "contains_value p `` {i} \<subseteq> finished s"
    and "inline_types p (data_kind_of (p_types p ! i)) = Inr ts"
  shows "walked p (s[i := 2])"
  using assms acyclic_insert_source [of "contains_value p" "finished s" i]
  by (auto simp: walked_def finished_update)

lemma layout_walked:
  "layout fuel p t s = Inr s' \<Longrightarrow> walked p s \<Longrightarrow> walked p s' \<and> grows s s' \<and> type_finished s' t"
proof (induction fuel arbitrary: t s s')
  case (Suc fuel)
  show ?case
  proof (cases "\<exists>i. t = TData i \<and> s ! i \<noteq> 2")
    case False
    with Suc.prems show ?thesis
      by (auto simp: type_finished_def finished_def split: ty.splits)
  next
    case True
    then obtain i where t: "t = TData i" and mark: "s ! i \<noteq> 2" by blast
    from Suc.prems t mark obtain ts u where
      i: "i < length s" "s ! i \<noteq> 1" and
      ts: "inline_types p (data_kind_of (p_types p ! i)) = Inr ts" and
      u: "foldE (layout fuel p) ts (s[i := 1]) = Inr u" and s': "s' = u[i := 2]"
      by (auto split: if_splits)
    have inner: "walked p u \<and> grows (s[i := 1]) u \<and> (\<forall>t \<in> set ts. type_finished u t)"
      by (rule foldE_walked [OF u])
        (use Suc.IH Suc.prems walked_start i mark grows_finished in auto)
    then have "i \<in> walking u" and len: "length u = length s"
      using i by (auto simp: grows_def walking_start)
    then have "i \<notin> finished u" and iu: "i < length u"
      by (auto simp: walking_def finished_def)
    then have "walked p s'"
      using inner ts walked_stop [of p u i ts] contains_value_finished [of p i u]
      by (simp add: s' flip: inline_types_contents [OF ts])
    moreover have "grows s s'"
      using inner i mark len iu
      by (auto simp: grows_def s' finished_update finished_start walking_start walking_stop)
        (auto simp: walking_def)
    moreover have "type_finished s' t"
      using iu by (simp add: t s' type_finished_def finished_update)
    ultimately show ?thesis by simp
  qed
qed simp

lemma foldE_layout:
  assumes "foldE (layout fuel p) ts s = Inr s'" and "walked p s"
  shows "walked p s' \<and> grows s s' \<and> (\<forall>t \<in> set ts. type_finished s' t)"
  by (rule foldE_walked [OF assms]) (use layout_walked grows_finished in auto)

section \<open>Enough fuel\<close>

text \<open>Every data reference of a program's type table is in range.\<close>

definition kind_refs :: "data_kind \<Rightarrow> ty list" where
  "kind_refs kind =
     (case kind of
        KTask t \<Rightarrow> [t] | KFrame fs \<Rightarrow> map snd fs
      | KRecord fs \<Rightarrow> map snd fs
      | KEnum variants \<Rightarrow> concat (map snd variants)
      | KRefined base \<Rightarrow> [base])"

definition types_closed :: "program \<Rightarrow> bool" where
  "types_closed p \<longleftrightarrow> (\<forall>d \<in> set (p_types p). \<forall>t \<in> set (kind_refs (data_kind_of d)). ty_in_range p t)"

lemma kind_contents_refs: "set (kind_contents kind) \<subseteq> set (kind_refs kind)"
  by (cases kind) (auto simp: kind_contents_def kind_refs_def)

lemma types_closed_contents:
  "types_closed p \<Longrightarrow> i < length (p_types p)
    \<Longrightarrow> t \<in> set (kind_contents (data_kind_of (p_types p ! i))) \<Longrightarrow> ty_in_range p t"
  using kind_contents_refs unfolding types_closed_def by (meson nth_mem subsetD)

lemma refined_base_safe: "ty_in_range p t \<Longrightarrow> safe (refined_base p t)"
  by (auto simp: refined_base_def intro!: safe_intros split: ty.splits)

lemma inline_types_safe:
  assumes "types_closed p" and "i < length (p_types p)"
  shows "safe (inline_types p (data_kind_of (p_types p ! i)))"
  using types_closed_contents [OF assms]
  by (auto simp: inline_types_def kind_contents_def intro!: refined_base_safe split: data_kind.splits)

definition unvisited :: "nat list \<Rightarrow> nat set" where
  "unvisited s = {i. i < length s \<and> s ! i \<noteq> 1 \<and> s ! i \<noteq> 2}"

lemma unvisited_grows: "grows s s' \<Longrightarrow> unvisited s' \<subseteq> unvisited s"
  by (auto simp: grows_def unvisited_def finished_def walking_def set_eq_iff)

lemma finite_unvisited [simp]: "finite (unvisited s)"
  by (simp add: unvisited_def)

lemma card_unvisited_start:
  assumes "i < length s" and "s ! i \<noteq> 1" and "s ! i \<noteq> 2"
  shows "card (unvisited (s[i := 1])) < card (unvisited s)"
proof (rule psubset_card_mono)
  show "unvisited (s[i := 1]) \<subset> unvisited s"
    using assms by (auto simp: unvisited_def nth_list_update psubset_eq split: if_splits)
qed simp

lemma card_unvisited_length: "card (unvisited s) \<le> length s"
  using card_mono [of "{..<length s}" "unvisited s"] by (auto simp: unvisited_def)

lemma layout_safe:
  assumes "types_closed p"
  shows "walked p s \<Longrightarrow> ty_in_range p t \<Longrightarrow> card (unvisited s) < fuel \<Longrightarrow> safe (layout fuel p t s)"
proof (induction fuel arbitrary: t s)
  case (Suc fuel)
  show ?case
  proof (cases "\<exists>i. t = TData i \<and> s ! i \<noteq> 2 \<and> s ! i \<noteq> 1")
    case False
    with Suc.prems show ?thesis
      by (auto simp: walked_def split: ty.splits intro!: safe_intros)
  next
    case True
    then obtain i where t: "t = TData i" and mark: "s ! i \<noteq> 2" "s ! i \<noteq> 1" by blast
    then have i: "i < length (p_types p)" "i < length s"
      using Suc.prems by (auto simp: walked_def)
    let ?P = "\<lambda>u. walked p u \<and> grows (s[i := 1]) u"
    have bound: "card (unvisited u) < fuel" if "grows (s[i := 1]) u" for u
      using card_unvisited_start [OF i(2) mark(2,1)] Suc.prems
        card_mono [OF finite_unvisited unvisited_grows [OF that]] by simp
    have fold: "safe (foldE (layout fuel p) ts (s[i := 1]))"
      if ts: "inline_types p (data_kind_of (p_types p ! i)) = Inr ts" for ts
    proof (rule safe_foldE [where P = ?P])
      show "?P (s[i := 1])"
        using Suc.prems walked_start i mark by simp
      fix t u
      assume t: "t \<in> set ts" and u: "?P u"
      show "safe (layout fuel p t u)"
        using Suc.IH [of u t] u t bound types_closed_contents [OF assms i(1)]
          inline_types_contents [OF ts] by simp
      show "?P v" if "layout fuel p t u = Inr v" for v
        using layout_walked [OF that] u grows_trans by blast
    qed
    have len: "length u = length s" if "foldE (layout fuel p) ts (s[i := 1]) = Inr u" for ts u
      using foldE_layout [OF that] walked_start Suc.prems i mark
      by (auto simp: grows_def)
    show ?thesis
      using t i mark fold len inline_types_safe [OF assms i(1)]
      by (auto intro!: safe_intros)
  qed
qed simp

declare layout.simps(2) [simp del]

section \<open>The walk of all types\<close>

definition refined_bases :: "program \<Rightarrow> bool" where
  "refined_bases p \<longleftrightarrow>
     (\<forall>d \<in> set (p_types p). \<forall>base. data_kind_of d = KRefined base \<longrightarrow> refined_base p base = Inr ())"

lemma refined_bases_inline:
  "refined_bases p \<longleftrightarrow> (\<forall>i < length (p_types p). \<exists>ts. inline_types p (data_kind_of (p_types p ! i)) = Inr ts)"
  unfolding refined_bases_def inline_types_def
  by (auto simp: set_conv_nth split: data_kind.splits)

lemma check_type_walked:
  assumes "check_type p i s = Inr s'" and "walked p s"
  shows "walked p s' \<and> grows s s' \<and> i \<in> finished s'"
proof -
  from assms(1) obtain u where u: "layout (Suc (length (p_types p))) p (TData i) s = Inr u"
    and s': "s' = u \<or> (\<exists>fs. foldE (layout (Suc (length (p_types p))) p) fs u = Inr s')"
    unfolding check_type_def Let_def
    by (cases "data_kind_of (p_types p ! i)") (auto split: data_kind.splits)
  have wu: "walked p u" "grows s u" "i \<in> finished u"
    using layout_walked [OF u assms(2)] by (auto simp: type_finished_def)
  then have "walked p s' \<and> grows u s'"
    using s' by (auto dest: foldE_layout)
  with wu show ?thesis
    using grows_trans by (auto simp: grows_def)
qed

lemma walked_initial: "walked p (replicate (length (p_types p)) 0)"
proof -
  have "finished (replicate n 0) = {}" for n
    by (auto simp: finished_def)
  then show ?thesis by (simp add: walked_def acyclic_def)
qed

lemma check_layouts_walked:
  assumes "check_layouts p = Inr s"
  shows "walked p s \<and> finished s = {..<length (p_types p)}"
proof -
  have "walked p s \<and> grows (replicate (length (p_types p)) 0) s \<and>
      (\<forall>i \<in> set [0..<length (p_types p)]. i \<in> finished s)"
    by (rule foldE_walked [OF assms [unfolded check_layouts_def] walked_initial])
      (use check_type_walked in \<open>auto simp: grows_def\<close>)
  moreover from this have "finished s \<subseteq> {..<length (p_types p)}"
    by (auto simp: walked_def finished_def)
  ultimately show ?thesis by auto
qed

text \<open>An accepted type table contains no by-value cycle and only refines bases with a layout.\<close>

lemma check_layouts_sound:
  assumes "check_layouts p = Inr s"
  shows "acyclic (contains_value p)" and "refined_bases p"
proof -
  have "contains_value p \<inter> {..<length (p_types p)} \<times> UNIV = contains_value p"
    by (auto simp: contains_value_def)
  then show "acyclic (contains_value p)"
    using check_layouts_walked [OF assms] unfolding walked_def by metis
  show "refined_bases p"
    using check_layouts_walked [OF assms] by (simp add: walked_def refined_bases_inline)
qed

lemma check_type_safe:
  assumes "types_closed p" and "walked p s" and "i < length (p_types p)"
  shows "safe (check_type p i s)"
proof -
  let ?fuel = "Suc (length (p_types p))"
  have step: "safe (layout ?fuel p t u)" if "walked p u" and "ty_in_range p t" for t u
    using layout_safe [OF assms(1) that] card_unvisited_length [of u] that(1)
    by (simp add: walked_def)
  have frame: "safe (foldE (layout ?fuel p) (map snd fs) u)"
    if "walked p u" and "data_kind_of (p_types p ! i) = KFrame fs" for u fs
  proof (rule safe_foldE [where P = "walked p"])
    fix t u assume "t \<in> set (map snd fs)" and u: "walked p u"
    then have "ty_in_range p t"
      using assms(1) nth_mem [OF assms(3)] that(2)
      by (auto simp: types_closed_def kind_refs_def dest!: bspec split: data_kind.splits)
    then show "safe (layout ?fuel p t u)" using step u by blast
    show "walked p v" if "layout ?fuel p t u = Inr v" for v
      using layout_walked [OF that u] by simp
  qed (rule that)
  show ?thesis
    unfolding check_type_def Let_def using assms step frame layout_walked
    by (auto intro!: safe_intros split: data_kind.splits)
qed

lemma check_layouts_safe:
  assumes "types_closed p"
  shows "safe (check_layouts p)"
  unfolding check_layouts_def
  by (rule safe_foldE [where P = "walked p"])
    (use walked_initial check_type_safe [OF assms] check_type_walked in auto)

section \<open>Completeness\<close>

lemma foldE_accepts:
  assumes "P s" and "\<And>x s. x \<in> set xs \<Longrightarrow> P s \<Longrightarrow> \<exists>s'. f x s = Inr s' \<and> P s'"
  shows "\<exists>s'. foldE f xs s = Inr s' \<and> P s'"
  using assms
proof (induction xs arbitrary: s)
  case (Cons x xs)
  then obtain u where "f x s = Inr u" "P u" by (meson list.set_intros(1))
  moreover have "\<exists>s'. foldE f xs u = Inr s' \<and> P s'"
    by (rule Cons.IH) (use \<open>P u\<close> Cons.prems(2) in auto)
  ultimately show ?case by simp
qed simp

text \<open>A walk never meets its own path in an acyclic table.\<close>

lemma layout_accepts:
  assumes "types_closed p" and "refined_bases p" and "acyclic (contains_value p)"
  shows "walked p s \<Longrightarrow> ty_in_range p t \<Longrightarrow> card (unvisited s) < fuel
    \<Longrightarrow> \<forall>g \<in> walking s. \<forall>j. t = TData j \<longrightarrow> (g, j) \<in> (contains_value p)\<^sup>+
    \<Longrightarrow> \<exists>s'. layout fuel p t s = Inr s'"
proof (induction fuel arbitrary: t s)
  case (Suc fuel)
  show ?case
  proof (cases "\<exists>i. t = TData i \<and> s ! i \<noteq> 2")
    case False
    with Suc.prems show ?thesis
      by (auto simp: walked_def layout.simps split: ty.splits)
  next
    case True
    then obtain i where t: "t = TData i" and mark: "s ! i \<noteq> 2" by blast
    then have i: "i < length (p_types p)" "i < length s"
      using Suc.prems by (auto simp: walked_def)
    have fresh: "s ! i \<noteq> 1"
      using Suc.prems(4) assms(3) i t by (auto simp: walking_def acyclic_def)
    obtain ts where ts: "inline_types p (data_kind_of (p_types p ! i)) = Inr ts"
      using assms(2) i by (auto simp: refined_bases_inline)
    let ?P = "\<lambda>u. walked p u \<and> grows (s[i := 1]) u"
    have "\<exists>u. foldE (layout fuel p) ts (s[i := 1]) = Inr u \<and> ?P u"
    proof (rule foldE_accepts)
      show "?P (s[i := 1])"
        using Suc.prems walked_start i mark by simp
      fix t' u
      assume t': "t' \<in> set ts" and u: "?P u"
      have "card (unvisited u) < fuel"
        using card_unvisited_start [OF i(2) fresh mark] Suc.prems u
          card_mono [OF finite_unvisited unvisited_grows [of "s[i := 1]" u]] by simp
      moreover have "ty_in_range p t'"
        using types_closed_contents [OF assms(1) i(1)] inline_types_contents [OF ts] t' by simp
      moreover have "(g, j) \<in> (contains_value p)\<^sup>+" if g: "g \<in> walking u" and j: "t' = TData j" for g j
      proof -
        have edge: "(i, j) \<in> contains_value p"
          using t' j i inline_types_contents [OF ts] by (simp add: contains_value_def)
        have "g = i \<or> (g, i) \<in> (contains_value p)\<^sup>+"
          using g u Suc.prems(4) t i by (auto simp: grows_def walking_start)
        with edge show ?thesis by (auto intro: trancl_into_trancl)
      qed
      ultimately obtain v where v: "layout fuel p t' u = Inr v"
        using Suc.IH [of u t'] u by blast
      then show "\<exists>v. layout fuel p t' u = Inr v \<and> ?P v"
        using layout_walked [OF v] u grows_trans by blast
    qed
    then obtain u where u: "foldE (layout fuel p) ts (s[i := 1]) = Inr u" and "grows (s[i := 1]) u"
      by blast
    then have "i < length u" using i by (simp add: grows_def)
    then show ?thesis
      using t mark fresh i ts u by (simp add: layout.simps)
  qed
qed simp

lemma check_type_accepts:
  assumes "types_closed p" and "refined_bases p" and "acyclic (contains_value p)"
    and "walked p s" and "walking s = {}" and "i < length (p_types p)"
  shows "\<exists>s'. check_type p i s = Inr s'"
proof -
  let ?fuel = "Suc (length (p_types p))" and ?P = "\<lambda>u. walked p u \<and> walking u = {}"
  have step: "\<exists>v. layout ?fuel p t u = Inr v \<and> ?P v" if u: "?P u" and t: "ty_in_range p t" for t u
  proof -
    have "card (unvisited u) < ?fuel"
      using card_unvisited_length [of u] that by (simp add: walked_def)
    then obtain v where "layout ?fuel p t u = Inr v"
      using layout_accepts [OF assms(1-3), of u t ?fuel] u t by auto
    then show ?thesis
      using layout_walked [of ?fuel p t u v] that by (auto simp: grows_def)
  qed
  have frame: "\<exists>v. foldE (layout ?fuel p) (map snd fs) u = Inr v"
    if "?P u" and kind: "data_kind_of (p_types p ! i) = KFrame fs" for u fs
  proof -
    have "\<exists>v. foldE (layout ?fuel p) (map snd fs) u = Inr v \<and> ?P v"
    proof (rule foldE_accepts [where P = ?P])
      show "?P u" by (rule that(1))
      fix t u assume t: "t \<in> set (map snd fs)" and u: "?P u"
      have "t \<in> set (kind_refs (data_kind_of (p_types p ! i)))"
        using t kind by (simp add: kind_refs_def)
      then have "ty_in_range p t"
        using assms(1,6) nth_mem unfolding types_closed_def by blast
      with step u show "\<exists>v. layout ?fuel p t u = Inr v \<and> ?P v" by blast
    qed
    then show ?thesis by blast
  qed
  obtain u where "layout ?fuel p (TData i) s = Inr u" and "?P u"
    using step [of s "TData i"] assms by auto
  then show ?thesis
    using frame [of u] assms(6)
    by (cases "data_kind_of (p_types p ! i)") (auto simp: check_type_def Let_def)
qed

lemma check_layouts_iff:
  assumes "types_closed p"
  shows "(\<exists>s. check_layouts p = Inr s) \<longleftrightarrow> acyclic (contains_value p) \<and> refined_bases p"
proof
  assume "acyclic (contains_value p) \<and> refined_bases p"
  then have acyclic: "acyclic (contains_value p)" and bases: "refined_bases p" by auto
  let ?P = "\<lambda>u. walked p u \<and> walking u = {}"
  have "\<exists>s. check_layouts p = Inr s \<and> ?P s"
    unfolding check_layouts_def
  proof (rule foldE_accepts)
    show "?P (replicate (length (p_types p)) 0)"
      using walked_initial by (simp add: walking_def)
    fix i u assume i: "i \<in> set [0..<length (p_types p)]" and u: "?P u"
    then obtain v where v: "check_type p i u = Inr v"
      using check_type_accepts [OF assms bases acyclic, of u i] by auto
    then show "\<exists>v. check_type p i u = Inr v \<and> ?P v"
      using check_type_walked [OF v] u by (auto simp: grows_def)
  qed
  then show "\<exists>s. check_layouts p = Inr s" by blast
qed (auto dest: check_layouts_sound)

end
