(* ===== verification/Decode.thy ===== *)
theory Decode
  imports Converter Layout
begin

text \<open>
  \<open>decode\<close> of \<open>compiler/src/native_input.rs\<close>: the header, the type and function tables, the roots,
  the tagged optional sections, then the construction of the checked program.  The wire tables
  read so far are the record \<open>wire\<close>; the construction runs on the record \<open>program\<close>.
\<close>

section \<open>Reading the stream\<close>

type_synonym wsignature = "nat list \<times> nat"
type_synonym wwitness = "nat \<times> nat \<times> nat option list"
type_synonym wsites = "nat \<times> nat \<times> (span \<times> nat \<times> nat) list"

record wire =
  wr_data :: "wdata list"
  wr_functions :: "wfunction list"
  wr_entry :: "nat option"
  wr_tests :: "nat list"
  wr_exports :: "nat list"
  wr_interfaces :: "wsignature list list"
  wr_witnesses :: "wwitness list"
  wr_test_names :: "string list"
  wr_target_inputs :: "(string \<times> string) list"
  wr_locations :: source_map
  wr_features :: "bool list"

definition rd_tables :: "wire reading" where
  "rd_tables =
     bindR (rd_sequence rd_data) (\<lambda>data.
     bindR (rd_sequence rd_function) (\<lambda>functions.
     bindR rd_optional (\<lambda>entry.
     bindR (rd_sequence rd_index) (\<lambda>tests.
     bindR (rd_sequence rd_index) (\<lambda>exports.
     returnR \<lparr>wr_data = data, wr_functions = functions, wr_entry = entry, wr_tests = tests,
              wr_exports = exports, wr_interfaces = [], wr_witnesses = [], wr_test_names = [],
              wr_target_inputs = [], wr_locations = \<lparr>paths = [], sites = Map.empty\<rparr>,
              wr_features = replicate 4 False\<rparr>)))))"

definition rd_signature :: "wsignature reading" where
  "rd_signature =
     bindR (rd_sequence rd_index) (\<lambda>params. bindR rd_index (\<lambda>result. returnR (params, result)))"

definition rd_witness :: "wwitness reading" where
  "rd_witness =
     bindR rd_index (\<lambda>interface.
     bindR rd_index (\<lambda>concrete.
     bindR (rd_sequence rd_optional) (\<lambda>methods. returnR (interface, concrete, methods))))"

definition rd_pair :: "(string \<times> string) reading" where
  "rd_pair = bindR rd_string (\<lambda>name. bindR rd_string (\<lambda>value. returnR (name, value)))"

definition rd_sites :: "wsites reading" where
  "rd_sites =
     bindR rd_index (\<lambda>function.
     bindR rd_index (\<lambda>file.
     bindR (rd_sequence (bindR rd_span (\<lambda>span. bindR rd_index (\<lambda>line. bindR rd_index (\<lambda>column.
       returnR (span, line, column)))))) (\<lambda>sites.
     returnR (function, file, sites))))"

definition target_properties :: "string set" where
  "target_properties = {''os'', ''arch'', ''pointer_width'', ''endian''}"

definition check_target :: "string \<times> string \<Rightarrow> string set \<Rightarrow> string set result" where
  "check_target input names =
     (if fst input \<notin> target_properties \<or> fst input \<in> names
      then Inl (Rejected ''invalid or duplicate checked target property'')
      else Inr (insert (fst input) names))"

definition add_site ::
    "nat \<Rightarrow> nat \<Rightarrow> span \<times> nat \<times> nat \<Rightarrow> ((nat \<times> span) \<rightharpoonup> source_position)
      \<Rightarrow> ((nat \<times> span) \<rightharpoonup> source_position) result" where
  "add_site function file site found =
     (case site of (span, line, column) \<Rightarrow>
        if line = 0 \<or> column = 0 \<or> found (function, span) \<noteq> None
        then Inl (Rejected ''invalid or duplicate checked source location'')
        else Inr (found((function, span) \<mapsto>
               \<lparr>pos_file = file, pos_line = line, pos_column = column\<rparr>)))"

definition add_sites ::
    "wire \<Rightarrow> string list \<Rightarrow> wsites \<Rightarrow> nat set \<times> ((nat \<times> span) \<rightharpoonup> source_position)
      \<Rightarrow> (nat set \<times> ((nat \<times> span) \<rightharpoonup> source_position)) result" where
  "add_sites w files entry state =
     (case entry of (function, file, entries) \<Rightarrow>
        bindE (at (wr_functions w) function) (\<lambda>_.
        bindE (at files file) (\<lambda>_.
        bindE (ensure (function \<notin> fst state) (Rejected ''duplicate checked source function'')) (\<lambda>_.
        mapE (Pair (insert function (fst state)))
          (foldE (add_site function file) entries (snd state))))))"

text \<open>One optional section, after its tag has been found new.\<close>

definition rd_section :: "nat \<Rightarrow> wire \<Rightarrow> wire reading" where
  "rd_section tag w =
     (if tag = 1 then
        bindR (rd_sequence (rd_sequence rd_signature)) (\<lambda>interfaces.
        bindR (rd_sequence rd_witness) (\<lambda>witnesses.
        returnR (w\<lparr>wr_interfaces := interfaces, wr_witnesses := witnesses\<rparr>)))
      else if tag = 2 then
        bindR (rd_sequence rd_string) (\<lambda>names. returnR (w\<lparr>wr_test_names := names\<rparr>))
      else if tag = 3 then
        bindR (rd_sequence rd_pair) (\<lambda>inputs.
        bindR (liftR (foldE check_target inputs {})) (\<lambda>_.
        returnR (w\<lparr>wr_target_inputs := inputs\<rparr>)))
      else
        bindR (rd_sequence rd_string) (\<lambda>files.
        bindR (rd_sequence rd_sites) (\<lambda>groups.
        bindR (liftR (foldE (add_sites w files) groups ({}, Map.empty))) (\<lambda>state.
        returnR (w\<lparr>wr_locations := \<lparr>paths = files, sites = snd state\<rparr>\<rparr>)))))"

definition rd_feature :: "wire \<Rightarrow> wire reading" where
  "rd_feature w =
     bindR rd_index (\<lambda>tag.
     bindR (liftR (ensure (1 \<le> tag \<and> tag \<le> 4) (Rejected ''unknown checked-IR feature tag''))) (\<lambda>_.
     bindR (liftR (idx (wr_features w) (tag - 1))) (\<lambda>seen.
     bindR (liftR (ensure (\<not> seen) (Rejected ''duplicate checked-IR feature tag''))) (\<lambda>_.
     rd_section tag (w\<lparr>wr_features := (wr_features w)[tag - 1 := True]\<rparr>)))))"

text \<open>Every round of the \<open>while\<close> loop marks one more section as seen.\<close>

definition unseen :: "wire \<Rightarrow> nat" where
  "unseen w = length (filter Not (wr_features w))"

lemma bindR_eq_Inr: "bindR m f r = Inr y \<longleftrightarrow> (\<exists>x r'. m r = Inr (x, r') \<and> f x r' = Inr y)"
  by (auto simp: bindR_def)

lemma returnR_eq_Inr: "returnR x r = Inr y \<longleftrightarrow> y = (x, r)"
  by (auto simp: returnR_def)

lemma liftR_eq_Inr: "liftR m r = Inr (y, r') \<longleftrightarrow> m = Inr y \<and> r' = r"
  by (auto simp: liftR_def)

lemmas reading_simps = bindR_eq_Inr returnR_eq_Inr liftR_eq_Inr

lemma rd_section_features: "rd_section tag w r = Inr (w', r') \<Longrightarrow> wr_features w' = wr_features w"
  by (auto simp: rd_section_def reading_simps split: if_splits)

lemma filter_update_True:
  "i < length bs \<Longrightarrow> \<not> bs ! i \<Longrightarrow> length (filter Not (bs[i := True])) < length (filter Not bs)"
  by (induction bs arbitrary: i) (auto split: nat.splits)

lemma rd_feature_unseen: "rd_feature w r = Inr (w', r') \<Longrightarrow> unseen w' < unseen w"
  by (auto simp: rd_feature_def unseen_def reading_simps filter_update_True
      dest!: rd_section_features)

function rd_features :: "wire \<Rightarrow> wire reading" where
  "rd_features w r =
     (if r_offset r = length (r_text r) then Inr (w, r)
      else bindE (rd_feature w r) (\<lambda>(w', r'). rd_features w' r'))"
  by pat_completeness auto

termination
  by (relation "measure (unseen \<circ> fst)") (auto dest: rd_feature_unseen)

declare rd_features.simps [simp del]

definition rd_wire :: "wire reading" where
  "rd_wire = bindR rd_tables rd_features"

section \<open>Building the program\<close>

text \<open>The kind of every type; its references are filled in afterwards.\<close>

definition type_head ::
    "wire \<Rightarrow> nat \<times> wdata \<Rightarrow> ty list \<times> program \<Rightarrow> (ty list \<times> program) result" where
  "type_head w entry state =
     (case (entry, state) of ((i, d), (types, p)) \<Rightarrow>
        let found = (\<lambda>t. Inr (types @ [t], p)) in
        if wd_tag d = 0 then found TUnit
        else if wd_tag d = 1 then found TInt
        else if wd_tag d = 2 then found TBool
        else if wd_tag d = 3 then found TText
        else if wd_tag d = 4 then found TBytes
        else if wd_tag d = 10 then found TFloat
        else if wd_tag d = 11 then
          bindE (index (wd_symbol d)) (\<lambda>interface.
          bindE (at (wr_interfaces w) interface) (\<lambda>_. found (TDyn interface)))
        else if wd_tag d = 12 then
          bindE (ensure (wd_symbol d = - 1)
            (Rejected ''checked function types have no declaration symbol'')) (\<lambda>_.
          Inr (types @ [TFunction (length (p_function_types p))],
               p\<lparr>p_function_types := p_function_types p @ [\<lparr>sig_params = [], sig_result = TUnit\<rparr>]\<rparr>))
        else if wd_tag d = 5 then bindE (index (wd_symbol d)) (\<lambda>i. found (TParameter i))
        else if wd_tag d = 6 then
          Inr (types @ [TList (length (p_lists p))], p\<lparr>p_lists := p_lists p @ [TUnit]\<rparr>)
        else if wd_tag d \<in> {7, 8, 9, 13, 14} then
          Inr (types @ [TData (length (p_types p))],
               p\<lparr>p_types := p_types p @
                 [\<lparr>data_name = ''source.type.'' @ show_int (wd_symbol d) @ ''.'' @ show_nat i,
                   data_kind_of = KRecord []\<rparr>]\<rparr>)
        else Inl (Rejected ''unknown checked-IR type tag''))"

definition map_signature :: "ty list \<Rightarrow> wsignature \<Rightarrow> signature result" where
  "map_signature types sig =
     bindE (traverse (at types) (fst sig)) (\<lambda>params.
     bindE (at types (snd sig)) (\<lambda>result.
     Inr \<lparr>sig_params = params, sig_result = result\<rparr>))"

definition witness_method ::
    "wire \<Rightarrow> ty list \<Rightarrow> ty \<Rightarrow> nat option \<times> signature \<Rightarrow> unit result" where
  "witness_method w types concrete entry =
     (case entry of
        (None, _) \<Rightarrow> Inr ()
      | (Some target, method) \<Rightarrow>
          bindE (at (wr_functions w) target) (\<lambda>f.
          bindE (traverse (at types) (wf_params f)) (\<lambda>params.
          reject_if (anyE [Inr (get_nth params 0 \<noteq> Some concrete),
              mapE (\<lambda>rest. rest \<noteq> sig_params method) (slice_from params 1),
              mapE (\<lambda>t. t \<noteq> sig_result method) (at types (wf_result f))])
            (Rejected ''checked witness method signature mismatch''))))"

definition convert_witness ::
    "wire \<Rightarrow> ty list \<Rightarrow> interface list \<Rightarrow> wwitness \<Rightarrow> witness result" where
  "convert_witness w types interfaces entry =
     (case entry of (interface, concrete_id, methods) \<Rightarrow>
        bindE (at interfaces interface) (\<lambda>shape.
        bindE (at types concrete_id) (\<lambda>concrete.
        bindE (ensure (\<not> (case concrete of TParameter _ \<Rightarrow> True | TUnit \<Rightarrow> True | _ \<Rightarrow> False))
          (Rejected ''checked witness requires a runtime value type'')) (\<lambda>_.
        bindE (ensure (length methods = length shape)
          (Rejected ''checked witness method count mismatch'')) (\<lambda>_.
        bindE (traverse (witness_method w types concrete) (zip methods shape)) (\<lambda>_.
        Inr \<lparr>wit_interface = interface, wit_concrete = concrete, wit_methods = methods\<rparr>))))))"

definition map_fields :: "ty list \<Rightarrow> (string \<times> nat) list \<Rightarrow> (string \<times> ty) list result" where
  "map_fields types = traverse (\<lambda>(name, t). mapE (Pair name) (at types t))"

text \<open>The references of a type, once every type has its head.  The last branch is
  \<open>unreachable!()\<close>.\<close>

definition data_kind_for :: "ty list \<Rightarrow> wdata \<Rightarrow> data_kind result" where
  "data_kind_for types d =
     (if wd_tag d = 7 then mapE KRecord (map_fields types (wd_fields d))
      else if wd_tag d = 8 then
        mapE KEnum (traverse (\<lambda>(name, ts). mapE (Pair name) (traverse (at types) ts)) (wd_variants d))
      else if wd_tag d = 9 then mapE KRefined (at types (wd_element d))
      else if wd_tag d = 13 then mapE KTask (at types (wd_element d))
      else if wd_tag d = 14 then mapE KFrame (map_fields types (wd_fields d))
      else Inl Panicked)"

definition fill_type :: "ty list \<Rightarrow> wdata \<times> ty \<Rightarrow> program \<Rightarrow> program result" where
  "fill_type types entry p =
     (case entry of (d, t) \<Rightarrow>
        case t of
          TList i \<Rightarrow>
            bindE (at types (wd_element d)) (\<lambda>element.
            mapE (\<lambda>ls. p\<lparr>p_lists := ls\<rparr>) (set_idx (p_lists p) i element))
        | TFunction i \<Rightarrow>
            bindE (map_signature types (wd_params d, wd_element d)) (\<lambda>sig.
            mapE (\<lambda>fs. p\<lparr>p_function_types := fs\<rparr>) (set_idx (p_function_types p) i sig))
        | TData i \<Rightarrow>
            bindE (data_kind_for types d) (\<lambda>kind.
            bindE (idx (p_types p) i) (\<lambda>old.
            mapE (\<lambda>ts. p\<lparr>p_types := ts\<rparr>) (set_idx (p_types p) i (old\<lparr>data_kind_of := kind\<rparr>))))
        | _ \<Rightarrow> Inr p)"

text \<open>A function: its parameters lead its local slots, and its preconditions are \<open>Bool\<close>.\<close>

definition convert_function ::
    "ty list \<Rightarrow> wfunction list \<Rightarrow> nat \<times> wfunction \<Rightarrow> program \<Rightarrow> program result" where
  "convert_function types functions entry p =
     (case entry of (i, source) \<Rightarrow>
        let c = \<lparr>cv_program = p, cv_types = types, cv_functions = functions, cv_source = source,
                 cv_loop_depth = 0\<rparr> in
        bindE (traverse (at types) (wf_params source)) (\<lambda>params.
        bindE (traverse (at types) (wf_locals source)) (\<lambda>locals.
        bindE (ensure (take (length params) locals = params)
          (Rejected ''checked parameters must occupy leading local slots'')) (\<lambda>_.
        bindE (traverse (\<lambda>e.
            bindE (at types (w_ty e)) (\<lambda>t.
            bindE (ensure (t = TBool) (Rejected ''precondition must be a Bool value'')) (\<lambda>_.
            conv_expr c e))) (wf_preconditions source)) (\<lambda>requires.
        bindE (conv_block c (wf_body source)) (\<lambda>body.
        bindE (at types (wf_result source)) (\<lambda>result.
        Inr (p\<lparr>p_functions := p_functions p @
          [\<lparr>fn_name = ''source.fn.'' @ show_int (wf_symbol source) @ ''.'' @ show_nat i,
            fn_params = params, fn_result = result, fn_locals = locals, fn_requires = requires,
            fn_body = body, fn_span = wf_span source\<rparr>]\<rparr>))))))))"

definition roots :: "program \<Rightarrow> nat list" where
  "roots p = (case p_entry p of None \<Rightarrow> [] | Some entry \<Rightarrow> [entry]) @ p_tests p @ p_exports p"

definition empty_program :: "wire \<Rightarrow> program" where
  "empty_program w =
     \<lparr>p_types = [], p_lists = [], p_functions = [], p_function_types = [], p_interfaces = [],
      p_witnesses = [], p_entry = wr_entry w, p_tests = wr_tests w, p_test_names = wr_test_names w,
      p_target_inputs = wr_target_inputs w, p_source_locations = wr_locations w,
      p_exports = wr_exports w\<rparr>"

text \<open>The type tables of the program: the heads, the interfaces, the witnesses, the references.\<close>

definition build_types :: "wire \<Rightarrow> (ty list \<times> program) result" where
  "build_types w =
     bindE (foldE (type_head w) (enumerate 0 (wr_data w)) ([], empty_program w)) (\<lambda>(types, p).
     bindE (traverse (traverse (map_signature types)) (wr_interfaces w)) (\<lambda>interfaces.
     bindE (traverse (convert_witness w types interfaces) (wr_witnesses w)) (\<lambda>witnesses.
     bindE (foldE (fill_type types) (zip (wr_data w) types)
       (p\<lparr>p_interfaces := interfaces, p_witnesses := witnesses\<rparr>)) (\<lambda>p.
     Inr (types, p)))))"

definition build :: "wire \<Rightarrow> program result" where
  "build w =
     bindE (ensure (\<not> (wr_test_names w \<noteq> [] \<and> length (wr_test_names w) \<noteq> length (wr_tests w)))
       (Rejected ''checked test-name count mismatch'')) (\<lambda>_.
     bindE (build_types w) (\<lambda>(types, p).
     bindE (check_layouts p) (\<lambda>_.
     bindE (foldE (convert_function types (wr_functions w)) (enumerate 0 (wr_functions w)) p) (\<lambda>p.
     bindE (traverse (at (p_functions p)) (roots p)) (\<lambda>_. Inr p)))))"

definition header :: string where
  "header = ''loom-checked-1'' @ [CHR 0x0A]"

definition strip_prefix :: "string \<Rightarrow> string \<Rightarrow> string option" where
  "strip_prefix prefix s =
     (if take (length prefix) s = prefix then Some (drop (length prefix) s) else None)"

definition decode :: "string \<Rightarrow> program result" where
  "decode input =
     bindE (ok_or (strip_prefix header input) (Rejected ''expected loom-checked-1 header'')) (\<lambda>body.
     bindE (rd_wire \<lparr>r_text = body, r_offset = 0\<rparr>) (\<lambda>(w, _). build w))"

end
