(* ===== verification/Reading.thy ===== *)
theory Reading
  imports Decode
begin

text \<open>
  Panic freedom of the reader.  The locale \<open>reading\<close> is the contract between the stream and what
  is read from it: from a reader on a character boundary an item is read without a panic, and
  leaves the reader on a boundary of the same text, further on.  Every \<open>rd_\<close> function meets it.
\<close>

definition reader_ok :: "reader \<Rightarrow> bool" where
  "reader_ok r \<longleftrightarrow> ascii_closed (r_text r) \<and> is_char_boundary (r_text r) (r_offset r)"

definition reader_after :: "reader \<Rightarrow> reader \<Rightarrow> bool" where
  "reader_after r r' \<longleftrightarrow> reader_ok r' \<and> r_text r' = r_text r \<and> r_offset r \<le> r_offset r'"

lemma reader_after_trans: "reader_after r s \<Longrightarrow> reader_after s t \<Longrightarrow> reader_after r t"
  by (auto simp: reader_after_def)

lemma reader_after_refl: "reader_ok r \<Longrightarrow> reader_after r r"
  by (simp add: reader_after_def)

lemma reader_after_ok: "reader_after r r' \<Longrightarrow> reader_ok r'"
  by (simp add: reader_after_def)

lemma reader_ok_offset: "reader_ok r \<Longrightarrow> r_offset r \<le> length (r_text r)"
  by (auto simp: reader_ok_def dest: is_char_boundary_le)

section \<open>The contract\<close>

locale reading =
  fixes item :: "'a reading"
  assumes reads: "reader_ok r \<Longrightarrow> safe (item r)"
    and advances: "reader_ok r \<Longrightarrow> item r = Inr (x, r') \<Longrightarrow> reader_after r r'"

named_theorems readings \<open>the functions that meet the contract of the reader\<close>

lemma reading_returnR [readings]: "reading (returnR x)"
  by unfold_locales (auto simp: returnR_def reader_after_refl)

lemma reading_liftR [readings]: "safe m \<Longrightarrow> reading (liftR m)"
  by unfold_locales (auto simp: liftR_def reader_after_refl)

lemma reading_bindR_strong:
  assumes "reading m" and "\<And>x r r'. reader_ok r \<Longrightarrow> m r = Inr (x, r') \<Longrightarrow> reading (f x)"
  shows "reading (bindR m f)"
proof
  fix r assume r: "reader_ok r"
  show "safe (bindR m f r)"
    unfolding bindR_def
  proof (rule safe_bindE)
    show "safe (m r)" by (rule reading.reads [OF assms(1) r])
    fix y assume y: "m r = Inr y"
    then obtain x r' where "y = (x, r')" and "m r = Inr (x, r')" by (cases y) auto
    then show "safe (case y of (x, r') \<Rightarrow> f x r')"
      using assms(2) reading.reads [of "f x" r'] reading.advances [OF assms(1) r] r
        reader_after_ok by auto
  qed
  fix x r' assume "bindR m f r = Inr (x, r')"
  then obtain y s where "m r = Inr (y, s)" "f y s = Inr (x, r')"
    by (auto simp: bindR_eq_Inr)
  then show "reader_after r r'"
    using assms r reading.advances reader_after_ok reader_after_trans by metis
qed

lemma reading_bindR [readings]: "reading m \<Longrightarrow> (\<And>x. reading (f x)) \<Longrightarrow> reading (bindR m f)"
  by (rule reading_bindR_strong)

lemma reading_if [readings]: "(b \<Longrightarrow> reading m) \<Longrightarrow> (\<not> b \<Longrightarrow> reading m') \<Longrightarrow> reading (if b then m else m')"
  by simp

context reading
begin

lemma repeat: "reading (repeatR n item)"
  by (induction n) (auto intro!: readings reading_axioms)

end

lemma find_newline_Some:
  "find_newline s = Some n \<Longrightarrow> n < length s \<and> s ! n = CHR 0x0A \<and> CHR 0x0A \<notin> set (take n s)"
  by (induction s arbitrary: n) (auto split: if_splits)

lemma newline_ascii: "byte_of (CHR 0x0A) < 128"
  by (simp add: byte_of_def)

lemma reading_integer [readings]: "reading rd_integer"
proof
  fix r assume r: "reader_ok r"
  then show "safe (rd_integer r)"
    by (auto simp: rd_integer_def reader_ok_def Let_def intro!: safe_intros)
  fix x r' assume "rd_integer r = Inr (x, r')"
  then obtain n where n: "find_newline (drop (r_offset r) (r_text r)) = Some n"
    and r': "r' = r\<lparr>r_offset := r_offset r + n + 1\<rparr>"
    by (auto simp: rd_integer_def Let_def split: if_splits)
  then have at: "r_offset r + n < length (r_text r)" "r_text r ! (r_offset r + n) = CHR 0x0A"
    using find_newline_Some [OF n] reader_ok_offset [OF r] by auto
  then have "is_char_boundary (r_text r) (Suc (r_offset r + n))"
    using ascii_closed_nth [of "r_text r" "r_offset r + n"] r newline_ascii
    by (auto simp: reader_ok_def is_char_boundary_def)
  with r show "reader_after r r'"
    by (simp add: reader_after_def reader_ok_def r')
qed

lemma safe_index [simp]: "safe (index v)"
  by (simp add: index_def)

lemma safe_optional [simp]: "safe (optional v)"
  by (simp add: optional_def)

lemma safe_at [simp]: "safe (at xs i)"
  by (simp add: at_def)

lemma reading_index [readings]: "reading rd_index"
  by (auto simp: rd_index_def intro!: readings)

lemma reading_optional [readings]: "reading rd_optional"
  by (auto simp: rd_optional_def intro!: readings)

lemma reading_falls [readings]: "reading rd_falls"
  by (auto simp: rd_falls_def intro!: readings)

lemma reading_span [readings]: "reading rd_span"
  by (auto simp: rd_span_def intro!: readings)

lemma reading_tail:
  assumes "\<And>r. reader_ok r \<Longrightarrow> safe (f r)"
    and "\<And>x r r'. reader_ok r \<Longrightarrow> f r = Inr (x, r') \<Longrightarrow> reader_after r r'"
  shows "reading f"
  using assms by unfold_locales

lemma reading_string [readings]: "reading rd_string"
  unfolding rd_string_def
  by (intro reading_bindR reading_index reading_tail)
    (auto simp: Let_def reader_after_def reader_ok_def split: if_splits)

lemma reading_sequence [readings]:
  assumes "reading item"
  shows "reading (rd_sequence item)"
proof -
  have "reading (\<lambda>r. if length (r_text r) < r_offset r then Inl Panicked
      else if length (r_text r) - r_offset r < count
      then Inl (Rejected ''truncated checked-IR sequence'') else repeatR count item r)" for count
    by (rule reading_tail)
      (use reading.repeat [OF assms] reading.reads reading.advances reader_ok_offset in
        \<open>fastforce split: if_splits\<close>)+
  then show ?thesis
    unfolding rd_sequence_def by (intro readings)
qed

interpretation integers: reading rd_integer by (rule reading_integer)

interpretation strings: reading rd_string by (rule reading_string)

section \<open>The wire forms\<close>

lemma reading_arm [readings]: "reading item \<Longrightarrow> reading (rd_arm item)"
  by (auto simp: rd_arm_def intro!: readings)

lemma reading_expr [readings]: "reading (rd_expr levels)"
  by (induction levels) (auto intro!: readings)

lemma reading_expression [readings]: "reading (rd_expression depth)"
  by (simp add: rd_expression_def reading_expr)

lemma reading_data [readings]: "reading rd_data"
  unfolding rd_data_def by (intro readings)

lemma reading_function [readings]: "reading rd_function"
  unfolding rd_function_def by (intro readings)

lemma reading_tables [readings]: "reading rd_tables"
  unfolding rd_tables_def by (intro readings)

lemma safe_check_target [simp]: "safe (check_target input names)"
  by (simp add: check_target_def)

lemma safe_add_site [simp]: "safe (add_site function file site found)"
  by (auto simp: add_site_def split: prod.splits)

lemma safe_foldE_total: "(\<And>x s. x \<in> set xs \<Longrightarrow> safe (f x s)) \<Longrightarrow> safe (foldE f xs s)"
  by (rule safe_foldE [where P = "\<lambda>_. True"]) auto

lemma safe_add_sites [simp]: "safe (add_sites w files entry state)"
  by (auto simp: add_sites_def intro!: safe_intros safe_foldE_total split: prod.splits)

lemma reading_section [readings]: "reading (rd_section tag w)"
  unfolding rd_section_def rd_signature_def rd_witness_def rd_pair_def rd_sites_def
  by (intro readings safe_foldE_total) auto

lemma reading_feature:
  "length (wr_features w) = 4 \<Longrightarrow> reading (rd_feature w)"
  unfolding rd_feature_def
  by (rule reading_bindR [OF reading_index], rule reading_bindR_strong [OF reading_liftR])
    (auto simp: liftR_eq_Inr intro!: readings)

lemma rd_feature_features:
  "rd_feature w r = Inr (w', r') \<Longrightarrow> length (wr_features w') = length (wr_features w)"
  by (auto simp: rd_feature_def reading_simps dest!: rd_section_features)

text \<open>The loop over the optional sections stops exactly at the end of the text.\<close>

lemma rd_features_reads:
  "length (wr_features w) = 4 \<Longrightarrow> reader_ok r \<Longrightarrow>
     safe (rd_features w r) \<and>
     (\<forall>w' r'. rd_features w r = Inr (w', r') \<longrightarrow>
        reader_after r r' \<and> r_offset r' = length (r_text r'))"
proof (induction w r rule: rd_features.induct)
  case (1 w r)
  show ?case
  proof (cases "r_offset r = length (r_text r)")
    case True
    with 1 show ?thesis
      by (simp add: rd_features.simps [of w r] reader_after_refl)
  next
    case False
    have feature: "reading (rd_feature w)"
      by (rule reading_feature [OF 1(2)])
    show ?thesis
    proof (cases "rd_feature w r")
      case (Inl e)
      with False reading.reads [OF feature 1(3)] show ?thesis
        by (simp add: rd_features.simps [of w r] safe_def)
    next
      case (Inr y)
      then obtain v s where y: "rd_feature w r = Inr (v, s)" by (cases y) auto
      then have "reader_after r s" and "length (wr_features v) = 4"
        using reading.advances [OF feature 1(3)] rd_feature_features 1(2) by auto
      moreover from this have "reader_ok s"
        by (simp add: reader_after_def)
      ultimately show ?thesis
        using 1(1) [OF False y refl] False y reader_after_trans
        by (simp add: rd_features.simps [of w r])
    qed
  qed
qed

lemma rd_tables_features:
  "rd_tables r = Inr (w, r') \<Longrightarrow> wr_features w = replicate 4 False"
  by (auto simp: rd_tables_def reading_simps)

lemma reading_wire: "reading rd_wire"
  unfolding rd_wire_def
proof (rule reading_bindR_strong [OF reading_tables])
  fix w :: wire and r r'
  assume "rd_tables r = Inr (w, r')"
  then have "length (wr_features w) = 4"
    by (simp add: rd_tables_features)
  then show "reading (rd_features w)"
    using rd_features_reads by (intro reading_tail) blast+
qed

lemma rd_wire_end:
  assumes "rd_wire r = Inr (w, r')" and "reader_ok r"
  shows "r_text r' = r_text r" and "r_offset r' = length (r_text r)"
proof -
  obtain v s where v: "rd_tables r = Inr (v, s)" and "rd_features v s = Inr (w, r')"
    using assms by (auto simp: rd_wire_def reading_simps)
  moreover have "reader_after r s"
    using reading.advances [OF reading_tables assms(2) v] .
  ultimately show "r_text r' = r_text r" "r_offset r' = length (r_text r)"
    using rd_features_reads [of v s] by (auto simp: reader_after_def rd_tables_features)
qed

lemma strip_prefix_ascii_closed:
  "strip_prefix prefix s = Some body \<Longrightarrow> ascii_closed s \<Longrightarrow> ascii_closed body"
proof -
  have "ascii_closed s \<Longrightarrow> ascii_closed (drop n s)" for n
    by (induction n arbitrary: s) (auto simp: drop_Suc_Cons ascii_closed_Cons neq_Nil_conv drop_Suc tl_def split: list.splits)
  then show "strip_prefix prefix s = Some body \<Longrightarrow> ascii_closed s \<Longrightarrow> ascii_closed body"
    by (auto simp: strip_prefix_def split: if_splits)
qed

lemma decode_reader_ok:
  "valid_utf8 input \<Longrightarrow> strip_prefix header input = Some body
    \<Longrightarrow> reader_ok \<lparr>r_text = body, r_offset = 0\<rparr>"
  by (auto simp: reader_ok_def dest: strip_prefix_ascii_closed valid_utf8_ascii_closed)

end
