(* ===== verification/Safety.thy ===== *)
theory Safety
  imports Reading
begin

text \<open>
  Panic freedom of the conversion: with every type reference of the program's tables in range, no
  index the converter writes as \<open>table[id]\<close>, no slice and no recursive call leaves its bounds.
\<close>

section \<open>Closed programs\<close>

definition closed_signature :: "program \<Rightarrow> signature \<Rightarrow> bool" where
  "closed_signature p sig \<longleftrightarrow>
     (\<forall>t \<in> set (sig_params sig). ty_in_range p t) \<and> ty_in_range p (sig_result sig)"

definition closed_program :: "program \<Rightarrow> bool" where
  "closed_program p \<longleftrightarrow>
     types_closed p \<and> (\<forall>t \<in> set (p_lists p). ty_in_range p t) \<and>
     (\<forall>sig \<in> set (p_function_types p). closed_signature p sig)"

definition converter_ok :: "converter \<Rightarrow> bool" where
  "converter_ok c \<longleftrightarrow>
     closed_program (cv_program c) \<and> (\<forall>t \<in> set (cv_types c). ty_in_range (cv_program c) t)"

text \<open>A converted expression whose type is in range.\<close>

definition typed :: "converter \<Rightarrow> expr result \<Rightarrow> bool" where
  "typed c m \<longleftrightarrow> safe m \<and> (\<forall>e. m = Inr e \<longrightarrow> ty_in_range (cv_program c) (e_ty e))"

lemma typed_safe [simp]: "typed c m \<Longrightarrow> safe m"
  by (simp add: typed_def)

lemma typed_range: "typed c m \<Longrightarrow> m = Inr e \<Longrightarrow> ty_in_range (cv_program c) (e_ty e)"
  by (simp add: typed_def)

section \<open>Lookups\<close>

lemma safe_anyE_Cons [simp]:
  "safe (anyE (c # cs)) \<longleftrightarrow> safe c \<and> (c = Inr False \<longrightarrow> safe (anyE cs))"
  by (cases c) (auto simp: safe_def)

lemma safe_bindE_iff [simp]: "safe (bindE m f) \<longleftrightarrow> safe m \<and> (\<forall>x. m = Inr x \<longrightarrow> safe (f x))"
  by (cases m) (auto simp: safe_def)

lemma safe_cv [simp]: "safe (cv_ty c i)" "safe (cv_local c v)" "safe (cv_child node i k)"
  by (auto simp: cv_ty_def cv_local_def cv_child_def)

lemma at_eq_Inr [simp]: "at xs i = Inr x \<longleftrightarrow> i < length xs \<and> xs ! i = x"
  by (simp add: at_def)

lemma cv_ty_range: "converter_ok c \<Longrightarrow> cv_ty c i = Inr t \<Longrightarrow> ty_in_range (cv_program c) t"
  by (auto simp: converter_ok_def cv_ty_def)

lemma data_kind_at_eq_Inr:
  "data_kind_at c t m = Inr k \<longleftrightarrow>
     (\<exists>i. t = TData i \<and> i < length (p_types (cv_program c)) \<and> k = data_kind_of (p_types (cv_program c) ! i))"
  by (auto simp: data_kind_at_def split: ty.splits)

lemma data_kind_at_safe [simp]: "ty_in_range (cv_program c) t \<Longrightarrow> safe (data_kind_at c t m)"
  by (auto simp: data_kind_at_def split: ty.splits)

lemma data_kind_at_refs:
  "converter_ok c \<Longrightarrow> data_kind_at c t m = Inr k \<Longrightarrow> t' \<in> set (kind_refs k)
    \<Longrightarrow> ty_in_range (cv_program c) t'"
  by (auto simp: converter_ok_def closed_program_def types_closed_def data_kind_at_eq_Inr)

lemma cv_record_safe [simp]: "ty_in_range (cv_program c) t \<Longrightarrow> safe (cv_record c t)"
  by (auto simp: cv_record_def Let_def split: data_kind.splits)

lemma cv_frame_safe [simp]: "ty_in_range (cv_program c) t \<Longrightarrow> safe (cv_frame c t)"
  by (auto simp: cv_frame_def Let_def split: data_kind.splits)

lemma coroutine_frame_safe [simp]: "ty_in_range (cv_program c) t \<Longrightarrow> safe (coroutine_frame c t)"
  by (auto simp: coroutine_frame_def ne_def)

lemma task_result_safe [simp]: "ty_in_range (cv_program c) t \<Longrightarrow> safe (task_result c t)"
  by (auto simp: task_result_def Let_def split: data_kind.splits)

lemma task_result_eq_Inr:
  "task_result c t = Inr t' \<longleftrightarrow>
     data_kind_at c t ''checked task operation requires a Task type'' = Inr (KTask t')"
proof (cases "data_kind_at c t ''checked task operation requires a Task type''")
  case (Inr kind)
  then show ?thesis by (cases kind) (auto simp: task_result_def Let_def)
qed (simp add: task_result_def Let_def)

lemma task_result_range:
  "converter_ok c \<Longrightarrow> task_result c t = Inr t' \<Longrightarrow> ty_in_range (cv_program c) t'"
  using data_kind_at_refs [of c t _ "KTask t'" t'] by (auto simp: task_result_eq_Inr kind_refs_def)

lemma cv_variant_safe [simp]: "ty_in_range (cv_program c) t \<Longrightarrow> safe (cv_variant c t v)"
  by (auto simp: cv_variant_def Let_def split: data_kind.splits)

lemma arg_ty_safe [simp]: "safe (arg_ty arguments i) \<longleftrightarrow> i < length arguments"
  by (simp add: arg_ty_def)

lemma arg_ty_eq_Inr [simp]: "arg_ty arguments i = Inr t \<longleftrightarrow> i < length arguments \<and> t = e_ty (arguments ! i)"
  by (auto simp: arg_ty_def)

lemma ne_safe [simp]: "safe (ne m t) = safe m"
  by (simp add: ne_def)

lemma arg_ne_safe [simp]: "safe (arg_ne arguments i t) \<longleftrightarrow> i < length arguments"
  by (simp add: arg_ne_def)

lemma list_of_safe [simp]: "ty_in_range (cv_program c) t \<Longrightarrow> safe (list_of c element t)"
  by (auto simp: list_of_def split: ty.splits)

lemma signature_of_safe [simp]: "ty_in_range (cv_program c) t \<Longrightarrow> safe (signature_of c t m)"
  by (auto simp: signature_of_def split: ty.splits)

lemma signature_of_closed:
  "converter_ok c \<Longrightarrow> signature_of c t m = Inr sig \<Longrightarrow> closed_signature (cv_program c) sig"
  by (auto simp: signature_of_def converter_ok_def closed_program_def split: ty.splits)

definition arguments_ok :: "converter \<Rightarrow> expr list \<Rightarrow> bool" where
  "arguments_ok c arguments \<longleftrightarrow> (\<forall>e \<in> set arguments. ty_in_range (cv_program c) (e_ty e))"

lemma arguments_ok_nth [simp]:
  "arguments_ok c arguments \<Longrightarrow> i < length arguments \<Longrightarrow> ty_in_range (cv_program c) (e_ty (arguments ! i))"
  by (simp add: arguments_ok_def)

lemma arg_not_list_of_safe [simp]:
  "arguments_ok c arguments \<Longrightarrow> i < length arguments \<Longrightarrow> safe (arg_not_list_of c arguments i element)"
  by (auto simp: arg_not_list_of_def)

section \<open>Scheduling primitives\<close>

lemma check_observation_safe:
  "arguments_ok c arguments \<Longrightarrow> length arguments = task_arity op
    \<Longrightarrow> safe (check_observation c op arguments result)"
  by (auto simp: check_observation_def Let_def)

lemma check_native_wait_safe:
  "arguments_ok c arguments \<Longrightarrow> length arguments = task_arity op
    \<Longrightarrow> safe (check_native_wait c op arguments result)"
  by (auto simp: check_native_wait_def Let_def)

lemma check_worker_safe:
  "arguments_ok c arguments \<Longrightarrow> length arguments = task_arity op
    \<Longrightarrow> safe (check_worker c op arguments result)"
  by (auto simp: check_worker_def Let_def split: data_kind.splits)

lemma check_task_lifecycle_safe:
  assumes "converter_ok c" and "ty_in_range (cv_program c) result" and "arguments_ok c arguments"
    and "length arguments = task_arity op"
  shows "safe (check_task_lifecycle c op arguments result)"
  using assms
  by (auto simp: check_task_lifecycle_def coroutine_frame_def closed_signature_def
      dest!: signature_of_closed [OF assms(1)])

lemma check_task_outcome_safe:
  "converter_ok c \<Longrightarrow> arguments_ok c arguments \<Longrightarrow> length arguments = task_arity op
    \<Longrightarrow> safe (check_task_outcome c op arguments result)"
  by (auto simp: check_task_outcome_def Let_def dest: task_result_range split: ty.splits)

lemma task_operation_safe:
  assumes "converter_ok c" and "ty_in_range (cv_program c) result" and "arguments_ok c arguments"
    and "length arguments = primitive_arity operation"
  shows "safe (task_operation c operation arguments result)"
  using assms
  by (auto simp: task_operation_def check_observation_safe check_native_wait_safe check_worker_safe
      check_task_lifecycle_safe check_task_outcome_safe primitive_arity_def split: primitive.splits)

section \<open>Expressions\<close>

text \<open>The recursive calls of a step are typed on the nodes below it.\<close>

definition calls_typed :: "converter \<Rightarrow> (wexpr \<Rightarrow> expr result) \<Rightarrow> wexpr \<Rightarrow> bool" where
  "calls_typed c ex node \<longleftrightarrow> (\<forall>n \<in> subnodes node. typed c (ex n))"

lemma calls_typed_child:
  "calls_typed c ex node \<Longrightarrow> cv_child node i k = Inr n \<Longrightarrow> typed c (ex n)"
  by (auto simp: calls_typed_def dest: cv_child_subnode)

lemma calls_typed_in:
  "calls_typed c ex node \<Longrightarrow> n \<in> set (w_children node) \<Longrightarrow> typed c (ex n)"
  by (auto simp: calls_typed_def dest: child_subnode)

lemma calls_typed_child_range:
  "calls_typed c ex node \<Longrightarrow> cv_child node i k = Inr n \<Longrightarrow> ex n = Inr e \<Longrightarrow> ty_in_range (cv_program c) (e_ty e)"
  using typed_range calls_typed_child by blast

lemma calls_typed_nth_range:
  "calls_typed c ex node \<Longrightarrow> i < length (w_children node) \<Longrightarrow> ex (w_children node ! i) = Inr e
    \<Longrightarrow> ty_in_range (cv_program c) (e_ty e)"
  using calls_typed_in [THEN typed_range] nth_mem by blast

lemmas call_safe = calls_typed_child [THEN typed_safe] calls_typed_in [THEN typed_safe]

lemma calls_typed_list:
  assumes "calls_typed c ex node" and "set ns \<subseteq> set (w_children node)"
  shows "safe (traverse ex ns)" and "traverse ex ns = Inr es \<Longrightarrow> arguments_ok c es"
  using assms calls_typed_in [OF assms(1)]
  by (auto intro!: safe_traverse simp: arguments_ok_def subset_iff typed_def dest!: traverse_set)

lemma hex_bytes_safe: "safe (hex_bytes s)"
  by (induction s rule: hex_bytes.induct) (auto simp: nibble_def)

lemma convert_literal_safe [simp]: "safe (convert_literal node t)"
  by (auto simp: convert_literal_def hex_bytes_safe)

lemma unary_operation_safe [simp]: "safe (unary_operation s)"
  by (simp add: unary_operation_def)

lemma binary_safe [simp]: "safe (binary s)"
  by (auto simp: binary_def split: option.splits)

lemma primitive_safe [simp]: "safe (primitive s)"
  by (auto simp: primitive_def split: option.splits)

lemma convert_unary_safe: "calls_typed c ex node \<Longrightarrow> safe (convert_unary ex node t)"
  by (auto simp: convert_unary_def intro: call_safe)

lemma convert_binary_safe: "calls_typed c ex node \<Longrightarrow> safe (convert_binary ex node t)"
  by (auto simp: convert_binary_def intro: call_safe)

lemma convert_call_safe: "calls_typed c ex node \<Longrightarrow> safe (convert_call c ex node)"
  by (auto simp: convert_call_def intro!: safe_traverse intro: call_safe)

lemma convert_cell_get_safe: "calls_typed c ex node \<Longrightarrow> safe (convert_cell_get c ex node t)"
  by (auto simp: convert_cell_get_def intro: call_safe calls_typed_child_range
      intro!: cv_frame_safe)

lemma cleanup_each_safe:
  "converter_ok c \<Longrightarrow> arguments_ok c arguments \<Longrightarrow> length arguments = primitive_arity operation
    \<Longrightarrow> safe (check_cleanup_each c operation arguments t)"
  by (auto simp: check_cleanup_each_def Let_def primitive_arity_def
      split: expr_kind.splits)

lemma check_container_safe:
  "converter_ok c \<Longrightarrow> arguments_ok c arguments \<Longrightarrow> length arguments = primitive_arity operation
    \<Longrightarrow> safe (check_container c operation arguments t)"
  by (auto simp: check_container_def Let_def primitive_arity_def)

lemma check_process_capture_safe:
  "arguments_ok c arguments \<Longrightarrow> length arguments = primitive_arity operation
    \<Longrightarrow> safe (check_process_capture c operation arguments t)"
  by (auto simp: check_process_capture_def Let_def primitive_arity_def)

lemma check_tls_safe:
  "arguments_ok c arguments \<Longrightarrow> length arguments = primitive_arity operation
    \<Longrightarrow> safe (check_tls c operation arguments t)"
  by (auto simp: check_tls_def primitive_arity_def)

lemma check_signature_safe [simp]: "safe (check_signature operation arguments t)"
  by (auto simp: check_signature_def split: option.splits)

lemma convert_primitive_safe:
  assumes "converter_ok c" and "calls_typed c ex node" and "ty_in_range (cv_program c) t"
  shows "safe (convert_primitive c ex node t)"
proof -
  have "safe (check_primitive c operation arguments t)"
    if "length (w_children node) = primitive_arity operation" and "traverse ex (w_children node) = Inr arguments"
    for operation arguments
    using that assms calls_typed_list(2) [OF assms(2) order_refl that(2)] traverse_length [OF that(2)]
    by (simp add: check_primitive_def task_operation_safe cleanup_each_safe check_container_safe
        check_process_capture_safe check_tls_safe)
  then show ?thesis
    using calls_typed_list(1) [OF assms(2) order_refl] by (auto simp: convert_primitive_def)
qed

text \<open>The pass over indexed field wrappers: the marks have one entry per field.\<close>

lemma wrapper_typed:
  "calls_typed c ex node \<Longrightarrow> field \<in> set (w_children node) \<Longrightarrow> cv_child field i k = Inr n \<Longrightarrow> typed c (ex n)"
  by (auto simp: calls_typed_def dest: wrapper_subnode)

lemma convert_record_safe:
  assumes "calls_typed c ex node" and "ty_in_range (cv_program c) t"
  shows "safe (convert_record c ex node t)"
proof -
  have "safe (foldE (convert_record_field fs ex) (w_children node) (replicate n False, []))"
    if "length fs = n" for fs n
    by (rule safe_foldE [where P = "\<lambda>s. length (fst s) = length fs"])
      (use that assms wrapper_typed [THEN typed_safe] in \<open>auto simp: convert_record_field_def\<close>)
  then show ?thesis
    using assms(2) by (auto simp: convert_record_def) metis
qed

lemma convert_frame_new_safe:
  assumes "calls_typed c ex node" and "ty_in_range (cv_program c) t"
  shows "safe (convert_frame_new c ex node t)"
proof -
  have "safe (foldE (convert_frame_field fs ex) (w_children node) (replicate n False, []))"
    if "length fs = n" for fs n
    by (rule safe_foldE [where P = "\<lambda>s. length (fst s) = length fs"])
      (use that assms wrapper_typed [THEN typed_safe] in \<open>auto simp: convert_frame_field_def\<close>)
  then show ?thesis
    using assms(2) by (auto simp: convert_frame_new_def)
qed

lemma convert_list_safe:
  assumes "calls_typed c ex node" and "ty_in_range (cv_program c) t"
  shows "safe (convert_list c ex node t)"
  using assms calls_typed_list(1) [OF assms(1) order_refl]
  by (auto simp: convert_list_def split: ty.splits)

lemma convert_frame_store_safe:
  "calls_typed c ex node \<Longrightarrow> safe (convert_frame_store c ex node t)"
  by (auto simp: convert_frame_store_def Let_def intro: call_safe calls_typed_child_range
      intro!: cv_frame_safe)

lemma or_else_safe [simp]: "safe m \<Longrightarrow> safe m' \<Longrightarrow> safe (or_else m m')"
  by (auto simp: or_else_def safe_def split: sum.splits failure.splits)

lemma convert_field_safe: "calls_typed c ex node \<Longrightarrow> safe (convert_field c ex node t)"
  by (auto simp: convert_field_def intro: call_safe calls_typed_child_range
      intro!: cv_frame_safe cv_record_safe or_else_safe)

lemma convert_variant_safe:
  assumes "calls_typed c ex node" and "ty_in_range (cv_program c) t"
  shows "safe (convert_variant c ex node t)"
  using assms calls_typed_list(1) [OF assms(1) order_refl] by (auto simp: convert_variant_def)

text \<open>Block conversions do not panic on the nodes below.\<close>

definition blocks_safe :: "(wexpr \<Rightarrow> block result) \<Rightarrow> wexpr \<Rightarrow> bool" where
  "blocks_safe bl node \<longleftrightarrow> (\<forall>n \<in> subnodes node. safe (bl n))"

lemma blocks_safe_nth [simp]:
  "blocks_safe bl node \<Longrightarrow> i < length (w_children node) \<Longrightarrow> safe (bl (w_children node ! i))"
  by (simp add: blocks_safe_def child_subnode)

lemma blocks_safe_arm:
  "blocks_safe bl node \<Longrightarrow> arm \<in> set (w_arms node) \<Longrightarrow> i < length (wa_body arm)
    \<Longrightarrow> safe (bl (wa_body arm ! i))"
  by (simp add: blocks_safe_def arm_body_subnode)

lemma convert_if_safe:
  "calls_typed c ex node \<Longrightarrow> blocks_safe bl node \<Longrightarrow> safe (convert_if ex bl node)"
  by (auto simp: convert_if_def intro: call_safe split: option.splits)

lemma convert_arm_safe:
  "blocks_safe bl node \<Longrightarrow> arm \<in> set (w_arms node) \<Longrightarrow> ty_in_range (cv_program c) t
    \<Longrightarrow> safe (convert_arm c bl t arm)"
  by (auto simp: convert_arm_def intro!: safe_traverse intro: blocks_safe_arm split: option.splits)

lemma convert_match_safe:
  "calls_typed c ex node \<Longrightarrow> blocks_safe bl node \<Longrightarrow> safe (convert_match c ex bl node)"
  by (auto simp: convert_match_def intro: call_safe calls_typed_child_range convert_arm_safe
      intro!: safe_traverse)

lemma convert_dyn_box_safe: "calls_typed c ex node \<Longrightarrow> safe (convert_dyn_box c ex node t)"
  by (auto simp: convert_dyn_box_def intro: call_safe)

lemma safe_slice_from [simp]: "safe (slice_from xs i) \<longleftrightarrow> i \<le> length xs"
  by (simp add: slice_from_def)

lemma slice_from_eq_Inr [simp]: "slice_from xs i = Inr ys \<longleftrightarrow> i \<le> length xs \<and> ys = drop i xs"
  by (auto simp: slice_from_def)

lemma convert_dyn_call_safe:
  assumes "calls_typed c ex node"
  shows "safe (convert_dyn_call c ex node t)"
  using assms calls_typed_list(1) [OF assms set_drop_subset]
  by (auto simp: convert_dyn_call_def Suc_le_eq intro: call_safe nth_mem split: ty.splits)

lemma convert_function_ref_safe:
  "calls_typed c ex node \<Longrightarrow> safe (convert_function_ref c ex node t)"
  by (auto simp: convert_function_ref_def Let_def intro!: safe_traverse cv_frame_safe
      intro: call_safe calls_typed_nth_range split: option.splits ty.splits)

lemma convert_indirect_call_safe:
  assumes "calls_typed c ex node"
  shows "safe (convert_indirect_call c ex node t)"
  using assms calls_typed_list(1) [OF assms set_drop_subset]
  by (auto simp: convert_indirect_call_def Suc_le_eq intro: call_safe nth_mem split: ty.splits)

lemma convert_environment_safe:
  "calls_typed c ex node \<Longrightarrow> ty_in_range (cv_program c) t \<Longrightarrow> safe (convert_environment c ex node t)"
  by (auto simp: convert_environment_def Suc_le_eq intro!: safe_traverse intro: call_safe split: ty.splits)

section \<open>The recursion\<close>

lemma kind_step_safe:
  assumes "converter_ok c" and "calls_typed c ex node" and "blocks_safe bl node"
    and "w_tag node = 11 \<Longrightarrow> safe (bl node)" and "ty_in_range (cv_program c) t"
  shows "safe (kind_step c ex bl node t)"
  using assms unfolding kind_step_def
  by (auto simp: convert_unary_safe convert_binary_safe convert_call_safe convert_cell_get_safe
      convert_primitive_safe convert_record_safe convert_list_safe convert_frame_new_safe
      convert_frame_store_safe convert_field_safe convert_variant_safe convert_if_safe
      convert_match_safe convert_dyn_box_safe convert_dyn_call_safe convert_function_ref_safe
      convert_indirect_call_safe convert_environment_safe intro: call_safe)

lemma expr_step_typed:
  assumes "converter_ok c" and "calls_typed c ex node" and "blocks_safe bl node"
    and "w_tag node = 11 \<Longrightarrow> safe (bl node)"
  shows "typed c (expr_step c ex bl node)"
  using assms kind_step_safe [OF assms] cv_ty_range [OF assms(1)]
  by (auto simp: expr_step_def typed_def)

lemma convert_children_safe:
  "(\<And>n. n \<in> set children \<Longrightarrow> safe (ex n)) \<Longrightarrow> (\<And>n. n \<in> set children \<Longrightarrow> safe (st n))
    \<Longrightarrow> safe (convert_children ex st children)"
  by (induction children) auto

lemma block_step_safe:
  "(\<And>n. n \<in> set (w_children node) \<Longrightarrow> safe (ex n)) \<Longrightarrow> (\<And>n. n \<in> set (w_children node) \<Longrightarrow> safe (st n))
    \<Longrightarrow> safe (block_step ex st node)"
  by (auto simp: block_step_def intro: convert_children_safe)

lemma convert_store_safe: "calls_typed c ex node \<Longrightarrow> safe (convert_store c ex node)"
  by (auto simp: convert_store_def cv_local_def intro: call_safe)

lemma convert_loop_control_safe: "safe (convert_loop_control c node)"
  by (auto simp: convert_loop_control_def)

lemma convert_cleanup_safe:
  "(\<And>n. n \<in> subnodes node \<Longrightarrow> safe (bl 0 n)) \<Longrightarrow> safe (convert_cleanup c bl node)"
  by (auto simp: convert_cleanup_def dest: cv_child_subnode)

lemma statement_step_safe:
  assumes "calls_typed c ex node" and "safe (ex node)"
    and "\<And>d n. n \<in> subnodes node \<Longrightarrow> safe (bl d n)"
  shows "safe (statement_step c ex bl node)"
  using assms unfolding statement_step_def
  by (auto simp: convert_store_safe convert_loop_control_safe convert_cleanup_safe
      intro: call_safe split: option.splits dest: cv_child_subnode)

lemma conv_safe:
  "converter_ok c \<Longrightarrow> typed c (conv_expr c node)"
  "converter_ok c \<Longrightarrow> safe (conv_block c node)"
  "converter_ok c \<Longrightarrow> safe (conv_stmt c node)"
proof (induction c node and c node and c node rule: conv_expr_conv_block_conv_stmt.induct)
  case (1 c node)
  then show ?case
    unfolding conv_expr.simps [of c node]
    by (intro expr_step_typed) (auto simp: calls_typed_def blocks_safe_def)
next
  case (2 c node)
  then show ?case
    unfolding conv_block.simps [of c node]
    by (intro block_step_safe) (auto intro: typed_safe)
next
  case (3 c node)
  then have "converter_ok (c\<lparr>cv_loop_depth := d\<rparr>)" for d
    by (simp add: converter_ok_def)
  with 3 show ?case
    unfolding conv_stmt.simps [of c node] safe_mapE
    by (intro statement_step_safe) (auto simp: calls_typed_def intro: typed_safe)
qed

end
