(* ===== verification/Building.thy ===== *)
theory Building
  imports Safety
begin

text \<open>
  The construction of the type tables.  Every wire type gets a head; the tables grow with the
  heads, so that the references filled in afterwards stay in range.  From this the whole
  construction is free of panics, \<open>unreachable!()\<close> included.
\<close>

section \<open>Ranges depend on table sizes\<close>

lemma ty_in_range_cong:
  "length (p_lists p') = length (p_lists p) \<Longrightarrow> length (p_types p') = length (p_types p)
    \<Longrightarrow> length (p_function_types p') = length (p_function_types p)
    \<Longrightarrow> length (p_interfaces p') = length (p_interfaces p) \<Longrightarrow> ty_in_range p' t = ty_in_range p t"
  by (cases t) auto

lemma ty_in_range_functions [simp]: "ty_in_range (p\<lparr>p_functions := fs\<rparr>) t = ty_in_range p t"
  by (rule ty_in_range_cong) auto

lemma ty_in_range_witnesses [simp]: "ty_in_range (p\<lparr>p_witnesses := ws\<rparr>) t = ty_in_range p t"
  by (rule ty_in_range_cong) auto

lemma closed_program_functions [simp]: "closed_program (p\<lparr>p_functions := fs\<rparr>) = closed_program p"
  by (simp add: closed_program_def types_closed_def closed_signature_def)

section \<open>Type heads\<close>

lemma foldE_prefix_invariant:
  assumes "foldE f xs s = Inr t" and "I [] s"
    and "\<And>seen x s t. x \<in> set xs \<Longrightarrow> I seen s \<Longrightarrow> f x s = Inr t \<Longrightarrow> I (seen @ [x]) t"
  shows "I xs t"
proof -
  have "\<lbrakk>foldE f ys u = Inr t; I seen u; set ys \<subseteq> set xs\<rbrakk> \<Longrightarrow> I (seen @ ys) t" for ys seen u
  proof (induction ys arbitrary: seen u)
    case (Cons y ys)
    then obtain v where "f y u = Inr v" "foldE f ys v = Inr t" by auto
    with Cons.IH [of v "seen @ [y]"] Cons.prems assms(3) show ?case by auto
  qed simp
  from this [of xs s "[]"] assms show ?thesis by simp
qed

definition tagged :: "nat set" where
  "tagged = {7, 8, 9, 13, 14}"

text \<open>The head of a wire type refers to an entry of the table of its kind.\<close>

fun head_ok :: "wire \<Rightarrow> program \<Rightarrow> wdata \<Rightarrow> ty \<Rightarrow> bool" where
  "head_ok w p d (TList i) = (wd_tag d = 6 \<and> i < length (p_lists p))"
| "head_ok w p d (TFunction i) = (wd_tag d = 12 \<and> i < length (p_function_types p))"
| "head_ok w p d (TData i) = (wd_tag d \<in> tagged \<and> i < length (p_types p))"
| "head_ok w p d (TDyn i) = (i < length (wr_interfaces w))"
| "head_ok w p d _ = True"

lemma head_ok_mono:
  "head_ok w p d t \<Longrightarrow> length (p_lists p) \<le> length (p_lists p')
    \<Longrightarrow> length (p_types p) \<le> length (p_types p')
    \<Longrightarrow> length (p_function_types p) \<le> length (p_function_types p') \<Longrightarrow> head_ok w p' d t"
  by (cases t) auto

text \<open>The tables of a program under construction hold nothing but placeholders.\<close>

definition placeholders :: "program \<Rightarrow> bool" where
  "placeholders p \<longleftrightarrow>
     (\<forall>d \<in> set (p_types p). data_kind_of d = KRecord []) \<and> (\<forall>t \<in> set (p_lists p). t = TUnit) \<and>
     (\<forall>sig \<in> set (p_function_types p). sig_params sig = [] \<and> sig_result sig = TUnit)"

definition heads_ok :: "wire \<Rightarrow> wdata list \<Rightarrow> ty list \<times> program \<Rightarrow> bool" where
  "heads_ok w ds state \<longleftrightarrow>
     (case state of (types, p) \<Rightarrow> list_all2 (head_ok w p) ds types \<and> placeholders p)"

lemma type_head_ok:
  assumes "type_head w (i, d) state = Inr state'" and "heads_ok w ds state"
  shows "heads_ok w (ds @ [d]) state'"
proof -
  obtain types p where state: "state = (types, p)" by (cases state)
  have old: "list_all2 (head_ok w p) ds types" and "placeholders p"
    using assms(2) by (auto simp: heads_ok_def state)
  have mono: "list_all2 (head_ok w p') ds types"
    if "length (p_lists p) \<le> length (p_lists p')" "length (p_types p) \<le> length (p_types p')"
      "length (p_function_types p) \<le> length (p_function_types p')" for p'
    using old that head_ok_mono by (auto elim: list_all2_mono)
  show ?thesis
    using assms(1) \<open>placeholders p\<close>
    by (auto simp: type_head_def state heads_ok_def placeholders_def tagged_def Let_def
        intro!: list_all2_appendI mono split: if_splits)
qed

lemma type_heads_ok:
  assumes "foldE (type_head w) (enumerate 0 (wr_data w)) ([], empty_program w) = Inr (types, p)"
  shows "heads_ok w (wr_data w) (types, p)"
proof -
  have "heads_ok w (map snd (enumerate 0 (wr_data w))) (types, p)"
  proof (rule foldE_prefix_invariant [where I = "\<lambda>xs. heads_ok w (map snd xs)", OF assms])
    show "heads_ok w (map snd []) ([], empty_program w)"
      by (simp add: heads_ok_def placeholders_def empty_program_def)
    show "heads_ok w (map snd (seen @ [x])) t"
      if "heads_ok w (map snd seen) s" and "type_head w x s = Inr t" for seen x s t
      using type_head_ok [of w "fst x" "snd x"] that by simp
  qed
  then show ?thesis by simp
qed

lemma type_head_safe: "safe (type_head w entry state)"
  by (auto simp: type_head_def Let_def split: prod.splits)

section \<open>Interfaces and witnesses\<close>

lemma map_signature_safe [simp]: "safe (map_signature types sig)"
  by (auto simp: map_signature_def intro!: safe_traverse)

lemma traverse_at: "traverse (at types) is = Inr ts \<Longrightarrow> set ts \<subseteq> set types"
  by (metis at_eq_Inr nth_mem subsetI traverse_set)

lemma map_signature_closed:
  assumes "map_signature types sig = Inr sig'" and "\<forall>t \<in> set types. ty_in_range p t"
  shows "closed_signature p sig'"
  using assms by (auto simp: map_signature_def closed_signature_def dest: traverse_at [THEN subsetD])

lemma witness_method_safe [simp]: "safe (witness_method w types concrete entry)"
  by (auto simp: witness_method_def Suc_le_eq intro!: safe_traverse split: prod.splits option.splits)

lemma convert_witness_safe [simp]: "safe (convert_witness w types interfaces entry)"
  by (auto simp: convert_witness_def intro!: safe_traverse split: prod.splits)

section \<open>References\<close>

lemma map_fields_safe [simp]: "safe (map_fields types fs)"
  by (auto simp: map_fields_def intro!: safe_traverse)

lemma data_kind_for_safe: "wd_tag d \<in> tagged \<Longrightarrow> safe (data_kind_for types d)"
  by (auto simp: data_kind_for_def tagged_def intro!: safe_traverse)

lemma map_fields_types:
  assumes "map_fields types fs = Inr fs'" and "(name, t) \<in> set fs'"
  shows "t \<in> set types"
  using traverse_set [OF assms(1) [unfolded map_fields_def] assms(2)] by auto

lemma map_variants_types:
  assumes "traverse (\<lambda>(name, ts). mapE (Pair name) (traverse (at types) ts)) vs = Inr vs'"
  shows "set (concat (map snd vs')) \<subseteq> set types"
proof
  fix t assume "t \<in> set (concat (map snd vs'))"
  then obtain v' where v': "v' \<in> set vs'" "t \<in> set (snd v')" by auto
  then obtain ts where "traverse (at types) ts = Inr (snd v')"
    using traverse_set [OF assms v'(1)] by auto
  with v' show "t \<in> set types" by (auto dest: traverse_at)
qed

lemma data_kind_for_refs:
  assumes "data_kind_for types d = Inr kind"
  shows "set (kind_refs kind) \<subseteq> set types"
  using assms
  by (auto simp: data_kind_for_def kind_refs_def split: if_splits
      dest: map_variants_types [THEN subsetD]) (metis map_fields_types)+

definition ranges_in :: "program \<Rightarrow> ty list \<Rightarrow> bool" where
  "ranges_in p types \<longleftrightarrow> (\<forall>t \<in> set types. ty_in_range p t)"

lemma head_ok_range:
  "head_ok w p d t \<Longrightarrow> length (p_interfaces p) = length (wr_interfaces w) \<Longrightarrow> ty_in_range p t"
  by (cases t) auto

lemma heads_ok_ranges:
  assumes "list_all2 (head_ok w p) ds types" and "length (p_interfaces p) = length (wr_interfaces w)"
  shows "ranges_in p types"
  using assms head_ok_range by (fastforce simp: ranges_in_def list_all2_conv_all_nth in_set_conv_nth)

lemma closed_program_placeholders: "placeholders p \<Longrightarrow> closed_program p"
  by (auto simp: placeholders_def closed_program_def types_closed_def closed_signature_def
      kind_refs_def)

lemma set_update_cases: "x \<in> set (xs[i := y]) \<Longrightarrow> x = y \<or> x \<in> set xs"
  by (meson insertE set_update_subset_insert subsetD)

text \<open>Filling one type keeps the tables' sizes and their references in range.\<close>

definition same_sizes :: "program \<Rightarrow> program \<Rightarrow> bool" where
  "same_sizes p q \<longleftrightarrow>
     length (p_lists q) = length (p_lists p) \<and> length (p_types q) = length (p_types p) \<and>
     length (p_function_types q) = length (p_function_types p) \<and> p_interfaces q = p_interfaces p \<and>
     p_witnesses q = p_witnesses p \<and> p_functions q = p_functions p"

lemma same_sizes_range: "same_sizes p q \<Longrightarrow> ty_in_range q t = ty_in_range p t"
  by (rule ty_in_range_cong) (auto simp: same_sizes_def)

lemma same_sizes_head: "same_sizes p q \<Longrightarrow> head_ok w q d t = head_ok w p d t"
  by (cases t) (auto simp: same_sizes_def)

lemma same_sizes_trans: "same_sizes p q \<Longrightarrow> same_sizes q r \<Longrightarrow> same_sizes p r"
  by (simp add: same_sizes_def)

lemma fill_type_sizes: "fill_type types (d, t) p = Inr q \<Longrightarrow> same_sizes p q"
  by (auto simp: fill_type_def same_sizes_def split: ty.splits)

lemma fill_type_closed:
  assumes "fill_type types (d, t) p = Inr q" and "closed_program p" and "ranges_in p types"
  shows "closed_program q"
proof -
  note range = same_sizes_range [OF fill_type_sizes [OF assms(1)]]
  have types: "t \<in> set types \<Longrightarrow> ty_in_range p t" for t
    using assms(3) by (simp add: ranges_in_def)
  have closed: "types_closed p" "\<forall>t \<in> set (p_lists p). ty_in_range p t"
    "\<forall>sig \<in> set (p_function_types p). closed_signature p sig"
    using assms(2) by (auto simp: closed_program_def)
  have "closed_program q \<longleftrightarrow>
      (\<forall>d \<in> set (p_types q). \<forall>t \<in> set (kind_refs (data_kind_of d)). ty_in_range p t) \<and>
      (\<forall>t \<in> set (p_lists q). ty_in_range p t) \<and>
      (\<forall>sig \<in> set (p_function_types q). closed_signature p sig)"
    by (simp add: closed_program_def types_closed_def closed_signature_def range)
  moreover have "\<forall>t \<in> set (p_lists q). ty_in_range p t"
    using assms(1) closed(2) types
    by (auto simp: fill_type_def split: ty.splits dest!: set_update_cases)
  moreover have "\<forall>sig \<in> set (p_function_types q). closed_signature p sig"
    using assms(1) closed(3) types map_signature_closed [of types _ _ p]
    by (auto simp: fill_type_def split: ty.splits dest!: set_update_cases)
  moreover have "\<forall>d \<in> set (p_types q). \<forall>t \<in> set (kind_refs (data_kind_of d)). ty_in_range p t"
    using assms(1) closed(1) types data_kind_for_refs
    by (fastforce simp: fill_type_def types_closed_def split: ty.splits dest!: set_update_cases)
  ultimately show ?thesis by blast
qed

lemma fill_type_safe: "head_ok w p d t \<Longrightarrow> safe (fill_type types (d, t) p)"
  by (cases t) (auto simp: fill_type_def intro: data_kind_for_safe)

section \<open>The tables of a decoded program\<close>

lemma fill_types:
  assumes "list_all2 (head_ok w p) ds types" and "closed_program p" and "ranges_in p all"
  shows "safe (foldE (fill_type all) (zip ds types) p) \<and>
    (\<forall>q. foldE (fill_type all) (zip ds types) p = Inr q \<longrightarrow> same_sizes p q \<and> closed_program q)"
proof -
  have heads: "head_ok w p (fst x) (snd x)" if "x \<in> set (zip ds types)" for x
    using assms(1) that by (auto simp: list_all2_iff)
  have range: "ranges_in q all" if "same_sizes p q" for q
    using assms(3) same_sizes_range [OF that] by (simp add: ranges_in_def)
  let ?P = "\<lambda>q. same_sizes p q \<and> closed_program q"
  have start: "?P p"
    using assms(2) by (simp add: same_sizes_def)
  have step: "?P r" if "?P q" and "fill_type all x q = Inr r" for x q r
    using that fill_type_sizes [of all "fst x" "snd x" q r] fill_type_closed [of all "fst x" "snd x" q r]
      same_sizes_trans range by auto
  have "safe (fill_type all x q)" if "?P q" and "x \<in> set (zip ds types)" for x q
    using fill_type_safe [of w q "fst x" "snd x" all] heads [OF that(2)] that(1)
    by (simp add: same_sizes_head [of p q])
  then have "safe (foldE (fill_type all) (zip ds types) p)"
    by (intro safe_foldE [where P = ?P] start) (use step in blast)+
  moreover have "?P q" if "foldE (fill_type all) (zip ds types) p = Inr q" for q
    by (rule foldE_invariant [where P = ?P, OF that start]) (rule step)
  ultimately show ?thesis by blast
qed

lemma type_heads_constant:
  assumes "foldE (type_head w) xs (types, p) = Inr (types', p')"
  shows "p_interfaces p' = p_interfaces p \<and> p_functions p' = p_functions p"
proof -
  have "p_interfaces (snd (types', p')) = p_interfaces p \<and> p_functions (snd (types', p')) = p_functions p"
    by (rule foldE_invariant [OF assms])
      (auto simp: type_head_def Let_def split: if_splits)
  then show ?thesis by simp
qed

lemma build_types_ok:
  shows "safe (build_types w)"
    and "build_types w = Inr (types, p) \<Longrightarrow> closed_program p \<and> ranges_in p types \<and> p_functions p = []"
proof -
  let ?heads = "foldE (type_head w) (enumerate 0 (wr_data w)) ([], empty_program w)"
  have fill: "safe (foldE (fill_type types) (zip (wr_data w) types) p') \<and>
      (\<forall>q. foldE (fill_type types) (zip (wr_data w) types) p' = Inr q \<longrightarrow>
         closed_program q \<and> ranges_in q types \<and> p_functions q = [])"
    if heads: "?heads = Inr (types, p)"
      and interfaces: "traverse (traverse (map_signature types)) (wr_interfaces w) = Inr interfaces"
      and p': "p' = p\<lparr>p_interfaces := interfaces, p_witnesses := witnesses\<rparr>"
    for types p p' interfaces witnesses
  proof -
    have ok: "list_all2 (head_ok w p) (wr_data w) types" "placeholders p"
      using type_heads_ok [OF heads] by (auto simp: heads_ok_def)
    have "head_ok w p' d t = head_ok w p d t" for d t
      by (cases t) (auto simp: p')
    then have heads': "list_all2 (head_ok w p') (wr_data w) types"
      using ok(1) by (simp add: list_all2_conv_all_nth)
    have closed: "closed_program p'"
      using ok(2) by (intro closed_program_placeholders) (simp add: placeholders_def p')
    have ranges: "ranges_in p' types"
      using heads_ok_ranges [OF heads'] traverse_length [OF interfaces] by (simp add: p')
    have none: "p_functions p' = []"
      using type_heads_constant [OF heads] by (simp add: p' empty_program_def)
    have filled: "closed_program q \<and> ranges_in q types \<and> p_functions q = []"
      if "same_sizes p' q \<and> closed_program q" for q
      using that ranges same_sizes_range [of p' q] none by (simp add: ranges_in_def same_sizes_def)
    from fill_types [OF heads' closed ranges] filled show ?thesis by blast
  qed
  show "safe (build_types w)"
    using safe_foldE_total [of "enumerate 0 (wr_data w)" "type_head w" "([], empty_program w)"]
      type_head_safe fill [THEN conjunct1]
    by (auto simp: build_types_def intro!: safe_traverse)
  assume "build_types w = Inr (types, p)"
  then obtain p' interfaces witnesses where
    "?heads = Inr (types, p')"
    "traverse (traverse (map_signature types)) (wr_interfaces w) = Inr interfaces"
    "foldE (fill_type types) (zip (wr_data w) types)
       (p'\<lparr>p_interfaces := interfaces, p_witnesses := witnesses\<rparr>) = Inr p"
    by (auto simp: build_types_def)
  then show "closed_program p \<and> ranges_in p types \<and> p_functions p = []"
    using fill by blast
qed

lemma convert_function_safe:
  assumes "closed_program p" and "ranges_in p types"
  shows "safe (convert_function types functions (i, source) p)"
proof -
  have "converter_ok \<lparr>cv_program = p, cv_types = types, cv_functions = functions, cv_source = source,
      cv_loop_depth = 0\<rparr>"
    using assms by (simp add: converter_ok_def ranges_in_def)
  then show ?thesis
    using conv_safe(2) conv_safe(1) [THEN typed_safe] by (auto simp: convert_function_def Let_def intro!: safe_traverse)
qed

lemma convert_function_program:
  "convert_function types functions entry p = Inr q \<Longrightarrow> \<exists>f. q = p\<lparr>p_functions := p_functions p @ [f]\<rparr>"
  by (auto simp: convert_function_def Let_def split: prod.splits)

lemma build_safe: "safe (build w)"
proof -
  have converts: "safe (foldE (convert_function types ws) xs p)"
    if "closed_program p" and "ranges_in p types" for types ws xs p
  proof (rule safe_foldE [where P = "\<lambda>q. closed_program q \<and> ranges_in q types"])
    show "safe (convert_function types ws x q)" if "closed_program q \<and> ranges_in q types" for x q
      using convert_function_safe [of q types ws "fst x" "snd x"] that by simp
    show "closed_program r \<and> ranges_in r types"
      if "closed_program q \<and> ranges_in q types" and "convert_function types ws x q = Inr r" for x q r
      using convert_function_program [OF that(2)] that(1) by (auto simp: ranges_in_def)
  qed (use that in simp)
  show ?thesis
    using build_types_ok converts check_layouts_safe
    by (auto simp: build_def closed_program_def intro!: safe_traverse)
qed

lemma decode_safe: "valid_utf8 input \<Longrightarrow> safe (decode input)"
  using build_safe reading.reads [OF reading_wire decode_reader_ok]
  by (auto simp: decode_def split: prod.splits)

end
