(* ===== verification/WellFormed.thy ===== *)
theory WellFormed
  imports Operators
begin

text \<open>
  What the native backends rely on in a checked program: every reference is in range, every
  aggregate, call and store has the shape its types say, loop control stands inside a loop.  The
  predicates are over the checked IR alone; they do not mention the stream it was read from.
  Types the decoder does not compare (the value of a local read, the fields of a record literal,
  the arguments of a direct call) are only required to exist.
\<close>

section \<open>Scopes\<close>

text \<open>The tables an expression may refer to, and the local slots of its function.\<close>

record scope =
  sc_types :: "data list"
  sc_lists :: "ty list"
  sc_function_types :: "signature list"
  sc_interfaces :: "interface list"
  sc_witnesses :: "witness list"
  sc_functions :: "signature list"
  sc_locals :: "ty list"

definition scope_of :: "program \<Rightarrow> signature list \<Rightarrow> ty list \<Rightarrow> scope" where
  "scope_of p functions locals =
     \<lparr>sc_types = p_types p, sc_lists = p_lists p, sc_function_types = p_function_types p,
      sc_interfaces = p_interfaces p, sc_witnesses = p_witnesses p, sc_functions = functions,
      sc_locals = locals\<rparr>"

fun scoped_ty :: "scope \<Rightarrow> ty \<Rightarrow> bool" where
  "scoped_ty s (TList i) = (i < length (sc_lists s))"
| "scoped_ty s (TDyn i) = (i < length (sc_interfaces s))"
| "scoped_ty s (TFunction i) = (i < length (sc_function_types s))"
| "scoped_ty s (TData i) = (i < length (sc_types s))"
| "scoped_ty s _ = True"

definition sc_kind :: "scope \<Rightarrow> ty \<Rightarrow> data_kind option" where
  "sc_kind s t = (case t of TData i \<Rightarrow> map_option data_kind_of (get_nth (sc_types s) i) | _ \<Rightarrow> None)"

definition sc_record :: "scope \<Rightarrow> ty \<Rightarrow> (string \<times> ty) list option" where
  "sc_record s t = (case sc_kind s t of Some (KRecord fs) \<Rightarrow> Some fs | _ \<Rightarrow> None)"

definition sc_frame :: "scope \<Rightarrow> ty \<Rightarrow> (string \<times> ty) list option" where
  "sc_frame s t = (case sc_kind s t of Some (KFrame fs) \<Rightarrow> Some fs | _ \<Rightarrow> None)"

definition sc_payload :: "scope \<Rightarrow> ty \<Rightarrow> nat \<Rightarrow> ty list option" where
  "sc_payload s t i =
     (case sc_kind s t of Some (KEnum vs) \<Rightarrow> map_option snd (get_nth vs i) | _ \<Rightarrow> None)"

definition sc_signature :: "scope \<Rightarrow> ty \<Rightarrow> signature option" where
  "sc_signature s t = (case t of TFunction i \<Rightarrow> get_nth (sc_function_types s) i | _ \<Rightarrow> None)"

section \<open>Shapes\<close>

text \<open>The field \<open>i\<close> of a value of type \<open>t'\<close> has type \<open>t\<close>: a field of a record or frame, or the
  environment of a function value, whose code takes it as its first parameter.\<close>

definition field_ok :: "scope \<Rightarrow> ty \<Rightarrow> nat \<Rightarrow> ty \<Rightarrow> bool" where
  "field_ok s t' i t =
     (case sc_record s t' of
        Some fs \<Rightarrow> map_option snd (get_nth fs i) = Some t
      | None \<Rightarrow>
          (case sc_frame s t' of
             Some fs \<Rightarrow> map_option snd (get_nth fs i) = Some t
           | None \<Rightarrow>
               (case sc_signature s t' of
                  Some sig \<Rightarrow> i = 0 \<and> sc_frame s t \<noteq> None \<and>
                    \<lparr>sig_params = t # sig_params sig, sig_result = sig_result sig\<rparr> \<in> set (sc_functions s)
                | None \<Rightarrow> False)))"

text \<open>A frame initializer sets distinct fields of the frame to values of their types.\<close>

definition initializers_ok :: "(string \<times> ty) list \<Rightarrow> (nat \<times> expr) list \<Rightarrow> bool" where
  "initializers_ok fs values =
     (distinct (map fst values) \<and>
      list_all (\<lambda>(i, e). map_option snd (get_nth fs i) = Some (e_ty e)) values)"

text \<open>A record literal sets every field exactly once.\<close>

definition record_ok :: "(string \<times> ty) list \<Rightarrow> (nat \<times> expr) list \<Rightarrow> bool" where
  "record_ok fs values =
     (distinct (map fst values) \<and> list_all (\<lambda>(i, _). i < length fs) values \<and>
      length values = length fs)"

definition primitive_ok :: "scope \<Rightarrow> primitive \<Rightarrow> expr list \<Rightarrow> ty \<Rightarrow> bool" where
  "primitive_ok s operation arguments t =
     (length arguments = primitive_arity operation \<and>
      (case op_signature operation of
         Some (params, result) \<Rightarrow> map e_ty arguments = params \<and> t = result
       | None \<Rightarrow> True))"

definition bitwise :: "binary \<Rightarrow> bool" where
  "bitwise operation = (operation \<in> {BBitAnd, BBitOr, BBitXor, BShl, BShr})"

text \<open>The conditions of a node on its own type and on those of its operands.\<close>

definition kind_ok :: "scope \<Rightarrow> ty \<Rightarrow> expr_kind \<Rightarrow> bool" where
  "kind_ok s t kind =
     (case kind of
        EInt v \<Rightarrow> in_i64 v
      | EBytes _ \<Rightarrow> t = TBytes
      | EPrimitive operation arguments \<Rightarrow> primitive_ok s operation arguments t
      | ELocal i \<Rightarrow> i < length (sc_locals s)
      | EUnary operation e \<Rightarrow> operation = UBitNot \<longrightarrow> t = TInt \<and> e_ty e = TInt
      | EBinary operation a b \<Rightarrow> bitwise operation \<longrightarrow> t = TInt \<and> e_ty a = TInt \<and> e_ty b = TInt
      | ECall i es \<Rightarrow>
          i < length (sc_functions s) \<and> length es = length (sig_params (sc_functions s ! i))
      | EFunctionRef i \<Rightarrow> i < length (sc_functions s) \<and> sc_signature s t = Some (sc_functions s ! i)
      | EClosure i e \<Rightarrow>
          i < length (sc_functions s) \<and> sc_frame s (e_ty e) \<noteq> None \<and>
          (case sc_signature s t of
             Some sig \<Rightarrow> sc_functions s ! i =
               \<lparr>sig_params = e_ty e # sig_params sig, sig_result = sig_result sig\<rparr>
           | None \<Rightarrow> False)
      | EIndirectCall f es \<Rightarrow>
          sc_signature s (e_ty f) = Some \<lparr>sig_params = map e_ty es, sig_result = t\<rparr>
      | EDynBox w e \<Rightarrow>
          w < length (sc_witnesses s) \<and> t = TDyn (wit_interface (sc_witnesses s ! w)) \<and>
          e_ty e = wit_concrete (sc_witnesses s ! w)
      | EDynCall e slot es \<Rightarrow>
          (case e_ty e of
             TDyn i \<Rightarrow> i < length (sc_interfaces s) \<and>
               get_nth (sc_interfaces s ! i) slot = Some \<lparr>sig_params = map e_ty es, sig_result = t\<rparr>
           | _ \<Rightarrow> False)
      | ERecord values \<Rightarrow> (case sc_record s t of Some fs \<Rightarrow> record_ok fs values | None \<Rightarrow> False)
      | EFrameNew values \<Rightarrow> (case sc_frame s t of Some fs \<Rightarrow> initializers_ok fs values | None \<Rightarrow> False)
      | EFrameStore f i e \<Rightarrow>
          t = TUnit \<and>
          (case sc_frame s (e_ty f) of
             Some fs \<Rightarrow> map_option snd (get_nth fs i) = Some (e_ty e)
           | None \<Rightarrow> False)
      | EList es \<Rightarrow>
          (case t of
             TList i \<Rightarrow> i < length (sc_lists s) \<and> list_all (\<lambda>e. e_ty e = sc_lists s ! i) es
           | _ \<Rightarrow> False)
      | EField e i \<Rightarrow> field_ok s (e_ty e) i t
      | EVariant v es \<Rightarrow> map_option length (sc_payload s t v) = Some (length es)
      | _ \<Rightarrow> True)"

text \<open>A match arm binds one slot for each payload field of its variant.\<close>

definition arm_ok :: "scope \<Rightarrow> ty \<Rightarrow> match_arm \<Rightarrow> bool" where
  "arm_ok s t arm =
     ((case arm_variant arm of
         None \<Rightarrow> True
       | Some v \<Rightarrow> map_option length (sc_payload s t v) = Some (length (arm_bindings arm))) \<and>
      list_all (\<lambda>b. case b of None \<Rightarrow> True | Some i \<Rightarrow> i < length (sc_locals s))
        (arm_bindings arm @ [arm_whole arm]))"

definition store_ok :: "scope \<Rightarrow> nat \<Rightarrow> expr \<Rightarrow> bool" where
  "store_ok s i e = (get_nth (sc_locals s) i = Some (e_ty e))"

section \<open>Well-formed code\<close>

text \<open>\<open>inside\<close>: the code stands in the body of a loop of the same function, and of the same
  deferred block if it is in one.\<close>

fun wf_expr :: "scope \<Rightarrow> bool \<Rightarrow> expr \<Rightarrow> bool"
and wf_kind :: "scope \<Rightarrow> bool \<Rightarrow> expr_kind \<Rightarrow> bool"
and wf_arm :: "scope \<Rightarrow> bool \<Rightarrow> match_arm \<Rightarrow> bool"
and wf_block :: "scope \<Rightarrow> bool \<Rightarrow> block \<Rightarrow> bool"
and wf_stmt :: "scope \<Rightarrow> bool \<Rightarrow> stmt \<Rightarrow> bool"
and wf_stmt_kind :: "scope \<Rightarrow> bool \<Rightarrow> stmt_kind \<Rightarrow> bool" where
  "wf_expr s inside (Expr kind t _) = (scoped_ty s t \<and> kind_ok s t kind \<and> wf_kind s inside kind)"
| "wf_kind s inside (EPrimitive _ es) = (\<forall>e \<in> set es. wf_expr s inside e)"
| "wf_kind s inside (ECoerce e) = wf_expr s inside e"
| "wf_kind s inside (EUnary _ e) = wf_expr s inside e"
| "wf_kind s inside (EBinary _ a b) = (wf_expr s inside a \<and> wf_expr s inside b)"
| "wf_kind s inside (ECall _ es) = (\<forall>e \<in> set es. wf_expr s inside e)"
| "wf_kind s inside (EClosure _ e) = wf_expr s inside e"
| "wf_kind s inside (EIndirectCall f es) = (wf_expr s inside f \<and> (\<forall>e \<in> set es. wf_expr s inside e))"
| "wf_kind s inside (EDynBox _ e) = wf_expr s inside e"
| "wf_kind s inside (EDynCall f _ es) = (wf_expr s inside f \<and> (\<forall>e \<in> set es. wf_expr s inside e))"
| "wf_kind s inside (ERecord vs) = (\<forall>v \<in> set vs. wf_expr s inside (snd v))"
| "wf_kind s inside (EFrameNew vs) = (\<forall>v \<in> set vs. wf_expr s inside (snd v))"
| "wf_kind s inside (EFrameStore f _ e) = (wf_expr s inside f \<and> wf_expr s inside e)"
| "wf_kind s inside (EList es) = (\<forall>e \<in> set es. wf_expr s inside e)"
| "wf_kind s inside (EField e _) = wf_expr s inside e"
| "wf_kind s inside (EVariant _ es) = (\<forall>e \<in> set es. wf_expr s inside e)"
| "wf_kind s inside (EMatch e arms) =
     (wf_expr s inside e \<and> (\<forall>arm \<in> set arms. arm_ok s (e_ty e) arm \<and> wf_arm s inside arm))"
| "wf_kind s inside (EBlock b) = wf_block s inside b"
| "wf_kind s inside (EIf e b None) = (wf_expr s inside e \<and> wf_block s inside b)"
| "wf_kind s inside (EIf e b (Some b')) =
     (wf_expr s inside e \<and> wf_block s inside b \<and> wf_block s inside b')"
| "wf_kind s inside _ = True"
| "wf_arm s inside (MatchArm _ _ _ b) = wf_block s inside b"
| "wf_block s inside (Block ss None _) = (\<forall>st \<in> set ss. wf_stmt s inside st)"
| "wf_block s inside (Block ss (Some e) _) =
     ((\<forall>st \<in> set ss. wf_stmt s inside st) \<and> wf_expr s inside e)"
| "wf_stmt s inside (Stmt kind _) = wf_stmt_kind s inside kind"
| "wf_stmt_kind s inside (SLet i e) = (store_ok s i e \<and> wf_expr s inside e)"
| "wf_stmt_kind s inside (SAssign i e) = (store_ok s i e \<and> wf_expr s inside e)"
| "wf_stmt_kind s inside (SReturn None) = True"
| "wf_stmt_kind s inside (SReturn (Some e)) = wf_expr s inside e"
| "wf_stmt_kind s inside (SAssert e _) = wf_expr s inside e"
| "wf_stmt_kind s inside (SDiscard e) = wf_expr s inside e"
| "wf_stmt_kind s inside (SExpr e) = wf_expr s inside e"
| "wf_stmt_kind s inside (SWhile e b) = (wf_expr s inside e \<and> wf_block s True b)"
| "wf_stmt_kind s inside SBreak = inside"
| "wf_stmt_kind s inside SContinue = inside"
| "wf_stmt_kind s inside (SDefer _ b) = wf_block s False b"
| "wf_stmt_kind s inside (SCleanup _ b) = wf_block s False b"

section \<open>Well-formed programs\<close>

definition kind_types :: "data_kind \<Rightarrow> ty list" where
  "kind_types kind =
     (case kind of
        KTask t \<Rightarrow> [t] | KRefined t \<Rightarrow> [t]
      | KRecord fs \<Rightarrow> map snd fs | KFrame fs \<Rightarrow> map snd fs
      | KEnum variants \<Rightarrow> concat (map snd variants))"

definition wf_signature :: "program \<Rightarrow> signature \<Rightarrow> bool" where
  "wf_signature p sig \<longleftrightarrow> (\<forall>t \<in> set (sig_params sig). ty_in_range p t) \<and> ty_in_range p (sig_result sig)"

definition function_signatures :: "program \<Rightarrow> signature list" where
  "function_signatures p = map (\<lambda>f. \<lparr>sig_params = fn_params f, sig_result = fn_result f\<rparr>) (p_functions p)"

text \<open>A witness has one entry per method of its interface; a present entry is a function that
  takes the concrete value first.\<close>

definition wf_witness :: "program \<Rightarrow> witness \<Rightarrow> bool" where
  "wf_witness p w \<longleftrightarrow>
     wit_interface w < length (p_interfaces p) \<and> ty_in_range p (wit_concrete w) \<and>
     (case wit_concrete w of TParameter _ \<Rightarrow> False | TUnit \<Rightarrow> False | _ \<Rightarrow> True) \<and>
     list_all2 (\<lambda>target method. case target of None \<Rightarrow> True | Some i \<Rightarrow>
         get_nth (function_signatures p) i =
           Some \<lparr>sig_params = wit_concrete w # sig_params method, sig_result = sig_result method\<rparr>)
       (wit_methods w) (p_interfaces p ! wit_interface w)"

definition wf_function :: "program \<Rightarrow> func \<Rightarrow> bool" where
  "wf_function p f \<longleftrightarrow>
     (let s = scope_of p (function_signatures p) (fn_locals f) in
      (\<forall>t \<in> set (fn_result f # fn_locals f). ty_in_range p t) \<and>
      take (length (fn_params f)) (fn_locals f) = fn_params f \<and>
      (\<forall>e \<in> set (fn_requires f). e_ty e = TBool \<and> wf_expr s False e) \<and>
      wf_block s False (fn_body f))"

definition wf_program :: "program \<Rightarrow> bool" where
  "wf_program p \<longleftrightarrow>
     (\<forall>d \<in> set (p_types p). \<forall>t \<in> set (kind_types (data_kind_of d)). ty_in_range p t) \<and>
     (\<forall>t \<in> set (p_lists p). ty_in_range p t) \<and>
     (\<forall>sig \<in> set (p_function_types p). wf_signature p sig) \<and>
     (\<forall>methods \<in> set (p_interfaces p). \<forall>sig \<in> set methods. wf_signature p sig) \<and>
     (\<forall>w \<in> set (p_witnesses p). wf_witness p w) \<and>
     (\<forall>f \<in> set (p_functions p). wf_function p f) \<and>
     (\<forall>i \<in> set_option (p_entry p) \<union> set (p_tests p) \<union> set (p_exports p). i < length (p_functions p)) \<and>
     (p_test_names p = [] \<or> length (p_test_names p) = length (p_tests p))"

end
