(* ===== verification/Soundness.thy ===== *)
theory Soundness
  imports Building WellFormed
begin

text \<open>
  The converter produces well-formed code: every expression, block and statement it returns meets
  the predicates of the theory \<open>WellFormed\<close> in the scope of its function.
\<close>

lemma if_True_eq_False [simp]: "(if b then Inr True else m) = Inr False \<longleftrightarrow> \<not> b \<and> m = Inr False"
  by simp

lemma get_field [simp]: "map_option snd (get_nth fs i) = Some t \<longleftrightarrow> i < length fs \<and> snd (fs ! i) = t"
  by (cases "fs ! i") (auto simp: get_nth_def)

lemma function_case [simp]:
  "(case t of TFunction i \<Rightarrow> Inr i | _ \<Rightarrow> Inl e) = Inr i' \<longleftrightarrow> t = TFunction i'"
  by (cases t) auto

lemma dyn_case [simp]: "(case t of TDyn i \<Rightarrow> Inr i | _ \<Rightarrow> Inl e) = Inr i' \<longleftrightarrow> t = TDyn i'"
  by (cases t) auto

section \<open>The scope of a converter\<close>

definition signature_of_function :: "converter \<Rightarrow> wfunction \<Rightarrow> signature \<Rightarrow> bool" where
  "signature_of_function c f sig \<longleftrightarrow>
     traverse (cv_ty c) (wf_params f) = Inr (sig_params sig) \<and> cv_ty c (wf_result f) = Inr (sig_result sig)"

definition in_scope :: "converter \<Rightarrow> scope \<Rightarrow> bool" where
  "in_scope c s \<longleftrightarrow>
     sc_types s = p_types (cv_program c) \<and> sc_lists s = p_lists (cv_program c) \<and>
     sc_function_types s = p_function_types (cv_program c) \<and>
     sc_interfaces s = p_interfaces (cv_program c) \<and> sc_witnesses s = p_witnesses (cv_program c) \<and>
     list_all2 (signature_of_function c) (cv_functions c) (sc_functions s) \<and>
     traverse (cv_ty c) (wf_locals (cv_source c)) = Inr (sc_locals s) \<and>
     (\<forall>t \<in> set (cv_types c). scoped_ty s t)"

named_theorems scope_dest \<open>what a successful lookup says of the scope\<close>

lemma scope_kind: "in_scope c s \<Longrightarrow> data_kind_at c t m = Inr k \<Longrightarrow> sc_kind s t = Some k"
  by (auto simp: in_scope_def data_kind_at_def sc_kind_def get_nth_def split: ty.splits)

lemma cv_record_eq_Inr:
  "cv_record c t = Inr fs \<longleftrightarrow>
     data_kind_at c t ''checked field requires a record layout'' = Inr (KRecord fs)"
proof (cases "data_kind_at c t ''checked field requires a record layout''")
  case (Inr kind)
  then show ?thesis by (cases kind) (auto simp: cv_record_def Let_def)
qed (simp add: cv_record_def Let_def)

lemma cv_frame_eq_Inr:
  "cv_frame c t = Inr fs \<longleftrightarrow>
     data_kind_at c t ''checked frame operation requires a generated frame'' = Inr (KFrame fs)"
proof (cases "data_kind_at c t ''checked frame operation requires a generated frame''")
  case (Inr kind)
  then show ?thesis by (cases kind) (auto simp: cv_frame_def Let_def)
qed (simp add: cv_frame_def Let_def)

lemma cv_variant_eq_Inr:
  "cv_variant c t v = Inr ps \<longleftrightarrow>
     (\<exists>vs. data_kind_at c t ''checked variant requires an enum layout'' = Inr (KEnum vs) \<and>
        v < length vs \<and> ps = snd (vs ! v))"
proof (cases "data_kind_at c t ''checked variant requires an enum layout''")
  case (Inr kind)
  then show ?thesis by (cases kind) (auto simp: cv_variant_def Let_def)
qed (simp add: cv_variant_def Let_def)

lemma scope_record [scope_dest]: "in_scope c s \<Longrightarrow> cv_record c t = Inr fs \<Longrightarrow> sc_record s t = Some fs"
  by (auto simp: cv_record_eq_Inr sc_record_def dest: scope_kind)

lemma scope_frame [scope_dest]:
  "in_scope c s \<Longrightarrow> cv_frame c t = Inr fs \<Longrightarrow> sc_frame s t = Some fs \<and> sc_record s t = None"
  by (auto simp: cv_frame_eq_Inr sc_frame_def sc_record_def dest: scope_kind)

lemma scope_variant [scope_dest]:
  "in_scope c s \<Longrightarrow> cv_variant c t v = Inr ps \<Longrightarrow> sc_payload s t v = Some ps"
  by (auto simp: cv_variant_eq_Inr sc_payload_def get_nth_def dest!: scope_kind)

lemma scope_locals: "in_scope c s \<Longrightarrow> length (sc_locals s) = length (wf_locals (cv_source c))"
  by (auto simp: in_scope_def dest: traverse_length)

lemma scope_local [scope_dest]: "in_scope c s \<Longrightarrow> cv_local c v = Inr i \<Longrightarrow> i < length (sc_locals s)"
  by (auto simp: cv_local_def scope_locals)

lemma scope_local_ty:
  "in_scope c s \<Longrightarrow> i < length (sc_locals s) \<Longrightarrow> cv_ty c (wf_locals (cv_source c) ! i) = Inr t
    \<Longrightarrow> sc_locals s ! i = t"
  using traverse_nth [of "cv_ty c" "wf_locals (cv_source c)" "sc_locals s" i]
  by (auto simp: in_scope_def scope_locals dest: traverse_length)

lemma scope_ty: "in_scope c s \<Longrightarrow> cv_ty c i = Inr t \<Longrightarrow> scoped_ty s t"
  by (auto simp: in_scope_def cv_ty_def)

lemma scope_functions: "in_scope c s \<Longrightarrow> length (sc_functions s) = length (cv_functions c)"
  by (auto simp: in_scope_def dest: list_all2_lengthD)

lemma scope_function:
  assumes "in_scope c s" and "i < length (cv_functions c)"
  shows "traverse (cv_ty c) (wf_params (cv_functions c ! i)) = Inr (sig_params (sc_functions s ! i))"
    and "cv_ty c (wf_result (cv_functions c ! i)) = Inr (sig_result (sc_functions s ! i))"
    and "length (sig_params (sc_functions s ! i)) = length (wf_params (cv_functions c ! i))"
proof -
  show params: "traverse (cv_ty c) (wf_params (cv_functions c ! i)) = Inr (sig_params (sc_functions s ! i))"
    and "cv_ty c (wf_result (cv_functions c ! i)) = Inr (sig_result (sc_functions s ! i))"
    using assms by (auto simp: in_scope_def list_all2_conv_all_nth signature_of_function_def)
  show "length (sig_params (sc_functions s ! i)) = length (wf_params (cv_functions c ! i))"
    by (rule traverse_length [OF params])
qed

lemma scope_signature:
  assumes "in_scope c s" and "i < length (cv_functions c)"
    and "traverse (cv_ty c) (wf_params (cv_functions c ! i)) = Inr ps"
    and "cv_ty c (wf_result (cv_functions c ! i)) = Inr r"
  shows "sc_functions s ! i = \<lparr>sig_params = ps, sig_result = r\<rparr>"
  using scope_function [OF assms(1,2)] assms(3,4) by simp

lemma scope_tables [simp]:
  assumes "in_scope c s"
  shows "p_types (cv_program c) = sc_types s" "p_lists (cv_program c) = sc_lists s"
    "p_function_types (cv_program c) = sc_function_types s"
    "p_interfaces (cv_program c) = sc_interfaces s" "p_witnesses (cv_program c) = sc_witnesses s"
  using assms by (auto simp: in_scope_def)

section \<open>Nodes\<close>

definition calls_wf :: "scope \<Rightarrow> bool \<Rightarrow> (wexpr \<Rightarrow> expr result) \<Rightarrow> wexpr \<Rightarrow> bool" where
  "calls_wf s l ex node \<longleftrightarrow> (\<forall>n \<in> subnodes node. \<forall>e. ex n = Inr e \<longrightarrow> wf_expr s l e)"

definition node_ok :: "scope \<Rightarrow> bool \<Rightarrow> ty \<Rightarrow> expr_kind \<Rightarrow> bool" where
  "node_ok s l t kind \<longleftrightarrow> kind_ok s t kind \<and> wf_kind s l kind"

lemma calls_wf_child [simp]:
  "calls_wf s l ex node \<Longrightarrow> cv_child node i k = Inr n \<Longrightarrow> ex n = Inr e \<Longrightarrow> wf_expr s l e"
  by (auto simp: calls_wf_def dest: cv_child_subnode)

lemma calls_wf_in [simp]:
  "calls_wf s l ex node \<Longrightarrow> n \<in> set (w_children node) \<Longrightarrow> ex n = Inr e \<Longrightarrow> wf_expr s l e"
  by (auto simp: calls_wf_def dest: child_subnode)

lemma calls_wf_nth:
  "calls_wf s l ex node \<Longrightarrow> ex (w_children node ! i) = Inr e \<Longrightarrow> i < length (w_children node)
    \<Longrightarrow> wf_expr s l e"
  using calls_wf_in nth_mem by blast

lemma calls_wf_list:
  "calls_wf s l ex node \<Longrightarrow> traverse ex ns = Inr es \<Longrightarrow> set ns \<subseteq> set (w_children node)
    \<Longrightarrow> \<forall>e \<in> set es. wf_expr s l e"
  by (meson calls_wf_in subsetD traverse_set)

lemma convert_literal_wf:
  "convert_literal node t = Inr kind \<Longrightarrow> node_ok s l t kind"
  by (auto simp: convert_literal_def node_ok_def kind_ok_def dest: parse_i64_range split: if_splits)

lemma convert_unary_wf:
  "convert_unary ex node t = Inr kind \<Longrightarrow> calls_wf s l ex node \<Longrightarrow> node_ok s l t kind"
  by (auto simp: convert_unary_def node_ok_def kind_ok_def intro: calls_wf_child)

lemma convert_binary_wf:
  "convert_binary ex node t = Inr kind \<Longrightarrow> calls_wf s l ex node \<Longrightarrow> node_ok s l t kind"
  by (auto simp: convert_binary_def node_ok_def kind_ok_def bitwise_def intro: calls_wf_child)

lemma convert_call_wf:
  "convert_call c ex node = Inr kind \<Longrightarrow> calls_wf s l ex node \<Longrightarrow> in_scope c s \<Longrightarrow> node_ok s l t kind"
  using calls_wf_list
  by (auto simp: convert_call_def node_ok_def kind_ok_def scope_functions scope_function(3)
      dest: traverse_length)

lemma convert_cell_get_wf:
  assumes "convert_cell_get c ex node t = Inr kind" and "calls_wf s l ex node" and "in_scope c s"
  shows "node_ok s l t kind"
  using assms
  by (auto simp: convert_cell_get_def node_ok_def kind_ok_def field_ok_def ne_def
      dest!: scope_frame [OF assms(3)] intro: calls_wf_child)

lemma convert_primitive_wf:
  assumes "convert_primitive c ex node t = Inr kind" and "calls_wf s l ex node"
  shows "node_ok s l t kind"
proof -
  obtain operation arguments where
    kind: "kind = EPrimitive operation arguments" and
    arity: "length (w_children node) = primitive_arity operation" and
    arguments: "traverse ex (w_children node) = Inr arguments" and
    check: "check_signature operation arguments t = Inr ()"
    using assms(1) by (auto simp: convert_primitive_def check_primitive_def)
  then show ?thesis
    using traverse_length [OF arguments] calls_wf_list [OF assms(2) arguments]
    by (auto simp: node_ok_def kind_ok_def primitive_ok_def check_signature_def split: option.splits)
qed

text \<open>The pass over indexed wrappers: the marks are exactly the indices collected so far.\<close>

definition wrappers_ok :: "(string \<times> ty) list \<Rightarrow> bool list \<times> (nat \<times> expr) list \<Rightarrow> bool" where
  "wrappers_ok fs state \<longleftrightarrow>
     length (fst state) = length fs \<and> distinct (map fst (snd state)) \<and>
     (\<forall>i < length fs. fst state ! i \<longleftrightarrow> i \<in> fst ` set (snd state)) \<and>
     (\<forall>v \<in> set (snd state). fst v < length fs)"

lemma wrappers_ok_start: "length fs = n \<Longrightarrow> wrappers_ok fs (replicate n False, [])"
  by (simp add: wrappers_ok_def)

lemma wrappers_ok_step:
  "wrappers_ok fs (marks, values) \<Longrightarrow> i < length fs \<Longrightarrow> \<not> marks ! i
    \<Longrightarrow> wrappers_ok fs (marks[i := True], values @ [(i, e)])"
  by (auto simp: wrappers_ok_def nth_list_update)

lemma wrapper_wf:
  "calls_wf s l ex node \<Longrightarrow> field \<in> set (w_children node) \<Longrightarrow> cv_child field i k = Inr n
    \<Longrightarrow> ex n = Inr e \<Longrightarrow> wf_expr s l e"
  by (auto simp: calls_wf_def dest: wrapper_subnode)

lemma record_fields_wf:
  assumes "foldE (convert_record_field fs ex) (w_children node) (replicate n False, []) = Inr state"
    and "length fs = n" and "calls_wf s l ex node"
  shows "wrappers_ok fs state \<and> (\<forall>v \<in> set (snd state). wf_expr s l (snd v)) \<and>
    length (snd state) = length (w_children node)"
proof -
  let ?P = "\<lambda>u. wrappers_ok fs u \<and> (\<forall>v \<in> set (snd u). wf_expr s l (snd v))"
  have "?P state"
  proof (rule foldE_invariant [where P = ?P, OF assms(1)])
    fix x u v
    assume x: "x \<in> set (w_children node)" and u: "?P u" and v: "convert_record_field fs ex x u = Inr v"
    from v obtain i e where "v = ((fst u)[i := True], snd u @ [(i, e)])" "i < length fs"
      "\<not> fst u ! i" "wf_expr s l e"
      using wrapper_wf [OF assms(3) x] by (auto simp: convert_record_field_def)
    with u show "?P v"
      using wrappers_ok_step [of fs "fst u" "snd u" i e] by simp
  qed (use wrappers_ok_start [OF assms(2)] in simp)
  moreover have "length (snd state) = length (w_children node)"
    by (rule foldE_prefix_invariant [where I = "\<lambda>xs s. length (snd s) = length xs", OF assms(1)])
      (auto simp: convert_record_field_def)
  ultimately show ?thesis by simp
qed

lemma convert_record_wf:
  assumes "convert_record c ex node t = Inr kind" and "calls_wf s l ex node" and "in_scope c s"
  shows "node_ok s l t kind"
proof -
  obtain fs state where fs: "cv_record c t = Inr fs" "length fs = length (w_children node)"
    and state: "foldE (convert_record_field fs ex) (w_children node)
      (replicate (length (w_children node)) False, []) = Inr state" and kind: "kind = ERecord (snd state)"
    using assms(1) by (auto simp: convert_record_def)
  then show ?thesis
    using record_fields_wf [OF state fs(2) assms(2)] scope_record [OF assms(3) fs(1)]
    by (simp add: node_ok_def kind_ok_def record_ok_def wrappers_ok_def list_all_iff
        case_prod_unfold)
qed

lemma frame_fields_wf:
  assumes "foldE (convert_frame_field fs ex) (w_children node) (replicate n False, []) = Inr state"
    and "length fs = n" and "calls_wf s l ex node"
  shows "wrappers_ok fs state \<and>
    (\<forall>v \<in> set (snd state). wf_expr s l (snd v) \<and> snd (fs ! fst v) = e_ty (snd v))"
proof -
  let ?Q = "\<lambda>v. wf_expr s l (snd v) \<and> snd (fs ! fst v) = e_ty (snd v)"
  let ?P = "\<lambda>u. wrappers_ok fs u \<and> (\<forall>v \<in> set (snd u). ?Q v)"
  show ?thesis
  proof (rule foldE_invariant [where P = ?P, OF assms(1)])
    fix x u v
    assume x: "x \<in> set (w_children node)" and u: "?P u" and v: "convert_frame_field fs ex x u = Inr v"
    from v obtain i e where "v = ((fst u)[i := True], snd u @ [(i, e)])" "i < length fs"
      "\<not> fst u ! i" "wf_expr s l e" "snd (fs ! i) = e_ty e"
      using wrapper_wf [OF assms(3) x] by (auto simp: convert_frame_field_def)
    with u show "?P v"
      using wrappers_ok_step [of fs "fst u" "snd u" i e] by simp
  qed (use wrappers_ok_start [OF assms(2)] in simp)
qed

lemma convert_frame_new_wf:
  assumes "convert_frame_new c ex node t = Inr kind" and "calls_wf s l ex node" and "in_scope c s"
  shows "node_ok s l t kind"
proof -
  obtain fs state where fs: "cv_frame c t = Inr fs"
    and state: "foldE (convert_frame_field fs ex) (w_children node)
      (replicate (length fs) False, []) = Inr state" and kind: "kind = EFrameNew (snd state)"
    using assms(1) by (auto simp: convert_frame_new_def)
  then show ?thesis
    using frame_fields_wf [OF state refl assms(2)] scope_frame [OF assms(3) fs]
    by (simp add: node_ok_def kind_ok_def initializers_ok_def wrappers_ok_def list_all_iff
        case_prod_unfold)
qed

lemma convert_list_wf:
  "convert_list c ex node t = Inr kind \<Longrightarrow> calls_wf s l ex node \<Longrightarrow> in_scope c s \<Longrightarrow> node_ok s l t kind"
  using calls_wf_list
  by (auto simp: convert_list_def node_ok_def kind_ok_def list_all_iff list_ex_iff split: ty.splits)

lemma convert_frame_store_wf:
  assumes "convert_frame_store c ex node t = Inr kind" and "calls_wf s l ex node" and "in_scope c s"
  shows "node_ok s l t kind"
  using assms
  by (auto simp: convert_frame_store_def Let_def node_ok_def kind_ok_def
      dest!: scope_frame [OF assms(3)] intro: calls_wf_child split: if_splits)

lemma or_else_eq_Inr: "or_else m m' = Inr x \<longleftrightarrow> m = Inr x \<or> ((\<exists>e. m = Inl e \<and> e \<noteq> Panicked) \<and> m' = Inr x)"
  by (auto simp: or_else_def split: sum.splits failure.splits)

lemma convert_field_wf:
  assumes "convert_field c ex node t = Inr kind" and "calls_wf s l ex node" and "in_scope c s"
  shows "node_ok s l t kind"
  using assms
  by (auto simp: convert_field_def node_ok_def kind_ok_def field_ok_def or_else_eq_Inr
      dest!: scope_frame [OF assms(3)] scope_record [OF assms(3)] intro: calls_wf_child)

lemma convert_variant_wf:
  assumes "convert_variant c ex node t = Inr kind" and "calls_wf s l ex node" and "in_scope c s"
  shows "node_ok s l t kind"
  using assms calls_wf_list [OF assms(2)]
  by (auto simp: convert_variant_def node_ok_def kind_ok_def dest!: scope_variant [OF assms(3)]
      dest: traverse_length)

lemma convert_dyn_box_wf:
  "convert_dyn_box c ex node t = Inr kind \<Longrightarrow> calls_wf s l ex node \<Longrightarrow> in_scope c s \<Longrightarrow> node_ok s l t kind"
  by (auto simp: convert_dyn_box_def node_ok_def kind_ok_def intro: calls_wf_child)

lemma convert_dyn_call_wf:
  assumes "convert_dyn_call c ex node t = Inr kind" and "calls_wf s l ex node" and "in_scope c s"
  shows "node_ok s l t kind"
  using assms calls_wf_list [OF assms(2) _ set_drop_subset]
  by (auto simp: convert_dyn_call_def node_ok_def kind_ok_def intro: calls_wf_nth)

lemma convert_indirect_call_wf:
  assumes "convert_indirect_call c ex node t = Inr kind" and "calls_wf s l ex node" and "in_scope c s"
  shows "node_ok s l t kind"
  using assms calls_wf_list [OF assms(2) _ set_drop_subset]
  by (auto simp: convert_indirect_call_def node_ok_def kind_ok_def sc_signature_def
      intro: calls_wf_nth)

lemma convert_function_ref_wf:
  assumes "convert_function_ref c ex node t = Inr kind" and "calls_wf s l ex node" and "in_scope c s"
  shows "node_ok s l t kind"
  using assms
  by (auto simp: convert_function_ref_def Let_def node_ok_def kind_ok_def sc_signature_def ne_def
      scope_functions scope_signature intro: calls_wf_nth
      dest: scope_frame [OF assms(3)] split: option.splits)

lemma convert_environment_wf:
  assumes "convert_environment c ex node t = Inr kind" and "calls_wf s l ex node" and "in_scope c s"
  shows "node_ok s l t kind"
proof -
  obtain child e signature i params where
    child: "cv_child node 0 1 = Inr child" "ex child = Inr e" and e: "e_ty e = TFunction signature" and
    frame: "\<exists>fs. cv_frame c t = Inr fs" and i: "i < length (cv_functions c)" and
    signature: "signature < length (sc_function_types s)" and
    params: "traverse (cv_ty c) (wf_params (cv_functions c ! i)) = Inr params"
      "get_nth params 0 = Some t" "drop 1 params = sig_params (sc_function_types s ! signature)"
      "cv_ty c (wf_result (cv_functions c ! i)) = Inr (sig_result (sc_function_types s ! signature))"
    and kind: "kind = EField e 0"
    using assms(1,3) by (auto simp: convert_environment_def ne_def) blast
  have "params = t # sig_params (sc_function_types s ! signature)"
    using params(2,3) by (cases params) auto
  then have "\<lparr>sig_params = t # sig_params (sc_function_types s ! signature),
      sig_result = sig_result (sc_function_types s ! signature)\<rparr> = sc_functions s ! i"
    using scope_signature [OF assms(3) i params(1,4)] by simp
  then have "\<lparr>sig_params = t # sig_params (sc_function_types s ! signature),
      sig_result = sig_result (sc_function_types s ! signature)\<rparr> \<in> set (sc_functions s)"
    using i scope_functions [OF assms(3)] by simp
  then show ?thesis
    using child assms(2) e signature frame scope_frame [OF assms(3)]
    by (auto simp: node_ok_def kind_ok_def field_ok_def kind sc_record_def sc_frame_def sc_kind_def
        sc_signature_def get_nth_def intro: calls_wf_child)
qed

section \<open>Control flow\<close>

definition blocks_wf :: "scope \<Rightarrow> bool \<Rightarrow> (wexpr \<Rightarrow> block result) \<Rightarrow> wexpr \<Rightarrow> bool" where
  "blocks_wf s l bl node \<longleftrightarrow> (\<forall>n \<in> subnodes node. \<forall>b. bl n = Inr b \<longrightarrow> wf_block s l b)"

lemma blocks_wf_nth:
  "blocks_wf s l bl node \<Longrightarrow> i < length (w_children node) \<Longrightarrow> bl (w_children node ! i) = Inr b \<Longrightarrow> wf_block s l b"
  by (auto simp: blocks_wf_def dest: child_subnode [OF nth_mem])

lemma blocks_wf_arm:
  "blocks_wf s l bl node \<Longrightarrow> arm \<in> set (w_arms node) \<Longrightarrow> i < length (wa_body arm)
    \<Longrightarrow> bl (wa_body arm ! i) = Inr b \<Longrightarrow> wf_block s l b"
  using arm_body_subnode [of arm node i] by (auto simp: blocks_wf_def)

lemma convert_if_wf:
  assumes "convert_if ex bl node = Inr kind" and "calls_wf s l ex node" and "blocks_wf s l bl node"
  shows "node_ok s l t kind"
proof -
  obtain e b else_body where kind: "kind = EIf e b else_body" and
    parts: "ex (w_children node ! 0) = Inr e" "bl (w_children node ! 1) = Inr b"
      "1 < length (w_children node)" and
    else_body: "else_body = None \<or> (\<exists>b'. else_body = Some b' \<and> 2 < length (w_children node) \<and>
      bl (w_children node ! 2) = Inr b')"
    using assms(1) by (auto simp: convert_if_def split: option.splits)
  have "wf_expr s l e" and "wf_block s l b"
    using calls_wf_nth [OF assms(2) parts(1) order.strict_trans [OF zero_less_one parts(3)]]
      blocks_wf_nth [OF assms(3) parts(3,2)] by simp_all
  with else_body show ?thesis
    using blocks_wf_nth [OF assms(3)] by (auto simp: node_ok_def kind_ok_def kind)
qed

lemma convert_arm_wf:
  assumes "convert_arm c bl t arm = Inr arm'" and "arm \<in> set (w_arms node)"
    and "blocks_wf s l bl node" and "in_scope c s"
  shows "arm_ok s t arm' \<and> wf_arm s l arm'"
proof -
  obtain b where arm': "arm' = MatchArm (wa_variant arm) (wa_bindings arm) (wa_whole arm) b"
    and b: "length (wa_body arm) = 1" "bl (wa_body arm ! 0) = Inr b"
    and variant: "\<forall>v. wa_variant arm = Some v \<longrightarrow>
      (\<exists>ps. cv_variant c t v = Inr ps \<and> length ps = length (wa_bindings arm))"
    and locals: "\<exists>us. traverse (\<lambda>b. case b of None \<Rightarrow> Inr () | Some l \<Rightarrow>
      mapE (\<lambda>_. ()) (at (wf_locals (cv_source c)) l)) (wa_bindings arm @ [wa_whole arm]) = Inr us"
    using assms(1) by (auto simp: convert_arm_def split: option.splits)
  have "\<forall>i. Some i \<in> set (wa_bindings arm @ [wa_whole arm]) \<longrightarrow> i < length (sc_locals s)"
    using locals by (fastforce simp: traverse_eq_Inr list_all2_conv_all_nth in_set_conv_nth
        scope_locals [OF assms(4)] simp del: set_append)
  moreover have "wf_block s l b"
    using blocks_wf_arm [OF assms(3,2), of 0] b by simp
  ultimately show ?thesis
    using variant scope_variant [OF assms(4)]
    by (auto simp: arm' arm_ok_def list_all_iff split: option.splits)
qed

lemma convert_match_wf:
  assumes "convert_match c ex bl node = Inr kind" and "calls_wf s l ex node"
    and "blocks_wf s l bl node" and "in_scope c s"
  shows "node_ok s l t kind"
proof -
  obtain child e arms where child: "cv_child node 0 1 = Inr child" "ex child = Inr e"
    and arms: "traverse (convert_arm c bl (e_ty e)) (w_arms node) = Inr arms"
    and kind: "kind = EMatch e arms"
    using assms(1) by (auto simp: convert_match_def)
  have "arm_ok s (e_ty e) arm \<and> wf_arm s l arm" if "arm \<in> set arms" for arm
    using traverse_set [OF arms that] convert_arm_wf [OF _ _ assms(3,4)] by blast
  then show ?thesis
    using calls_wf_child [OF assms(2) child] by (simp add: node_ok_def kind_ok_def kind)
qed

section \<open>The recursion\<close>

lemma kind_step_wf:
  assumes "kind_step c ex bl node t = Inr kind" and "calls_wf s l ex node"
    and "blocks_wf s l bl node" and "in_scope c s"
    and "\<And>b. w_tag node = 11 \<Longrightarrow> bl node = Inr b \<Longrightarrow> wf_block s l b"
  shows "node_ok s l t kind"
proof -
  have slot: "node_ok s l t kind" if "mapE ELocal (cv_local c v) = Inr kind" for v
    using that scope_local [OF assms(4)] by (auto simp: node_ok_def kind_ok_def)
  have nested: "node_ok s l t kind" if "mapE EBlock (bl node) = Inr kind" and "w_tag node = 11"
    using that assms(5) by (auto simp: node_ok_def kind_ok_def)
  have coerce: "node_ok s l t kind"
    if "bindE (cv_child node 0 1) (\<lambda>child. mapE ECoerce (ex child)) = Inr kind"
    using that calls_wf_child [OF assms(2)] by (auto simp: node_ok_def kind_ok_def)
  note calls = convert_literal_wf convert_unary_wf [OF _ assms(2)] convert_binary_wf [OF _ assms(2)]
    convert_call_wf [OF _ assms(2,4)] convert_cell_get_wf [OF _ assms(2,4)]
    convert_primitive_wf [OF _ assms(2)] convert_record_wf [OF _ assms(2,4)]
    convert_list_wf [OF _ assms(2,4)] convert_frame_new_wf [OF _ assms(2,4)]
    convert_frame_store_wf [OF _ assms(2,4)] convert_field_wf [OF _ assms(2,4)]
    convert_variant_wf [OF _ assms(2,4)] convert_if_wf [OF _ assms(2,3)]
    convert_match_wf [OF _ assms(2,3,4)] convert_dyn_box_wf [OF _ assms(2,4)]
    convert_dyn_call_wf [OF _ assms(2,4)] convert_function_ref_wf [OF _ assms(2,4)]
    convert_indirect_call_wf [OF _ assms(2,4)] convert_environment_wf [OF _ assms(2,4)]
  show ?thesis
    using assms(1)
    by (simp only: kind_step_def split: if_split_asm)
      ((erule slot coerce calls | (erule nested, assumption) | simp only: sum.distinct)+)
qed

lemma expr_step_wf:
  assumes "expr_step c ex bl node = Inr e" and "calls_wf s l ex node"
    and "blocks_wf s l bl node" and "in_scope c s"
    and "\<And>b. w_tag node = 11 \<Longrightarrow> bl node = Inr b \<Longrightarrow> wf_block s l b"
  shows "wf_expr s l e"
  using assms(1) kind_step_wf [OF _ assms(2-5)] scope_ty [OF assms(4)]
  by (auto simp: expr_step_def node_ok_def)

lemma convert_children_wf:
  "convert_children ex st children = Inr (ss, tail)
    \<Longrightarrow> (\<And>n e. n \<in> set children \<Longrightarrow> ex n = Inr e \<Longrightarrow> wf_expr s l e)
    \<Longrightarrow> (\<And>n u. n \<in> set children \<Longrightarrow> st n = Inr u \<Longrightarrow> wf_stmt s l u)
    \<Longrightarrow> (\<forall>u \<in> set ss. wf_stmt s l u) \<and> (\<forall>e. tail = Some e \<longrightarrow> wf_expr s l e)"
proof (induction children arbitrary: ss)
  case (Cons n children)
  then show ?case
    by (cases "children = [] \<and> w_tag n \<notin> statement_tags") (auto, blast+)
qed simp

lemma wf_block_parts:
  "wf_block s l (Block ss tail b) \<longleftrightarrow> (\<forall>u \<in> set ss. wf_stmt s l u) \<and> (\<forall>e. tail = Some e \<longrightarrow> wf_expr s l e)"
  by (cases tail) auto

lemma block_step_wf:
  assumes "block_step ex st node = Inr b"
    and "\<And>n e. n \<in> set (w_children node) \<Longrightarrow> ex n = Inr e \<Longrightarrow> wf_expr s l e"
    and "\<And>n u. n \<in> set (w_children node) \<Longrightarrow> st n = Inr u \<Longrightarrow> wf_stmt s l u"
  shows "wf_block s l b"
  using assms(1) convert_children_wf [OF _ assms(2,3)]
  by (auto simp: block_step_def wf_block_parts)

lemma convert_store_wf:
  assumes "convert_store c ex node = Inr kind" and "calls_wf s l ex node" and "in_scope c s"
  shows "wf_stmt_kind s l kind"
proof -
  obtain i child e where i: "cv_local c (w_index node) = Inr i" and
    child: "cv_child node 0 1 = Inr child" "ex child = Inr e" and
    ty: "cv_ty c (wf_locals (cv_source c) ! i) = Inr (e_ty e)" and
    kind: "kind = SLet i e \<or> kind = SAssign i e"
    using assms(1) by (auto simp: convert_store_def ne_def split: if_splits)
  have "i < length (sc_locals s)"
    by (rule scope_local [OF assms(3) i])
  then have "store_ok s i e"
    using scope_local_ty [OF assms(3) _ ty] by (simp add: store_ok_def)
  with kind calls_wf_child [OF assms(2) child] show ?thesis by auto
qed

lemma convert_loop_control_wf:
  "convert_loop_control c node = Inr kind \<Longrightarrow> wf_stmt_kind s (cv_loop_depth c \<noteq> 0) kind"
  by (auto simp: convert_loop_control_def)

lemma convert_cleanup_wf:
  assumes "convert_cleanup c bl node = Inr kind"
    and "\<And>n b. n \<in> subnodes node \<Longrightarrow> bl 0 n = Inr b \<Longrightarrow> wf_block s False b"
  shows "wf_stmt_kind s l kind"
proof -
  obtain child i body where "cv_child node 0 1 = Inr child" "bl 0 child = Inr body"
    and kind: "kind = SDefer i body \<or> kind = SCleanup i body"
    using assms(1) by (auto simp: convert_cleanup_def split: if_splits)
  then have "wf_block s False body"
    using assms(2) cv_child_subnode by blast
  with kind show ?thesis by auto
qed

lemma statement_step_wf:
  assumes "statement_step c ex bl node = Inr kind" and "calls_wf s l ex node" and "in_scope c s"
    and "l = (cv_loop_depth c \<noteq> 0)"
    and "\<And>e. ex node = Inr e \<Longrightarrow> wf_expr s l e"
    and "\<And>d n b. n \<in> subnodes node \<Longrightarrow> bl d n = Inr b \<Longrightarrow> wf_block s (d \<noteq> 0) b"
  shows "wf_stmt_kind s l kind"
proof -
  let ?goal = "wf_stmt_kind s l kind"
  have store: "convert_store c ex node = Inr kind \<Longrightarrow> ?goal"
    by (rule convert_store_wf [OF _ assms(2,3)])
  have loop: "convert_loop_control c node = Inr kind \<Longrightarrow> ?goal"
    using convert_loop_control_wf assms(4) by blast
  have cleanup: "convert_cleanup c bl node = Inr kind \<Longrightarrow> ?goal"
    by (rule convert_cleanup_wf) (use assms(6) [of _ 0] in auto)
  have one: "?goal" if "bindE (cv_child node 0 1) (\<lambda>child. mapE f (ex child)) = Inr kind"
    and "\<And>e. wf_expr s l e \<Longrightarrow> wf_stmt_kind s l (f e)" for f
    using that calls_wf_child [OF assms(2)] by auto
  have return_: "?goal"
    if "bindE (ensure (\<not> 1 < length (w_children node)) e0) (\<lambda>_.
      case get_nth (w_children node) 0 of None \<Rightarrow> Inr (SReturn None)
      | Some value \<Rightarrow> mapE (\<lambda>e. SReturn (Some e)) (ex value)) = Inr kind" for e0
    using that calls_wf_nth [OF assms(2), of 0] by (auto split: option.splits)
  have while_: "?goal"
    if "bindE (cv_child node 0 2) (\<lambda>c0. bindE (ex c0) (\<lambda>condition.
      bindE (cv_child node 1 2) (\<lambda>c1. bindE (bl (cv_loop_depth c + 1) c1) (\<lambda>body.
      Inr (SWhile condition body))))) = Inr kind"
    using that calls_wf_child [OF assms(2)] assms(6) [OF cv_child_subnode, of 1 2 _ "cv_loop_depth c + 1"]
    by auto
  have expr: "mapE SExpr (ex node) = Inr kind \<Longrightarrow> ?goal"
    using assms(5) by auto
  show ?thesis
    using assms(1)
    by (simp only: statement_step_def split: if_split_asm)
      (erule store loop cleanup return_ while_ expr | (erule one, simp))+
qed

lemma in_scope_depth [simp]: "in_scope (c\<lparr>cv_loop_depth := d\<rparr>) s = in_scope c s"
proof -
  have ty: "cv_ty (c\<lparr>cv_loop_depth := d\<rparr>) = cv_ty c"
    by (rule ext) (simp add: cv_ty_def)
  have "signature_of_function (c\<lparr>cv_loop_depth := d\<rparr>) = signature_of_function c"
    by (intro ext) (simp only: signature_of_function_def ty)
  with ty show ?thesis by (simp add: in_scope_def del: scope_tables)
qed

lemma conv_wf:
  "in_scope c s \<Longrightarrow> conv_expr c node = Inr e \<Longrightarrow> wf_expr s (cv_loop_depth c \<noteq> 0) e"
  "in_scope c s \<Longrightarrow> conv_block c node = Inr b \<Longrightarrow> wf_block s (cv_loop_depth c \<noteq> 0) b"
  "in_scope c s \<Longrightarrow> conv_stmt c node = Inr u \<Longrightarrow> wf_stmt s (cv_loop_depth c \<noteq> 0) u"
proof (induction c node and c node and c node arbitrary: e and b and u
    rule: conv_expr_conv_block_conv_stmt.induct)
  case (1 c node)
  have "calls_wf s (cv_loop_depth c \<noteq> 0) (conv_expr c) node"
    and "blocks_wf s (cv_loop_depth c \<noteq> 0) (conv_block c) node"
    using 1(1) [OF _ 1(3)] 1(2) [OF insertI2 1(3)] by (simp_all add: calls_wf_def blocks_wf_def)
  then show ?case
    using expr_step_wf [OF 1(4) [unfolded conv_expr.simps [of c node]] _ _ 1(3)] 1(2) [OF _ 1(3)]
    by blast
next
  case (2 c node)
  show ?case
    by (rule block_step_wf [OF 2(4) [unfolded conv_block.simps [of c node]]])
      (use 2 in auto)
next
  case (3 c node)
  obtain kind where kind: "statement_step c (conv_expr c) (\<lambda>d. conv_block (c\<lparr>cv_loop_depth := d\<rparr>)) node = Inr kind"
    and u: "u = Stmt kind (w_span node)"
    using 3(4) by (auto simp: conv_stmt.simps [of c node])
  have "wf_stmt_kind s (cv_loop_depth c \<noteq> 0) kind"
    by (rule statement_step_wf [OF kind]) (use 3(1-3) in \<open>auto simp: calls_wf_def\<close>)
  then show ?case by (simp add: u)
qed

end
