(* ===== verification/Decoded.thy ===== *)
theory Decoded
  imports Soundness
begin

text \<open>
  The program a successful \<open>decode\<close> returns is well formed: its tables are closed, its witnesses
  implement their interfaces, its functions are well formed in the final tables, its roots exist.
\<close>

section \<open>Functions\<close>

text \<open>What a successful conversion says of one function, whatever functions came before it.\<close>

definition converted :: "ty list \<Rightarrow> wfunction list \<Rightarrow> program \<Rightarrow> wfunction \<Rightarrow> func \<Rightarrow> bool" where
  "converted types ws p source f \<longleftrightarrow>
     (\<exists>x c. c = \<lparr>cv_program = p\<lparr>p_functions := x\<rparr>, cv_types = types, cv_functions = ws,
                 cv_source = source, cv_loop_depth = 0\<rparr> \<and>
        traverse (at types) (wf_params source) = Inr (fn_params f) \<and>
        traverse (at types) (wf_locals source) = Inr (fn_locals f) \<and>
        take (length (fn_params f)) (fn_locals f) = fn_params f \<and>
        list_all2 (\<lambda>n e. at types (w_ty n) = Inr TBool \<and> conv_expr c n = Inr e)
          (wf_preconditions source) (fn_requires f) \<and>
        conv_block c (wf_body source) = Inr (fn_body f) \<and>
        at types (wf_result source) = Inr (fn_result f))"

lemma convert_function_converted:
  assumes "convert_function types ws (i, source) (p\<lparr>p_functions := x\<rparr>) = Inr q"
  shows "\<exists>f. q = p\<lparr>p_functions := x @ [f]\<rparr> \<and> converted types ws p source f"
proof -
  let ?c = "\<lparr>cv_program = p\<lparr>p_functions := x\<rparr>, cv_types = types, cv_functions = ws,
    cv_source = source, cv_loop_depth = 0\<rparr>"
  obtain params locals requires body result where
    q: "q = p\<lparr>p_functions := x @
      [\<lparr>fn_name = ''source.fn.'' @ show_int (wf_symbol source) @ ''.'' @ show_nat i,
        fn_params = params, fn_result = result, fn_locals = locals, fn_requires = requires,
        fn_body = body, fn_span = wf_span source\<rparr>]\<rparr>" (is "q = p\<lparr>p_functions := x @ [?f]\<rparr>") and
    parts: "traverse (at types) (wf_params source) = Inr params"
      "traverse (at types) (wf_locals source) = Inr locals" "take (length params) locals = params"
      "conv_block ?c (wf_body source) = Inr body" "at types (wf_result source) = Inr result" and
    requires: "traverse (\<lambda>e. bindE (at types (w_ty e)) (\<lambda>t.
        bindE (ensure (t = TBool) (Rejected ''precondition must be a Bool value'')) (\<lambda>_.
        conv_expr ?c e))) (wf_preconditions source) = Inr requires"
    using assms by (auto simp: convert_function_def Let_def simp del: at_eq_Inr)
  from requires have "list_all2 (\<lambda>n e. at types (w_ty n) = Inr TBool \<and> conv_expr ?c n = Inr e)
      (wf_preconditions source) requires"
    by (auto simp: traverse_eq_Inr elim!: list_all2_mono)
  with parts have "converted types ws p source ?f"
    unfolding converted_def by (intro exI [of _ x] exI [of _ ?c]) simp
  with q show ?thesis by blast
qed

lemma convert_functions:
  assumes "foldE (convert_function types ws) (enumerate k sources) (p\<lparr>p_functions := x\<rparr>) = Inr q"
  shows "\<exists>fs. q = p\<lparr>p_functions := x @ fs\<rparr> \<and> list_all2 (converted types ws p) sources fs"
  using assms
proof (induction sources arbitrary: k x)
  case (Cons source sources)
  then obtain u where u: "convert_function types ws (k, source) (p\<lparr>p_functions := x\<rparr>) = Inr u"
    "foldE (convert_function types ws) (enumerate (Suc k) sources) u = Inr q" by auto
  then obtain f where f: "u = p\<lparr>p_functions := x @ [f]\<rparr>" "converted types ws p source f"
    using convert_function_converted by blast
  then obtain fs where "q = p\<lparr>p_functions := (x @ [f]) @ fs\<rparr>" "list_all2 (converted types ws p) sources fs"
    using Cons.IH u(2) by blast
  with f show ?case by (intro exI [of _ "f # fs"]) simp
qed auto

lemma list_all2_in2: "list_all2 P xs ys \<Longrightarrow> y \<in> set ys \<Longrightarrow> \<exists>x \<in> set xs. P x y"
  by (auto simp: list_all2_conv_all_nth in_set_conv_nth) (metis nth_mem)

lemma scoped_ty_scope_of [simp]: "scoped_ty (scope_of p sigs locals) t = ty_in_range p t"
  by (cases t) (simp_all add: scope_of_def)

lemma cv_ty_types: "cv_types c = types \<Longrightarrow> cv_ty c = at types"
  by (simp add: fun_eq_iff cv_ty_def)

lemma converted_in_scope:
  assumes "list_all2 (converted types ws p) ws fs" and "ranges_in p types"
    and "traverse (at types) (wf_locals source) = Inr locals"
    and "c = \<lparr>cv_program = p\<lparr>p_functions := x\<rparr>, cv_types = types, cv_functions = ws,
                 cv_source = source, cv_loop_depth = 0\<rparr>"
  shows "in_scope c (scope_of p (map (\<lambda>f. \<lparr>sig_params = fn_params f, sig_result = fn_result f\<rparr>) fs) locals)"
proof -
  have ty: "cv_ty c = at types"
    by (rule cv_ty_types) (simp add: assms(4))
  have "list_all2 (signature_of_function c) ws
      (map (\<lambda>f. \<lparr>sig_params = fn_params f, sig_result = fn_result f\<rparr>) fs)"
    unfolding list_all2_map2
    by (rule list_all2_mono [OF assms(1)])
      (auto simp: converted_def signature_of_function_def ty simp del: at_eq_Inr)
  then show ?thesis
    using assms(2-4) ty unfolding in_scope_def
    by (simp add: ranges_in_def scope_of_def [symmetric] del: scope_tables)
      (simp add: scope_of_def del: scope_tables)
qed

lemma conv_expr_ty: "conv_expr c n = Inr e \<Longrightarrow> cv_ty c (w_ty n) = Inr (e_ty e)"
  by (auto simp: conv_expr.simps [of c n] expr_step_def)

lemma scope_of_functions [simp]: "scope_of (p\<lparr>p_functions := x\<rparr>) sigs locals = scope_of p sigs locals"
  by (simp add: scope_of_def)

lemma converted_function_wf:
  assumes all: "list_all2 (converted types ws p) ws fs" and ranges: "ranges_in p types"
    and f: "converted types ws p source f"
  shows "wf_function (p\<lparr>p_functions := fs\<rparr>) f"
proof -
  obtain x c where c: "c = \<lparr>cv_program = p\<lparr>p_functions := x\<rparr>, cv_types = types, cv_functions = ws,
      cv_source = source, cv_loop_depth = 0\<rparr>"
    and locals: "traverse (at types) (wf_locals source) = Inr (fn_locals f)"
    and prefix: "take (length (fn_params f)) (fn_locals f) = fn_params f"
    and requires: "list_all2 (\<lambda>n e. at types (w_ty n) = Inr TBool \<and> conv_expr c n = Inr e)
      (wf_preconditions source) (fn_requires f)"
    and body: "conv_block c (wf_body source) = Inr (fn_body f)"
    and result: "at types (wf_result source) = Inr (fn_result f)"
    using f unfolding converted_def by blast
  let ?sigs = "map (\<lambda>f. \<lparr>sig_params = fn_params f, sig_result = fn_result f\<rparr>) fs"
  have scope: "in_scope c (scope_of p ?sigs (fn_locals f))"
    by (rule converted_in_scope [OF all ranges locals c])
  have depth: "(cv_loop_depth c \<noteq> 0) = False"
    by (simp add: c)
  have "wf_expr (scope_of p ?sigs (fn_locals f)) False e \<and> e_ty e = TBool" if e: "e \<in> set (fn_requires f)" for e
  proof -
    obtain n where "at types (w_ty n) = Inr TBool" "conv_expr c n = Inr e"
      using list_all2_in2 [OF requires e] by blast
    moreover from this have "e_ty e = TBool"
      using conv_expr_ty [of c n e] by (auto simp: cv_ty_def c)
    ultimately show ?thesis
      using conv_wf(1) [OF scope] depth by simp
  qed
  moreover have "wf_block (scope_of p ?sigs (fn_locals f)) False (fn_body f)"
    using conv_wf(2) [OF scope body] depth by simp
  moreover have "\<forall>t \<in> set (fn_result f # fn_locals f). ty_in_range p t"
    using traverse_at [OF locals] result ranges nth_mem [of "wf_result source" types]
    by (auto simp: ranges_in_def)
  ultimately show ?thesis
    using prefix by (simp add: wf_function_def function_signatures_def)
qed

section \<open>Witnesses\<close>

lemma convert_witness_wf:
  assumes witness: "convert_witness w types (p_interfaces p) entry = Inr wit"
    and all: "list_all2 (converted types (wr_functions w) p) (wr_functions w) fs"
    and ranges: "ranges_in p types"
  shows "wf_witness (p\<lparr>p_functions := fs\<rparr>) wit"
proof -
  obtain interface i methods where entry: "entry = (interface, i, methods)" by (cases entry)
  let ?shape = "p_interfaces p ! interface" and ?p = "p\<lparr>p_functions := fs\<rparr>"
  obtain concrete us where
    interface: "interface < length (p_interfaces p)" and
    concrete: "at types i = Inr concrete"
      "\<not> (case concrete of TParameter _ \<Rightarrow> True | TUnit \<Rightarrow> True | _ \<Rightarrow> False)" and
    lengths: "length methods = length ?shape" and
    checks: "traverse (witness_method w types concrete) (zip methods ?shape) = Inr us" and
    wit: "wit = \<lparr>wit_interface = interface, wit_concrete = concrete, wit_methods = methods\<rparr>"
    using witness by (auto simp: convert_witness_def entry)
  have "get_nth (function_signatures ?p) j =
      Some \<lparr>sig_params = concrete # sig_params (?shape ! k), sig_result = sig_result (?shape ! k)\<rparr>"
    if k: "k < length methods" and j: "methods ! k = Some j" for k j
  proof -
    have check: "witness_method w types concrete (Some j, ?shape ! k) = Inr (us ! k)"
      using traverse_nth [OF checks, of k] k j lengths by simp
    then obtain ps where
      jf: "j < length (wr_functions w)" and
      ps: "traverse (at types) (wf_params (wr_functions w ! j)) = Inr ps" "ps \<noteq> []" "ps ! 0 = concrete"
        "drop 1 ps = sig_params (?shape ! k)" and
      result: "at types (wf_result (wr_functions w ! j)) = Inr (sig_result (?shape ! k))"
      by (auto simp: witness_method_def)
    have conv: "converted types (wr_functions w) p (wr_functions w ! j) (fs ! j)" "j < length fs"
      using all jf by (auto simp: list_all2_conv_all_nth)
    then have "fn_params (fs ! j) = ps" and "fn_result (fs ! j) = sig_result (?shape ! k)"
      using ps(1) result by (auto simp: converted_def)
    moreover have "ps = concrete # sig_params (?shape ! k)"
      using ps(2-4) by (cases ps) auto
    ultimately show ?thesis
      using conv(2) by (simp add: function_signatures_def)
  qed
  then have "list_all2 (\<lambda>target method. case target of None \<Rightarrow> True | Some i \<Rightarrow>
      get_nth (function_signatures ?p) i =
        Some \<lparr>sig_params = wit_concrete wit # sig_params method, sig_result = sig_result method\<rparr>)
      methods ?shape"
    using lengths by (auto simp: list_all2_conv_all_nth wit split: option.splits)
  moreover have "ty_in_range p concrete"
    using concrete(1) ranges by (auto simp: ranges_in_def)
  ultimately show ?thesis
    using interface concrete(2) wit unfolding wf_witness_def by (auto split: ty.splits)
qed

section \<open>Programs\<close>

lemma kind_types_refs: "kind_types kind = kind_refs kind"
  by (cases kind) (simp_all add: kind_types_def kind_refs_def)

lemma build_types_tables:
  assumes "build_types w = Inr (types, p)"
  shows "traverse (traverse (map_signature types)) (wr_interfaces w) = Inr (p_interfaces p)"
    and "traverse (convert_witness w types (p_interfaces p)) (wr_witnesses w) = Inr (p_witnesses p)"
    and "p_entry p = wr_entry w \<and> p_tests p = wr_tests w \<and> p_exports p = wr_exports w \<and>
         p_test_names p = wr_test_names w"
proof -
  obtain q interfaces witnesses where
    heads: "foldE (type_head w) (enumerate 0 (wr_data w)) ([], empty_program w) = Inr (types, q)" and
    interfaces: "traverse (traverse (map_signature types)) (wr_interfaces w) = Inr interfaces" and
    witnesses: "traverse (convert_witness w types interfaces) (wr_witnesses w) = Inr witnesses" and
    fill: "foldE (fill_type types) (zip (wr_data w) types)
      (q\<lparr>p_interfaces := interfaces, p_witnesses := witnesses\<rparr>) = Inr p"
    using assms by (auto simp: build_types_def)
  let ?K = "\<lambda>p. p_entry p = wr_entry w \<and> p_tests p = wr_tests w \<and> p_exports p = wr_exports w \<and>
         p_test_names p = wr_test_names w"
  have "?K (snd (types, q))"
    by (rule foldE_invariant [where P = "\<lambda>s. ?K (snd s)", OF heads])
      (auto simp: empty_program_def type_head_def Let_def split: if_splits)
  then have "?K p \<and> p_interfaces p = interfaces \<and> p_witnesses p = witnesses"
    by (intro foldE_invariant [where P = "\<lambda>p. ?K p \<and> p_interfaces p = interfaces \<and>
          p_witnesses p = witnesses", OF fill])
      (auto simp: fill_type_def split: ty.splits)
  with interfaces witnesses show
    "traverse (traverse (map_signature types)) (wr_interfaces w) = Inr (p_interfaces p)"
    "traverse (convert_witness w types (p_interfaces p)) (wr_witnesses w) = Inr (p_witnesses p)" "?K p"
    by auto
qed

lemma wf_signature_closed: "wf_signature p sig = closed_signature p sig"
  by (simp add: wf_signature_def closed_signature_def)

lemma build_wf:
  assumes "build w = Inr q"
  shows "wf_program q" and "acyclic (contains_value q)" and "refined_bases q"
proof -
  obtain types p state us where
    types: "build_types w = Inr (types, p)" and layouts: "check_layouts p = Inr state" and
    fold: "foldE (convert_function types (wr_functions w)) (enumerate 0 (wr_functions w)) p = Inr q" and
    roots: "traverse (at (p_functions q)) (roots q) = Inr us" and
    names: "wr_test_names w = [] \<or> length (wr_test_names w) = length (wr_tests w)"
    using assms by (auto simp: build_def)
  have ok: "closed_program p" "ranges_in p types" "p_functions p = []"
    using build_types_ok(2) [OF types] by auto
  have "p\<lparr>p_functions := []\<rparr> = p" using ok(3) by simp
  with fold have "foldE (convert_function types (wr_functions w)) (enumerate 0 (wr_functions w))
      (p\<lparr>p_functions := []\<rparr>) = Inr q" by simp
  then obtain fs where q: "q = p\<lparr>p_functions := fs\<rparr>"
    and fs: "list_all2 (converted types (wr_functions w) p) (wr_functions w) fs"
    using convert_functions by fastforce
  have "wf_function q f" if "f \<in> set fs" for f
    using list_all2_in2 [OF fs that] converted_function_wf [OF fs ok(2)] by (auto simp: q)
  moreover have "wf_witness q wit" if "wit \<in> set (p_witnesses p)" for wit
    using traverse_set [OF build_types_tables(2) [OF types] that] convert_witness_wf fs ok(2)
    by (auto simp: q)
  moreover have "closed_signature p sig" if "ms \<in> set (p_interfaces p)" and "sig \<in> set ms" for ms sig
    using traverse_set [OF build_types_tables(1) [OF types] that(1)] that(2) map_signature_closed ok(2)
    by (auto simp: ranges_in_def dest!: traverse_set)
  moreover have "i < length fs" if "i \<in> set (roots q)" for i
    using roots that by (auto simp: q traverse_eq_Inr list_all2_conv_all_nth in_set_conv_nth)
  ultimately show "wf_program q"
    using ok(1) names build_types_tables(3) [OF types]
    by (auto simp: wf_program_def wf_signature_closed kind_types_refs closed_program_def
        types_closed_def closed_signature_def roots_def q split: option.splits)
  have "refined_base q base = refined_base p base" for base
    by (cases base) (simp_all add: q refined_base_def)
  then have "contains_value q = contains_value p" and "refined_bases q = refined_bases p"
    by (simp_all add: q contains_value_def refined_bases_def)
  then show "acyclic (contains_value q)" and "refined_bases q"
    using check_layouts_sound [OF layouts] by simp_all
qed

lemma decode_parts:
  assumes "decode input = Inr p"
  obtains body w r where "strip_prefix header input = Some body"
    "rd_wire \<lparr>r_text = body, r_offset = 0\<rparr> = Inr (w, r)" "build w = Inr p"
  using assms by (auto simp: decode_def)

end
