(* ===== verification/Codec.thy ===== *)
theory Codec
  imports Reading
begin

text \<open>
  The printed form of the wire stream and its round trip through the reader.  The printer follows
  the source compiler's emitter (\<open>compiler/loom/artifact/artifact.loom\<close>) and the test helper
  \<open>node\<close> of \<open>compiler/src/native_input.rs\<close>: decimal lines, byte-counted strings, counted
  sequences.  The locale \<open>codec\<close> is the contract of one item: reading what was printed gives the
  item back and stops right behind it, whatever precedes and follows.
\<close>

section \<open>Cursors\<close>

text \<open>A reader between what it has read and what it has left.\<close>

definition cursor :: "string \<Rightarrow> string \<Rightarrow> reader" where
  "cursor seen rest = \<lparr>r_text = seen @ rest, r_offset = length seen\<rparr>"

text \<open>A printed form that starts no character in the middle.\<close>

definition clean :: "string \<Rightarrow> bool" where
  "clean s \<longleftrightarrow> s = [] \<or> \<not> is_continuation (hd s)"

definition in_usize :: "nat \<Rightarrow> bool" where
  "in_usize n \<longleftrightarrow> in_i64 (int n)"

text \<open>Reading \<open>s\<close> gives \<open>x\<close>, whatever was read before and whatever is left behind it.\<close>

definition prints :: "'a reading \<Rightarrow> string \<Rightarrow> 'a \<Rightarrow> bool" where
  "prints m s x \<longleftrightarrow> clean s \<and>
     (\<forall>seen rest. clean rest \<longrightarrow> in_usize (length (seen @ s @ rest))
       \<longrightarrow> m (cursor seen (s @ rest)) = Inr (x, cursor (seen @ s) rest))"

lemma cursor_boundary: "is_char_boundary (seen @ rest) (length seen) \<longleftrightarrow> seen = [] \<or> clean rest"
  by (cases rest) (auto simp: is_char_boundary_def clean_def)

lemma cursor_simps [simp]:
  "r_text (cursor seen rest) = seen @ rest" "r_offset (cursor seen rest) = length seen"
  by (simp_all add: cursor_def)

lemma cursor_advance: "(cursor seen (s @ rest))\<lparr>r_offset := length seen + length s\<rparr> = cursor (seen @ s) rest"
  by (simp add: cursor_def)

lemma clean_append: "clean s \<Longrightarrow> clean t \<Longrightarrow> clean (s @ t)"
  by (cases s) (auto simp: clean_def)

lemma clean_Nil [simp]: "clean []"
  by (simp add: clean_def)

lemma in_usize_mono: "in_usize n \<Longrightarrow> m \<le> n \<Longrightarrow> in_usize m"
  by (auto simp: in_usize_def in_i64_def i64_min_def)

lemma printsD:
  assumes "prints m s x" "clean rest" "in_usize (length seen + (length s + length rest))"
  shows "m (cursor seen (s @ rest)) = Inr (x, cursor (seen @ s) rest)"
  using assms by (simp add: prints_def)

lemma prints_clean: "prints m s x \<Longrightarrow> clean s"
  by (simp add: prints_def)

lemma prints_return: "prints (returnR x) [] x"
  by (simp add: prints_def returnR_def)

lemma prints_bind:
  assumes m: "prints m s x" and f: "prints (f x) t y"
  shows "prints (bindR m f) (s @ t) y"
  unfolding prints_def
proof (intro conjI allI impI)
  show "clean (s @ t)"
    using m f by (blast intro: clean_append prints_clean)
  fix seen rest
  assume rest: "clean rest" and fits: "in_usize (length (seen @ (s @ t) @ rest))"
  have "clean (t @ rest)"
    using f rest by (blast intro: clean_append prints_clean)
  then have "m (cursor seen (s @ t @ rest)) = Inr (x, cursor (seen @ s) (t @ rest))"
    by (rule printsD [OF m]) (use fits in simp)
  moreover have "f x (cursor (seen @ s) (t @ rest)) = Inr (y, cursor ((seen @ s) @ t) rest)"
    by (rule printsD [OF f rest]) (use fits in \<open>simp add: add.assoc\<close>)
  ultimately show "bindR m f (cursor seen ((s @ t) @ rest)) = Inr (y, cursor (seen @ s @ t) rest)"
    by (simp add: bindR_def)
qed

lemma prints_last:
  assumes "prints m s x" "g x = y" shows "prints (bindR m (\<lambda>x. returnR (g x))) s y"
  using prints_bind [OF assms(1), of "\<lambda>x. returnR (g x)" "[]" y] prints_return [of y] assms(2) by simp

lemma prints_lift:
  assumes "prints m s x" "g x = Inr y" shows "prints (bindR m (\<lambda>x. liftR (g x))) s y"
proof -
  have "prints (liftR (g x)) [] y"
    using assms(2) by (simp add: prints_def liftR_def)
  from prints_bind [where f = "\<lambda>x. liftR (g x)", OF assms(1) this] show ?thesis
    by simp
qed

section \<open>The contract of an item\<close>

locale codec =
  fixes item :: "'a reading" and print :: "'a \<Rightarrow> string" and ok :: "'a \<Rightarrow> bool"
  assumes nonempty: "ok x \<Longrightarrow> print x \<noteq> []"
    and reads_back: "ok x \<Longrightarrow> prints item (print x) x"
begin

lemma repeat_back:
  "\<forall>x \<in> set xs. ok x \<Longrightarrow> prints (repeatR (length xs) item) (concat (map print xs)) xs"
  by (induction xs) (auto intro!: prints_return prints_bind [OF reads_back] prints_last)

lemma list_length: "\<forall>x \<in> set xs. ok x \<Longrightarrow> length xs \<le> length (concat (map print xs))"
proof (induction xs)
  case (Cons x xs)
  then have "Suc 0 \<le> length (print x)"
    using nonempty [of x] by (cases "print x") simp_all
  with Cons show ?case
    by simp
qed simp

text \<open>The whole text that an item prints is read to its end.\<close>

lemma whole:
  assumes "ok x" "in_usize (length (print x))"
  shows "item (cursor [] (print x)) = Inr (x, cursor (print x) [])"
  using printsD [OF reads_back [OF assms(1)], of "[]" "[]"] assms(2) by simp

text \<open>No two items print the same text, and none prints a proper prefix of another's.\<close>

lemma prefix_free:
  assumes "ok x" "ok y" "print x = print y @ rest" "clean rest" "in_usize (length (print x))"
  shows "x = y \<and> rest = []"
  using printsD [OF reads_back [OF assms(1)], of "[]" "[]"]
    printsD [OF reads_back [OF assms(2)], of rest "[]"] assms(3-)
  by (simp add: cursor_def)

end

section \<open>Numbers\<close>

definition print_int :: "int \<Rightarrow> string" where
  "print_int v = show_int v @ [CHR 0x0A]"

definition print_nat :: "nat \<Rightarrow> string" where
  "print_nat n = print_int (int n)"

lemma find_newline_append: "CHR 0x0A \<notin> set s \<Longrightarrow> find_newline (s @ CHR 0x0A # t) = Some (length s)"
  by (induction s) auto

lemma ascii_not_continuation: "byte_of c < 128 \<Longrightarrow> \<not> is_continuation c"
  by (simp add: is_continuation_def)

lemma show_int_start: "show_int v \<noteq> [] \<and> \<not> is_continuation (hd (show_int v))"
proof -
  have "is_digit (hd (show_nat n))" for n
    using show_nat_digits [of n] show_nat_nonempty [of n] by (cases "show_nat n") auto
  then have "\<not> is_continuation (hd (show_nat n))" for n
    using digit_ascii ascii_not_continuation by blast
  moreover have "\<not> is_continuation (CHR ''-'')"
    by (simp add: is_continuation_def byte_of_def)
  ultimately show ?thesis
    by (simp add: show_int_def)
qed

lemma print_nonempty [simp]: "print_int v \<noteq> []" "print_nat n \<noteq> []"
  by (simp_all add: print_int_def print_nat_def)

lemma codec_integer: "codec rd_integer print_int in_i64"
proof
  fix v :: int
  show "print_int v \<noteq> []"
    by simp
  assume v: "in_i64 v"
  have clean: "clean (print_int v @ rest)" for rest
    using show_int_start [of v] by (simp add: clean_def print_int_def)
  show "prints rd_integer (print_int v) v"
    unfolding prints_def
  proof (intro conjI allI impI)
    show "clean (print_int v)"
      using clean [of "[]"] by simp
    fix seen rest
    have boundary: "is_char_boundary (seen @ print_int v @ rest) (length seen)"
      by (simp add: cursor_boundary clean)
    have newline: "find_newline (show_int v @ CHR 0x0A # rest) = Some (length (show_int v))"
      using show_int_no_newline by (intro find_newline_append) blast
    show "rd_integer (cursor seen (print_int v @ rest)) = Inr (v, cursor (seen @ print_int v) rest)"
      using boundary newline parse_show_int [OF v]
      by (simp add: rd_integer_def print_int_def cursor_def Let_def)
  qed
qed

interpretation integer: codec rd_integer print_int in_i64
  by (rule codec_integer)

lemma codec_lift:
  assumes "codec m print ok"
    and "\<And>x. ok' x \<Longrightarrow> ok (f x)" and "\<And>x. ok' x \<Longrightarrow> g (f x) = Inr x"
  shows "codec (bindR m (\<lambda>v. liftR (g v))) (\<lambda>x. print (f x)) ok'"
  using codec.nonempty [OF assms(1)] codec.reads_back [OF assms(1)] assms(2,3)
  by unfold_locales (auto intro!: prints_lift)

lemma codec_index: "codec rd_index print_nat in_usize"
  unfolding rd_index_def print_nat_def
  by (rule codec_lift [OF codec_integer]) (auto simp: in_usize_def index_def)

interpretation index: codec rd_index print_nat in_usize
  by (rule codec_index)

definition print_optional :: "nat option \<Rightarrow> string" where
  "print_optional x = print_int (case x of None \<Rightarrow> - 1 | Some n \<Rightarrow> int n)"

definition optional_ok :: "nat option \<Rightarrow> bool" where
  "optional_ok x \<longleftrightarrow> (case x of None \<Rightarrow> True | Some n \<Rightarrow> in_usize n)"

lemma codec_optional: "codec rd_optional print_optional optional_ok"
  unfolding rd_optional_def print_optional_def
  by (rule codec_lift [OF codec_integer])
    (auto simp: optional_ok_def in_usize_def optional_def index_def in_i64_def i64_min_def i64_max_def
      split: option.splits)

interpretation optional: codec rd_optional print_optional optional_ok
  by (rule codec_optional)

definition print_bool :: "bool \<Rightarrow> string" where
  "print_bool b = print_int (if b then 1 else 0)"

lemma codec_falls: "codec rd_falls print_bool (\<lambda>_. True)"
proof -
  have "codec (bindR rd_integer (\<lambda>v. liftR (if v = 0 then Inr False else if v = 1 then Inr True
      else Inl (Rejected ''invalid checked-IR fallthrough flag''))))
    (\<lambda>b. print_int (if b then 1 else 0)) (\<lambda>_. True)"
    by (rule codec_lift [OF codec_integer]) (auto simp: in_i64_def i64_min_def i64_max_def)
  moreover have "bindR rd_integer (\<lambda>v. liftR (if v = 0 then Inr False else if v = 1 then Inr True
      else Inl (Rejected ''invalid checked-IR fallthrough flag''))) = rd_falls"
    by (auto simp: rd_falls_def bindR_def liftR_def returnR_def fun_eq_iff intro!: bindE_cong)
  ultimately show ?thesis
    by (simp add: print_bool_def [abs_def])
qed

interpretation falls: codec rd_falls print_bool "\<lambda>_. True"
  by (rule codec_falls)

section \<open>Strings, spans and sequences\<close>

definition print_string :: "string \<Rightarrow> string" where
  "print_string s = print_nat (length s) @ s"

definition print_span :: "span \<Rightarrow> string" where
  "print_span s = print_nat (sp_start s) @ print_nat (sp_end s)"

definition span_ok :: "span \<Rightarrow> bool" where
  "span_ok s \<longleftrightarrow> sp_start s \<le> sp_end s \<and> in_usize (sp_end s)"

definition print_list :: "('a \<Rightarrow> string) \<Rightarrow> 'a list \<Rightarrow> string" where
  "print_list print xs = print_nat (length xs) @ concat (map print xs)"

lemma print_list_cong [fundef_cong]:
  "xs = ys \<Longrightarrow> (\<And>x. x \<in> set ys \<Longrightarrow> f x = g x) \<Longrightarrow> print_list f xs = print_list g ys"
  by (simp add: print_list_def cong: map_cong)

lemma clean_print_nat: "clean (print_nat n @ s)"
  using show_int_start [of "int n"] by (simp add: clean_def print_nat_def print_int_def)

lemma print_forms_nonempty [simp]:
  "print_string s \<noteq> []" "print_list p xs \<noteq> []" "print_span sp \<noteq> []" "print_optional x \<noteq> []"
  by (simp_all add: print_string_def print_list_def print_span_def print_optional_def)

lemma codec_string: "codec rd_string print_string clean"
proof
  fix s
  assume clean: "clean s"
  show "print_string s \<noteq> []"
    by simp
  show "prints rd_string (print_string s) s"
    unfolding prints_def
  proof (intro conjI allI impI)
    show "clean (print_string s)"
      by (simp add: print_string_def clean_print_nat)
    fix seen rest
    assume rest: "clean rest" and fits: "in_usize (length (seen @ print_string s @ rest))"
    let ?seen = "seen @ print_nat (length s)"
    have len: "in_usize (length s)"
      using fits by (rule in_usize_mono) (simp add: print_string_def)
    have "is_char_boundary (?seen @ s @ rest) (length ?seen)"
      by (subst cursor_boundary) (simp add: clean_append clean rest)
    moreover have "is_char_boundary ((?seen @ s) @ rest) (length (?seen @ s))"
      by (subst cursor_boundary) (simp add: rest)
    moreover have "rd_index (cursor seen (print_nat (length s) @ s @ rest)) = Inr (length s, cursor ?seen (s @ rest))"
      by (rule printsD [OF index.reads_back [OF len] clean_append [OF clean rest]])
        (use fits in \<open>simp add: print_string_def add.assoc\<close>)
    moreover have "in_usize (length ?seen + length s)"
      using fits by (rule in_usize_mono) (simp add: print_string_def)
    then have "\<not> (2::int) ^ 64 \<le> int (length ?seen + length s)"
      by (simp add: in_usize_def in_i64_def i64_max_def)
    ultimately show "rd_string (cursor seen (print_string s @ rest)) = Inr (s, cursor (seen @ print_string s) rest)"
      unfolding rd_string_def bindR_def print_string_def
      by (simp add: Let_def cursor_def add.assoc)
  qed
qed

interpretation strings: codec rd_string print_string clean
  by (rule codec_string)

lemma codec_span: "codec rd_span print_span span_ok"
proof
  fix s :: span
  show "print_span s \<noteq> []"
    by simp
  assume ok: "span_ok s"
  then have "in_usize (sp_start s)" "in_usize (sp_end s)"
    by (auto simp: span_ok_def intro: in_usize_mono)
  moreover have "prints (if sp_end s < sp_start s then liftR (Inl (Rejected ''reversed checked-IR span''))
      else returnR \<lparr>sp_start = sp_start s, sp_end = sp_end s\<rparr>) [] s"
    using ok prints_return [of s] by (cases s) (simp add: span_ok_def)
  ultimately have "prints (bindR rd_index (\<lambda>stop.
      if stop < sp_start s then liftR (Inl (Rejected ''reversed checked-IR span''))
      else returnR \<lparr>sp_start = sp_start s, sp_end = stop\<rparr>)) (print_nat (sp_end s) @ []) s"
    by (intro prints_bind [OF index.reads_back]) simp_all
  with \<open>in_usize (sp_start s)\<close> show "prints rd_span (print_span s) s"
    unfolding rd_span_def print_span_def by (intro prints_bind [OF index.reads_back]) simp_all
qed

interpretation spans: codec rd_span print_span span_ok
  by (rule codec_span)

lemma codec_list:
  assumes "codec item print ok"
  shows "codec (rd_sequence item) (print_list print) (\<lambda>xs. \<forall>x \<in> set xs. ok x)"
proof
  fix xs
  assume ok: "\<forall>x \<in> set xs. ok x"
  show "print_list print xs \<noteq> []"
    by simp
  let ?body = "concat (map print xs)"
  have body: "prints (repeatR (length xs) item) ?body xs"
    by (rule codec.repeat_back [OF assms ok])
  show "prints (rd_sequence item) (print_list print xs) xs"
    unfolding prints_def
  proof (intro conjI allI impI)
    show "clean (print_list print xs)"
      by (simp add: print_list_def clean_print_nat)
    fix seen rest
    assume rest: "clean rest" and fits: "in_usize (length (seen @ print_list print xs @ rest))"
    let ?seen = "seen @ print_nat (length xs)"
    have count: "length xs \<le> length ?body"
      by (rule codec.list_length [OF assms ok])
    then have len: "in_usize (length xs)"
      using in_usize_mono [OF fits] by (simp add: print_list_def)
    have "rd_index (cursor seen (print_nat (length xs) @ ?body @ rest)) = Inr (length xs, cursor ?seen (?body @ rest))"
      by (rule printsD [OF index.reads_back [OF len] clean_append [OF prints_clean [OF body] rest]])
        (use fits in \<open>simp add: print_list_def add.assoc\<close>)
    moreover have "repeatR (length xs) item (cursor ?seen (?body @ rest)) = Inr (xs, cursor (?seen @ ?body) rest)"
      by (rule printsD [OF body rest]) (use fits in \<open>simp add: print_list_def add.assoc\<close>)
    ultimately show "rd_sequence item (cursor seen (print_list print xs @ rest)) = Inr (xs, cursor (seen @ print_list print xs) rest)"
      using count unfolding rd_sequence_def bindR_def print_list_def by simp
  qed
qed

section \<open>Expressions\<close>

fun print_expr :: "wexpr \<Rightarrow> string" and print_arm :: "warm \<Rightarrow> string" where
  "print_expr (WExpr tag t span txt i falls children arms) =
     print_nat tag @ print_nat t @ print_span span @ print_string txt @ print_int i @ print_bool falls
     @ print_list print_expr children @ print_list print_arm arms"
| "print_arm (WArm variant bindings whole body) =
     print_optional variant @ print_list print_optional bindings @ print_optional whole
     @ print_list print_expr body"

text \<open>An expression that nests at most \<open>levels\<close> deep and whose numbers fit the wire.\<close>

definition arm_ok :: "(wexpr \<Rightarrow> bool) \<Rightarrow> warm \<Rightarrow> bool" where
  "arm_ok ok a \<longleftrightarrow> optional_ok (wa_variant a) \<and> (\<forall>b \<in> set (wa_bindings a). optional_ok b)
     \<and> optional_ok (wa_whole a) \<and> (\<forall>e \<in> set (wa_body a). ok e)"

primrec expr_ok :: "nat \<Rightarrow> wexpr \<Rightarrow> bool" where
  "expr_ok 0 e = False"
| "expr_ok (Suc levels) e =
     (in_usize (w_tag e) \<and> in_usize (w_ty e) \<and> span_ok (w_span e) \<and> clean (w_text e)
      \<and> in_i64 (w_index e) \<and> (\<forall>c \<in> set (w_children e). expr_ok levels c)
      \<and> (\<forall>a \<in> set (w_arms e). arm_ok (expr_ok levels) a))"

lemma print_expr_nonempty [simp]: "print_expr e \<noteq> []" "print_arm a \<noteq> []"
proof -
  show "print_expr e \<noteq> []" by (cases e) simp
  show "print_arm a \<noteq> []" by (cases a) simp
qed

lemma expr_ok_Suc: "expr_ok n e \<Longrightarrow> expr_ok (Suc n) e"
proof (induction n arbitrary: e)
  case (Suc n)
  then have "\<forall>a \<in> set (w_arms e). arm_ok (expr_ok (Suc n)) a"
    unfolding expr_ok.simps(2) arm_ok_def by blast
  with Suc show ?case
    unfolding expr_ok.simps(2) by blast
qed simp

lemma expr_ok_mono: "expr_ok n e \<Longrightarrow> n \<le> m \<Longrightarrow> expr_ok m e"
  by (induction m) (auto simp: le_Suc_eq simp del: expr_ok.simps(2) intro: expr_ok_Suc)

lemma codec_arm:
  assumes "codec item print_expr ok"
  shows "codec (rd_arm item) print_arm (arm_ok ok)"
proof
  fix a
  assume ok: "arm_ok ok a"
  show "prints (rd_arm item) (print_arm a) a"
  proof (cases a)
    case (WArm variant bindings whole body)
    then show ?thesis
      using ok unfolding WArm rd_arm_def print_arm.simps arm_ok_def warm.sel
      by (intro prints_bind [OF optional.reads_back] prints_bind [OF codec.reads_back [OF codec_list [OF codec_optional]]]
          prints_last [OF codec.reads_back [OF codec_list [OF assms]]]) auto
  qed
qed simp

lemma codec_expr: "codec (rd_expr levels) print_expr (expr_ok levels)"
proof (induction levels)
  case 0
  show ?case
    by unfold_locales simp_all
next
  case (Suc levels)
  note children = codec.reads_back [OF codec_list [OF Suc.IH]]
    and arms = codec.reads_back [OF codec_list [OF codec_arm [OF Suc.IH]]]
  show ?case
  proof
    fix e
    assume ok: "expr_ok (Suc levels) e"
    show "prints (rd_expr (Suc levels)) (print_expr e) e"
    proof (cases e)
      case (WExpr g t sp s i f cs ys)
      from ok show ?thesis
        unfolding WExpr rd_expr.simps print_expr.simps expr_ok.simps wexpr.sel
        by (intro prints_bind [OF index.reads_back] prints_bind [OF spans.reads_back]
            prints_bind [OF strings.reads_back] prints_bind [OF integer.reads_back]
            prints_bind [OF falls.reads_back] prints_bind [OF children] prints_last [OF arms]) auto
    qed
  qed simp
qed

interpretation expr: codec "rd_expr levels" print_expr "expr_ok levels" for levels
  by (rule codec_expr)

section \<open>Tables\<close>

definition print_field :: "string \<times> nat \<Rightarrow> string" where
  "print_field f = print_string (fst f) @ print_nat (snd f)"

definition print_variant :: "string \<times> nat list \<Rightarrow> string" where
  "print_variant v = print_string (fst v) @ print_list print_nat (snd v)"

definition print_data :: "wdata \<Rightarrow> string" where
  "print_data d =
     print_nat (wd_tag d) @ print_int (wd_symbol d)
     @ (if wd_tag d = 12 then print_list print_nat (wd_params d) else [])
     @ (if wd_tag d \<in> {6, 9, 12, 13} then print_nat (wd_element d) else [])
     @ (if wd_tag d = 7 \<or> wd_tag d = 14 then print_list print_field (wd_fields d) else [])
     @ (if wd_tag d = 8 then print_list print_variant (wd_variants d) else [])"

text \<open>The parts that the tag does not carry are absent.\<close>

definition data_ok :: "wdata \<Rightarrow> bool" where
  "data_ok d \<longleftrightarrow> in_usize (wd_tag d) \<and> in_i64 (wd_symbol d)
     \<and> (if wd_tag d = 12 then \<forall>t \<in> set (wd_params d). in_usize t else wd_params d = [])
     \<and> (if wd_tag d \<in> {6, 9, 12, 13} then in_usize (wd_element d) else wd_element d = 0)
     \<and> (if wd_tag d = 7 \<or> wd_tag d = 14
        then \<forall>f \<in> set (wd_fields d). clean (fst f) \<and> in_usize (snd f) else wd_fields d = [])
     \<and> (if wd_tag d = 8
        then \<forall>v \<in> set (wd_variants d). clean (fst v) \<and> (\<forall>t \<in> set (snd v). in_usize t)
        else wd_variants d = [])"

definition print_function :: "wfunction \<Rightarrow> string" where
  "print_function f =
     print_int (wf_symbol f) @ print_span (wf_span f) @ print_list print_nat (wf_params f)
     @ print_nat (wf_result f) @ print_list print_nat (wf_locals f)
     @ print_list print_expr (wf_preconditions f) @ print_expr (wf_body f)"

definition function_ok :: "wfunction \<Rightarrow> bool" where
  "function_ok f \<longleftrightarrow> in_i64 (wf_symbol f) \<and> span_ok (wf_span f)
     \<and> (\<forall>t \<in> set (wf_params f). in_usize t) \<and> in_usize (wf_result f)
     \<and> (\<forall>t \<in> set (wf_locals f). in_usize t)
     \<and> (\<forall>e \<in> set (wf_preconditions f). expr_ok 513 e) \<and> expr_ok 513 (wf_body f)"

definition print_tables :: "wire \<Rightarrow> string" where
  "print_tables w =
     print_list print_data (wr_data w) @ print_list print_function (wr_functions w)
     @ print_optional (wr_entry w) @ print_list print_nat (wr_tests w)
     @ print_list print_nat (wr_exports w)"

text \<open>Tables without optional sections.\<close>

definition tables_ok :: "wire \<Rightarrow> bool" where
  "tables_ok w \<longleftrightarrow> (\<forall>d \<in> set (wr_data w). data_ok d) \<and> (\<forall>f \<in> set (wr_functions w). function_ok f)
     \<and> optional_ok (wr_entry w) \<and> (\<forall>i \<in> set (wr_tests w). in_usize i)
     \<and> (\<forall>i \<in> set (wr_exports w). in_usize i)
     \<and> w = \<lparr>wr_data = wr_data w, wr_functions = wr_functions w, wr_entry = wr_entry w,
            wr_tests = wr_tests w, wr_exports = wr_exports w, wr_interfaces = [], wr_witnesses = [],
            wr_test_names = [], wr_target_inputs = [],
            wr_locations = \<lparr>paths = [], sites = Map.empty\<rparr>, wr_features = replicate 4 False\<rparr>"

lemma prints_if:
  "(b \<Longrightarrow> prints m s x) \<Longrightarrow> (\<not> b \<Longrightarrow> x = y) \<Longrightarrow> prints (if b then m else returnR y) (if b then s else []) x"
  using prints_return [of y] by auto

lemma codec_field:
  "codec (bindR rd_string (\<lambda>name. bindR rd_index (\<lambda>t. returnR (name, t)))) print_field
     (\<lambda>f. clean (fst f) \<and> in_usize (snd f))"
  by unfold_locales
    (auto simp: print_field_def intro!: prints_bind [OF strings.reads_back] prints_last [OF index.reads_back])

lemma codec_variant:
  "codec (bindR rd_string (\<lambda>name. bindR (rd_sequence rd_index) (\<lambda>ts. returnR (name, ts)))) print_variant
     (\<lambda>v. clean (fst v) \<and> (\<forall>t \<in> set (snd v). in_usize t))"
  by unfold_locales
    (auto simp: print_variant_def intro!: prints_bind [OF strings.reads_back]
      prints_last [OF codec.reads_back [OF codec_list [OF codec_index]]])

lemma codec_data: "codec rd_data print_data data_ok"
proof
  fix d :: wdata
  show "print_data d \<noteq> []"
    by (simp add: print_data_def)
  assume ok: "data_ok d"
  note params = codec.reads_back [OF codec_list [OF codec_index]]
    and fields = codec.reads_back [OF codec_list [OF codec_field]]
    and variants = codec.reads_back [OF codec_list [OF codec_variant]]
  show "prints rd_data (print_data d) d"
    unfolding rd_data_def print_data_def
    by (intro prints_bind [OF index.reads_back] prints_bind [OF integer.reads_back]
        prints_bind [OF prints_if [OF params]] prints_bind [OF prints_if [OF index.reads_back]]
        prints_bind [OF prints_if [OF fields]] prints_last [OF prints_if [OF variants]])
      (use ok in \<open>auto simp: data_ok_def split: if_splits\<close>)
qed

lemma codec_function: "codec rd_function print_function function_ok"
proof
  fix f :: wfunction
  show "print_function f \<noteq> []"
    by (simp add: print_function_def)
  assume ok: "function_ok f"
  note types = codec.reads_back [OF codec_list [OF codec_index]]
    and exprs = codec.reads_back [OF codec_list [OF codec_expr]]
  show "prints rd_function (print_function f) f"
    unfolding rd_function_def print_function_def rd_expression_def
    by (intro prints_bind [OF index.reads_back] prints_bind [OF integer.reads_back]
        prints_bind [OF spans.reads_back] prints_bind [OF types] prints_bind [OF exprs]
        prints_last [OF expr.reads_back])
      (use ok in \<open>auto simp: function_ok_def\<close>)
qed

lemma codec_tables: "codec rd_tables print_tables tables_ok"
proof
  fix w :: wire
  show "print_tables w \<noteq> []"
    by (simp add: print_tables_def)
  assume ok: "tables_ok w"
  note data = codec.reads_back [OF codec_list [OF codec_data]]
    and funs = codec.reads_back [OF codec_list [OF codec_function]]
    and ids = codec.reads_back [OF codec_list [OF codec_index]]
  show "prints rd_tables (print_tables w) w"
    unfolding rd_tables_def print_tables_def
    by (intro prints_bind [OF data] prints_bind [OF funs] prints_bind [OF optional.reads_back]
        prints_bind [OF ids] prints_last [OF ids])
      (use ok in \<open>simp_all add: tables_ok_def\<close>)
qed

interpretation tables: codec rd_tables print_tables tables_ok
  by (rule codec_tables)

lemma rd_wire_tables:
  assumes "tables_ok w" "in_usize (length (print_tables w))"
  shows "rd_wire \<lparr>r_text = print_tables w, r_offset = 0\<rparr> = Inr (w, cursor (print_tables w) [])"
  using tables.whole [OF assms] by (simp add: rd_wire_def bindR_def cursor_def rd_features.simps)

section \<open>The nesting that is read\<close>

text \<open>How deep an expression nests, a leaf being one level.\<close>

fun expr_depth :: "wexpr \<Rightarrow> nat" and arm_depth :: "warm \<Rightarrow> nat" where
  "expr_depth (WExpr tag t span s i falls children arms) =
     Suc (max (foldr (\<lambda>e. max (expr_depth e)) children 0) (foldr (\<lambda>a. max (arm_depth a)) arms 0))"
| "arm_depth (WArm variant bindings whole body) = foldr (\<lambda>e. max (expr_depth e)) body 0"

lemma foldr_max_le: "(\<forall>x \<in> set xs. f x \<le> n) \<Longrightarrow> foldr (\<lambda>x. max (f x)) xs 0 \<le> (n::nat)"
  by (induction xs) auto

lemma repeatR_all:
  assumes "repeatR n item r = Inr (xs, r')" and "\<And>r x r'. item r = Inr (x, r') \<Longrightarrow> P x"
  shows "\<forall>x \<in> set xs. P x"
  using assms(1) by (induction n arbitrary: r xs) (auto simp: reading_simps dest!: assms(2))

lemma rd_sequence_all:
  assumes "rd_sequence item r = Inr (xs, r')" and "\<And>r x r'. item r = Inr (x, r') \<Longrightarrow> P x"
  shows "\<forall>x \<in> set xs. P x"
  using assms(1) repeatR_all [where item = item and P = P] assms(2)
  by (fastforce simp: rd_sequence_def reading_simps split: if_splits)

lemma rd_expr_depth: "rd_expr levels r = Inr (e, r') \<Longrightarrow> expr_depth e \<le> levels"
proof (induction levels arbitrary: r e r')
  case 0
  then show ?case by (simp add: liftR_eq_Inr)
next
  case (Suc levels)
  have arm: "arm_depth a \<le> levels" if "rd_arm (rd_expr levels) r = Inr (a, r')" for a r r'
    using that rd_sequence_all [where item = "rd_expr levels" and P = "\<lambda>e. expr_depth e \<le> levels"] Suc.IH
    by (fastforce simp: rd_arm_def reading_simps intro!: foldr_max_le)
  show ?case
    using Suc.prems rd_sequence_all [where item = "rd_expr levels" and P = "\<lambda>e. expr_depth e \<le> levels", OF _ Suc.IH]
      rd_sequence_all [where item = "rd_arm (rd_expr levels)" and P = "\<lambda>a. arm_depth a \<le> levels", OF _ arm]
    by (fastforce simp: reading_simps intro!: foldr_max_le)
qed

end
