(* ===== verification/Runtime.thy ===== *)
theory Runtime
  imports Prelude "HOL-Library.Multiset"
begin

text \<open>
  Vocabulary of the runtime model (\<open>compiler/runtime/src\<close>).

  A runtime operation is a function from its state to an outcome and the state it leaves, so that a
  failure keeps whatever the operation had already changed.  \<open>Fault\<close> is a language fault (\<open>fault\<close>,
  or the \<open>Err\<close> of a task operation, which \<open>edit\<close> raises as one); \<open>Fatal\<close> ends the process
  (\<open>fatal\<close>); \<open>Interrupted\<close> is a cancelled worker (\<open>cleanup::cancel\<close>); \<open>Panic\<close> is a failed \<open>unwrap\<close>, \<open>expect\<close>, \<open>assert!\<close> or index.
  \<open>Spinning\<close> is no outcome of the code: it marks a loop of the model that used up its rounds.

  The locale \<open>one_shot\<close> is the contract that every table of the runtime makes about its
  identities: what was issued and has died is never resolved again.
\<close>

named_theorems exec_simps \<open>evaluation of runtime operations\<close>

section \<open>Operations\<close>

datatype stop =
    Fault string
  | Fatal string
  | Interrupted
  | Panic
  | Spinning

type_synonym ('s, 'a) exec = "'s \<Rightarrow> (stop + 'a) \<times> 's"

definition retX :: "'a \<Rightarrow> ('s, 'a) exec" where
  "retX x = (\<lambda>s. (Inr x, s))"

definition stopX :: "stop \<Rightarrow> ('s, 'a) exec" where
  "stopX e = (\<lambda>s. (Inl e, s))"

definition bindX :: "('s, 'a) exec \<Rightarrow> ('a \<Rightarrow> ('s, 'b) exec) \<Rightarrow> ('s, 'b) exec" where
  "bindX m f = (\<lambda>s. case m s of (Inl e, s') \<Rightarrow> (Inl e, s') | (Inr x, s') \<Rightarrow> f x s')"

definition getX :: "('s \<Rightarrow> 'a) \<Rightarrow> ('s, 'a) exec" where
  "getX f = (\<lambda>s. (Inr (f s), s))"

definition modifyX :: "('s \<Rightarrow> 's) \<Rightarrow> ('s, unit) exec" where
  "modifyX f = (\<lambda>s. (Inr (), f s))"

text \<open>\<open>if !condition { stop }\<close>, and an \<open>Option\<close> that stops when it is \<open>None\<close>.\<close>

definition guardX :: "bool \<Rightarrow> stop \<Rightarrow> ('s, unit) exec" where
  "guardX b e = (if b then retX () else stopX e)"

definition someX :: "'a option \<Rightarrow> stop \<Rightarrow> ('s, 'a) exec" where
  "someX m e = (case m of None \<Rightarrow> stopX e | Some x \<Rightarrow> retX x)"

lemma exec_apply [simp, exec_simps]:
  "retX x s = (Inr x, s)"
  "stopX e s = (Inl e, s)"
  "getX f s = (Inr (f s), s)"
  "modifyX g s = (Inr (), g s)"
  by (simp_all add: retX_def stopX_def getX_def modifyX_def)

lemma bindX_apply [exec_simps]:
  "m s = (Inl e, s') \<Longrightarrow> bindX m f s = (Inl e, s')"
  "m s = (Inr x, s') \<Longrightarrow> bindX m f s = f x s'"
  by (simp_all add: bindX_def)

lemma guardX_apply [simp, exec_simps]: "guardX b e s = (if b then (Inr (), s) else (Inl e, s))"
  by (simp add: guardX_def)

lemma someX_apply [simp, exec_simps]:
  "someX m e s = (case m of None \<Rightarrow> (Inl e, s) | Some x \<Rightarrow> (Inr x, s))"
  by (simp add: someX_def split: option.split)

lemma bindX_assoc: "bindX (bindX m f) g = bindX m (\<lambda>x. bindX (f x) g)"
  by (auto simp: bindX_def fun_eq_iff split: prod.split sum.split)

lemma bindX_eq_Inr: "bindX m f s = (Inr y, t) \<longleftrightarrow> (\<exists>x u. m s = (Inr x, u) \<and> f x u = (Inr y, t))"
  by (auto simp: bindX_def split: prod.split sum.split)

lemma bindX_eq_Inl:
  "bindX m f s = (Inl e, t) \<longleftrightarrow> m s = (Inl e, t) \<or> (\<exists>x u. m s = (Inr x, u) \<and> f x u = (Inl e, t))"
  by (auto simp: bindX_def split: prod.split sum.split)

lemma bindX_cong [fundef_cong]:
  "m s = m' s \<Longrightarrow> s = s' \<Longrightarrow> (\<And>x u. m' s' = (Inr x, u) \<Longrightarrow> f x u = g x u) \<Longrightarrow> bindX m f s = bindX m' g s'"
  by (auto simp: bindX_def split: prod.split sum.split)

text \<open>An operation on a part of the state.\<close>

definition zoomX :: "('s \<Rightarrow> 't) \<Rightarrow> ('t \<Rightarrow> 's \<Rightarrow> 's) \<Rightarrow> ('t, 'a) exec \<Rightarrow> ('s, 'a) exec" where
  "zoomX get put m = (\<lambda>s. case m (get s) of (r, t) \<Rightarrow> (r, put t s))"

section \<open>What operations keep\<close>

text \<open>From every state in \<open>P\<close>, the operation succeeds into \<open>Q\<close> or stops into \<open>E\<close>.\<close>

definition hoare :: "('s \<Rightarrow> bool) \<Rightarrow> ('s, 'a) exec \<Rightarrow> ('a \<Rightarrow> 's \<Rightarrow> bool) \<Rightarrow> (stop \<Rightarrow> 's \<Rightarrow> bool) \<Rightarrow> bool" where
  "hoare P m Q E \<longleftrightarrow> (\<forall>s. P s \<longrightarrow> (case m s of (Inl e, t) \<Rightarrow> E e t | (Inr x, t) \<Rightarrow> Q x t))"

lemma hoareI:
  assumes "\<And>s x t. P s \<Longrightarrow> m s = (Inr x, t) \<Longrightarrow> Q x t" and "\<And>s e t. P s \<Longrightarrow> m s = (Inl e, t) \<Longrightarrow> E e t"
  shows "hoare P m Q E"
  using assms by (auto simp: hoare_def split: prod.split sum.split)

lemma hoareD_ok: "hoare P m Q E \<Longrightarrow> P s \<Longrightarrow> m s = (Inr x, t) \<Longrightarrow> Q x t"
  by (fastforce simp: hoare_def)

lemma hoareD_stop: "hoare P m Q E \<Longrightarrow> P s \<Longrightarrow> m s = (Inl e, t) \<Longrightarrow> E e t"
  by (fastforce simp: hoare_def)

lemma hoare_bind:
  assumes "hoare P m R E" and "\<And>x. hoare (R x) (f x) Q E"
  shows "hoare P (bindX m f) Q E"
  using assms by (fastforce simp: hoare_def bindX_def split: prod.split sum.split)

lemma hoare_ret: "(\<And>s. P s \<Longrightarrow> Q x s) \<Longrightarrow> hoare P (retX x) Q E"
  by (simp add: hoare_def)

lemma hoare_stop: "(\<And>s. P s \<Longrightarrow> E e s) \<Longrightarrow> hoare P (stopX e) Q E"
  by (simp add: hoare_def)

lemma hoare_get: "(\<And>s. P s \<Longrightarrow> Q (f s) s) \<Longrightarrow> hoare P (getX f) Q E"
  by (simp add: hoare_def)

lemma hoare_modify: "(\<And>s. P s \<Longrightarrow> Q () (f s)) \<Longrightarrow> hoare P (modifyX f) Q E"
  by (simp add: hoare_def)

lemma hoare_guard:
  "(\<And>s. P s \<Longrightarrow> b \<Longrightarrow> Q () s) \<Longrightarrow> (\<And>s. P s \<Longrightarrow> \<not> b \<Longrightarrow> E e s) \<Longrightarrow> hoare P (guardX b e) Q E"
  by (simp add: hoare_def)

lemma hoare_weaken:
  "hoare P m Q E \<Longrightarrow> (\<And>s. P' s \<Longrightarrow> P s) \<Longrightarrow> (\<And>x s. Q x s \<Longrightarrow> Q' x s) \<Longrightarrow> (\<And>e s. E e s \<Longrightarrow> E' e s)
    \<Longrightarrow> hoare P' m Q' E'"
  by (fastforce simp: hoare_def split: prod.splits sum.splits)

section \<open>Machine integers and vectors\<close>

text \<open>\<open>checked_add\<close> on \<open>u64\<close>; \<open>usize\<close> has the same width on the targets of the runtime.\<close>

definition checked_add :: "nat \<Rightarrow> nat \<Rightarrow> nat option" where
  "checked_add a b = (if int a + int b < 2 ^ 64 then Some (a + b) else None)"

lemma checked_add_Some [simp]: "checked_add a b = Some c \<longleftrightarrow> int a + int b < 2 ^ 64 \<and> c = a + b"
  by (auto simp: checked_add_def)

text \<open>\<open>slice.get\<close>.\<close>

definition get :: "'a list \<Rightarrow> nat \<Rightarrow> 'a option" where
  "get xs i = (if i < length xs then Some (xs ! i) else None)"

lemma get_simps [simp]:
  "i < length xs \<Longrightarrow> get xs i = Some (xs ! i)"
  "\<not> i < length xs \<Longrightarrow> get xs i = None"
  "get xs i = Some x \<longleftrightarrow> i < length xs \<and> x = xs ! i"
  by (auto simp: get_def)

lemma update_nth: "xs[i := x] ! j = (if i = j \<and> j < length xs then x else xs ! j)"
  by (cases "i < length xs") (auto simp: nth_list_update list_update_beyond)

text \<open>\<open>Vec::last\<close>, \<open>Vec::pop\<close> and \<open>Vec::swap_remove\<close>.\<close>

definition last_of :: "'a list \<Rightarrow> 'a option" where
  "last_of xs = (if xs = [] then None else Some (last xs))"

definition swap_remove :: "'a list \<Rightarrow> nat \<Rightarrow> 'a list" where
  "swap_remove xs i = butlast (xs[i := last xs])"

lemma swap_remove_length [simp]: "length (swap_remove xs i) = length xs - 1"
  by (simp add: swap_remove_def)

lemma swap_remove_nth:
  assumes "i < length xs" "j < length xs - 1"
  shows "swap_remove xs i ! j = (if j = i then last xs else xs ! j)"
  using assms by (simp add: swap_remove_def nth_butlast)

lemma swap_remove_perm:
  assumes "i < length xs"
  shows "add_mset (xs ! i) (mset (swap_remove xs i)) = mset xs"
proof -
  have nonempty: "xs \<noteq> []" "xs[i := last xs] \<noteq> []" using assms by auto
  have "last (xs[i := last xs]) = last xs"
    using assms nonempty by (simp add: last_list_update)
  then have "xs[i := last xs] = swap_remove xs i @ [last xs]"
    using append_butlast_last_id [OF nonempty(2)] by (simp add: swap_remove_def)
  then have "mset (swap_remove xs i @ [last xs]) = add_mset (last xs) (mset xs - {#xs ! i#})"
    using mset_update [OF assms, of "last xs"] by simp
  then have "mset (swap_remove xs i) = mset xs - {#xs ! i#}"
    by simp
  moreover have "xs ! i \<in># mset xs" using assms by simp
  ultimately show ?thesis by simp
qed

lemma swap_remove_distinct:
  assumes "distinct xs" "i < length xs" shows "distinct (xs ! i # swap_remove xs i)"
  using assms swap_remove_perm [OF assms(2)] mset_eq_imp_distinct_iff [of "xs ! i # swap_remove xs i" xs] by simp

lemma swap_remove_set:
  assumes "distinct xs" "i < length xs" shows "set (swap_remove xs i) = set xs - {xs ! i}"
  using swap_remove_distinct [OF assms] swap_remove_perm [OF assms(2)]
    mset_eq_setD [of "xs ! i # swap_remove xs i" xs] by auto

section \<open>Identities\<close>

locale one_shot =
  fixes inv :: "'s \<Rightarrow> bool" and live :: "'s \<Rightarrow> 'i \<Rightarrow> bool" and issued :: "'s \<Rightarrow> 'i \<Rightarrow> bool"
    and step :: "'s \<Rightarrow> 's \<Rightarrow> bool"
  assumes inv_step: "step s t \<Longrightarrow> inv s \<Longrightarrow> inv t"
    and live_issued: "inv s \<Longrightarrow> live s i \<Longrightarrow> issued s i"
    and issued_step: "step s t \<Longrightarrow> inv s \<Longrightarrow> issued s i \<Longrightarrow> issued t i"
    and fresh_step: "step s t \<Longrightarrow> inv s \<Longrightarrow> live t i \<Longrightarrow> live s i \<or> \<not> issued s i"
begin

lemma inv_run: "step\<^sup>*\<^sup>* s t \<Longrightarrow> inv s \<Longrightarrow> inv t"
  by (induction rule: rtranclp_induct) (auto intro: inv_step)

lemma issued_run: "step\<^sup>*\<^sup>* s t \<Longrightarrow> inv s \<Longrightarrow> issued s i \<Longrightarrow> issued t i"
  by (induction rule: rtranclp_induct) (auto intro: issued_step inv_run)

text \<open>A dead identity is never resolved again.\<close>

lemma stale_run:
  assumes "step\<^sup>*\<^sup>* s t" and "inv s" and "issued s i" and "\<not> live s i"
  shows "\<not> live t i"
  using assms
proof (induction rule: rtranclp_induct)
  case (step u v)
  then show ?case
    using fresh_step [of u v i] inv_run [of s u] issued_run [of s u i] by blast
qed

text \<open>An identity that becomes live was never issued before.\<close>

lemma new_run:
  assumes "step\<^sup>*\<^sup>* s t" and "inv s" and "live t i" and "\<not> live s i"
  shows "\<not> issued s i"
  using assms stale_run by blast

end

end
