(* ===== verification/Guards.thy ===== *)
theory Guards
  imports Runtime
begin

text \<open>
  Locks of the runtime: source mutex guards (\<open>compiler/runtime/src/mutex.rs\<close>), the storage access
  guards of shared objects (\<open>shared_access.rs\<close>) and the cooperative interruption of a worker that
  acquires them (\<open>worker_control.rs\<close>).  A blocked acquisition is tested again after any other
  step, so the condition variable and the \<open>waiting\<close> slot that wakes it are not part of the state.  An \<open>Access\<close> is a number; the set of held ones is the
  \<open>held\<close> flag of each.  Threads interleave between the steps below: taking a token and
  acquiring are two steps, and a step that has to wait is the value \<open>None\<close>, retried later.
\<close>

section \<open>State\<close>

record thread =
  th_control :: "bool option"      \<comment> \<open>\<open>CURRENT\<close>: the control's \<open>requested\<close> flag\<close>
  th_masked :: bool                \<comment> \<open>\<open>MASKED\<close>\<close>
  th_pending :: "(int \<times> nat) option"  \<comment> \<open>a lock call between its token and its acquisition\<close>
  th_guards :: "(int \<times> nat) list" \<comment> \<open>\<open>GUARDS\<close>\<close>
  th_held :: "nat list"            \<comment> \<open>\<open>HELD\<close>\<close>

record locks =
  lk_next :: int                   \<comment> \<open>\<open>NEXT\<close>, an \<open>i64\<close>\<close>
  lk_objects :: "nat list"         \<comment> \<open>the allocation bases of the heap\<close>
  lk_mutexes :: "(nat \<times> nat) list" \<comment> \<open>\<open>heap.mutexes\<close>\<close>
  lk_access :: "(nat \<times> nat) list"  \<comment> \<open>\<open>heap.access\<close>\<close>
  lk_created :: nat                \<comment> \<open>the number of \<open>Access\<close> values so far\<close>
  lk_taken :: "nat set"            \<comment> \<open>the accesses whose \<open>held\<close> is true\<close>
  lk_threads :: "nat \<Rightarrow> thread"

definition idle_thread :: thread where
  "idle_thread = \<lparr>th_control = None, th_masked = False, th_pending = None,
     th_guards = [], th_held = []\<rparr>"

definition no_locks :: locks where
  "no_locks = \<lparr>lk_next = 1, lk_objects = [], lk_mutexes = [], lk_access = [], lk_created = 0,
     lk_taken = {}, lk_threads = (\<lambda>_. idle_thread)\<rparr>"

definition set_thread :: "nat \<Rightarrow> (thread \<Rightarrow> thread) \<Rightarrow> locks \<Rightarrow> locks" where
  "set_thread t f s = s\<lparr>lk_threads := (lk_threads s)(t := f (lk_threads s t))\<rparr>"

section \<open>Interruption\<close>

text \<open>\<open>current\<close>: a thread sees its control only while it is not masked.\<close>

definition control_of :: "thread \<Rightarrow> bool option" where
  "control_of th = (if th_masked th then None else th_control th)"

definition requested :: "thread \<Rightarrow> bool" where
  "requested th \<longleftrightarrow> control_of th = Some True"

text \<open>\<open>checkpoint\<close>.\<close>

definition checkpoint :: "nat \<Rightarrow> (locks, unit) exec" where
  "checkpoint t s = guardX (\<not> requested (lk_threads s t)) Interrupted s"

text \<open>
  \<open>Control::run\<close> installs a control, once (\<open>started\<close> says that it ran before) and unnested;
  \<open>Control::cancel\<close> requests.
\<close>

definition control_enter :: "nat \<Rightarrow> bool \<Rightarrow> bool \<Rightarrow> (locks, unit) exec" where
  "control_enter t started asked s =
     (if started \<or> th_control (lk_threads s t) \<noteq> None
      then (Inl (Fatal ''worker control requires one unnested activation''), s)
      else checkpoint t (set_thread t (\<lambda>th. th\<lparr>th_control := Some asked\<rparr>) s))"

definition control_leave :: "nat \<Rightarrow> locks \<Rightarrow> locks" where
  "control_leave t = set_thread t (\<lambda>th. th\<lparr>th_control := None\<rparr>)"

definition control_cancel :: "nat \<Rightarrow> locks \<Rightarrow> locks" where
  "control_cancel t = set_thread t (\<lambda>th. th\<lparr>th_control := map_option (\<lambda>_. True) (th_control th)\<rparr>)"

section \<open>Acquisition\<close>

text \<open>\<open>try_acquire\<close>.\<close>

definition try_acquire :: "nat \<Rightarrow> locks \<Rightarrow> bool \<times> locks" where
  "try_acquire a s = (if a \<in> lk_taken s then (False, s) else (True, s\<lparr>lk_taken := insert a (lk_taken s)\<rparr>))"

text \<open>\<open>Access::acquire\<close>: one test of its predicate; \<open>None\<close> is a wait.\<close>

definition acquire :: "nat \<Rightarrow> locks \<Rightarrow> locks option" where
  "acquire a s = (case try_acquire a s of (True, s') \<Rightarrow> Some s' | (False, _) \<Rightarrow> None)"

text \<open>\<open>worker_control::acquire\<close> with \<open>acquire_cancellable\<close>: a request wins over a free lock.\<close>

definition control_acquire :: "nat \<Rightarrow> nat \<Rightarrow> locks \<Rightarrow> (bool \<times> locks) option" where
  "control_acquire t a s =
     (case control_of (lk_threads s t) of
        None \<Rightarrow> map_option (Pair True) (acquire a s)
      | Some True \<Rightarrow> Some (False, s)
      | Some False \<Rightarrow> map_option (Pair True) (acquire a s))"

text \<open>\<open>Access::release\<close>.\<close>

definition release :: "nat \<Rightarrow> locks \<Rightarrow> locks" where
  "release a s = s\<lparr>lk_taken := lk_taken s - {a}\<rparr>"

text \<open>\<open>locks.entry(key).or_default()\<close>.\<close>

definition entry :: "(nat \<times> nat) list \<Rightarrow> nat \<Rightarrow> nat \<Rightarrow> nat \<times> (nat \<times> nat) list \<times> nat" where
  "entry table key created =
     (case map_of table key of
        Some a \<Rightarrow> (a, table, created)
      | None \<Rightarrow> (created, (key, created) # table, created + 1))"

text \<open>\<open>relocate\<close>: the entries of objects that moved follow them, the others are dropped.
  \<open>forwarded\<close> is the heap's forwarding of the previous objects.\<close>

definition relocate :: "(nat \<Rightarrow> nat option) \<Rightarrow> (nat \<times> nat) list \<Rightarrow> (nat \<times> nat) list" where
  "relocate forwarded table =
     concat (map (\<lambda>(address, a). case forwarded address of None \<Rightarrow> [] | Some moved \<Rightarrow> [(moved, a)]) table)"

section \<open>Mutex guards\<close>

definition watermark :: "locks \<Rightarrow> int" where
  "watermark s = lk_next s"

definition acquired_since :: "nat \<Rightarrow> int \<Rightarrow> locks \<Rightarrow> bool" where
  "acquired_since t mark s = list_ex (\<lambda>(token, _). mark \<le> token) (th_guards (lk_threads s t))"

text \<open>\<open>loom_rt_mutex_lock\<close> up to its acquisition.\<close>

definition mutex_begin :: "nat \<Rightarrow> nat \<Rightarrow> (locks, int) exec" where
  "mutex_begin t key =
     bindX (checkpoint t) (\<lambda>_ s.
       if key \<notin> set (lk_objects s) then (Inl (Fatal ''mutex requires a managed identity''), s)
       else (case entry (lk_mutexes s) key (lk_created s) of (a, table, created) \<Rightarrow>
         let s = s\<lparr>lk_mutexes := table, lk_created := created\<rparr> in
         if list_ex (\<lambda>(_, h). h = a) (th_guards (lk_threads s t))
         then (Inl (Fault ''mutex already locked by this thread''), s)
         else if lk_next s + 1 \<ge> 2 ^ 63
         then (Inl (Fatal ''mutex guard identities exhausted''), s)
         else (Inr (lk_next s),
               set_thread t (\<lambda>th. th\<lparr>th_pending := Some (lk_next s, a)\<rparr>) (s\<lparr>lk_next := lk_next s + 1\<rparr>))))"

text \<open>The acquisition of a call that has its token.\<close>

definition mutex_acquire :: "nat \<Rightarrow> locks \<Rightarrow> ((stop + int) \<times> locks) option" where
  "mutex_acquire t s =
     (case th_pending (lk_threads s t) of
        None \<Rightarrow> None
      | Some (token, a) \<Rightarrow>
          (case control_acquire t a s of
             None \<Rightarrow> None
           | Some (False, s) \<Rightarrow> Some (Inl Interrupted, set_thread t (\<lambda>th. th\<lparr>th_pending := None\<rparr>) s)
           | Some (True, s) \<Rightarrow> Some (Inr token, set_thread t (\<lambda>th.
               th\<lparr>th_pending := None, th_guards := th_guards th @ [(token, a)]\<rparr>) s)))"

fun position_of :: "int \<Rightarrow> (int \<times> nat) list \<Rightarrow> nat option" where
  "position_of token [] = None"
| "position_of token (g # gs) = (if fst g = token then Some 0 else map_option Suc (position_of token gs))"

text \<open>\<open>loom_rt_mutex_unlock\<close>.\<close>

definition mutex_unlock :: "nat \<Rightarrow> int \<Rightarrow> locks \<Rightarrow> bool \<times> locks" where
  "mutex_unlock t token s =
     (case position_of token (th_guards (lk_threads s t)) of
        None \<Rightarrow> (False, s)
      | Some i \<Rightarrow>
          (True, release (snd (th_guards (lk_threads s t) ! i))
             (set_thread t (\<lambda>th. th\<lparr>th_guards := swap_remove (th_guards th) i\<rparr>) s)))"

section \<open>Storage access\<close>

text \<open>\<open>loom_rt_shared_access_begin\<close>, for a heap that is shared: reentrant per thread.\<close>

definition hold :: "nat \<Rightarrow> nat \<Rightarrow> locks \<Rightarrow> locks option" where
  "hold t a s =
     map_option (set_thread t (\<lambda>th. th\<lparr>th_held := a # th_held th\<rparr>))
       (if a \<in> set (th_held (lk_threads s t)) then Some s else acquire a s)"

definition access_begin :: "nat \<Rightarrow> nat \<Rightarrow> locks \<Rightarrow> ((stop + unit) \<times> locks) option" where
  "access_begin t target s =
     (if target \<notin> set (lk_objects s)
      then Some (Inl (Fatal ''storage access requires a managed allocation base''), s)
      else (case entry (lk_access s) target (lk_created s) of (a, table, created) \<Rightarrow>
        map_option (Pair (Inr ())) (hold t a (s\<lparr>lk_access := table, lk_created := created\<rparr>))))"

text \<open>\<open>loom_rt_shared_access_end\<close> gives the access back with its last hold.\<close>

definition access_end :: "nat \<Rightarrow> (locks, unit) exec" where
  "access_end t s =
     (case th_held (lk_threads s t) of
        [] \<Rightarrow> (Inl (Fatal ''unbalanced storage access''), s)
      | a # rest \<Rightarrow>
          let s = set_thread t (\<lambda>th. th\<lparr>th_held := rest\<rparr>) s in
          (Inr (), if a \<in> set rest then s else release a s))"

text \<open>\<open>release_all\<close>.\<close>

fun ends :: "nat \<Rightarrow> nat \<Rightarrow> locks \<Rightarrow> locks" where
  "ends t 0 s = s"
| "ends t (Suc n) s = ends t n (snd (access_end t s))"

definition release_all :: "nat \<Rightarrow> locks \<Rightarrow> locks" where
  "release_all t s = ends t (length (th_held (lk_threads s t))) s"

section \<open>Interleavings\<close>

inductive lock_step :: "locks \<Rightarrow> locks \<Rightarrow> bool" where
  enter: "control_enter t started asked s = (r, s') \<Longrightarrow> lock_step s s'"
| leave: "lock_step s (control_leave t s)"
| cancel: "lock_step s (control_cancel t s)"
| mask: "lock_step s (set_thread t (\<lambda>th. th\<lparr>th_masked := b\<rparr>) s)"
| begin_lock: "mutex_begin t key s = (r, s') \<Longrightarrow> th_pending (lk_threads s t) = None \<Longrightarrow> lock_step s s'"
| acquire_lock: "mutex_acquire t s = Some (r, s') \<Longrightarrow> lock_step s s'"
| unlock: "mutex_unlock t token s = (b, s') \<Longrightarrow> lock_step s s'"
| begin_access: "access_begin t target s = Some (r, s') \<Longrightarrow> lock_step s s'"
| end_access: "access_end t s = (r, s') \<Longrightarrow> lock_step s s'"
| collect: "lock_step s (s\<lparr>lk_objects := objects, lk_mutexes := relocate forwarded (lk_mutexes s),
    lk_access := relocate forwarded (lk_access s)\<rparr>)"

inductive_cases lock_stepE: "lock_step s s'"

section \<open>The invariant\<close>

definition guarded :: "thread \<Rightarrow> nat set" where
  "guarded th = snd ` set (th_guards th)"

definition owned :: "thread \<Rightarrow> nat set" where
  "owned th = guarded th \<union> set (th_held th)"

definition tokens :: "thread \<Rightarrow> int set" where
  "tokens th = fst ` set (th_guards th) \<union> fst ` set_option (th_pending th)"

definition thread_ok :: "thread \<Rightarrow> bool" where
  "thread_ok th \<longleftrightarrow> distinct (map snd (th_guards th)) \<and> distinct (map fst (th_guards th))
     \<and> guarded th \<inter> set (th_held th) = {}
     \<and> (\<forall>token a. th_pending th = Some (token, a) \<longrightarrow> token \<notin> fst ` set (th_guards th))"

definition locks_ok :: "locks \<Rightarrow> bool" where
  "locks_ok s \<longleftrightarrow>
     (\<forall>t. thread_ok (lk_threads s t))
     \<and> (\<forall>t u. t \<noteq> u \<longrightarrow> owned (lk_threads s t) \<inter> owned (lk_threads s u) = {}
         \<and> tokens (lk_threads s t) \<inter> tokens (lk_threads s u) = {})
     \<and> lk_taken s = (\<Union>t. owned (lk_threads s t))
     \<and> (\<forall>t. tokens (lk_threads s t) \<subseteq> {1..<lk_next s}) \<and> 1 \<le> lk_next s"

lemma no_locks_ok: "locks_ok no_locks"
  by (simp add: locks_ok_def no_locks_def idle_thread_def thread_ok_def owned_def guarded_def tokens_def)

text \<open>A step that changes one thread.\<close>

lemma locks_ok_thread:
  assumes ok: "locks_ok s" and th: "thread_ok th"
    and owned: "\<And>u. u \<noteq> t \<Longrightarrow> owned th \<inter> owned (lk_threads s u) = {}"
    and tokens: "\<And>u. u \<noteq> t \<Longrightarrow> tokens th \<inter> tokens (lk_threads s u) = {}"
    and taken: "lk_taken s' = (lk_taken s - owned (lk_threads s t)) \<union> owned th"
    and threads: "lk_threads s' = (lk_threads s)(t := th)"
    and bound: "tokens th \<subseteq> {1..<lk_next s'}" "lk_next s \<le> lk_next s'"
  shows "locks_ok s'"
proof -
  have taken': "lk_taken s' = (\<Union>u. owned (lk_threads s' u))"
    using ok unfolding locks_ok_def taken threads by (auto split: if_splits) blast+
  show ?thesis
    using ok th owned tokens bound unfolding locks_ok_def taken' threads
    by (auto simp: subset_iff) fastforce+
qed

lemma locks_ok_fields:
  "locks_ok s \<Longrightarrow> lk_taken s' = lk_taken s \<Longrightarrow> lk_threads s' = lk_threads s \<Longrightarrow> lk_next s' = lk_next s
    \<Longrightarrow> locks_ok s'"
  by (simp add: locks_ok_def)

lemma locks_okD:
  assumes "locks_ok s"
  shows "thread_ok (lk_threads s t)" and "tokens (lk_threads s t) \<subseteq> {1..<lk_next s}"
    and "t \<noteq> u \<Longrightarrow> owned (lk_threads s t) \<inter> owned (lk_threads s u) = {}"
    and "t \<noteq> u \<Longrightarrow> tokens (lk_threads s t) \<inter> tokens (lk_threads s u) = {}"
    and "owned (lk_threads s t) \<subseteq> lk_taken s" and "1 \<le> lk_next s"
    and "a \<in> lk_taken s \<Longrightarrow> \<exists>u. a \<in> owned (lk_threads s u)"
proof -
  note parts = assms [unfolded locks_ok_def]
  show "thread_ok (lk_threads s t)" and "tokens (lk_threads s t) \<subseteq> {1..<lk_next s}" and "1 \<le> lk_next s"
    using parts by simp_all
  show "owned (lk_threads s t) \<inter> owned (lk_threads s u) = {}"
    and "tokens (lk_threads s t) \<inter> tokens (lk_threads s u) = {}" if "t \<noteq> u"
    using parts that by simp_all
  show "owned (lk_threads s t) \<subseteq> lk_taken s"
    using parts by auto
  show "\<exists>u. a \<in> owned (lk_threads s u)" if "a \<in> lk_taken s"
    using parts that by auto
qed

text \<open>A thread that keeps its locks, its tokens and those of a call under way.\<close>

lemma locks_ok_quiet:
  assumes "locks_ok s" and "\<And>th. th_guards (f th) = th_guards th" "\<And>th. th_held (f th) = th_held th"
    and "\<And>th. th_pending (f th) = th_pending th \<or> th_pending (f th) = None"
  shows "locks_ok (set_thread t f s)"
proof (rule locks_ok_thread [OF assms(1)])
  let ?th = "lk_threads s t"
  have owned: "owned (f ?th) = owned ?th"
    by (simp add: owned_def guarded_def assms)
  have tokens: "tokens (f ?th) \<subseteq> tokens ?th"
    using assms(2,4) [of ?th] by (auto simp: tokens_def)
  show "thread_ok (f ?th)"
    using locks_okD(1) [OF assms(1), of t] assms(2-4) [of ?th] unfolding thread_ok_def guarded_def by force
  show "owned (f ?th) \<inter> owned (lk_threads s u) = {}" if "u \<noteq> t" for u
    using locks_okD(3) [OF assms(1)] that owned by metis
  show "tokens (f ?th) \<inter> tokens (lk_threads s u) = {}" if "u \<noteq> t" for u
    using locks_okD(4) [OF assms(1), of t u] that tokens by blast
  show "lk_taken (set_thread t f s) = lk_taken s - owned ?th \<union> owned (f ?th)"
    using locks_okD(5) [OF assms(1), of t] by (auto simp: set_thread_def owned)
  show "tokens (f ?th) \<subseteq> {1..<lk_next (set_thread t f s)}"
    using locks_okD(2) [OF assms(1), of t] tokens by (auto simp: set_thread_def)
qed (simp_all add: set_thread_def)

lemma acquire_Some: "acquire a s = Some s' \<longleftrightarrow> a \<notin> lk_taken s \<and> s' = s\<lparr>lk_taken := insert a (lk_taken s)\<rparr>"
  by (auto simp: acquire_def try_acquire_def)

lemma control_acquire_Some:
  "control_acquire t a s = Some (b, s') \<longleftrightarrow>
     (if b then \<not> requested (lk_threads s t) \<and> acquire a s = Some s'
      else requested (lk_threads s t) \<and> s' = s)"
  by (cases b) (auto simp: control_acquire_def requested_def split: option.splits bool.splits)

lemma mutex_begin_ok:
  assumes ok: "locks_ok s" and run: "mutex_begin t key s = (r, s')" and idle: "th_pending (lk_threads s t) = None"
  shows "locks_ok s'"
proof -
  obtain a table created where e: "entry (lk_mutexes s) key (lk_created s) = (a, table, created)"
    by (cases "entry (lk_mutexes s) key (lk_created s)")
  let ?s = "s\<lparr>lk_mutexes := table, lk_created := created\<rparr>"
  let ?f = "\<lambda>th. th\<lparr>th_pending := Some (lk_next s, a)\<rparr>"
  have same: "locks_ok ?s"
    by (rule locks_ok_fields [OF ok]) simp_all
  have "s' = s \<or> s' = ?s \<or> s' = set_thread t ?f (?s\<lparr>lk_next := lk_next s + 1\<rparr>)"
    using run unfolding mutex_begin_def bindX_def checkpoint_def
    by (auto simp: e Let_def split: if_splits)
  moreover have "locks_ok (set_thread t ?f (?s\<lparr>lk_next := lk_next s + 1\<rparr>))"
  proof (rule locks_ok_thread [OF ok, where t = t])
    let ?th = "lk_threads s t"
    have fresh: "lk_next s \<notin> tokens (lk_threads s u)" for u
      using locks_okD(2) [OF ok, of u] by auto
    show "thread_ok (?f ?th)"
      using locks_okD(1) [OF ok, of t] fresh [of t] by (auto simp: thread_ok_def guarded_def tokens_def)
    show "owned (?f ?th) \<inter> owned (lk_threads s u) = {}" if "u \<noteq> t" for u
      using locks_okD(3) [OF ok, of t u] that by (simp add: owned_def guarded_def)
    show "tokens (?f ?th) \<inter> tokens (lk_threads s u) = {}" if "u \<noteq> t" for u
      using locks_okD(4) [OF ok, of t u] that fresh [of u] by (auto simp: tokens_def)
    show "lk_taken (set_thread t ?f (?s\<lparr>lk_next := lk_next s + 1\<rparr>)) = lk_taken s - owned ?th \<union> owned (?f ?th)"
      using locks_okD(5) [OF ok, of t] by (auto simp: set_thread_def owned_def guarded_def)
    show "tokens (?f ?th) \<subseteq> {1..<lk_next (set_thread t ?f (?s\<lparr>lk_next := lk_next s + 1\<rparr>))}"
      using locks_okD(2) [OF ok, of t] locks_okD(6) [OF ok] by (auto simp: set_thread_def tokens_def)
  qed (simp_all add: set_thread_def)
  ultimately show ?thesis
    using ok same by auto
qed

lemma mutex_acquire_ok:
  assumes ok: "locks_ok s" and run: "mutex_acquire t s = Some (r, s')"
  shows "locks_ok s'"
proof -
  obtain token a where pending: "th_pending (lk_threads s t) = Some (token, a)"
    using run by (auto simp: mutex_acquire_def split: option.splits)
  obtain b u where acquired: "control_acquire t a s = Some (b, u)"
    using run by (auto simp: mutex_acquire_def pending split: option.splits)
  show ?thesis
  proof (cases b)
    case False
    then have "u = s"
      using acquired by (simp add: control_acquire_Some)
    then have "s' = set_thread t (\<lambda>th. th\<lparr>th_pending := None\<rparr>) s"
      using run acquired False by (simp add: mutex_acquire_def pending)
    then show ?thesis
      using locks_ok_quiet [OF ok] by simp
  next
    case True
    let ?f = "\<lambda>th. th\<lparr>th_pending := None, th_guards := th_guards th @ [(token, a)]\<rparr>"
    let ?th = "lk_threads s t"
    have free: "a \<notin> lk_taken s" and u: "u = s\<lparr>lk_taken := insert a (lk_taken s)\<rparr>"
      using True acquired by (simp_all add: control_acquire_Some acquire_Some)
    have s': "s' = set_thread t ?f (s\<lparr>lk_taken := insert a (lk_taken s)\<rparr>)"
      using run acquired True by (simp add: mutex_acquire_def pending u)
    have other: "a \<notin> owned (lk_threads s u)" for u
      using locks_okD(5) [OF ok, of u] free by blast
    have owned: "owned (?f ?th) = insert a (owned ?th)"
      by (auto simp: owned_def guarded_def)
    have tokens: "tokens (?f ?th) = tokens ?th"
      by (auto simp: tokens_def pending)
    show ?thesis
      unfolding s'
    proof (rule locks_ok_thread [OF ok, where t = t and th = "?f ?th"])
      show "thread_ok (?f ?th)"
        using locks_okD(1) [OF ok, of t] other [of t] pending
        by (auto simp: thread_ok_def guarded_def owned_def image_iff)
      show "owned (?f ?th) \<inter> owned (lk_threads s u) = {}" if "u \<noteq> t" for u
        using locks_okD(3) [OF ok, of t u] other [of u] that by (simp add: owned)
      show "tokens (?f ?th) \<inter> tokens (lk_threads s u) = {}" if "u \<noteq> t" for u
        using locks_okD(4) [OF ok, of t u] that by (simp add: tokens)
      show "tokens (?f ?th) \<subseteq> {1..<lk_next (set_thread t ?f (s\<lparr>lk_taken := insert a (lk_taken s)\<rparr>))}"
        using locks_okD(2) [OF ok, of t] by (simp add: tokens set_thread_def)
    qed (use locks_okD(5) [OF ok, of t] in \<open>auto simp: set_thread_def owned\<close>)
  qed
qed

lemma position_of_Some: "position_of token gs = Some i \<Longrightarrow> i < length gs \<and> fst (gs ! i) = token"
  by (induction gs arbitrary: i) (auto split: if_splits)

lemma position_of_None: "position_of token gs = None \<longleftrightarrow> token \<notin> fst ` set gs"
  by (induction gs) auto

lemma mutex_unlock_ok:
  assumes ok: "locks_ok s" and run: "mutex_unlock t token s = (b, s')"
  shows "locks_ok s'"
proof (cases "position_of token (th_guards (lk_threads s t))")
  case None
  with run ok show ?thesis by (simp add: mutex_unlock_def)
next
  case (Some i)
  let ?th = "lk_threads s t"
  let ?f = "\<lambda>th. th\<lparr>th_guards := swap_remove (th_guards th) i\<rparr>"
  let ?g = "th_guards ?th ! i"
  have i: "i < length (th_guards ?th)" "fst ?g = token"
    using position_of_Some [OF Some] by auto
  have s': "s' = release (snd ?g) (set_thread t ?f s)"
    using run Some by (simp add: mutex_unlock_def)
  have thread: "thread_ok ?th" by (rule locks_okD(1) [OF ok])
  then have d: "distinct (th_guards ?th)"
    by (simp add: thread_ok_def distinct_map)
  note guards = swap_remove_set [OF d i(1)] swap_remove_distinct [OF d i(1)]
  have inj: "inj_on snd (set (th_guards ?th))" "inj_on fst (set (th_guards ?th))"
    using thread by (simp_all add: thread_ok_def distinct_map)
  have member: "?g \<in> set (th_guards ?th)" using i by simp
  have guarded: "guarded (?f ?th) = guarded ?th - {snd ?g}"
    using inj(1) member unfolding guarded_def by (auto simp: guards inj_on_def)
  have not_held: "snd ?g \<notin> set (th_held ?th)"
    using thread member unfolding thread_ok_def guarded_def by auto
  have owned: "owned (?f ?th) = owned ?th - {snd ?g}"
    using guarded not_held by (auto simp: owned_def)
  have tokens: "tokens (?f ?th) \<subseteq> tokens ?th"
    using guards by (auto simp: tokens_def)
  show ?thesis
    unfolding s'
  proof (rule locks_ok_thread [OF ok, where t = t and th = "?f ?th"])
    show "thread_ok (?f ?th)"
      using thread guarded guards inj unfolding thread_ok_def
      by (auto simp: distinct_map intro: inj_on_subset)
    show "owned (?f ?th) \<inter> owned (lk_threads s u) = {}" if "u \<noteq> t" for u
      using locks_okD(3) [OF ok, of t u] that by (auto simp: owned)
    show "tokens (?f ?th) \<inter> tokens (lk_threads s u) = {}" if "u \<noteq> t" for u
      using locks_okD(4) [OF ok, of t u] that tokens by auto
    show "tokens (?f ?th) \<subseteq> {1..<lk_next (release (snd ?g) (set_thread t ?f s))}"
      using locks_okD(2) [OF ok, of t] tokens by (auto simp: release_def set_thread_def)
    show "lk_taken (release (snd ?g) (set_thread t ?f s)) = lk_taken s - owned ?th \<union> owned (?f ?th)"
      using locks_okD(5) [OF ok, of t] member
      by (auto simp: release_def set_thread_def owned) (auto simp: owned_def guarded_def)
  qed (simp_all add: release_def set_thread_def)
qed

lemma hold_ok:
  assumes ok: "locks_ok s" and run: "hold t a s = Some s'"
  shows "locks_ok s'"
proof -
  let ?th = "lk_threads s t"
  let ?f = "\<lambda>th. th\<lparr>th_held := a # th_held th\<rparr>"
  have owned: "owned (?f ?th) = insert a (owned ?th)"
    by (auto simp: owned_def guarded_def)
  have tokens: "tokens (?f ?th) = tokens ?th"
    by (simp add: tokens_def)
  have own: "a \<in> set (th_held ?th) \<or> a \<notin> lk_taken s"
    using run by (auto simp: hold_def acquire_Some split: if_splits)
  have other: "a \<notin> owned (lk_threads s u)" if "u \<noteq> t" for u
    using own locks_okD(3) [OF ok, of t u] locks_okD(5) [OF ok, of u] that by (auto simp: owned_def)
  have unguarded: "a \<notin> guarded ?th"
    using own locks_okD(1) [OF ok, of t] locks_okD(5) [OF ok, of t] by (auto simp: owned_def thread_ok_def)
  have counter: "lk_next s' = lk_next s" and threads: "lk_threads s' = (lk_threads s)(t := ?f ?th)"
    and taken: "lk_taken s' = insert a (lk_taken s)"
    using run locks_okD(5) [OF ok, of t]
    by (auto simp: hold_def acquire_Some set_thread_def owned_def split: if_splits)
  show ?thesis
  proof (rule locks_ok_thread [OF ok _ _ _ _ threads])
    show "thread_ok (?f ?th)"
      using locks_okD(1) [OF ok, of t] unguarded by (simp add: thread_ok_def guarded_def)
    show "owned (?f ?th) \<inter> owned (lk_threads s u) = {}" if "u \<noteq> t" for u
      using locks_okD(3) [OF ok, of t u] that other by (auto simp: owned)
    show "tokens (?f ?th) \<inter> tokens (lk_threads s u) = {}" if "u \<noteq> t" for u
      using locks_okD(4) [OF ok, of t u] that by (simp add: tokens)
    show "lk_taken s' = lk_taken s - owned ?th \<union> owned (?f ?th)"
      using locks_okD(5) [OF ok, of t] by (auto simp: taken owned)
  qed (use locks_okD(2) [OF ok, of t] counter tokens in auto)
qed

lemma access_end_ok:
  assumes ok: "locks_ok s" and run: "access_end t s = (r, s')"
  shows "locks_ok s'"
proof (cases "th_held (lk_threads s t)")
  case Nil
  with run ok show ?thesis by (simp add: access_end_def)
next
  case (Cons a rest)
  let ?th = "lk_threads s t"
  let ?f = "\<lambda>th. th\<lparr>th_held := rest\<rparr>"
  have owned: "owned (?f ?th) = (if a \<in> set rest then owned ?th else owned ?th - {a})"
    using locks_okD(1) [OF ok, of t] Cons by (auto simp: owned_def guarded_def thread_ok_def)
  have tokens: "tokens (?f ?th) = tokens ?th"
    by (simp add: tokens_def)
  have counter: "lk_next s' = lk_next s" and threads: "lk_threads s' = (lk_threads s)(t := ?f ?th)"
    and taken: "lk_taken s' = (if a \<in> set rest then lk_taken s else lk_taken s - {a})"
    using run Cons by (auto simp: access_end_def set_thread_def release_def Let_def)
  have a: "a \<in> owned ?th" using Cons by (simp add: owned_def)
  show ?thesis
  proof (rule locks_ok_thread [OF ok _ _ _ _ threads])
    show "thread_ok (?f ?th)"
      using locks_okD(1) [OF ok, of t] Cons by (simp add: thread_ok_def guarded_def)
    show "owned (?f ?th) \<inter> owned (lk_threads s u) = {}" if "u \<noteq> t" for u
      using locks_okD(3) [OF ok, of t u] that by (auto simp: owned)
    show "tokens (?f ?th) \<inter> tokens (lk_threads s u) = {}" if "u \<noteq> t" for u
      using locks_okD(4) [OF ok, of t u] that by (simp add: tokens)
    show "lk_taken s' = lk_taken s - owned ?th \<union> owned (?f ?th)"
      using locks_okD(5) [OF ok, of t] a by (auto simp: taken owned)
  qed (use locks_okD(2) [OF ok, of t] counter tokens in auto)
qed

lemma lock_step_ok:
  assumes "lock_step s s'" and ok: "locks_ok s"
  shows "locks_ok s'"
  using assms(1)
proof cases
  case (enter t started asked r)
  then have "s' = s \<or> s' = set_thread t (\<lambda>th. th\<lparr>th_control := Some asked\<rparr>) s"
    by (auto simp: control_enter_def checkpoint_def split: if_splits)
  then show ?thesis using ok locks_ok_quiet [OF ok] by auto
next
  case (begin_access t target r)
  have "locks_ok (s\<lparr>lk_access := table, lk_created := created\<rparr>)" for table created
    by (rule locks_ok_fields [OF ok]) simp_all
  then show ?thesis
    using begin_access ok by (auto simp: access_begin_def split: if_splits prod.splits dest: hold_ok [rotated])
next
  case (collect objects forwarded)
  then show ?thesis using locks_ok_fields [OF ok] by simp
next
  case (leave t)
  then show ?thesis using locks_ok_quiet [OF ok] by (simp add: control_leave_def)
next
  case (cancel t)
  then show ?thesis using locks_ok_quiet [OF ok] by (simp add: control_cancel_def)
next
  case (mask t b)
  then show ?thesis using locks_ok_quiet [OF ok] by simp
next
  case (begin_lock t key r)
  then show ?thesis using mutex_begin_ok [OF ok] by blast
next
  case (acquire_lock t r)
  then show ?thesis using mutex_acquire_ok [OF ok] by blast
next
  case (unlock t token b)
  then show ?thesis using mutex_unlock_ok [OF ok] by blast
next
  case (end_access t r)
  then show ?thesis using access_end_ok [OF ok] by blast
qed

section \<open>Tokens\<close>

lemma set_thread_simps [simp]:
  "lk_next (set_thread t f s) = lk_next s"
  "lk_threads (set_thread t f s) u = (if u = t then f (lk_threads s t) else lk_threads s u)"
  "lk_taken (set_thread t f s) = lk_taken s"
  by (simp_all add: set_thread_def)

text \<open>A step makes at most the next token live, and then counts it.\<close>

definition token_step :: "locks \<Rightarrow> locks \<Rightarrow> bool" where
  "token_step s s' \<longleftrightarrow> (\<forall>u. tokens (lk_threads s' u) \<subseteq> tokens (lk_threads s u) \<or>
       tokens (lk_threads s' u) \<subseteq> insert (lk_next s) (tokens (lk_threads s u)) \<and> lk_next s < lk_next s')
     \<and> lk_next s \<le> lk_next s'"

lemma token_step_quiet:
  "(\<And>u. tokens (lk_threads s' u) \<subseteq> tokens (lk_threads s u)) \<Longrightarrow> lk_next s' = lk_next s \<Longrightarrow> token_step s s'"
  by (simp add: token_step_def)

lemma mutex_begin_tokens: "mutex_begin t key s = (r, s') \<Longrightarrow> token_step s s'"
  by (auto simp: mutex_begin_def bindX_def checkpoint_def Let_def token_step_def tokens_def
      split: if_splits prod.splits)

lemma mutex_acquire_tokens:
  assumes "mutex_acquire t s = Some (r, s')"
  shows "token_step s s'"
proof -
  obtain token a b u where pending: "th_pending (lk_threads s t) = Some (token, a)"
    and acquired: "control_acquire t a s = Some (b, u)"
    using assms by (auto simp: mutex_acquire_def split: option.splits)
  then have "lk_threads u = lk_threads s" "lk_next u = lk_next s"
    by (auto simp: control_acquire_Some acquire_Some split: if_splits)
  with assms pending acquired show ?thesis
    by (intro token_step_quiet) (auto simp: mutex_acquire_def tokens_def split: bool.splits if_splits)
qed

lemma mutex_unlock_tokens:
  assumes "mutex_unlock t token s = (b, s')"
  shows "token_step s s'"
proof -
  have "tokens (lk_threads s' u) \<subseteq> tokens (lk_threads s u)" for u
  proof (cases "position_of token (th_guards (lk_threads s t))")
    case (Some i)
    have "insert (th_guards (lk_threads s t) ! i) (set (swap_remove (th_guards (lk_threads s t)) i))
        = set (th_guards (lk_threads s t))"
      using swap_remove_perm position_of_Some [OF Some] by (metis set_mset_add_mset_insert set_mset_mset)
    then have "set (swap_remove (th_guards (lk_threads s t)) i) \<subseteq> set (th_guards (lk_threads s t))"
      by blast
    with assms Some show ?thesis
      by (cases "u = t") (auto simp: mutex_unlock_def tokens_def release_def)
  qed (use assms in \<open>simp add: mutex_unlock_def\<close>)
  moreover have "lk_next s' = lk_next s"
    using assms by (auto simp: mutex_unlock_def release_def split: option.splits)
  ultimately show ?thesis
    by (rule token_step_quiet)
qed

lemma lock_step_tokens:
  assumes "lock_step s s'" shows "token_step s s'"
  using assms
proof cases
  case (begin_access t target r)
  then show ?thesis
    by (intro token_step_quiet)
      (auto simp: access_begin_def hold_def acquire_Some tokens_def split: if_splits prod.splits)
next
  case (begin_lock t key r)
  then show ?thesis by (blast intro: mutex_begin_tokens)
next
  case (acquire_lock t r)
  then show ?thesis by (rule mutex_acquire_tokens)
next
  case (unlock t token b)
  then show ?thesis by (rule mutex_unlock_tokens)
qed (auto intro!: token_step_quiet simp: control_enter_def checkpoint_def control_leave_def control_cancel_def access_end_def Let_def
      release_def tokens_def split: if_splits list.splits)

definition token_live :: "locks \<Rightarrow> int \<Rightarrow> bool" where
  "token_live s token \<longleftrightarrow> (\<exists>t. token \<in> tokens (lk_threads s t))"

definition token_issued :: "locks \<Rightarrow> int \<Rightarrow> bool" where
  "token_issued s token \<longleftrightarrow> 1 \<le> token \<and> token < lk_next s"

interpretation tokens: one_shot locks_ok token_live token_issued lock_step
proof
  fix s s' token
  assume step: "lock_step s s'"
  note tokens = lock_step_tokens [OF step, unfolded token_step_def]
  show "locks_ok s \<Longrightarrow> locks_ok s'" by (rule lock_step_ok [OF step])
  show "token_issued s token \<Longrightarrow> token_issued s' token"
    using tokens by (auto simp: token_issued_def)
  show "token_live s' token \<Longrightarrow> token_live s token \<or> \<not> token_issued s token"
    using tokens by (auto simp: token_live_def token_issued_def)
next
  show "token_issued s token" if "locks_ok s" "token_live s token" for s token
    using that locks_okD(2) by (fastforce simp: token_live_def token_issued_def)
qed

section \<open>What the guards promise\<close>

text \<open>At most one thread holds an access, and its guard is the only one.\<close>

lemma exclusive:
  assumes "locks_ok s" "a \<in> owned (lk_threads s t)" "a \<in> owned (lk_threads s u)"
  shows "t = u"
  using locks_okD(3) [OF assms(1), of t u] assms(2,3) by blast

lemma one_guard:
  assumes "locks_ok s" "(x, a) \<in> set (th_guards (lk_threads s t))" "(y, a) \<in> set (th_guards (lk_threads s u))"
  shows "t = u \<and> x = y"
proof
  show "t = u"
    using exclusive [OF assms(1), of a t u] assms(2,3) by (force simp: owned_def guarded_def)
  then have "inj_on snd (set (th_guards (lk_threads s t)))" "(y, a) \<in> set (th_guards (lk_threads s t))"
    using locks_okD(1) [OF assms(1), of t] assms(3) by (simp_all add: thread_ok_def distinct_map)
  from inj_onD [OF this(1) _ assms(2) this(2)] show "x = y" by simp
qed

text \<open>Unlocking a token that the thread does not guard does nothing.\<close>

lemma unlock_stale:
  "token \<notin> fst ` set (th_guards (lk_threads s t)) \<Longrightarrow> mutex_unlock t token s = (False, s)"
  using position_of_None [of token "th_guards (lk_threads s t)"] by (simp add: mutex_unlock_def)

lemma unlock_kills:
  assumes ok: "locks_ok s" and run: "mutex_unlock t token s = (True, s')"
  shows "\<not> token_live s' token" and "token_issued s token"
proof -
  obtain i where i: "position_of token (th_guards (lk_threads s t)) = Some i"
    using run by (auto simp: mutex_unlock_def split: option.splits)
  note g = position_of_Some [OF i]
  have thread: "thread_ok (lk_threads s t)" by (rule locks_okD(1) [OF ok])
  then have d: "distinct (th_guards (lk_threads s t))" and inj: "inj_on fst (set (th_guards (lk_threads s t)))"
    by (simp_all add: thread_ok_def distinct_map)
  have member: "token \<in> tokens (lk_threads s t)"
    using g by (force simp: tokens_def)
  then show "token_issued s token"
    using locks_okD(2) [OF ok, of t] by (auto simp: token_issued_def)
  have "token \<notin> tokens (lk_threads s' u)" for u
  proof (cases "u = t")
    case True
    have "token \<notin> fst ` (set (th_guards (lk_threads s t)) - {th_guards (lk_threads s t) ! i})"
      using inj g by (auto simp: inj_on_def)
    moreover have "token \<notin> fst ` set_option (th_pending (lk_threads s t))"
      using thread g by (force simp: thread_ok_def)
    moreover have "th_guards (lk_threads s' t) = swap_remove (th_guards (lk_threads s t)) i"
        "th_pending (lk_threads s' t) = th_pending (lk_threads s t)"
      using run i by (auto simp: mutex_unlock_def release_def)
    ultimately show ?thesis
      using swap_remove_set [OF d] g True by (simp add: tokens_def)
  next
    case False
    then have "lk_threads s' u = lk_threads s u"
      using run i by (auto simp: mutex_unlock_def release_def)
    moreover have "tokens (lk_threads s t) \<inter> tokens (lk_threads s u) = {}"
      by (rule locks_okD(4) [OF ok]) (use False in simp)
    ultimately show ?thesis
      using member by (metis disjoint_iff)
  qed
  then show "\<not> token_live s' token" by (simp add: token_live_def)
qed

text \<open>A token that was unlocked never unlocks anything again, whatever happens in between.\<close>

lemma unlock_once:
  assumes ok: "locks_ok s" and run: "mutex_unlock t token s = (True, s')" and later: "lock_step\<^sup>*\<^sup>* s' s''"
  shows "mutex_unlock u token s'' = (False, s'')"
proof (rule unlock_stale)
  have ok': "locks_ok s'" by (rule mutex_unlock_ok [OF ok run])
  have "lk_next s' = lk_next s"
    using run by (auto simp: mutex_unlock_def release_def split: option.splits)
  then have "token_issued s' token" "\<not> token_live s' token"
    using unlock_kills [OF ok run] by (auto simp: token_issued_def)
  then have "\<not> token_live s'' token"
    by (intro tokens.stale_run [OF later ok'])
  then show "token \<notin> fst ` set (th_guards (lk_threads s'' u))"
    by (auto simp: token_live_def tokens_def)
qed

text \<open>\<open>release_all\<close> gives back every storage access of the thread.\<close>

lemma ends_keep: "locks_ok s \<Longrightarrow> locks_ok (ends t n s)"
proof (induction n arbitrary: s)
  case (Suc n)
  then show ?case
    using access_end_ok [of s t "fst (access_end t s)" "snd (access_end t s)"] by simp
qed simp

lemma ends_held: "th_held (lk_threads (ends t n s) t) = drop n (th_held (lk_threads s t))"
  by (induction n arbitrary: s)
    (auto simp: access_end_def Let_def release_def drop_Suc tl_def split: list.splits)

lemma release_all_ok:
  assumes "locks_ok s"
  shows "locks_ok (release_all t s)" and "th_held (lk_threads (release_all t s) t) = []"
  using ends_keep [OF assms] by (simp_all add: release_all_def ends_held)

lemma ends_threads:
  "u \<noteq> t \<Longrightarrow> lk_threads (ends t n s) u = lk_threads s u"
  "th_guards (lk_threads (ends t n s) t) = th_guards (lk_threads s t)"
  by (induction n arbitrary: s) (auto simp: access_end_def Let_def release_def split: list.splits)

lemma ends_taken:
  "th_held (lk_threads s t) = xs @ ys \<Longrightarrow>
    lk_taken (ends t (length xs) s) = lk_taken s - (set xs - set ys)"
proof (induction xs arbitrary: s)
  case (Cons a xs)
  then have "th_held (lk_threads (snd (access_end t s)) t) = xs @ ys"
    by (simp add: access_end_def Let_def release_def)
  from Cons.IH [OF this] show ?case
    using Cons.prems by (auto simp: access_end_def Let_def release_def)
qed simp

lemma release_all_taken: "lk_taken (release_all t s) = lk_taken s - set (th_held (lk_threads s t))"
  using ends_taken [of s t "th_held (lk_threads s t)" "[]"] by (simp add: release_all_def)

lemma release_all_threads:
  "u \<noteq> t \<Longrightarrow> lk_threads (release_all t s) u = lk_threads s u"
  "th_guards (lk_threads (release_all t s) t) = th_guards (lk_threads s t)"
  by (simp_all add: release_all_def ends_threads)

end
