(* ===== verification/Waits.thy ===== *)
theory Waits
  imports Runtime
begin

text \<open>
  The reactor of one-shot waits (\<open>compiler/runtime/src/wait.rs\<close>): registrations of timers,
  readiness and completions behind generation-checked identities, the interests of each native
  handle, and the queue of ready notifications.

  The poller (crate \<open>polling\<close>) and the clock (\<open>std::time\<close>) are the parameters \<open>po_*\<close>, functions of
  a state of the outside world.  The locks of the reactor are not part of the state: every
  operation below runs under \<open>core\<close>, which it holds from its first access to its last.
\<close>

unbundle bit_operations_syntax

section \<open>Constants and identities\<close>

definition KIND_TIMER :: "32 word" where "KIND_TIMER = 1"
definition KIND_READINESS :: "32 word" where "KIND_READINESS = 2"
definition KIND_COMPLETION :: "32 word" where "KIND_COMPLETION = 3"
definition READABLE :: "32 word" where "READABLE = 1"
definition WRITABLE :: "32 word" where "WRITABLE = 2"
definition TIMER :: "32 word" where "TIMER = 4"
definition COMPLETION :: "32 word" where "COMPLETION = 8"
definition ERROR :: "32 word" where "ERROR = 16"

lemmas wait_bits = KIND_TIMER_def KIND_READINESS_def KIND_COMPLETION_def READABLE_def WRITABLE_def
  TIMER_def COMPLETION_def ERROR_def

record wait_source =
  ws_kind :: "32 word"
  ws_interests :: "32 word"
  ws_handle :: nat
  ws_deadline :: nat

record registration =
  rg_key :: nat
  rg_generation :: nat

record notification =
  nt_registration :: registration
  nt_owner :: nat
  nt_events :: "32 word"
  nt_os_error :: int

record active_wait =
  aw_source :: wait_source
  aw_owner :: nat

record wait_slot =
  wt_generation :: nat
  wt_active :: "active_wait option"

record wait_handle =
  wh_event_key :: nat
  wh_read :: "registration option"
  wh_write :: "registration option"

record reactor =
  re_slots :: "wait_slot list"
  re_free :: "nat list"
  re_timers :: "((nat \<times> nat) \<times> registration) list"  \<comment> \<open>a \<open>BTreeMap\<close>: sorted by key\<close>
  re_handles :: "nat \<Rightarrow> wait_handle option"
  re_poll_keys :: "nat \<Rightarrow> nat option"
  re_next_poll_key :: nat
  re_ready :: "notification list"

definition new_reactor :: reactor where
  "new_reactor = \<lparr>re_slots = [], re_free = [], re_timers = [], re_handles = Map.empty,
     re_poll_keys = Map.empty, re_next_poll_key = 0, re_ready = []\<rparr>"

definition no_handle :: wait_handle where
  "no_handle = \<lparr>wh_event_key = 0, wh_read = None, wh_write = None\<rparr>"

section \<open>The outside world\<close>

datatype io_kind = InvalidInput | AlreadyExists | NotFound | OutOfMemory | OtherError

type_synonym io_error = "io_kind \<times> string"

record poll_event =
  ev_key :: nat
  ev_readable :: bool
  ev_writable :: bool
  ev_interrupt :: bool
  ev_error :: "bool option"

record 'w poller =
  po_notify :: "'w \<Rightarrow> io_error option \<times> 'w"
  po_add :: "nat \<Rightarrow> poll_event \<Rightarrow> 'w \<Rightarrow> io_error option \<times> 'w"
  po_modify :: "nat \<Rightarrow> poll_event \<Rightarrow> 'w \<Rightarrow> io_error option \<times> 'w"
  po_delete :: "nat \<Rightarrow> 'w \<Rightarrow> io_error option \<times> 'w"
  po_wait :: "nat option \<Rightarrow> 'w \<Rightarrow> (io_error + poll_event list) \<times> 'w"
  po_now :: "'w \<Rightarrow> nat \<times> 'w"
  po_linux :: bool

text \<open>Operations on the reactor in the world.  \<open>bindIO\<close> is \<open>?\<close> on an \<open>io::Result\<close>.\<close>

type_synonym ('w, 'a) io = "(reactor \<times> 'w, io_error + 'a) exec"

definition bindIO :: "('w, 'a) io \<Rightarrow> ('a \<Rightarrow> ('w, 'b) io) \<Rightarrow> ('w, 'b) io" where
  "bindIO m f = bindX m (\<lambda>r. case r of Inl e \<Rightarrow> retX (Inl e) | Inr x \<Rightarrow> f x)"

definition okIO :: "'a \<Rightarrow> ('w, 'a) io" where
  "okIO x = retX (Inr x)"

definition errIO :: "io_kind \<Rightarrow> string \<Rightarrow> ('w, 'a) io" where
  "errIO kind message = retX (Inl (kind, message))"

definition coreX :: "(reactor, 'a) exec \<Rightarrow> (reactor \<times> 'w, 'a) exec" where
  "coreX m = zoomX fst (\<lambda>core s. (core, snd s)) m"

definition worldX :: "('w \<Rightarrow> 'a \<times> 'w) \<Rightarrow> (reactor \<times> 'w, 'a) exec" where
  "worldX f = (\<lambda>(core, w). case f w of (x, w') \<Rightarrow> (Inr x, (core, w')))"

text \<open>A poller call: its error is the operation's.\<close>

definition pollIO :: "('w \<Rightarrow> io_error option \<times> 'w) \<Rightarrow> ('w, unit) io" where
  "pollIO f = bindX (worldX f) (\<lambda>e. retX (case e of None \<Rightarrow> Inr () | Some error \<Rightarrow> Inl error))"

section \<open>The core\<close>

text \<open>\<open>Core::active\<close>.\<close>

definition active :: "reactor \<Rightarrow> registration \<Rightarrow> active_wait option" where
  "active core r =
     (case get (re_slots core) (rg_key r) of
        None \<Rightarrow> None
      | Some slot \<Rightarrow> if wt_generation slot = rg_generation r then wt_active slot else None)"

text \<open>\<open>Core::insert\<close>.\<close>

definition core_insert :: "wait_source \<Rightarrow> nat \<Rightarrow> (reactor, io_error + registration) exec" where
  "core_insert source owner core =
     (let i = (case last_of (re_free core) of None \<Rightarrow> length (re_slots core) | Some i \<Rightarrow> i) in
      case checked_add (case get (re_slots core) i of None \<Rightarrow> 0 | Some slot \<Rightarrow> wt_generation slot) 1 of
        None \<Rightarrow> (Inr (Inl (OtherError, ''wait registration generation exhausted'')), core)
      | Some generation \<Rightarrow>
          let slot = \<lparr>wt_generation = generation, wt_active = Some \<lparr>aw_source = source, aw_owner = owner\<rparr>\<rparr>;
              r = \<lparr>rg_key = i, rg_generation = generation\<rparr> in
          if i = length (re_slots core)
          then (Inr (Inr r), core\<lparr>re_slots := re_slots core @ [slot]\<rparr>)
          else
            let core = core\<lparr>re_free := butlast (re_free core)\<rparr> in
            if i < length (re_slots core)
            then (Inr (Inr r), core\<lparr>re_slots := (re_slots core)[i := slot]\<rparr>)
            else (Inl Panic, core))"

text \<open>\<open>Core::remove\<close>: \<open>take().unwrap()\<close> of the slot.\<close>

definition core_remove :: "registration \<Rightarrow> (reactor, active_wait) exec" where
  "core_remove r core =
     (case get (re_slots core) (rg_key r) of
        None \<Rightarrow> (Inl Panic, core)
      | Some slot \<Rightarrow>
          (case wt_active slot of
             None \<Rightarrow> (Inl Panic, core)
           | Some a \<Rightarrow>
               (Inr a, core\<lparr>re_slots := (re_slots core)[rg_key r := slot\<lparr>wt_active := None\<rparr>],
                  re_free := re_free core @ [rg_key r]\<rparr>)))"

text \<open>\<open>Core::finish\<close>.\<close>

definition core_finish :: "registration \<Rightarrow> 32 word \<Rightarrow> int \<Rightarrow> (reactor, unit) exec" where
  "core_finish r events os_error =
     bindX (core_remove r) (\<lambda>a.
     modifyX (\<lambda>core. core\<lparr>re_ready := re_ready core @
       [\<lparr>nt_registration = r, nt_owner = aw_owner a, nt_events = events, nt_os_error = os_error\<rparr>]\<rparr>))"

text \<open>\<open>Core::fire_timers\<close>: the due timers leave in the order of their keys.\<close>

fun fire_due :: "nat \<Rightarrow> ((nat \<times> nat) \<times> registration) list \<Rightarrow> (reactor, unit) exec" where
  "fire_due now [] core = (Inr (), core)"
| "fire_due now (((deadline, key), r) # timers) core =
     (if now < deadline then (Inr (), core)
      else bindX (core_finish r TIMER 0) (\<lambda>_. fire_due now timers) (core\<lparr>re_timers := timers\<rparr>))"

definition fire_timers :: "nat \<Rightarrow> (reactor, unit) exec" where
  "fire_timers now core = fire_due now (re_timers core) core"

text \<open>\<open>Core::poll_key\<close>: \<open>usize::MAX\<close> is reserved by the poller.\<close>

definition poll_key :: "(reactor, io_error + nat) exec" where
  "poll_key core =
     (case checked_add (re_next_poll_key core) 1 of
        None \<Rightarrow> (Inr (Inl (OtherError, ''wait polling identities exhausted'')), core)
      | Some key \<Rightarrow>
          if int key = 2 ^ 64 - 1
          then (Inr (Inl (OtherError, ''wait polling identities exhausted'')), core)
          else (Inr (Inr key), core\<lparr>re_next_poll_key := key\<rparr>))"

section \<open>Ordered maps\<close>

text \<open>\<open>BTreeMap::insert\<close> and \<open>remove\<close> on the sorted entries.\<close>

fun tree_insert :: "nat \<times> nat \<Rightarrow> 'v \<Rightarrow> ((nat \<times> nat) \<times> 'v) list \<Rightarrow> ((nat \<times> nat) \<times> 'v) list" where
  "tree_insert k v [] = [(k, v)]"
| "tree_insert k v (e # es) =
     (if fst e = k then (k, v) # es
      else if fst k < fst (fst e) \<or> fst k = fst (fst e) \<and> snd k < snd (fst e) then (k, v) # e # es
      else e # tree_insert k v es)"

definition tree_remove :: "nat \<times> nat \<Rightarrow> ((nat \<times> nat) \<times> 'v) list \<Rightarrow> ((nat \<times> nat) \<times> 'v) list" where
  "tree_remove k es = filter (\<lambda>e. fst e \<noteq> k) es"

section \<open>Interests of a handle\<close>

text \<open>\<open>native_source\<close>: a descriptor is an \<open>i32\<close>.\<close>

definition native_source :: "nat \<Rightarrow> ('w, nat) io" where
  "native_source handle =
     (if handle < 2 ^ 31 then okIO handle else errIO InvalidInput ''invalid native descriptor'')"

definition interest_event :: "wait_handle \<Rightarrow> poll_event" where
  "interest_event h = \<lparr>ev_key = wh_event_key h, ev_readable = wh_read h \<noteq> None,
     ev_writable = wh_write h \<noteq> None, ev_interrupt = True, ev_error = None\<rparr>"

text \<open>The poller's part of \<open>update_handle\<close>: \<open>updated\<close>, with the event key it used.\<close>

definition poll_update :: "'w poller \<Rightarrow> nat \<Rightarrow> wait_handle option \<Rightarrow> wait_handle \<Rightarrow>
    (reactor \<times> 'w, io_error + (wait_handle \<times> io_error option)) exec" where
  "poll_update p native previous h =
     (if wh_read h = None \<and> wh_write h = None
      then bindX (worldX (po_delete p native)) (\<lambda>e. okIO (h, e))
      else
        bindIO (coreX poll_key) (\<lambda>key.
        let h = h\<lparr>wh_event_key := key\<rparr> in
        bindX (worldX (if previous \<noteq> None then po_modify p native (interest_event h)
                       else po_add p native (interest_event h))) (\<lambda>e.
        okIO (h, e))))"

text \<open>The recovery of a failed update restores the previous interests.\<close>

definition poll_restore :: "'w poller \<Rightarrow> nat \<Rightarrow> wait_handle option \<Rightarrow> io_error \<Rightarrow> ('w, unit) io" where
  "poll_restore p native previous error =
     (if po_linux p \<and> previous = None then retX (Inl error)
      else
        bindX (worldX (po_delete p native)) (\<lambda>cleanup.
        bindX (guardX (case cleanup of None \<Rightarrow> True | Some (kind, _) \<Rightarrow> kind = NotFound)
          (Fatal ''failed to clean up wait registration'')) (\<lambda>_.
        bindX (case previous of
            None \<Rightarrow> retX ()
          | Some h \<Rightarrow> bindX (worldX (po_add p native (interest_event h))) (\<lambda>e.
              guardX (e = None) (Fatal ''failed to restore wait registration''))) (\<lambda>_.
        retX (Inl error)))))"

definition commit_handle :: "nat \<Rightarrow> wait_handle option \<Rightarrow> wait_handle \<Rightarrow> reactor \<Rightarrow> reactor" where
  "commit_handle source previous h core =
     (let core = (case previous of
          None \<Rightarrow> core
        | Some old \<Rightarrow> core\<lparr>re_poll_keys := (re_poll_keys core)(wh_event_key old := None)\<rparr>) in
      if wh_read h = None \<and> wh_write h = None
      then core\<lparr>re_handles := (re_handles core)(source := None)\<rparr>
      else core\<lparr>re_poll_keys := (re_poll_keys core)(wh_event_key h \<mapsto> source),
             re_handles := (re_handles core)(source \<mapsto> h)\<rparr>)"

definition update_handle :: "'w poller \<Rightarrow> nat \<Rightarrow> wait_handle \<Rightarrow> ('w, unit) io" where
  "update_handle p source h =
     bindX (getX (\<lambda>s. re_handles (fst s) source)) (\<lambda>previous.
     bindIO (native_source source) (\<lambda>native.
     bindIO (poll_update p native previous h) (\<lambda>(h, updated).
     case updated of
       Some error \<Rightarrow> poll_restore p native previous error
     | None \<Rightarrow> bindX (coreX (modifyX (commit_handle source previous h))) okIO)))"

section \<open>Registration, cancellation and completion\<close>

definition valid_source :: "wait_source \<Rightarrow> bool" where
  "valid_source source \<longleftrightarrow>
     (if ws_kind source = KIND_TIMER \<or> ws_kind source = KIND_COMPLETION then ws_interests source = 0
      else ws_kind source = KIND_READINESS \<and> ws_interests source \<noteq> 0
        \<and> (ws_interests source AND NOT (READABLE OR WRITABLE)) = 0)"

definition handle_of :: "reactor \<Rightarrow> nat \<Rightarrow> wait_handle" where
  "handle_of core source = (case re_handles core source of None \<Rightarrow> no_handle | Some h \<Rightarrow> h)"

definition overlaps :: "wait_source \<Rightarrow> wait_handle \<Rightarrow> bool" where
  "overlaps source h \<longleftrightarrow> (ws_interests source AND READABLE) \<noteq> 0 \<and> wh_read h \<noteq> None
     \<or> (ws_interests source AND WRITABLE) \<noteq> 0 \<and> wh_write h \<noteq> None"

definition add_interests :: "wait_source \<Rightarrow> registration \<Rightarrow> wait_handle \<Rightarrow> wait_handle" where
  "add_interests source r h =
     (let h = (if (ws_interests source AND READABLE) \<noteq> 0 then h\<lparr>wh_read := Some r\<rparr> else h) in
      if (ws_interests source AND WRITABLE) \<noteq> 0 then h\<lparr>wh_write := Some r\<rparr> else h)"

definition drop_interests :: "registration \<Rightarrow> wait_handle \<Rightarrow> wait_handle" where
  "drop_interests r h =
     (let h = (if wh_read h = Some r then h\<lparr>wh_read := None\<rparr> else h) in
      if wh_write h = Some r then h\<lparr>wh_write := None\<rparr> else h)"

text \<open>\<open>Reactor::register\<close>.\<close>

definition register :: "'w poller \<Rightarrow> wait_source \<Rightarrow> nat \<Rightarrow> ('w, registration) io" where
  "register p source owner =
     (if \<not> valid_source source then errIO InvalidInput ''invalid wait source''
      else
        bindX (getX (\<lambda>s. handle_of (fst s) (ws_handle source))) (\<lambda>h.
        if ws_kind source = KIND_READINESS \<and> overlaps source h
        then errIO AlreadyExists ''overlapping readiness registration''
        else
          bindIO (pollIO (po_notify p)) (\<lambda>_.
          bindIO (coreX (core_insert source owner)) (\<lambda>r.
          if ws_kind source = KIND_READINESS then
            bindX (getX (\<lambda>s. handle_of (fst s) (ws_handle source))) (\<lambda>h.
            bindX (update_handle p (ws_handle source) (add_interests source r h)) (\<lambda>u.
            case u of
              Inl e \<Rightarrow> bindX (coreX (core_remove r)) (\<lambda>_. retX (Inl e))
            | Inr _ \<Rightarrow> okIO r))
          else if ws_kind source = KIND_TIMER then
            bindX (coreX (modifyX (\<lambda>core. core\<lparr>re_timers :=
              tree_insert (ws_deadline source, rg_key r) r (re_timers core)\<rparr>))) (\<lambda>_. okIO r)
          else okIO r))))"

text \<open>\<open>Reactor::cancel\<close>.\<close>

definition cancel :: "'w poller \<Rightarrow> registration \<Rightarrow> ('w, bool) io" where
  "cancel p r =
     bindX (getX (\<lambda>s. active (fst s) r)) (\<lambda>found.
     case found of
       None \<Rightarrow> okIO False
     | Some a \<Rightarrow>
         bindIO (pollIO (po_notify p)) (\<lambda>_.
         bindIO
           (if ws_kind (aw_source a) = KIND_READINESS then
              bindX (getX (\<lambda>s. re_handles (fst s) (ws_handle (aw_source a)))) (\<lambda>h.
              bindX (someX h Panic) (\<lambda>h.
              update_handle p (ws_handle (aw_source a)) (drop_interests r h)))
            else if ws_kind (aw_source a) = KIND_TIMER then
              bindX (coreX (modifyX (\<lambda>core. core\<lparr>re_timers :=
                tree_remove (ws_deadline (aw_source a), rg_key r) (re_timers core)\<rparr>))) okIO
            else okIO ()) (\<lambda>_.
         bindX (coreX (core_remove r)) (\<lambda>_. okIO True))))"

text \<open>\<open>Reactor::revoke_readiness\<close>.\<close>

definition revoke_readiness :: "'w poller \<Rightarrow> nat \<Rightarrow> ('w, unit) io" where
  "revoke_readiness p source =
     bindX (getX (\<lambda>s. re_handles (fst s) source)) (\<lambda>found.
     case found of
       None \<Rightarrow> okIO ()
     | Some h \<Rightarrow>
         bindIO (pollIO (po_notify p)) (\<lambda>_.
         bindIO (update_handle p source no_handle) (\<lambda>_.
         bindX (case wh_read h of None \<Rightarrow> retX () | Some r \<Rightarrow> coreX (core_finish r ERROR 0)) (\<lambda>_.
         bindX (case wh_write h of
             None \<Rightarrow> retX ()
           | Some r \<Rightarrow> if wh_write h \<noteq> wh_read h then coreX (core_finish r ERROR 0) else retX ()) (\<lambda>_.
         okIO ())))))"

text \<open>\<open>Reactor::notify_completion\<close>: the completion is committed before the wake can fail.\<close>

definition notify_completion :: "'w poller \<Rightarrow> registration \<Rightarrow> 32 word \<Rightarrow> int \<Rightarrow> ('w, bool) io" where
  "notify_completion p r events os_error =
     (if events = 0 \<or> (events AND NOT (READABLE OR WRITABLE OR COMPLETION OR ERROR)) \<noteq> 0
      then errIO InvalidInput ''invalid completion events''
      else
        bindX (getX (\<lambda>s. active (fst s) r)) (\<lambda>found.
        case found of
          None \<Rightarrow> okIO False
        | Some a \<Rightarrow>
            if ws_kind (aw_source a) \<noteq> KIND_COMPLETION
            then errIO InvalidInput ''not a completion registration''
            else
              bindX (coreX (core_finish r (events OR (if os_error \<noteq> 0 then ERROR else 0)) os_error)) (\<lambda>_.
              bindIO (pollIO (po_notify p)) (\<lambda>_. okIO True))))"

section \<open>Events\<close>

definition event_bits :: "poll_event \<Rightarrow> 32 word" where
  "event_bits event = (if ev_readable event then READABLE else 0)
     OR (if ev_writable event then WRITABLE else 0)
     OR (if ev_interrupt event \<or> ev_error event = Some True then ERROR else 0)"

text \<open>What an event takes from a handle: the registrations it completes and what is left.\<close>

definition take_completed ::
    "32 word \<Rightarrow> wait_handle \<Rightarrow> registration option \<times> registration option \<times> wait_handle" where
  "take_completed events h =
     (let read = (if (events AND (READABLE OR ERROR)) \<noteq> 0 then wh_read h else None);
          h = (if (events AND (READABLE OR ERROR)) \<noteq> 0 then h\<lparr>wh_read := None\<rparr> else h);
          write = (if (events AND (WRITABLE OR ERROR)) \<noteq> 0 then wh_write h else None);
          h = (if (events AND (WRITABLE OR ERROR)) \<noteq> 0 then h\<lparr>wh_write := None\<rparr> else h) in
      (read, write,
       case (case read of None \<Rightarrow> write | Some r \<Rightarrow> Some r) of None \<Rightarrow> h | Some r \<Rightarrow> drop_interests r h))"

definition complete_ready :: "32 word \<Rightarrow> registration \<Rightarrow> (reactor, unit) exec" where
  "complete_ready events r core =
     (case active core r of
        None \<Rightarrow> (Inl Panic, core)
      | Some a \<Rightarrow> core_finish r (events AND (ws_interests (aw_source a) OR ERROR)) 0 core)"

text \<open>The loop over \<open>completed\<close>; a registration for both directions completes once.\<close>

definition complete_taken ::
    "32 word \<Rightarrow> registration option \<Rightarrow> registration option \<Rightarrow> ('w, unit) io" where
  "complete_taken events read write =
     bindX (case read of None \<Rightarrow> retX () | Some r \<Rightarrow> coreX (complete_ready events r)) (\<lambda>_.
     bindX (case write of
         None \<Rightarrow> retX ()
       | Some r \<Rightarrow> if read = Some r then retX () else coreX (complete_ready events r)) (\<lambda>_.
     okIO ()))"

text \<open>\<open>Reactor::readiness\<close>.\<close>

definition readiness :: "'w poller \<Rightarrow> poll_event \<Rightarrow> ('w, unit) io" where
  "readiness p event =
     bindX (getX (\<lambda>s. re_poll_keys (fst s) (ev_key event))) (\<lambda>found.
     case found of
       None \<Rightarrow> okIO ()
     | Some source \<Rightarrow>
         bindX (getX (\<lambda>s. re_handles (fst s) source)) (\<lambda>found.
         bindX (someX found Panic) (\<lambda>h.
         case take_completed (event_bits event) h of (read, write, rest) \<Rightarrow>
           bindIO (update_handle p source rest) (\<lambda>_. complete_taken (event_bits event) read write))))"

fun readiness_all :: "'w poller \<Rightarrow> poll_event list \<Rightarrow> ('w, unit) io" where
  "readiness_all p [] = okIO ()"
| "readiness_all p (event # events) = bindIO (readiness p event) (\<lambda>_. readiness_all p events)"

section \<open>Waiting\<close>

text \<open>\<open>fire_timers(now_ns())\<close>, then the length of the ready queue when it is not empty.\<close>

definition fire_now :: "'w poller \<Rightarrow> (reactor \<times> 'w, nat) exec" where
  "fire_now p = bindX (worldX (po_now p)) (\<lambda>now. bindX (coreX (fire_timers now)) (\<lambda>_. retX now))"

definition ready_count :: "reactor \<times> 'w \<Rightarrow> nat option" where
  "ready_count s = (if re_ready (fst s) = [] then None else Some (length (re_ready (fst s))))"

text \<open>How long the poller may block: until the deadline or the first timer.\<close>

definition wait_for :: "nat \<Rightarrow> nat option \<Rightarrow> reactor \<Rightarrow> nat option" where
  "wait_for now remaining core =
     (let timer = (case re_timers core of [] \<Rightarrow> None | ((due, _), _) # _ \<Rightarrow> Some (due - now)) in
      case (remaining, timer) of
        (Some a, Some b) \<Rightarrow> Some (min a b)
      | (Some a, None) \<Rightarrow> Some a
      | (None, other) \<Rightarrow> other)"

text \<open>One round of the loop of \<open>Reactor::wait\<close>; \<open>None\<close> goes round again.\<close>

definition wait_round :: "'w poller \<Rightarrow> nat option \<Rightarrow> ('w, nat option) io" where
  "wait_round p deadline =
     bindX (fire_now p) (\<lambda>now.
     bindX (getX ready_count) (\<lambda>ready.
     if ready \<noteq> None then okIO ready
     else
       bindX (case deadline of
           None \<Rightarrow> retX None
         | Some due \<Rightarrow> bindX (worldX (po_now p)) (\<lambda>instant. retX (Some (due - instant)))) (\<lambda>remaining.
       bindX (getX (\<lambda>s. wait_for now remaining (fst s))) (\<lambda>timeout.
       bindIO (worldX (po_wait p timeout)) (\<lambda>events.
       bindIO (readiness_all p events) (\<lambda>_.
       bindX (fire_now p) (\<lambda>_.
       bindX (getX ready_count) (\<lambda>ready.
       if ready \<noteq> None then okIO ready
       else case deadline of
           None \<Rightarrow> okIO None
         | Some due \<Rightarrow> bindX (worldX (po_now p)) (\<lambda>instant.
             okIO (if due \<le> instant then Some 0 else None))))))))))"

text \<open>The loop may wait forever; not returning is \<open>None\<close>.\<close>

partial_function (option) wait_loop ::
    "'w poller \<Rightarrow> nat option \<Rightarrow> reactor \<times> 'w \<Rightarrow> ((stop + (io_error + nat)) \<times> (reactor \<times> 'w)) option" where
  "wait_loop p deadline s =
     (case wait_round p deadline s of
        (Inl e, t) \<Rightarrow> Some (Inl e, t)
      | (Inr (Inl e), t) \<Rightarrow> Some (Inr (Inl e), t)
      | (Inr (Inr (Some n)), t) \<Rightarrow> Some (Inr (Inr n), t)
      | (Inr (Inr None), t) \<Rightarrow> wait_loop p deadline t)"

declare wait_loop.simps [code]

text \<open>\<open>Reactor::wait\<close> up to its loop: what it returns at once, or the deadline of the loop.\<close>

definition wait_begin :: "'w poller \<Rightarrow> nat option \<Rightarrow> ('w, nat + nat option) io" where
  "wait_begin p timeout =
     bindX (fire_now p) (\<lambda>_.
     bindX (getX ready_count) (\<lambda>ready.
     case ready of
       Some n \<Rightarrow> okIO (Inl n)
     | None \<Rightarrow>
         (case timeout of
            None \<Rightarrow> okIO (Inr None)
          | Some duration \<Rightarrow>
              bindX (worldX (po_now p)) (\<lambda>instant.
              case checked_add instant duration of
                None \<Rightarrow> errIO InvalidInput ''wait timeout is too large''
              | Some due \<Rightarrow> okIO (Inr (Some due))))))"

definition wait :: "'w poller \<Rightarrow> nat option \<Rightarrow> reactor \<times> 'w \<Rightarrow>
    ((stop + (io_error + nat)) \<times> (reactor \<times> 'w)) option" where
  "wait p timeout s =
     (case wait_begin p timeout s of
        (Inl e, t) \<Rightarrow> Some (Inl e, t)
      | (Inr (Inl e), t) \<Rightarrow> Some (Inr (Inl e), t)
      | (Inr (Inr (Inl n)), t) \<Rightarrow> Some (Inr (Inr n), t)
      | (Inr (Inr (Inr deadline)), t) \<Rightarrow> wait_loop p deadline t)"

text \<open>\<open>Reactor::pop_ready\<close>.\<close>

definition pop_ready :: "(reactor, notification option) exec" where
  "pop_ready core =
     (case re_ready core of
        [] \<Rightarrow> (Inr None, core)
      | n # rest \<Rightarrow> (Inr (Some n), core\<lparr>re_ready := rest\<rparr>))"

end
