(* ===== verification/Frames.thy ===== *)
theory Frames
  imports Runtime
begin

text \<open>
  The frame roots of one native owner (\<open>compiler/runtime/src/frame_roots.rs\<close>): managed frame
  pointers behind identities of a slot key and a generation.  Entries are dense and move on removal;
  slots are reused with the next generation.  Pointers are opaque numbers; the garbage collector's
  \<open>loom_rt_visit\<close> is a parameter of \<open>fr_trace\<close>.
\<close>

section \<open>The store\<close>

record frame_id =
  fid_key :: nat
  fid_generation :: nat

record frame_entry =
  fe_slot :: nat
  fe_pointer :: nat

record frame_slot =
  fs_generation :: nat
  fs_position :: "nat option"

record store =
  st_active :: "frame_entry list"
  st_slots :: "frame_slot list"
  st_free :: "nat list"

definition empty_store :: store where
  "empty_store = \<lparr>st_active = [], st_slots = [], st_free = []\<rparr>"

text \<open>\<open>Store::position\<close>.\<close>

definition fr_position :: "store \<Rightarrow> frame_id \<Rightarrow> nat option" where
  "fr_position s r =
     (case get (st_slots s) (fid_key r) of
        None \<Rightarrow> None
      | Some slot \<Rightarrow> if fs_generation slot = fid_generation r then fs_position slot else None)"

text \<open>\<open>outside_tracing\<close>: roots do not change while the collector traces.\<close>

definition outside_tracing :: "bool \<Rightarrow> ('s, unit) exec" where
  "outside_tracing collecting =
     guardX (\<not> collecting) (Fatal ''frame roots cannot change during GC tracing'')"

text \<open>\<open>FrameRoots::insert\<close> reuses the slot freed last, with its next generation.\<close>

definition fr_insert :: "bool \<Rightarrow> nat \<Rightarrow> (store, frame_id) exec" where
  "fr_insert collecting pointer =
     bindX (outside_tracing collecting) (\<lambda>_ s.
       let i = (case last_of (st_free s) of None \<Rightarrow> length (st_slots s) | Some i \<Rightarrow> i) in
       case checked_add (case get (st_slots s) i of None \<Rightarrow> 0 | Some slot \<Rightarrow> fs_generation slot) 1 of
         None \<Rightarrow> (Inl (Fatal ''frame root generation exhausted''), s)
       | Some generation \<Rightarrow>
           let r = \<lparr>fid_key = i, fid_generation = generation\<rparr>;
               slot = \<lparr>fs_generation = generation, fs_position = Some (length (st_active s))\<rparr>;
               s1 = s\<lparr>st_active := st_active s @ [\<lparr>fe_slot = i, fe_pointer = pointer\<rparr>]\<rparr> in
           if i = length (st_slots s) then (Inr r, s1\<lparr>st_slots := st_slots s @ [slot]\<rparr>)
           else
             let s2 = s1\<lparr>st_free := butlast (st_free s)\<rparr> in
             if i < length (st_slots s) then (Inr r, s2\<lparr>st_slots := (st_slots s)[i := slot]\<rparr>)
             else (Inl Panic, s2))"

text \<open>\<open>FrameRoots::get\<close>.\<close>

definition fr_get :: "frame_id \<Rightarrow> (store, nat option) exec" where
  "fr_get r s =
     (case fr_position s r of
        None \<Rightarrow> (Inr None, s)
      | Some position \<Rightarrow>
          (case get (st_active s) position of
             None \<Rightarrow> (Inl Panic, s)
           | Some entry \<Rightarrow> (Inr (Some (fe_pointer entry)), s)))"

text \<open>\<open>FrameRoots::replace\<close>.\<close>

definition fr_replace :: "bool \<Rightarrow> frame_id \<Rightarrow> nat \<Rightarrow> (store, bool) exec" where
  "fr_replace collecting r pointer =
     bindX (outside_tracing collecting) (\<lambda>_ s.
       case fr_position s r of
         None \<Rightarrow> (Inr False, s)
       | Some position \<Rightarrow>
           (case get (st_active s) position of
              None \<Rightarrow> (Inl Panic, s)
            | Some entry \<Rightarrow>
                (Inr True, s\<lparr>st_active := (st_active s)[position := entry\<lparr>fe_pointer := pointer\<rparr>]\<rparr>)))"

text \<open>\<open>FrameRoots::remove\<close>: the last entry moves into the hole and its slot follows it.\<close>

definition set_position :: "nat \<Rightarrow> nat option \<Rightarrow> (store, unit) exec" where
  "set_position i position s =
     (case get (st_slots s) i of
        None \<Rightarrow> (Inl Panic, s)
      | Some slot \<Rightarrow> (Inr (), s\<lparr>st_slots := (st_slots s)[i := slot\<lparr>fs_position := position\<rparr>]\<rparr>))"

definition fr_remove :: "bool \<Rightarrow> frame_id \<Rightarrow> (store, bool) exec" where
  "fr_remove collecting r =
     bindX (outside_tracing collecting) (\<lambda>_ s.
       case fr_position s r of
         None \<Rightarrow> (Inr False, s)
       | Some position \<Rightarrow>
           (case get (st_active s) position of
              None \<Rightarrow> (Inl Panic, s)
            | Some removed \<Rightarrow>
                bindX (modifyX (\<lambda>s. s\<lparr>st_active := swap_remove (st_active s) position\<rparr>)) (\<lambda>_.
                bindX (\<lambda>s. if position < length (st_active s)
                           then set_position (fe_slot (st_active s ! position)) (Some position) s
                           else (Inr (), s)) (\<lambda>_.
                bindX (set_position (fe_slot removed) None) (\<lambda>_.
                bindX (modifyX (\<lambda>s. s\<lparr>st_free := st_free s @ [fe_slot removed]\<rparr>)) (\<lambda>_.
                retX True)))) s))"

text \<open>\<open>trace\<close> rewrites every retained pointer to where its frame moved.\<close>

definition fr_trace :: "(nat \<Rightarrow> nat) \<Rightarrow> store \<Rightarrow> store" where
  "fr_trace visit s =
     s\<lparr>st_active := map (\<lambda>entry. entry\<lparr>fe_pointer := visit (fe_pointer entry)\<rparr>) (st_active s)\<rparr>"

section \<open>The invariant\<close>

definition store_ok :: "store \<Rightarrow> bool" where
  "store_ok s \<longleftrightarrow>
     (\<forall>j < length (st_active s). fe_slot (st_active s ! j) < length (st_slots s)
        \<and> fs_position (st_slots s ! fe_slot (st_active s ! j)) = Some j)
     \<and> (\<forall>k < length (st_slots s). \<forall>j. fs_position (st_slots s ! k) = Some j
        \<longrightarrow> j < length (st_active s) \<and> fe_slot (st_active s ! j) = k)
     \<and> distinct (st_free s)
     \<and> (\<forall>k. k \<in> set (st_free s) \<longleftrightarrow> k < length (st_slots s) \<and> fs_position (st_slots s ! k) = None)"

text \<open>What an identity resolves to, and which identities were handed out so far.\<close>

definition roots_of :: "store \<Rightarrow> frame_id \<Rightarrow> nat option" where
  "roots_of s r = map_option (\<lambda>j. fe_pointer (st_active s ! j)) (fr_position s r)"

definition fr_issued :: "store \<Rightarrow> frame_id \<Rightarrow> bool" where
  "fr_issued s r \<longleftrightarrow> fid_key r < length (st_slots s) \<and> 1 \<le> fid_generation r
     \<and> fid_generation r \<le> fs_generation (st_slots s ! fid_key r)"

definition store_wf :: "store \<Rightarrow> bool" where
  "store_wf s \<longleftrightarrow> store_ok s \<and> (\<forall>k < length (st_slots s). 1 \<le> fs_generation (st_slots s ! k))"

lemma empty_store_wf: "store_wf empty_store"
  by (simp add: store_wf_def store_ok_def empty_store_def)

lemma fr_position_Some:
  "fr_position s r = Some j \<longleftrightarrow> fid_key r < length (st_slots s)
     \<and> fs_generation (st_slots s ! fid_key r) = fid_generation r
     \<and> fs_position (st_slots s ! fid_key r) = Some j"
  by (auto simp: fr_position_def get_def)

lemma fr_position_active: "store_ok s \<Longrightarrow> fr_position s r = Some j \<Longrightarrow> j < length (st_active s) \<and> fe_slot (st_active s ! j) = fid_key r"
  by (auto simp: fr_position_Some store_ok_def)

lemma fr_get_roots: "store_ok s \<Longrightarrow> fr_get r s = (Inr (roots_of s r), s)"
  using fr_position_active [of s r] by (auto simp: fr_get_def roots_of_def split: option.split)

lemma outside_tracing_apply [simp]:
  "outside_tracing c s = (if c then (Inl (Fatal ''frame roots cannot change during GC tracing''), s) else (Inr (), s))"
  by (simp add: outside_tracing_def)

section \<open>Insertion\<close>

lemma last_of_Some: "last_of xs = Some x \<longleftrightarrow> xs \<noteq> [] \<and> x = last xs"
  by (auto simp: last_of_def)

text \<open>Where the next identity goes, and the generation that its slot had.\<close>

definition next_slot :: "store \<Rightarrow> nat" where
  "next_slot s = (case last_of (st_free s) of None \<Rightarrow> length (st_slots s) | Some i \<Rightarrow> i)"

definition old_generation :: "store \<Rightarrow> nat" where
  "old_generation s =
     (case get (st_slots s) (next_slot s) of None \<Rightarrow> 0 | Some slot \<Rightarrow> fs_generation slot)"

lemma next_slot_cases:
  assumes "store_ok s"
  obtains (new) "next_slot s = length (st_slots s)" "st_free s = []" "old_generation s = 0"
    | (reused) "next_slot s < length (st_slots s)" "st_free s \<noteq> []" "next_slot s = last (st_free s)"
      "fs_position (st_slots s ! next_slot s) = None"
      "old_generation s = fs_generation (st_slots s ! next_slot s)"
proof (cases "st_free s = []")
  case True
  then show ?thesis using new by (simp add: next_slot_def old_generation_def last_of_def)
next
  case False
  then have "next_slot s = last (st_free s)" by (simp add: next_slot_def last_of_def)
  moreover have "last (st_free s) \<in> set (st_free s)" using False by simp
  moreover from this have "next_slot s < length (st_slots s)" "fs_position (st_slots s ! next_slot s) = None"
    using assms calculation unfolding store_ok_def by metis+
  ultimately show ?thesis
    using reused False by (simp add: old_generation_def)
qed

lemma set_butlast: "distinct xs \<Longrightarrow> xs \<noteq> [] \<Longrightarrow> set (butlast xs) = set xs - {last xs}"
  by (induction xs rule: rev_induct) auto

lemma fr_insert_step:
  assumes ok: "store_wf s" and run: "fr_insert c p s = (Inr r, t)"
  shows "\<not> c \<and> r = \<lparr>fid_key = next_slot s, fid_generation = old_generation s + 1\<rparr>
    \<and> st_active t = st_active s @ [\<lparr>fe_slot = next_slot s, fe_pointer = p\<rparr>]
    \<and> (let slot = \<lparr>fs_generation = old_generation s + 1, fs_position = Some (length (st_active s))\<rparr> in
        st_slots t = (if next_slot s = length (st_slots s) then st_slots s @ [slot]
                      else (st_slots s)[next_slot s := slot]))
    \<and> st_free t = (if next_slot s = length (st_slots s) then st_free s else butlast (st_free s))"
  using run unfolding fr_insert_def bindX_def
  by (auto simp: Let_def next_slot_def [symmetric] old_generation_def [symmetric] split: if_splits option.splits)

lemma store_ok_insert:
  assumes ok: "store_ok s" and active: "st_active t = st_active s @ [\<lparr>fe_slot = next_slot s, fe_pointer = p\<rparr>]"
    and slot: "fs_position slot = Some (length (st_active s))"
    and slots: "st_slots t = (if next_slot s = length (st_slots s) then st_slots s @ [slot]
        else (st_slots s)[next_slot s := slot])"
    and free: "st_free t = (if next_slot s = length (st_slots s) then st_free s else butlast (st_free s))"
  shows "store_ok t"
  using ok
proof (cases rule: next_slot_cases)
  case new
  with ok show ?thesis
    unfolding store_ok_def active slots free using slot
    by (auto simp: nth_append less_Suc_eq)
next
  case reused
  have unused: "fe_slot (st_active s ! j) \<noteq> next_slot s" if "j < length (st_active s)" for j
    using ok that reused(4) unfolding store_ok_def by force
  have freed: "set (butlast (st_free s)) = set (st_free s) - {next_slot s}" "distinct (butlast (st_free s))"
    using ok reused by (simp_all add: store_ok_def set_butlast distinct_butlast)
  have slots': "st_slots t = (st_slots s)[next_slot s := slot]" "st_free t = butlast (st_free s)"
    using slots free reused(1) by simp_all
  have position: "fs_position (st_slots t ! k) =
      (if k = next_slot s then Some (length (st_active s)) else fs_position (st_slots s ! k))" for k
    using slot reused(1) by (simp add: slots' update_nth)
  show ?thesis
    unfolding store_ok_def position
  proof (intro conjI allI impI)
    fix k
    show "k \<in> set (st_free t) \<longleftrightarrow> k < length (st_slots t)
        \<and> (if k = next_slot s then Some (length (st_active s)) else fs_position (st_slots s ! k)) = None"
      using ok freed by (simp add: slots' store_ok_def)
  qed (use ok reused(1) unused freed in
      \<open>auto simp: store_ok_def active slots' nth_append less_Suc_eq split: if_splits\<close>)
qed

lemma fr_position_insert:
  assumes ok: "store_ok s" and active: "st_active t = st_active s @ [e]"
    and slots: "st_slots t = (if next_slot s = length (st_slots s) then st_slots s @ [slot]
        else (st_slots s)[next_slot s := slot])"
    and slot: "slot = \<lparr>fs_generation = old_generation s + 1, fs_position = Some (length (st_active s))\<rparr>"
    and r: "r = \<lparr>fid_key = next_slot s, fid_generation = old_generation s + 1\<rparr>"
  shows "fr_position t i = (if i = r then Some (length (st_active s)) else fr_position s i)"
  using ok
proof (cases rule: next_slot_cases)
  case new
  then show ?thesis
    by (auto simp: fr_position_def slots slot r nth_append get_def less_Suc_eq)
next
  case reused
  then show ?thesis
    by (auto simp: fr_position_def slots slot r update_nth get_def)
qed

lemma fr_insert_ok:
  assumes ok: "store_wf s" and run: "fr_insert c p s = (Inr r, t)"
  shows "store_wf t" and "roots_of t = (roots_of s)(r \<mapsto> p)" and "\<not> fr_issued s r"
    and "fr_issued t i \<longleftrightarrow> fr_issued s i \<or> i = r"
proof -
  note step = fr_insert_step [OF ok run, unfolded Let_def]
  have inv: "store_ok s" using ok by (simp add: store_wf_def)
  have "store_ok t"
    by (rule store_ok_insert [OF inv]) (use step in auto)
  then show "store_wf t"
    using ok step by (auto simp: store_wf_def nth_append less_Suc_eq update_nth)
  have active: "j < length (st_active s)" if "fr_position s i = Some j" for i j
    using fr_position_active [OF inv that] by simp
  have "fr_position t i = (if i = r then Some (length (st_active s)) else fr_position s i)" for i
    by (rule fr_position_insert [OF inv _ _ refl]) (use step in auto)
  note position = this
  have "roots_of t i = ((roots_of s)(r \<mapsto> p)) i" for i
    using step active [of i] by (cases "fr_position s i") (auto simp: roots_of_def position nth_append)
  then show "roots_of t = (roots_of s)(r \<mapsto> p)" ..
  show "\<not> fr_issued s r"
    using step by (cases rule: next_slot_cases [OF inv]) (auto simp: fr_issued_def)
  show "fr_issued t i \<longleftrightarrow> fr_issued s i \<or> i = r"
    using step by (cases rule: next_slot_cases [OF inv]; cases i)
      (auto simp: fr_issued_def nth_append update_nth less_Suc_eq)
qed

text \<open>Insertion stops only when a slot has used up its generations.\<close>

lemma fr_insert_succeeds:
  assumes ok: "store_wf s" and "int (old_generation s) + 1 < 2 ^ 64"
  shows "\<exists>r t. fr_insert False p s = (Inr r, t)"
  using assms(2) unfolding fr_insert_def bindX_def
  by (cases rule: next_slot_cases [OF ok [unfolded store_wf_def, THEN conjunct1]])
    (auto simp: Let_def next_slot_def [symmetric] old_generation_def [symmetric] checked_add_def)

lemma fr_insert_stops:
  assumes "store_wf s" and "fr_insert c p s = (Inl e, t)"
  shows "e = Fatal ''frame roots cannot change during GC tracing'' \<or> e = Fatal ''frame root generation exhausted''"
  using assms(2) unfolding fr_insert_def bindX_def
  by (cases rule: next_slot_cases [OF assms(1) [unfolded store_wf_def, THEN conjunct1]])
    (auto simp: Let_def next_slot_def [symmetric] old_generation_def [symmetric] split: if_splits option.splits)

section \<open>Replacement and removal\<close>

lemma fr_replace_ok:
  assumes ok: "store_wf s"
  shows "fr_replace False r p s =
    (case fr_position s r of None \<Rightarrow> (Inr False, s)
     | Some j \<Rightarrow> (Inr True, s\<lparr>st_active := (st_active s)[j := (st_active s ! j)\<lparr>fe_pointer := p\<rparr>]\<rparr>))"
  using fr_position_active [of s r] ok
  by (auto simp: fr_replace_def bindX_def store_wf_def split: option.split)

lemma store_wf_active:
  assumes "store_wf s" and "length a = length (st_active s)"
    and "\<And>j. j < length a \<Longrightarrow> fe_slot (a ! j) = fe_slot (st_active s ! j)"
  shows "store_wf (s\<lparr>st_active := a\<rparr>)"
  using assms unfolding store_wf_def store_ok_def by (auto 4 3)

lemma fr_position_inj:
  assumes "store_wf s" "fr_position s i = Some j" "fr_position s r = Some j"
  shows "i = r"
proof -
  have "fid_key i = fid_key r"
    using assms fr_position_active unfolding store_wf_def by metis
  with assms(2,3) show ?thesis
    by (auto simp: fr_position_Some intro!: frame_id.equality)
qed

definition replaced :: "store \<Rightarrow> nat \<Rightarrow> nat \<Rightarrow> store" where
  "replaced s j p = s\<lparr>st_active := (st_active s)[j := (st_active s ! j)\<lparr>fe_pointer := p\<rparr>]\<rparr>"

lemma replaced_ok:
  assumes "store_wf s" "fr_position s r = Some j"
  shows "store_wf (replaced s j p)" and "roots_of (replaced s j p) = (roots_of s)(r \<mapsto> p)"
    and "fr_issued (replaced s j p) = fr_issued s"
proof -
  show "store_wf (replaced s j p)"
    unfolding replaced_def by (rule store_wf_active [OF assms(1)]) (simp_all add: update_nth)
  have position: "fr_position (replaced s j p) = fr_position s"
    by (simp add: fun_eq_iff fr_position_def replaced_def)
  have "roots_of (replaced s j p) i = ((roots_of s)(r \<mapsto> p)) i" for i
  proof (cases "fr_position s i")
    case (Some m)
    have m: "m < length (st_active s)"
      using fr_position_active [OF _ Some] assms(1) by (simp add: store_wf_def)
    show ?thesis
    proof (cases "i = r")
      case True
      then show ?thesis
        using Some assms(2) m position by (simp add: roots_of_def replaced_def)
    next
      case False
      then have "m \<noteq> j"
        using fr_position_inj [OF assms(1) Some] assms(2) by blast
      then show ?thesis
        using Some False m by (simp add: roots_of_def position) (simp add: replaced_def)
    qed
  qed (use assms(2) in \<open>auto simp: roots_of_def position\<close>)
  then show "roots_of (replaced s j p) = (roots_of s)(r \<mapsto> p)" ..
  show "fr_issued (replaced s j p) = fr_issued s"
    by (simp add: fun_eq_iff fr_issued_def replaced_def)
qed

lemma fr_replace_wf:
  assumes "store_wf s" "fr_replace c r p s = (Inr b, t)"
  shows "store_wf t" and "b \<longleftrightarrow> roots_of s r \<noteq> None"
    and "roots_of t = (if b then (roots_of s)(r \<mapsto> p) else roots_of s)"
    and "fr_issued t = fr_issued s"
proof -
  have "\<not> c" using assms(2) by (auto simp: fr_replace_def bindX_def split: if_splits)
  then have "b \<and> (\<exists>j. fr_position s r = Some j \<and> t = replaced s j p) \<or> \<not> b \<and> fr_position s r = None \<and> t = s"
    using assms(2) fr_replace_ok [OF assms(1), of r p] by (auto simp: replaced_def split: option.splits)
  then show "store_wf t" and "b \<longleftrightarrow> roots_of s r \<noteq> None"
    and "roots_of t = (if b then (roots_of s)(r \<mapsto> p) else roots_of s)"
    and "fr_issued t = fr_issued s"
    using replaced_ok [OF assms(1)] assms(1) by (auto simp: roots_of_def)
qed

text \<open>The state after a removal: the last entry fills the hole.\<close>

definition removed :: "store \<Rightarrow> nat \<Rightarrow> nat \<Rightarrow> store" where
  "removed s k j =
     (let slots = (if j < length (st_active s) - 1
                   then (st_slots s)[fe_slot (last (st_active s)) :=
                     (st_slots s ! fe_slot (last (st_active s)))\<lparr>fs_position := Some j\<rparr>]
                   else st_slots s) in
      s\<lparr>st_active := swap_remove (st_active s) j, st_slots := slots[k := (slots ! k)\<lparr>fs_position := None\<rparr>],
        st_free := st_free s @ [k]\<rparr>)"

lemma fr_remove_ok:
  assumes ok: "store_wf s"
  shows "fr_remove False r s =
    (case fr_position s r of None \<Rightarrow> (Inr False, s) | Some j \<Rightarrow> (Inr True, removed s (fid_key r) j))"
proof (cases "fr_position s r")
  case None
  then show ?thesis by (simp add: fr_remove_def bindX_def)
next
  case (Some j)
  have inv: "store_ok s" using ok by (simp add: store_wf_def)
  have j: "j < length (st_active s)" "fe_slot (st_active s ! j) = fid_key r"
    using fr_position_active [OF inv Some] by auto
  then have key: "fid_key r < length (st_slots s)"
    using inv unfolding store_ok_def by metis
  have "last (st_active s) = st_active s ! (length (st_active s) - 1)"
    using j(1) by (cases "st_active s") (simp_all add: last_conv_nth)
  then have "fe_slot (last (st_active s)) < length (st_slots s)"
    using inv j(1) unfolding store_ok_def by (metis Suc_pred diff_less less_nat_zero_code not_gr_zero zero_less_one)
  then show ?thesis
    using Some j key
    by (auto simp: fr_remove_def bindX_def removed_def set_position_def Let_def swap_remove_nth)
qed

lemma removed_positions:
  assumes ok: "store_ok s" and j: "j < length (st_active s)" and k: "fe_slot (st_active s ! j) = k"
    and i: "i < length (st_slots s)"
  shows "fs_position (st_slots (removed s k j) ! i) =
      (if i = k then None
       else if fs_position (st_slots s ! i) = Some (length (st_active s) - 1) then Some j
       else fs_position (st_slots s ! i))"
    and "fs_generation (st_slots (removed s k j) ! i) = fs_generation (st_slots s ! i)"
proof -
  have "st_active s \<noteq> []" using j by auto
  then have last: "last (st_active s) = st_active s ! (length (st_active s) - 1)"
    by (rule last_conv_nth)
  have slot: "fs_position (st_slots s ! fe_slot (last (st_active s))) = Some (length (st_active s) - 1)"
      "fe_slot (last (st_active s)) < length (st_slots s)"
    using ok j unfolding last store_ok_def by auto
  have points: "fe_slot (last (st_active s)) = i" if "fs_position (st_slots s ! i) = Some (length (st_active s) - 1)"
    using ok that i unfolding last store_ok_def by blast
  have moved: "fs_position (st_slots s ! i) = Some (length (st_active s) - 1) \<longleftrightarrow> i = fe_slot (last (st_active s))"
    using slot points by auto
  have hole: "\<not> j < length (st_active s) - 1 \<longleftrightarrow> fe_slot (last (st_active s)) = k"
  proof
    assume "\<not> j < length (st_active s) - 1"
    then have "j = length (st_active s) - 1" using j by simp
    then show "fe_slot (last (st_active s)) = k" using k last by simp
  next
    assume "fe_slot (last (st_active s)) = k"
    then have "fs_position (st_slots s ! k) = Some (length (st_active s) - 1)" using slot by simp
    moreover have "fs_position (st_slots s ! k) = Some j" using ok j k unfolding store_ok_def by blast
    ultimately show "\<not> j < length (st_active s) - 1" by simp
  qed
  show "fs_position (st_slots (removed s k j) ! i) =
      (if i = k then None
       else if fs_position (st_slots s ! i) = Some (length (st_active s) - 1) then Some j
       else fs_position (st_slots s ! i))"
    using i hole moved by (auto simp: removed_def Let_def update_nth)
  show "fs_generation (st_slots (removed s k j) ! i) = fs_generation (st_slots s ! i)"
    using i by (auto simp: removed_def Let_def update_nth)
qed

lemma removed_shape:
  "length (st_slots (removed s k j)) = length (st_slots s)"
  "st_active (removed s k j) = swap_remove (st_active s) j"
  "st_free (removed s k j) = st_free s @ [k]"
  by (simp_all add: removed_def Let_def)

lemma store_wf_removed:
  assumes ok: "store_wf s" and j: "j < length (st_active s)" and k: "fe_slot (st_active s ! j) = k"
  shows "store_wf (removed s k j)"
proof -
  have inv: "store_ok s" using ok by (simp add: store_wf_def)
  let ?n = "length (st_active s) - 1"
  note pos = removed_positions(1) [OF inv j k]
  have in_range: "fe_slot (st_active s ! m) < length (st_slots s)"
      "fs_position (st_slots s ! fe_slot (st_active s ! m)) = Some m" if "m < length (st_active s)" for m
    using inv that unfolding store_ok_def by blast+
  have points: "m < length (st_active s)" "fe_slot (st_active s ! m) = i"
    if "i < length (st_slots s)" "fs_position (st_slots s ! i) = Some m" for i m
    using inv that unfolding store_ok_def by blast+
  have "st_active s \<noteq> []" using j by auto
  then have last: "last (st_active s) = st_active s ! ?n"
    by (rule last_conv_nth)
  have entry: "swap_remove (st_active s) j ! m = st_active s ! (if m = j then ?n else m)" if "m < ?n" for m
    using that j last by (simp add: swap_remove_nth)
  have "store_ok (removed s k j)"
    unfolding store_ok_def removed_shape swap_remove_length
  proof (intro conjI allI impI)
    fix m
    assume m: "m < ?n"
    let ?m = "if m = j then ?n else m"
    have "?m < length (st_active s)" "?m \<noteq> j" using m j by auto
    moreover from this have "fe_slot (st_active s ! ?m) \<noteq> k"
      using in_range(2) j k by (metis option.inject)
    ultimately show "fe_slot (swap_remove (st_active s) j ! m) < length (st_slots s)"
        and "fs_position (st_slots (removed s k j) ! fe_slot (swap_remove (st_active s) j ! m)) = Some m"
      using in_range [of ?m] m pos by (auto simp: entry)
  next
    fix i m
    assume i: "i < length (st_slots s)" and m: "fs_position (st_slots (removed s k j) ! i) = Some m"
    then have cases: "i \<noteq> k" "fs_position (st_slots s ! i) = Some ?n \<and> m = j
        \<or> fs_position (st_slots s ! i) = Some m \<and> m \<noteq> ?n"
      using pos [OF i] by (auto split: if_splits)
    have "m \<noteq> j" if "fs_position (st_slots s ! i) = Some m"
      using points(2) [OF i that] cases(1) k by auto
    moreover have "?n \<noteq> j" if "fs_position (st_slots s ! i) = Some ?n"
      using points(2) [OF i that] cases(1) k by auto
    ultimately show "m < ?n" and "fe_slot (swap_remove (st_active s) j ! m) = i"
      using cases points [OF i] j by (auto simp: entry)
  next
    show "distinct (st_free s @ [k])"
      using inv in_range [OF j] k unfolding store_ok_def by auto
    show "i \<in> set (st_free s @ [k]) \<longleftrightarrow> i < length (st_slots s) \<and> fs_position (st_slots (removed s k j) ! i) = None" for i
      using inv in_range [OF j] k pos [of i] unfolding store_ok_def by (auto split: if_splits)
  qed
  then show ?thesis
    using ok removed_positions(2) [OF inv j k] by (simp add: store_wf_def removed_shape)
qed

lemma fr_remove_wf:
  assumes ok: "store_wf s" and run: "fr_remove c r s = (Inr b, t)"
  shows "store_wf t" and "b \<longleftrightarrow> roots_of s r \<noteq> None" and "roots_of t = (roots_of s)(r := None)"
    and "fr_issued t = fr_issued s"
proof -
  have c: "\<not> c" using run by (auto simp: fr_remove_def bindX_def split: if_splits)
  have inv: "store_ok s" using ok by (simp add: store_wf_def)
  have run: "(case fr_position s r of None \<Rightarrow> (Inr False, s) | Some j \<Rightarrow> (Inr True, removed s (fid_key r) j)) = ((Inr b, t) :: (stop + bool) \<times> store)"
    using run c fr_remove_ok [OF ok] by simp
  show "b \<longleftrightarrow> roots_of s r \<noteq> None"
    using run by (auto simp: roots_of_def split: option.splits)
  have "store_wf t \<and> roots_of t = (roots_of s)(r := None) \<and> fr_issued t = fr_issued s"
  proof (cases "fr_position s r")
    case None
    then show ?thesis using run ok by (auto simp: roots_of_def)
  next
    case (Some j)
    then have t: "t = removed s (fid_key r) j" using run by simp
    have j: "j < length (st_active s)" "fe_slot (st_active s ! j) = fid_key r"
      using fr_position_active [OF inv Some] by auto
    note pos = removed_positions [OF inv j] and shape = removed_shape [of s "fid_key r" j, folded t]
    have "roots_of t i = ((roots_of s)(r := None)) i" for i
    proof (cases "fr_position s i")
      case None
      then show ?thesis
        using pos by (auto simp: roots_of_def fr_position_def get_def t removed_shape split: if_splits)
    next
      case (Some m)
      have m: "m < length (st_active s)" "fe_slot (st_active s ! m) = fid_key i"
        using fr_position_active [OF inv Some] by auto
      have "fid_key i = fid_key r \<longleftrightarrow> i = r"
        using Some \<open>fr_position s r = Some j\<close> by (auto simp: fr_position_Some intro!: frame_id.equality)
      then have "fr_position t i = (if i = r then None else if m = length (st_active s) - 1 then Some j else Some m)"
        using Some pos by (auto simp: fr_position_def get_def t removed_shape split: if_splits)
      moreover have "m \<noteq> j" if "i \<noteq> r"
        using fr_position_inj [OF ok Some] \<open>fr_position s r = Some j\<close> that by auto
      moreover have "last (st_active s) = st_active s ! (length (st_active s) - 1)"
        using m(1) by (cases "st_active s") (simp_all add: last_conv_nth)
      ultimately show ?thesis
        using Some m j by (auto simp: roots_of_def shape swap_remove_nth)
    qed
    then have "roots_of t = (roots_of s)(r := None)" ..
    moreover have "store_wf t"
      using store_wf_removed [OF ok j] by (simp add: t)
    moreover have "fr_issued t = fr_issued s"
      using pos by (auto simp: fr_issued_def fun_eq_iff shape t removed_shape)
    ultimately show ?thesis by simp
  qed
  then show "store_wf t" "roots_of t = (roots_of s)(r := None)" "fr_issued t = fr_issued s"
    by auto
qed

section \<open>Tracing\<close>

lemma fr_trace_ok:
  assumes "store_wf s"
  shows "store_wf (fr_trace visit s)" and "roots_of (fr_trace visit s) = map_option visit \<circ> roots_of s"
    and "fr_issued (fr_trace visit s) = fr_issued s"
proof -
  show "store_wf (fr_trace visit s)"
    unfolding fr_trace_def by (rule store_wf_active [OF assms]) simp_all
  have position: "fr_position (fr_trace visit s) = fr_position s"
    by (simp add: fun_eq_iff fr_position_def fr_trace_def)
  have "roots_of (fr_trace visit s) r = (map_option visit \<circ> roots_of s) r" for r
    using fr_position_active [of s r] assms
    by (cases "fr_position s r") (simp_all add: roots_of_def position, simp add: fr_trace_def store_wf_def)
  then show "roots_of (fr_trace visit s) = map_option visit \<circ> roots_of s" ..
  show "fr_issued (fr_trace visit s) = fr_issued s"
    by (simp add: fun_eq_iff fr_issued_def fr_trace_def)
qed

section \<open>Identities\<close>

inductive fr_step :: "store \<Rightarrow> store \<Rightarrow> bool" where
  insert: "fr_insert c p s = (Inr r, t) \<Longrightarrow> fr_step s t"
| replace: "fr_replace c r p s = (Inr b, t) \<Longrightarrow> fr_step s t"
| remove: "fr_remove c r s = (Inr b, t) \<Longrightarrow> fr_step s t"
| trace: "fr_step s (fr_trace visit s)"

inductive_cases fr_stepE: "fr_step s t"

lemma fr_step_ok:
  assumes "fr_step s t" and ok: "store_wf s"
  shows "store_wf t" and "fr_issued s r \<Longrightarrow> fr_issued t r"
    and "roots_of t r \<noteq> None \<Longrightarrow> roots_of s r \<noteq> None \<or> \<not> fr_issued s r"
proof -
  have "store_wf t \<and> (fr_issued s r \<longrightarrow> fr_issued t r)
      \<and> (roots_of t r \<noteq> None \<longrightarrow> roots_of s r \<noteq> None \<or> \<not> fr_issued s r)"
    using assms(1)
  proof cases
    case (insert c p i)
    from fr_insert_ok [OF ok this] show ?thesis by auto
  next
    case (replace c i p b)
    from fr_replace_wf [OF ok this] show ?thesis by auto
  next
    case (remove c i b)
    from fr_remove_wf [OF ok this] show ?thesis by auto
  next
    case (trace visit)
    from fr_trace_ok [OF ok, of visit] show ?thesis by (auto simp: trace)
  qed
  then show "store_wf t" and "fr_issued s r \<Longrightarrow> fr_issued t r"
    and "roots_of t r \<noteq> None \<Longrightarrow> roots_of s r \<noteq> None \<or> \<not> fr_issued s r"
    by auto
qed

lemma roots_issued: "store_wf s \<Longrightarrow> roots_of s r \<noteq> None \<Longrightarrow> fr_issued s r"
  by (auto simp: roots_of_def fr_position_Some fr_issued_def store_wf_def)

interpretation frames: one_shot store_wf "\<lambda>s r. roots_of s r \<noteq> None" fr_issued fr_step
  by unfold_locales (use fr_step_ok roots_issued in blast)+

end
