(* ===== verification/Reactor.thy ===== *)
theory Reactor
  imports Waits Frames
begin

text \<open>
  The invariant of the reactor (\<open>compiler/runtime/src/wait.rs\<close>) and what its operations keep.
  \<open>wait_ok X\<close> says that every active registration is exactly where its kind puts it (the timer
  tree, the interests of its handle), except the ones in \<open>X\<close>, which an operation has inserted but
  not yet linked, or unlinked but not yet removed.  Between operations \<open>X\<close> is empty.
\<close>

section \<open>Registrations\<close>

definition slots_ok :: "reactor \<Rightarrow> bool" where
  "slots_ok core \<longleftrightarrow> distinct (re_free core)
     \<and> (\<forall>k. k \<in> set (re_free core) \<longleftrightarrow> k < length (re_slots core) \<and> wt_active (re_slots core ! k) = None)
     \<and> (\<forall>k < length (re_slots core). 1 \<le> wt_generation (re_slots core ! k))"

definition issued :: "reactor \<Rightarrow> registration \<Rightarrow> bool" where
  "issued core r \<longleftrightarrow> rg_key r < length (re_slots core) \<and> 1 \<le> rg_generation r
     \<and> rg_generation r \<le> wt_generation (re_slots core ! rg_key r)"

lemma active_Some:
  "active core r = Some a \<longleftrightarrow> rg_key r < length (re_slots core)
     \<and> wt_generation (re_slots core ! rg_key r) = rg_generation r
     \<and> wt_active (re_slots core ! rg_key r) = Some a"
  by (auto simp: active_def get_def)

lemma active_issued: "slots_ok core \<Longrightarrow> active core r = Some a \<Longrightarrow> issued core r"
  by (auto simp: active_Some issued_def slots_ok_def)

lemma active_key: "active core r = Some a \<Longrightarrow> active core r' = Some a' \<Longrightarrow> rg_key r = rg_key r' \<Longrightarrow> r = r'"
  by (auto simp: active_Some intro!: registration.equality)

lemma core_insert_ok:
  assumes ok: "slots_ok core" and run: "core_insert source owner core = (Inr (Inr r), core')"
  shows "slots_ok core'" and "active core' = (active core)(r \<mapsto> \<lparr>aw_source = source, aw_owner = owner\<rparr>)"
    and "\<not> issued core r" and "issued core' i \<longleftrightarrow> issued core i \<or> i = r"
    and "core' = core\<lparr>re_slots := re_slots core', re_free := re_free core'\<rparr>"
proof -
  let ?new = "\<lambda>g. \<lparr>wt_generation = g, wt_active = Some \<lparr>aw_source = source, aw_owner = owner\<rparr>\<rparr>"
  have "slots_ok core' \<and> active core' = (active core)(r \<mapsto> \<lparr>aw_source = source, aw_owner = owner\<rparr>)
    \<and> \<not> issued core r \<and> (issued core' i \<longleftrightarrow> issued core i \<or> i = r)
    \<and> core' = core\<lparr>re_slots := re_slots core', re_free := re_free core'\<rparr>" for i
  proof (cases "re_free core = []")
    case True
    then have r: "r = \<lparr>rg_key = length (re_slots core), rg_generation = 1\<rparr>"
      and core': "core' = core\<lparr>re_slots := re_slots core @ [?new 1]\<rparr>"
      using run by (auto simp: core_insert_def last_of_def checked_add_def)
    have "active core' x = ((active core)(r \<mapsto> \<lparr>aw_source = source, aw_owner = owner\<rparr>)) x" for x
      by (cases x) (auto simp: active_def get_def core' r nth_append less_Suc_eq)
    then have "active core' = (active core)(r \<mapsto> \<lparr>aw_source = source, aw_owner = owner\<rparr>)" ..
    moreover have "slots_ok core'"
      using ok True by (auto simp: slots_ok_def core' nth_append less_Suc_eq)
    ultimately show ?thesis
      by (cases i) (auto simp: issued_def core' r nth_append less_Suc_eq)
  next
    case False
    let ?k = "last (re_free core)"
    have k: "?k < length (re_slots core)" "wt_active (re_slots core ! ?k) = None"
      using ok last_in_set [OF False] unfolding slots_ok_def by blast+
    let ?g = "wt_generation (re_slots core ! ?k) + 1"
    have r: "r = \<lparr>rg_key = ?k, rg_generation = ?g\<rparr>"
      and core': "core' = core\<lparr>re_slots := (re_slots core)[?k := ?new ?g], re_free := butlast (re_free core)\<rparr>"
      using run False k by (auto simp: core_insert_def last_of_def checked_add_def Let_def split: if_splits)
    have "active core' x = ((active core)(r \<mapsto> \<lparr>aw_source = source, aw_owner = owner\<rparr>)) x" for x
      using k by (cases x) (auto simp: active_def get_def core' r update_nth)
    then have "active core' = (active core)(r \<mapsto> \<lparr>aw_source = source, aw_owner = owner\<rparr>)" ..
    moreover have "set (butlast (re_free core)) = set (re_free core) - {?k}" "distinct (butlast (re_free core))"
      using ok False by (simp_all add: slots_ok_def set_butlast distinct_butlast)
    then have "slots_ok core'"
      using ok k by (auto simp: slots_ok_def core' update_nth)
    ultimately show ?thesis
      using k by (cases i) (auto simp: issued_def core' r update_nth)
  qed
  then show "slots_ok core'" "active core' = (active core)(r \<mapsto> \<lparr>aw_source = source, aw_owner = owner\<rparr>)"
    "\<not> issued core r" "issued core' i \<longleftrightarrow> issued core i \<or> i = r"
    "core' = core\<lparr>re_slots := re_slots core', re_free := re_free core'\<rparr>"
    by blast+
qed

lemma core_insert_cases:
  assumes ok: "slots_ok core"
  obtains (inserted) r core' where "core_insert source owner core = (Inr (Inr r), core')"
    | (full) "core_insert source owner core =
        (Inr (Inl (OtherError, ''wait registration generation exhausted'')), core)"
proof (cases "re_free core = []")
  case True
  then show ?thesis
    using that by (auto simp: core_insert_def last_of_def checked_add_def)
next
  case False
  then have "last (re_free core) < length (re_slots core)"
    using ok last_in_set unfolding slots_ok_def by blast
  then show ?thesis
    using that False
    by (cases "wt_generation (re_slots core ! last (re_free core)) < 2 ^ 64 - 1")
      (auto simp: core_insert_def last_of_def checked_add_def Let_def)
qed

definition removed_from :: "reactor \<Rightarrow> registration \<Rightarrow> reactor" where
  "removed_from core r = core\<lparr>re_slots := (re_slots core)[rg_key r :=
       (re_slots core ! rg_key r)\<lparr>wt_active := None\<rparr>], re_free := re_free core @ [rg_key r]\<rparr>"

lemma core_remove_active:
  "active core r = Some a \<Longrightarrow> core_remove r core = (Inr a, removed_from core r)"
  by (simp add: core_remove_def active_Some removed_from_def)

lemma removed_from_ok:
  assumes ok: "slots_ok core" and a: "active core r = Some a"
  shows "slots_ok (removed_from core r)" and "active (removed_from core r) = (active core)(r := None)"
    and "issued (removed_from core r) = issued core"
proof -
  show "slots_ok (removed_from core r)"
    using ok a by (auto simp: slots_ok_def removed_from_def active_Some update_nth)
  have "active (removed_from core r) x = ((active core)(r := None)) x" for x
    using a by (cases x; cases r) (auto simp: active_def get_def removed_from_def update_nth split: if_splits)
  then show "active (removed_from core r) = (active core)(r := None)" ..
  show "issued (removed_from core r) = issued core"
    using a by (auto simp: issued_def removed_from_def active_Some update_nth fun_eq_iff)
qed

section \<open>The invariant\<close>

definition refs :: "wait_handle \<Rightarrow> registration set" where
  "refs h = set_option (wh_read h) \<union> set_option (wh_write h)"

definition reads :: "active_wait \<Rightarrow> bool" where
  "reads a \<longleftrightarrow> (ws_interests (aw_source a) AND READABLE) \<noteq> 0"

definition writes :: "active_wait \<Rightarrow> bool" where
  "writes a \<longleftrightarrow> (ws_interests (aw_source a) AND WRITABLE) \<noteq> 0"

definition key_less :: "nat \<times> nat \<Rightarrow> nat \<times> nat \<Rightarrow> bool" where
  "key_less j k \<longleftrightarrow> fst j < fst k \<or> fst j = fst k \<and> snd j < snd k"

text \<open>The timer tree is ordered and holds timers only, at their deadlines.\<close>

definition timers_ok :: "reactor \<Rightarrow> bool" where
  "timers_ok core \<longleftrightarrow> sorted_wrt key_less (map fst (re_timers core))
     \<and> (\<forall>e \<in> set (re_timers core). \<exists>a. active core (snd e) = Some a \<and> ws_kind (aw_source a) = KIND_TIMER
          \<and> fst e = (ws_deadline (aw_source a), rg_key (snd e)))"

text \<open>A registration that a handle serves serves exactly its interests there.\<close>

definition placed :: "reactor \<Rightarrow> nat \<Rightarrow> wait_handle \<Rightarrow> registration \<Rightarrow> bool" where
  "placed core source h r \<longleftrightarrow> (\<exists>a. active core r = Some a \<and> ws_kind (aw_source a) = KIND_READINESS
     \<and> ws_handle (aw_source a) = source \<and> (wh_read h = Some r \<longleftrightarrow> reads a) \<and> (wh_write h = Some r \<longleftrightarrow> writes a))"

definition handles_ok :: "reactor \<Rightarrow> bool" where
  "handles_ok core \<longleftrightarrow> (\<forall>source h. re_handles core source = Some h \<longrightarrow>
     refs h \<noteq> {} \<and> re_poll_keys core (wh_event_key h) = Some source
     \<and> wh_event_key h \<le> re_next_poll_key core \<and> (\<forall>r \<in> refs h. placed core source h r))"

definition polls_ok :: "reactor \<Rightarrow> bool" where
  "polls_ok core \<longleftrightarrow> (\<forall>k source. re_poll_keys core k = Some source \<longrightarrow>
     (\<exists>h. re_handles core source = Some h \<and> wh_event_key h = k))"

definition ready_ok :: "reactor \<Rightarrow> bool" where
  "ready_ok core \<longleftrightarrow> distinct (map nt_registration (re_ready core))
     \<and> (\<forall>n \<in> set (re_ready core). issued core (nt_registration n) \<and> active core (nt_registration n) = None)"

definition linked :: "reactor \<Rightarrow> registration \<Rightarrow> active_wait \<Rightarrow> bool" where
  "linked core r a \<longleftrightarrow>
     (ws_kind (aw_source a) = KIND_TIMER \<longrightarrow> r \<in> snd ` set (re_timers core))
     \<and> (ws_kind (aw_source a) = KIND_READINESS \<longrightarrow>
        (\<exists>h. re_handles core (ws_handle (aw_source a)) = Some h \<and> r \<in> refs h))"

definition loose :: "reactor \<Rightarrow> registration \<Rightarrow> bool" where
  "loose core r \<longleftrightarrow> active core r \<noteq> None \<and> r \<notin> snd ` set (re_timers core)
     \<and> (\<forall>source h. re_handles core source = Some h \<longrightarrow> r \<notin> refs h)"

definition wait_ok :: "registration set \<Rightarrow> reactor \<Rightarrow> bool" where
  "wait_ok X core \<longleftrightarrow> slots_ok core \<and> timers_ok core \<and> handles_ok core \<and> polls_ok core \<and> ready_ok core
     \<and> (\<forall>r a. active core r = Some a \<longrightarrow> valid_source (aw_source a) \<and> (r \<notin> X \<longrightarrow> linked core r a))
     \<and> (\<forall>r \<in> X. loose core r)"

lemma new_reactor_ok: "wait_ok {} new_reactor"
  by (simp add: wait_ok_def new_reactor_def slots_ok_def timers_ok_def handles_ok_def polls_ok_def ready_ok_def
      active_def)

lemma wait_okD:
  assumes "wait_ok X core"
  shows "slots_ok core" "timers_ok core" "handles_ok core" "polls_ok core" "ready_ok core"
    "active core r = Some a \<Longrightarrow> valid_source (aw_source a)"
    "active core r = Some a \<Longrightarrow> r \<notin> X \<Longrightarrow> linked core r a" "r \<in> X \<Longrightarrow> loose core r"
  using assms by (simp_all add: wait_ok_def)

text \<open>Everything but the registrations themselves is left alone.\<close>

definition same_links :: "reactor \<Rightarrow> reactor \<Rightarrow> bool" where
  "same_links core core' \<longleftrightarrow> re_timers core' = re_timers core \<and> re_handles core' = re_handles core
     \<and> re_poll_keys core' = re_poll_keys core \<and> re_next_poll_key core' = re_next_poll_key core"

lemma wait_ok_insert:
  assumes ok: "wait_ok X core" and valid: "valid_source source"
    and run: "core_insert source owner core = (Inr (Inr r), core')"
  shows "wait_ok (insert r X) core'"
proof -
  note new = core_insert_ok [OF wait_okD(1) [OF ok] run]
  have none: "active core r = None"
    using new(3) active_issued [OF wait_okD(1) [OF ok]] by (cases "active core r") auto
  have same: "re_timers core' = re_timers core" "re_handles core' = re_handles core"
      "re_poll_keys core' = re_poll_keys core" "re_next_poll_key core' = re_next_poll_key core" "re_ready core' = re_ready core"
    by (subst new(5), simp)+
  have timers: "timers_ok core'"
    using wait_okD(2) [OF ok] none unfolding timers_ok_def same new(2) by fastforce
  have placed: "placed core' s h i" if "placed core s h i" for s h i
    using that none by (auto simp: placed_def new(2))
  have handles: "handles_ok core'"
    using wait_okD(3) [OF ok] placed unfolding handles_ok_def same by blast
  have polls: "polls_ok core'"
    using wait_okD(4) [OF ok] unfolding polls_ok_def same .
  have ready: "ready_ok core'"
    using wait_okD(5) [OF ok] new(3,4) unfolding ready_ok_def same new(2) by auto
  have linked: "linked core' i a" if "linked core i a" for i a
    using that unfolding linked_def same .
  have loose: "loose core' i" if "loose core i" for i
    using that unfolding loose_def same new(2) by auto
  have unplaced: "r \<notin> refs h" if "re_handles core s = Some h" for s h
    using wait_okD(3) [OF ok] that none unfolding handles_ok_def placed_def by fastforce
  have untimed: "r \<notin> snd ` set (re_timers core)"
    using wait_okD(2) [OF ok] none unfolding timers_ok_def by fastforce
  have "loose core' r"
    using unplaced untimed by (auto simp: loose_def same new(2))
  then show ?thesis
    using new(1) timers handles polls ready linked loose ok valid unfolding wait_ok_def new(2)
    by (auto split: if_splits)
qed

lemma wait_ok_remove:
  assumes ok: "wait_ok X core" and X: "r \<in> X" and a: "active core r = Some a"
  shows "wait_ok (X - {r}) (removed_from core r)"
proof -
  note rem = removed_from_ok [OF wait_okD(1) [OF ok] a]
  have same: "re_timers (removed_from core r) = re_timers core" "re_handles (removed_from core r) = re_handles core"
      "re_poll_keys (removed_from core r) = re_poll_keys core"
      "re_next_poll_key (removed_from core r) = re_next_poll_key core" "re_ready (removed_from core r) = re_ready core"
    by (simp_all add: removed_from_def)
  have r: "loose core r" by (rule wait_okD(8) [OF ok X])
  have "e \<in> set (re_timers core) \<Longrightarrow> snd e \<noteq> r" for e
    using r by (auto simp: loose_def)
  then have timers: "timers_ok (removed_from core r)"
    using wait_okD(2) [OF ok] unfolding timers_ok_def same rem(2) by fastforce
  have "i \<noteq> r" if "re_handles core s = Some h" "i \<in> refs h" for s h i
    using r that by (auto simp: loose_def)
  then have handles: "handles_ok (removed_from core r)"
    using wait_okD(3) [OF ok] unfolding handles_ok_def same placed_def rem(2) by fastforce
  have ready: "ready_ok (removed_from core r)"
    using wait_okD(5) [OF ok] unfolding ready_ok_def same rem by auto
  show ?thesis
    using rem(1) timers handles ready ok unfolding wait_ok_def polls_ok_def linked_def loose_def same rem(2)
    by auto
qed

definition finished :: "reactor \<Rightarrow> registration \<Rightarrow> active_wait \<Rightarrow> 32 word \<Rightarrow> int \<Rightarrow> reactor" where
  "finished core r a events os_error = (removed_from core r)\<lparr>re_ready := re_ready core @
     [\<lparr>nt_registration = r, nt_owner = aw_owner a, nt_events = events, nt_os_error = os_error\<rparr>]\<rparr>"

lemma core_finish_active:
  "active core r = Some a \<Longrightarrow> core_finish r events os_error core = (Inr (), finished core r a events os_error)"
  by (simp add: core_finish_def bindX_def core_remove_active finished_def) (simp add: removed_from_def)

lemma active_ready [simp]: "active (core\<lparr>re_ready := ns\<rparr>) = active core"
  "active (core\<lparr>re_timers := ts\<rparr>) = active core" "active (core\<lparr>re_handles := hs\<rparr>) = active core"
  "active (core\<lparr>re_poll_keys := ks\<rparr>) = active core" "active (core\<lparr>re_next_poll_key := k\<rparr>) = active core"
  by (simp_all add: active_def fun_eq_iff)

lemma issued_ready [simp]: "issued (core\<lparr>re_ready := ns\<rparr>) = issued core"
  "issued (core\<lparr>re_timers := ts\<rparr>) = issued core" "issued (core\<lparr>re_handles := hs\<rparr>) = issued core"
  "issued (core\<lparr>re_poll_keys := ks\<rparr>) = issued core" "issued (core\<lparr>re_next_poll_key := k\<rparr>) = issued core"
  by (simp_all add: issued_def fun_eq_iff)

lemma slots_ready [simp]: "slots_ok (core\<lparr>re_ready := ns\<rparr>) = slots_ok core"
  "slots_ok (core\<lparr>re_timers := ts\<rparr>) = slots_ok core" "slots_ok (core\<lparr>re_handles := hs\<rparr>) = slots_ok core"
  "slots_ok (core\<lparr>re_poll_keys := ks\<rparr>) = slots_ok core" "slots_ok (core\<lparr>re_next_poll_key := k\<rparr>) = slots_ok core"
  by (simp_all add: slots_ok_def)

lemma wait_ok_ready:
  "wait_ok X core \<Longrightarrow> ready_ok (core\<lparr>re_ready := ns\<rparr>) \<Longrightarrow> wait_ok X (core\<lparr>re_ready := ns\<rparr>)"
  by (simp add: wait_ok_def timers_ok_def handles_ok_def polls_ok_def placed_def linked_def loose_def)

lemma wait_ok_finish:
  assumes ok: "wait_ok X core" and X: "r \<in> X" and a: "active core r = Some a"
  shows "wait_ok (X - {r}) (finished core r a events os_error)"
  unfolding finished_def
proof (rule wait_ok_ready [OF wait_ok_remove [OF ok X a]])
  note rem = removed_from_ok [OF wait_okD(1) [OF ok] a]
  have "issued core r" by (rule active_issued [OF wait_okD(1) [OF ok] a])
  then show "ready_ok ((removed_from core r)\<lparr>re_ready := re_ready core @
     [\<lparr>nt_registration = r, nt_owner = aw_owner a, nt_events = events, nt_os_error = os_error\<rparr>]\<rparr>)"
    using wait_okD(5) [OF ok] a by (auto simp: ready_ok_def rem)
qed

section \<open>Timers\<close>

definition is_timer :: "reactor \<Rightarrow> registration \<Rightarrow> bool" where
  "is_timer core r \<longleftrightarrow> (\<exists>a. active core r = Some a \<and> ws_kind (aw_source a) = KIND_TIMER)"

lemma kinds_differ: "KIND_TIMER \<noteq> KIND_READINESS" "KIND_COMPLETION \<noteq> KIND_READINESS" "KIND_COMPLETION \<noteq> KIND_TIMER"
  by (simp_all add: wait_bits)

lemma wait_ok_timers:
  assumes ok: "wait_ok X core" and sorted: "sorted_wrt key_less (map fst ts)"
    and entries: "\<And>e. e \<in> set ts \<Longrightarrow> \<exists>a. active core (snd e) = Some a \<and> ws_kind (aw_source a) = KIND_TIMER
        \<and> fst e = (ws_deadline (aw_source a), rg_key (snd e))"
    and timed: "\<And>r. is_timer core r \<Longrightarrow> r \<in> snd ` set ts \<longleftrightarrow> r \<notin> X'"
    and rest: "\<And>r. \<not> is_timer core r \<Longrightarrow> r \<in> X' \<longleftrightarrow> r \<in> X" and active: "\<And>r. r \<in> X' \<Longrightarrow> active core r \<noteq> None"
  shows "wait_ok X' (core\<lparr>re_timers := ts\<rparr>)"
proof -
  let ?core = "core\<lparr>re_timers := ts\<rparr>"
  have "timers_ok ?core"
    using sorted entries by (simp add: timers_ok_def)
  moreover have "handles_ok ?core" "polls_ok ?core" "ready_ok ?core" "slots_ok ?core"
    using ok by (simp_all add: wait_ok_def handles_ok_def placed_def polls_ok_def ready_ok_def)
  moreover have "linked ?core r a" if a: "active core r = Some a" and X: "r \<notin> X'" for r a
    using wait_okD(7) [OF ok a] rest [of r] timed [of r] a X
    by (cases "is_timer core r") (auto simp: linked_def is_timer_def kinds_differ)
  moreover have "loose ?core r" if X: "r \<in> X'" for r
  proof (cases "is_timer core r")
    case True
    then have "r \<notin> refs h" if "re_handles core s = Some h" for s h
      using wait_okD(3) [OF ok] that kinds_differ unfolding handles_ok_def placed_def is_timer_def by fastforce
    then show ?thesis
      using X timed [OF True] active by (simp add: loose_def)
  next
    case False
    then have "r \<notin> snd ` set ts"
      using entries by (force simp: is_timer_def)
    then show ?thesis
      using X rest [OF False] wait_okD(8) [OF ok, of r] by (simp add: loose_def)
  qed
  ultimately show ?thesis
    using ok by (simp add: wait_ok_def)
qed

lemma tree_insert_set: "k \<notin> fst ` set es \<Longrightarrow> set (tree_insert k v es) = insert (k, v) (set es)"
  by (induction es) auto

lemma key_less_trans: "key_less i j \<Longrightarrow> key_less j k \<Longrightarrow> key_less i k"
  by (auto simp: key_less_def)

lemma key_less_irrefl: "\<not> key_less k k"
  by (simp add: key_less_def)

lemma key_less_total: "j \<noteq> k \<Longrightarrow> key_less j k \<or> key_less k j"
  by (cases j; cases k) (auto simp: key_less_def)

lemma tree_insert_sorted:
  assumes "k \<notin> fst ` set es" and "sorted_wrt key_less (map fst es)"
  shows "sorted_wrt key_less (map fst (tree_insert k v es))"
  using assms
proof (induction es)
  case (Cons e es)
  have new: "k \<noteq> fst e" "k \<notin> fst ` set es" and below: "\<forall>x \<in> fst ` set es. key_less (fst e) x"
    using Cons.prems by auto
  show ?case
  proof (cases "key_less k (fst e)")
    case True
    then have "tree_insert k v (e # es) = (k, v) # e # es"
      using new by (auto simp: key_less_def)
    moreover have "\<forall>x \<in> fst ` set es. key_less k x"
      using below key_less_trans [OF True] by blast
    ultimately show ?thesis
      using Cons.prems(2) True by simp
  next
    case False
    then have "tree_insert k v (e # es) = e # tree_insert k v es"
      using new by (auto simp: key_less_def)
    moreover have "key_less (fst e) k"
      using False key_less_total new(1) by blast
    ultimately show ?thesis
      using Cons.IH [OF new(2)] Cons.prems(2) by (simp add: tree_insert_set [OF new(2)])
  qed
qed simp

lemma timer_keys:
  assumes ok: "wait_ok X core" and e: "e \<in> set (re_timers core)" and a: "active core r = Some a"
    and key: "fst e = (d, rg_key r)"
  shows "snd e = r"
  using wait_okD(2) [OF ok] e key active_key [OF _ a, of "snd e"] by (fastforce simp: timers_ok_def)

lemma timers_distinct: "wait_ok X core \<Longrightarrow> e \<in> set (re_timers core) \<Longrightarrow> e' \<in> set (re_timers core) \<Longrightarrow> snd e = snd e' \<Longrightarrow> e = e'"
  using wait_okD(2) [of X core] unfolding timers_ok_def by (metis option.inject prod_eqI)

lemma wait_ok_timer_add:
  assumes ok: "wait_ok X core" and X: "r \<in> X" and a: "active core r = Some a" "ws_kind (aw_source a) = KIND_TIMER"
  shows "wait_ok (X - {r}) (core\<lparr>re_timers := tree_insert (ws_deadline (aw_source a), rg_key r) r (re_timers core)\<rparr>)"
proof -
  let ?k = "(ws_deadline (aw_source a), rg_key r)"
  have r: "loose core r" by (rule wait_okD(8) [OF ok X])
  have new: "?k \<notin> fst ` set (re_timers core)"
  proof
    assume "?k \<in> fst ` set (re_timers core)"
    then obtain e where e: "e \<in> set (re_timers core)" "fst e = ?k"
      by (metis imageE)
    then have "snd e = r"
      by (intro timer_keys [OF ok e(1) a(1)]) simp
    with r e(1) show False by (auto simp: loose_def)
  qed
  note timers = wait_okD(2) [OF ok]
  show ?thesis
  proof (rule wait_ok_timers [OF ok])
    show "sorted_wrt key_less (map fst (tree_insert ?k r (re_timers core)))"
      using tree_insert_sorted [OF new] timers by (simp add: timers_ok_def)
    show "\<exists>a. active core (snd e) = Some a \<and> ws_kind (aw_source a) = KIND_TIMER
        \<and> fst e = (ws_deadline (aw_source a), rg_key (snd e))" if "e \<in> set (tree_insert ?k r (re_timers core))" for e
      using that timers a by (auto simp: tree_insert_set [OF new] timers_ok_def)
    show "i \<in> snd ` set (tree_insert ?k r (re_timers core)) \<longleftrightarrow> i \<notin> X - {r}" if "is_timer core i" for i
      using that wait_okD(7,8) [OF ok, of i]
      by (auto simp: tree_insert_set [OF new] is_timer_def linked_def loose_def)
    show "i \<in> X - {r} \<longleftrightarrow> i \<in> X" if "\<not> is_timer core i" for i
      using that a by (auto simp: is_timer_def)
    show "active core i \<noteq> None" if "i \<in> X - {r}" for i
      using that wait_okD(8) [OF ok, of i] by (simp add: loose_def)
  qed
qed

lemma wait_ok_timer_drop:
  assumes ok: "wait_ok X core" and X: "r \<notin> X" and a: "active core r = Some a" "ws_kind (aw_source a) = KIND_TIMER"
    and ts: "sorted_wrt key_less (map fst ts)" "\<And>e. e \<in> set ts \<longleftrightarrow> e \<in> set (re_timers core) \<and> snd e \<noteq> r"
  shows "wait_ok (insert r X) (core\<lparr>re_timers := ts\<rparr>)"
proof (rule wait_ok_timers [OF ok ts(1)])
  note timers = wait_okD(2) [OF ok]
  show "\<exists>a. active core (snd e) = Some a \<and> ws_kind (aw_source a) = KIND_TIMER
      \<and> fst e = (ws_deadline (aw_source a), rg_key (snd e))" if "e \<in> set ts" for e
    using that timers by (simp add: ts(2) timers_ok_def)
  show "i \<in> snd ` set ts \<longleftrightarrow> i \<notin> insert r X" if "is_timer core i" for i
  proof -
    have "i \<in> snd ` set ts \<longleftrightarrow> i \<in> snd ` set (re_timers core) \<and> i \<noteq> r"
      using ts(2) by (metis (no_types, lifting) image_iff)
    moreover have "i \<in> snd ` set (re_timers core) \<longleftrightarrow> i \<notin> X"
      using that wait_okD(7,8) [OF ok, of i] unfolding is_timer_def linked_def loose_def by blast
    ultimately show ?thesis by blast
  qed
  show "i \<in> insert r X \<longleftrightarrow> i \<in> X" if "\<not> is_timer core i" for i
    using that a by (auto simp: is_timer_def)
  show "active core i \<noteq> None" if "i \<in> insert r X" for i
    using that wait_okD(8) [OF ok, of i] a by (auto simp: loose_def)
qed

lemma sorted_filter: "sorted_wrt P (map f xs) \<Longrightarrow> sorted_wrt P (map f (filter Q xs))"
  by (induction xs) auto

lemma wait_ok_timer_remove:
  assumes ok: "wait_ok X core" and X: "r \<notin> X" and a: "active core r = Some a" "ws_kind (aw_source a) = KIND_TIMER"
  shows "wait_ok (insert r X) (core\<lparr>re_timers := tree_remove (ws_deadline (aw_source a), rg_key r) (re_timers core)\<rparr>)"
proof (rule wait_ok_timer_drop [OF ok X a])
  let ?k = "(ws_deadline (aw_source a), rg_key r)"
  show "sorted_wrt key_less (map fst (tree_remove ?k (re_timers core)))"
    using wait_okD(2) [OF ok] by (simp add: tree_remove_def timers_ok_def sorted_filter)
  have "fst e = ?k \<longleftrightarrow> snd e = r" if "e \<in> set (re_timers core)" for e
    using timer_keys [OF ok that a(1)] wait_okD(2) [OF ok] that a by (auto simp: timers_ok_def)
  then show "e \<in> set (tree_remove ?k (re_timers core)) \<longleftrightarrow> e \<in> set (re_timers core) \<and> snd e \<noteq> r" for e
    unfolding tree_remove_def set_filter by blast
qed

text \<open>The timers that fire are the due ones, and only those.\<close>

lemma fire_due_ok:
  assumes "wait_ok {} core" and "re_timers core = ts"
  shows "\<exists>core'. fire_due now ts core = (Inr (), core') \<and> wait_ok {} core'
    \<and> re_timers core' = dropWhile (\<lambda>e. fst (fst e) \<le> now) ts
    \<and> map nt_registration (re_ready core') = map nt_registration (re_ready core)
        @ map snd (takeWhile (\<lambda>e. fst (fst e) \<le> now) ts)
    \<and> re_handles core' = re_handles core
    \<and> (\<forall>r. active core' r = (if r \<in> snd ` set (takeWhile (\<lambda>e. fst (fst e) \<le> now) ts) then None else active core r))
    \<and> issued core' = issued core"
  using assms
proof (induction ts arbitrary: core)
  case Nil
  then show ?case by simp
next
  case (Cons e ts)
  obtain d k r where e: "e = ((d, k), r)" by (cases e) auto
  show ?case
  proof (cases "d \<le> now")
    case False
    then show ?thesis using Cons.prems by (simp add: e)
  next
    case True
    note ok = Cons.prems(1) and timers = wait_okD(2) [OF Cons.prems(1), unfolded timers_ok_def]
    obtain a where a: "active core r = Some a" "ws_kind (aw_source a) = KIND_TIMER"
      using timers Cons.prems(2) by (auto simp: e)
    have head: "snd x \<noteq> r" if x: "x \<in> set ts" for x
    proof
      assume "snd x = r"
      then have "x = e"
        by (intro timers_distinct [OF ok]) (use x Cons.prems(2) e in auto)
      moreover have "key_less (fst e) (fst x)"
        using timers Cons.prems(2) x by simp
      ultimately show False using key_less_irrefl by simp
    qed
    have "wait_ok (insert r {}) (core\<lparr>re_timers := ts\<rparr>)"
      by (rule wait_ok_timer_drop [OF ok _ a])
        (use timers Cons.prems(2) head in \<open>auto simp: e\<close>)
    from wait_ok_finish [OF this, of r a TIMER 0] a
    have ok': "wait_ok {} (finished (core\<lparr>re_timers := ts\<rparr>) r a TIMER 0)" by simp
    note rem = removed_from_ok [OF wait_okD(1) [OF ok] a(1)]
    have "removed_from (core\<lparr>re_timers := ts\<rparr>) r = (removed_from core r)\<lparr>re_timers := ts\<rparr>"
      by (simp add: removed_from_def)
    then have act: "active (finished (core\<lparr>re_timers := ts\<rparr>) r a TIMER 0) = (active core)(r := None)"
      "issued (finished (core\<lparr>re_timers := ts\<rparr>) r a TIMER 0) = issued core"
      "re_handles (finished (core\<lparr>re_timers := ts\<rparr>) r a TIMER 0) = re_handles core"
      using rem by (simp_all add: finished_def) (simp add: removed_from_def)
    have ts': "re_timers (finished (core\<lparr>re_timers := ts\<rparr>) r a TIMER 0) = ts"
      "map nt_registration (re_ready (finished (core\<lparr>re_timers := ts\<rparr>) r a TIMER 0)) = map nt_registration (re_ready core) @ [r]"
      by (simp_all add: finished_def removed_from_def)
    have run: "fire_due now (e # ts) core = fire_due now ts (finished (core\<lparr>re_timers := ts\<rparr>) r a TIMER 0)"
      using True a core_finish_active [of "core\<lparr>re_timers := ts\<rparr>" r a TIMER 0] by (simp add: e bindX_def)
    show ?thesis
      using Cons.IH [OF ok' ts'(1)] True unfolding run act ts'(2) by (auto simp: e)
  qed
qed

section \<open>Interests of a handle\<close>

definition refs_of :: "wait_handle option \<Rightarrow> registration set" where
  "refs_of h = (case h of None \<Rightarrow> {} | Some h \<Rightarrow> refs h)"

lemma refs_empty: "refs h = {} \<longleftrightarrow> wh_read h = None \<and> wh_write h = None"
  by (auto simp: refs_def)

lemma refs_key [simp]: "refs (h\<lparr>wh_event_key := k\<rparr>) = refs h" "placed core s (h\<lparr>wh_event_key := k\<rparr>) r = placed core s h r"
  by (simp_all add: refs_def placed_def)

lemma placed_active: "active core' = active core \<Longrightarrow> placed core' = placed core"
  by (simp add: placed_def fun_eq_iff)

lemma commit_handle_parts:
  "re_slots (commit_handle source previous h core) = re_slots core"
  "re_free (commit_handle source previous h core) = re_free core"
  "re_timers (commit_handle source previous h core) = re_timers core"
  "re_ready (commit_handle source previous h core) = re_ready core"
  "re_next_poll_key (commit_handle source previous h core) = re_next_poll_key core"
  "re_handles (commit_handle source previous h core) =
     (re_handles core)(source := if refs h = {} then None else Some h)"
  "re_poll_keys (commit_handle source previous h core) =
     (\<lambda>keys. if refs h = {} then keys else keys(wh_event_key h \<mapsto> source))
       (case previous of None \<Rightarrow> re_poll_keys core | Some old \<Rightarrow> (re_poll_keys core)(wh_event_key old := None))"
  by (auto simp: commit_handle_def Let_def refs_empty split: option.splits)

lemma active_slots: "re_slots core' = re_slots core \<Longrightarrow> active core' = active core"
  by (simp add: active_def fun_eq_iff)

lemma issued_slots: "re_slots core' = re_slots core \<Longrightarrow> issued core' = issued core"
  by (simp add: issued_def fun_eq_iff)

lemma commit_handle_ok:
  assumes ok: "wait_ok X core" and previous: "previous = re_handles core source"
    and key: "refs h \<noteq> {} \<Longrightarrow> re_poll_keys core (wh_event_key h) = None \<and> wh_event_key h \<le> re_next_poll_key core"
    and placed: "\<And>r. r \<in> refs h \<Longrightarrow> placed core source h r \<and> r \<in> X \<union> refs_of previous"
  shows "wait_ok ((X \<union> refs_of previous) - refs h) (commit_handle source previous h core)"
proof -
  let ?core = "commit_handle source previous h core" and ?X = "(X \<union> refs_of previous) - refs h"
  note parts = commit_handle_parts [of source previous h core]
  have act: "active ?core = active core" and iss: "issued ?core = issued core"
    using active_slots [OF parts(1)] issued_slots [OF parts(1)] .
  note handles = wait_okD(3) [OF ok, unfolded handles_ok_def] and polls = wait_okD(4) [OF ok, unfolded polls_ok_def]
  have slots: "slots_ok ?core" "timers_ok ?core" "ready_ok ?core"
    using ok by (simp_all add: wait_ok_def slots_ok_def timers_ok_def ready_ok_def parts act iss)
  have key_of: "wh_event_key g \<noteq> wh_event_key f" if "re_handles core s = Some g" "re_handles core source = Some f" "s \<noteq> source" for s f g
    using handles that by (metis option.inject)
  have new_key: "wh_event_key g \<noteq> wh_event_key h" if "re_handles core s = Some g" "refs h \<noteq> {}" for s g
    using handles key that by (metis option.distinct(1))
  have handles': "handles_ok ?core"
    unfolding handles_ok_def placed_active [OF act] parts
  proof (intro allI impI)
    fix s g
    assume g: "((re_handles core)(source := if refs h = {} then None else Some h)) s = Some g"
    show "refs g \<noteq> {} \<and>
        (if refs h = {} then (case previous of None \<Rightarrow> re_poll_keys core | Some old \<Rightarrow> (re_poll_keys core)(wh_event_key old := None))
         else (case previous of None \<Rightarrow> re_poll_keys core | Some old \<Rightarrow> (re_poll_keys core)(wh_event_key old := None))
           (wh_event_key h \<mapsto> source)) (wh_event_key g) = Some s \<and>
        wh_event_key g \<le> re_next_poll_key core \<and> (\<forall>r \<in> refs g. placed core s g r)"
    proof (cases "s = source")
      case True
      then show ?thesis
        using g key placed by (auto split: if_splits)
    next
      case False
      then have old: "re_handles core s = Some g" using g by simp
      have "wh_event_key g \<noteq> wh_event_key f" if "previous = Some f" for f
        using key_of [OF old _ False] that previous by simp
      moreover have "refs h \<noteq> {} \<Longrightarrow> wh_event_key g \<noteq> wh_event_key h"
        by (rule new_key [OF old])
      ultimately show ?thesis
        using handles [rule_format, OF old] by (cases previous) simp_all
    qed
  qed
  have polls': "polls_ok ?core"
    unfolding polls_ok_def parts
  proof (intro allI impI)
    fix k s
    assume "(if refs h = {} then (case previous of None \<Rightarrow> re_poll_keys core | Some old \<Rightarrow> (re_poll_keys core)(wh_event_key old := None))
       else (case previous of None \<Rightarrow> re_poll_keys core | Some old \<Rightarrow> (re_poll_keys core)(wh_event_key old := None))
         (wh_event_key h \<mapsto> source)) k = Some s"
    then consider "refs h \<noteq> {}" "k = wh_event_key h" "s = source"
      | "re_poll_keys core k = Some s" "\<forall>f. previous = Some f \<longrightarrow> k \<noteq> wh_event_key f"
      by (cases previous; cases "refs h = {}"; cases "k = wh_event_key h") (simp_all split: if_splits)
    then show "\<exists>g. ((re_handles core)(source := if refs h = {} then None else Some h)) s = Some g \<and> wh_event_key g = k"
    proof cases
      case 2
      then obtain g where "re_handles core s = Some g" "wh_event_key g = k"
        using polls by blast
      moreover from this have "s \<noteq> source"
        using 2 previous by auto
      ultimately show ?thesis by simp
    qed simp
  qed
  have linked': "linked ?core r a" if a: "active core r = Some a" and r: "r \<notin> ?X" for r a
  proof (cases "r \<in> refs h")
    case True
    then obtain b where "active core r = Some b" "ws_kind (aw_source b) = KIND_READINESS" "ws_handle (aw_source b) = source"
      using placed [OF True] unfolding placed_def by blast
    then show ?thesis
      using a True kinds_differ unfolding linked_def parts by auto
  next
    case False
    then have r: "r \<notin> X" "r \<notin> refs_of previous" using r by auto
    then show ?thesis
      using wait_okD(7) [OF ok a] previous unfolding linked_def parts by (auto simp: refs_of_def)
  qed
  have loose': "loose ?core r" if r: "r \<in> ?X" for r
  proof -
    have r': "r \<notin> refs h" using r by simp
    consider "r \<in> X" | "r \<in> refs_of previous" using r by auto
    then have "active core r \<noteq> None \<and> r \<notin> snd ` set (re_timers core)
      \<and> (\<forall>s g. re_handles core s = Some g \<longrightarrow> s \<noteq> source \<longrightarrow> r \<notin> refs g)"
    proof cases
      case 1
      then show ?thesis using wait_okD(8) [OF ok] by (auto simp: loose_def)
    next
      case 2
      then obtain f where f: "re_handles core source = Some f" "r \<in> refs f"
        using previous by (auto simp: refs_of_def split: option.splits)
      then obtain a where a: "active core r = Some a" "ws_kind (aw_source a) = KIND_READINESS" "ws_handle (aw_source a) = source"
        using handles by (force simp: placed_def)
      have "r \<notin> snd ` set (re_timers core)"
        using wait_okD(2) [OF ok] a kinds_differ by (fastforce simp: timers_ok_def)
      moreover have "r \<notin> refs g" if "re_handles core s = Some g" "s \<noteq> source" for s g
        using handles that a by (fastforce simp: placed_def)
      ultimately show ?thesis using a by simp
    qed
    then show ?thesis
      using r' by (simp add: loose_def act parts)
  qed
  show ?thesis
    using slots handles' polls' linked' loose' wait_okD(6) [OF ok]
    unfolding wait_ok_def act by blast
qed

section \<open>Operations in the world\<close>

lemma bindIO_apply:
  "bindIO m f s = (case m s of (Inl e, t) \<Rightarrow> (Inl e, t) | (Inr (Inl e), t) \<Rightarrow> (Inr (Inl e), t)
     | (Inr (Inr x), t) \<Rightarrow> f x t)"
  by (auto simp: bindIO_def bindX_def split: prod.split sum.split)

lemma io_apply [simp]:
  "okIO x s = (Inr (Inr x), s)"
  "errIO kind message s = (Inr (Inl (kind, message)), s)"
  "worldX f (core, w) = (case f w of (x, w') \<Rightarrow> (Inr x, (core, w')))"
  "coreX m (core, w) = (case m core of (r, core') \<Rightarrow> (r, (core', w)))"
  "pollIO g (core, w) = (case g w of (e, w') \<Rightarrow> (Inr (case e of None \<Rightarrow> Inr () | Some x \<Rightarrow> Inl x), (core, w')))"
  by (auto simp: okIO_def errIO_def worldX_def coreX_def zoomX_def pollIO_def bindX_def split: prod.split)

lemma poll_key_cases:
  "poll_key core = (Inr (Inl (OtherError, ''wait polling identities exhausted'')), core)
   \<or> poll_key core = (Inr (Inr (re_next_poll_key core + 1)), core\<lparr>re_next_poll_key := re_next_poll_key core + 1\<rparr>)"
  by (auto simp: poll_key_def checked_add_def)

lemma poll_update_cases:
  assumes "poll_update p native previous h (core, w) = (res, (core', w'))"
  obtains (failed) e where "res = Inr (Inl e)" "core' = core"
    | (removed) updated where "res = Inr (Inr (h, updated))" "core' = core" "refs h = {}"
    | (changed) updated where "res = Inr (Inr (h\<lparr>wh_event_key := re_next_poll_key core + 1\<rparr>, updated))"
      "core' = core\<lparr>re_next_poll_key := re_next_poll_key core + 1\<rparr>" "refs h \<noteq> {}"
proof (cases "refs h = {}")
  case True
  then show ?thesis
    using assms removed by (auto simp: poll_update_def refs_empty bindX_def split: prod.splits)
next
  case False
  have "poll_update p native previous h = bindIO (coreX poll_key) (\<lambda>key.
        let h = h\<lparr>wh_event_key := key\<rparr> in
        bindX (worldX (if previous \<noteq> None then po_modify p native (interest_event h)
                       else po_add p native (interest_event h))) (\<lambda>e. okIO (h, e)))"
    using False unfolding poll_update_def refs_empty by auto
  note run = assms [unfolded this]
  let ?h = "h\<lparr>wh_event_key := re_next_poll_key core + 1\<rparr>"
  obtain e w1 where world: "(if previous \<noteq> None then po_modify p native (interest_event ?h)
      else po_add p native (interest_event ?h)) w = (e, w1)"
    by (metis prod.exhaust)
  consider (full) "poll_key core = (Inr (Inl (OtherError, ''wait polling identities exhausted'')), core)"
    | (key) "poll_key core = (Inr (Inr (re_next_poll_key core + 1)), core\<lparr>re_next_poll_key := re_next_poll_key core + 1\<rparr>)"
    using poll_key_cases by blast
  then show ?thesis
  proof cases
    case full
    then show ?thesis
      using run by (intro failed) (auto simp: bindIO_apply)
  next
    case key
    have "(res, (core', w')) = (Inr (Inr (?h, e)), (core\<lparr>re_next_poll_key := re_next_poll_key core + 1\<rparr>, w1))"
      using run key world by (cases previous) (simp_all add: bindIO_apply Let_def bindX_def)
    then show ?thesis
      using changed False by simp
  qed
qed

lemma poll_restore_cases:
  assumes "poll_restore p native previous error (core, w) = (res, (core', w'))"
  shows "core' = core" and "(\<exists>m. res = Inl (Fatal m)) \<or> res = Inr (Inl error)"
  using assms by (auto simp: poll_restore_def bindX_def split: prod.splits sum.splits option.splits if_splits)

lemma native_source_cases:
  "native_source source s = (Inr (Inr source), s)
   \<or> native_source source s = (Inr (Inl (InvalidInput, ''invalid native descriptor'')), s)"
  by (simp add: native_source_def)

lemma update_handle_cases:
  assumes run: "update_handle p source h (core, w) = (res, (core', w'))"
  obtains (ended) m where "res = Inl (Fatal m)"
    | (failed) e k where "res = Inr (Inl e)" "core' = core\<lparr>re_next_poll_key := k\<rparr>" "re_next_poll_key core \<le> k"
    | (removed) "res = Inr (Inr ())" "refs h = {}" "core' = commit_handle source (re_handles core source) h core"
    | (changed) "res = Inr (Inr ())" "refs h \<noteq> {}"
      "core' = commit_handle source (re_handles core source) (h\<lparr>wh_event_key := re_next_poll_key core + 1\<rparr>)
        (core\<lparr>re_next_poll_key := re_next_poll_key core + 1\<rparr>)"
proof (cases "native_source source (core, w) = (Inr (Inr source), (core, w))")
  case False
  then show ?thesis
    using run failed [of "(InvalidInput, ''invalid native descriptor'')" "re_next_poll_key core"]
      native_source_cases [of source "(core, w)"]
    by (auto simp: update_handle_def bindX_def bindIO_apply)
next
  case True
  obtain r core1 w1 where poll: "poll_update p source (re_handles core source) h (core, w) = (r, (core1, w1))"
    by (metis prod.exhaust)
  have rest: "(res, (core', w')) = (case r of
      Inl e \<Rightarrow> (Inl e, (core1, w1)) | Inr (Inl e) \<Rightarrow> (Inr (Inl e), (core1, w1))
    | Inr (Inr (h, None)) \<Rightarrow> (Inr (Inr ()), (commit_handle source (re_handles core source) h core1, w1))
    | Inr (Inr (h, Some error)) \<Rightarrow> poll_restore p source (re_handles core source) error (core1, w1))"
    using run True poll
    by (auto simp: update_handle_def bindX_def bindIO_apply split: sum.splits prod.splits option.splits)
  from poll show ?thesis
  proof (cases rule: poll_update_cases)
    case (failed e)
    with rest that(2) [of e "re_next_poll_key core"] show ?thesis by simp
  next
    case (removed updated)
    show ?thesis
    proof (cases updated)
      case None
      with removed rest that(3) show ?thesis by simp
    next
      case (Some error)
      have "poll_restore p source (re_handles core source) error (core1, w1) = (res, (core', w'))"
        using removed rest Some by simp
      from poll_restore_cases [OF this] show ?thesis
        using removed that(1) that(2) [of error "re_next_poll_key core"] by auto
    qed
  next
    case (changed updated)
    show ?thesis
    proof (cases updated)
      case None
      with changed rest that(4) show ?thesis by simp
    next
      case (Some error)
      have "poll_restore p source (re_handles core source) error (core1, w1) = (res, (core', w'))"
        using changed rest Some by simp
      from poll_restore_cases [OF this] show ?thesis
        using changed that(1) that(2) [of error "re_next_poll_key core + 1"] by auto
    qed
  qed
qed

lemma wait_ok_next_key:
  "wait_ok X core \<Longrightarrow> re_next_poll_key core \<le> k \<Longrightarrow> wait_ok X (core\<lparr>re_next_poll_key := k\<rparr>)"
  by (fastforce simp: wait_ok_def timers_ok_def handles_ok_def polls_ok_def placed_def linked_def loose_def ready_ok_def)

text \<open>What an update of a handle does to the reactor, and that a failed one does nothing.\<close>

definition same_waits :: "reactor \<Rightarrow> reactor \<Rightarrow> bool" where
  "same_waits core core' \<longleftrightarrow> re_slots core' = re_slots core \<and> re_free core' = re_free core
     \<and> re_timers core' = re_timers core \<and> re_ready core' = re_ready core"

lemma update_handle_ok:
  assumes ok: "wait_ok X core" and run: "update_handle p source h (core, w) = (res, (core', w'))"
    and placed: "\<And>r. r \<in> refs h \<Longrightarrow> placed core source h r \<and> r \<in> X \<union> refs_of (re_handles core source)"
  shows "(\<exists>m. res = Inl (Fatal m))
    \<or> (\<exists>e. res = Inr (Inl e)) \<and> wait_ok X core' \<and> same_waits core core' \<and> re_handles core' = re_handles core
    \<or> res = Inr (Inr ()) \<and> wait_ok ((X \<union> refs_of (re_handles core source)) - refs h) core' \<and> same_waits core core'"
  using run
proof (cases rule: update_handle_cases)
  case (ended m)
  then show ?thesis by blast
next
  case (failed e k)
  then show ?thesis
    using wait_ok_next_key [OF ok] by (simp add: same_waits_def)
next
  case removed
  have "wait_ok ((X \<union> refs_of (re_handles core source)) - refs h) core'"
    unfolding removed(3) by (rule commit_handle_ok [OF ok refl]) (use removed(2) placed in auto)
  with removed show ?thesis by (simp add: same_waits_def commit_handle_parts)
next
  case changed
  let ?k = "re_next_poll_key core + 1"
  have "wait_ok X (core\<lparr>re_next_poll_key := ?k\<rparr>)"
    by (rule wait_ok_next_key [OF ok]) simp
  moreover have "re_poll_keys core ?k = None"
  proof (cases "re_poll_keys core ?k")
    case (Some s)
    then show ?thesis
      using wait_okD(3,4) [OF ok] unfolding polls_ok_def handles_ok_def
      by (metis Suc_eq_plus1 not_less_eq_eq order_refl)
  qed
  ultimately have "wait_ok ((X \<union> refs_of (re_handles core source)) - refs (h\<lparr>wh_event_key := ?k\<rparr>)) core'"
    unfolding changed(3)
    by (intro commit_handle_ok) (use placed in \<open>auto simp: placed_def\<close>)
  with changed show ?thesis by (simp add: same_waits_def commit_handle_parts)
qed

section \<open>What an operation keeps\<close>

text \<open>What still can be delivered: active registrations and queued notifications.\<close>

definition waiting :: "reactor \<Rightarrow> registration \<Rightarrow> bool" where
  "waiting core r \<longleftrightarrow> active core r \<noteq> None \<or> r \<in> nt_registration ` set (re_ready core)"

text \<open>Identities only grow, and none comes back to life.\<close>

definition evolves :: "reactor \<Rightarrow> reactor \<Rightarrow> bool" where
  "evolves core core' \<longleftrightarrow> (\<forall>r. issued core r \<longrightarrow> issued core' r)
     \<and> (\<forall>r. active core' r \<noteq> None \<longrightarrow> active core r \<noteq> None \<or> \<not> issued core r)
     \<and> (\<forall>r. waiting core' r \<longrightarrow> waiting core r \<or> \<not> issued core r)"

lemma evolves_refl [simp]: "evolves core core"
  by (simp add: evolves_def)

lemma evolves_trans [trans]: "evolves a b \<Longrightarrow> evolves b c \<Longrightarrow> evolves a c"
  unfolding evolves_def by blast

lemma evolves_same:
  "re_slots core' = re_slots core \<Longrightarrow> set (re_ready core') \<subseteq> set (re_ready core) \<Longrightarrow> evolves core core'"
  using active_slots [of core' core] issued_slots [of core' core] by (auto simp: evolves_def waiting_def)

lemma evolves_insert:
  "slots_ok core \<Longrightarrow> core_insert source owner core = (Inr (Inr r), core') \<Longrightarrow> evolves core core'"
proof -
  assume ok: "slots_ok core" and run: "core_insert source owner core = (Inr (Inr r), core')"
  note new = core_insert_ok [OF ok run]
  have "re_ready core' = re_ready core" by (subst new(5), simp)
  then show "evolves core core'"
    using new(2-4) by (auto simp: evolves_def waiting_def)
qed

lemma removed_ready: "re_ready (removed_from core r) = re_ready core"
  by (simp add: removed_from_def)

lemma evolves_removed: "slots_ok core \<Longrightarrow> active core r = Some a \<Longrightarrow> evolves core (removed_from core r)"
  using removed_from_ok [of core r a] by (auto simp: evolves_def waiting_def removed_ready)

lemma evolves_finished:
  assumes "slots_ok core" "active core r = Some a"
  shows "evolves core (finished core r a events e)"
  using removed_from_ok [OF assms] assms(2)
  by (auto simp: evolves_def waiting_def finished_def)

text \<open>An operation ends the process, or it returns and the reactor is sound.\<close>

definition sound :: "reactor \<Rightarrow> (stop + 'a) \<times> (reactor \<times> 'w) \<Rightarrow> bool" where
  "sound core result \<longleftrightarrow> (case result of
       (Inl e, _) \<Rightarrow> (\<exists>m. e = Fatal m)
     | (Inr _, (core', _)) \<Rightarrow> wait_ok {} core' \<and> evolves core core')"

lemma sound_simps [simp]:
  "sound core (Inl e, s) \<longleftrightarrow> (\<exists>m. e = Fatal m)"
  "sound core (Inr x, (core', w)) \<longleftrightarrow> wait_ok {} core' \<and> evolves core core'"
  by (simp_all add: sound_def)

lemma interest_bits:
  fixes x :: "32 word"
  assumes "x AND NOT (READABLE OR WRITABLE) = 0" "x \<noteq> 0"
  shows "x AND READABLE \<noteq> 0 \<or> x AND WRITABLE \<noteq> 0"
proof (rule ccontr)
  assume "\<not> ?thesis"
  then have "x AND (READABLE OR WRITABLE) = 0"
    by (simp add: bit.conj_disj_distrib)
  moreover have "x = (x AND y) OR (x AND NOT y)" for y :: "32 word"
    by (simp flip: bit.conj_disj_distrib)
  then have "x = (x AND (READABLE OR WRITABLE)) OR (x AND NOT (READABLE OR WRITABLE))" .
  ultimately show False using assms by simp
qed

lemma add_interests_simps:
  "wh_read (add_interests source r h) = (if ws_interests source AND READABLE \<noteq> 0 then Some r else wh_read h)"
  "wh_write (add_interests source r h) = (if ws_interests source AND WRITABLE \<noteq> 0 then Some r else wh_write h)"
  by (simp_all add: add_interests_def Let_def)

lemma drop_interests_simps:
  "wh_read (drop_interests r h) = (if wh_read h = Some r then None else wh_read h)"
  "wh_write (drop_interests r h) = (if wh_write h = Some r then None else wh_write h)"
  by (simp_all add: drop_interests_def Let_def)

lemma handle_of_refs: "refs (handle_of core source) = refs_of (re_handles core source)"
  by (simp add: handle_of_def refs_of_def refs_def no_handle_def split: option.split)

lemma handle_of_placed:
  assumes "wait_ok X core" "r \<in> refs (handle_of core source)"
  shows "placed core source (handle_of core source) r"
  using assms wait_okD(3) [OF assms(1)]
  by (auto simp: handles_ok_def handle_of_def refs_def no_handle_def split: option.splits)

text \<open>A completion is linked by being active.\<close>

lemma wait_ok_completion:
  assumes ok: "wait_ok X core" and a: "active core r = Some a" "ws_kind (aw_source a) = KIND_COMPLETION"
  shows "wait_ok (X - {r}) core" and "wait_ok (insert r X) core"
proof -
  have "linked core r a"
    using a kinds_differ by (simp add: linked_def)
  then show "wait_ok (X - {r}) core"
    using ok a unfolding wait_ok_def by auto
  have "r \<notin> snd ` set (re_timers core)"
    using wait_okD(2) [OF ok] a kinds_differ by (fastforce simp: timers_ok_def)
  moreover have "r \<notin> refs h" if "re_handles core s = Some h" for s h
    using wait_okD(3) [OF ok] that a kinds_differ by (fastforce simp: handles_ok_def placed_def)
  ultimately have "loose core r"
    using a by (simp add: loose_def)
  then show "wait_ok (insert r X) core"
    using ok unfolding wait_ok_def by auto
qed

lemma register_link:
  assumes ok: "wait_ok {r} core" and a: "active core r = Some a" "ws_kind (aw_source a) = KIND_READINESS"
    and none: "\<not> overlaps (aw_source a) (handle_of core (ws_handle (aw_source a)))"
  defines "h \<equiv> handle_of core (ws_handle (aw_source a))"
  shows "i \<in> refs (add_interests (aw_source a) r h) \<Longrightarrow>
      placed core (ws_handle (aw_source a)) (add_interests (aw_source a) r h) i
      \<and> i \<in> {r} \<union> refs_of (re_handles core (ws_handle (aw_source a)))"
    and "({r} \<union> refs_of (re_handles core (ws_handle (aw_source a)))) - refs (add_interests (aw_source a) r h) = {}"
proof -
  let ?h = "add_interests (aw_source a) r h"
  have loose: "r \<notin> refs h"
    using wait_okD(8) [OF ok, of r] handle_of_refs [of core "ws_handle (aw_source a)"]
    by (auto simp: loose_def h_def refs_of_def split: option.splits)
  have r: "wh_read ?h = Some r \<longleftrightarrow> reads a" "wh_write ?h = Some r \<longleftrightarrow> writes a"
    using loose by (auto simp: add_interests_simps reads_def writes_def refs_def)
  have other: "wh_read ?h = Some i \<longleftrightarrow> wh_read h = Some i" "wh_write ?h = Some i \<longleftrightarrow> wh_write h = Some i"
    if "i \<noteq> r" for i
    using none that by (auto simp: add_interests_simps overlaps_def h_def)
  have bits: "reads a \<or> writes a"
    using wait_okD(6) [OF ok a(1)] a(2) kinds_differ interest_bits
    by (auto simp: valid_source_def reads_def writes_def)
  show "placed core (ws_handle (aw_source a)) ?h i
      \<and> i \<in> {r} \<union> refs_of (re_handles core (ws_handle (aw_source a)))" if i: "i \<in> refs ?h"
  proof (cases "i = r")
    case True
    then show ?thesis using a r by (simp add: placed_def)
  next
    case False
    then have "i \<in> refs h" using i other by (auto simp: refs_def)
    then show ?thesis
      using handle_of_placed [OF ok] handle_of_refs [of core "ws_handle (aw_source a)"] other [OF False]
      by (auto simp: h_def placed_def)
  qed
  have "r \<in> refs ?h"
    using r bits by (auto simp: refs_def)
  moreover have "refs h \<subseteq> refs ?h"
  proof
    fix i assume "i \<in> refs h"
    with loose other [of i] show "i \<in> refs ?h" by (auto simp: refs_def)
  qed
  ultimately show "({r} \<union> refs_of (re_handles core (ws_handle (aw_source a)))) - refs ?h = {}"
    using handle_of_refs [of core "ws_handle (aw_source a)"] by (auto simp: h_def)
qed

lemma worldX_core: "worldX f (core, w) = (Inr (fst (f w)), (core, snd (f w)))"
  by (simp split: prod.split)

text \<open>What a registration leaves: the new wait when it succeeds, nothing when it fails.\<close>

definition register_effect :: "reactor \<Rightarrow> wait_source \<Rightarrow> nat \<Rightarrow>
    (stop + (io_error + registration)) \<times> (reactor \<times> 'w) \<Rightarrow> bool" where
  "register_effect core source owner result \<longleftrightarrow> (case result of
       (Inl _, _) \<Rightarrow> True
     | (Inr (Inl _), (core', _)) \<Rightarrow> active core' = active core \<and> re_ready core' = re_ready core
     | (Inr (Inr r), (core', _)) \<Rightarrow> \<not> issued core r \<and> re_ready core' = re_ready core
         \<and> active core' = (active core)(r \<mapsto> \<lparr>aw_source = source, aw_owner = owner\<rparr>))"

lemma register_effect_simps [simp]:
  "register_effect core source owner (Inl e, s)"
  "register_effect core source owner (Inr (Inl x), (core', w)) \<longleftrightarrow>
     active core' = active core \<and> re_ready core' = re_ready core"
  "register_effect core source owner (Inr (Inr r), (core', w)) \<longleftrightarrow> \<not> issued core r \<and> re_ready core' = re_ready core
     \<and> active core' = (active core)(r \<mapsto> \<lparr>aw_source = source, aw_owner = owner\<rparr>)"
  by (simp_all add: register_effect_def)

lemma register_ok:
  assumes ok: "wait_ok {} core"
  shows "sound core (register p source owner (core, w)) \<and> register_effect core source owner (register p source owner (core, w))"
proof (cases "valid_source source \<and> \<not> (ws_kind source = KIND_READINESS \<and> overlaps source (handle_of core (ws_handle source)))")
  case False
  then show ?thesis
    using ok by (auto simp: register_def bindX_def)
next
  case True
  obtain ne w1 where notify: "po_notify p w = (ne, w1)" by (metis prod.exhaust)
  show ?thesis
  proof (cases ne)
    case (Some e)
    then show ?thesis
      using True ok notify by (auto simp: register_def bindX_def bindIO_apply)
  next
    case None
    show ?thesis
      using wait_okD(1) [OF ok]
    proof (cases rule: core_insert_cases [where source = source and owner = owner])
      case full
      then show ?thesis
        using True ok notify None by (auto simp: register_def bindX_def bindIO_apply)
    next
      case (inserted r core1)
      let ?a = "\<lparr>aw_source = source, aw_owner = owner\<rparr>"
      have ok1: "wait_ok {r} core1"
        using wait_ok_insert [OF ok _ inserted] True by simp
      note new = core_insert_ok [OF wait_okD(1) [OF ok] inserted]
      have a: "active core1 r = Some ?a" by (simp add: new(2))
      have evolved: "evolves core core1" by (rule evolves_insert [OF wait_okD(1) [OF ok] inserted])
      have same: "re_handles core1 = re_handles core" "re_ready core1 = re_ready core" by (subst new(5), simp)+
      consider (readiness) "ws_kind source = KIND_READINESS" | (timer) "ws_kind source = KIND_TIMER"
        | (completion) "ws_kind source = KIND_COMPLETION"
        using True by (auto simp: valid_source_def split: if_splits)
      then show ?thesis
      proof cases
        case readiness
        let ?h = "add_interests source r (handle_of core1 (ws_handle source))"
        obtain res core2 w2 where run: "update_handle p (ws_handle source) ?h (core1, w1) = (res, (core2, w2))"
          by (metis prod.exhaust)
        have none: "\<not> overlaps source (handle_of core1 (ws_handle source))"
          using True readiness by (simp add: handle_of_def same)
        note link = register_link [OF ok1 a, unfolded active_wait.select_convs, OF readiness none]
        have op: "register p source owner (core, w) = (case res of
            Inl e \<Rightarrow> (Inl e, (core2, w2)) | Inr (Inr _) \<Rightarrow> (Inr (Inr r), (core2, w2))
          | Inr (Inl e) \<Rightarrow> bindX (coreX (core_remove r)) (\<lambda>_. retX (Inl e)) (core2, w2))"
          using True readiness notify None inserted run
          by (auto simp: register_def bindX_def bindIO_apply split: sum.split)
        from update_handle_ok [OF ok1 run link(1)] consider m where "res = Inl (Fatal m)"
          | e where "res = Inr (Inl e)" "wait_ok {r} core2" "same_waits core1 core2"
          | "res = Inr (Inr ())" "wait_ok {} core2" "same_waits core1 core2"
          unfolding link(2) by blast
        then show ?thesis
        proof cases
          case 1
          then show ?thesis by (simp add: op)
        next
          case (2 e)
          have act: "active core2 = active core1" "re_ready core2 = re_ready core"
            using active_slots [of core2 core1] 2(3) same by (simp_all add: same_waits_def)
          then have a2: "active core2 r = Some ?a" using a by simp
          note dropped = removed_from_ok(2) [OF wait_okD(1) [OF 2(2)] a2]
          have "active core r = None"
            using new(3) active_issued [OF wait_okD(1) [OF ok]] by (cases "active core r") auto
          then have "active (removed_from core2 r) = active core"
            by (simp add: dropped act new(2) fun_upd_idem)
          moreover have "re_ready (removed_from core2 r) = re_ready core"
            by (simp add: removed_from_def act)
          moreover note a2
          moreover have "evolves core core2"
            using evolves_trans [OF evolved evolves_same] 2(3) by (simp add: same_waits_def)
          ultimately show ?thesis
            using wait_ok_remove [OF 2(2), of r] evolves_trans evolves_removed [OF wait_okD(1) [OF 2(2)]] 2(1)
            by (fastforce simp: op bindX_def core_remove_active)
        next
          case 3
          then show ?thesis
            using evolves_trans [OF evolved evolves_same, of core2] active_slots [of core2 core1] same new
            by (simp add: op same_waits_def)
        qed
      next
        case timer
        then show ?thesis
          using True notify None inserted wait_ok_timer_add [OF ok1 _ a] kinds_differ
            evolves_trans [OF evolved evolves_same] new same
          by (auto simp: register_def bindX_def bindIO_apply)
      next
        case completion
        then show ?thesis
          using True notify None inserted wait_ok_completion(1) [OF ok1 a] kinds_differ evolved new same
          by (auto simp: register_def bindX_def bindIO_apply)
      qed
    qed
  qed
qed

lemma register_sound:
  assumes "wait_ok {} core"
  shows "sound core (register p source owner (core, w))"
  by (rule register_ok [OF assms, THEN conjunct1])

text \<open>Taking registrations off a handle: what is left stays in place.\<close>

lemma unlink_handle:
  assumes ok: "wait_ok X core" and h: "re_handles core source = Some h"
    and rest: "\<And>i. i \<in> refs h' \<Longrightarrow> i \<in> refs h \<and> (wh_read h' = Some i \<longleftrightarrow> wh_read h = Some i)
        \<and> (wh_write h' = Some i \<longleftrightarrow> wh_write h = Some i)"
    and run: "update_handle p source h' (core, w) = (res, (core', w'))"
  obtains (ended) m where "res = Inl (Fatal m)"
    | (failed) e where "res = Inr (Inl e)" "wait_ok X core'" "re_slots core' = re_slots core" "re_ready core' = re_ready core"
    | (unlinked) "res = Inr (Inr ())" "wait_ok (X \<union> (refs h - refs h')) core'" "re_slots core' = re_slots core"
      "re_ready core' = re_ready core"
proof -
  have "placed core source h' i \<and> i \<in> X \<union> refs_of (re_handles core source)" if "i \<in> refs h'" for i
    using rest [OF that] wait_okD(3) [OF ok] h by (auto simp: handles_ok_def placed_def refs_of_def)
  note cases = update_handle_ok [OF ok run this]
  have "X \<inter> refs h' = {}"
    using rest wait_okD(8) [OF ok] h by (fastforce simp: loose_def)
  then have "(X \<union> refs_of (re_handles core source)) - refs h' = X \<union> (refs h - refs h')"
    using h by (auto simp: refs_of_def)
  with cases show ?thesis
    using that by (auto simp: same_waits_def)
qed

lemma drop_interests_refs:
  "refs (drop_interests r h) = refs h - {r}"
  "i \<in> refs (drop_interests r h) \<Longrightarrow> (wh_read (drop_interests r h) = Some i \<longleftrightarrow> wh_read h = Some i)
     \<and> (wh_write (drop_interests r h) = Some i \<longleftrightarrow> wh_write h = Some i)"
  by (auto simp: refs_def drop_interests_simps split: if_splits)

lemma remove_last:
  assumes ok: "wait_ok {r} core" and a: "active core r = Some a"
  shows "core_remove r core = (Inr a, removed_from core r)" and "wait_ok {} (removed_from core r)"
    and "evolves core (removed_from core r)"
    and "active (removed_from core r) = (active core)(r := None)"
  using core_remove_active [OF a] wait_ok_remove [OF ok _ a] evolves_removed [OF wait_okD(1) [OF ok] a]
    removed_from_ok(2) [OF wait_okD(1) [OF ok] a] by simp_all

text \<open>A cancellation retires exactly its registration, without a notification; a failed one nothing.\<close>

definition cancel_effect :: "reactor \<Rightarrow> registration \<Rightarrow> (stop + (io_error + bool)) \<times> (reactor \<times> 'w) \<Rightarrow> bool" where
  "cancel_effect core r result \<longleftrightarrow> (case result of
       (Inl _, _) \<Rightarrow> True
     | (Inr (Inl _), (core', _)) \<Rightarrow> active core' = active core \<and> re_ready core' = re_ready core
     | (Inr (Inr b), (core', _)) \<Rightarrow> (b \<longleftrightarrow> active core r \<noteq> None) \<and> re_ready core' = re_ready core
         \<and> active core' = (active core)(r := None))"

lemma cancel_effect_simps [simp]:
  "cancel_effect core r (Inl e, s)"
  "cancel_effect core r (Inr (Inl x), (core', w)) \<longleftrightarrow> active core' = active core \<and> re_ready core' = re_ready core"
  "cancel_effect core r (Inr (Inr b), (core', w)) \<longleftrightarrow> (b \<longleftrightarrow> active core r \<noteq> None)
     \<and> re_ready core' = re_ready core \<and> active core' = (active core)(r := None)"
  by (simp_all add: cancel_effect_def)

lemma cancel_ok:
  assumes ok: "wait_ok {} core"
  shows "sound core (cancel p r (core, w)) \<and> cancel_effect core r (cancel p r (core, w))"
proof (cases "active core r")
  case None
  then show ?thesis using ok by (simp add: cancel_def bindX_def fun_upd_idem)
next
  case (Some a)
  obtain ne w1 where notify: "po_notify p w = (ne, w1)" by (metis prod.exhaust)
  show ?thesis
  proof (cases ne)
    case (Some e)
    then show ?thesis
      using \<open>active core r = Some a\<close> ok notify by (simp add: cancel_def bindX_def bindIO_apply)
  next
    case None
    note a = \<open>active core r = Some a\<close>
    let ?s = "aw_source a"
    note valid = wait_okD(6) [OF ok a]
    consider (readiness) "ws_kind ?s = KIND_READINESS" | (timer) "ws_kind ?s = KIND_TIMER"
      | (completion) "ws_kind ?s = KIND_COMPLETION"
      using valid by (auto simp: valid_source_def split: if_splits)
    then show ?thesis
    proof cases
      case readiness
      then obtain h where h: "re_handles core (ws_handle ?s) = Some h" "r \<in> refs h"
        using wait_okD(7) [OF ok a] by (auto simp: linked_def)
      let ?h = "drop_interests r h"
      obtain res core2 w2 where run: "update_handle p (ws_handle ?s) ?h (core, w1) = (res, (core2, w2))"
        by (metis prod.exhaust)
      have op: "cancel p r (core, w) = (case res of
            Inl e \<Rightarrow> (Inl e, (core2, w2)) | Inr (Inl e) \<Rightarrow> (Inr (Inl e), (core2, w2))
          | Inr (Inr _) \<Rightarrow> bindX (coreX (core_remove r)) (\<lambda>_. okIO True) (core2, w2))"
        using readiness notify None a h run
        by (simp add: cancel_def bindX_def bindIO_apply split: sum.split)
      show ?thesis
      proof (rule unlink_handle [OF ok h(1) _ run])
        show "i \<in> refs ?h \<Longrightarrow> i \<in> refs h \<and> (wh_read ?h = Some i \<longleftrightarrow> wh_read h = Some i)
            \<and> (wh_write ?h = Some i \<longleftrightarrow> wh_write h = Some i)" for i
          using drop_interests_refs [where h = h and r = r] by simp
      next
        fix m assume "res = Inl (Fatal m)"
        then show ?thesis by (simp add: op)
      next
        fix e assume "res = Inr (Inl e)" "wait_ok {} core2" "re_slots core2 = re_slots core"
          "re_ready core2 = re_ready core"
        then show ?thesis using active_slots [of core2 core] by (simp add: op evolves_same)
      next
        assume unlinked: "res = Inr (Inr ())" "wait_ok ({} \<union> (refs h - refs ?h)) core2" "re_slots core2 = re_slots core"
          "re_ready core2 = re_ready core"
        then have ok2: "wait_ok {r} core2"
          using h(2) by (simp add: drop_interests_refs Diff_Diff_Int Int_absorb1)
        have "active core2 r = Some a"
          using active_slots [OF unlinked(3)] a by simp
        from remove_last [OF ok2 this] show ?thesis
          using unlinked(1) evolves_trans [OF evolves_same [OF unlinked(3)]] unlinked(4)
            active_slots [OF unlinked(3)] a by (simp add: op bindX_def removed_ready)
      qed
    next
      case timer
      let ?core = "core\<lparr>re_timers := tree_remove (ws_deadline ?s, rg_key r) (re_timers core)\<rparr>"
      have "wait_ok {r} ?core"
        using wait_ok_timer_remove [OF ok _ a timer] by simp
      moreover have "active ?core r = Some a" using a by simp
      ultimately show ?thesis
        using remove_last [of r ?core a] timer kinds_differ notify None a
          evolves_trans [OF evolves_same, of ?core core "removed_from ?core r"]
        by (simp add: cancel_def bindX_def bindIO_apply removed_ready)
    next
      case completion
      then show ?thesis
        using remove_last [OF wait_ok_completion(2) [OF ok a completion] a] kinds_differ notify None a
        by (simp add: cancel_def bindX_def bindIO_apply removed_ready)
    qed
  qed
qed

lemma cancel_sound:
  assumes "wait_ok {} core"
  shows "sound core (cancel p r (core, w))"
  by (rule cancel_ok [OF assms, THEN conjunct1])

lemma finish_last:
  assumes ok: "wait_ok X core" "r \<in> X" and a: "active core r = Some a"
  shows "core_finish r events e core = (Inr (), finished core r a events e)"
    and "wait_ok (X - {r}) (finished core r a events e)" and "evolves core (finished core r a events e)"
    and "i \<noteq> r \<Longrightarrow> active (finished core r a events e) i = active core i"
  using core_finish_active [OF a] wait_ok_finish [OF ok a] evolves_finished [OF wait_okD(1) [OF ok(1)] a]
    removed_from_ok(2) [OF wait_okD(1) [OF ok(1)] a] by (simp_all add: finished_def)

lemma notify_completion_sound:
  assumes ok: "wait_ok {} core"
  shows "sound core (notify_completion p r events e (core, w))"
proof (cases "active core r")
  case None
  then show ?thesis using ok by (simp add: notify_completion_def bindX_def)
next
  case (Some a)
  show ?thesis
  proof (cases "ws_kind (aw_source a) = KIND_COMPLETION")
    case True
    obtain ne w1 where notify: "po_notify p w = (ne, w1)" by (metis prod.exhaust)
    note last = finish_last [OF wait_ok_completion(2) [OF ok Some True], of r a] Some
    show ?thesis
      using last(1) last(2) last(3) notify Some True ok
      by (cases ne) (simp_all add: notify_completion_def bindX_def bindIO_apply)
  next
    case False
    then show ?thesis using ok Some by (simp add: notify_completion_def bindX_def)
  qed
qed

lemma take_completed_parts:
  assumes "take_completed events h = (rd, wr, rest)"
  shows "i \<in> refs rest \<Longrightarrow> i \<in> refs h \<and> (wh_read rest = Some i \<longleftrightarrow> wh_read h = Some i)
      \<and> (wh_write rest = Some i \<longleftrightarrow> wh_write h = Some i)"
    and "refs h - refs rest = set_option rd \<union> set_option wr"
  using assms by (auto simp: take_completed_def Let_def refs_def drop_interests_simps
      split: if_splits option.splits)

lemma complete_ready_last:
  assumes ok: "wait_ok X core" "r \<in> X"
  obtains core' where "complete_ready events r core = (Inr (), core')" "wait_ok (X - {r}) core'"
    "evolves core core'"
proof -
  obtain a where a: "active core r = Some a"
    using wait_okD(8) [OF ok] by (auto simp: loose_def)
  let ?events = "events AND (ws_interests (aw_source a) OR ERROR)"
  have "complete_ready events r core = (Inr (), finished core r a ?events 0)"
    using a core_finish_active [OF a] by (simp add: complete_ready_def)
  then show ?thesis
    using that finish_last(2,3) [OF ok a] by blast
qed

text \<open>Completing the registrations that were taken off a handle.\<close>

lemma complete_taken_ok:
  assumes ok: "wait_ok (set_option rd \<union> set_option wr) core"
  shows "\<exists>core'. complete_taken events rd wr (core, w) = (Inr (Inr ()), (core', w)) \<and> wait_ok {} core' \<and> evolves core core'"
proof -
  have one: "\<exists>core'. (case x of None \<Rightarrow> retX () | Some r \<Rightarrow> coreX (complete_ready events r)) (core, w)
      = (Inr (), (core', w)) \<and> wait_ok (X - set_option x) core' \<and> evolves core core'"
    if "wait_ok X core" "set_option x \<subseteq> X" for x X core
  proof (cases x)
    case (Some r)
    with that obtain core' where "complete_ready events r core = (Inr (), core')" "wait_ok (X - {r}) core'"
      "evolves core core'"
      using complete_ready_last [of X core r events] by auto
    with Some show ?thesis by simp
  qed (use that in simp)
  obtain core1 where core1: "(case rd of None \<Rightarrow> retX () | Some r \<Rightarrow> coreX (complete_ready events r)) (core, w)
      = (Inr (), (core1, w))" "wait_ok ((set_option rd \<union> set_option wr) - set_option rd) core1"
      "evolves core core1"
    using one [OF ok, of rd] by auto
  show ?thesis
  proof (cases "wr = None \<or> rd = wr")
    case True
    then have "complete_taken events rd wr (core, w) = (Inr (Inr ()), (core1, w))"
      using core1(1) by (auto simp: complete_taken_def bindX_def split: option.splits)
    moreover have "wait_ok {} core1"
      using core1(2) True by (cases wr) (auto simp: Un_Diff)
    ultimately show ?thesis using core1(3) by blast
  next
    case False
    have X: "(set_option rd \<union> set_option wr) - set_option rd = set_option wr"
      using False by (cases rd; cases wr) auto
    obtain core2 where core2: "(case wr of None \<Rightarrow> retX () | Some r \<Rightarrow> coreX (complete_ready events r)) (core1, w)
      = (Inr (), (core2, w))" "wait_ok {} core2" "evolves core1 core2"
      using one [OF core1(2), of wr] X by auto
    then have "complete_taken events rd wr (core, w) = (Inr (Inr ()), (core2, w))"
      using core1(1) False by (auto simp: complete_taken_def bindX_def split: option.splits)
    then show ?thesis
      using core2 evolves_trans [OF core1(3)] by blast
  qed
qed

lemma readiness_sound:
  assumes ok: "wait_ok {} core"
  shows "sound core (readiness p event (core, w))"
proof (cases "re_poll_keys core (ev_key event)")
  case None
  then show ?thesis using ok by (simp add: readiness_def bindX_def)
next
  case (Some source)
  then obtain h where h: "re_handles core source = Some h"
    using wait_okD(4) [OF ok] by (auto simp: polls_ok_def)
  obtain rd wr rest where taken: "take_completed (event_bits event) h = (rd, wr, rest)"
    by (metis prod.exhaust)
  note parts = take_completed_parts [OF taken]
  obtain res core2 w2 where run: "update_handle p source rest (core, w) = (res, (core2, w2))"
    by (metis prod.exhaust)
  have op: "readiness p event (core, w) = (case res of
        Inl e \<Rightarrow> (Inl e, (core2, w2)) | Inr (Inl e) \<Rightarrow> (Inr (Inl e), (core2, w2))
      | Inr (Inr _) \<Rightarrow> complete_taken (event_bits event) rd wr (core2, w2))"
    using Some h taken run by (simp add: readiness_def bindX_def bindIO_apply split: sum.split)
  show ?thesis
  proof (rule unlink_handle [OF ok h parts(1) run])
    fix m assume "res = Inl (Fatal m)"
    then show ?thesis by (simp add: op)
  next
    fix e assume "res = Inr (Inl e)" "wait_ok {} core2" "re_slots core2 = re_slots core"
          "re_ready core2 = re_ready core"
    then show ?thesis by (simp add: op evolves_same)
  next
    assume unlinked: "res = Inr (Inr ())" "wait_ok ({} \<union> (refs h - refs rest)) core2" "re_slots core2 = re_slots core"
          "re_ready core2 = re_ready core"
    then have "wait_ok (set_option rd \<union> set_option wr) core2"
      using parts(2) by simp
    from complete_taken_ok [OF this, of "event_bits event" w2] show ?thesis
      using unlinked(1) evolves_trans [OF evolves_same [OF unlinked(3)]] unlinked(4) by (auto simp: op)
  qed auto
qed

section \<open>Composition\<close>

definition soundX :: "(reactor \<times> 'w, 'a) exec \<Rightarrow> bool" where
  "soundX m \<longleftrightarrow> (\<forall>core w. wait_ok {} core \<longrightarrow> sound core (m (core, w)))"

lemma soundXD: "soundX m \<Longrightarrow> wait_ok {} core \<Longrightarrow> sound core (m (core, w))"
  by (simp add: soundX_def)

named_theorems soundX_intros \<open>operations that keep the reactor sound\<close>

lemma soundX_bind [soundX_intros]:
  assumes "soundX m" "\<And>x. soundX (f x)"
  shows "soundX (bindX m f)"
  unfolding soundX_def
proof (intro allI impI)
  fix core :: reactor and w :: 'a
  assume ok: "wait_ok {} core"
  show "sound core (bindX m f (core, w))"
  proof -
    obtain r t where Pair: "m (core, w) = (r, t)" by (metis prod.exhaust)
    obtain core1 w1 where t: "t = (core1, w1)" by (cases t)
    show ?thesis
    proof (cases r)
      case (Inl e)
      then show ?thesis
        using soundXD [OF assms(1) ok, of w] Pair by (simp add: bindX_def t)
    next
      case (Inr x)
      then have step: "wait_ok {} core1" "evolves core core1"
        using soundXD [OF assms(1) ok, of w] Pair by (simp_all add: t)
      then have "sound core1 (f x (core1, w1))"
        using assms(2) by (simp add: soundX_def)
      then show ?thesis
        using Inr Pair step(2) evolves_trans by (auto simp: bindX_def t sound_def split: prod.splits sum.splits)
    qed
  qed
qed

lemma soundX_ret [soundX_intros]: "soundX (retX x)" "soundX (okIO x)" "soundX (errIO k m)" "soundX (getX g)"
  by (simp_all add: soundX_def)

lemma soundX_world [soundX_intros]: "soundX (worldX f)"
  by (simp add: soundX_def split: prod.split)

lemma soundX_bindIO [soundX_intros]:
  assumes "soundX m" "\<And>x. soundX (f x)"
  shows "soundX (bindIO m f)"
  unfolding bindIO_def by (intro soundX_bind assms) (auto intro: soundX_ret assms split: sum.split)

lemma soundX_if: "soundX m \<Longrightarrow> soundX n \<Longrightarrow> soundX (if b then m else n)"
  by simp

lemma soundX_option: "soundX m \<Longrightarrow> (\<And>x. soundX (f x)) \<Longrightarrow> soundX (case v of None \<Rightarrow> m | Some x \<Rightarrow> f x)"
  by (cases v) simp_all

lemma soundX_poll [soundX_intros]: "soundX (pollIO f)"
  unfolding pollIO_def by (intro soundX_intros)

lemma fire_timers_sound [soundX_intros]: "soundX (coreX (fire_timers now))"
  unfolding soundX_def
proof (intro allI impI)
  fix core :: reactor and w :: 'a
  assume ok: "wait_ok {} core"
  let ?due = "takeWhile (\<lambda>e. fst (fst e) \<le> now) (re_timers core)"
  from fire_due_ok [OF ok refl, of now] obtain core' where fired: "fire_timers now core = (Inr (), core')"
      "wait_ok {} core'" "map nt_registration (re_ready core') = map nt_registration (re_ready core) @ map snd ?due"
      "\<And>r. active core' r = (if r \<in> snd ` set ?due then None else active core r)" "issued core' = issued core"
    by (auto simp: fire_timers_def)
  have "nt_registration ` set (re_ready core') = nt_registration ` set (re_ready core) \<union> snd ` set ?due"
    using arg_cong [OF fired(3), of set] by simp
  moreover have "active core (snd e) \<noteq> None" if "e \<in> set ?due" for e
    using wait_okD(2) [OF ok] set_takeWhileD [OF that] by (auto simp: timers_ok_def)
  ultimately have "evolves core core'"
    using fired(4,5) by (auto simp: evolves_def waiting_def)
  with fired(1,2) show "sound core (coreX (fire_timers now) (core, w))" by simp
qed

lemma operations_sound [soundX_intros]:
  "soundX (register p source owner)" "soundX (cancel p r)" "soundX (notify_completion p r events e)"
  "soundX (readiness p event)"
  by (simp_all add: soundX_def register_sound cancel_sound notify_completion_sound readiness_sound)

lemma readiness_all_sound [soundX_intros]: "soundX (readiness_all p events)"
proof (induction events)
  case Nil
  show ?case unfolding readiness_all.simps by (rule soundX_intros)
next
  case (Cons event events)
  then show ?case unfolding readiness_all.simps by (intro soundX_intros)
qed

lemma pop_ready_sound [soundX_intros]: "soundX (coreX pop_ready)"
  unfolding soundX_def
proof (intro allI impI)
  fix core :: reactor and w :: 'a
  assume ok: "wait_ok {} core"
  then show "sound core (coreX pop_ready (core, w))"
  proof (cases "re_ready core")
    case (Cons n rest)
    have "wait_ok {} (core\<lparr>re_ready := rest\<rparr>)"
      by (rule wait_ok_ready [OF ok]) (use wait_okD(5) [OF ok] Cons in \<open>auto simp: ready_ok_def\<close>)
    then show ?thesis
      using Cons by (simp add: pop_ready_def evolves_same subset_insertI)
  qed (simp add: pop_ready_def)
qed

lemma revoke_sound [soundX_intros]: "soundX (revoke_readiness p source)"
  unfolding soundX_def
proof (intro allI impI)
  fix core :: reactor and w :: 'a
  assume ok: "wait_ok {} core"
  show "sound core (revoke_readiness p source (core, w))"
  proof (cases "re_handles core source")
    case None
    then show ?thesis using ok by (simp add: revoke_readiness_def bindX_def)
  next
    case (Some h)
    obtain ne w1 where notify: "po_notify p w = (ne, w1)" by (metis prod.exhaust)
    obtain res core2 w2 where run: "update_handle p source no_handle (core, w1) = (res, (core2, w2))"
      by (metis prod.exhaust)
    show ?thesis
    proof (cases ne)
      case (Some e)
      then show ?thesis
        using \<open>re_handles core source = Some h\<close> ok notify by (simp add: revoke_readiness_def bindX_def bindIO_apply)
    next
      case None
      have empty: "refs no_handle = {}" by (simp add: no_handle_def refs_def)
      show ?thesis
      proof (rule unlink_handle [OF ok Some _ run])
        fix m assume "res = Inl (Fatal m)"
        then show ?thesis
          using Some notify None run by (simp add: revoke_readiness_def bindX_def bindIO_apply)
      next
        fix e assume "res = Inr (Inl e)" "wait_ok {} core2" "re_slots core2 = re_slots core"
          "re_ready core2 = re_ready core"
        then show ?thesis
          using Some notify None run evolves_same by (simp add: revoke_readiness_def bindX_def bindIO_apply)
      next
        assume unlinked: "res = Inr (Inr ())" "wait_ok ({} \<union> (refs h - refs no_handle)) core2" "re_slots core2 = re_slots core"
          "re_ready core2 = re_ready core"
        then have ok2: "wait_ok (set_option (wh_read h) \<union> set_option (wh_write h)) core2"
          using empty by (simp add: refs_def)
        have finish: "\<exists>core'. core_finish r ERROR 0 core = (Inr (), core') \<and> wait_ok (X - {r}) core' \<and> evolves core core'"
          if X: "wait_ok X core" "r \<in> X" for X r core
        proof -
          obtain a where "active core r = Some a"
            using wait_okD(8) [OF X] by (auto simp: loose_def)
          from finish_last(1-3) [OF X this] show ?thesis by blast
        qed
        obtain core3 where core3: "(case wh_read h of None \<Rightarrow> retX () | Some r \<Rightarrow> coreX (core_finish r ERROR 0)) (core2, w2)
            = (Inr (), (core3, w2))"
          "wait_ok ((set_option (wh_read h) \<union> set_option (wh_write h)) - set_option (wh_read h)) core3" "evolves core2 core3"
        proof (cases "wh_read h")
          case (Some r)
          with finish [OF ok2, of r] show ?thesis using that by auto
        qed (use ok2 that in auto)
        have "\<exists>core4. (case wh_write h of None \<Rightarrow> retX () | Some r \<Rightarrow>
            if wh_write h \<noteq> wh_read h then coreX (core_finish r ERROR 0) else retX ()) (core3, w2) = (Inr (), (core4, w2))
            \<and> wait_ok {} core4 \<and> evolves core3 core4"
        proof (cases "wh_write h = None \<or> wh_write h = wh_read h")
          case True
          then have "(set_option (wh_read h) \<union> set_option (wh_write h)) - set_option (wh_read h) = {}" by auto
          then show ?thesis using core3(2) True by (auto split: option.split)
        next
          case False
          then obtain r where r: "wh_write h = Some r" "wh_write h \<noteq> wh_read h" by auto
          then have "(set_option (wh_read h) \<union> set_option (wh_write h)) - set_option (wh_read h) = {r}"
            by (cases "wh_read h") auto
          with finish [OF core3(2), of r] show ?thesis using r by auto
        qed
        then show ?thesis
          using Some notify None run unlinked(1) core3 evolves_trans [OF evolves_same [OF unlinked(3)]] unlinked(4)
            evolves_trans [OF core3(3)]
          by (auto simp: revoke_readiness_def bindX_def bindIO_apply)
      qed (simp add: empty)
    qed
  qed
qed

lemma fire_now_sound [soundX_intros]: "soundX (fire_now p)"
  unfolding fire_now_def by (intro soundX_intros)

lemma wait_round_sound [soundX_intros]: "soundX (wait_round p deadline)"
  unfolding wait_round_def
  by (intro soundX_intros soundX_if soundX_option)

text \<open>The loop, when it returns.\<close>

lemma wait_loop_sound:
  assumes "wait_loop p deadline s = Some result" "wait_ok {} (fst s)"
  shows "sound (fst s) result"
proof -
  have "wait_ok {} (fst s) \<longrightarrow> sound (fst s) result"
  proof (rule wait_loop.raw_induct [where P = "\<lambda>p deadline s result. wait_ok {} (fst s) \<longrightarrow> sound (fst s) result",
        OF _ assms(1)], rule impI)
    fix loop p deadline s result
    assume IH: "\<And>p deadline s result. loop p deadline s = Some result \<Longrightarrow> wait_ok {} (fst s) \<longrightarrow> sound (fst s) result"
      and run: "(case wait_round p deadline s of
        (Inl e, t) \<Rightarrow> Some (Inl e, t)
      | (Inr (Inl e), t) \<Rightarrow> Some (Inr (Inl e), t)
      | (Inr (Inr None), t) \<Rightarrow> loop p deadline t
      | (Inr (Inr (Some n)), t) \<Rightarrow> Some (Inr (Inr n), t)) = Some result"
      and ok: "wait_ok {} (fst s)"
    obtain core w where s: "s = (core, w)" by (cases s)
    obtain r core1 w1 where round: "wait_round p deadline (core, w) = (r, (core1, w1))"
      by (metis prod.exhaust)
    have sound: "sound core (r, (core1, w1))"
      using soundXD [OF wait_round_sound, of core p deadline w] ok round by (simp add: s)
    show "sound (fst s) result"
    proof (cases "r = Inr (Inr None)")
      case True
      then have "loop p deadline (core1, w1) = Some result"
        using run round by (simp add: s)
      from IH [OF this] show ?thesis
        using sound True evolves_trans by (auto simp: s sound_def split: prod.splits sum.splits)
    next
      case False
      then show ?thesis
        using run round sound by (auto simp: s split: sum.splits option.splits)
    qed
  qed
  then show ?thesis using assms(2) by simp
qed

lemma wait_begin_sound: "soundX (wait_begin p timeout)"
  unfolding wait_begin_def by (intro soundX_intros soundX_if soundX_option)

lemma wait_sound:
  assumes "wait p timeout (core, w) = Some result" "wait_ok {} core"
  shows "sound core result"
proof -
  obtain r core1 w1 where start: "wait_begin p timeout (core, w) = (r, (core1, w1))"
    by (metis prod.exhaust)
  have sound: "sound core (r, (core1, w1))"
    using soundXD [OF wait_begin_sound assms(2), of p timeout w] start by simp
  show ?thesis
  proof (cases "\<exists>d. r = Inr (Inr (Inr d))")
    case True
    then obtain d where "wait_loop p d (core1, w1) = Some result"
      using assms(1) start by (auto simp: wait_def)
    from wait_loop_sound [OF this] show ?thesis
      using sound True evolves_trans by (auto simp: sound_def split: prod.splits sum.splits)
  next
    case False
    then show ?thesis
      using assms(1) start sound by (auto simp: wait_def split: sum.splits)
  qed
qed

section \<open>Steps of the reactor\<close>

inductive reactor_step :: "'w poller \<Rightarrow> reactor \<Rightarrow> reactor \<Rightarrow> bool" for p where
  register: "register p source owner (core, w) = (Inr r, (core', w')) \<Longrightarrow> reactor_step p core core'"
| cancel: "cancel p r (core, w) = (Inr b, (core', w')) \<Longrightarrow> reactor_step p core core'"
| complete: "notify_completion p r events e (core, w) = (Inr b, (core', w')) \<Longrightarrow> reactor_step p core core'"
| revoke: "revoke_readiness p source (core, w) = (Inr u, (core', w')) \<Longrightarrow> reactor_step p core core'"
| wait: "wait p timeout (core, w) = Some (Inr n, (core', w')) \<Longrightarrow> reactor_step p core core'"
| pop: "pop_ready core = (Inr n, core') \<Longrightarrow> reactor_step p core core'"

inductive_cases reactor_stepE: "reactor_step p core core'"

lemma soundX_step:
  "soundX m \<Longrightarrow> m (core, w) = (Inr x, (core', w')) \<Longrightarrow> wait_ok {} core \<Longrightarrow> wait_ok {} core' \<and> evolves core core'"
  unfolding soundX_def by (metis sound_simps(2))

lemma reactor_step_ok:
  assumes "reactor_step p core core'" "wait_ok {} core"
  shows "wait_ok {} core' \<and> evolves core core'"
  using assms(1)
proof cases
  case (wait timeout w n w')
  from wait_sound [OF this assms(2)] show ?thesis by simp
next
  case (pop n)
  have "soundX (coreX pop_ready :: (reactor \<times> unit, notification option) exec)" by (rule soundX_intros)
  from soundX_step [OF this _ assms(2), of "()" n core' "()"] show ?thesis using pop by simp
qed (rule soundX_step [OF _ _ assms(2)], rule soundX_intros, assumption)+

interpretation registrations: one_shot "wait_ok {}" "\<lambda>core r. active core r \<noteq> None" issued "reactor_step p" for p :: "'w poller"
proof
  fix core core' r
  assume step: "reactor_step p core core'" and ok: "wait_ok {} core"
  note kept = reactor_step_ok [OF step ok]
  show "wait_ok {} core'" using kept by simp
  show "issued core r \<Longrightarrow> issued core' r" using kept by (simp add: evolves_def)
  show "active core' r \<noteq> None \<Longrightarrow> active core r \<noteq> None \<or> \<not> issued core r"
    using kept by (simp add: evolves_def)
next
  show "issued core r" if "wait_ok {} core" "active core r \<noteq> None" for core r
    using that active_issued [OF wait_okD(1)] by auto
qed

lemma waiting_issued: "wait_ok {} core \<Longrightarrow> waiting core r \<Longrightarrow> issued core r"
  using active_issued [OF wait_okD(1)] wait_okD(5) by (auto simp: waiting_def ready_ok_def)

interpretation deliveries: one_shot "wait_ok {}" waiting issued "reactor_step p" for p :: "'w poller"
proof
  fix core core' r
  assume step: "reactor_step p core core'" and ok: "wait_ok {} core"
  note kept = reactor_step_ok [OF step ok]
  show "wait_ok {} core'" using kept by simp
  show "issued core r \<Longrightarrow> issued core' r" using kept by (simp add: evolves_def)
  show "waiting core' r \<Longrightarrow> waiting core r \<or> \<not> issued core r"
    using kept by (simp add: evolves_def)
qed (rule waiting_issued)

section \<open>Facts about outcomes\<close>

lemma sound_never: "sound core m \<Longrightarrow> fst m \<noteq> Inl Panic"
  by (cases m) (auto simp: sound_def)

text \<open>In a tree ordered by deadlines, the due timers are a prefix.\<close>

lemma sorted_due:
  assumes "sorted (map (fst \<circ> fst) es)"
  shows "takeWhile (\<lambda>e. fst (fst e) \<le> now) es = filter (\<lambda>e. fst (fst e) \<le> (now::nat)) es"
    and "dropWhile (\<lambda>e. fst (fst e) \<le> now) es = filter (\<lambda>e. now < fst (fst e)) es"
proof -
  have "takeWhile (\<lambda>e. fst (fst e) \<le> now) es = filter (\<lambda>e. fst (fst e) \<le> now) es
      \<and> dropWhile (\<lambda>e. fst (fst e) \<le> now) es = filter (\<lambda>e. now < fst (fst e)) es"
    using assms
  proof (induction es)
    case (Cons e es)
    show ?case
    proof (cases "fst (fst e) \<le> now")
      case False
      then have "\<forall>x \<in> set es. now < fst (fst x)"
        using Cons.prems by fastforce
      then have "filter (\<lambda>e. fst (fst e) \<le> now) es = []" "filter (\<lambda>e. now < fst (fst e)) es = es"
        unfolding filter_empty_conv filter_id_conv not_le by simp_all
      with False show ?thesis by simp
    qed (use Cons in simp)
  qed simp
  then show "takeWhile (\<lambda>e. fst (fst e) \<le> now) es = filter (\<lambda>e. fst (fst e) \<le> now) es"
    and "dropWhile (\<lambda>e. fst (fst e) \<le> now) es = filter (\<lambda>e. now < fst (fst e)) es"
    by blast+
qed

lemma sorted_filter_deadline:
  "sorted (map (fst \<circ> fst) es) \<Longrightarrow> sorted (map (fst \<circ> fst) (filter P es))"
  by (induction es) auto

section \<open>Polling returns\<close>

text \<open>A clock that does not go back: reading it, and whatever the poller does, only advances it.\<close>

definition clock_runs :: "'w poller \<Rightarrow> ('w \<Rightarrow> nat) \<Rightarrow> bool" where
  "clock_runs p clock \<longleftrightarrow>
     (\<forall>w. clock w \<le> fst (po_now p w) \<and> fst (po_now p w) \<le> clock (snd (po_now p w)))
     \<and> (\<forall>w. clock w \<le> clock (snd (po_notify p w)))
     \<and> (\<forall>n e w. clock w \<le> clock (snd (po_add p n e w)) \<and> clock w \<le> clock (snd (po_modify p n e w)))
     \<and> (\<forall>n w. clock w \<le> clock (snd (po_delete p n w)))
     \<and> (\<forall>t w. clock w \<le> clock (snd (po_wait p t w)))"

text \<open>Operations that do not set the clock back.\<close>

definition advances :: "('w \<Rightarrow> nat) \<Rightarrow> (reactor \<times> 'w, 'a) exec \<Rightarrow> bool" where
  "advances clock m \<longleftrightarrow> (\<forall>s. clock (snd s) \<le> clock (snd (snd (m s))))"

lemma advancesD: "advances clock m \<Longrightarrow> m s = (r, t) \<Longrightarrow> clock (snd s) \<le> clock (snd t)"
  unfolding advances_def by (metis snd_conv)

named_theorems advances_intros \<open>operations that do not set the clock back\<close>

lemma advances_bind [advances_intros]:
  assumes "advances clock m" "\<And>x. advances clock (f x)"
  shows "advances clock (bindX m f)"
  unfolding advances_def
proof
  fix s
  obtain r t where m: "m s = (r, t)" by (metis prod.exhaust)
  note advancesD [OF assms(1) m]
  moreover have "clock (snd t) \<le> clock (snd (snd (f x t)))" for x
    using assms(2) [of x] by (cases t) (simp add: advances_def)
  ultimately show "clock (snd s) \<le> clock (snd (snd (bindX m f s)))"
    using m by (auto simp: bindX_def split: sum.split intro: order_trans)
qed

lemma advances_core [advances_intros]: "advances clock (coreX m)"
  by (simp add: advances_def coreX_def zoomX_def split: prod.split)

lemma advances_pure [advances_intros]:
  "advances clock (retX x)" "advances clock (getX g)" "advances clock (okIO x)" "advances clock (errIO k m)"
  "advances clock (guardX b e)" "advances clock (someX v e)"
  by (simp_all add: advances_def split: option.split)

lemma advances_bindIO [advances_intros]:
  "advances clock m \<Longrightarrow> (\<And>x. advances clock (f x)) \<Longrightarrow> advances clock (bindIO m f)"
  unfolding bindIO_def by (intro advances_bind) (auto intro: advances_pure split: sum.split)

lemma advances_world:
  "(\<And>w. clock w \<le> clock (snd (f w))) \<Longrightarrow> advances clock (worldX f)"
  by (simp add: advances_def worldX_def split: prod.split) (metis snd_conv)

lemma advances_poller [advances_intros]:
  assumes "clock_runs p clock"
  shows "advances clock (worldX (po_now p))" "advances clock (worldX (po_notify p))"
    "advances clock (worldX (po_add p n e))" "advances clock (worldX (po_modify p n e))"
    "advances clock (worldX (po_delete p n))" "advances clock (worldX (po_wait p t))"
  using assms unfolding clock_runs_def by (auto intro!: advances_world intro: order_trans)

lemma advances_cases [advances_intros]:
  "advances clock m \<Longrightarrow> advances clock n \<Longrightarrow> advances clock (if b then m else n)"
  "advances clock m \<Longrightarrow> (\<And>x. advances clock (f x)) \<Longrightarrow> advances clock (case v of None \<Rightarrow> m | Some x \<Rightarrow> f x)"
  "(\<And>x y. advances clock (g x y)) \<Longrightarrow> advances clock (case pair of (x, y) \<Rightarrow> g x y)"
  by (auto split: option.split prod.split)

lemma advances_readiness [advances_intros]:
  assumes "clock_runs p clock"
  shows "advances clock (readiness p event)"
proof -
  have "advances clock (poll_update p n previous h)" for n previous h
    unfolding poll_update_def Let_def using advances_poller [OF assms]
    by (auto intro!: advances_bind advances_bindIO advances_core advances_pure)
  moreover have "advances clock (poll_restore p n previous e)" for n previous e
    unfolding poll_restore_def using advances_poller [OF assms]
    by (auto intro!: advances_bind advances_pure split: option.split)
  moreover have "advances clock (native_source source)" for source
    unfolding native_source_def by (intro advances_cases advances_pure)
  ultimately have "advances clock (update_handle p source h)" for source h
    unfolding update_handle_def by (intro advances_intros) auto
  moreover have "advances clock (complete_taken events rd wr)" for events rd wr
    unfolding complete_taken_def by (intro advances_bind advances_cases advances_core advances_pure)
  ultimately show ?thesis
    unfolding readiness_def by (intro advances_bind advances_bindIO advances_cases advances_core advances_pure)
qed

lemma advances_readiness_all:
  assumes "clock_runs p clock"
  shows "advances clock (readiness_all p events)"
proof (induction events)
  case Nil
  show ?case unfolding readiness_all.simps by (rule advances_pure)
next
  case (Cons event events)
  then show ?case
    unfolding readiness_all.simps by (intro advances_bindIO advances_readiness [OF assms])
qed

text \<open>A round past its deadline ends the loop.\<close>

definition ends_by :: "('w \<Rightarrow> nat) \<Rightarrow> nat \<Rightarrow> ('w, nat option) io \<Rightarrow> bool" where
  "ends_by clock due m \<longleftrightarrow> (\<forall>s. due \<le> clock (snd s) \<longrightarrow> fst (m s) \<noteq> Inr (Inr None))"

lemma ends_bind:
  assumes "advances clock m" "\<And>x. ends_by clock due (f x)"
  shows "ends_by clock due (bindX m f)"
  unfolding ends_by_def
proof (intro allI impI)
  fix s :: "reactor \<times> 'a"
  assume due: "due \<le> clock (snd s)"
  obtain r t where m: "m s = (r, t)" by (metis prod.exhaust)
  from advancesD [OF assms(1) m] show "fst (bindX m f s) \<noteq> Inr (Inr None)"
    using due assms(2) m by (cases t) (auto simp: bindX_def ends_by_def split: sum.split)
qed

lemma ends_bindIO:
  "advances clock m \<Longrightarrow> (\<And>x. ends_by clock due (f x)) \<Longrightarrow> ends_by clock due (bindIO m f)"
  unfolding bindIO_def by (intro ends_bind) (auto simp: ends_by_def split: sum.split)

lemma ends_if:
  "(b \<Longrightarrow> ends_by clock due m) \<Longrightarrow> (\<not> b \<Longrightarrow> ends_by clock due n) \<Longrightarrow> ends_by clock due (if b then m else n)"
  by simp

lemma ends_ok: "v \<noteq> None \<Longrightarrow> ends_by clock due (okIO v)"
  by (simp add: ends_by_def)

lemma ends_deadline:
  assumes "clock_runs p clock"
  shows "ends_by clock due (bindX (worldX (po_now p)) (\<lambda>instant. okIO (if due \<le> instant then Some 0 else None)))"
  unfolding ends_by_def
proof (intro allI impI)
  fix s :: "reactor \<times> 'a"
  assume due: "due \<le> clock (snd s)"
  then have "due \<le> fst (po_now p (snd s))"
    using assms unfolding clock_runs_def by (meson order_trans)
  then show "fst (bindX (worldX (po_now p)) (\<lambda>instant. okIO (if due \<le> instant then Some 0 else None)) s)
      \<noteq> Inr (Inr None)"
    by (cases s; cases "po_now p (snd s)") (simp add: bindX_def)
qed

lemma advances_fire_now: "clock_runs p clock \<Longrightarrow> advances clock (fire_now p)"
  unfolding fire_now_def by (intro advances_bind advances_poller advances_core advances_pure)

lemma wait_round_ends:
  assumes "clock_runs p clock"
  shows "ends_by clock due (wait_round p (Some due))"
  unfolding wait_round_def option.case
  by (intro ends_bind ends_bindIO ends_if ends_deadline [OF assms] ends_ok advances_fire_now [OF assms]
      advances_bind advances_poller [OF assms] advances_pure advances_readiness_all [OF assms])

text \<open>Polling without a timeout to wait for returns after at most one round.\<close>

lemma wait_zero_returns:
  assumes clock: "clock_runs p clock"
  shows "wait p (Some 0) s \<noteq> None"
proof -
  obtain r t where start: "wait_begin p (Some 0) s = (r, t)" by (metis prod.exhaust)
  show ?thesis
  proof (cases "\<exists>d. r = Inr (Inr (Inr d))")
    case False
    then show ?thesis
      using start by (auto simp: wait_def split: sum.splits)
  next
    case True
    then obtain d where r: "r = Inr (Inr (Inr d))" by blast
    obtain fr s1 where fire: "fire_now p s = (fr, s1)" by (metis prod.exhaust)
    obtain instant w2 where now: "po_now p (snd s1) = (instant, w2)" by (metis prod.exhaust)
    have "d = Some instant \<and> snd t = w2"
      using start r fire now
      by (cases s1) (auto simp: wait_begin_def bindX_def ready_count_def checked_add_def split: sum.splits if_splits)
    moreover have "instant \<le> clock w2"
      using clock now unfolding clock_runs_def by (metis fst_conv snd_conv)
    ultimately have "fst (wait_round p d t) \<noteq> Inr (Inr None)"
      using wait_round_ends [OF clock, of instant] by (cases t) (simp add: ends_by_def)
    then have "wait_loop p d t \<noteq> None"
      by (subst wait_loop.simps) (auto split: prod.split sum.split option.split)
    then show ?thesis
      using start r by (simp add: wait_def)
  qed
qed

end
