(* ===== verification/Tasks.thy ===== *)
theory Tasks
  imports Reactor
begin

text \<open>
  The data and the owner-side operations of the task scheduler
  (\<open>compiler/runtime/src/tasks.rs\<close>): tasks, their table, external waits, cleanup stacks and
  cancellation of subtrees.

  Generated code (cleanup callbacks), the worker pools, the sockets and the reactor's poller are the
  parameters of the record \<open>env\<close>, functions of a state of the outside world.  A frame is an
  identity of \<open>Frames\<close>; a callback may move every frame, which \<open>fr_trace\<close> records.  Creation labels
  and fault messages are byte strings.
\<close>

section \<open>Tasks\<close>

record owned_fault =
  of_message :: string
  of_test_name :: "string option"

datatype task_state =
    Queued
  | Running
  | Waiting nat
  | Observing
  | ExternalWaiting
  | Completed nat
  | Faulted owned_fault nat
  | Cancelled nat

text \<open>\<open>State::terminal_order\<close>.\<close>

fun terminal_order :: "task_state \<Rightarrow> nat option" where
  "terminal_order (Completed order) = Some order"
| "terminal_order (Faulted _ order) = Some order"
| "terminal_order (Cancelled order) = Some order"
| "terminal_order _ = None"

fun is_faulted :: "task_state \<Rightarrow> bool" where
  "is_faulted (Faulted _ _) = True"
| "is_faulted _ = False"

abbreviation terminal :: "task_state \<Rightarrow> bool" where
  "terminal s \<equiv> terminal_order s \<noteq> None"

record external_wait =
  ex_source :: wait_source
  ex_registration :: registration
  ex_ready :: "notification option"
  ex_socket :: "nat option"

text \<open>An entry of the set of terminal notifications, ordered like the pair of its fields.\<close>

datatype completion_event = Event (ev_order: nat) (ev_child: nat)

instantiation completion_event :: linorder
begin

definition less_eq_completion_event :: "completion_event \<Rightarrow> completion_event \<Rightarrow> bool" where
  "less_eq_completion_event a b \<longleftrightarrow> ev_order a < ev_order b \<or> ev_order a = ev_order b \<and> ev_child a \<le> ev_child b"

definition less_completion_event :: "completion_event \<Rightarrow> completion_event \<Rightarrow> bool" where
  "less_completion_event a b \<longleftrightarrow> ev_order a < ev_order b \<or> ev_order a = ev_order b \<and> ev_child a < ev_child b"

instance
  by standard (auto simp: less_eq_completion_event_def less_completion_event_def completion_event.expand)

end

record observation =
  ob_members :: "nat \<Rightarrow> int option"
  ob_ready :: "completion_event set"
  ob_selected_fault :: "nat option"
  ob_selected_index :: "int option"

definition new_observation :: observation where
  "new_observation = \<lparr>ob_members = Map.empty, ob_ready = {}, ob_selected_fault = None, ob_selected_index = None\<rparr>"

record task =
  tk_frame :: frame_id
  tk_resume :: nat
  tk_parent :: "nat option"
  tk_children :: "nat set"
  tk_returned :: nat
  tk_returned_to_parent :: bool
  tk_result_extracted :: bool
  tk_cleanups :: "(int \<times> nat) list"   \<comment> \<open>site and callback; the last one is popped first\<close>
  tk_waiter :: "nat option"
  tk_observation :: "observation option"
  tk_state :: task_state
  tk_external :: "external_wait option"
  tk_operation :: "nat option"
  tk_computation :: "nat option"
  tk_creation :: string

record sched =
  sc_tasks :: "nat \<Rightarrow> task option"
  sc_ready :: "nat list"
  sc_current :: "nat option"
  sc_root :: "nat option"
  sc_next :: nat
  sc_pending :: nat

record 'w owner =
  ow_roots :: store
  ow_core :: sched
  ow_reactor :: "reactor option"
  ow_world :: 'w

definition new_sched :: sched where
  "new_sched = \<lparr>sc_tasks = Map.empty, sc_ready = [], sc_current = None, sc_root = None, sc_next = 0, sc_pending = 0\<rparr>"

definition new_owner :: "'w \<Rightarrow> 'w owner" where
  "new_owner w = \<lparr>ow_roots = empty_store, ow_core = new_sched, ow_reactor = None, ow_world = w\<rparr>"

section \<open>The outside world\<close>

record 'w env =
  en_poller :: "'w poller"
  en_poller_new :: "'w \<Rightarrow> io_error option \<times> 'w"
  en_cleanup :: "nat \<Rightarrow> nat \<Rightarrow> 'w \<Rightarrow> owned_fault option \<times> (nat \<Rightarrow> nat) \<times> 'w"
  en_operation_drain :: "nat \<Rightarrow> 'w \<Rightarrow> 'w"
  en_computation_drain :: "nat \<Rightarrow> 'w \<Rightarrow> owned_fault option \<times> 'w"
  en_computation_complete :: "nat \<Rightarrow> 'w \<Rightarrow> bool"
  en_computation_first :: "nat \<Rightarrow> 'w \<Rightarrow> bool \<times> 'w"
  en_computation_take :: "nat \<Rightarrow> 'w \<Rightarrow> owned_fault option \<times> 'w"
  en_submit :: "nat \<Rightarrow> nat \<Rightarrow> registration \<Rightarrow> 'w \<Rightarrow> (io_error + nat) \<times> 'w"
  en_socket_ready :: "nat \<Rightarrow> 32 word \<Rightarrow> 'w \<Rightarrow> 'w"
  en_error_text :: "io_error \<Rightarrow> string"
  en_test_name :: "'w \<Rightarrow> string option"

section \<open>Access to the owner\<close>

type_synonym ('w, 'a) act = "('w owner, 'a) exec"

definition map_core :: "(sched \<Rightarrow> sched) \<Rightarrow> 'w owner \<Rightarrow> 'w owner" where
  "map_core f o' = o'\<lparr>ow_core := f (ow_core o')\<rparr>"

definition modC :: "(sched \<Rightarrow> sched) \<Rightarrow> ('w, unit) act" where
  "modC f = modifyX (map_core f)"

definition getC :: "(sched \<Rightarrow> 'a) \<Rightarrow> ('w, 'a) act" where
  "getC f = getX (\<lambda>o'. f (ow_core o'))"

text \<open>\<open>core.tasks[&id]\<close>, \<open>get(&id).unwrap()\<close> and \<open>get_mut(&id).unwrap()\<close>.\<close>

definition taskX :: "nat \<Rightarrow> ('w, task) act" where
  "taskX i = bindX (getC sc_tasks) (\<lambda>tasks. someX (tasks i) Panic)"

definition put_task :: "nat \<Rightarrow> task \<Rightarrow> sched \<Rightarrow> sched" where
  "put_task i t core = core\<lparr>sc_tasks := (sc_tasks core)(i \<mapsto> t)\<rparr>"

definition updX :: "nat \<Rightarrow> (task \<Rightarrow> task) \<Rightarrow> ('w, unit) act" where
  "updX i f = bindX (taskX i) (\<lambda>t. modC (put_task i (f t)))"

definition push_back :: "nat \<Rightarrow> sched \<Rightarrow> sched" where
  "push_back i core = core\<lparr>sc_ready := sc_ready core @ [i]\<rparr>"

definition push_front :: "nat \<Rightarrow> sched \<Rightarrow> sched" where
  "push_front i core = core\<lparr>sc_ready := i # sc_ready core\<rparr>"

text \<open>\<open>pending -= 1\<close> would overflow at zero.\<close>

definition pending_less :: "('w, unit) act" where
  "pending_less = bindX (getC sc_pending) (\<lambda>n.
     bindX (guardX (0 < n) Panic) (\<lambda>_. modC (\<lambda>core. core\<lparr>sc_pending := n - 1\<rparr>)))"

definition rootsX :: "(store, 'a) exec \<Rightarrow> ('w, 'a) act" where
  "rootsX m = zoomX ow_roots (\<lambda>s o'. o'\<lparr>ow_roots := s\<rparr>) m"

definition wX :: "('w \<Rightarrow> 'a \<times> 'w) \<Rightarrow> ('w, 'a) act" where
  "wX f = (\<lambda>o'. case f (ow_world o') of (x, w) \<Rightarrow> (Inr x, o'\<lparr>ow_world := w\<rparr>))"

text \<open>An operation of the reactor, which must exist (\<open>reactor.get().unwrap()\<close>).\<close>

definition reactorX :: "('w, 'a) io \<Rightarrow> ('w, io_error + 'a) act" where
  "reactorX m = (\<lambda>o'. case ow_reactor o' of
       None \<Rightarrow> (Inl Panic, o')
     | Some r \<Rightarrow> (case m (r, ow_world o') of (x, (r', w)) \<Rightarrow> (x, o'\<lparr>ow_reactor := Some r', ow_world := w\<rparr>)))"

text \<open>\<open>Owner::reactor\<close> creates it on first use.\<close>

definition need_reactor :: "'w env \<Rightarrow> ('w, io_error + unit) act" where
  "need_reactor env =
     bindX (getX ow_reactor) (\<lambda>r.
     if r \<noteq> None then retX (Inr ())
     else bindX (wX (en_poller_new env)) (\<lambda>e.
       case e of
         Some error \<Rightarrow> retX (Inl error)
       | None \<Rightarrow> bindX (modifyX (\<lambda>o'. o'\<lparr>ow_reactor := Some new_reactor\<rparr>)) (\<lambda>_. retX (Inr ()))))"

text \<open>\<open>next_stamp\<close>: identities and terminal orders share one counter.\<close>

definition next_stamp :: "('w, nat) act" where
  "next_stamp =
     bindX (getC sc_next) (\<lambda>n.
     bindX (someX (checked_add n 1) (Fatal ''task identities exhausted'')) (\<lambda>n.
     bindX (modC (\<lambda>core. core\<lparr>sc_next := n\<rparr>)) (\<lambda>_. retX n)))"

text \<open>\<open>append_creation\<close>.\<close>

definition append_creation :: "string \<Rightarrow> owned_fault \<Rightarrow> owned_fault" where
  "append_creation creation failure =
     (if creation = [] then failure
      else failure\<lparr>of_message := of_message failure @ CHR 0x0A # creation\<rparr>)"

section \<open>Observation of children\<close>

text \<open>\<open>observation::contains\<close>.\<close>

definition observes :: "task \<Rightarrow> nat \<Rightarrow> bool" where
  "observes t child = (case tk_observation t of None \<Rightarrow> False | Some g \<Rightarrow> ob_members g child \<noteq> None)"

text \<open>\<open>observation::remove\<close>: before a cancelled child's identity is removed.\<close>

definition forget_child :: "nat \<Rightarrow> nat option \<Rightarrow> observation \<Rightarrow> observation" where
  "forget_child child order g =
     g\<lparr>ob_members := (ob_members g)(child := None),
       ob_selected_fault := (if ob_selected_fault g = Some child then None else ob_selected_fault g),
       ob_ready := (case order of None \<Rightarrow> ob_ready g | Some n \<Rightarrow> ob_ready g - {Event n child})\<rparr>"

definition observation_remove :: "nat \<Rightarrow> ('w, unit) act" where
  "observation_remove child =
     bindX (taskX child) (\<lambda>t.
     case tk_parent t of
       None \<Rightarrow> retX ()
     | Some parent \<Rightarrow>
         updX parent (\<lambda>p. p\<lparr>tk_observation :=
           map_option (forget_child child (terminal_order (tk_state t))) (tk_observation p)\<rparr>))"

text \<open>\<open>observation::completed\<close>: false for an ordinary await of one child.\<close>

definition observation_completed :: "nat \<Rightarrow> nat \<Rightarrow> ('w, bool) act" where
  "observation_completed parent child =
     bindX (taskX child) (\<lambda>t.
     bindX (someX (terminal_order (tk_state t)) Panic) (\<lambda>order.
     bindX (taskX parent) (\<lambda>p.
     case tk_observation p of
       None \<Rightarrow> retX False
     | Some g \<Rightarrow>
         if ob_members g child = None then retX False
         else
           bindX (guardX (Event order child \<notin> ob_ready g) Panic) (\<lambda>_.
           bindX (updX parent (\<lambda>p. p\<lparr>tk_observation := Some (g\<lparr>ob_ready := insert (Event order child) (ob_ready g)\<rparr>)\<rparr>)) (\<lambda>_.
           bindX (if tk_state p = Observing
             then bindX (updX parent (\<lambda>p. p\<lparr>tk_state := Queued\<rparr>)) (\<lambda>_.
               modC (if is_faulted (tk_state t) then push_front parent else push_back parent))
             else retX ()) (\<lambda>_.
           retX True))))))"

section \<open>Cancellation\<close>

text \<open>\<open>Owner::cancel_operation\<close>.\<close>

definition cancel_operation :: "'w env \<Rightarrow> nat \<Rightarrow> ('w, owned_fault option) act" where
  "cancel_operation env i =
     bindX (taskX i) (\<lambda>t.
     bindX (updX i (\<lambda>t. t\<lparr>tk_operation := None\<rparr>)) (\<lambda>_.
     bindX (case tk_operation t of
         None \<Rightarrow> retX ()
       | Some job \<Rightarrow> wX (\<lambda>w. ((), en_operation_drain env job w))) (\<lambda>_.
     bindX (taskX i) (\<lambda>t.
     bindX (updX i (\<lambda>t. t\<lparr>tk_computation := None\<rparr>)) (\<lambda>_.
     case tk_computation t of
       None \<Rightarrow> retX None
     | Some job \<Rightarrow> wX (en_computation_drain env job))))))"

text \<open>\<open>Owner::cancel_wait\<close>.\<close>

definition cancel_wait :: "'w env \<Rightarrow> nat \<Rightarrow> ('w, unit) act" where
  "cancel_wait env i =
     bindX (taskX i) (\<lambda>t.
     case tk_external t of
       None \<Rightarrow> retX ()
     | Some ext \<Rightarrow>
         bindX (updX i (\<lambda>t. t\<lparr>tk_external := None\<rparr>)) (\<lambda>_.
         if ex_ready ext \<noteq> None then retX ()
         else
           bindX (reactorX (cancel (en_poller env) (ex_registration ext))) (\<lambda>r.
           bindX (guardX (\<not> isl r) (Fatal ''failed to cancel task wait'')) (\<lambda>_.
           pending_less))))"

text \<open>\<open>Owner::drain_cleanups\<close>: the callbacks run in reverse order; the first fault is kept.\<close>

definition run_cleanup :: "'w env \<Rightarrow> task \<Rightarrow> nat \<Rightarrow> owned_fault option \<Rightarrow> ('w, owned_fault option) act" where
  "run_cleanup env t callback first =
     bindX (rootsX (fr_get (tk_frame t))) (\<lambda>pointer.
     bindX (someX pointer Panic) (\<lambda>pointer.
     bindX (getC sc_current) (\<lambda>previous.
     bindX (modC (\<lambda>core. core\<lparr>sc_current := None\<rparr>)) (\<lambda>_.
     bindX (wX (\<lambda>w. case en_cleanup env callback pointer w of (failure, move, w) \<Rightarrow> ((failure, move), w))) (\<lambda>(failure, move).
     bindX (rootsX (modifyX (fr_trace move))) (\<lambda>_.
     bindX (modC (\<lambda>core. core\<lparr>sc_current := previous\<rparr>)) (\<lambda>_.
     retX (case failure of
         None \<Rightarrow> first
       | Some f \<Rightarrow> if first = None then Some (append_creation (tk_creation t) f) else first))))))))"

primrec drain_loop :: "'w env \<Rightarrow> nat \<Rightarrow> nat \<Rightarrow> owned_fault option \<Rightarrow> ('w, owned_fault option) act" where
  "drain_loop env 0 i first = retX first"
| "drain_loop env (Suc n) i first =
     bindX (taskX i) (\<lambda>t.
     if tk_cleanups t = [] then retX first
     else
       bindX (updX i (\<lambda>t. t\<lparr>tk_cleanups := butlast (tk_cleanups t)\<rparr>)) (\<lambda>_.
       bindX (run_cleanup env t (snd (last (tk_cleanups t))) first) (\<lambda>first.
       drain_loop env n i first)))"

definition drain_cleanups :: "'w env \<Rightarrow> nat \<Rightarrow> owned_fault option \<Rightarrow> ('w, owned_fault option) act" where
  "drain_cleanups env i first =
     bindX (taskX i) (\<lambda>t. drain_loop env (length (tk_cleanups t)) i first)"

text \<open>
  \<open>Owner::cancel_tree\<close>: the descendants before their parents, over an explicit stack whose top is
  the head of the list here.  The loop is bounded by a number of rounds; \<open>Spinning\<close> is the outcome
  of a loop that would go on, which \<open>TaskTree\<close> shows never to happen.
\<close>

definition children_of :: "task \<Rightarrow> nat list" where
  "children_of t = sorted_list_of_set (tk_children t)"

definition retire :: "'w env \<Rightarrow> nat \<Rightarrow> owned_fault option \<Rightarrow> ('w, owned_fault option) act" where
  "retire env i first =
     bindX (cancel_wait env i) (\<lambda>_.
     bindX (cancel_operation env i) (\<lambda>failure.
     bindX (drain_cleanups env i (if first = None then failure else first)) (\<lambda>first.
     bindX (observation_remove i) (\<lambda>_.
     bindX (taskX i) (\<lambda>t.
     bindX (modC (\<lambda>core. core\<lparr>sc_tasks := (sc_tasks core)(i := None)\<rparr>)) (\<lambda>_.
     bindX (case tk_parent t of
         None \<Rightarrow> retX ()
       | Some parent \<Rightarrow> updX parent (\<lambda>p. p\<lparr>tk_children := tk_children p - {i}\<rparr>)) (\<lambda>_.
     bindX (rootsX (fr_remove False (tk_frame t))) (\<lambda>removed.
     bindX (guardX removed Panic) (\<lambda>_.
     retX first)))))))))"

primrec cancel_loop :: "'w env \<Rightarrow> nat \<Rightarrow> (nat \<times> bool) list \<Rightarrow> owned_fault option \<Rightarrow> ('w, owned_fault option) act" where
  "cancel_loop env 0 stack first = (if stack = [] then retX first else stopX Spinning)"
| "cancel_loop env (Suc n) stack first =
     (case stack of
        [] \<Rightarrow> retX first
      | (i, False) # stack \<Rightarrow>
          bindX (taskX i) (\<lambda>t.
          cancel_loop env n (map (\<lambda>c. (c, False)) (rev (children_of t)) @ (i, True) # stack) first)
      | (i, True) # stack \<Rightarrow>
          bindX (retire env i first) (\<lambda>first. cancel_loop env n stack first))"

definition cancel_tree :: "'w env \<Rightarrow> nat \<Rightarrow> owned_fault option \<Rightarrow> ('w, owned_fault option) act" where
  "cancel_tree env i first =
     bindX (getC sc_next) (\<lambda>n. cancel_loop env (2 * Suc n) [(i, False)] first)"

text \<open>\<open>Owner::cancel_descendants\<close>: the first child, until there is none.\<close>

primrec descendants_loop :: "'w env \<Rightarrow> nat \<Rightarrow> nat \<Rightarrow> owned_fault option \<Rightarrow> ('w, owned_fault option) act" where
  "descendants_loop env 0 i first =
     bindX (taskX i) (\<lambda>t. if tk_children t = {} then retX first else stopX Spinning)"
| "descendants_loop env (Suc n) i first =
     bindX (taskX i) (\<lambda>t.
     if tk_children t = {} then retX first
     else bindX (cancel_tree env (Min (tk_children t)) first) (\<lambda>first. descendants_loop env n i first))"

definition cancel_descendants :: "'w env \<Rightarrow> nat \<Rightarrow> owned_fault option \<Rightarrow> ('w, owned_fault option) act" where
  "cancel_descendants env i first =
     bindX (taskX i) (\<lambda>t. descendants_loop env (card (tk_children t)) i first)"

section \<open>The end of an activation\<close>

text \<open>\<open>Owner::validate_return\<close>: what a resume may return in the state it left.\<close>

definition validate_return :: "nat \<Rightarrow> int \<Rightarrow> ('w, unit) act" where
  "validate_return i status =
     bindX (taskX i) (\<lambda>t.
     if status = 0 then
       guardX (tk_state t = Running \<and> card (tk_children t) = tk_returned t \<and> tk_external t = None
           \<and> tk_operation t = None \<and> list_all (\<lambda>(site, _). site = - 1) (tk_cleanups t))
         (Fault ''task completed with outstanding children or wait'')
     else
       guardX (status = 1 \<and> tk_returned t = 0 \<and>
           (case tk_state t of
              Waiting _ \<Rightarrow> tk_external t = None
            | Observing \<Rightarrow> tk_external t = None
            | ExternalWaiting \<Rightarrow> (case tk_external t of None \<Rightarrow> False | Some ext \<Rightarrow> ex_ready ext = None)
            | _ \<Rightarrow> False))
         (Fault ''invalid task resume state''))"

text \<open>\<open>before_resume_fault\<close>: the activation's descendants, wait and operations go first.\<close>

definition before_resume_fault :: "'w env \<Rightarrow> ('w, unit) act" where
  "before_resume_fault env =
     bindX (getC sc_current) (\<lambda>current.
     bindX (someX current Panic) (\<lambda>i.
     bindX (cancel_descendants env i None) (\<lambda>_.
     bindX (cancel_wait env i) (\<lambda>_.
     bindX (cancel_operation env i) (\<lambda>_.
     retX ())))))"

text \<open>The waiter of a task that became terminal is queued; a fault goes first.\<close>

definition wake_waiter :: "nat \<Rightarrow> ('w, unit) act" where
  "wake_waiter i =
     bindX (taskX i) (\<lambda>t.
     case tk_waiter t of
       None \<Rightarrow> retX ()
     | Some parent \<Rightarrow>
         bindX (observation_completed parent i) (\<lambda>observed.
         if observed then retX ()
         else
           bindX (taskX parent) (\<lambda>p.
           bindX (guardX (tk_state p = Waiting i) (Fatal ''invalid task waiter state'')) (\<lambda>_.
           bindX (updX parent (\<lambda>p. p\<lparr>tk_state := Queued\<rparr>)) (\<lambda>_.
           modC (if is_faulted (tk_state t) then push_front parent else push_back parent))))))"

text \<open>\<open>Owner::finish_resume\<close>.\<close>

definition finish_resume :: "'w env \<Rightarrow> nat \<Rightarrow> owned_fault + int \<Rightarrow> ('w, unit) act" where
  "finish_resume env i outcome =
     bindX (modC (\<lambda>core. core\<lparr>sc_current := None\<rparr>)) (\<lambda>_.
     bindX (case outcome of
         Inl failure \<Rightarrow>
           bindX (drain_cleanups env i (Some failure)) (\<lambda>first.
           bindX (someX first Panic) (\<lambda>first. retX (Inl first)))
       | Inr status \<Rightarrow> retX (Inr status)) (\<lambda>outcome.
     case outcome of
       Inr status \<Rightarrow>
         if status = 0 then
           bindX next_stamp (\<lambda>order.
           bindX (updX i (\<lambda>t. t\<lparr>tk_state := Completed order\<rparr>)) (\<lambda>_.
           wake_waiter i))
         else guardX (status = 1) (Fatal ''unchecked task resume state'')
     | Inl failure \<Rightarrow>
         bindX next_stamp (\<lambda>order.
         bindX (updX i (\<lambda>t. t\<lparr>tk_state := Faulted (append_creation (tk_creation t) failure) order\<rparr>)) (\<lambda>_.
         wake_waiter i))))"

section \<open>The driver\<close>

datatype driven =
    Finished "owned_fault + unit"
  | Resume nat
  | Blocked

text \<open>The task that is next in the ready queue; entries of tasks that are gone are skipped.\<close>

fun next_ready :: "(nat \<Rightarrow> task option) \<Rightarrow> nat list \<Rightarrow> nat option \<times> nat list" where
  "next_ready tasks [] = (None, [])"
| "next_ready tasks (i # ready) = (if tasks i \<noteq> None then (Some i, ready) else next_ready tasks ready)"

text \<open>The root is terminal: nothing may be left of its tree.\<close>

definition drive_end :: "nat \<Rightarrow> task \<Rightarrow> owned_fault + unit \<Rightarrow> ('w, driven) act" where
  "drive_end root t outcome =
     bindX (modC (\<lambda>core. core\<lparr>sc_tasks := (sc_tasks core)(root := None)\<rparr>)) (\<lambda>_.
     bindX (getC id) (\<lambda>core.
     bindX (guardX (tk_children t = {} \<and> dom (sc_tasks core) = {} \<and> sc_pending core = 0) Panic) (\<lambda>_.
     bindX (rootsX (fr_remove False (tk_frame t))) (\<lambda>removed.
     bindX (guardX removed Panic) (\<lambda>_.
     bindX (modC (\<lambda>core. core\<lparr>sc_root := None, sc_ready := []\<rparr>)) (\<lambda>_.
     retX (Finished outcome)))))))"

text \<open>One choice of \<open>Owner::drive\<close>: the end of the root, a task to resume, or nothing runnable.\<close>

definition drive_next :: "nat \<Rightarrow> ('w, driven) act" where
  "drive_next root =
     bindX (taskX root) (\<lambda>t.
     case tk_state t of
       Completed _ \<Rightarrow> drive_end root t (Inr ())
     | Faulted failure _ \<Rightarrow> drive_end root t (Inl failure)
     | _ \<Rightarrow>
         bindX (getC (\<lambda>core. next_ready (sc_tasks core) (sc_ready core))) (\<lambda>(found, ready).
         bindX (modC (\<lambda>core. core\<lparr>sc_ready := ready\<rparr>)) (\<lambda>_.
         case found of
           Some i \<Rightarrow>
             bindX (taskX i) (\<lambda>t.
             bindX (guardX (tk_state t = Queued) (Fatal ''invalid ready task state'')) (\<lambda>_.
             bindX (updX i (\<lambda>t. t\<lparr>tk_state := Running\<rparr>)) (\<lambda>_.
             bindX (modC (\<lambda>core. core\<lparr>sc_current := Some i\<rparr>)) (\<lambda>_.
             retX (Resume i)))))
         | None \<Rightarrow>
             bindX (getC sc_pending) (\<lambda>pending.
             bindX (guardX (pending \<noteq> 0) (Fatal ''task wait has no runnable dependency'')) (\<lambda>_.
             retX Blocked)))))"

end
