(* ===== verification/TaskOps.thy ===== *)
theory TaskOps
  imports Tasks
begin

text \<open>
  The operations that generated code calls during an activation
  (\<open>compiler/runtime/src/tasks.rs\<close>, \<open>tasks_observation.rs\<close>, \<open>tasks_outcomes.rs\<close>,
  \<open>tasks_parallel.rs\<close>).  Each is the body that \<open>edit\<close> runs on the owner: an \<open>Err\<close> is the \<open>Fault\<close>
  that \<open>edit\<close> raises, and keeps the changes made before it.
\<close>

section \<open>The activation\<close>

text \<open>\<open>parent\<close>: the current task, when \<open>child\<close> is a live child of it.\<close>

definition parentX :: "nat \<Rightarrow> ('w, nat) act" where
  "parentX child =
     bindX (getC sc_current) (\<lambda>current.
     bindX (someX current (Fault ''task operation outside a resume'')) (\<lambda>parent.
     bindX (getC sc_tasks) (\<lambda>tasks.
     bindX (someX (tasks child) (Fault ''task already consumed'')) (\<lambda>t.
     bindX (guardX (tk_parent t = Some parent) (Fault ''task belongs to another parent'')) (\<lambda>_.
     retX parent)))))"

definition currentX :: "string \<Rightarrow> ('w, nat) act" where
  "currentX message = bindX (getC sc_current) (\<lambda>current. someX current (Fault message))"

section \<open>Cleanup stacks\<close>

text \<open>\<open>loom_rt_task_cleanup_push\<close>.\<close>

definition task_cleanup_push :: "int \<Rightarrow> nat \<Rightarrow> ('w, unit) act" where
  "task_cleanup_push site callback =
     bindX (currentX ''task cleanup outside a resume'') (\<lambda>i.
     bindX (taskX i) (\<lambda>t.
     bindX (guardX (0 \<le> site \<and> tk_state t = Running) (Fault ''invalid task cleanup registration'')) (\<lambda>_.
     updX i (\<lambda>t. t\<lparr>tk_cleanups := tk_cleanups t @ [(site, callback)]\<rparr>))))"

text \<open>\<open>loom_rt_task_result_cleanup_push\<close>: site -1 survives completion.\<close>

definition task_result_cleanup_push :: "nat \<Rightarrow> ('w, unit) act" where
  "task_result_cleanup_push callback =
     bindX (currentX ''task result cleanup outside a resume'') (\<lambda>i.
     bindX (taskX i) (\<lambda>t.
     bindX (guardX (tk_state t = Running) (Fault ''invalid task result cleanup registration'')) (\<lambda>_.
     updX i (\<lambda>t. t\<lparr>tk_cleanups := tk_cleanups t @ [(- 1, callback)]\<rparr>))))"

text \<open>\<open>rposition\<close> and \<open>Vec::remove\<close>: the last registration of the site goes.\<close>

fun remove_first_site :: "int \<Rightarrow> (int \<times> nat) list \<Rightarrow> (int \<times> nat) list option" where
  "remove_first_site site [] = None"
| "remove_first_site site (c # cs) =
     (if fst c = site then Some cs else map_option (Cons c) (remove_first_site site cs))"

definition remove_last_site :: "int \<Rightarrow> (int \<times> nat) list \<Rightarrow> (int \<times> nat) list option" where
  "remove_last_site site cs = map_option rev (remove_first_site site (rev cs))"

text \<open>\<open>loom_rt_task_cleanup_pop\<close>.\<close>

definition task_cleanup_pop :: "int \<Rightarrow> ('w, unit) act" where
  "task_cleanup_pop site =
     bindX (currentX ''task cleanup outside a resume'') (\<lambda>i.
     bindX (taskX i) (\<lambda>t.
     bindX (guardX (0 \<le> site \<and> tk_state t = Running) (Fault ''invalid task cleanup registration order'')) (\<lambda>_.
     bindX (someX (remove_last_site site (tk_cleanups t)) (Fault ''invalid task cleanup registration order'')) (\<lambda>cs.
     updX i (\<lambda>t. t\<lparr>tk_cleanups := cs\<rparr>)))))"

section \<open>The tree of tasks\<close>

text \<open>\<open>reparent\<close>: the child's whole subtree moves with its identity.\<close>

definition reparent :: "nat \<Rightarrow> nat \<Rightarrow> nat \<Rightarrow> ('w, unit) act" where
  "reparent child previous next =
     bindX (taskX previous) (\<lambda>p.
     bindX (guardX (child \<in> tk_children p) Panic) (\<lambda>_.
     bindX (updX previous (\<lambda>p. p\<lparr>tk_children := tk_children p - {child}\<rparr>)) (\<lambda>_.
     bindX (taskX next) (\<lambda>n.
     bindX (guardX (child \<notin> tk_children n) Panic) (\<lambda>_.
     bindX (updX next (\<lambda>n. n\<lparr>tk_children := insert child (tk_children n)\<rparr>)) (\<lambda>_.
     updX child (\<lambda>t. t\<lparr>tk_parent := Some next, tk_returned_to_parent := False\<rparr>)))))))"

text \<open>\<open>loom_rt_task_adopt\<close>.\<close>

definition task_adopt :: "nat \<Rightarrow> nat \<Rightarrow> ('w, unit) act" where
  "task_adopt callee child =
     bindX (parentX callee) (\<lambda>current.
     bindX (parentX child) (\<lambda>_.
     bindX (taskX current) (\<lambda>c.
     bindX (guardX (tk_state c = Running \<and> tk_external c = None)
       (Fault ''task transfer requires a running caller'')) (\<lambda>_.
     bindX (guardX (callee \<noteq> child) (Fault ''task cannot adopt itself'')) (\<lambda>_.
     bindX (taskX callee) (\<lambda>e.
     bindX (taskX child) (\<lambda>t.
     bindX (guardX (tk_state e = Queued \<and> tk_waiter e = None \<and> tk_waiter t = None \<and> \<not> tk_returned_to_parent t)
       (Fault ''task adoption requires a queued callee and unawaited child'')) (\<lambda>_.
     reparent child current callee))))))))"

text \<open>\<open>loom_rt_task_return\<close>.\<close>

definition task_return :: "nat \<Rightarrow> ('w, nat) act" where
  "task_return child =
     bindX (parentX child) (\<lambda>current.
     bindX (taskX current) (\<lambda>c.
     bindX (guardX (tk_parent c \<noteq> None) (Fault ''async entry cannot return a Task'')) (\<lambda>_.
     bindX (guardX (tk_state c = Running \<and> tk_external c = None)
       (Fault ''task return requires a running producer'')) (\<lambda>_.
     bindX (taskX child) (\<lambda>t.
     bindX (guardX (\<not> tk_returned_to_parent t \<and> tk_waiter t = None)
       (Fault ''task return requires a distinct unawaited child'')) (\<lambda>_.
     bindX (updX child (\<lambda>t. t\<lparr>tk_returned_to_parent := True\<rparr>)) (\<lambda>_.
     bindX (updX current (\<lambda>c. c\<lparr>tk_returned := tk_returned c + 1\<rparr>)) (\<lambda>_.
     retX child))))))))"

definition new_task :: "frame_id \<Rightarrow> nat \<Rightarrow> nat option \<Rightarrow> string \<Rightarrow> task" where
  "new_task frame resume parent creation =
     \<lparr>tk_frame = frame, tk_resume = resume, tk_parent = parent, tk_children = {}, tk_returned = 0,
      tk_returned_to_parent = False, tk_result_extracted = False, tk_cleanups = [], tk_waiter = None,
      tk_observation = None, tk_state = Queued, tk_external = None, tk_operation = None,
      tk_computation = None, tk_creation = creation\<rparr>"

text \<open>\<open>loom_rt_task_create\<close>: without an activation, the constructor creates the one root.\<close>

definition task_create :: "nat \<Rightarrow> nat \<Rightarrow> string \<Rightarrow> ('w, nat) act" where
  "task_create frame resume creation =
     bindX (getC id) (\<lambda>core.
     bindX (case sc_current core of
         Some parent \<Rightarrow>
           bindX (taskX parent) (\<lambda>p. guardX (tk_state p = Running) (Fault ''task created after a pending await''))
       | None \<Rightarrow> guardX (sc_root core = None) (Fault ''async entry constructor must create one root task'')) (\<lambda>_.
     bindX next_stamp (\<lambda>i.
     bindX (rootsX (fr_insert False frame)) (\<lambda>frame.
     bindX (modC (put_task i (new_task frame resume (sc_current core) creation))) (\<lambda>_.
     bindX (case sc_current core of
         Some parent \<Rightarrow> updX parent (\<lambda>p. p\<lparr>tk_children := insert i (tk_children p)\<rparr>)
       | None \<Rightarrow> modC (\<lambda>core. core\<lparr>sc_root := Some i\<rparr>)) (\<lambda>_.
     bindX (modC (push_back i)) (\<lambda>_.
     retX i)))))))"

section \<open>Awaiting\<close>

text \<open>\<open>loom_rt_task_await\<close>: whether the child is terminal already.\<close>

definition task_await :: "nat \<Rightarrow> ('w, bool) act" where
  "task_await child =
     bindX (parentX child) (\<lambda>parent.
     bindX (taskX parent) (\<lambda>p.
     bindX (guardX (\<not> observes p child) (Fault ''select an observed task before awaiting it'')) (\<lambda>_.
     bindX (guardX (tk_external p = None) (Fault ''task already has an external wait'')) (\<lambda>_.
     bindX (guardX (tk_state p = Running \<or> tk_state p = Waiting child)
       (Fault ''task already awaits another child'')) (\<lambda>_.
     bindX (taskX child) (\<lambda>t.
     bindX (guardX (\<not> tk_returned_to_parent t) (Fault ''cannot await a returned task before extraction'')) (\<lambda>_.
     bindX (guardX (tk_waiter t = None \<or> tk_waiter t = Some parent) (Fault ''task already has a waiter'')) (\<lambda>_.
     bindX (updX child (\<lambda>t. t\<lparr>tk_waiter := Some parent\<rparr>)) (\<lambda>_.
     bindX (if terminal (tk_state t) then retX () else updX parent (\<lambda>p. p\<lparr>tk_state := Waiting child\<rparr>)) (\<lambda>_.
     retX (terminal (tk_state t))))))))))))"

definition is_completed :: "task_state \<Rightarrow> bool" where
  "is_completed s = (case s of Completed _ \<Rightarrow> True | _ \<Rightarrow> False)"

text \<open>\<open>loom_rt_task_peek_result\<close>.\<close>

definition task_peek_result :: "nat \<Rightarrow> ('w, nat) act" where
  "task_peek_result child =
     bindX (parentX child) (\<lambda>parent.
     bindX (taskX child) (\<lambda>t.
     bindX (guardX (tk_waiter t = Some parent) (Fault ''task result requires await'')) (\<lambda>_.
     bindX (guardX (\<not> tk_result_extracted t) (Fault ''task result already extracted'')) (\<lambda>_.
     bindX (guardX (is_completed (tk_state t)) (Fault ''task result is not completed'')) (\<lambda>_.
     bindX (rootsX (fr_get (tk_frame t))) (\<lambda>pointer.
     someX pointer Panic))))))"

text \<open>The extraction of returned tasks: every child of the result moves to its consumer.\<close>

primrec extract_loop :: "nat \<Rightarrow> nat \<Rightarrow> nat \<Rightarrow> ('w, unit) act" where
  "extract_loop 0 child parent =
     bindX (taskX child) (\<lambda>t. if tk_children t = {} then retX () else stopX Spinning)"
| "extract_loop (Suc n) child parent =
     bindX (taskX child) (\<lambda>t.
     if tk_children t = {} then retX ()
     else
       bindX (taskX (Min (tk_children t))) (\<lambda>r.
       bindX (guardX (tk_parent r = Some child \<and> tk_waiter r = None \<and> tk_returned_to_parent r)
         (Fault ''task result is not an unawaited child'')) (\<lambda>_.
       bindX (reparent (Min (tk_children t)) child parent) (\<lambda>_.
       extract_loop n child parent))))"

text \<open>\<open>loom_rt_task_result\<close>: the result's frame, or the failure to raise again.\<close>

definition task_result :: "nat \<Rightarrow> ('w, owned_fault + nat) act" where
  "task_result child =
     bindX (parentX child) (\<lambda>parent.
     bindX (taskX child) (\<lambda>t.
     bindX (guardX (tk_waiter t = Some parent) (Fault ''task result requires await'')) (\<lambda>_.
     case tk_state t of
       Completed _ \<Rightarrow>
         bindX (guardX (\<not> tk_result_extracted t) (Fault ''task result already extracted'')) (\<lambda>_.
         bindX (if tk_returned t = 0 then retX ()
           else
             bindX (guardX (card (tk_children t) = tk_returned t) (Fault ''task result already extracted'')) (\<lambda>_.
             extract_loop (card (tk_children t)) child parent)) (\<lambda>_.
         bindX (updX child (\<lambda>t. t\<lparr>tk_result_extracted := True, tk_cleanups := []\<rparr>)) (\<lambda>_.
         bindX (rootsX (fr_get (tk_frame t))) (\<lambda>pointer.
         bindX (someX pointer Panic) (\<lambda>pointer. retX (Inr pointer))))))
     | Faulted failure _ \<Rightarrow> retX (Inl failure)
     | _ \<Rightarrow> stopX (Fault ''task result is not ready''))))"

text \<open>\<open>loom_rt_task_release\<close>.\<close>

definition task_release :: "nat \<Rightarrow> ('w, unit) act" where
  "task_release child =
     bindX (parentX child) (\<lambda>parent.
     bindX (taskX child) (\<lambda>t.
     bindX (guardX (tk_waiter t = Some parent \<and> terminal (tk_state t))
       (Fault ''task release requires a terminal awaited result'')) (\<lambda>_.
     bindX (guardX (tk_children t = {}) (Fault ''task release requires extracting its Task result'')) (\<lambda>_.
     bindX (guardX (tk_cleanups t = []) (Fault ''task release requires extracting its resource result'')) (\<lambda>_.
     bindX (modC (\<lambda>core. core\<lparr>sc_tasks := (sc_tasks core)(child := None)\<rparr>)) (\<lambda>_.
     bindX (updX parent (\<lambda>p. p\<lparr>tk_children := tk_children p - {child}\<rparr>)) (\<lambda>_.
     bindX (rootsX (fr_remove False (tk_frame t))) (\<lambda>removed.
     guardX removed Panic))))))))"

section \<open>External waits\<close>

text \<open>\<open>wait_fault\<close>.\<close>

definition wait_fault :: "'w env \<Rightarrow> io_error \<Rightarrow> stop" where
  "wait_fault env error =
     (if fst error = OutOfMemory then Fatal ''out of memory''
      else Fault (''task wait failed: '' @ en_error_text env error))"

text \<open>\<open>wait_source\<close>: registers, or picks up the notification of the same wait.\<close>

definition wait_source :: "'w env \<Rightarrow> wait_source \<Rightarrow> nat option \<Rightarrow> ('w, notification option) act" where
  "wait_source env source socket =
     bindX (currentX ''task wait outside a resume'') (\<lambda>i.
     bindX (taskX i) (\<lambda>t.
     bindX (guardX (tk_state t = Running \<or> tk_state t = ExternalWaiting) (Fault ''task already awaits a child'')) (\<lambda>_.
     case tk_external t of
       Some ext \<Rightarrow>
         bindX (guardX (ex_source ext = source) (Fault ''task already has another external wait'')) (\<lambda>_.
         bindX (if ex_ready ext = None then retX ()
           else updX i (\<lambda>t. t\<lparr>tk_external := None, tk_state := Running\<rparr>)) (\<lambda>_.
         retX (ex_ready ext)))
     | None \<Rightarrow>
         bindX (need_reactor env) (\<lambda>created.
         bindX (case created of
             Inl e \<Rightarrow> retX (Inl e)
           | Inr _ \<Rightarrow> reactorX (register (en_poller env) source i)) (\<lambda>registration.
         case registration of
           Inl e \<Rightarrow> stopX (wait_fault env e)
         | Inr r \<Rightarrow>
             bindX (updX i (\<lambda>t. t\<lparr>tk_external := Some \<lparr>ex_source = source, ex_registration = r,
                 ex_ready = None, ex_socket = socket\<rparr>, tk_state := ExternalWaiting\<rparr>)) (\<lambda>_.
             bindX (modC (\<lambda>core. core\<lparr>sc_pending := sc_pending core + 1\<rparr>)) (\<lambda>_.
             retX None)))))))"

text \<open>\<open>loom_rt_task_wait_timer\<close>.\<close>

definition task_wait_timer :: "'w env \<Rightarrow> int \<Rightarrow> ('w, bool) act" where
  "task_wait_timer env deadline =
     bindX (guardX (0 \<le> deadline) (Fault ''timer deadline must not be negative'')) (\<lambda>_.
     bindX (wait_source env \<lparr>ws_kind = KIND_TIMER, ws_interests = 0, ws_handle = 0,
         ws_deadline = nat deadline\<rparr> None) (\<lambda>ready.
     retX (ready \<noteq> None)))"

definition completion_source :: "nat \<Rightarrow> wait_source" where
  "completion_source identity =
     \<lparr>ws_kind = KIND_COMPLETION, ws_interests = 0, ws_handle = identity, ws_deadline = 0\<rparr>"

text \<open>\<open>provider_completion\<close>: the registration that the provider will notify.\<close>

definition provider_completion :: "'w env \<Rightarrow> nat \<Rightarrow> bool \<Rightarrow> ('w, registration option) act" where
  "provider_completion env identity ready =
     (if ready then
        bindX (currentX ''provider wait outside a resume'') (\<lambda>i.
        bindX (taskX i) (\<lambda>t.
        bindX (guardX (tk_state t = Running \<or> tk_state t = ExternalWaiting) (Fault ''task already awaits a child'')) (\<lambda>_.
        bindX (case tk_external t of
            None \<Rightarrow> retX ()
          | Some ext \<Rightarrow>
              bindX (guardX (ws_kind (ex_source ext) = KIND_COMPLETION \<and> ws_handle (ex_source ext) = identity)
                (Fault ''task already has another external wait'')) (\<lambda>_.
              cancel_wait env i)) (\<lambda>_.
        bindX (updX i (\<lambda>t. t\<lparr>tk_state := Running\<rparr>)) (\<lambda>_.
        retX None)))))
      else
        bindX (wait_source env (completion_source identity) None) (\<lambda>notified.
        if notified \<noteq> None then retX None
        else
          bindX (currentX ''provider wait outside a resume'') (\<lambda>i.
          bindX (getX ow_reactor) (\<lambda>reactor.
          bindX (guardX (reactor \<noteq> None) Panic) (\<lambda>_.
          bindX (taskX i) (\<lambda>t.
          bindX (someX (tk_external t) Panic) (\<lambda>ext.
          retX (Some (ex_registration ext)))))))))"

section \<open>Observation\<close>

text \<open>\<open>loom_rt_task_observe\<close>.\<close>

definition task_observe :: "nat \<Rightarrow> int \<Rightarrow> ('w, nat) act" where
  "task_observe child i =
     bindX (parentX child) (\<lambda>parent.
     bindX (taskX parent) (\<lambda>p.
     bindX (guardX (0 \<le> i \<and> tk_state p = Running)
       (Fault ''task observation requires a running parent and nonnegative index'')) (\<lambda>_.
     bindX (taskX child) (\<lambda>t.
     bindX (guardX (\<not> tk_returned_to_parent t \<and> tk_waiter t = None)
       (Fault ''task observation requires an unawaited child'')) (\<lambda>_.
     bindX (updX child (\<lambda>t. t\<lparr>tk_waiter := Some parent\<rparr>)) (\<lambda>_.
     bindX (taskX parent) (\<lambda>p.
     let g = (case tk_observation p of None \<Rightarrow> new_observation | Some g \<Rightarrow> g) in
     bindX (guardX (ob_members g child = None) Panic) (\<lambda>_.
     let g = g\<lparr>ob_members := (ob_members g)(child \<mapsto> i)\<rparr> in
     case terminal_order (tk_state t) of
       None \<Rightarrow> bindX (updX parent (\<lambda>p. p\<lparr>tk_observation := Some g\<rparr>)) (\<lambda>_. retX child)
     | Some order \<Rightarrow>
         bindX (guardX (Event order child \<notin> ob_ready g) Panic) (\<lambda>_.
         bindX (updX parent (\<lambda>p. p\<lparr>tk_observation :=
           Some (g\<lparr>ob_ready := insert (Event order child) (ob_ready g)\<rparr>)\<rparr>)) (\<lambda>_.
         retX child))))))))))"

text \<open>\<open>loom_rt_task_wait_next\<close>.\<close>

definition task_wait_next :: "('w, bool) act" where
  "task_wait_next =
     bindX (currentX ''task observation outside a resume'') (\<lambda>i.
     bindX (taskX i) (\<lambda>t.
     bindX (guardX ((tk_state t = Running \<or> tk_state t = Observing) \<and> tk_external t = None)
       (Fault ''task already has another wait'')) (\<lambda>_.
     bindX (someX (tk_observation t) (Fault ''no observed tasks'')) (\<lambda>g.
     bindX (guardX (ob_members g \<noteq> Map.empty) (Fault ''no observed tasks'')) (\<lambda>_.
     bindX (updX i (\<lambda>t. t\<lparr>tk_state := (if ob_ready g = {} then Observing else Running)\<rparr>)) (\<lambda>_.
     retX (ob_ready g \<noteq> {})))))))"

text \<open>\<open>group.ready.pop_first()\<close> with its member, for both ways to select.\<close>

definition select_event :: "nat \<Rightarrow> string \<Rightarrow> (int \<Rightarrow> int option) \<Rightarrow> ('w, nat \<times> int) act" where
  "select_event i message selected =
     bindX (taskX i) (\<lambda>t.
     bindX (guardX (tk_state t = Running) (Fault message)) (\<lambda>_.
     bindX (someX (tk_observation t) (Fault ''no observed tasks'')) (\<lambda>g.
     bindX (guardX (ob_ready g \<noteq> {}) (Fault message)) (\<lambda>_.
     let event = Min (ob_ready g); child = ev_child event;
         g' = g\<lparr>ob_ready := ob_ready g - {event}\<rparr> in
     bindX (updX i (\<lambda>t. t\<lparr>tk_observation := Some g'\<rparr>)) (\<lambda>_.
     bindX (someX (ob_members g child) Panic) (\<lambda>n.
     bindX (updX i (\<lambda>t. t\<lparr>tk_observation := Some (g'\<lparr>ob_members := (ob_members g)(child := None),
         ob_selected_fault := None, ob_selected_index := selected n\<rparr>)\<rparr>)) (\<lambda>_.
     retX (child, n))))))))"

text \<open>\<open>loom_rt_task_next_result\<close>.\<close>

definition task_next_result :: "('w, int) act" where
  "task_next_result =
     bindX (currentX ''task observation outside a resume'') (\<lambda>i.
     bindX (select_event i ''task observation result is not ready'' (\<lambda>_. None)) (\<lambda>(child, n).
     bindX (updX child (\<lambda>t. t\<lparr>tk_waiter := None\<rparr>)) (\<lambda>_.
     retX n)))"

text \<open>\<open>loom_rt_task_next_terminal_result\<close>: 0 completed, 1 faulted, 2 cancelled.\<close>

definition task_next_terminal_result :: "('w, int) act" where
  "task_next_terminal_result =
     bindX (currentX ''task observation outside a resume'') (\<lambda>i.
     bindX (select_event i ''task terminal result is not ready'' Some) (\<lambda>(child, n).
     bindX (taskX child) (\<lambda>t.
     bindX (case tk_state t of
         Completed _ \<Rightarrow> retX 0
       | Faulted _ _ \<Rightarrow>
           bindX (taskX i) (\<lambda>p.
           bindX (someX (tk_observation p) Panic) (\<lambda>g.
           bindX (updX i (\<lambda>p. p\<lparr>tk_observation := Some (g\<lparr>ob_selected_fault := Some child\<rparr>)\<rparr>)) (\<lambda>_.
           retX 1)))
       | Cancelled _ \<Rightarrow> retX 2
       | _ \<Rightarrow> stopX Panic) (\<lambda>status.
     bindX (updX child (\<lambda>t. t\<lparr>tk_waiter := None\<rparr>)) (\<lambda>_.
     retX status)))))"

text \<open>\<open>loom_rt_task_next_terminal_index\<close>.\<close>

definition task_next_terminal_index :: "('w, int) act" where
  "task_next_terminal_index =
     bindX (currentX ''task observation outside a resume'') (\<lambda>i.
     bindX (taskX i) (\<lambda>t.
     bindX (guardX (tk_state t = Running) (Fault ''task terminal index is not ready'')) (\<lambda>_.
     case tk_observation t of
       None \<Rightarrow> stopX (Fault ''task terminal index is not ready'')
     | Some g \<Rightarrow>
         bindX (updX i (\<lambda>t. t\<lparr>tk_observation := Some (g\<lparr>ob_selected_index := None\<rparr>)\<rparr>)) (\<lambda>_.
         someX (ob_selected_index g) (Fault ''task terminal index is not ready'')))))"

text \<open>\<open>outcomes::failure_bytes\<close>.\<close>

definition failure_bytes :: "owned_fault \<Rightarrow> string" where
  "failure_bytes failure =
     (case of_test_name failure of None \<Rightarrow> [] | Some name \<Rightarrow> ''FAIL '' @ name @ [CHR 0x0A]) @ of_message failure"

text \<open>\<open>loom_rt_task_next_terminal_failure\<close>, up to the text it allocates.\<close>

definition task_next_terminal_failure :: "('w, string) act" where
  "task_next_terminal_failure =
     bindX (currentX ''task observation outside a resume'') (\<lambda>i.
     bindX (taskX i) (\<lambda>t.
     bindX (guardX (tk_state t = Running) (Fault ''task fault data requires a running observer'')) (\<lambda>_.
     bindX (someX (tk_observation t) (Fault ''no observed tasks'')) (\<lambda>g.
     bindX (updX i (\<lambda>t. t\<lparr>tk_observation := Some (g\<lparr>ob_selected_fault := None\<rparr>)\<rparr>)) (\<lambda>_.
     bindX (someX (ob_selected_fault g) (Fault ''no selected observed fault'')) (\<lambda>child.
     bindX (taskX child) (\<lambda>c.
     case tk_state c of
       Faulted failure _ \<Rightarrow> retX (failure_bytes failure)
     | _ \<Rightarrow> stopX (Fault ''selected observed task is not faulted''))))))))"

section \<open>Outcomes\<close>

text \<open>\<open>outcomes::awaited\<close>.\<close>

definition awaited :: "nat \<Rightarrow> ('w, task) act" where
  "awaited child =
     bindX (parentX child) (\<lambda>current.
     bindX (taskX child) (\<lambda>t.
     bindX (guardX (tk_waiter t = Some current \<and> terminal (tk_state t))
       (Fault ''task outcome requires a terminal awaited child'')) (\<lambda>_.
     retX t)))"

definition task_status :: "nat \<Rightarrow> ('w, int) act" where
  "task_status child =
     bindX (awaited child) (\<lambda>t.
     case tk_state t of
       Completed _ \<Rightarrow> retX 0
     | Faulted _ _ \<Rightarrow> retX 1
     | Cancelled _ \<Rightarrow> retX 2
     | _ \<Rightarrow> stopX Panic)"

definition task_failure :: "nat \<Rightarrow> ('w, string) act" where
  "task_failure child =
     bindX (awaited child) (\<lambda>t.
     case tk_state t of
       Faulted failure _ \<Rightarrow> retX (failure_bytes failure)
     | _ \<Rightarrow> stopX (Fault ''task fault data requires a faulted child''))"

text \<open>\<open>loom_rt_task_drain\<close>: a new cleanup fault is raised unless it is suppressed.\<close>

definition task_drain :: "'w env \<Rightarrow> nat \<Rightarrow> bool \<Rightarrow> ('w, owned_fault option) act" where
  "task_drain env child suppress =
     bindX (parentX child) (\<lambda>current.
     bindX (taskX current) (\<lambda>c.
     bindX (taskX child) (\<lambda>t.
     bindX (guardX (tk_state c = Running \<and> \<not> tk_returned_to_parent t)
       (Fault ''task drain requires a running parent and its unconsumed child'')) (\<lambda>_.
     bindX (cancel_tree env child None) (\<lambda>failure.
     retX (if suppress then None else failure))))))"

section \<open>Computations\<close>

text \<open>\<open>loom_rt_task_wait_worker\<close>: submits once, then waits for the completion of the job.\<close>

definition task_wait_worker :: "'w env \<Rightarrow> nat \<Rightarrow> nat \<Rightarrow> ('w, bool) act" where
  "task_wait_worker env frame callback =
     bindX (currentX ''worker submission outside a resume'') (\<lambda>i.
     bindX (taskX i) (\<lambda>t.
     bindX (getX ow_world) (\<lambda>w.
     if (case tk_computation t of None \<Rightarrow> False | Some job \<Rightarrow> en_computation_complete env job w)
     then
       bindX (cancel_wait env i) (\<lambda>_.
       bindX (updX i (\<lambda>t. t\<lparr>tk_state := Running\<rparr>)) (\<lambda>_.
       retX True))
     else
       bindX (wait_source env (completion_source 0) None) (\<lambda>ready.
       if tk_computation t \<noteq> None then retX (ready \<noteq> None)
       else
         bindX (taskX i) (\<lambda>t.
         bindX (someX (tk_external t) (Fault ''worker needs completion registration'')) (\<lambda>ext.
         bindX (wX (en_submit env frame callback (ex_registration ext))) (\<lambda>submitted.
         case submitted of
           Inl e \<Rightarrow> stopX (wait_fault env e)
         | Inr job \<Rightarrow>
             bindX (updX i (\<lambda>t. t\<lparr>tk_computation := Some job\<rparr>)) (\<lambda>_.
             retX False))))))))"

text \<open>\<open>loom_rt_task_worker_result\<close>: the fault of the job, if it has one.\<close>

definition task_worker_result :: "'w env \<Rightarrow> ('w, owned_fault option) act" where
  "task_worker_result env =
     bindX (currentX ''worker result outside a resume'') (\<lambda>i.
     bindX (taskX i) (\<lambda>t.
     bindX (guardX (tk_state t = Running \<and> tk_external t = None) (Fault ''worker result requires completed wait'')) (\<lambda>_.
     bindX (updX i (\<lambda>t. t\<lparr>tk_computation := None\<rparr>)) (\<lambda>_.
     bindX (someX (tk_computation t) (Fault ''worker result already consumed'')) (\<lambda>job.
     wX (en_computation_take env job))))))"

text \<open>
  \<open>catch_fault_before_drain\<close> with the hook of \<open>resume_task\<close>: the boundary owns the diagnostic, with the
  name of the running test, before the hook retires what the activation still holds.
\<close>

definition catch_fault_before_drain :: "'w env \<Rightarrow> ('w, 'a) act \<Rightarrow> ('w, owned_fault + 'a) act" where
  "catch_fault_before_drain env m = (\<lambda>o'.
     case m o' of
       (Inl e, o2) \<Rightarrow>
         (case e of
            Fault message \<Rightarrow>
              bindX (before_resume_fault env) (\<lambda>_.
              retX (Inl \<lparr>of_message = message, of_test_name = en_test_name env (ow_world o2)\<rparr>)) o2
          | _ \<Rightarrow> (Inl e, o2))
     | (Inr x, o2) \<Rightarrow> (Inr (Inr x), o2))"

text \<open>
  \<open>parallel::complete_before_cancel\<close>: a computation that completed before it saw the request is
  resumed for its outcome.  The resumed wrapper is generated code that collects the result: it takes
  the completed wait and the job's outcome, and returns 0 or raises the job's fault.
\<close>

definition wrapper_outcome :: "'w env \<Rightarrow> nat \<Rightarrow> nat \<Rightarrow> ('w, owned_fault + int) act" where
  "wrapper_outcome env i job =
     bindX (cancel_wait env i) (\<lambda>_.
     bindX (updX i (\<lambda>t. t\<lparr>tk_computation := None\<rparr>)) (\<lambda>_.
     bindX (wX (en_computation_take env job)) (\<lambda>failure.
     case failure of
       Some f \<Rightarrow> bindX (before_resume_fault env) (\<lambda>_. retX (Inl f))
     | None \<Rightarrow> catch_fault_before_drain env (bindX (validate_return i 0) (\<lambda>_. retX 0)))))"

definition complete_before_cancel :: "'w env \<Rightarrow> nat \<Rightarrow> ('w, bool) act" where
  "complete_before_cancel env i =
     bindX (taskX i) (\<lambda>t.
     case tk_computation t of
       None \<Rightarrow> retX False
     | Some job \<Rightarrow>
         bindX (wX (en_computation_first env job)) (\<lambda>first.
         if \<not> first then retX False
         else
           bindX (getC sc_current) (\<lambda>parent.
           bindX (modC (\<lambda>core. core\<lparr>sc_current := Some i, sc_ready := filter (\<lambda>j. j \<noteq> i) (sc_ready core)\<rparr>)) (\<lambda>_.
           bindX (updX i (\<lambda>t. t\<lparr>tk_state := Running, tk_waiter := None\<rparr>)) (\<lambda>_.
           bindX (wrapper_outcome env i job) (\<lambda>outcome.
           bindX (finish_resume env i outcome) (\<lambda>_.
           bindX (modC (\<lambda>core. core\<lparr>sc_current := parent\<rparr>)) (\<lambda>_.
           bindX (updX i (\<lambda>u. u\<lparr>tk_waiter := tk_waiter t\<rparr>)) (\<lambda>_.
           bindX (taskX i) (\<lambda>u.
           bindX (guardX (terminal (tk_state u)) (Fatal ''worker completion wrapper suspended'')) (\<lambda>_.
           retX True)))))))))))"

text \<open>\<open>loom_rt_task_cancel_begin\<close>.\<close>

definition task_cancel_begin :: "'w env \<Rightarrow> nat \<Rightarrow> ('w, unit) act" where
  "task_cancel_begin env child =
     bindX (parentX child) (\<lambda>current.
     bindX (taskX current) (\<lambda>c.
     bindX (taskX child) (\<lambda>t.
     bindX (guardX (tk_state c = Running \<and> tk_external c = None \<and> \<not> tk_returned_to_parent t
         \<and> (tk_waiter t = None \<or> tk_waiter t = Some current))
       (Fault ''task cancellation requires a running parent and its unconsumed child'')) (\<lambda>_.
     bindX (observation_remove child) (\<lambda>_.
     bindX (updX child (\<lambda>t. t\<lparr>tk_waiter := Some current\<rparr>)) (\<lambda>_.
     if terminal (tk_state t) then retX ()
     else
       bindX (complete_before_cancel env child) (\<lambda>completed.
       if completed then retX ()
       else
         bindX (cancel_descendants env child None) (\<lambda>first.
         bindX (cancel_wait env child) (\<lambda>_.
         bindX (cancel_operation env child) (\<lambda>failure.
         bindX (drain_cleanups env child (if first = None then failure else first)) (\<lambda>first.
         bindX next_stamp (\<lambda>order.
         updX child (\<lambda>t. t\<lparr>tk_state :=
           (case first of Some failure \<Rightarrow> Faulted failure order | None \<Rightarrow> Cancelled order)\<rparr>)))))))))))))"

end
