(* ===== verification/TaskTree.thy ===== *)
theory TaskTree
  imports TaskOps
begin

text \<open>
  The tree of tasks (\<open>compiler/runtime/src/tasks.rs\<close>): the invariant of the owner and what
  cancelling a subtree does.  \<open>owner_ok\<close> says that the parent and child links agree and have no
  cycle, that the live frames are the frames of the tasks, one for each, that the pending count is the number of waits
  without a notification, and that the reactor exists and is sound when a task waits on it.
\<close>

section \<open>The tree\<close>

type_synonym tasks = "nat \<Rightarrow> task option"

definition parents :: "tasks \<Rightarrow> (nat \<times> nat) set" where
  "parents T = {(c, p). \<exists>t. T c = Some t \<and> tk_parent t = Some p}"

definition tree_ok :: "tasks \<Rightarrow> bool" where
  "tree_ok T \<longleftrightarrow> finite (dom T) \<and> acyclic (parents T)
     \<and> (\<forall>p t. T p = Some t \<longrightarrow> tk_children t = {c. (c, p) \<in> parents T})
     \<and> (\<forall>c p. (c, p) \<in> parents T \<longrightarrow> p \<in> dom T)"

text \<open>A task and its descendants.\<close>

definition subtree :: "tasks \<Rightarrow> nat \<Rightarrow> nat set" where
  "subtree T i = {j. (j, i) \<in> (parents T)\<^sup>*}"

text \<open>The tasks without a subtree; the parent of its root forgets it.\<close>

definition drop_child :: "nat \<Rightarrow> nat option \<Rightarrow> task \<Rightarrow> task" where
  "drop_child i order p = p\<lparr>tk_observation := map_option (forget_child i order) (tk_observation p),
     tk_children := tk_children p - {i}\<rparr>"

definition cut :: "tasks \<Rightarrow> nat \<Rightarrow> tasks" where
  "cut T i = (\<lambda>j. if j \<in> subtree T i then None
     else case T i of
       None \<Rightarrow> T j
     | Some t \<Rightarrow> if tk_parent t = Some j then map_option (drop_child i (terminal_order (tk_state t))) (T j) else T j)"

lemma parents_iff: "(c, p) \<in> parents T \<longleftrightarrow> (\<exists>t. T c = Some t \<and> tk_parent t = Some p)"
  by (simp add: parents_def)

lemma parents_fun: "(c, p) \<in> parents T \<Longrightarrow> (c, q) \<in> parents T \<Longrightarrow> p = q"
  by (auto simp: parents_iff)

lemma drop_child_simps [simp]:
  "tk_parent (drop_child i order p) = tk_parent p" "tk_frame (drop_child i order p) = tk_frame p"
  "tk_children (drop_child i order p) = tk_children p - {i}" "tk_external (drop_child i order p) = tk_external p"
  "tk_state (drop_child i order p) = tk_state p" "tk_returned (drop_child i order p) = tk_returned p"
  "tk_waiter (drop_child i order p) = tk_waiter p"
  by (simp_all add: drop_child_def)

lemma subtree_refl [simp]: "i \<in> subtree T i"
  by (simp add: subtree_def)

lemma subtree_step: "(j, k) \<in> parents T \<Longrightarrow> k \<in> subtree T i \<Longrightarrow> j \<in> subtree T i"
  by (auto simp: subtree_def intro: converse_rtrancl_into_rtrancl)

lemma subtree_cases:
  "j \<in> subtree T i \<longleftrightarrow> j = i \<or> (\<exists>c. (c, i) \<in> parents T \<and> j \<in> subtree T c)"
  by (auto simp: subtree_def elim: rtranclE intro: rtrancl_into_rtrancl)

lemma subtree_trans: "j \<in> subtree T k \<Longrightarrow> k \<in> subtree T i \<Longrightarrow> j \<in> subtree T i"
  by (auto simp: subtree_def)

lemma subtree_comparable:
  "j \<in> subtree T a \<Longrightarrow> j \<in> subtree T b \<Longrightarrow> a \<in> subtree T b \<or> b \<in> subtree T a"
proof -
  assume a: "j \<in> subtree T a" and b: "j \<in> subtree T b"
  have "(j, a) \<in> (parents T)\<^sup>*" using a by (simp add: subtree_def)
  then show ?thesis
  proof (induction rule: rtrancl_induct)
    case base
    then show ?case using b by simp
  next
    case (step x y)
    from step.IH show ?case
    proof
      assume "x \<in> subtree T b"
      then consider "x = b" | z where "(x, z) \<in> parents T" "z \<in> subtree T b"
        by (auto simp: subtree_def elim: converse_rtranclE)
      then show ?thesis
      proof cases
        case 1
        then show ?thesis using step.hyps(2) by (auto simp: subtree_def)
      next
        case 2
        then show ?thesis using parents_fun [OF step.hyps(2)] by blast
      qed
    next
      assume "b \<in> subtree T x"
      then show ?thesis using step.hyps(2) by (auto simp: subtree_def intro: rtrancl_into_rtrancl)
    qed
  qed
qed

lemma acyclic_not_below: "acyclic (parents T) \<Longrightarrow> (c, p) \<in> parents T \<Longrightarrow> p \<notin> subtree T c"
  unfolding subtree_def acyclic_def by (simp add: rtrancl_into_trancl2 ) (meson rtrancl_into_trancl2)

lemma subtree_siblings:
  assumes "acyclic (parents T)" "(a, p) \<in> parents T" "(b, p) \<in> parents T" "a \<noteq> b"
  shows "subtree T a \<inter> subtree T b = {}"
proof (rule ccontr)
  assume "\<not> ?thesis"
  then obtain j where "j \<in> subtree T a" "j \<in> subtree T b" by blast
  then consider "a \<in> subtree T b" | "b \<in> subtree T a" using subtree_comparable by blast
  then show False
  proof cases
    case 1
    then obtain z where "(a, z) \<in> parents T" "z \<in> subtree T b"
      using assms(4) by (auto simp: subtree_def elim: converse_rtranclE)
    then show False using parents_fun [OF assms(2)] acyclic_not_below [OF assms(1,3)] by blast
  next
    case 2
    then obtain z where "(b, z) \<in> parents T" "z \<in> subtree T a"
      using assms(4) by (auto simp: subtree_def elim: converse_rtranclE)
    then show False using parents_fun [OF assms(3)] acyclic_not_below [OF assms(1,2)] by blast
  qed
qed

lemma subtree_dom: "i \<in> dom T \<Longrightarrow> subtree T i \<subseteq> dom T"
proof
  fix j assume "i \<in> dom T" "j \<in> subtree T i"
  then show "j \<in> dom T"
    by (auto simp: subtree_def parents_def elim: converse_rtranclE)
qed

lemma finite_subtree: "tree_ok T \<Longrightarrow> i \<in> dom T \<Longrightarrow> finite (subtree T i)"
  using subtree_dom by (auto simp: tree_ok_def intro: finite_subset)

lemma tree_okD:
  assumes "tree_ok T"
  shows "finite (dom T)" "acyclic (parents T)" "T p = Some t \<Longrightarrow> tk_children t = {c. (c, p) \<in> parents T}"
    "(c, p) \<in> parents T \<Longrightarrow> p \<in> dom T" "T p = Some t \<Longrightarrow> finite (tk_children t)"
    "(c, p) \<in> parents T \<Longrightarrow> c \<in> dom T"
proof -
  show "T p = Some t \<Longrightarrow> finite (tk_children t)"
    using assms by (intro finite_subset [of "tk_children t" "dom T"]) (auto simp: tree_ok_def parents_def)
qed (use assms in \<open>auto simp: tree_ok_def parents_def\<close>)

text \<open>The children's subtrees partition the rest of a subtree.\<close>

lemma card_subtree:
  assumes ok: "tree_ok T" and t: "T i = Some t"
  shows "card (subtree T i) = Suc (sum (\<lambda>c. card (subtree T c)) (tk_children t))"
proof -
  note tree = tree_okD [OF ok]
  have children: "tk_children t = {c. (c, i) \<in> parents T}" by (rule tree(3) [OF t])
  have "subtree T i = insert i (\<Union>c \<in> tk_children t. subtree T c)"
    using subtree_cases [of _ T i] by (auto simp: children)
  moreover have "i \<notin> (\<Union>c \<in> tk_children t. subtree T c)"
    using acyclic_not_below [OF tree(2)] by (auto simp: children)
  moreover have fin: "finite (subtree T c)" if "c \<in> tk_children t" for c
    using that finite_subtree [OF ok] tree(6) by (auto simp: children)
  moreover have "card (\<Union>c \<in> tk_children t. subtree T c) = sum (\<lambda>c. card (subtree T c)) (tk_children t)"
  proof (rule card_UN_disjoint)
    show "finite (tk_children t)" by (rule tree(5) [OF t])
    show "\<forall>c \<in> tk_children t. finite (subtree T c)" using fin by blast
    show "\<forall>a \<in> tk_children t. \<forall>b \<in> tk_children t. a \<noteq> b \<longrightarrow> subtree T a \<inter> subtree T b = {}"
      using subtree_siblings [OF tree(2)] by (auto simp: children)
  qed
  ultimately show ?thesis
    using tree(5) [OF t] by simp
qed

text \<open>Taking a set that is closed under descendants out of the tree.\<close>

lemma subtree_without:
  assumes sub: "parents T' = {(c, p) \<in> parents T. c \<notin> X}" and closed: "\<And>c p. (c, p) \<in> parents T \<Longrightarrow> p \<in> X \<Longrightarrow> c \<in> X"
    and i: "i \<notin> X"
  shows "subtree T' i = subtree T i - X"
proof -
  have "j \<in> subtree T' i \<Longrightarrow> j \<in> subtree T i \<and> j \<notin> X" for j
    unfolding subtree_def mem_Collect_eq
    by (induction rule: converse_rtrancl_induct) (use i sub in \<open>auto intro: converse_rtrancl_into_rtrancl\<close>)
  moreover have "(j, i) \<in> (parents T)\<^sup>* \<Longrightarrow> j \<notin> X \<Longrightarrow> (j, i) \<in> (parents T')\<^sup>*" for j
  proof (induction rule: converse_rtrancl_induct)
    case (step y z)
    then have "z \<notin> X" using closed by blast
    moreover have "(y, z) \<in> parents T'" using step sub by simp
    ultimately show ?case
      using step.IH by (simp add: converse_rtrancl_into_rtrancl)
  qed simp
  ultimately show ?thesis
    by (auto simp: subtree_def)
qed

section \<open>The invariant of the owner\<close>

abbreviation tasks_of :: "'w owner \<Rightarrow> tasks" where
  "tasks_of o' \<equiv> sc_tasks (ow_core o')"

definition frames_ok :: "'w owner \<Rightarrow> bool" where
  "frames_ok o' \<longleftrightarrow> store_wf (ow_roots o')
     \<and> (\<forall>i t. tasks_of o' i = Some t \<longrightarrow> roots_of (ow_roots o') (tk_frame t) \<noteq> None)
     \<and> (\<forall>i j t u. tasks_of o' i = Some t \<longrightarrow> tasks_of o' j = Some u \<longrightarrow> tk_frame t = tk_frame u \<longrightarrow> i = j)
     \<and> (\<forall>r. roots_of (ow_roots o') r \<noteq> None \<longrightarrow> (\<exists>i t. tasks_of o' i = Some t \<and> tk_frame t = r))"

definition unready :: "tasks \<Rightarrow> nat set" where
  "unready T = {i. \<exists>t ext. T i = Some t \<and> tk_external t = Some ext \<and> ex_ready ext = None}"

definition waits_ok :: "'w owner \<Rightarrow> bool" where
  "waits_ok o' \<longleftrightarrow> sc_pending (ow_core o') = card (unready (tasks_of o'))
     \<and> (ow_reactor o' = None \<longrightarrow> (\<forall>i t. tasks_of o' i = Some t \<longrightarrow> tk_external t = None))
     \<and> (\<forall>r. ow_reactor o' = Some r \<longrightarrow> wait_ok {} r)"

definition ids_ok :: "'w owner \<Rightarrow> bool" where
  "ids_ok o' \<longleftrightarrow> (\<forall>i \<in> dom (tasks_of o'). 1 \<le> i \<and> i \<le> sc_next (ow_core o'))"

definition owner_ok :: "'w owner \<Rightarrow> bool" where
  "owner_ok o' \<longleftrightarrow> tree_ok (tasks_of o') \<and> frames_ok o' \<and> waits_ok o' \<and> ids_ok o'"

lemma no_roots: "roots_of empty_store r = None"
  by (simp add: roots_of_def fr_position_def empty_store_def get_def)

lemma new_owner_ok: "owner_ok (new_owner w)"
  by (simp add: owner_ok_def new_owner_def new_sched_def tree_ok_def frames_ok_def waits_ok_def ids_ok_def
      parents_def unready_def empty_store_wf acyclic_def no_roots)

lemma owner_okD:
  assumes "owner_ok o'"
  shows "tree_ok (tasks_of o')" "frames_ok o'" "waits_ok o'" "ids_ok o'" "store_wf (ow_roots o')"
    "tasks_of o' i = Some t \<Longrightarrow> roots_of (ow_roots o') (tk_frame t) \<noteq> None"
    "tasks_of o' i = Some t \<Longrightarrow> tasks_of o' j = Some u \<Longrightarrow> tk_frame t = tk_frame u \<Longrightarrow> i = j"
    "roots_of (ow_roots o') r \<noteq> None \<Longrightarrow> \<exists>i t. tasks_of o' i = Some t \<and> tk_frame t = r"
  using assms unfolding owner_ok_def frames_ok_def by blast+

text \<open>What may happen to the rest of the owner while one task is worked on.\<close>

definition same_roots :: "store \<Rightarrow> store \<Rightarrow> bool" where
  "same_roots s s' \<longleftrightarrow> (\<forall>r. roots_of s' r = None \<longleftrightarrow> roots_of s r = None)"

definition same_core :: "sched \<Rightarrow> sched \<Rightarrow> bool" where
  "same_core core core' \<longleftrightarrow> sc_ready core' = sc_ready core \<and> sc_current core' = sc_current core
     \<and> sc_root core' = sc_root core \<and> sc_next core' = sc_next core"

text \<open>The resources of a task: what retiring it gives back.\<close>

definition bare :: "task \<Rightarrow> task" where
  "bare t = t\<lparr>tk_cleanups := [], tk_external := None, tk_operation := None, tk_computation := None\<rparr>"

definition drained :: "task \<Rightarrow> task \<Rightarrow> bool" where
  "drained t u \<longleftrightarrow> bare u = bare t"

definition settles :: "nat \<Rightarrow> 'w owner \<Rightarrow> 'w owner \<Rightarrow> bool" where
  "settles i o1 o2 \<longleftrightarrow> owner_ok o2 \<and> same_roots (ow_roots o1) (ow_roots o2) \<and> same_core (ow_core o1) (ow_core o2)
     \<and> (\<forall>j. j \<noteq> i \<longrightarrow> tasks_of o2 j = tasks_of o1 j)
     \<and> (\<forall>t. tasks_of o1 i = Some t \<longrightarrow> (\<exists>u. tasks_of o2 i = Some u \<and> drained t u
          \<and> (tk_external t = None \<longrightarrow> tk_external u = None)))"

lemma drained_refl [simp]: "drained t t"
  by (simp add: drained_def)

lemma drained_trans: "drained t u \<Longrightarrow> drained u v \<Longrightarrow> drained t v"
  by (simp add: drained_def)

lemma drained_update [simp]:
  "drained t (t\<lparr>tk_cleanups := cs\<rparr>)" "drained t (t\<lparr>tk_external := ext\<rparr>)" "drained t (t\<lparr>tk_operation := op\<rparr>)"
  "drained t (t\<lparr>tk_computation := job\<rparr>)"
  by (simp_all add: drained_def bare_def)

lemma drainedD:
  assumes "drained t u"
  shows "tk_parent u = tk_parent t" "tk_children u = tk_children t" "tk_frame u = tk_frame t"
    "tk_state u = tk_state t" "tk_observation u = tk_observation t" "tk_creation u = tk_creation t"
    "tk_waiter u = tk_waiter t" "tk_returned u = tk_returned t"
  using assms by (cases t; cases u; simp add: drained_def bare_def)+

lemma same_roots_trans: "same_roots a b \<Longrightarrow> same_roots b c \<Longrightarrow> same_roots a c"
  by (simp add: same_roots_def)

lemma same_core_trans: "same_core a b \<Longrightarrow> same_core b c \<Longrightarrow> same_core a c"
  by (simp add: same_core_def)

lemma settles_refl: "owner_ok o1 \<Longrightarrow> settles i o1 o1"
  by (simp add: settles_def same_roots_def same_core_def)

lemma settles_task:
  assumes "settles i o1 o2" "tasks_of o1 i = Some t"
  obtains u where "tasks_of o2 i = Some u" "drained t u" "tk_external t = None \<longrightarrow> tk_external u = None"
  using assms by (auto simp: settles_def)

lemma settles_rest:
  assumes "settles i o1 o2"
  shows "owner_ok o2" "same_roots (ow_roots o1) (ow_roots o2)" "same_core (ow_core o1) (ow_core o2)"
    "j \<noteq> i \<Longrightarrow> tasks_of o2 j = tasks_of o1 j"
  using assms by (simp_all add: settles_def)

lemma settles_trans:
  assumes "settles i o1 o2" "settles i o2 o3"
  shows "settles i o1 o3"
  unfolding settles_def
proof (intro conjI allI impI)
  note first = settles_rest [OF assms(1)] and second = settles_rest [OF assms(2)]
  show "owner_ok o3" by (rule second(1))
  show "same_roots (ow_roots o1) (ow_roots o3)" by (rule same_roots_trans [OF first(2) second(2)])
  show "same_core (ow_core o1) (ow_core o3)" by (rule same_core_trans [OF first(3) second(3)])
  show "tasks_of o3 j = tasks_of o1 j" if "j \<noteq> i" for j
    using first(4) [OF that] second(4) [OF that] by simp
  show "\<exists>v. tasks_of o3 i = Some v \<and> drained t v \<and> (tk_external t = None \<longrightarrow> tk_external v = None)"
    if t: "tasks_of o1 i = Some t" for t
  proof -
    obtain u where u: "tasks_of o2 i = Some u" "drained t u" "tk_external t = None \<longrightarrow> tk_external u = None"
      using assms(1) t by (rule settles_task)
    obtain v where v: "tasks_of o3 i = Some v" "drained u v" "tk_external u = None \<longrightarrow> tk_external v = None"
      using assms(2) u(1) by (rule settles_task)
    show ?thesis
      by (intro exI [of _ v] conjI v(1) drained_trans [OF u(2) v(2)]) (use u(3) v(3) in simp)
  qed
qed

lemma settlesD: "settles i o1 o2 \<Longrightarrow> owner_ok o2"
  by (simp add: settles_def)

text \<open>A task whose links and frame stay keeps the tree and the frames.\<close>

definition links :: "task \<Rightarrow> nat option \<times> nat set \<times> frame_id" where
  "links t = (tk_parent t, tk_children t, tk_frame t)"

lemma tree_ok_links:
  assumes "tree_ok T" and "\<And>j. map_option links (T' j) = map_option links (T j)"
  shows "tree_ok T'"
proof -
  have task: "(\<exists>u. T' j = Some u \<and> tk_parent u = tk_parent t \<and> tk_children u = tk_children t)" if "T j = Some t" for j t
    using assms(2) [of j] that by (cases "T' j") (auto simp: links_def)
  have task': "(\<exists>t. T j = Some t \<and> tk_parent u = tk_parent t \<and> tk_children u = tk_children t)" if "T' j = Some u" for j u
    using assms(2) [of j] that by (cases "T j") (auto simp: links_def)
  have "parents T' = parents T"
    unfolding parents_def using task task' by fastforce
  moreover have "dom T' = dom T"
    using task task' by blast
  ultimately show ?thesis
    using assms(1) task' unfolding tree_ok_def by metis
qed

lemma frames_ok_links:
  assumes "frames_ok o1" and "\<And>j. map_option links (tasks_of o2 j) = map_option links (tasks_of o1 j)"
    and "store_wf (ow_roots o2)" and "same_roots (ow_roots o1) (ow_roots o2)"
  shows "frames_ok o2"
proof -
  have task: "\<exists>t. tasks_of o1 j = Some t \<and> tk_frame u = tk_frame t" if "tasks_of o2 j = Some u" for j u
    using assms(2) [of j] that by (cases "tasks_of o1 j") (auto simp: links_def)
  have task': "\<exists>u. tasks_of o2 j = Some u \<and> tk_frame u = tk_frame t" if "tasks_of o1 j = Some t" for j t
    using assms(2) [of j] that by (cases "tasks_of o2 j") (auto simp: links_def)
  show ?thesis
    unfolding frames_ok_def
  proof (intro conjI allI impI)
    show "store_wf (ow_roots o2)" by (rule assms(3))
    show "roots_of (ow_roots o2) (tk_frame u) \<noteq> None" if "tasks_of o2 j = Some u" for j u
      using task [OF that] assms(1,4) unfolding frames_ok_def same_roots_def by metis
    show "j = k" if "tasks_of o2 j = Some u" "tasks_of o2 k = Some v" "tk_frame u = tk_frame v" for j k u v
      using task [OF that(1)] task [OF that(2)] that(3) assms(1) unfolding frames_ok_def by metis
    show "\<exists>j u. tasks_of o2 j = Some u \<and> tk_frame u = r" if "roots_of (ow_roots o2) r \<noteq> None" for r
      using that assms(1,4) task' unfolding frames_ok_def same_roots_def by metis
  qed
qed

lemma ids_ok_links:
  assumes "ids_ok o1" and "\<And>j. map_option links (tasks_of o2 j) = map_option links (tasks_of o1 j)"
    and "sc_next (ow_core o2) = sc_next (ow_core o1)"
  shows "ids_ok o2"
proof -
  have "dom (tasks_of o2) = dom (tasks_of o1)"
    using assms(2) by (metis (no_types, lifting) domIff map_option_is_None subset_antisym subsetI)
  then show ?thesis using assms(1,3) by (simp add: ids_ok_def)
qed

text \<open>Evaluation of the accessors.\<close>

lemma owner_apply [simp, exec_simps]:
  "getC f o' = (Inr (f (ow_core o')), o')"
  "modC g o' = (Inr (), o'\<lparr>ow_core := g (ow_core o')\<rparr>)"
  "wX h o' = (Inr (fst (h (ow_world o'))), o'\<lparr>ow_world := snd (h (ow_world o'))\<rparr>)"
  "rootsX m o' = (fst (m (ow_roots o')), o'\<lparr>ow_roots := snd (m (ow_roots o'))\<rparr>)"
  by (simp_all add: getC_def modC_def map_core_def wX_def rootsX_def zoomX_def split: prod.splits)

lemma task_apply:
  "tasks_of o' i = Some t \<Longrightarrow> taskX i o' = (Inr t, o')"
  "tasks_of o' i = Some t \<Longrightarrow> updX i f o' = (Inr (), o'\<lparr>ow_core := put_task i (f t) (ow_core o')\<rparr>)"
  by (simp_all add: taskX_def updX_def bindX_def)

lemma put_task_simps [simp]:
  "sc_tasks (put_task i t core) = (sc_tasks core)(i \<mapsto> t)" "sc_ready (put_task i t core) = sc_ready core"
  "sc_current (put_task i t core) = sc_current core" "sc_root (put_task i t core) = sc_root core"
  "sc_next (put_task i t core) = sc_next core" "sc_pending (put_task i t core) = sc_pending core"
  by (simp_all add: put_task_def)

section \<open>Giving back the resources of a task\<close>

definition settling :: "nat \<Rightarrow> ('w, 'a) act \<Rightarrow> bool" where
  "settling i m \<longleftrightarrow> (\<forall>o1. owner_ok o1 \<longrightarrow> i \<in> dom (tasks_of o1) \<longrightarrow>
     (case m o1 of
        (Inl e, _) \<Rightarrow> \<exists>message. e = Fatal message
      | (Inr _, o2) \<Rightarrow> settles i o1 o2))"

named_theorems settling_intros \<open>operations on the resources of one task\<close>

lemma settles_dom: "settles i o1 o2 \<Longrightarrow> i \<in> dom (tasks_of o1) \<Longrightarrow> i \<in> dom (tasks_of o2)"
  by (auto simp: settles_def)

lemma settlingI:
  assumes "\<And>o1 t. owner_ok o1 \<Longrightarrow> tasks_of o1 i = Some t \<Longrightarrow>
    (\<exists>message o2. m o1 = (Inl (Fatal message), o2)) \<or> (\<exists>x o2. m o1 = (Inr x, o2) \<and> settles i o1 o2)"
  shows "settling i m"
  unfolding settling_def using assms by fastforce

lemma settlingD:
  assumes "settling i m" "owner_ok o1" "tasks_of o1 i = Some t"
  obtains (fatal) message o2 where "m o1 = (Inl (Fatal message), o2)"
    | (settled) x o2 u where "m o1 = (Inr x, o2)" "settles i o1 o2" "tasks_of o2 i = Some u" "drained t u"
      "tk_external t = None \<longrightarrow> tk_external u = None"
proof (cases "m o1")
  case (Pair r o2)
  then have m: "case r of Inl e \<Rightarrow> \<exists>message. e = Fatal message | Inr _ \<Rightarrow> settles i o1 o2"
    using assms(1,2) assms(3) unfolding settling_def by fastforce
  show ?thesis
  proof (cases r)
    case (Inl e)
    then show ?thesis using m Pair fatal by auto
  next
    case (Inr x)
    then have "settles i o1 o2" using m by simp
    moreover from this obtain u where "tasks_of o2 i = Some u" "drained t u" "tk_external t = None \<longrightarrow> tk_external u = None"
      using assms(3) by (rule settles_task)
    ultimately show ?thesis using Pair Inr settled by simp
  qed
qed

lemma settling_bind [settling_intros]:
  assumes "settling i m" and "\<And>x. settling i (f x)"
  shows "settling i (bindX m f)"
proof (rule settlingI)
  fix o1 :: "'a owner" and t assume ok: "owner_ok o1" and t: "tasks_of o1 i = Some t"
  show "(\<exists>message o2. bindX m f o1 = (Inl (Fatal message), o2))
      \<or> (\<exists>x o2. bindX m f o1 = (Inr x, o2) \<and> settles i o1 o2)"
    using assms(1) ok t
  proof (cases rule: settlingD)
    case (fatal message o2)
    then show ?thesis by (simp add: bindX_def)
  next
    case (settled x o2 u)
    from assms(2) [of x] settlesD [OF settled(2)] settled(3) show ?thesis
    proof (cases rule: settlingD)
      case (fatal message o3)
      then show ?thesis using settled by (simp add: bindX_def)
    next
      case inner: (settled y o3 v)
      then show ?thesis
        using settled settles_trans [OF settled(2) inner(2)] by (simp add: bindX_def)
    qed
  qed
qed

lemma settling_ret [settling_intros]: "settling i (retX x)" "settling i (getC g)" "settling i (getX h)"
  by (auto intro!: settlingI settles_refl)

lemma settling_task [settling_intros]: "settling i (taskX i)"
  by (rule settlingI) (auto simp: task_apply intro: settles_refl)

lemma owner_ok_world [simp]: "owner_ok (o'\<lparr>ow_world := w\<rparr>) = owner_ok o'"
  by (simp add: owner_ok_def frames_ok_def waits_ok_def ids_ok_def)

lemma settling_world [settling_intros]: "settling i (wX h)"
  by (rule settlingI) (simp add: settles_def same_roots_def same_core_def)

lemma settling_if [settling_intros]:
  "settling i m \<Longrightarrow> settling i n \<Longrightarrow> settling i (if b then m else n)"
  "settling i m \<Longrightarrow> (\<And>x. settling i (g x)) \<Longrightarrow> settling i (case v of None \<Rightarrow> m | Some x \<Rightarrow> g x)"
  by (auto split: option.split)

lemma map_links_update: "tasks_of o' i = Some t \<Longrightarrow> links u = links t \<Longrightarrow>
    map_option links (((tasks_of o')(i \<mapsto> u)) j) = map_option links (tasks_of o' j)"
  by simp

lemma drained_links: "drained t u \<Longrightarrow> links u = links t"
  by (simp add: links_def drainedD)

text \<open>An update of the resources, with the pending count that goes with it.\<close>

lemma settles_update:
  assumes ok: "owner_ok o1" and t: "tasks_of o1 i = Some t" and u: "drained t u" "tk_external t = None \<longrightarrow> tk_external u = None"
    and core: "tasks_of o2 = (tasks_of o1)(i \<mapsto> u)" "same_core (ow_core o1) (ow_core o2)"
    and o2: "ow_roots o2 = ow_roots o1"
    and waits: "waits_ok o2"
  shows "settles i o1 o2"
proof -
  have links: "map_option links (tasks_of o2 j) = map_option links (tasks_of o1 j)" for j
    using t drained_links [OF u(1)] by (simp add: o2 core)
  have roots: "same_roots (ow_roots o1) (ow_roots o2)" "store_wf (ow_roots o2)"
    using owner_okD(5) [OF ok] by (simp_all add: o2 same_roots_def)
  have "owner_ok o2"
    unfolding owner_ok_def
    using tree_ok_links [OF owner_okD(1) [OF ok] links] frames_ok_links [OF owner_okD(2) [OF ok] links roots(2,1)]
      ids_ok_links [OF owner_okD(4) [OF ok] links] waits core(2) by (simp add: o2 same_core_def)
  then show ?thesis
    using t u core roots(1) by (simp add: settles_def o2)
qed

lemma unready_update:
  "T i = Some t \<Longrightarrow> tk_external u = tk_external t \<Longrightarrow> unready (T(i \<mapsto> u)) = unready T"
  by (auto simp: unready_def)

lemma settling_update [settling_intros]:
  assumes "\<And>t. drained t (f t)" and "\<And>t. tk_external (f t) = tk_external t"
  shows "settling i (updX i f)"
proof (rule settlingI, rule disjI2)
  fix o1 :: "'a owner" and t assume ok: "owner_ok o1" and t: "tasks_of o1 i = Some t"
  let ?o2 = "o1\<lparr>ow_core := put_task i (f t) (ow_core o1)\<rparr>"
  have "waits_ok ?o2"
    using owner_okD(3) [OF ok] unready_update [of "tasks_of o1" i t "f t"] t assms(2) [of t]
    by (simp add: waits_ok_def)
  then have "settles i o1 ?o2"
    by (intro settles_update [OF ok t assms(1)]) (simp_all add: same_core_def assms(2))
  then show "\<exists>x o2. updX i f o1 = (Inr x, o2) \<and> settles i o1 o2"
    by (simp add: task_apply(2) [OF t])
qed

lemma settling_cancel_operation [settling_intros]: "settling i (cancel_operation env i)"
  unfolding cancel_operation_def by (intro settling_intros) (simp_all add: drained_def bare_def)

lemma settling_cancel_wait [settling_intros]: "settling i (cancel_wait env i)"
proof (rule settlingI)
  fix o1 :: "'a owner" and t assume ok: "owner_ok o1" and t: "tasks_of o1 i = Some t"
  note waits = owner_okD(3) [OF ok, unfolded waits_ok_def]
  let ?goal = "(\<exists>message o2. cancel_wait env i o1 = (Inl (Fatal message), o2))
      \<or> (\<exists>x o2. cancel_wait env i o1 = (Inr x, o2) \<and> settles i o1 o2)"
  show ?goal
  proof (cases "tk_external t")
    case None
    then show ?thesis
      using settles_refl [OF ok] by (simp add: cancel_wait_def bindX_def task_apply(1) [OF t])
  next
    case (Some ext)
    let ?u = "t\<lparr>tk_external := None\<rparr>"
    obtain r where r: "ow_reactor o1 = Some r" "wait_ok {} r"
      using waits t Some by (cases "ow_reactor o1") auto
    have unready: "unready ((tasks_of o1)(i \<mapsto> ?u)) = unready (tasks_of o1) - {i}"
      by (auto simp: unready_def)
    show ?thesis
    proof (cases "ex_ready ext")
      case (Some n)
      have "i \<notin> unready (tasks_of o1)"
        using t \<open>tk_external t = Some ext\<close> Some by (simp add: unready_def)
      then have "waits_ok (o1\<lparr>ow_core := put_task i ?u (ow_core o1)\<rparr>)"
        using waits r by (simp add: waits_ok_def unready)
      then have "settles i o1 (o1\<lparr>ow_core := put_task i ?u (ow_core o1)\<rparr>)"
        by (intro settles_update [OF ok t, of ?u]) (simp_all add: same_core_def)
      then show ?thesis
        using Some \<open>tk_external t = Some ext\<close> by (simp add: cancel_wait_def bindX_def task_apply [OF t])
    next
      case None
      obtain res r' w' where run: "cancel (en_poller env) (ex_registration ext) (r, ow_world o1) = (res, (r', w'))"
        by (metis prod.exhaust)
      have sound: "sound r (res, (r', w'))"
        using cancel_sound [OF r(2)] run by metis
      have unready_i: "i \<in> unready (tasks_of o1)"
        using t \<open>tk_external t = Some ext\<close> None by (simp add: unready_def)
      have fin: "finite (unready (tasks_of o1))"
        by (rule finite_subset [of _ "dom (tasks_of o1)"])
          (use owner_okD(1) [OF ok] in \<open>auto simp: unready_def tree_ok_def\<close>)
      have pending: "0 < sc_pending (ow_core o1)"
        using waits unready_i fin by (auto simp: card_gt_0_iff)
      consider m where "res = Inl (Fatal m)" | e where "res = Inr (Inl e)" | b where "res = Inr (Inr b)"
      proof (cases res)
        case (Inl e)
        then show ?thesis using sound that(1) by auto
      next
        case (Inr y)
        then show ?thesis using that(2,3) by (cases y) auto
      qed
      then show ?thesis
      proof cases
        case (1 m)
        then show ?thesis
          using r run None \<open>tk_external t = Some ext\<close>
          by (simp add: cancel_wait_def bindX_def task_apply [OF t] reactorX_def)
      next
        case (2 e)
        then show ?thesis
          using r run None \<open>tk_external t = Some ext\<close>
          by (simp add: cancel_wait_def bindX_def task_apply [OF t] reactorX_def)
      next
        case (3 b)
        let ?core = "(put_task i ?u (ow_core o1))\<lparr>sc_pending := sc_pending (ow_core o1) - 1\<rparr>"
        let ?o2 = "o1\<lparr>ow_reactor := Some r', ow_world := w', ow_core := ?core\<rparr>"
        have "waits_ok ?o2"
          using waits sound 3 unready_i fin by (simp add: waits_ok_def unready card_Diff_singleton)
        then have "settles i o1 ?o2"
          by (intro settles_update [OF ok t, of ?u]) (simp_all add: same_core_def)
        then show ?thesis
          using r run None \<open>tk_external t = Some ext\<close> 3 pending
          by (simp add: cancel_wait_def bindX_def task_apply [OF t] reactorX_def pending_less_def)
      qed
    qed
  qed
qed

text \<open>A callback may move every frame; each identity stays as live as it was.\<close>

lemma settling_run_cleanup:
  assumes "owner_ok o1" and "tasks_of o1 i = Some t"
  shows "\<exists>x o2. run_cleanup env t callback first o1 = (Inr x, o2) \<and> settles i o1 o2"
proof -
  note wf = owner_okD(5) [OF assms(1)]
  obtain pointer where pointer: "roots_of (ow_roots o1) (tk_frame t) = Some pointer"
    using owner_okD(6) [OF assms] by blast
  obtain failure move w where run: "en_cleanup env callback pointer (ow_world o1) = (failure, move, w)"
    by (metis prod.exhaust)
  let ?o2 = "o1\<lparr>ow_core := (ow_core o1)\<lparr>sc_current := None\<rparr>\<lparr>sc_current := sc_current (ow_core o1)\<rparr>,
    ow_world := w, ow_roots := fr_trace move (ow_roots o1)\<rparr>"
  have same: "tasks_of ?o2 = tasks_of o1" by simp
  have roots: "store_wf (ow_roots ?o2)" "same_roots (ow_roots o1) (ow_roots ?o2)"
    using fr_trace_ok [OF wf, of move] by (simp_all add: same_roots_def)
  have "frames_ok ?o2"
    by (rule frames_ok_links [OF owner_okD(2) [OF assms(1)] _ roots]) simp
  moreover have "waits_ok ?o2" "ids_ok ?o2" "tree_ok (tasks_of ?o2)"
    using owner_okD(1,3,4) [OF assms(1)] by (simp_all add: waits_ok_def ids_ok_def)
  ultimately have "owner_ok ?o2" by (simp only: owner_ok_def)
  then have "settles i o1 ?o2"
    using roots by (simp add: settles_def same_core_def)
  moreover have "fst (fr_get (tk_frame t) (ow_roots o1)) = Inr (Some pointer)"
      "snd (fr_get (tk_frame t) (ow_roots o1)) = ow_roots o1"
    using fr_get_roots [of "ow_roots o1"] wf pointer by (simp_all add: store_wf_def)
  ultimately show ?thesis
    using run by (simp add: run_cleanup_def bindX_def)
qed

lemma settling_drain_loop:
  assumes "owner_ok o1" and "tasks_of o1 i = Some t"
  shows "\<exists>x o2. drain_loop env n i first o1 = (Inr x, o2) \<and> settles i o1 o2"
  using assms
proof (induction n arbitrary: o1 t first)
  case 0
  then show ?case using settles_refl by auto
next
  case (Suc n)
  show ?case
  proof (cases "tk_cleanups t = []")
    case True
    then show ?thesis
      using settles_refl [OF Suc.prems(1)] by (simp add: bindX_def task_apply [OF Suc.prems(2)])
  next
    case False
    let ?f = "\<lambda>t. t\<lparr>tk_cleanups := butlast (tk_cleanups t)\<rparr>"
    have "settling i (updX i ?f :: ('a, unit) act)" by (rule settling_update) simp_all
    from this Suc.prems obtain o2 u where pop: "updX i ?f o1 = (Inr (), o2)" "settles i o1 o2"
        "tasks_of o2 i = Some u" "drained t u"
      by (cases rule: settlingD) (auto simp: task_apply(2) [OF Suc.prems(2)])
    have same: "run_cleanup env t callback first o2 = run_cleanup env u callback first o2" for callback first
      unfolding run_cleanup_def drainedD [OF pop(4)] ..
    obtain x o3 where run: "run_cleanup env t (snd (last (tk_cleanups t))) first o2 = (Inr x, o3)" "settles i o2 o3"
      using settling_run_cleanup [OF settlesD [OF pop(2)] pop(3)] same by metis
    obtain v where v: "tasks_of o3 i = Some v"
      using settles_dom [OF run(2)] pop(3) by blast
    obtain y o4 where rest: "drain_loop env n i x o3 = (Inr y, o4)" "settles i o3 o4"
      using Suc.IH [OF settlesD [OF run(2)] v] by blast
    then have "settles i o1 o4"
      using pop(2) run(2) settles_trans by blast
    then show ?thesis
      using False pop(1) run(1) rest(1) by (simp add: bindX_def task_apply(1) [OF Suc.prems(2)])
  qed
qed

lemma settling_drain [settling_intros]: "settling i (drain_cleanups env i first)"
proof (rule settlingI, rule disjI2)
  fix o1 :: "'a owner" and t assume ok: "owner_ok o1" and t: "tasks_of o1 i = Some t"
  show "\<exists>x o2. drain_cleanups env i first o1 = (Inr x, o2) \<and> settles i o1 o2"
    using settling_drain_loop [OF ok t] by (simp add: drain_cleanups_def bindX_def task_apply [OF t])
qed

section \<open>Taking a subtree out\<close>

lemma subtree_leaves_up:
  assumes "(c, p) \<in> parents T" "c \<in> subtree T i" "c \<noteq> i"
  shows "p \<in> subtree T i"
proof -
  obtain z where "(c, z) \<in> parents T" "z \<in> subtree T i"
    using assms(2,3) by (auto simp: subtree_def elim: converse_rtranclE)
  then show ?thesis using parents_fun [OF assms(1)] by blast
qed

lemma cut_Some:
  "cut T i j = Some u \<longleftrightarrow> j \<notin> subtree T i \<and> (\<exists>t. T j = Some t
     \<and> u = (if (i, j) \<in> parents T then drop_child i (terminal_order (tk_state (the (T i)))) t else t))"
  by (auto simp: cut_def parents_def split: option.splits)

lemma parents_cut: "parents (cut T i) = {(c, p) \<in> parents T. c \<notin> subtree T i}"
  by (auto simp: parents_iff cut_Some split: if_splits)

lemma dom_cut: "dom (cut T i) = dom T - subtree T i"
  by (auto simp: dom_def cut_Some)

lemma unready_cut: "unready (cut T i) = unready T - subtree T i"
proof -
  have "j \<in> unready (cut T i) \<longleftrightarrow> j \<in> unready T \<and> j \<notin> subtree T i" for j
    by (cases "T j") (auto simp: unready_def cut_Some)
  then show ?thesis by blast
qed

lemma tree_ok_cut:
  assumes "tree_ok T"
  shows "tree_ok (cut T i)"
  unfolding tree_ok_def
proof (intro conjI allI impI)
  note tree = tree_okD [OF assms]
  show "finite (dom (cut T i))" using tree(1) by (simp add: dom_cut)
  show "acyclic (parents (cut T i))"
    by (rule acyclic_subset [OF tree(2)]) (auto simp: parents_cut)
  show "p \<in> dom (cut T i)" if "(c, p) \<in> parents (cut T i)" for c p
    using that tree(4) subtree_step by (auto simp: parents_cut dom_cut)
  show "tk_children u = {c. (c, p) \<in> parents (cut T i)}" if u: "cut T i p = Some u" for p u
  proof -
    obtain t where t: "T p = Some t" "p \<notin> subtree T i"
      and u': "u = (if (i, p) \<in> parents T then drop_child i (terminal_order (tk_state (the (T i)))) t else t)"
      using u unfolding cut_Some by blast
    have "tk_children u = tk_children t - (if (i, p) \<in> parents T then {i} else {})"
      by (simp add: u')
    moreover
    have "c \<notin> subtree T i \<longleftrightarrow> c \<noteq> i" if "(c, p) \<in> parents T" for c
      using subtree_leaves_up [OF that] t(2) by auto
    ultimately show ?thesis
      using t tree(3) [OF t(1)] by (auto simp: parents_cut)
  qed
qed

text \<open>The live frames after the tasks of a set are gone.\<close>

definition frames_of :: "tasks \<Rightarrow> nat set \<Rightarrow> frame_id set" where
  "frames_of T X = {tk_frame t | j t. j \<in> X \<and> T j = Some t}"

definition frees :: "frame_id set \<Rightarrow> store \<Rightarrow> store \<Rightarrow> bool" where
  "frees F s s' \<longleftrightarrow> (\<forall>r. roots_of s' r \<noteq> None \<longleftrightarrow> roots_of s r \<noteq> None \<and> r \<notin> F)"

lemma frames_of_iff: "r \<in> frames_of T X \<longleftrightarrow> (\<exists>j \<in> X. \<exists>t. T j = Some t \<and> tk_frame t = r)"
  by (auto simp: frames_of_def)

text \<open>The owner after a subtree is gone.\<close>

definition removes :: "nat \<Rightarrow> 'w owner \<Rightarrow> 'w owner \<Rightarrow> bool" where
  "removes i o1 o2 \<longleftrightarrow> owner_ok o2 \<and> tasks_of o2 = cut (tasks_of o1) i \<and> same_core (ow_core o1) (ow_core o2)
     \<and> frees (frames_of (tasks_of o1) (subtree (tasks_of o1) i)) (ow_roots o1) (ow_roots o2)"

lemma cancel_wait_post:
  assumes "cancel_wait env i o1 = (Inr x, o2)" "tasks_of o1 i = Some t" "tasks_of o2 i = Some u"
  shows "tk_external u = None"
proof (cases "tk_external t")
  case None
  then show ?thesis using assms by (simp add: cancel_wait_def bindX_def task_apply)
next
  case (Some ext)
  show ?thesis
  proof (cases "ex_ready ext")
    case None
    obtain r where "ow_reactor o1 = Some r"
      using assms Some None by (cases "ow_reactor o1") (auto simp: cancel_wait_def bindX_def task_apply reactorX_def)
    moreover obtain res r' w' where "cancel (en_poller env) (ex_registration ext) (r, ow_world o1) = (res, (r', w'))"
      by (metis prod.exhaust)
    ultimately show ?thesis
      using assms Some None
      by (auto simp: cancel_wait_def bindX_def task_apply reactorX_def pending_less_def split: sum.splits if_splits)
  qed (use assms Some in \<open>auto simp: cancel_wait_def bindX_def task_apply\<close>)
qed

text \<open>Removing a leaf whose resources are gone.\<close>

definition remove_leaf :: "nat \<Rightarrow> ('w, unit) act" where
  "remove_leaf i =
     bindX (observation_remove i) (\<lambda>_.
     bindX (taskX i) (\<lambda>t.
     bindX (modC (\<lambda>core. core\<lparr>sc_tasks := (sc_tasks core)(i := None)\<rparr>)) (\<lambda>_.
     bindX (case tk_parent t of
         None \<Rightarrow> retX ()
       | Some parent \<Rightarrow> updX parent (\<lambda>p. p\<lparr>tk_children := tk_children p - {i}\<rparr>)) (\<lambda>_.
     bindX (rootsX (fr_remove False (tk_frame t))) (\<lambda>removed.
     guardX removed Panic)))))"

lemma retire_leaf:
  "retire env i first =
     bindX (cancel_wait env i) (\<lambda>_.
     bindX (cancel_operation env i) (\<lambda>failure.
     bindX (drain_cleanups env i (if first = None then failure else first)) (\<lambda>first.
     bindX (remove_leaf i) (\<lambda>_. retX first))))"
  by (simp add: retire_def remove_leaf_def bindX_assoc)

lemma remove_leaf_ok:
  assumes ok: "owner_ok o1" and t: "tasks_of o1 i = Some t" and leaf: "tk_children t = {}" and idle: "tk_external t = None"
  shows "\<exists>o2. remove_leaf i o1 = (Inr (), o2) \<and> removes i o1 o2"
proof -
  let ?T = "tasks_of o1"
  note tree = tree_okD [OF owner_okD(1) [OF ok]]
  have sub: "subtree ?T i = {i}"
    using subtree_cases [of _ ?T i] tree(3) [OF t] leaf by auto
  let ?order = "terminal_order (tk_state t)"
  have none: "tk_parent t \<noteq> Some i"
  proof
    assume "tk_parent t = Some i"
    then have "(i, i) \<in> parents ?T" using t by (simp add: parents_iff)
    then show False using tree(2) r_into_trancl unfolding acyclic_def by metis
  qed
  obtain o2 where run: "remove_leaf i o1 = bindX (rootsX (fr_remove False (tk_frame t))) (\<lambda>removed. guardX removed Panic) o2"
    and o2: "tasks_of o2 = cut ?T i" "same_core (ow_core o1) (ow_core o2)" "sc_pending (ow_core o2) = sc_pending (ow_core o1)"
      "ow_roots o2 = ow_roots o1" "ow_reactor o2 = ow_reactor o1" "ow_world o2 = ow_world o1"
  proof (cases "tk_parent t")
    case None
    show ?thesis
    proof (rule that)
      show "remove_leaf i o1 = bindX (rootsX (fr_remove False (tk_frame t))) (\<lambda>removed. guardX removed Panic)
          (o1\<lparr>ow_core := (ow_core o1)\<lparr>sc_tasks := ?T(i := None)\<rparr>\<rparr>)"
        using None by (simp add: remove_leaf_def observation_remove_def bindX_def task_apply [OF t])
    qed (use None sub t in \<open>auto simp: cut_def fun_eq_iff same_core_def\<close>)
  next
    case (Some parent)
    then obtain p where p: "?T parent = Some p"
      using tree(4) [of i parent] t by (auto simp: parents_iff)
    have ne: "parent \<noteq> i" using none Some by auto
    let ?p = "p\<lparr>tk_observation := map_option (forget_child i ?order) (tk_observation p)\<rparr>"
    let ?core = "put_task parent (drop_child i ?order p)
      ((put_task parent ?p (ow_core o1))\<lparr>sc_tasks := (?T(parent \<mapsto> ?p))(i := None)\<rparr>)"
    show ?thesis
    proof (rule that)
      show "remove_leaf i o1 = bindX (rootsX (fr_remove False (tk_frame t))) (\<lambda>removed. guardX removed Panic)
          (o1\<lparr>ow_core := ?core\<rparr>)"
        using Some p ne t by (simp add: remove_leaf_def observation_remove_def bindX_def task_apply drop_child_def)
    qed (use Some sub t p ne in \<open>auto simp: cut_def fun_eq_iff same_core_def put_task_def\<close>)
  qed
  have wf: "store_wf (ow_roots o2)" and live: "roots_of (ow_roots o2) (tk_frame t) \<noteq> None"
    using owner_okD(5,6) [OF ok] t by (simp_all add: o2)
  then obtain roots where roots: "fr_remove False (tk_frame t) (ow_roots o2) = (Inr True, roots)"
    using fr_remove_ok [OF wf, of "tk_frame t"] by (cases "fr_position (ow_roots o2) (tk_frame t)") (auto simp: roots_of_def)
  note removed = fr_remove_wf [OF wf roots]
  let ?o3 = "o2\<lparr>ow_roots := roots\<rparr>"
  have "unready (cut ?T i) = unready ?T"
  proof -
    have "i \<notin> unready ?T" using idle t by (simp add: unready_def)
    then show "unready (cut ?T i) = unready ?T" by (simp add: unready_cut sub)
  qed
  then have "waits_ok ?o3"
    using owner_okD(3) [OF ok] by (auto simp: waits_ok_def o2 cut_Some)
  moreover have "ids_ok ?o3"
    using owner_okD(4) [OF ok] o2(2) by (auto simp: ids_ok_def o2(1) dom_cut same_core_def)
  moreover have frame: "\<exists>v. ?T j = Some v \<and> tk_frame v = tk_frame u \<and> j \<noteq> i" if "cut ?T i j = Some u" for j u
    using that sub by (auto simp: cut_Some)
  have "frames_ok ?o3"
    unfolding frames_ok_def
  proof (intro conjI allI impI)
    show "store_wf (ow_roots ?o3)" using removed(1) by simp
    show "roots_of (ow_roots ?o3) (tk_frame u) \<noteq> None" if u: "tasks_of ?o3 j = Some u" for j u
    proof -
      obtain v where v: "?T j = Some v" "tk_frame v = tk_frame u" "j \<noteq> i"
        using frame [of j u] u by (auto simp: o2(1))
      then show ?thesis
        using owner_okD(6) [OF ok v(1)] owner_okD(7) [OF ok v(1) t] by (auto simp: removed(3) o2)
    qed
    show "j = k" if uv: "tasks_of ?o3 j = Some u" "tasks_of ?o3 k = Some v" "tk_frame u = tk_frame v" for j k u v
    proof -
      obtain u' v' where "?T j = Some u'" "tk_frame u' = tk_frame u" "?T k = Some v'" "tk_frame v' = tk_frame v"
        using frame [of j u] frame [of k v] uv by (auto simp: o2(1))
      then show ?thesis
        using owner_okD(7) [OF ok] uv(3) by metis
    qed
    show "\<exists>j u. tasks_of ?o3 j = Some u \<and> tk_frame u = r" if r: "roots_of (ow_roots ?o3) r \<noteq> None" for r
    proof -
      have "r \<noteq> tk_frame t" "roots_of (ow_roots o1) r \<noteq> None" using r by (auto simp: removed(3) o2 split: if_splits)
      then obtain j v where v: "?T j = Some v" "tk_frame v = r" "j \<noteq> i" using owner_okD(8) [OF ok] t by fastforce
      then have "j \<in> dom (cut ?T i)" using sub by (auto simp: dom_cut)
      then obtain u where u: "cut ?T i j = Some u" by blast
      have "tasks_of ?o3 j = Some u" using u by (simp add: o2(1))
      moreover have "tk_frame u = r" using u v by (auto simp: cut_Some split: if_splits)
      ultimately show ?thesis by blast
    qed
  qed
  ultimately have "owner_ok ?o3"
    using tree_ok_cut [OF owner_okD(1) [OF ok]] by (simp add: owner_ok_def o2(1))
  then have "removes i o1 ?o3"
    using o2 t sub removed(3) by (auto simp: removes_def frees_def frames_of_def)
  moreover have "remove_leaf i o1 = (Inr (), ?o3)"
    using roots by (simp add: run bindX_def)
  ultimately show ?thesis by blast
qed

section \<open>Cancelling a subtree\<close>

lemma settles_parents:
  assumes "settles i o1 o2" "tasks_of o1 i = Some t"
  shows "parents (tasks_of o2) = parents (tasks_of o1)" and "cut (tasks_of o2) i = cut (tasks_of o1) i"
    and "subtree (tasks_of o2) j = subtree (tasks_of o1) j"
    and "tk_frame (the (tasks_of o2 j)) = tk_frame (the (tasks_of o1 j))" and "dom (tasks_of o2) = dom (tasks_of o1)"
proof -
  obtain u where u: "tasks_of o2 i = Some u" "drained t u"
    using assms by (rule settles_task)
  note other = settles_rest(4) [OF assms(1)]
  have tasks: "tasks_of o2 = (tasks_of o1)(i \<mapsto> u)"
    using other u by (auto simp: fun_eq_iff)
  show parents: "parents (tasks_of o2) = parents (tasks_of o1)"
    unfolding parents_def tasks using drainedD(1) [OF u(2)] assms(2) by (auto split: if_splits)
  then show "subtree (tasks_of o2) j = subtree (tasks_of o1) j" for j
    by (simp add: subtree_def)
  then show "cut (tasks_of o2) i = cut (tasks_of o1) i"
    using drainedD(1,4) [OF u(2)] assms(2) subtree_refl [of i "tasks_of o1"]
    by (auto simp: cut_def tasks fun_eq_iff)
  show "tk_frame (the (tasks_of o2 j)) = tk_frame (the (tasks_of o1 j))"
    using drainedD(3) [OF u(2)] assms(2) by (simp add: tasks)
  show "dom (tasks_of o2) = dom (tasks_of o1)"
    using assms(2) by (auto simp: tasks)
qed

lemma frees_trans: "frees F s s' \<Longrightarrow> frees G s' s'' \<Longrightarrow> frees (F \<union> G) s s''"
  by (auto simp: frees_def)

lemma same_roots_frees: "same_roots s s' \<Longrightarrow> frees F s' s'' \<Longrightarrow> frees F s s''"
  by (auto simp: same_roots_def frees_def)

lemma removes_settled:
  assumes "settles i o1 o2" "tasks_of o1 i = Some t" "removes i o2 o3"
  shows "removes i o1 o3"
proof -
  note same = settles_parents [OF assms(1,2)]
  have frames: "frames_of (tasks_of o2) X = frames_of (tasks_of o1) X" for X
  proof -
    have "(\<exists>u. tasks_of o2 j = Some u \<and> tk_frame u = r) \<longleftrightarrow> (\<exists>t. tasks_of o1 j = Some t \<and> tk_frame t = r)" for j r
      using same(4) [of j] same(5) by (cases "tasks_of o1 j"; cases "tasks_of o2 j") auto
    then show ?thesis by (simp add: set_eq_iff frames_of_iff)
  qed
  note removed = assms(3) [unfolded removes_def same(2,3) frames]
  show ?thesis
    unfolding removes_def
    using removed same_core_trans [OF settles_rest(3) [OF assms(1)]] same_roots_frees [OF settles_rest(2) [OF assms(1)]]
    by blast
qed

lemma retire_ok:
  assumes ok: "owner_ok o1" and t: "tasks_of o1 i = Some t" and leaf: "tk_children t = {}"
  shows "(\<exists>message o2. retire env i first o1 = (Inl (Fatal message), o2))
    \<or> (\<exists>x o2. retire env i first o1 = (Inr x, o2) \<and> removes i o1 o2)"
  using settling_cancel_wait ok t
proof (cases rule: settlingD [where m = "cancel_wait env i"])
  case (fatal message o2)
  then show ?thesis by (simp add: retire_leaf bindX_def)
next
  case (settled x o2 u)
  have idle: "tk_external u = None"
    by (rule cancel_wait_post [OF settled(1) t settled(3)])
  let ?rest = "bindX (cancel_operation env i) (\<lambda>failure. drain_cleanups env i (if first = None then failure else first))"
  have run: "retire env i first o1 = bindX ?rest (\<lambda>first. bindX (remove_leaf i) (\<lambda>_. retX first)) o2"
    unfolding retire_leaf bindX_assoc by (rule bindX_apply(2) [where s' = o2]) (rule settled(1))
  have "settling i ?rest" by (intro settling_intros)
  then show ?thesis
    using settlesD [OF settled(2)] settled(3)
  proof (cases rule: settlingD)
    case (fatal message o3)
    then show ?thesis by (simp add: run bindX_def)
  next
    case inner: (settled y o3 v)
    note both = settles_trans [OF settled(2) inner(2)]
    have "drained t v" using settled(4) inner(4) drained_trans by blast
    then have "tk_children v = {}" using leaf by (simp add: drainedD)
    moreover have "tk_external v = None" using idle inner(5) by blast
    ultimately obtain o4 where "remove_leaf i o3 = (Inr (), o4)" "removes i o3 o4"
      using remove_leaf_ok [OF settlesD [OF inner(2)] inner(3)] by blast
    then have "retire env i first o1 = (Inr y, o4)" "removes i o1 o4"
      using removes_settled [OF both t] inner(1) by (simp_all add: run) (simp add: bindX_def)
    then show ?thesis by blast
  qed
qed

text \<open>
  The loop from one stack to a lower one: it ends the process, or it goes on from a state in \<open>Q\<close>
  with the rounds that are left.
\<close>

definition goes :: "'w env \<Rightarrow> nat \<Rightarrow> (nat \<times> bool) list \<Rightarrow> nat \<Rightarrow> (nat \<times> bool) list \<Rightarrow>
    'w owner \<Rightarrow> ('w owner \<Rightarrow> bool) \<Rightarrow> bool" where
  "goes env n stack k rest o1 Q \<longleftrightarrow> (\<forall>first.
     (\<exists>message o2. cancel_loop env n stack first o1 = (Inl (Fatal message), o2))
     \<or> (\<exists>x o2. cancel_loop env n stack first o1 = cancel_loop env k rest x o2 \<and> Q o2))"

lemma goes_refl: "Q o1 \<Longrightarrow> goes env n stack n stack o1 Q"
  unfolding goes_def by blast

lemma goes_mono: "goes env n stack k rest o1 P \<Longrightarrow> (\<And>o2. P o2 \<Longrightarrow> Q o2) \<Longrightarrow> goes env n stack k rest o1 Q"
  unfolding goes_def by meson

lemma goes_trans:
  assumes "goes env n stack k rest o1 P" and "\<And>o2. P o2 \<Longrightarrow> goes env k rest m rest' o2 Q"
  shows "goes env n stack m rest' o1 Q"
  unfolding goes_def
proof
  fix first
  from assms(1) consider message o2 where "cancel_loop env n stack first o1 = (Inl (Fatal message), o2)"
    | x o2 where "cancel_loop env n stack first o1 = cancel_loop env k rest x o2" "P o2"
    unfolding goes_def by blast
  then show "(\<exists>message o2. cancel_loop env n stack first o1 = (Inl (Fatal message), o2))
      \<or> (\<exists>x o2. cancel_loop env n stack first o1 = cancel_loop env m rest' x o2 \<and> Q o2)"
  proof cases
    case 1
    then show ?thesis by blast
  next
    case (2 x o2)
    from assms(2) [OF 2(2)] show ?thesis
      unfolding 2(1) goes_def by blast
  qed
qed

text \<open>What cancelling some children of a task leaves.\<close>

definition below :: "tasks \<Rightarrow> nat set \<Rightarrow> nat set" where
  "below T X = (\<Union>c \<in> X. subtree T c)"

definition same_task :: "task \<Rightarrow> task \<Rightarrow> bool" where
  "same_task t u \<longleftrightarrow> tk_parent u = tk_parent t \<and> tk_frame u = tk_frame t \<and> tk_state u = tk_state t
     \<and> tk_returned u = tk_returned t \<and> tk_external u = tk_external t \<and> tk_waiter u = tk_waiter t"

definition clears :: "nat \<Rightarrow> nat set \<Rightarrow> 'w owner \<Rightarrow> 'w owner \<Rightarrow> bool" where
  "clears i X o1 o2 \<longleftrightarrow> owner_ok o2 \<and> same_core (ow_core o1) (ow_core o2)
     \<and> frees (frames_of (tasks_of o1) (below (tasks_of o1) X)) (ow_roots o1) (ow_roots o2)
     \<and> (\<forall>j. j \<noteq> i \<longrightarrow> tasks_of o2 j = (if j \<in> below (tasks_of o1) X then None else tasks_of o1 j))
     \<and> (\<forall>t. tasks_of o1 i = Some t \<longrightarrow>
          (\<exists>u. tasks_of o2 i = Some u \<and> same_task t u \<and> tk_children u = tk_children t - X))"

lemma removes_child:
  assumes ok: "owner_ok o1" and t: "tasks_of o1 i = Some t" and c: "c \<in> tk_children t" and rem: "removes c o1 o2"
  shows "clears i {c} o1 o2"
    and "\<And>d. d \<in> tk_children t \<Longrightarrow> d \<noteq> c \<Longrightarrow> subtree (tasks_of o2) d = subtree (tasks_of o1) d"
proof -
  let ?T = "tasks_of o1"
  note tree = tree_okD [OF owner_okD(1) [OF ok]]
  have children: "tk_children t = {c. (c, i) \<in> parents ?T}" by (rule tree(3) [OF t])
  then have parent: "(c, i) \<in> parents ?T" using c by simp
  have T2: "tasks_of o2 = cut ?T c" using rem by (simp add: removes_def)
  have i: "i \<notin> subtree ?T c" by (rule acyclic_not_below [OF tree(2) parent])
  have only: "(c, j) \<notin> parents ?T" if "j \<noteq> i" for j
    using parents_fun [OF parent] that by blast
  have other: "cut ?T c j = (if j \<in> subtree ?T c then None else ?T j)" if "j \<noteq> i" for j
  proof (cases "cut ?T c j")
    case None
    then show ?thesis by (auto simp: cut_def split: option.splits if_splits)
  next
    case (Some u)
    then show ?thesis using only [OF that] by (auto simp: cut_Some)
  qed
  have "\<exists>u. cut ?T c i = Some u \<and> same_task t u \<and> tk_children u = tk_children t - {c}"
    using t i parent by (simp add: cut_Some same_task_def)
  then show "clears i {c} o1 o2"
    using rem other t by (simp add: clears_def removes_def below_def T2)
  show "subtree (tasks_of o2) d = subtree ?T d" if "d \<in> tk_children t" "d \<noteq> c" for d
  proof -
    have disjoint: "subtree ?T d \<inter> subtree ?T c = {}"
      using subtree_siblings [OF tree(2) _ parent that(2)] that(1) by (simp add: children)
    then have "d \<notin> subtree ?T c" using subtree_refl by blast
    moreover have "parents (tasks_of o2) = {(x, p) \<in> parents ?T. x \<notin> subtree ?T c}"
      by (simp add: T2 parents_cut)
    ultimately have "subtree (tasks_of o2) d = subtree ?T d - subtree ?T c"
      using subtree_step by (intro subtree_without) auto
    then show ?thesis using disjoint by blast
  qed
qed

lemma below_single: "below T {c} = subtree T c"
  by (simp add: below_def)

lemma clears_more:
  assumes first: "clears i {c} o1 o2" and rest: "clears i X o2 o3" and t: "tasks_of o1 i = Some t" and i: "i \<notin> below (tasks_of o1) X"
    and same: "below (tasks_of o2) X = below (tasks_of o1) X" and apart: "below (tasks_of o1) X \<inter> subtree (tasks_of o1) c = {}"
  shows "clears i (insert c X) o1 o3"
proof -
  note one = first [unfolded clears_def below_single] and two = rest [unfolded clears_def same]
  have below: "below (tasks_of o1) (insert c X) = subtree (tasks_of o1) c \<union> below (tasks_of o1) X"
    by (simp add: below_def)
  have "tasks_of o2 j = tasks_of o1 j" if "j \<in> below (tasks_of o1) X" for j
  proof -
    have "j \<noteq> i" "j \<notin> subtree (tasks_of o1) c" using that i apart by blast+
    then show ?thesis using one by simp
  qed
  then have "frames_of (tasks_of o2) (below (tasks_of o1) X) = frames_of (tasks_of o1) (below (tasks_of o1) X)"
    by (simp add: set_eq_iff frames_of_iff)
  then have "frees (frames_of (tasks_of o1) (below (tasks_of o1) X)) (ow_roots o2) (ow_roots o3)"
    using two by simp
  moreover have "frees (frames_of (tasks_of o1) (subtree (tasks_of o1) c)) (ow_roots o1) (ow_roots o2)"
    using one by blast
  moreover have "frames_of T (A \<union> B) = frames_of T A \<union> frames_of T B" for T A B
    unfolding frames_of_def by blast
  ultimately have frees: "frees (frames_of (tasks_of o1) (below (tasks_of o1) (insert c X))) (ow_roots o1) (ow_roots o3)"
    using frees_trans unfolding below by metis
  obtain u where u: "tasks_of o2 i = Some u" "same_task t u" "tk_children u = tk_children t - {c}"
    using one t by blast
  obtain v where v: "tasks_of o3 i = Some v" "same_task u v" "tk_children v = tk_children u - X"
    using two u(1) by blast
  have "same_task t v" using u(2) v(2) by (simp add: same_task_def)
  moreover have "tk_children v = tk_children t - insert c X" using u(3) v(3) by auto
  moreover have "tasks_of o3 j = (if j \<in> below (tasks_of o1) (insert c X) then None else tasks_of o1 j)" if "j \<noteq> i" for j
    using one two that by (simp add: below)
  moreover have "same_core (ow_core o1) (ow_core o3)" "owner_ok o3"
    using one two same_core_trans by blast+
  ultimately show ?thesis
    unfolding clears_def using frees v(1) t by simp
qed

lemma goes_children:
  assumes "owner_ok o1" and "tasks_of o1 i = Some t" and "distinct cs" and "set cs \<subseteq> tk_children t"
    and one: "\<And>o2 c k rest. owner_ok o2 \<Longrightarrow> c \<in> dom (tasks_of o2) \<Longrightarrow>
      card (subtree (tasks_of o2) c) < card (subtree (tasks_of o1) i) \<Longrightarrow>
      goes env (2 * card (subtree (tasks_of o2) c) + k) ((c, False) # rest) k rest o2 (removes c o2)"
  shows "goes env (2 * sum_list (map (\<lambda>c. card (subtree (tasks_of o1) c)) cs) + k) (map (\<lambda>c. (c, False)) cs @ rest)
    k rest o1 (clears i (set cs) o1)"
  using assms
proof (induction cs arbitrary: o1 t)
  case Nil
  then have "clears i {} o1 o1"
    by (auto simp: clears_def same_core_def frees_def below_def frames_of_iff same_task_def)
  then show ?case by (simp add: goes_refl)
next
  case (Cons c cs)
  let ?T = "tasks_of o1"
  note tree = tree_okD [OF owner_okD(1) [OF Cons.prems(1)]] and t = Cons.prems(2)
  have children: "tk_children t = {c. (c, i) \<in> parents ?T}" by (rule tree(3) [OF t])
  have c: "c \<in> tk_children t" "(c, i) \<in> parents ?T" using Cons.prems(4) children by auto
  have i: "i \<notin> subtree ?T d" if "d \<in> tk_children t" for d
    using acyclic_not_below [OF tree(2)] that by (simp add: children)
  have smaller: "card (subtree ?T d) < card (subtree ?T i)" if "d \<in> tk_children t" for d
  proof (rule psubset_card_mono)
    show "finite (subtree ?T i)" by (rule finite_subtree [OF owner_okD(1) [OF Cons.prems(1)]]) (use t in auto)
    have "(d, i) \<in> parents ?T" using that by (simp add: children)
    then have "d \<in> subtree ?T i" using subtree_step subtree_refl by blast
    then have "subtree ?T d \<subseteq> subtree ?T i" using subtree_trans by blast
    then show "subtree ?T d \<subset> subtree ?T i" using i [OF that] subtree_refl [of i ?T] by blast
  qed
  let ?n = "2 * sum_list (map (\<lambda>c. card (subtree ?T c)) cs)"
  have "goes env (2 * card (subtree ?T c) + (?n + k)) ((c, False) # (map (\<lambda>c. (c, False)) cs @ rest))
      (?n + k) (map (\<lambda>c. (c, False)) cs @ rest) o1 (removes c o1)"
    by (rule Cons.prems(5) [OF Cons.prems(1) _ smaller [OF c(1)]]) (use tree(6) [OF c(2)] in simp)
  moreover have "goes env (?n + k) (map (\<lambda>c. (c, False)) cs @ rest) k rest o2 (clears i (set (c # cs)) o1)"
    if rem: "removes c o1 o2" for o2
  proof -
    note step = removes_child [OF Cons.prems(1) t c(1) rem]
    obtain u where u: "tasks_of o2 i = Some u" "tk_children u = tk_children t - {c}"
      using step(1) t by (auto simp: clears_def)
    have ok2: "owner_ok o2" using rem by (simp add: removes_def)
    have same: "subtree (tasks_of o2) d = subtree ?T d" if "d \<in> set cs" for d
      using step(2) [of d] Cons.prems(3,4) that by auto
    have less: "card (subtree (tasks_of o2) i) \<le> card (subtree ?T i)"
    proof (rule card_mono)
      show "finite (subtree ?T i)" by (rule finite_subtree [OF owner_okD(1) [OF Cons.prems(1)]]) (use t in auto)
      have "parents (tasks_of o2) \<subseteq> parents ?T" using rem by (auto simp: removes_def parents_cut)
      then show "subtree (tasks_of o2) i \<subseteq> subtree ?T i"
        unfolding subtree_def by (auto dest: rtrancl_mono)
    qed
    have counted: "map (\<lambda>c. card (subtree (tasks_of o2) c)) cs = map (\<lambda>c. card (subtree ?T c)) cs"
      using same by simp
    have run: "goes env (2 * sum_list (map (\<lambda>c. card (subtree (tasks_of o2) c)) cs) + k) (map (\<lambda>c. (c, False)) cs @ rest)
        k rest o2 (clears i (set cs) o2)"
    proof (rule Cons.IH [OF ok2 u(1)])
      show "distinct cs" "set cs \<subseteq> tk_children u" using Cons.prems(3,4) u(2) by auto
    qed (use Cons.prems(5) less in \<open>auto intro: order_less_le_trans\<close>)
    have "clears i (set (c # cs)) o1 o3" if "clears i (set cs) o2 o3" for o3
    proof -
      have "below (tasks_of o2) (set cs) = below ?T (set cs)" using same by (simp add: below_def)
      moreover have "i \<notin> below ?T (set cs)" using i Cons.prems(4) by (auto simp: below_def)
      moreover have "subtree ?T d \<inter> subtree ?T c = {}" if "d \<in> set cs" for d
        using subtree_siblings [OF tree(2) _ c(2), of d] Cons.prems(3,4) that by (auto simp: children)
      then have "below ?T (set cs) \<inter> subtree ?T c = {}" by (auto simp: below_def)
      ultimately show ?thesis
        using clears_more [OF step(1) that t] by simp
    qed
    then show ?thesis
      by (rule goes_mono [OF run [unfolded counted]])
  qed
  ultimately have "goes env (2 * card (subtree ?T c) + (?n + k)) ((c, False) # (map (\<lambda>c. (c, False)) cs @ rest))
      k rest o1 (clears i (set (c # cs)) o1)"
    by (rule goes_trans)
  then show ?case by (simp add: algebra_simps)
qed

lemma clears_all:
  assumes ok: "owner_ok o1" and t: "tasks_of o1 i = Some t" and cleared: "clears i (tk_children t) o1 o2" and rem: "removes i o2 o3"
  shows "removes i o1 o3"
proof -
  let ?T = "tasks_of o1"
  note tree = tree_okD [OF owner_okD(1) [OF ok]] and one = cleared [unfolded clears_def]
  have children: "tk_children t = {c. (c, i) \<in> parents ?T}" by (rule tree(3) [OF t])
  have sub: "subtree ?T i = insert i (below ?T (tk_children t))"
    using subtree_cases [of _ ?T i] by (auto simp: children below_def)
  have top: "i \<notin> below ?T (tk_children t)"
    using acyclic_not_below [OF tree(2)] by (auto simp: children below_def)
  obtain u where u: "tasks_of o2 i = Some u" "same_task t u" "tk_children u = {}"
    using one t by auto
  have T2: "tasks_of o2 j = (if j \<in> below ?T (tk_children t) then None else if j = i then Some u else ?T j)" for j
    using one u top by auto
  have "owner_ok o2" using one by blast
  then have leaf: "subtree (tasks_of o2) i = {i}"
    using subtree_cases [of _ "tasks_of o2" i] tree_okD(3) [OF owner_okD(1) u(1)] u(3) by auto
  have up: "j \<notin> subtree ?T i" if "tk_parent t = Some j" for j
  proof -
    have "(i, j) \<in> parents ?T" using that t by (simp add: parents_iff)
    then show ?thesis by (rule acyclic_not_below [OF tree(2)])
  qed
  have "cut (tasks_of o2) i j = cut ?T i j" for j
  proof (cases "j \<in> subtree ?T i")
    case True
    then have "tasks_of o2 j = None \<or> j = i" using sub by (auto simp: T2)
    moreover have "tk_parent u \<noteq> Some j" using up True u(2) by (auto simp: same_task_def)
    ultimately show ?thesis
      using True leaf u(1) by (auto simp: cut_def)
  next
    case False
    then have "tasks_of o2 j = ?T j" using sub by (auto simp: T2)
    then show ?thesis
      using False leaf u t sub by (auto simp: cut_def same_task_def)
  qed
  then have "cut (tasks_of o2) i = cut ?T i" by (rule ext)
  then have "tasks_of o3 = cut ?T i" using rem by (simp only: removes_def)
  moreover have "frames_of (tasks_of o2) {i} = frames_of ?T {i}"
    using u(1) t u(2) [unfolded same_task_def] by (simp add: frames_of_iff set_eq_iff)
  then have "frees (frames_of ?T {i}) (ow_roots o2) (ow_roots o3)"
    using rem leaf by (simp add: removes_def)
  then have "frees (frames_of ?T (below ?T (tk_children t)) \<union> frames_of ?T {i}) (ow_roots o1) (ow_roots o3)"
    using one frees_trans by blast
  moreover have "frames_of ?T (below ?T (tk_children t)) \<union> frames_of ?T {i} = frames_of ?T (subtree ?T i)"
    unfolding sub frames_of_def by blast
  ultimately show ?thesis
    using rem one same_core_trans unfolding removes_def by metis
qed

lemma goes_tree:
  assumes "owner_ok o1" and "i \<in> dom (tasks_of o1)"
  shows "goes env (2 * card (subtree (tasks_of o1) i) + k) ((i, False) # rest) k rest o1 (removes i o1)"
  using assms
proof (induction "card (subtree (tasks_of o1) i)" arbitrary: o1 i k rest rule: less_induct)
  case less
  let ?T = "tasks_of o1"
  obtain t where t: "?T i = Some t" using less.prems(2) by blast
  note ok = less.prems(1) and tree = tree_okD [OF owner_okD(1) [OF less.prems(1)]]
  let ?cs = "rev (children_of t)"
  have cs: "set ?cs = tk_children t" "distinct ?cs"
    using tree(5) [OF t] by (simp_all add: children_of_def)
  have sum: "sum_list (map (\<lambda>c. card (subtree ?T c)) ?cs) = sum (\<lambda>c. card (subtree ?T c)) (tk_children t)"
    using cs sum_list_distinct_conv_sum_set [OF cs(2), of "\<lambda>c. card (subtree ?T c)"] by simp
  let ?n = "2 * sum_list (map (\<lambda>c. card (subtree ?T c)) ?cs)"
  have rounds: "2 * card (subtree ?T i) + k = Suc (?n + Suc k)"
    unfolding card_subtree [OF owner_okD(1) [OF ok] t] sum by simp
  have descend: "cancel_loop env (Suc m) ((i, False) # rest) first o1
      = cancel_loop env m (map (\<lambda>c. (c, False)) ?cs @ (i, True) # rest) first o1" for m first
    by (subst cancel_loop.simps) (simp add: bindX_def task_apply [OF t] del: cancel_loop.simps)
  have start: "goes env (Suc (?n + Suc k)) ((i, False) # rest) (?n + Suc k)
      (map (\<lambda>c. (c, False)) ?cs @ (i, True) # rest) o1 (\<lambda>o2. o2 = o1)"
    unfolding goes_def by (intro allI disjI2 exI conjI) (rule descend, rule refl)
  have children: "goes env (?n + Suc k) (map (\<lambda>c. (c, False)) ?cs @ (i, True) # rest) (Suc k) ((i, True) # rest) o1
      (clears i (tk_children t) o1)"
    using goes_children [OF ok t cs(2), of env "Suc k" "(i, True) # rest"] less.hyps cs(1) by simp
  have last: "goes env (Suc k) ((i, True) # rest) k rest o2 (removes i o1)" if cleared: "clears i (tk_children t) o1 o2" for o2
  proof -
    have ok2: "owner_ok o2" using cleared by (simp add: clears_def)
    obtain u where u: "tasks_of o2 i = Some u" "tk_children u = {}"
      using cleared t by (auto simp: clears_def)
    show ?thesis
      unfolding goes_def
    proof
      fix first
      from retire_ok [OF ok2 u, of env first] consider message o3 where "retire env i first o2 = (Inl (Fatal message), o3)"
        | x o3 where "retire env i first o2 = (Inr x, o3)" "removes i o2 o3"
        by blast
      then show "(\<exists>message o3. cancel_loop env (Suc k) ((i, True) # rest) first o2 = (Inl (Fatal message), o3))
          \<or> (\<exists>x o3. cancel_loop env (Suc k) ((i, True) # rest) first o2 = cancel_loop env k rest x o3 \<and> removes i o1 o3)"
      proof cases
        case 1
        then show ?thesis by (simp add: bindX_def)
      next
        case (2 x o3)
        then show ?thesis
          using clears_all [OF ok t cleared 2(2)] by (auto simp: bindX_def)
      qed
    qed
  qed
  show ?case
    unfolding rounds
    by (rule goes_trans [OF start]) (use goes_trans [OF children last] in blast)
qed

text \<open>
  Cancelling a subtree ends the process, or it removes exactly that subtree and its frames; the
  rounds are enough because identities are positive and at most \<open>next\<close>.
\<close>

lemma cancel_tree_ok:
  assumes ok: "owner_ok o1" and i: "i \<in> dom (tasks_of o1)"
  shows "(\<exists>message o2. cancel_tree env i first o1 = (Inl (Fatal message), o2))
    \<or> (\<exists>x o2. cancel_tree env i first o1 = (Inr x, o2) \<and> removes i o1 o2)"
proof -
  let ?n = "sc_next (ow_core o1)" and ?c = "card (subtree (tasks_of o1) i)"
  have "subtree (tasks_of o1) i \<subseteq> {1..?n}"
    using subtree_dom [OF i] owner_okD(4) [OF ok] by (fastforce simp: ids_ok_def)
  then have "?c \<le> ?n"
    using card_mono [of "{1..?n}"] by fastforce
  then have rounds: "2 * Suc ?n = 2 * ?c + (2 * (?n - ?c) + 2)" by simp
  have "cancel_loop env m [] x o2 = (Inr x, o2)" for m x and o2 :: "'a owner"
    by (cases m) simp_all
  then show ?thesis
    using goes_tree [OF ok i, of env "2 * (?n - ?c) + 2" "[]"]
    unfolding goes_def cancel_tree_def rounds [symmetric] by (simp add: bindX_def)
qed

lemma removes_child_only:
  assumes "owner_ok o1" "tasks_of o1 i = Some t" "c \<in> tk_children t" "removes c o1 o2"
  obtains u where "tasks_of o2 i = Some u" "tk_children u = tk_children t - {c}" "owner_ok o2"
  using removes_child(1) [OF assms] assms(2) by (auto simp: clears_def)

lemma descendants_loop_ok:
  assumes "owner_ok o1" and "tasks_of o1 i = Some t" and "card (tk_children t) \<le> n"
  shows "(\<exists>message o2. descendants_loop env n i first o1 = (Inl (Fatal message), o2))
    \<or> (\<exists>x o2. descendants_loop env n i first o1 = (Inr x, o2) \<and> clears i (tk_children t) o1 o2)"
  using assms
proof (induction n arbitrary: o1 t first)
  case 0
  then have "tk_children t = {}" using tree_okD(5) [OF owner_okD(1) [OF 0(1)] 0(2)] by simp
  moreover from this 0 have "clears i {} o1 o1"
    by (auto simp: clears_def same_core_def frees_def below_def frames_of_iff same_task_def)
  ultimately show ?case by (simp add: bindX_def task_apply [OF 0(2)])
next
  case (Suc n)
  note ok = Suc.prems(1) and t = Suc.prems(2)
  note tree = tree_okD [OF owner_okD(1) [OF ok]]
  show ?case
  proof (cases "tk_children t = {}")
    case True
    then have "clears i {} o1 o1"
      using ok t by (auto simp: clears_def same_core_def frees_def below_def frames_of_iff same_task_def)
    then show ?thesis using True by (simp add: bindX_def task_apply [OF t])
  next
    case False
    let ?c = "Min (tk_children t)"
    have c: "?c \<in> tk_children t" using False tree(5) [OF t] by simp
    have children: "tk_children t = {c. (c, i) \<in> parents (tasks_of o1)}" by (rule tree(3) [OF t])
    then have "?c \<in> dom (tasks_of o1)" using c tree(6) by blast
    from cancel_tree_ok [OF ok this, of env first] show ?thesis
    proof (elim disjE exE conjE)
      fix message o2 assume "cancel_tree env ?c first o1 = (Inl (Fatal message), o2)"
      then show ?thesis using False by (simp add: bindX_def task_apply [OF t])
    next
      fix x o2 assume run: "cancel_tree env ?c first o1 = (Inr x, o2)" and rem: "removes ?c o1 o2"
      note step = removes_child [OF ok t c rem]
      obtain u where u: "tasks_of o2 i = Some u" "tk_children u = tk_children t - {?c}" "owner_ok o2"
        by (rule removes_child_only [OF ok t c rem])
      have "card (tk_children u) \<le> n"
        using Suc.prems(3) c tree(5) [OF t] by (simp add: u(2))
      from Suc.IH [OF u(3,1) this, of x] show ?thesis
      proof (elim disjE exE conjE)
        fix message o3 assume "descendants_loop env n i x o2 = (Inl (Fatal message), o3)"
        then show ?thesis using False run by (simp add: bindX_def task_apply [OF t])
      next
        fix y o3 assume rest: "descendants_loop env n i x o2 = (Inr y, o3)" and cleared: "clears i (tk_children u) o2 o3"
        have same: "below (tasks_of o2) (tk_children u) = below (tasks_of o1) (tk_children u)"
          using step(2) by (simp add: below_def u(2))
        have "i \<notin> below (tasks_of o1) (tk_children u)"
          using acyclic_not_below [OF tree(2)] by (auto simp: below_def u(2) children)
        moreover have "below (tasks_of o1) (tk_children u) \<inter> subtree (tasks_of o1) ?c = {}"
          using subtree_siblings [OF tree(2)] c by (fastforce simp: below_def u(2) children)
        ultimately have "clears i (insert ?c (tk_children u)) o1 o3"
          using clears_more [OF step(1) cleared t _ same] by blast
        moreover have "insert ?c (tk_children u) = tk_children t" using c u(2) by blast
        ultimately show ?thesis
          using False run rest by (simp add: bindX_def task_apply [OF t])
      qed
    qed
  qed
qed

lemma cancel_descendants_ok:
  assumes "owner_ok o1" and "tasks_of o1 i = Some t"
  shows "(\<exists>message o2. cancel_descendants env i first o1 = (Inl (Fatal message), o2))
    \<or> (\<exists>x o2. cancel_descendants env i first o1 = (Inr x, o2) \<and> clears i (tk_children t) o1 o2)"
  using descendants_loop_ok [OF assms order_refl, of env first]
  by (simp add: cancel_descendants_def bindX_def task_apply [OF assms(2)])

end
