(* ===== verification/TaskInv.thy ===== *)
theory TaskInv
  imports TaskTree
begin

text \<open>
  What the operations of an activation keep (\<open>compiler/runtime/src/tasks.rs\<close> and its modules):
  the invariant of the owner, one root, and a current task that has not ended.  An operation that
  raises a fault keeps them too; one that ends the process or panics makes no promise.
\<close>

section \<open>The invariant of an executor\<close>

text \<open>The root of an executor never returns tasks, and no task is left below it when it is terminal.\<close>

definition root_task :: "task \<Rightarrow> bool" where
  "root_task t \<longleftrightarrow> tk_parent t = None \<and> tk_returned t = 0
     \<and> (terminal (tk_state t) \<longrightarrow> tk_children t = {})"

definition root_ok :: "'w owner \<Rightarrow> bool" where
  "root_ok o' \<longleftrightarrow> (\<forall>i t. tasks_of o' i = Some t \<longrightarrow> tk_parent t = None \<longrightarrow> sc_root (ow_core o') = Some i)
     \<and> (\<forall>r. sc_root (ow_core o') = Some r \<longrightarrow> (\<exists>t. tasks_of o' r = Some t \<and> root_task t))"

definition current_ok :: "'w owner \<Rightarrow> bool" where
  "current_ok o' \<longleftrightarrow> (\<forall>i. sc_current (ow_core o') = Some i \<longrightarrow>
     (\<exists>t. tasks_of o' i = Some t \<and> \<not> terminal (tk_state t)))"

text \<open>A task that has ended waits for nothing.\<close>

definition ended_ok :: "'w owner \<Rightarrow> bool" where
  "ended_ok o' \<longleftrightarrow> (\<forall>i t. tasks_of o' i = Some t \<longrightarrow> terminal (tk_state t) \<longrightarrow> tk_external t = None)"

definition exec_ok :: "'w owner \<Rightarrow> bool" where
  "exec_ok o' \<longleftrightarrow> owner_ok o' \<and> root_ok o' \<and> current_ok o' \<and> ended_ok o'"

lemma new_owner_exec_ok: "exec_ok (new_owner w)"
  using new_owner_ok by (auto simp: exec_ok_def root_ok_def current_ok_def ended_ok_def new_owner_def new_sched_def)

lemma exec_okD:
  assumes "exec_ok o'"
  shows "owner_ok o'" "root_ok o'" "current_ok o'"
    "sc_current (ow_core o') = Some i \<Longrightarrow> \<exists>t. tasks_of o' i = Some t \<and> \<not> terminal (tk_state t)"
    "tasks_of o' i = Some t \<Longrightarrow> tk_parent t = None \<Longrightarrow> sc_root (ow_core o') = Some i"
    "sc_root (ow_core o') = Some i \<Longrightarrow> \<exists>t. tasks_of o' i = Some t \<and> root_task t"
    "tasks_of o' i = Some t \<Longrightarrow> terminal (tk_state t) \<Longrightarrow> tk_external t = None" "ended_ok o'"
  using assms unfolding exec_ok_def root_ok_def current_ok_def ended_ok_def by blast+

text \<open>A task that stays at least as harmless as it was.\<close>

definition benign :: "task \<Rightarrow> task \<Rightarrow> bool" where
  "benign t u \<longleftrightarrow> tk_parent u = tk_parent t \<and> (tk_parent t = None \<longrightarrow> tk_returned u = tk_returned t)
     \<and> (terminal (tk_state u) \<longrightarrow> terminal (tk_state t) \<and> tk_children u \<subseteq> tk_children t
          \<and> (tk_external t = None \<longrightarrow> tk_external u = None))"

definition follows :: "'w owner \<Rightarrow> 'w owner \<Rightarrow> bool" where
  "follows o1 o2 \<longleftrightarrow> owner_ok o2 \<and> sc_root (ow_core o2) = sc_root (ow_core o1)
     \<and> sc_current (ow_core o2) = sc_current (ow_core o1)
     \<and> (\<forall>i u. tasks_of o2 i = Some u \<longrightarrow> (\<exists>t. tasks_of o1 i = Some t \<and> benign t u))
     \<and> (\<forall>i. sc_root (ow_core o1) = Some i \<or> sc_current (ow_core o1) = Some i \<longrightarrow> i \<in> dom (tasks_of o2))"

lemma benign_refl [simp]: "benign t t"
  by (simp add: benign_def)

lemma benign_root: "benign t u \<Longrightarrow> root_task t \<Longrightarrow> root_task u"
  by (auto simp: benign_def root_task_def)

lemma follows_exec_ok:
  assumes "exec_ok o1" and "follows o1 o2"
  shows "exec_ok o2"
proof -
  note first = exec_okD [OF assms(1)] and step = assms(2) [unfolded follows_def]
  have "root_ok o2"
    unfolding root_ok_def
  proof (intro conjI allI impI)
    show "sc_root (ow_core o2) = Some i" if "tasks_of o2 i = Some u" "tk_parent u = None" for i u
      using step that first(5) by (metis benign_def)
    show "\<exists>u. tasks_of o2 r = Some u \<and> root_task u" if r: "sc_root (ow_core o2) = Some r" for r
    proof -
      have "r \<in> dom (tasks_of o2)" using step r by simp
      then obtain u where u: "tasks_of o2 r = Some u" by blast
      then obtain t where t: "tasks_of o1 r = Some t" "benign t u" using step by blast
      have "root_task t" using first(6) [of r] r step t(1) by auto
      then show ?thesis using u benign_root [OF t(2)] by blast
    qed
  qed
  moreover have "current_ok o2"
    unfolding current_ok_def
  proof (intro allI impI)
    fix i assume i: "sc_current (ow_core o2) = Some i"
    then have "i \<in> dom (tasks_of o2)" using step by simp
    then obtain u where u: "tasks_of o2 i = Some u" by blast
    then obtain t where t: "tasks_of o1 i = Some t" "benign t u" using step by blast
    have "\<not> terminal (tk_state t)" using first(4) [of i] i step t(1) by auto
    then show "\<exists>u. tasks_of o2 i = Some u \<and> \<not> terminal (tk_state u)"
      using u t(2) by (auto simp: benign_def)
  qed
  moreover have "ended_ok o2"
    unfolding ended_ok_def
  proof (intro allI impI)
    fix i u assume u: "tasks_of o2 i = Some u" "terminal (tk_state u)"
    then obtain t where "tasks_of o1 i = Some t" "benign t u" using step by blast
    then show "tk_external u = None" using u(2) first(7) [of i t] by (auto simp: benign_def)
  qed
  ultimately show ?thesis
    using step by (simp add: exec_ok_def)
qed

text \<open>The ways in which the parts of the owner follow.\<close>

lemma drained_benign:
  assumes "drained t u" "tk_external t = None \<longrightarrow> tk_external u = None"
  shows "benign t u"
  using assms(2) drainedD [OF assms(1)] by (auto simp: benign_def)

lemma settles_follows:
  assumes ok: "exec_ok o1" and step: "settles i o1 o2" and t: "tasks_of o1 i = Some t"
  shows "follows o1 o2"
proof -
  note rest = settles_rest [OF step]
  obtain u where u: "tasks_of o2 i = Some u" "drained t u" "tk_external t = None \<longrightarrow> tk_external u = None"
    using step t by (rule settles_task)
  have same: "tasks_of o2 j = (if j = i then Some u else tasks_of o1 j)" for j
    using rest(4) u(1) by simp
  show ?thesis
    using rest(1,3) same t drained_benign [OF u(2,3)] exec_okD(4,6) [OF ok]
    by (fastforce simp: follows_def same_core_def)
qed

lemma removes_follows:
  assumes ok: "exec_ok o1" and step: "removes i o1 o2"
    and out: "sc_root (ow_core o1) \<noteq> Some i" "\<And>j. sc_current (ow_core o1) = Some j \<Longrightarrow> j \<notin> subtree (tasks_of o1) i"
  shows "follows o1 o2"
proof -
  note exec = exec_okD [OF ok]
  note rem = step [unfolded removes_def]
  have benign: "benign t (drop_child i order t)" for t order
    by (auto simp: benign_def)
  have root: "r \<notin> subtree (tasks_of o1) i" if "sc_root (ow_core o1) = Some r" for r
  proof
    assume sub: "r \<in> subtree (tasks_of o1) i"
    have "r \<noteq> i" using out(1) that by auto
    then obtain p where "(r, p) \<in> parents (tasks_of o1)"
      using sub by (auto simp: subtree_def elim: converse_rtranclE)
    then show False using exec(6) [OF that] by (auto simp: parents_iff root_task_def)
  qed
  have "dom (tasks_of o2) = dom (tasks_of o1) - subtree (tasks_of o1) i"
    using rem dom_cut by metis
  moreover have "\<exists>t. tasks_of o1 j = Some t \<and> benign t u" if "tasks_of o2 j = Some u" for j u
    using that rem benign by (auto simp: cut_Some split: if_splits)
  ultimately show ?thesis
    using rem root out(2) exec(4,6) by (fastforce simp: follows_def same_core_def)
qed

lemma clears_follows:
  assumes ok: "exec_ok o1" and step: "clears i X o1 o2" and t: "tasks_of o1 i = Some t" "X \<subseteq> tk_children t"
    and out: "\<And>j. sc_current (ow_core o1) = Some j \<Longrightarrow> j \<notin> below (tasks_of o1) X"
  shows "follows o1 o2"
proof -
  note exec = exec_okD [OF ok] and tree = tree_okD [OF owner_okD(1) [OF exec_okD(1) [OF ok]]]
  note clears = step [unfolded clears_def]
  obtain u where u: "tasks_of o2 i = Some u" "same_task t u" "tk_children u = tk_children t - X"
    using clears t(1) by blast
  have benign: "benign t u" using u(2,3) by (auto simp: benign_def same_task_def)
  have other: "tasks_of o2 j = (if j = i then Some u else if j \<in> below (tasks_of o1) X then None else tasks_of o1 j)" for j
    using clears u(1) by simp
  have root: "r \<notin> below (tasks_of o1) X" if r: "sc_root (ow_core o1) = Some r" for r
  proof
    assume "r \<in> below (tasks_of o1) X"
    then obtain c where c: "c \<in> X" "r \<in> subtree (tasks_of o1) c" by (auto simp: below_def)
    have "(c, i) \<in> parents (tasks_of o1)" using c(1) t tree(3) [OF t(1)] by blast
    then have "\<exists>p. (r, p) \<in> parents (tasks_of o1)"
      using c(2) by (auto simp: subtree_def elim: converse_rtranclE)
    then show False using exec(6) [OF r] by (auto simp: parents_iff root_task_def)
  qed
  show ?thesis
    unfolding follows_def
  proof (intro conjI allI impI)
    show "owner_ok o2" "sc_root (ow_core o2) = sc_root (ow_core o1)" "sc_current (ow_core o2) = sc_current (ow_core o1)"
      using clears by (simp_all add: same_core_def)
    show "\<exists>t. tasks_of o1 j = Some t \<and> benign t v" if "tasks_of o2 j = Some v" for j v
      using that t(1) benign by (auto simp: other split: if_splits)
    show "j \<in> dom (tasks_of o2)" if "sc_root (ow_core o1) = Some j \<or> sc_current (ow_core o1) = Some j" for j
      using that root [of j] out [of j] exec(4,6) [of j] by (auto simp: other dom_def)
  qed
qed


section \<open>Operations that keep the invariant\<close>

definition fault_keeps :: "stop \<Rightarrow> 'w owner \<Rightarrow> bool" where
  "fault_keeps e o' \<longleftrightarrow> (\<forall>message. e = Fault message \<longrightarrow> exec_ok o')"

definition keeps :: "('w, 'a) act \<Rightarrow> bool" where
  "keeps m \<longleftrightarrow> hoare exec_ok m (\<lambda>_. exec_ok) fault_keeps"

lemma exec_ok_world [simp]: "exec_ok (o'\<lparr>ow_world := w\<rparr>) = exec_ok o'"
  by (simp add: exec_ok_def root_ok_def current_ok_def ended_ok_def)

named_theorems keeps_intros \<open>operations that keep the invariant of the executor\<close>

lemma keepsD:
  assumes "keeps m" "exec_ok o1"
  shows "m o1 = (Inr x, o2) \<Longrightarrow> exec_ok o2" "m o1 = (Inl (Fault message), o2) \<Longrightarrow> exec_ok o2"
  using hoareD_ok [OF assms(1) [unfolded keeps_def] assms(2)] hoareD_stop [OF assms(1) [unfolded keeps_def] assms(2)]
  by (auto simp: fault_keeps_def)

lemma keepsI:
  assumes "\<And>o1 x o2. exec_ok o1 \<Longrightarrow> m o1 = (Inr x, o2) \<Longrightarrow> exec_ok o2"
    and "\<And>o1 message o2. exec_ok o1 \<Longrightarrow> m o1 = (Inl (Fault message), o2) \<Longrightarrow> exec_ok o2"
  shows "keeps m"
  unfolding keeps_def fault_keeps_def by (rule hoareI) (blast intro: assms)+

lemma keeps_bind [keeps_intros]: "keeps m \<Longrightarrow> (\<And>x. keeps (f x)) \<Longrightarrow> keeps (bindX m f)"
  unfolding keeps_def by (rule hoare_bind)

lemma keeps_basic [keeps_intros]:
  "keeps (retX x)" "keeps (stopX e)" "keeps (getX g)" "keeps (getC h)" "keeps (guardX b e)" "keeps (someX v e)"
  "keeps (taskX i)" "keeps (wX w)"
  by (simp_all add: keeps_def hoare_def fault_keeps_def taskX_def bindX_def split: option.split)

lemma keeps_if [keeps_intros]: "keeps m \<Longrightarrow> keeps n \<Longrightarrow> keeps (if b then m else n)"
  by simp

lemma keeps_option [keeps_intros]: "keeps m \<Longrightarrow> (\<And>x. keeps (f x)) \<Longrightarrow> keeps (case v of None \<Rightarrow> m | Some x \<Rightarrow> f x)"
  by (simp split: option.split)

lemma keeps_sum [keeps_intros]:
  "(\<And>x. keeps (f x)) \<Longrightarrow> (\<And>x. keeps (g x)) \<Longrightarrow> keeps (case v of Inl x \<Rightarrow> f x | Inr x \<Rightarrow> g x)"
  by (simp split: sum.split)

lemma keeps_prod [keeps_intros]: "(\<And>x y. keeps (f x y)) \<Longrightarrow> keeps (case v of (x, y) \<Rightarrow> f x y)"
  by (simp split: prod.split)

lemma keeps_let [keeps_intros]: "(\<And>x. keeps (f x)) \<Longrightarrow> keeps (Let v f)"
  by (simp add: Let_def)

lemma keeps_state [keeps_intros]:
  assumes "keeps m1" "keeps m2" "\<And>i. keeps (m3 i)" "keeps m4" "keeps m5" "\<And>n. keeps (m6 n)"
    "\<And>f n. keeps (m7 f n)" "\<And>n. keeps (m8 n)"
  shows "keeps (case s of Queued \<Rightarrow> m1 | Running \<Rightarrow> m2 | Waiting i \<Rightarrow> m3 i | Observing \<Rightarrow> m4 | ExternalWaiting \<Rightarrow> m5
    | Completed n \<Rightarrow> m6 n | Faulted f n \<Rightarrow> m7 f n | Cancelled n \<Rightarrow> m8 n)"
  using assms by (simp split: task_state.split)

text \<open>A change of a task that its tree, its frame and its wait do not see.\<close>

definition harmless :: "(task \<Rightarrow> task) \<Rightarrow> bool" where
  "harmless f \<longleftrightarrow> (\<forall>t. links (f t) = links t \<and> tk_external (f t) = tk_external t \<and> tk_returned (f t) = tk_returned t
     \<and> (terminal (tk_state (f t)) \<longrightarrow> terminal (tk_state t)))"

text \<open>Any change of one task that keeps its links and its wait.\<close>

lemma owner_ok_change:
  assumes ok: "owner_ok o1" and t: "tasks_of o1 i = Some t" and u: "links u = links t" "tk_external u = tk_external t"
    and o2: "tasks_of o2 = (tasks_of o1)(i \<mapsto> u)" "sc_next (ow_core o1) \<le> sc_next (ow_core o2)"
      "sc_pending (ow_core o2) = sc_pending (ow_core o1)" "ow_roots o2 = ow_roots o1" "ow_reactor o2 = ow_reactor o1"
  shows "owner_ok o2"
proof -
  have links: "map_option links (tasks_of o2 j) = map_option links (tasks_of o1 j)" for j
    using t u(1) by (simp add: o2)
  have "tree_ok (tasks_of o2)" by (rule tree_ok_links [OF owner_okD(1) [OF ok] links])
  moreover have "frames_ok o2"
    by (rule frames_ok_links [OF owner_okD(2) [OF ok] links]) (use owner_okD(5) [OF ok] in \<open>simp_all add: o2 same_roots_def\<close>)
  moreover have "waits_ok o2"
    using owner_okD(3) [OF ok] unready_update [of "tasks_of o1" i t u] t u(2) by (auto simp: waits_ok_def o2)
  moreover have "dom (tasks_of o2) = dom (tasks_of o1)" using t by (auto simp: o2)
  then have "ids_ok o2"
    using owner_okD(4) [OF ok] o2(2) unfolding ids_ok_def by (metis order_trans)
  ultimately show ?thesis by (simp add: owner_ok_def)
qed

lemma follows_change:
  assumes ok: "exec_ok o1" and t: "tasks_of o1 i = Some t" and u: "links u = links t" "tk_external u = tk_external t"
    "tk_parent t = None \<longrightarrow> tk_returned u = tk_returned t" "terminal (tk_state u) \<longrightarrow> terminal (tk_state t)"
    and o2: "o2 = o1\<lparr>ow_core := put_task i u (ow_core o1)\<rparr>"
  shows "follows o1 o2"
proof -
  have "owner_ok o2"
    by (rule owner_ok_change [OF exec_okD(1) [OF ok] t u(1,2)]) (simp_all add: o2)
  moreover have "benign t u" using u by (auto simp: benign_def links_def)
  ultimately show ?thesis
    using t exec_okD(4,6) [OF ok] by (fastforce simp: follows_def o2)
qed

lemma keeps_update [keeps_intros]: "harmless f \<Longrightarrow> keeps (updX i f)"
proof (rule keepsI)
  fix o1 o2 :: "'a owner" and x assume f: "harmless f" and ok: "exec_ok o1" and run: "updX i f o1 = (Inr x, o2)"
  then obtain t where t: "tasks_of o1 i = Some t" and o2: "o2 = o1\<lparr>ow_core := put_task i (f t) (ow_core o1)\<rparr>"
    by (cases "tasks_of o1 i") (auto simp: updX_def taskX_def bindX_def)
  show "exec_ok o2"
    by (rule follows_exec_ok [OF ok follows_change [OF ok t _ _ _ _ o2]]) (use f in \<open>auto simp: harmless_def\<close>)
qed (auto simp: updX_def taskX_def bindX_def split: option.splits)

text \<open>A change of the ready queue.\<close>

lemma exec_ok_ready [simp]: "exec_ok (o'\<lparr>ow_core := (ow_core o')\<lparr>sc_ready := ready\<rparr>\<rparr>) = exec_ok o'"
  by (simp add: exec_ok_def owner_ok_def frames_ok_def waits_ok_def ids_ok_def root_ok_def current_ok_def ended_ok_def)

lemma keeps_ready [keeps_intros]:
  "keeps (modC (push_back i))" "keeps (modC (push_front i))" "keeps (modC (\<lambda>core. core\<lparr>sc_ready := g core\<rparr>))"
  by (simp_all add: keeps_def hoare_def push_back_def push_front_def)

lemma keeps_push [keeps_intros]: "keeps (modC (if b then push_front i else push_back i))"
  by (simp add: keeps_ready)

text \<open>The accessors of the frames read only.\<close>

lemma keeps_frame [keeps_intros]: "keeps (rootsX (fr_get r))"
  using fr_get_roots owner_okD(5) [OF exec_okD(1)] by (fastforce simp: keeps_def hoare_def store_wf_def)


text \<open>Giving back the resources of a task.\<close>

lemma settling_keeps:
  assumes "settling i m" and "\<And>o1. tasks_of o1 i = None \<Longrightarrow> fst (m o1) = Inl Panic"
  shows "keeps m"
proof (rule keepsI)
  fix o1 o2 :: "'a owner" and x assume ok: "exec_ok o1" and run: "m o1 = (Inr x, o2)"
  then obtain t where t: "tasks_of o1 i = Some t" using assms(2) by (cases "tasks_of o1 i") fastforce+
  have "settles i o1 o2" using assms(1) exec_okD(1) [OF ok] t run unfolding settling_def by fastforce
  then show "exec_ok o2" using follows_exec_ok [OF ok settles_follows [OF ok _ t]] by blast
next
  fix o1 o2 :: "'a owner" and message assume ok: "exec_ok o1" and run: "m o1 = (Inl (Fault message), o2)"
  then obtain t where t: "tasks_of o1 i = Some t" using assms(2) by (cases "tasks_of o1 i") fastforce+
  show "exec_ok o2" using assms(1) exec_okD(1) [OF ok] t run unfolding settling_def by fastforce
qed

lemma no_task [simp]: "tasks_of o' i = None \<Longrightarrow> taskX i o' = (Inl Panic, o')"
  by (simp add: taskX_def bindX_def)

lemma keeps_resources [keeps_intros]:
  "keeps (cancel_wait env i)" "keeps (cancel_operation env i)" "keeps (drain_cleanups env i first)"
  by (rule settling_keeps, rule settling_intros, simp add: cancel_wait_def cancel_operation_def drain_cleanups_def bindX_def)+

lemma harmless_intros [keeps_intros]:
  "harmless (\<lambda>t. t\<lparr>tk_cleanups := cs t\<rparr>)" "harmless (\<lambda>t. t\<lparr>tk_waiter := w t\<rparr>)" "harmless (\<lambda>t. t\<lparr>tk_observation := g t\<rparr>)"
  "harmless (\<lambda>t. t\<lparr>tk_computation := job t\<rparr>)" "harmless (\<lambda>t. t\<lparr>tk_operation := op t\<rparr>)"
  "harmless (\<lambda>t. t\<lparr>tk_result_extracted := b t, tk_cleanups := cs t\<rparr>)" "harmless (\<lambda>t. t\<lparr>tk_returned_to_parent := b t\<rparr>)"
  "harmless (\<lambda>t. t\<lparr>tk_state := Running, tk_waiter := w t\<rparr>)"
  "harmless (\<lambda>t. t\<lparr>tk_state := Running\<rparr>)" "harmless (\<lambda>t. t\<lparr>tk_state := Queued\<rparr>)" "harmless (\<lambda>t. t\<lparr>tk_state := Waiting i\<rparr>)"
  "harmless (\<lambda>t. t\<lparr>tk_state := (if c then Observing else Running)\<rparr>)"
  by (auto simp: harmless_def links_def)

lemma keeps_parentX [keeps_intros]: "keeps (parentX child)" "keeps (currentX message)"
  unfolding parentX_def currentX_def by (intro keeps_intros)+

lemma keeps_cleanups [keeps_intros]:
  "keeps (task_cleanup_push site callback)" "keeps (task_result_cleanup_push callback)" "keeps (task_cleanup_pop site)"
  unfolding task_cleanup_push_def task_result_cleanup_push_def task_cleanup_pop_def by (intro keeps_intros)+

lemma keeps_await [keeps_intros]: "keeps (task_await child)" "keeps (task_peek_result child)"
  unfolding task_await_def task_peek_result_def by (intro keeps_intros)+

lemma keeps_observe [keeps_intros]: "keeps (task_observe child n)" "keeps task_wait_next"
  unfolding task_observe_def task_wait_next_def by (intro keeps_intros)+

lemma keeps_select [keeps_intros]: "keeps (select_event i message selected)"
  unfolding select_event_def by (intro keeps_intros)

lemma keeps_next [keeps_intros]:
  "keeps task_next_result" "keeps task_next_terminal_result" "keeps task_next_terminal_index" "keeps task_next_terminal_failure"
  unfolding task_next_result_def task_next_terminal_result_def task_next_terminal_index_def task_next_terminal_failure_def
  by (intro keeps_intros)+

lemma keeps_outcomes [keeps_intros]: "keeps (awaited child)" "keeps (task_status child)" "keeps (task_failure child)"
  unfolding task_status_def task_failure_def awaited_def by (intro keeps_intros)+

lemma keeps_worker_result [keeps_intros]: "keeps (task_worker_result env)"
  unfolding task_worker_result_def by (intro keeps_intros)

lemma keeps_validate [keeps_intros]: "keeps (validate_return i status)"
  unfolding validate_return_def by (intro keeps_intros)

lemma keeps_observation [keeps_intros]: "keeps (observation_completed parent child)" "keeps (observation_remove child)"
  unfolding observation_completed_def observation_remove_def by (intro keeps_intros)+

lemma keeps_wake [keeps_intros]: "keeps (wake_waiter i)"
  unfolding wake_waiter_def by (intro keeps_intros)

section \<open>The operations that change the tree\<close>

lemma keeps_next_stamp [keeps_intros]: "keeps next_stamp"
proof (rule keepsI)
  fix o1 o2 :: "'a owner" and n assume ok: "exec_ok o1" and run: "next_stamp o1 = (Inr n, o2)"
  then have o2: "o2 = o1\<lparr>ow_core := (ow_core o1)\<lparr>sc_next := sc_next (ow_core o1) + 1\<rparr>\<rparr>"
    by (auto simp: next_stamp_def bindX_def split: option.splits)
  have "ids_ok o2"
    using owner_okD(4) [OF exec_okD(1) [OF ok]] by (simp add: o2 ids_ok_def le_SucI)
  then have "owner_ok o2"
    using exec_okD(1) [OF ok] by (simp add: o2 owner_ok_def frames_ok_def waits_ok_def)
  then show "exec_ok o2"
    using exec_okD(2,3,8) [OF ok] by (simp add: exec_ok_def root_ok_def current_ok_def ended_ok_def o2)
qed (auto simp: next_stamp_def bindX_def split: option.splits)

text \<open>\<open>task_return\<close> counts on a task that has a parent.\<close>

lemma keeps_return [keeps_intros]: "keeps (task_return child)"
proof (rule keepsI)
  fix o1 o2 :: "'a owner" and x assume ok: "exec_ok o1" and run: "task_return child o1 = (Inr x, o2)"
  obtain i c t where i: "sc_current (ow_core o1) = Some i" and c: "tasks_of o1 i = Some c" "tk_parent c \<noteq> None"
    and t: "tasks_of o1 child = Some t" "tk_parent t = Some i"
    using run by (auto simp: task_return_def parentX_def bindX_def taskX_def updX_def split: option.splits if_splits)
  have ne: "child \<noteq> i"
    using acyclic_not_below [OF tree_okD(2) [OF owner_okD(1) [OF exec_okD(1) [OF ok]]], of child i] t
    by (auto simp: parents_iff)
  let ?o = "o1\<lparr>ow_core := put_task child (t\<lparr>tk_returned_to_parent := True\<rparr>) (ow_core o1)\<rparr>"
  have step: "exec_ok ?o"
    by (rule follows_exec_ok [OF ok follows_change [OF ok t(1) _ _ _ _ refl]]) (simp_all add: links_def)
  have o2: "o2 = ?o\<lparr>ow_core := put_task i (c\<lparr>tk_returned := tk_returned c + 1\<rparr>) (ow_core ?o)\<rparr>"
    using run i c t ne
    by (auto simp: task_return_def parentX_def bindX_def task_apply split: if_splits)
  have c': "tasks_of ?o i = Some c" using c ne by simp
  show "exec_ok o2"
    by (rule follows_exec_ok [OF step follows_change [OF step c' _ _ _ _ o2]]) (use c in \<open>simp_all add: links_def\<close>)
next
  fix o1 o2 :: "'a owner" and message assume ok: "exec_ok o1" and run: "task_return child o1 = (Inl (Fault message), o2)"
  then have "o2 = o1"
    by (auto simp: task_return_def parentX_def bindX_def taskX_def updX_def split: option.splits if_splits)
  then show "exec_ok o2" using ok by simp
qed


text \<open>
  Moving a child to another task of the tree: not to itself, nor below it.  The intermediate states
  are not trees, so the move is proved as a whole.
\<close>

definition moved :: "nat \<Rightarrow> nat \<Rightarrow> nat \<Rightarrow> tasks \<Rightarrow> tasks" where
  "moved child previous new T =
     (let T1 = T(previous \<mapsto> (the (T previous))\<lparr>tk_children := tk_children (the (T previous)) - {child}\<rparr>);
          T2 = T1(new \<mapsto> (the (T1 new))\<lparr>tk_children := insert child (tk_children (the (T1 new)))\<rparr>)
      in T2(child \<mapsto> (the (T2 child))\<lparr>tk_parent := Some new, tk_returned_to_parent := False\<rparr>))"

lemma reparent_eq:
  assumes "tasks_of o1 previous = Some p" "child \<in> tk_children p" "tasks_of o1 new = Some n" "child \<notin> tk_children n"
    and "tasks_of o1 child = Some t" and "previous \<noteq> new" "child \<noteq> previous" "child \<noteq> new"
  shows "reparent child previous new o1
    = (Inr (), o1\<lparr>ow_core := (ow_core o1)\<lparr>sc_tasks := moved child previous new (tasks_of o1)\<rparr>\<rparr>)"
  using assms by (simp add: reparent_def bindX_def task_apply moved_def put_task_def Let_def)

lemma moved_tree:
  assumes ok: "tree_ok T" and t: "T child = Some t" "tk_parent t = Some previous" and n: "T new = Some n"
    and ne: "previous \<noteq> new" and out: "new \<notin> subtree T child"
  shows "tree_ok (moved child previous new T)"
    and "parents (moved child previous new T) = parents T - {(child, previous)} \<union> {(child, new)}"
    and "T j = Some u \<Longrightarrow> \<exists>v. moved child previous new T j = Some v \<and> tk_frame v = tk_frame u \<and> tk_external v = tk_external u
      \<and> tk_state v = tk_state u \<and> tk_returned v = tk_returned u \<and> tk_parent v = (if j = child then Some new else tk_parent u)
      \<and> tk_children v = (if j = previous then tk_children u - {child} else if j = new then insert child (tk_children u) else tk_children u)"
    and "dom (moved child previous new T) = dom T"
proof -
  note tree = tree_okD [OF ok]
  have link: "(child, previous) \<in> parents T" using t by (simp add: parents_iff)
  obtain p where p: "T previous = Some p" using tree(4) [OF link] by blast
  have distinct: "child \<noteq> previous" "child \<noteq> new"
    using acyclic_not_below [OF tree(2) link] out by auto
  let ?M = "moved child previous new T"
  show task: "\<exists>v. ?M j = Some v \<and> tk_frame v = tk_frame u \<and> tk_external v = tk_external u
      \<and> tk_state v = tk_state u \<and> tk_returned v = tk_returned u \<and> tk_parent v = (if j = child then Some new else tk_parent u)
      \<and> tk_children v = (if j = previous then tk_children u - {child} else if j = new then insert child (tk_children u) else tk_children u)"
    if "T j = Some u" for j u
    using that p n t distinct ne by (auto simp: moved_def Let_def)
  show dom: "dom ?M = dom T"
    using p n t by (auto simp: moved_def Let_def)
  have parent: "(j, q) \<in> parents ?M \<longleftrightarrow> j \<in> dom T \<and> (if j = child then q = new else (j, q) \<in> parents T)" for j q
  proof (cases "T j")
    case None
    then show ?thesis using dom by (auto simp: parents_iff)
  next
    case (Some u)
    then show ?thesis using task [OF Some] by (auto simp: parents_iff)
  qed
  show parents: "parents ?M = parents T - {(child, previous)} \<union> {(child, new)}"
    using parent t tree(6) parents_fun [OF link] by (auto split: if_splits)
  show "tree_ok ?M"
    unfolding tree_ok_def
  proof (intro conjI allI impI)
    show "finite (dom ?M)" using tree(1) by (simp add: dom)
    have "parents T - {(child, previous)} \<subseteq> parents T" by blast
    then have "acyclic (parents T - {(child, previous)})" using tree(2) acyclic_subset by blast
    moreover have "(new, child) \<notin> (parents T - {(child, previous)})\<^sup>*"
      using out rtrancl_mono [of "parents T - {(child, previous)}" "parents T"] by (auto simp: subtree_def)
    ultimately show "acyclic (parents ?M)" unfolding parents by (simp add: acyclic_insert)
    show "q \<in> dom ?M" if "(j, q) \<in> parents ?M" for j q
      using that n tree(4) by (auto simp: parents dom)
    show "tk_children v = {c. (c, q) \<in> parents ?M}" if v: "?M q = Some v" for q v
    proof -
      have "q \<in> dom T" using v dom by blast
      then obtain u where u: "T q = Some u" by blast
      have "tk_children v = (if q = previous then tk_children u - {child} else if q = new then insert child (tk_children u) else tk_children u)"
        using task [OF u] v by auto
      moreover have "tk_children u = {c. (c, q) \<in> parents T}" by (rule tree(3) [OF u])
      moreover have "(child, q) \<in> parents T \<longleftrightarrow> q = previous" using parents_fun [OF link] link by blast
      ultimately show ?thesis using ne by (auto simp: parents)
    qed
  qed
qed

lemma moved_exec_ok:
  assumes ok: "exec_ok o1" and t: "tasks_of o1 child = Some t" "tk_parent t = Some previous" and n: "tasks_of o1 new = Some n"
    and ne: "previous \<noteq> new" and out: "new \<notin> subtree (tasks_of o1) child" and live: "\<not> terminal (tk_state n)"
    and o2: "o2 = o1\<lparr>ow_core := (ow_core o1)\<lparr>sc_tasks := moved child previous new (tasks_of o1)\<rparr>\<rparr>"
  shows "exec_ok o2"
proof -
  let ?M = "moved child previous new (tasks_of o1)"
  note moved = moved_tree [OF owner_okD(1) [OF exec_okD(1) [OF ok]] t n ne out]
  note exec = exec_okD [OF ok]
  have back_to: "\<exists>u. tasks_of o1 j = Some u \<and> tk_frame v = tk_frame u \<and> tk_external v = tk_external u
      \<and> tk_state v = tk_state u \<and> tk_returned v = tk_returned u \<and> tk_parent v = (if j = child then Some new else tk_parent u)
      \<and> tk_children v = (if j = previous then tk_children u - {child} else if j = new then insert child (tk_children u) else tk_children u)"
    if v: "?M j = Some v" for j v
  proof -
    have "j \<in> dom (tasks_of o1)" using v moved(4) by blast
    then obtain u where "tasks_of o1 j = Some u" by blast
    then show ?thesis using moved(3) [of j u] v by auto
  qed
  have "frames_ok o2"
    unfolding frames_ok_def
  proof (intro conjI allI impI)
    show "store_wf (ow_roots o2)" using owner_okD(5) [OF exec(1)] by (simp add: o2)
    show "roots_of (ow_roots o2) (tk_frame v) \<noteq> None" if "tasks_of o2 j = Some v" for j v
      using back_to [of j v] that owner_okD(6) [OF exec(1)] by (auto simp: o2)
    show "j = k" if uv: "tasks_of o2 j = Some u" "tasks_of o2 k = Some v" "tk_frame u = tk_frame v" for j k u v
    proof -
      obtain u' where u': "tasks_of o1 j = Some u'" "tk_frame u = tk_frame u'"
        using back_to [of j u] uv(1) by (auto simp: o2)
      obtain v' where v': "tasks_of o1 k = Some v'" "tk_frame v = tk_frame v'"
        using back_to [of k v] uv(2) by (auto simp: o2)
      show ?thesis
        by (rule owner_okD(7) [OF exec(1) u'(1) v'(1)]) (use u'(2) v'(2) uv(3) in simp)
    qed
    show "\<exists>j v. tasks_of o2 j = Some v \<and> tk_frame v = r" if r: "roots_of (ow_roots o2) r \<noteq> None" for r
    proof -
      have "roots_of (ow_roots o1) r \<noteq> None" using r by (simp add: o2)
      then obtain j u where "tasks_of o1 j = Some u" "tk_frame u = r" using owner_okD(8) [OF exec(1)] by blast
      then show ?thesis using moved(3) [of j u] by (auto simp: o2)
    qed
  qed
  moreover have "waits_ok o2"
  proof -
    have "unready ?M = unready (tasks_of o1)"
      unfolding unready_def using back_to moved(3) by (fastforce simp: set_eq_iff)
    moreover have "tk_external v = None" if "ow_reactor o1 = None" "?M j = Some v" for j v
      using back_to [OF that(2)] owner_okD(3) [OF exec(1)] that(1) by (auto simp: waits_ok_def)
    ultimately show ?thesis using owner_okD(3) [OF exec(1)] by (auto simp: waits_ok_def o2)
  qed
  moreover have "ids_ok o2"
    using owner_okD(4) [OF exec(1)] moved(4) by (simp add: ids_ok_def o2)
  ultimately have "owner_ok o2" using moved(1) by (simp add: owner_ok_def o2)
  moreover have "root_ok o2"
    unfolding root_ok_def
  proof (intro conjI allI impI)
    show "sc_root (ow_core o2) = Some j" if "tasks_of o2 j = Some v" "tk_parent v = None" for j v
      using back_to [of j v] that exec(5) by (auto simp: o2 split: if_splits)
    show "\<exists>v. tasks_of o2 r = Some v \<and> root_task v" if r: "sc_root (ow_core o2) = Some r" for r
    proof -
      have root: "sc_root (ow_core o1) = Some r" using r by (simp add: o2)
      obtain u where u: "tasks_of o1 r = Some u" "root_task u" using exec(6) [OF root] by blast
      have "r \<noteq> child" using u t by (auto simp: root_task_def)
      then show ?thesis
        using moved(3) [OF u(1)] u n live by (auto simp: o2 root_task_def)
    qed
  qed
  moreover have "current_ok o2"
    using exec(4) moved(3) unfolding current_ok_def o2 by fastforce
  moreover have "ended_ok o2"
    unfolding ended_ok_def
  proof (intro allI impI)
    fix j v assume v: "tasks_of o2 j = Some v" "terminal (tk_state v)"
    then show "tk_external v = None" using back_to [of j v] exec(7) by (auto simp: o2)
  qed
  ultimately show ?thesis by (simp add: exec_ok_def)
qed


lemma keeps_adopt [keeps_intros]: "keeps (task_adopt callee child)"
proof (rule keepsI)
  fix o1 o2 :: "'a owner" and x assume ok: "exec_ok o1" and run: "task_adopt callee child o1 = (Inr x, o2)"
  note tree = tree_okD [OF owner_okD(1) [OF exec_okD(1) [OF ok]]]
  obtain i e t where i: "sc_current (ow_core o1) = Some i" and e: "tasks_of o1 callee = Some e" "tk_parent e = Some i" "tk_state e = Queued"
    and t: "tasks_of o1 child = Some t" "tk_parent t = Some i" and ne: "callee \<noteq> child"
    and move: "reparent child i callee o1 = (Inr x, o2)"
    using run by (auto simp: task_adopt_def parentX_def bindX_def taskX_def split: option.splits if_splits)
  have links: "(child, i) \<in> parents (tasks_of o1)" "(callee, i) \<in> parents (tasks_of o1)"
    using e t by (auto simp: parents_iff)
  obtain c where c: "tasks_of o1 i = Some c" using tree(4) [OF links(1)] by blast
  have out: "callee \<notin> subtree (tasks_of o1) child"
    using subtree_siblings [OF tree(2) links ne [symmetric]] subtree_refl by blast
  have distinct: "i \<noteq> callee" "child \<noteq> i" "child \<noteq> callee"
    using acyclic_not_below [OF tree(2) links(1)] acyclic_not_below [OF tree(2) links(2)] ne by auto
  have "child \<in> tk_children c" "child \<notin> tk_children e"
    using links tree(3) [OF c] tree(3) [OF e(1)] parents_fun distinct by blast+
  then have "o2 = o1\<lparr>ow_core := (ow_core o1)\<lparr>sc_tasks := moved child i callee (tasks_of o1)\<rparr>\<rparr>"
    using reparent_eq [OF c _ e(1) _ t(1) distinct(1,2,3)] move by simp
  then show "exec_ok o2"
    by (intro moved_exec_ok [OF ok t e(1) distinct(1) out]) (use e in simp_all)
next
  fix o1 o2 :: "'a owner" and message assume ok: "exec_ok o1" and run: "task_adopt callee child o1 = (Inl (Fault message), o2)"
  have "o2 = o1"
    using run by (auto simp: task_adopt_def parentX_def bindX_def taskX_def updX_def reparent_def split: option.splits if_splits)
  then show "exec_ok o2" using ok by simp
qed

text \<open>The extraction moves children of \<open>child\<close> to its parent, the running task.\<close>

lemma extract_keeps:
  assumes "exec_ok o1" and "tasks_of o1 child = Some t" "tk_parent t = Some parent"
    and "tasks_of o1 parent = Some p" "\<not> terminal (tk_state p)"
  shows "extract_loop n child parent o1 = (r, o2) \<Longrightarrow> (\<exists>x. r = Inr x) \<or> (\<exists>m. r = Inl (Fault m)) \<Longrightarrow> exec_ok o2"
  using assms
proof (induction n arbitrary: o1 t p)
  case 0
  then show ?case by (auto simp: bindX_def task_apply split: if_splits)
next
  case (Suc n)
  note ok = Suc.prems(3) and t = Suc.prems(4,5) and p = Suc.prems(6,7)
  note tree = tree_okD [OF owner_okD(1) [OF exec_okD(1) [OF ok]]]
  have link: "(child, parent) \<in> parents (tasks_of o1)" using t by (simp add: parents_iff)
  show ?case
  proof (cases "tk_children t = {}")
    case True
    then show ?thesis using Suc.prems by (simp add: bindX_def task_apply)
  next
    case False
    let ?r = "Min (tk_children t)"
    have r: "?r \<in> tk_children t" using False tree(5) [OF t(1)] by simp
    then have below: "(?r, child) \<in> parents (tasks_of o1)" using tree(3) [OF t(1)] by blast
    then obtain u where u: "tasks_of o1 ?r = Some u" "tk_parent u = Some child" by (auto simp: parents_iff)
    have "parent \<notin> subtree (tasks_of o1) child" by (rule acyclic_not_below [OF tree(2) link])
    moreover have "?r \<in> subtree (tasks_of o1) child" using subtree_step [OF below subtree_refl] .
    ultimately have out: "parent \<notin> subtree (tasks_of o1) ?r" using subtree_trans by blast
    have distinct: "child \<noteq> parent" "?r \<noteq> child" "?r \<noteq> parent"
      using acyclic_not_below [OF tree(2) link] acyclic_not_below [OF tree(2) below] out by auto
    have "?r \<notin> tk_children p" using below tree(3) [OF p(1)] parents_fun distinct(1) by blast
    let ?o = "o1\<lparr>ow_core := (ow_core o1)\<lparr>sc_tasks := moved ?r child parent (tasks_of o1)\<rparr>\<rparr>"
    have move: "reparent ?r child parent o1 = (Inr (), ?o)"
      by (rule reparent_eq [OF t(1) r p(1) \<open>?r \<notin> tk_children p\<close> u(1) distinct(1,2,3)])
    have step: "exec_ok ?o"
      by (rule moved_exec_ok [OF ok u p(1) distinct(1) out p(2) refl])
    note moved = moved_tree(3) [OF owner_okD(1) [OF exec_okD(1) [OF ok]] u p(1) distinct(1) out]
    obtain t' where t': "tasks_of ?o child = Some t'" "tk_parent t' = Some parent"
      using moved [OF t(1)] t(2) distinct by auto
    obtain p' where p': "tasks_of ?o parent = Some p'" "\<not> terminal (tk_state p')"
      using moved [OF p(1)] p(2) by auto
    show ?thesis
    proof (cases "tk_parent u = Some child \<and> tk_waiter u = None \<and> tk_returned_to_parent u")
      case True
      then have rest: "extract_loop n child parent ?o = (r, o2)"
        using Suc.prems(1) False by (simp add: bindX_def task_apply t u move)
      show ?thesis by (rule Suc.IH [OF rest Suc.prems(2) step t' p'])
    next
      case no: False
      then show ?thesis
        using Suc.prems(1) False ok by (auto simp: bindX_def task_apply t u)
    qed
  qed
qed


lemma keeps_bind_at:
  assumes "bindX m f o1 = (r, o2)" "(\<exists>x. r = Inr x) \<or> (\<exists>m. r = Inl (Fault m))"
    and "\<And>r' o3. m o1 = (r', o3) \<Longrightarrow> (\<exists>x. r' = Inr x) \<or> (\<exists>m. r' = Inl (Fault m)) \<Longrightarrow> exec_ok o3"
    and "\<And>x. keeps (f x)"
  shows "exec_ok o2"
proof (cases "m o1")
  case (Pair r' o3)
  show ?thesis
  proof (cases r')
    case (Inl e)
    then show ?thesis using assms(1,2) assms(3) [OF Pair] Pair by (auto simp: bindX_def)
  next
    case (Inr x)
    then have "exec_ok o3" using assms(3) [OF Pair] by blast
    moreover have "f x o3 = (r, o2)" using assms(1) Pair Inr by (simp add: bindX_def)
    ultimately show ?thesis using assms(2) keepsD [OF assms(4)] by blast
  qed
qed

lemma keeps_result [keeps_intros]: "keeps (task_result child)"
proof -
  let ?tail = "\<lambda>_. bindX (updX child (\<lambda>t. t\<lparr>tk_result_extracted := True, tk_cleanups := []\<rparr>)) (\<lambda>_.
      bindX (taskX child) (\<lambda>t. retX t))"
  have "exec_ok o2" if ok: "exec_ok o1" and run: "task_result child o1 = (r, o2)"
      and r: "(\<exists>x. r = Inr x) \<or> (\<exists>m. r = Inl (Fault m))" for r and o1 o2 :: "'a owner"
  proof (cases "parentX child o1")
    case (Pair r1 o3)
    have o3: "o3 = o1" using Pair by (auto simp: parentX_def bindX_def split: option.splits if_splits)
    show ?thesis
    proof (cases r1)
      case (Inl e)
      then show ?thesis using run ok Pair o3 by (auto simp: task_result_def bindX_def)
    next
      case (Inr parent)
      then obtain t where cur: "sc_current (ow_core o1) = Some parent" and t: "tasks_of o1 child = Some t" "tk_parent t = Some parent"
        using Pair by (auto simp: parentX_def bindX_def split: option.splits if_splits)
      obtain p where p: "tasks_of o1 parent = Some p" "\<not> terminal (tk_state p)"
        using exec_okD(4) [OF ok cur] by blast
      let ?move = "if tk_returned t = 0 then retX ()
           else bindX (guardX (card (tk_children t) = tk_returned t) (Fault ''task result already extracted'')) (\<lambda>_.
             extract_loop (card (tk_children t)) child parent)"
      let ?rest = "bindX (updX child (\<lambda>t. t\<lparr>tk_result_extracted := True, tk_cleanups := []\<rparr>)) (\<lambda>_.
         bindX (rootsX (fr_get (tk_frame t))) (\<lambda>pointer. bindX (someX pointer Panic) (\<lambda>pointer. retX (Inr pointer))))
         :: ('a, owned_fault + nat) act"
      have extracted: "exec_ok o4" if "?move o1 = (r', o4)" "(\<exists>x. r' = Inr x) \<or> (\<exists>m. r' = Inl (Fault m))" for r' o4
        using that ok extract_keeps [OF ok t p] by (auto simp: bindX_def split: if_splits)
      have rest: "keeps ?rest" by (intro keeps_intros)
      have move: "exec_ok o4" if "bindX ?move (\<lambda>_. ?rest) o1 = (r, o4)" for o4
        by (rule keeps_bind_at [OF that r extracted rest])
      show ?thesis
      proof (cases "tk_waiter t = Some parent")
        case False
        then show ?thesis using run ok Pair o3 Inr t by (auto simp: task_result_def bindX_def task_apply)
      next
        case True
        then show ?thesis
        proof (cases "\<exists>n. tk_state t = Completed n")
          case completed: True
          then show ?thesis
          proof (cases "tk_result_extracted t")
            case True
            then show ?thesis using completed \<open>tk_waiter t = Some parent\<close> run ok Pair o3 Inr t
              by (auto simp: task_result_def bindX_def task_apply)
          next
            case False
            have "task_result child o1 = bindX ?move (\<lambda>_. ?rest) o1"
              using completed False \<open>tk_waiter t = Some parent\<close> Pair o3 Inr t unfolding task_result_def
              by (auto simp: bindX_apply task_apply)
            then show ?thesis using move run by simp
          qed
        next
          case no: False
          then show ?thesis using \<open>tk_waiter t = Some parent\<close> run ok Pair o3 Inr t
            by (cases "tk_state t") (auto simp: task_result_def bindX_def task_apply)
        qed
      qed
    qed
  qed
  then show ?thesis by (intro keepsI) blast+
qed

text \<open>The first task is the root; every other task is a child of the running task.\<close>

lemma create_tree:
  assumes ok: "exec_ok o1" and new: "tasks_of o1 i = None" and t: "tk_children t = {}" "tk_external t = None" "\<not> terminal (tk_state t)"
    and frame: "store_wf (ow_roots o2)" "roots_of (ow_roots o2) = (roots_of (ow_roots o1))(tk_frame t \<mapsto> pointer)"
      "roots_of (ow_roots o1) (tk_frame t) = None"
    and o2: "ow_reactor o2 = ow_reactor o1" "sc_pending (ow_core o2) = sc_pending (ow_core o1)"
      "sc_next (ow_core o1) < i" "i = sc_next (ow_core o2)" "sc_current (ow_core o2) = sc_current (ow_core o1)"
    and placed: "case sc_current (ow_core o1) of
        Some p \<Rightarrow> tk_parent t = Some p \<and> sc_root (ow_core o2) = sc_root (ow_core o1)
          \<and> tasks_of o2 = (tasks_of o1)(i \<mapsto> t, p \<mapsto> (the (tasks_of o1 p))\<lparr>tk_children := insert i (tk_children (the (tasks_of o1 p)))\<rparr>)
      | None \<Rightarrow> tk_parent t = None \<and> tk_returned t = 0 \<and> sc_root (ow_core o1) = None \<and> sc_root (ow_core o2) = Some i
          \<and> tasks_of o2 = (tasks_of o1)(i \<mapsto> t)"
  shows "exec_ok o2"
proof -
  note exec = exec_okD [OF ok] and tree = tree_okD [OF owner_okD(1) [OF exec_okD(1) [OF ok]]]
  let ?T = "tasks_of o1" and ?cur = "sc_current (ow_core o1)"
  have cur: "\<exists>u. ?T p = Some u \<and> \<not> terminal (tk_state u) \<and> p \<noteq> i" if "?cur = Some p" for p
    using exec(4) [OF that] new by auto
  have parent: "tk_parent t = ?cur" using placed by (simp split: option.splits)
  have task: "tasks_of o2 j = (if j = i then Some t else if ?cur = Some j then
      Some ((the (?T j))\<lparr>tk_children := insert i (tk_children (the (?T j)))\<rparr>) else ?T j)" for j
    using placed cur by (auto split: option.splits)
  have old: "\<exists>u. ?T j = Some u \<and> tk_frame v = tk_frame u \<and> tk_external v = tk_external u \<and> tk_state v = tk_state u
      \<and> tk_returned v = tk_returned u \<and> tk_parent v = tk_parent u
      \<and> tk_children v = (if ?cur = Some j then insert i (tk_children u) else tk_children u)"
    if "tasks_of o2 j = Some v" "j \<noteq> i" for j v
    using that cur [of j] by (auto simp: task split: if_splits)
  have kept: "\<exists>v. tasks_of o2 j = Some v \<and> tk_frame v = tk_frame u \<and> tk_external v = tk_external u \<and> tk_state v = tk_state u
      \<and> tk_returned v = tk_returned u \<and> tk_parent v = tk_parent u" if "?T j = Some u" for j u
    using that new by (auto simp: task)
  have at: "tasks_of o2 i = Some t" by (simp add: task)
  have dom: "dom (tasks_of o2) = insert i (dom ?T)"
    using old kept at by (fastforce simp: dom_def)
  have parents: "parents (tasks_of o2) = parents ?T \<union> {(i, p) | p. ?cur = Some p}"
    using old kept at parent new by (fastforce simp: parents_def)
  have fresh: "(c, i) \<notin> parents ?T" "(i, c) \<notin> parents ?T" for c
    using tree(4,6) new by blast+
  have "tree_ok (tasks_of o2)"
    unfolding tree_ok_def
  proof (intro conjI allI impI)
    show "finite (dom (tasks_of o2))" using tree(1) by (simp add: dom)
    show "acyclic (parents (tasks_of o2))"
    proof (cases ?cur)
      case (Some p)
      have "p \<noteq> i" using cur Some by blast
      then have "(p, i) \<notin> (parents ?T)\<^sup>*" using fresh by (auto elim: rtranclE)
      then show ?thesis using tree(2) Some by (simp add: parents acyclic_insert)
    qed (use tree(2) parents in simp)
    show "q \<in> dom (tasks_of o2)" if "(c, q) \<in> parents (tasks_of o2)" for c q
      using that tree(4) cur by (auto simp: parents dom)
    show "tk_children v = {c. (c, q) \<in> parents (tasks_of o2)}" if v: "tasks_of o2 q = Some v" for q v
    proof (cases "q = i")
      case True
      then show ?thesis using v at t(1) fresh cur by (auto simp: parents)
    next
      case False
      then obtain u where u: "?T q = Some u" "tk_children v = (if ?cur = Some q then insert i (tk_children u) else tk_children u)"
        using old [OF v] by blast
      then show ?thesis using tree(3) [OF u(1)] by (auto simp: parents)
    qed
  qed
  moreover have "frames_ok o2"
    unfolding frames_ok_def
  proof (intro conjI allI impI)
    show "store_wf (ow_roots o2)" by (rule frame(1))
    show "roots_of (ow_roots o2) (tk_frame v) \<noteq> None" if "tasks_of o2 j = Some v" for j v
      using old [OF that] at that owner_okD(6) [OF exec(1)] frame(2) by (cases "j = i") auto
    show "j = k" if uv: "tasks_of o2 j = Some u" "tasks_of o2 k = Some v" "tk_frame u = tk_frame v" for j k u v
    proof -
      have "tk_frame v \<noteq> tk_frame t" if "tasks_of o2 l = Some v" "l \<noteq> i" for l v
        using old [OF that] owner_okD(6) [OF exec(1)] frame(3) by metis
      then show ?thesis
        using uv at old owner_okD(7) [OF exec(1)] by (cases "j = i"; cases "k = i") (metis option.inject)+
    qed
    show "\<exists>j v. tasks_of o2 j = Some v \<and> tk_frame v = r" if r: "roots_of (ow_roots o2) r \<noteq> None" for r
    proof (cases "r = tk_frame t")
      case True
      then show ?thesis using at by blast
    next
      case False
      then have "roots_of (ow_roots o1) r \<noteq> None" using r frame(2) by simp
      then show ?thesis using owner_okD(8) [OF exec(1)] kept by metis
    qed
  qed
  moreover have "waits_ok o2"
  proof -
    have "unready (tasks_of o2) = unready ?T"
      unfolding unready_def using old kept at t(2) new by (fastforce simp: set_eq_iff)
    moreover have "tk_external v = None" if "ow_reactor o1 = None" "tasks_of o2 j = Some v" for j v
      using old [OF that(2)] at t(2) that owner_okD(3) [OF exec(1)] by (cases "j = i") (auto simp: waits_ok_def)
    ultimately show ?thesis using owner_okD(3) [OF exec(1)] by (auto simp: waits_ok_def o2)
  qed
  moreover have "ids_ok o2"
    using owner_okD(4) [OF exec(1)] o2(3) unfolding ids_ok_def dom o2(4) [symmetric] by (auto dest: bspec)
  ultimately have "owner_ok o2" by (simp add: owner_ok_def)
  moreover have "root_ok o2"
    unfolding root_ok_def
  proof (intro conjI allI impI)
    show "sc_root (ow_core o2) = Some j" if "tasks_of o2 j = Some v" "tk_parent v = None" for j v
    proof (cases "j = i")
      case True
      then show ?thesis using that at parent placed by (auto split: option.splits)
    next
      case False
      then have "sc_root (ow_core o1) = Some j" using old [OF that(1)] that(2) exec(5) by metis
      then show ?thesis using placed by (auto split: option.splits)
    qed
    show "\<exists>v. tasks_of o2 r = Some v \<and> root_task v" if r: "sc_root (ow_core o2) = Some r" for r
    proof (cases ?cur)
      case None
      then show ?thesis using r placed at t(1) by (auto simp: root_task_def)
    next
      case (Some p)
      then have root: "sc_root (ow_core o1) = Some r" using r placed by simp
      obtain u where u: "?T r = Some u" "root_task u" using exec(6) [OF root] by blast
      then have "r \<noteq> i" using new by auto
      then show ?thesis
        using u cur [of r] by (auto simp: task root_task_def)
    qed
  qed
  moreover have "current_ok o2"
    unfolding current_ok_def
  proof (intro allI impI)
    fix p assume "sc_current (ow_core o2) = Some p"
    then obtain u where "?T p = Some u" "\<not> terminal (tk_state u)" using cur by (auto simp: o2)
    then show "\<exists>v. tasks_of o2 p = Some v \<and> \<not> terminal (tk_state v)" using kept by fastforce
  qed
  moreover have "ended_ok o2"
    unfolding ended_ok_def
  proof (intro allI impI)
    fix j v assume v: "tasks_of o2 j = Some v" "terminal (tk_state v)"
    then have "j \<noteq> i" using at t(3) by auto
    then show "tk_external v = None" using old [OF v(1)] v(2) exec(7) by metis
  qed
  ultimately show ?thesis by (simp add: exec_ok_def)
qed


lemma fr_insert_fresh:
  assumes "store_wf s" "fr_insert False p s = (Inr r, s')"
  shows "store_wf s'" "roots_of s' = (roots_of s)(r \<mapsto> p)" "roots_of s r = None"
proof -
  note fr_insert_ok [OF assms]
  then show "store_wf s'" "roots_of s' = (roots_of s)(r \<mapsto> p)" by blast+
  show "roots_of s r = None"
  proof (rule ccontr)
    assume "roots_of s r \<noteq> None"
    then have "fr_issued s r" by (rule roots_issued [OF assms(1)])
    then show False using fr_insert_ok(3) [OF assms] by blast
  qed
qed

lemma keeps_create [keeps_intros]: "keeps (task_create frame resume creation)"
proof (rule keepsI)
  fix o1 o2 :: "'a owner" and i assume ok: "exec_ok o1" and run: "task_create frame resume creation o1 = (Inr i, o2)"
  note exec = exec_okD [OF ok]
  let ?n = "Suc (sc_next (ow_core o1))"
  have new: "tasks_of o1 ?n = None"
  proof (rule ccontr)
    assume "tasks_of o1 ?n \<noteq> None"
    then have "?n \<in> dom (tasks_of o1)" by blast
    then show False using owner_okD(4) [OF exec(1)] by (auto simp: ids_ok_def dest: bspec)
  qed
  obtain r roots where insert: "fr_insert False frame (ow_roots o1) = (Inr r, roots)"
  proof (cases "fst (fr_insert False frame (ow_roots o1))")
    case (Inl e)
    then have False
      using run by (auto simp: task_create_def next_stamp_def bindX_def taskX_def split: option.splits if_splits)
    then show ?thesis ..
  next
    case (Inr r)
    then show ?thesis using that by (metis prod.collapse)
  qed
  note fresh = fr_insert_fresh [OF owner_okD(5) [OF exec(1)] insert]
  let ?t = "new_task r resume (sc_current (ow_core o1)) creation"
  show "exec_ok o2"
  proof (cases "sc_current (ow_core o1)")
    case None
    then have "sc_root (ow_core o1) = None"
      "o2 = o1\<lparr>ow_roots := roots, ow_core := (ow_core o1)\<lparr>sc_tasks := (tasks_of o1)(?n \<mapsto> ?t), sc_next := ?n,
        sc_root := Some ?n, sc_ready := sc_ready (ow_core o1) @ [?n]\<rparr>\<rparr>"
      using run insert
      by (auto simp: task_create_def next_stamp_def bindX_def put_task_def push_back_def split: option.splits if_splits)
    then show ?thesis
      using None by (intro create_tree [OF ok new, where t = ?t and pointer = frame]) (simp_all add: new_task_def fresh)
  next
    case (Some p)
    obtain u where u: "tasks_of o1 p = Some u" "\<not> terminal (tk_state u)" using exec(4) [OF Some] by blast
    have "p \<noteq> ?n" using u new by auto
    then have "o2 = o1\<lparr>ow_roots := roots, ow_core := (ow_core o1)\<lparr>sc_tasks :=
        (tasks_of o1)(?n \<mapsto> ?t, p \<mapsto> u\<lparr>tk_children := insert ?n (tk_children u)\<rparr>), sc_next := ?n,
        sc_ready := sc_ready (ow_core o1) @ [?n]\<rparr>\<rparr>"
      using run insert Some u
      by (auto simp: task_create_def next_stamp_def bindX_def put_task_def push_back_def task_apply
          taskX_def updX_def split: option.splits if_splits)
    then show ?thesis
      using Some u by (intro create_tree [OF ok new, where t = ?t and pointer = frame]) (simp_all add: new_task_def fresh)
  qed
next
  fix o1 o2 :: "'a owner" and message
  assume ok: "exec_ok o1" and run: "task_create frame resume creation o1 = (Inl (Fault message), o2)"
  have no_fault: "fst (fr_insert False frame s) \<noteq> Inl (Fault m)" if "store_wf s" for s m
    using fr_insert_stops [OF that] by (metis prod.collapse stop.distinct(1))
  have "o2 = o1"
    using run no_fault [OF owner_okD(5) [OF exec_okD(1) [OF ok]]] exec_okD(4) [OF ok]
    by (auto simp: task_create_def next_stamp_def bindX_def taskX_def updX_def split: option.splits if_splits prod.splits sum.splits)
  then show "exec_ok o2" using ok by simp
qed


text \<open>
  A release takes a leaf out of the tree like a cancellation does, but it leaves the observation of
  the parent as it was.
\<close>

lemma exec_ok_task:
  assumes ok: "exec_ok o1" and t: "tasks_of o1 i = Some t"
    and u: "links u = links t" "tk_external u = tk_external t" "tk_returned u = tk_returned t" "tk_state u = tk_state t"
  shows "exec_ok (o1\<lparr>ow_core := put_task i u (ow_core o1)\<rparr>)"
  by (rule follows_exec_ok [OF ok follows_change [OF ok t u(1,2) _ _ refl]]) (use u in simp_all)

lemma keeps_release [keeps_intros]: "keeps (task_release child)"
proof (rule keepsI)
  fix o1 o2 :: "'a owner" and x assume ok: "exec_ok o1" and run: "task_release child o1 = (Inr x, o2)"
  note exec = exec_okD [OF ok] and tree = tree_okD [OF owner_okD(1) [OF exec_okD(1) [OF ok]]]
  obtain i t where i: "sc_current (ow_core o1) = Some i" and t: "tasks_of o1 child = Some t" "tk_parent t = Some i"
    and leaf: "terminal (tk_state t)" "tk_children t = {}"
    using run by (auto simp: task_release_def parentX_def bindX_def taskX_def split: option.splits if_splits)
  obtain p where p: "tasks_of o1 i = Some p" using exec(4) [OF i] by blast
  have link: "(child, i) \<in> parents (tasks_of o1)" using t by (simp add: parents_iff)
  have out: "i \<notin> subtree (tasks_of o1) child" by (rule acyclic_not_below [OF tree(2) link])
  then have ne: "child \<noteq> i" by auto
  obtain o3 where o3: "remove_leaf child o1 = (Inr (), o3)" "removes child o1 o3"
    using remove_leaf_ok [OF exec(1) t(1) leaf(2) exec(7) [OF t(1) leaf(1)]] by blast
  have step: "exec_ok o3"
    by (rule follows_exec_ok [OF ok removes_follows [OF ok o3(2)]]) (use out i t exec(6) in \<open>auto simp: root_task_def\<close>)
  let ?p = "drop_child child (terminal_order (tk_state t)) p"
  have p': "tasks_of o3 i = Some ?p"
    using o3(2) p t link out by (auto simp: removes_def cut_Some)
  have same: "tk_observation p = g \<Longrightarrow> p\<lparr>tk_children := X, tk_observation := g\<rparr> = p\<lparr>tk_children := X\<rparr>" for g X
    by (cases p) simp
  have "o2 = o3\<lparr>ow_core := put_task i (?p\<lparr>tk_observation := tk_observation p\<rparr>) (ow_core o3)\<rparr>"
    using run o3(1) i t p ne leaf
    by (cases "tk_observation p") (auto simp: task_release_def remove_leaf_def observation_remove_def parentX_def bindX_def task_apply put_task_def
        drop_child_def fun_upd_twist same split: if_splits prod.splits sum.splits)
  then show "exec_ok o2"
    using exec_ok_task [OF step p', of "?p\<lparr>tk_observation := tk_observation p\<rparr>"] by (simp add: links_def)
next
  fix o1 o2 :: "'a owner" and message assume ok: "exec_ok o1" and run: "task_release child o1 = (Inl (Fault message), o2)"
  have removed: "fst (fr_remove False r (ow_roots o1)) \<noteq> Inl (Fault m)" for r m
    using fr_remove_ok [OF owner_okD(5) [OF exec_okD(1) [OF ok]], of r] by (simp split: option.split)
  have "o2 = o1"
    using run removed exec_okD(4) [OF ok]
    by (auto simp: task_release_def parentX_def bindX_def taskX_def updX_def split: option.splits if_splits prod.splits sum.splits)
  then show "exec_ok o2" using ok by simp
qed

section \<open>Waits\<close>

lemma keeps_need_reactor [keeps_intros]: "keeps (need_reactor env)"
proof (rule keepsI)
  fix o1 o2 :: "'a owner" and x assume ok: "exec_ok o1" and run: "need_reactor env o1 = (Inr x, o2)"
  note exec = exec_okD [OF ok]
  from run consider (same) "o2 = o1" | (world) w where "o2 = o1\<lparr>ow_world := w\<rparr>"
    | (created) w where "ow_reactor o1 = None" "o2 = o1\<lparr>ow_world := w, ow_reactor := Some new_reactor\<rparr>"
    by (auto simp: need_reactor_def bindX_def split: if_splits option.splits)
  then show "exec_ok o2"
  proof cases
    case same
    then show ?thesis using ok by simp
  next
    case (world w)
    then show ?thesis using ok by simp
  next
    case (created w)
    have "waits_ok o2" using owner_okD(3) [OF exec(1)] created new_reactor_ok by (auto simp: waits_ok_def)
    then show ?thesis
      using exec(1,2,3,8) created
      by (auto simp: exec_ok_def owner_ok_def frames_ok_def ids_ok_def root_ok_def current_ok_def ended_ok_def)
  qed
qed (auto simp: need_reactor_def bindX_def split: if_splits option.splits)

lemma keeps_register [keeps_intros]: "keeps (reactorX (register p source i))"
proof (rule keepsI)
  fix o1 o2 :: "'a owner" and x assume ok: "exec_ok o1" and run: "reactorX (register p source i) o1 = (Inr x, o2)"
  note exec = exec_okD [OF ok]
  obtain r where r: "ow_reactor o1 = Some r" using run by (cases "ow_reactor o1") (auto simp: reactorX_def)
  have wait: "wait_ok {} r" using owner_okD(3) [OF exec(1)] r by (auto simp: waits_ok_def)
  obtain res r' w where reg: "register p source i (r, ow_world o1) = (res, (r', w))" by (metis prod.exhaust)
  then have o2: "o2 = o1\<lparr>ow_reactor := Some r', ow_world := w\<rparr>" "res = Inr x"
    using run r by (auto simp: reactorX_def)
  have "wait_ok {} r'" using register_sound [OF wait, of p source i "ow_world o1"] reg o2 by simp
  then have "waits_ok o2" using owner_okD(3) [OF exec(1)] r by (auto simp: waits_ok_def o2)
  then show "exec_ok o2"
    using exec(1,2,3,8) by (auto simp: o2 exec_ok_def owner_ok_def frames_ok_def ids_ok_def root_ok_def current_ok_def ended_ok_def)
next
  fix o1 o2 :: "'a owner" and message assume ok: "exec_ok o1" and run: "reactorX (register p source i) o1 = (Inl (Fault message), o2)"
  obtain r where r: "ow_reactor o1 = Some r" using run by (cases "ow_reactor o1") (auto simp: reactorX_def)
  have wait: "wait_ok {} r" using owner_okD(3) [OF exec_okD(1) [OF ok]] r by (auto simp: waits_ok_def)
  obtain res r' w where reg: "register p source i (r, ow_world o1) = (res, (r', w))" by (metis prod.exhaust)
  then show "exec_ok o2"
    using run r register_sound [OF wait, of p source i "ow_world o1"] by (auto simp: reactorX_def)
qed

text \<open>A change of the wait of a task, with the pending count that goes with it.\<close>

lemma exec_ok_wait:
  fixes o1 o2 :: "'w owner"
  assumes ok: "exec_ok o1" and t: "tasks_of o1 i = Some t" and reactor: "ow_reactor o1 \<noteq> None \<or> tk_external u = None"
    and u: "links u = links t" "tk_returned u = tk_returned t" "\<not> terminal (tk_state u)"
    and o2: "tasks_of o2 = (tasks_of o1)(i \<mapsto> u)" "sc_next (ow_core o2) = sc_next (ow_core o1)"
      "sc_root (ow_core o2) = sc_root (ow_core o1)" "sc_current (ow_core o2) = sc_current (ow_core o1)"
      "ow_roots o2 = ow_roots o1" "ow_reactor o2 = ow_reactor o1"
    and pending: "sc_pending (ow_core o2) = card (unready (tasks_of o2))"
  shows "exec_ok o2"
proof -
  note exec = exec_okD [OF ok]
  have links: "map_option links (tasks_of o2 j) = map_option links (tasks_of o1 j)" for j
    using t u(1) by (simp add: o2)
  have "frames_ok o2"
    by (rule frames_ok_links [OF owner_okD(2) [OF exec(1)] links]) (use owner_okD(5) [OF exec(1)] in \<open>simp_all add: o2 same_roots_def\<close>)
  moreover have "waits_ok o2"
    using owner_okD(3) [OF exec(1)] pending reactor by (auto simp: waits_ok_def o2)
  ultimately have "owner_ok o2"
    using tree_ok_links [OF owner_okD(1) [OF exec(1)] links] ids_ok_links [OF owner_okD(4) [OF exec(1)] links o2(2)]
    by (simp add: owner_ok_def)
  moreover have "benign t u" using u by (auto simp: benign_def links_def)
  ultimately have "follows o1 o2"
    using t exec(4,6) by (fastforce simp: follows_def o2)
  then show ?thesis by (rule follows_exec_ok [OF ok])
qed

lemma finite_unready: "tree_ok T \<Longrightarrow> finite (unready T)"
  by (rule finite_subset [of _ "dom T"]) (auto simp: unready_def tree_ok_def)

lemma need_reactor_tasks: "need_reactor env o1 = (Inr r, o2) \<Longrightarrow> tasks_of o2 = tasks_of o1"
  by (auto simp: need_reactor_def bindX_def split: if_splits option.splits)

lemma reactorX_tasks: "reactorX m o1 = (r, o2) \<Longrightarrow> ow_core o2 = ow_core o1"
  by (auto simp: reactorX_def split: option.splits prod.splits)


lemma keeps_wait_source [keeps_intros]: "keeps (wait_source env source socket)"
proof -
  have "exec_ok o2" if ok: "exec_ok o1" and run: "wait_source env source socket o1 = (r, o2)"
      and r: "(\<exists>x. r = Inr x) \<or> (\<exists>m. r = Inl (Fault m))" for r and o1 o2 :: "'a owner"
  proof (cases "sc_current (ow_core o1)")
    case None
    then show ?thesis using run ok by (simp add: wait_source_def currentX_def bindX_def)
  next
    case (Some i)
    obtain t where t: "tasks_of o1 i = Some t" "\<not> terminal (tk_state t)" using exec_okD(4) [OF ok Some] by blast
    have start: "currentX ''task wait outside a resume'' o1 = (Inr i, o1)"
      using Some by (simp add: currentX_def bindX_def)
    show ?thesis
    proof (cases "tk_state t = Running \<or> tk_state t = ExternalWaiting")
      case False
      then show ?thesis using run ok start t by (auto simp: wait_source_def bindX_def task_apply)
    next
      case runs: True
      show ?thesis
      proof (cases "tk_external t")
        case ext: (Some ext)
        note waits = owner_okD(3) [OF exec_okD(1) [OF ok], unfolded waits_ok_def]
        have "o2 = o1 \<or> ex_ready ext \<noteq> None
            \<and> o2 = o1\<lparr>ow_core := put_task i (t\<lparr>tk_external := None, tk_state := Running\<rparr>) (ow_core o1)\<rparr>"
          using run start t runs ext by (auto simp: wait_source_def bindX_def task_apply split: if_splits)
        then show ?thesis
        proof
          assume taken: "ex_ready ext \<noteq> None
            \<and> o2 = o1\<lparr>ow_core := put_task i (t\<lparr>tk_external := None, tk_state := Running\<rparr>) (ow_core o1)\<rparr>"
          have "unready (tasks_of o2) = unready (tasks_of o1)"
            using taken t ext by (auto simp: unready_def)
          then show ?thesis
            using taken t waits
            by (intro exec_ok_wait [OF ok t(1), where u = "t\<lparr>tk_external := None, tk_state := Running\<rparr>"]) (auto simp: links_def)
        qed (use ok in simp)
      next
        case None
        let ?reg = "\<lambda>created. (case created of Inl e \<Rightarrow> retX (Inl e) | Inr _ \<Rightarrow> reactorX (register (en_poller env) source i))
          :: ('a, io_error + registration) act"
        let ?first = "bindX (need_reactor env) ?reg"
        have first: "keeps ?first" by (intro keeps_intros)
        let ?tail = "\<lambda>registration. (case registration of
           Inl e \<Rightarrow> stopX (wait_fault env e)
         | Inr r \<Rightarrow>
             bindX (updX i (\<lambda>t. t\<lparr>tk_external := Some \<lparr>ex_source = source, ex_registration = r,
                 ex_ready = None, ex_socket = socket\<rparr>, tk_state := ExternalWaiting\<rparr>)) (\<lambda>_.
             bindX (modC (\<lambda>core. core\<lparr>sc_pending := sc_pending core + 1\<rparr>)) (\<lambda>_.
             retX None))) :: ('a, notification option) act"
        have "wait_source env source socket o1 = bindX ?first ?tail o1"
          unfolding wait_source_def bindX_assoc using start t runs None by (simp add: bindX_def task_apply)
        then have run': "bindX ?first ?tail o1 = (r, o2)" using run by simp
        obtain r' o3 where Pair: "?first o1 = (r', o3)" by (metis prod.exhaust)
        have core: "ow_core o3 = ow_core o1" if "r' = Inr x" for x
          using Pair that
          by (auto simp: need_reactor_def reactorX_def bindX_def split: if_splits option.splits sum.splits prod.splits)
        have made: "ow_reactor o3 \<noteq> None" if "r' = Inr (Inr x)" for x
          using Pair that
          by (auto simp: need_reactor_def reactorX_def bindX_def split: if_splits option.splits sum.splits prod.splits)
        show ?thesis
        proof (cases r')
          case (Inl e)
          then show ?thesis using run' Pair r keepsD(2) [OF first ok] by (auto simp: bindX_def)
        next
          case (Inr y)
          have ok3: "exec_ok o3" using keepsD(1) [OF first ok] Pair Inr by blast
          show ?thesis
          proof (cases y)
            case (Inl e)
            then show ?thesis using run' Pair Inr ok3 by (simp add: bindX_def)
          next
            case reg: (Inr n)
            let ?u = "t\<lparr>tk_external := Some \<lparr>ex_source = source, ex_registration = n, ex_ready = None, ex_socket = socket\<rparr>,
              tk_state := ExternalWaiting\<rparr>"
            have t3: "tasks_of o3 i = Some t" using core Inr t by simp
            have o2: "o2 = o3\<lparr>ow_core := (put_task i ?u (ow_core o3))\<lparr>sc_pending := sc_pending (ow_core o3) + 1\<rparr>\<rparr>"
              using run' Pair Inr reg t3 by (simp add: bindX_def task_apply)
            note exec3 = exec_okD [OF ok3]
            have "i \<notin> unready (tasks_of o3)" using t3 None by (simp add: unready_def)
            moreover have "unready ((tasks_of o3)(i \<mapsto> ?u)) = insert i (unready (tasks_of o3))"
              by (auto simp: unready_def)
            ultimately have "sc_pending (ow_core o3) + 1 = card (unready (tasks_of o2))"
              using owner_okD(3) [OF exec3(1)] finite_unready [OF owner_okD(1) [OF exec3(1)]] by (simp add: o2 waits_ok_def)
            then show ?thesis
              using made Inr reg by (intro exec_ok_wait [OF ok3 t3, where u = ?u]) (simp_all add: links_def o2)
          qed
        qed
      qed
    qed
  qed
  then show ?thesis by (intro keepsI) blast+
qed

lemma keeps_waits [keeps_intros]:
  "keeps (task_wait_timer env deadline)" "keeps (provider_completion env identity ready)" "keeps (task_wait_worker env frame callback)"
  unfolding task_wait_timer_def provider_completion_def task_wait_worker_def by (intro keeps_intros)+


section \<open>Cancelling and ending tasks\<close>

lemma keeps_drain [keeps_intros]: "keeps (task_drain env child suppress)"
proof -
  have "exec_ok o2" if ok: "exec_ok o1" and run: "task_drain env child suppress o1 = (r, o2)"
      and r: "(\<exists>x. r = Inr x) \<or> (\<exists>m. r = Inl (Fault m))" for r and o1 o2 :: "'a owner"
  proof (cases "\<exists>i t c. sc_current (ow_core o1) = Some i \<and> tasks_of o1 child = Some t \<and> tk_parent t = Some i
      \<and> tasks_of o1 i = Some c \<and> tk_state c = Running \<and> \<not> tk_returned_to_parent t")
    case False
    then have "o2 = o1"
      using run exec_okD(4) [OF ok]
      by (auto simp: task_drain_def parentX_def bindX_def task_apply split: option.splits if_splits)
    then show ?thesis using ok by simp
  next
    case True
    then obtain i t c where i: "sc_current (ow_core o1) = Some i" and t: "tasks_of o1 child = Some t" "tk_parent t = Some i"
      and c: "tasks_of o1 i = Some c" "tk_state c = Running" "\<not> tk_returned_to_parent t" by blast
    have start: "task_drain env child suppress o1
        = bindX (cancel_tree env child None) (\<lambda>failure. retX (if suppress then None else failure)) o1"
      using i t c by (simp add: task_drain_def parentX_def bindX_def task_apply)
    have "child \<in> dom (tasks_of o1)" using t by blast
    from cancel_tree_ok [OF exec_okD(1) [OF ok] this, of env None] show ?thesis
    proof (elim disjE exE conjE)
      fix message o3 assume "cancel_tree env child None o1 = (Inl (Fatal message), o3)"
      then show ?thesis using run r by (auto simp: start bindX_def)
    next
      fix x o3 assume x: "cancel_tree env child None o1 = (Inr x, o3)" and rem: "removes child o1 o3"
      have link: "(child, i) \<in> parents (tasks_of o1)" using t by (simp add: parents_iff)
      have "i \<notin> subtree (tasks_of o1) child"
        by (rule acyclic_not_below [OF tree_okD(2) [OF owner_okD(1) [OF exec_okD(1) [OF ok]]] link])
      then have "exec_ok o3"
        using i t exec_okD(6) [OF ok]
        by (intro follows_exec_ok [OF ok removes_follows [OF ok rem]]) (auto simp: root_task_def)
      then show ?thesis using run x by (simp add: start bindX_def)
    qed
  qed
  then show ?thesis by (intro keepsI) blast+
qed

text \<open>An operation that raises no fault: it may only end the process or panic.\<close>

definition faultless :: "stop \<Rightarrow> 'w owner \<Rightarrow> bool" where
  "faultless e o' \<longleftrightarrow> (\<forall>message. e \<noteq> Fault message)"

text \<open>A task that may end: it waits for nothing, it is not running, and a root has no children.\<close>

definition ending :: "nat \<Rightarrow> 'w owner \<Rightarrow> bool" where
  "ending i o' \<longleftrightarrow> exec_ok o' \<and> sc_current (ow_core o') \<noteq> Some i
     \<and> (\<exists>t. tasks_of o' i = Some t \<and> tk_external t = None \<and> (tk_parent t = None \<longrightarrow> tk_children t = {}))"

lemma settling_hoare:
  assumes "settling i m" and "\<And>o1. P o1 \<Longrightarrow> exec_ok o1" and "\<And>o1. P o1 \<Longrightarrow> i \<in> dom (tasks_of o1)"
    and "\<And>o1 o2 t u. P o1 \<Longrightarrow> exec_ok o2 \<Longrightarrow> settles i o1 o2 \<Longrightarrow> tasks_of o1 i = Some t \<Longrightarrow> tasks_of o2 i = Some u \<Longrightarrow>
      drained t u \<Longrightarrow> (tk_external t = None \<Longrightarrow> tk_external u = None) \<Longrightarrow> Q o2"
  shows "hoare P m (\<lambda>_. Q) faultless"
proof (rule hoareI)
  fix o1 x o2 assume p: "P o1" and run: "m o1 = (Inr x, o2)"
  obtain t where t: "tasks_of o1 i = Some t" using assms(3) [OF p] by blast
  have "settles i o1 o2"
    using assms(1) [unfolded settling_def, rule_format, OF exec_okD(1) [OF assms(2) [OF p]] assms(3) [OF p]] run by simp
  note step = this
  obtain u where u: "tasks_of o2 i = Some u" "drained t u" "tk_external t = None \<longrightarrow> tk_external u = None"
    using step t by (rule settles_task)
  have "exec_ok o2" by (rule follows_exec_ok [OF assms(2) [OF p] settles_follows [OF assms(2) [OF p] step t]])
  then show "Q o2" by (rule assms(4) [OF p _ step t u(1,2)]) (use u(3) in simp)
next
  fix o1 e o2 assume p: "P o1" and run: "m o1 = (Inl e, o2)"
  have "\<exists>message. e = Fatal message"
    using assms(1) [unfolded settling_def, rule_format, OF exec_okD(1) [OF assms(2) [OF p]] assms(3) [OF p]] run by simp
  then show "faultless e o2" by (auto simp: faultless_def)
qed

lemma ending_drain: "hoare (ending i) (drain_cleanups env i first) (\<lambda>_. ending i) faultless"
proof (rule settling_hoare [OF settling_drain])
  fix o1 o2 :: "'a owner" and t u
  assume e: "ending i o1" and step: "exec_ok o2" "settles i o1 o2" and t: "tasks_of o1 i = Some t"
    and u: "tasks_of o2 i = Some u" "drained t u" and ext: "tk_external t = None \<Longrightarrow> tk_external u = None"
  show "ending i o2"
    using e step(1) settles_rest(3) [OF step(2)] t u(1) ext drainedD(1,2) [OF u(2)] by (simp add: ending_def same_core_def)
qed (auto simp: ending_def)

lemma ending_stamp: "hoare (ending i) next_stamp (\<lambda>_. ending i) faultless"
proof (rule hoareI)
  fix o1 o2 :: "'a owner" and n assume e: "ending i o1" and run: "next_stamp o1 = (Inr n, o2)"
  have "exec_ok o2" using keepsD(1) [OF keeps_next_stamp _ run] e by (simp add: ending_def)
  moreover have "tasks_of o2 = tasks_of o1" "sc_current (ow_core o2) = sc_current (ow_core o1)"
    using run by (auto simp: next_stamp_def bindX_def split: option.splits)
  ultimately show "ending i o2" using e by (simp add: ending_def)
qed (auto simp: next_stamp_def bindX_def faultless_def split: option.splits)

lemma ending_state: "hoare (ending i) (updX i (\<lambda>t. t\<lparr>tk_state := s t\<rparr>)) (\<lambda>_. exec_ok) faultless"
proof (rule hoareI)
  fix o1 o2 :: "'a owner" and x assume e: "ending i o1" and run: "updX i (\<lambda>t. t\<lparr>tk_state := s t\<rparr>) o1 = (Inr x, o2)"
  then obtain t where t: "tasks_of o1 i = Some t" "tk_external t = None" "tk_parent t = None \<longrightarrow> tk_children t = {}"
    and ok: "exec_ok o1" and cur: "sc_current (ow_core o1) \<noteq> Some i" by (auto simp: ending_def)
  note exec = exec_okD [OF ok]
  have o2: "o2 = o1\<lparr>ow_core := put_task i (t\<lparr>tk_state := s t\<rparr>) (ow_core o1)\<rparr>"
    using run by (simp add: task_apply(2) [OF t(1)])
  have owner: "owner_ok o2"
    by (rule owner_ok_change [OF exec(1) t(1), where u = "t\<lparr>tk_state := s t\<rparr>"]) (simp_all add: o2 links_def)
  have task: "tasks_of o2 j = (if j = i then Some (t\<lparr>tk_state := s t\<rparr>) else tasks_of o1 j)" for j
    by (simp add: o2)
  have "root_ok o2"
    unfolding root_ok_def
  proof (intro conjI allI impI)
    show "sc_root (ow_core o2) = Some j" if "tasks_of o2 j = Some v" "tk_parent v = None" for j v
      using that exec(5) [OF t(1)] exec(5) [of j v] by (auto simp: task o2 split: if_splits)
    show "\<exists>v. tasks_of o2 r = Some v \<and> root_task v" if "sc_root (ow_core o2) = Some r" for r
      using exec(6) [of r] that t by (auto simp: task o2 root_task_def)
  qed
  moreover have "current_ok o2" using exec(4) cur by (auto simp: current_ok_def task) (auto simp: o2)
  moreover have "ended_ok o2" using exec(7) t(2) by (auto simp: ended_ok_def task)
  ultimately show "exec_ok o2" using owner by (simp add: exec_ok_def)
qed (auto simp: updX_def taskX_def bindX_def faultless_def split: option.splits)

text \<open>The end of an activation: the outcome must be one that \<open>validate_return\<close> or the fault hook left.\<close>

definition may_finish :: "nat \<Rightarrow> owned_fault + int \<Rightarrow> 'w owner \<Rightarrow> bool" where
  "may_finish i outcome o' \<longleftrightarrow> exec_ok o' \<and> (outcome \<in> range Inl \<union> {Inr 0} \<longrightarrow>
     (\<exists>t. tasks_of o' i = Some t \<and> tk_external t = None \<and> (tk_parent t = None \<longrightarrow> tk_children t = {})))"

lemma wake_hoare: "hoare exec_ok (wake_waiter i) (\<lambda>_. exec_ok) faultless"
proof (rule hoareI)
  fix o1 o2 :: "'a owner" and x assume "exec_ok o1" "wake_waiter i o1 = (Inr x, o2)"
  then show "exec_ok o2" by (rule keepsD(1) [OF keeps_wake])
next
  fix o1 o2 :: "'a owner" and e assume "exec_ok o1" "wake_waiter i o1 = (Inl e, o2)"
  then show "faultless e o2"
    by (auto simp: faultless_def wake_waiter_def observation_completed_def bindX_def taskX_def updX_def
        split: option.splits if_splits)
qed

lemma exec_ok_idle: "exec_ok o' \<Longrightarrow> exec_ok (o'\<lparr>ow_core := (ow_core o')\<lparr>sc_current := None\<rparr>\<rparr>)"
  by (simp add: exec_ok_def owner_ok_def frames_ok_def waits_ok_def ids_ok_def root_ok_def current_ok_def ended_ok_def)

text \<open>The common part: the outcome ends the task, from \<open>E\<close> on.\<close>

lemma finish_resume_rule:
  assumes outcome: "outcome \<in> range Inl \<union> {Inr 0}"
    and idle: "hoare P (modC (\<lambda>core. core\<lparr>sc_current := None\<rparr>)) (\<lambda>_. E) faultless"
    and drain: "\<And>first. hoare E (drain_cleanups env i first) (\<lambda>_. E) faultless"
    and last: "\<And>s. hoare E (bindX next_stamp (\<lambda>order. bindX (updX i (\<lambda>t. t\<lparr>tk_state := s t order\<rparr>)) (\<lambda>_. wake_waiter i)))
      (\<lambda>_. Q) faultless"
  shows "hoare P (finish_resume env i outcome) (\<lambda>_. Q) faultless"
proof -
  let ?finish = "\<lambda>out. case out of
       Inr status \<Rightarrow>
         if status = 0 then
           bindX next_stamp (\<lambda>order.
           bindX (updX i (\<lambda>t. t\<lparr>tk_state := Completed order\<rparr>)) (\<lambda>_.
           wake_waiter i))
         else guardX (status = 1) (Fatal ''unchecked task resume state'')
     | Inl failure \<Rightarrow>
         bindX next_stamp (\<lambda>order.
         bindX (updX i (\<lambda>t. t\<lparr>tk_state := Faulted (append_creation (tk_creation t) failure) order\<rparr>)) (\<lambda>_.
         wake_waiter i))"
  let ?drain = "\<lambda>out. case out of
         Inl failure \<Rightarrow>
           bindX (drain_cleanups env i (Some failure)) (\<lambda>first.
           bindX (someX first Panic) (\<lambda>first. retX (Inl first)))
       | Inr status \<Rightarrow> retX (Inr status)"
  have second: "hoare (\<lambda>o'. E o' \<and> out \<in> range Inl \<union> {Inr 0}) (?finish out) (\<lambda>_. Q) faultless" for out
  proof (cases out)
    case (Inl f)
    show ?thesis
      unfolding Inl using last [of "\<lambda>t. Faulted (append_creation (tk_creation t) f)"] by (simp add: hoare_def)
  next
    case (Inr status)
    show ?thesis
      unfolding Inr using last [of "\<lambda>_. Completed"] by (cases "status = 0") (simp_all add: hoare_def image_iff)
  qed
  have first: "hoare E (?drain outcome) (\<lambda>out o'. E o' \<and> out \<in> range Inl \<union> {Inr 0}) faultless"
  proof (cases outcome)
    case (Inl f)
    show ?thesis
      unfolding Inl sum.simps
      by (rule hoare_bind [OF drain]) (auto simp: hoare_def bindX_def faultless_def split: option.split)
  qed (use outcome in \<open>auto simp: hoare_def\<close>)
  show ?thesis
    unfolding finish_resume_def by (rule hoare_bind [OF idle hoare_bind [OF first second]])
qed

lemma finish_resume_keeps: "hoare (may_finish i outcome) (finish_resume env i outcome) (\<lambda>_. exec_ok) faultless"
proof (cases "outcome \<in> range Inl \<union> {Inr 0}")
  case True
  have last: "hoare (ending i) (bindX next_stamp (\<lambda>order. bindX (updX i (\<lambda>t. t\<lparr>tk_state := s t order\<rparr>)) (\<lambda>_. wake_waiter i)))
      (\<lambda>_. exec_ok) faultless" for s
    by (intro hoare_bind [OF ending_stamp] hoare_bind [OF ending_state] wake_hoare)
  have idle: "hoare (may_finish i outcome) (modC (\<lambda>core. core\<lparr>sc_current := None\<rparr>)) (\<lambda>_. ending i) faultless"
    using True by (auto simp: hoare_def may_finish_def ending_def exec_ok_idle)
  show ?thesis by (rule finish_resume_rule [OF True idle ending_drain last])
next
  case False
  then show ?thesis
    by (cases outcome) (auto simp: hoare_def finish_resume_def bindX_def may_finish_def exec_ok_idle faultless_def)
qed

end
