(* ===== verification/TaskCur.thy ===== *)
theory TaskCur
  imports TaskInv
begin

text \<open>
  What the operations leave alone: the current task and the root of the executor.  \<open>core_field\<close> is the
  interface of a part of the scheduler's state that tasks, the ready queue and the counters do not
  belong to; the operations of an activation leave every such part as it was.  A cleanup callback
  runs without a current task, which is put back after it.
\<close>

section \<open>Operations that leave a part of the state alone\<close>

definition field_is :: "(sched \<Rightarrow> 'b) \<Rightarrow> 'b \<Rightarrow> 'w owner \<Rightarrow> bool" where
  "field_is g c o' \<longleftrightarrow> g (ow_core o') = c"

definition steady :: "(sched \<Rightarrow> 'b) \<Rightarrow> ('w, 'a) act \<Rightarrow> bool" where
  "steady g m \<longleftrightarrow> (\<forall>c. hoare (field_is g c) m (\<lambda>_. field_is g c) (\<lambda>e o'. (\<exists>message. e = Fault message) \<longrightarrow> field_is g c o'))"

named_theorems steady_intros \<open>operations that leave a part of the state alone\<close>

lemma steady_bind [steady_intros]: "steady g m \<Longrightarrow> (\<And>x. steady g (f x)) \<Longrightarrow> steady g (bindX m f)"
  unfolding steady_def by (blast intro: hoare_bind)

lemma steadyI:
  assumes "\<And>o1 r o2. m o1 = (r, o2) \<Longrightarrow> g (ow_core o2) = g (ow_core o1)"
  shows "steady g m"
  unfolding steady_def by (intro allI hoareI) (simp_all add: assms field_is_def)

lemma steadyD:
  assumes "steady g m"
  shows "m o1 = (Inr x, o2) \<Longrightarrow> g (ow_core o2) = g (ow_core o1)"
    and "m o1 = (Inl (Fault message), o2) \<Longrightarrow> g (ow_core o2) = g (ow_core o1)"
  using hoareD_ok [OF assms [unfolded steady_def, rule_format, of "g (ow_core o1)"], of o1]
    hoareD_stop [OF assms [unfolded steady_def, rule_format, of "g (ow_core o1)"], of o1]
  by (auto simp: field_is_def)

lemma steady_reads [steady_intros]:
  "steady g (retX x)" "steady g (stopX e)" "steady g (getX h)" "steady g (getC k)" "steady g (guardX b e)" "steady g (someX v e)"
  "steady g (taskX i)" "steady g (wX w)" "steady g (rootsX s)"
  by (rule steadyI; auto simp: taskX_def bindX_def split: option.splits if_splits)+

lemma steady_reactor [steady_intros]: "steady g (reactorX m)" "steady g (modifyX (\<lambda>o'. o'\<lparr>ow_reactor := r o'\<rparr>))"
  by (rule steadyI; auto simp: reactorX_def split: option.splits prod.splits)+

lemma steady_cases [steady_intros]:
  "steady g m \<Longrightarrow> steady g n \<Longrightarrow> steady g (if b then m else n)"
  "steady g m \<Longrightarrow> (\<And>x. steady g (f x)) \<Longrightarrow> steady g (case v of None \<Rightarrow> m | Some x \<Rightarrow> f x)"
  "(\<And>x. steady g (h x)) \<Longrightarrow> (\<And>x. steady g (h' x)) \<Longrightarrow> steady g (case s of Inl x \<Rightarrow> h x | Inr x \<Rightarrow> h' x)"
  "(\<And>x y. steady g (k x y)) \<Longrightarrow> steady g (case w of (x, y) \<Rightarrow> k x y)"
  "(\<And>x. steady g (l x)) \<Longrightarrow> steady g (Let u l)"
  by (simp_all split: option.split sum.split prod.split)

lemma steady_state [steady_intros]:
  assumes "steady g m1" "steady g m2" "\<And>i. steady g (m3 i)" "steady g m4" "steady g m5" "\<And>n. steady g (m6 n)"
    "\<And>f n. steady g (m7 f n)" "\<And>n. steady g (m8 n)"
  shows "steady g (case s of Queued \<Rightarrow> m1 | Running \<Rightarrow> m2 | Waiting i \<Rightarrow> m3 i | Observing \<Rightarrow> m4 | ExternalWaiting \<Rightarrow> m5
    | Completed n \<Rightarrow> m6 n | Faulted f n \<Rightarrow> m7 f n | Cancelled n \<Rightarrow> m8 n)"
  using assms by (simp split: task_state.split)

lemmas steady_defs = drain_cleanups_def pending_less_def cancel_wait_def cancel_operation_def next_stamp_def
  observation_remove_def observation_completed_def retire_def validate_return_def wake_waiter_def need_reactor_def
  parentX_def currentX_def reparent_def

lemmas steady_op_defs = task_cleanup_push_def task_result_cleanup_push_def task_cleanup_pop_def task_adopt_def task_return_def
  task_await_def task_peek_result_def task_result_def task_release_def wait_source_def task_wait_timer_def
  provider_completion_def task_observe_def task_wait_next_def select_event_def task_next_result_def
  task_next_terminal_result_def task_next_terminal_index_def task_next_terminal_failure_def awaited_def task_status_def
  task_failure_def task_drain_def task_wait_worker_def task_worker_result_def

locale core_field =
  fixes g :: "sched \<Rightarrow> 'b"
  assumes tasks: "g (core\<lparr>sc_tasks := T\<rparr>) = g core"
    and ready: "g (core\<lparr>sc_ready := Q\<rparr>) = g core"
    and stamp: "g (core\<lparr>sc_next := n\<rparr>) = g core"
    and waits: "g (core\<lparr>sc_pending := p\<rparr>) = g core"
begin

lemma steady_core [steady_intros]:
  "steady g (modC (push_back i))" "steady g (modC (push_front i))" "steady g (modC (put_task i t))"
  "steady g (modC (\<lambda>core. core\<lparr>sc_tasks := T core\<rparr>))" "steady g (modC (\<lambda>core. core\<lparr>sc_next := n core\<rparr>))"
  "steady g (modC (\<lambda>core. core\<lparr>sc_pending := p core\<rparr>))" "steady g (modC (\<lambda>core. core\<lparr>sc_ready := Q core\<rparr>))"
  by (rule steadyI; auto simp: push_back_def push_front_def put_task_def tasks ready stamp waits)+

lemma steady_push [steady_intros]: "steady g (modC (if b then push_front i else push_back i))"
  by (simp add: steady_core)

lemma steady_upd [steady_intros]: "steady g (updX i f)"
  unfolding updX_def by (intro steady_intros)

lemma steady_cleanup [steady_intros]: "steady g (run_cleanup env t callback first)"
proof (rule steadyI)
  have same: "core\<lparr>sc_current := None, sc_current := sc_current core\<rparr> = core" for core by simp
  fix o1 r o2 assume run: "run_cleanup env t callback first o1 = (r, o2)"
  then have "ow_core o2 = ow_core o1"
    by (auto simp: run_cleanup_def bindX_def same split: prod.splits sum.splits option.splits)
  then show "g (ow_core o2) = g (ow_core o1)" by simp
qed

lemma steady_drain_loop [steady_intros]: "steady g (drain_loop env n i first)"
  by (induction n arbitrary: first) (auto intro!: steady_intros)

lemma steady_parts [steady_intros]:
  "steady g (drain_cleanups env i first)" "steady g (cancel_wait env i)" "steady g (cancel_operation env i)" "steady g next_stamp"
  "steady g (observation_remove child)" "steady g (observation_completed parent child)" "steady g (retire env i first)"
  "steady g (validate_return i status)" "steady g (wake_waiter i)" "steady g (need_reactor env)" "steady g (parentX child)"
  "steady g (currentX message)" "steady g (reparent child previous new)"
  unfolding steady_defs by (intro steady_intros)+

lemma steady_cancel_loop [steady_intros]: "steady g (cancel_loop env n stack first)"
  by (induction n arbitrary: stack first) (auto intro!: steady_intros split: list.split prod.split bool.split)

lemma steady_cancel_tree [steady_intros]: "steady g (cancel_tree env i first)"
  unfolding cancel_tree_def by (intro steady_intros)

lemma steady_descendants_loop [steady_intros]: "steady g (descendants_loop env n i first)"
  by (induction n arbitrary: first) (auto intro!: steady_intros)

lemma steady_descendants [steady_intros]: "steady g (cancel_descendants env i first)"
  unfolding cancel_descendants_def by (intro steady_intros)

lemma steady_fault_hook [steady_intros]: "steady g (before_resume_fault env)"
  unfolding before_resume_fault_def by (intro steady_intros)

lemma steady_extract_loop [steady_intros]: "steady g (extract_loop n child parent)"
  by (induction n) (auto intro!: steady_intros)

lemma steady_operations [steady_intros]:
  "steady g (task_cleanup_push site callback)" "steady g (task_result_cleanup_push callback)" "steady g (task_cleanup_pop site)"
  "steady g (task_adopt callee child)" "steady g (task_return child)"
  "steady g (task_await child)" "steady g (task_peek_result child)" "steady g (task_result child)" "steady g (task_release child)"
  "steady g (wait_source env source socket)" "steady g (task_wait_timer env deadline)" "steady g (provider_completion env identity ready)"
  "steady g (task_observe child n)" "steady g task_wait_next" "steady g task_next_result" "steady g task_next_terminal_result"
  "steady g task_next_terminal_index" "steady g task_next_terminal_failure" "steady g (task_status child)" "steady g (task_failure child)"
  "steady g (task_drain env child suppress)" "steady g (task_wait_worker env frame callback)" "steady g (task_worker_result env)"
  unfolding steady_op_defs by (intro steady_intros)+

end

interpretation current: core_field sc_current
  by unfold_locales simp_all

interpretation root: core_field sc_root
  by unfold_locales simp_all

section \<open>The current task and the root\<close>

lemma steady_current_create [steady_intros]: "steady sc_current (task_create frame resume creation)"
  by (rule steadyI)
    (auto simp: task_create_def next_stamp_def bindX_def taskX_def updX_def push_back_def split: option.splits if_splits sum.splits)

lemma root_create:
  assumes "task_create frame resume creation o1 = (r, o2)" "sc_current (ow_core o1) \<noteq> None"
  shows "sc_root (ow_core o2) = sc_root (ow_core o1)"
  using assms
  by (auto simp: task_create_def next_stamp_def bindX_def taskX_def updX_def push_back_def split: option.splits if_splits sum.splits)

lemma steady_root_current [steady_intros]:
  "steady sc_root (modC (\<lambda>core. core\<lparr>sc_current := c core\<rparr>))"
  "steady sc_root (modC (\<lambda>core. core\<lparr>sc_current := c core, sc_ready := q core\<rparr>))"
  by (rule steadyI; simp)+

lemma steady_root_finish [steady_intros]: "steady sc_root (finish_resume env i outcome)"
  unfolding finish_resume_def by (intro steady_intros)

lemma steady_root_catch:
  assumes "steady sc_root m"
  shows "steady sc_root (catch_fault_before_drain env m)"
proof -
  have "steady sc_root (bindX (before_resume_fault env) (\<lambda>_. retX (Inl f)))" for f :: owned_fault
    by (intro steady_intros)
  note hook = steadyD [OF this] and body = steadyD [OF assms]
  have "sc_root (ow_core o2) = sc_root (ow_core o1)"
    if run: "catch_fault_before_drain env m o1 = (r, o2)" and r: "(\<exists>x. r = Inr x) \<or> (\<exists>m. r = Inl (Fault m))" for r o1 o2
  proof (cases "m o1")
    case (Pair res o3)
    show ?thesis
    proof (cases "\<exists>message. res = Inl (Fault message)")
      case True
      then obtain message where fault: "res = Inl (Fault message)" by blast
      then have "sc_root (ow_core o3) = sc_root (ow_core o1)" using body(2) Pair by blast
      moreover have "sc_root (ow_core o2) = sc_root (ow_core o3)"
        using run Pair fault r hook by (cases r) (fastforce simp: catch_fault_before_drain_def)+
      ultimately show ?thesis by simp
    next
      case False
      then obtain x where "res = Inr x" "o2 = o3"
        using run Pair r by (cases res) (auto simp: catch_fault_before_drain_def split: stop.splits)
      then show ?thesis using body(1) Pair by blast
    qed
  qed
  then show ?thesis unfolding steady_def field_is_def by (intro allI hoareI) blast+
qed

lemma steady_root_cancel [steady_intros]:
  "steady sc_root (complete_before_cancel env i)" "steady sc_root (task_cancel_begin env child)"
  unfolding complete_before_cancel_def task_cancel_begin_def wrapper_outcome_def
  by (intro steady_intros steady_root_catch)+

end
