(* ===== verification/Resume.thy ===== *)
theory Resume
  imports TaskCur
begin

text \<open>
  The end of an activation and the cancellation of a child
  (\<open>compiler/runtime/src/tasks.rs\<close>, \<open>tasks_outcomes.rs\<close>, \<open>tasks_parallel.rs\<close>): what the fault hook
  leaves, and that ending a task keeps the invariant of the executor.
\<close>

section \<open>The fault hook\<close>

definition running :: "nat \<Rightarrow> 'w owner \<Rightarrow> bool" where
  "running i o' \<longleftrightarrow> exec_ok o' \<and> sc_current (ow_core o') = Some i"

definition fault_running :: "nat \<Rightarrow> stop \<Rightarrow> 'w owner \<Rightarrow> bool" where
  "fault_running i e o' \<longleftrightarrow> (\<forall>message. e = Fault message \<longrightarrow> running i o')"

lemma keeps_running:
  assumes "keeps m" "steady sc_current m"
  shows "hoare (running i) m (\<lambda>_. running i) (fault_running i)"
proof (rule hoareI)
  note same = assms(2) [unfolded steady_def, rule_format, of "Some i"]
  fix o1 x o2 assume o1: "running i o1" and run: "m o1 = (Inr x, o2)"
  show "running i o2"
    using keepsD(1) [OF assms(1) _ run] hoareD_ok [OF same _ run] o1 by (simp add: running_def field_is_def)
next
  note same = assms(2) [unfolded steady_def, rule_format, of "Some i"]
  fix o1 e o2 assume o1: "running i o1" and run: "m o1 = (Inl e, o2)"
  show "fault_running i e o2"
    using keepsD(2) [OF assms(1)] hoareD_stop [OF same _ run] o1 run by (auto simp: running_def field_is_def fault_running_def)
qed

text \<open>
  What the hook and a wrapper rely on is kept by giving back the resources of one task and by
  cancelling its descendants.
\<close>

definition local_to :: "nat \<Rightarrow> ('w owner \<Rightarrow> bool) \<Rightarrow> bool" where
  "local_to i R \<longleftrightarrow> (\<forall>o1. R o1 \<longrightarrow> exec_ok o1 \<and> i \<in> dom (tasks_of o1)
       \<and> (\<forall>j t. sc_current (ow_core o1) = Some j \<longrightarrow> tasks_of o1 i = Some t \<longrightarrow> j \<notin> below (tasks_of o1) (tk_children t)))
     \<and> (\<forall>o1 o2. R o1 \<longrightarrow> exec_ok o2 \<longrightarrow> settles i o1 o2 \<longrightarrow> R o2)
     \<and> (\<forall>o1 o2 t. R o1 \<longrightarrow> exec_ok o2 \<longrightarrow> tasks_of o1 i = Some t \<longrightarrow> clears i (tk_children t) o1 o2 \<longrightarrow> R o2)"

lemma local_toD:
  assumes "local_to i R" "R o1"
  shows "exec_ok o1" "i \<in> dom (tasks_of o1)"
    "sc_current (ow_core o1) = Some j \<Longrightarrow> tasks_of o1 i = Some t \<Longrightarrow> j \<notin> below (tasks_of o1) (tk_children t)"
    "exec_ok o2 \<Longrightarrow> settles i o1 o2 \<Longrightarrow> R o2"
    "exec_ok o2 \<Longrightarrow> tasks_of o1 i = Some t \<Longrightarrow> clears i (tk_children t) o1 o2 \<Longrightarrow> R o2"
  using assms unfolding local_to_def by blast+

definition childless :: "nat \<Rightarrow> 'w owner \<Rightarrow> bool" where
  "childless i o' \<longleftrightarrow> (\<exists>t. tasks_of o' i = Some t \<and> tk_children t = {})"

definition idle_task :: "nat \<Rightarrow> 'w owner \<Rightarrow> bool" where
  "idle_task i o' \<longleftrightarrow> (\<exists>t. tasks_of o' i = Some t \<and> tk_children t = {} \<and> tk_external t = None)"

lemma descendants_local:
  assumes R: "local_to i R"
  shows "hoare R (cancel_descendants env i first) (\<lambda>_ o'. R o' \<and> childless i o') faultless"
proof (rule hoareI)
  fix o1 o2 :: "'a owner" and x assume r: "R o1" and run: "cancel_descendants env i first o1 = (Inr x, o2)"
  note start = local_toD [OF R r]
  obtain t where t: "tasks_of o1 i = Some t" using start(2) by blast
  have cleared: "clears i (tk_children t) o1 o2"
    using cancel_descendants_ok [OF exec_okD(1) [OF start(1)] t, of env first] run by auto
  have "exec_ok o2"
    by (rule follows_exec_ok [OF start(1) clears_follows [OF start(1) cleared t order_refl start(3)]]) (use t in simp_all)
  moreover have "childless i o2" using cleared t by (auto simp: clears_def childless_def)
  ultimately show "R o2 \<and> childless i o2" using start(5) t cleared by blast
next
  fix o1 o2 :: "'a owner" and e assume r: "R o1" and run: "cancel_descendants env i first o1 = (Inl e, o2)"
  note start = local_toD [OF R r]
  obtain t where t: "tasks_of o1 i = Some t" using start(2) by blast
  show "faultless e o2"
    using cancel_descendants_ok [OF exec_okD(1) [OF start(1)] t, of env first] run by (auto simp: faultless_def)
qed

lemma settling_local:
  assumes R: "local_to i R" and m: "settling i m"
  shows "hoare R m (\<lambda>_. R) faultless"
  by (rule settling_hoare [OF m]) (use local_toD [OF R] in blast)+

lemma wait_local:
  assumes R: "local_to i R"
  shows "hoare (\<lambda>o'. R o' \<and> childless i o') (cancel_wait env i) (\<lambda>_ o'. R o' \<and> idle_task i o') faultless"
proof (rule hoareI)
  fix o1 o2 :: "'a owner" and x assume r: "R o1 \<and> childless i o1" and run: "cancel_wait env i o1 = (Inr x, o2)"
  note start = local_toD [OF R r [THEN conjunct1]]
  obtain t where t: "tasks_of o1 i = Some t" "tk_children t = {}" using r by (auto simp: childless_def)
  have "settles i o1 o2"
    using settling_cancel_wait [of i env, unfolded settling_def, rule_format, OF exec_okD(1) [OF start(1)] start(2)] run by simp
  note step = this
  obtain u where u: "tasks_of o2 i = Some u" "drained t u" using step t(1) by (rule settles_task)
  have "exec_ok o2" by (rule follows_exec_ok [OF start(1) settles_follows [OF start(1) step t(1)]])
  then have "R o2" using start(4) step by blast
  moreover have "tk_external u = None" by (rule cancel_wait_post [OF run t(1) u(1)])
  ultimately show "R o2 \<and> idle_task i o2" using u t(2) by (simp add: idle_task_def drainedD)
next
  fix o1 o2 :: "'a owner" and e assume r: "R o1 \<and> childless i o1" and run: "cancel_wait env i o1 = (Inl e, o2)"
  then show "faultless e o2" using hoareD_stop [OF settling_local [OF R settling_cancel_wait]] by blast
qed

lemma idle_local:
  assumes R: "local_to i R" and m: "settling i m"
  shows "hoare (\<lambda>o'. R o' \<and> idle_task i o') m (\<lambda>_ o'. R o' \<and> idle_task i o') faultless"
proof (rule settling_hoare [OF m])
  fix o1 o2 :: "'a owner" and t u
  assume r: "R o1 \<and> idle_task i o1" and step: "exec_ok o2" "settles i o1 o2" and t: "tasks_of o1 i = Some t"
    and u: "tasks_of o2 i = Some u" "drained t u" and ext: "tk_external t = None \<Longrightarrow> tk_external u = None"
  show "R o2 \<and> idle_task i o2"
    using local_toD(4) [OF R r [THEN conjunct1] step] r t u ext by (auto simp: idle_task_def drainedD)
qed (use local_toD [OF R] in blast)+

text \<open>The hook leaves the activation without descendants, waits and operations.\<close>

lemma fault_hook_ok:
  assumes R: "local_to i R" and cur: "\<And>o1. R o1 \<Longrightarrow> sc_current (ow_core o1) = Some i"
  shows "hoare R (before_resume_fault env) (\<lambda>_ o'. R o' \<and> idle_task i o') faultless"
proof -
  have "hoare R (bindX (cancel_descendants env i None) (\<lambda>_. bindX (cancel_wait env i) (\<lambda>_. bindX (cancel_operation env i) (\<lambda>_. retX ()))))
      (\<lambda>_ o'. R o' \<and> idle_task i o') faultless"
    by (rule hoare_bind [OF descendants_local [OF R]], rule hoare_bind [OF wait_local [OF R]],
        rule hoare_bind [OF idle_local [OF R settling_cancel_operation]]) (simp add: hoare_def)
  then show ?thesis
    using cur by (simp add: hoare_def before_resume_fault_def bindX_def)
qed

lemma below_children:
  assumes ok: "owner_ok o1" and t: "tasks_of o1 i = Some t"
  shows "j \<in> below (tasks_of o1) (tk_children t) \<Longrightarrow> j \<in> subtree (tasks_of o1) i \<and> j \<noteq> i"
proof -
  note tree = tree_okD [OF owner_okD(1) [OF ok]]
  assume "j \<in> below (tasks_of o1) (tk_children t)"
  then obtain c where c: "(c, i) \<in> parents (tasks_of o1)" "j \<in> subtree (tasks_of o1) c"
    using tree(3) [OF t] by (auto simp: below_def)
  then have "j \<in> subtree (tasks_of o1) i" using subtree_trans subtree_step [OF c(1) subtree_refl] by blast
  moreover have "j \<noteq> i" using acyclic_not_below [OF tree(2) c(1)] c(2) by auto
  ultimately show ?thesis by blast
qed

lemma running_local: "local_to i (running i)"
  unfolding local_to_def
proof (intro conjI allI impI)
  fix o1 :: "'a owner" assume r: "running i o1"
  then show "exec_ok o1" "i \<in> dom (tasks_of o1)" using exec_okD(4) by (auto simp: running_def)
  show "j \<notin> below (tasks_of o1) (tk_children t)"
    if "sc_current (ow_core o1) = Some j" "tasks_of o1 i = Some t" for j t
    using below_children [OF exec_okD(1) that(2)] that(1) r by (auto simp: running_def)
qed (auto simp: running_def settles_def clears_def same_core_def)


section \<open>Cancelling a child\<close>

text \<open>
  A wrapper runs for the child \<open>i\<close> while its parent \<open>p\<close> is the activation that cancels it: nobody
  waits for the child, and the parent stays alive.
\<close>

definition nested :: "nat \<Rightarrow> nat \<Rightarrow> 'w owner \<Rightarrow> bool" where
  "nested i p o' \<longleftrightarrow> exec_ok o' \<and> (\<exists>t. tasks_of o' i = Some t \<and> tk_parent t = Some p \<and> tk_waiter t = None)
     \<and> (\<exists>q. tasks_of o' p = Some q \<and> \<not> terminal (tk_state q))"

lemma child_apart:
  assumes "exec_ok o'" "tasks_of o' i = Some t" "tk_parent t = Some p"
  shows "p \<notin> subtree (tasks_of o') i"
  by (rule acyclic_not_below [OF tree_okD(2) [OF owner_okD(1) [OF exec_okD(1) [OF assms(1)]]]])
    (use assms in \<open>simp add: parents_iff\<close>)

lemma nested_apart: "nested i p o' \<Longrightarrow> p \<notin> subtree (tasks_of o') i"
  using child_apart unfolding nested_def by blast

lemma nested_ne: "nested i p o' \<Longrightarrow> p \<noteq> i"
  using nested_apart by fastforce

definition nested_running :: "nat \<Rightarrow> nat \<Rightarrow> 'w owner \<Rightarrow> bool" where
  "nested_running i p o' \<longleftrightarrow> nested i p o' \<and> sc_current (ow_core o') = Some i"

lemma nested_settles:
  assumes "nested i p o1" "exec_ok o2" "settles i o1 o2"
  shows "nested i p o2"
proof -
  obtain t where t: "tasks_of o1 i = Some t" "tk_parent t = Some p" "tk_waiter t = None"
    using assms(1) by (auto simp: nested_def)
  obtain u where u: "tasks_of o2 i = Some u" "drained t u" using assms(3) t(1) by (rule settles_task)
  have "tasks_of o2 p = tasks_of o1 p" by (rule settles_rest(4) [OF assms(3) nested_ne [OF assms(1)]])
  then show ?thesis using assms(1,2) t u by (auto simp: nested_def drainedD)
qed

lemma nested_clears:
  assumes n: "nested i p o1" and ok: "exec_ok o2" and t: "tasks_of o1 i = Some t" and cleared: "clears i (tk_children t) o1 o2"
  shows "nested i p o2"
proof -
  have "owner_ok o1" using n exec_okD(1) by (auto simp: nested_def)
  then have "p \<notin> below (tasks_of o1) (tk_children t)"
    using below_children [OF _ t] nested_apart [OF n] by blast
  then have "tasks_of o2 p = tasks_of o1 p"
    using cleared nested_ne [OF n] by (simp add: clears_def)
  then show ?thesis
    using n ok t cleared by (auto simp: nested_def clears_def same_task_def)
qed

lemma nested_local: "local_to i (nested_running i p)"
  unfolding local_to_def
proof (intro conjI allI impI)
  fix o1 :: "'a owner" assume n: "nested_running i p o1"
  then show "exec_ok o1" "i \<in> dom (tasks_of o1)" by (auto simp: nested_running_def nested_def)
  show "j \<notin> below (tasks_of o1) (tk_children t)"
    if "sc_current (ow_core o1) = Some j" "tasks_of o1 i = Some t" for j t
    using below_children [OF exec_okD(1) that(2)] that(1) n by (auto simp: nested_running_def nested_def)
qed (auto simp: nested_running_def settles_def clears_def same_core_def intro: nested_settles nested_clears)

lemma nested_idle_local: "local_to i (\<lambda>o'. nested i p o' \<and> sc_current (ow_core o') = None)"
  unfolding local_to_def
proof (intro conjI allI impI)
  fix o1 :: "'a owner" assume n: "nested i p o1 \<and> sc_current (ow_core o1) = None"
  then show "exec_ok o1" "i \<in> dom (tasks_of o1)" by (auto simp: nested_def)
qed (auto simp: settles_def clears_def same_core_def intro: nested_settles nested_clears)

text \<open>The parent is the running task, and the child is not.\<close>

definition cancelling :: "nat \<Rightarrow> nat \<Rightarrow> 'w owner \<Rightarrow> bool" where
  "cancelling i p o' \<longleftrightarrow> running p o' \<and> (\<exists>t. tasks_of o' i = Some t \<and> tk_parent t = Some p)"

lemma cancelling_apart: "cancelling i p o' \<Longrightarrow> p \<notin> subtree (tasks_of o') i"
  using child_apart unfolding cancelling_def running_def by blast

lemma cancelling_local: "local_to i (cancelling i p)"
  unfolding local_to_def
proof (intro conjI allI impI)
  fix o1 :: "'a owner" assume c: "cancelling i p o1"
  then show "exec_ok o1" "i \<in> dom (tasks_of o1)" by (auto simp: cancelling_def running_def)
  show "j \<notin> below (tasks_of o1) (tk_children t)"
    if "sc_current (ow_core o1) = Some j" "tasks_of o1 i = Some t" for j t
    using below_children [OF exec_okD(1) that(2)] that(1) c cancelling_apart [OF c] by (auto simp: cancelling_def running_def)
next
  fix o1 o2 :: "'a owner" assume c: "cancelling i p o1" and ok: "exec_ok o2" and step: "settles i o1 o2"
  obtain t where t: "tasks_of o1 i = Some t" "tk_parent t = Some p" using c by (auto simp: cancelling_def)
  obtain u where "tasks_of o2 i = Some u" "drained t u" using step t(1) by (rule settles_task)
  then show "cancelling i p o2"
    using c ok t settles_rest(3) [OF step] by (simp add: cancelling_def running_def same_core_def drainedD)
next
  fix o1 o2 :: "'a owner" and t
  assume c: "cancelling i p o1" and ok: "exec_ok o2" and t: "tasks_of o1 i = Some t" and step: "clears i (tk_children t) o1 o2"
  then show "cancelling i p o2"
    by (auto simp: cancelling_def running_def clears_def same_core_def same_task_def)
qed

section \<open>The end of an activation\<close>

definition may_end :: "nat \<Rightarrow> owned_fault + int \<Rightarrow> 'w owner \<Rightarrow> bool" where
  "may_end i outcome o' \<longleftrightarrow> (outcome \<in> range Inl \<union> {Inr 0} \<longrightarrow>
     (\<exists>t. tasks_of o' i = Some t \<and> tk_external t = None \<and> (tk_parent t = None \<longrightarrow> tk_children t = {})))"

lemma hoare_conj: "hoare P m Q E \<Longrightarrow> hoare P m Q' E \<Longrightarrow> hoare P m (\<lambda>x s. Q x s \<and> Q' x s) E"
  by (fastforce simp: hoare_def split: prod.splits sum.splits)

lemma validate_same: "validate_return i status o1 = (r, o2) \<Longrightarrow> o2 = o1"
  by (auto simp: validate_return_def taskX_def bindX_def split: option.splits if_splits)

lemma validate_ok:
  assumes "validate_return i status o1 = (Inr x, o2)" "exec_ok o1"
  shows "may_end i (Inr status) o1"
proof -
  obtain t where t: "tasks_of o1 i = Some t"
    using assms(1) by (auto simp: validate_return_def taskX_def bindX_def split: option.splits)
  have "tk_children t = {}" if "tk_parent t = None" "card (tk_children t) = tk_returned t"
  proof -
    have "tk_returned t = 0"
      using exec_okD(6) [OF assms(2) exec_okD(5) [OF assms(2) t that(1)]] t by (auto simp: root_task_def)
    then show ?thesis using that(2) tree_okD(5) [OF owner_okD(1) [OF exec_okD(1) [OF assms(2)]] t] by simp
  qed
  then show ?thesis
    using assms(1) t by (auto simp: may_end_def validate_return_def bindX_def task_apply split: if_splits)
qed

lemma catch_ok:
  assumes R: "local_to i R" and cur: "\<And>o1. R o1 \<Longrightarrow> sc_current (ow_core o1) = Some i"
    and m: "hoare R m (\<lambda>x o'. Q x o') (\<lambda>e o'. \<forall>message. e = Fault message \<longrightarrow> R o')"
  shows "hoare R (catch_fault_before_drain env m)
    (\<lambda>out o'. case out of Inl f \<Rightarrow> R o' \<and> idle_task i o' | Inr x \<Rightarrow> Q x o') faultless"
proof (rule hoareI)
  fix o1 o2 :: "'a owner" and out
  assume r: "R o1" and run: "catch_fault_before_drain env m o1 = (Inr out, o2)"
  show "case out of Inl f \<Rightarrow> R o2 \<and> idle_task i o2 | Inr x \<Rightarrow> Q x o2"
  proof (cases "m o1")
    case (Pair res o3)
    show ?thesis
    proof (cases res)
      case (Inr x)
      then show ?thesis using run Pair hoareD_ok [OF m r] by (auto simp: catch_fault_before_drain_def)
    next
      case (Inl e)
      then obtain message where e: "e = Fault message"
        using run Pair by (cases e) (auto simp: catch_fault_before_drain_def)
      then have "R o3" using hoareD_stop [OF m r] Pair Inl by blast
      moreover obtain f x where "before_resume_fault env o3 = (Inr x, o2)" "out = Inl f"
        using run Pair Inl e by (auto simp: catch_fault_before_drain_def bindX_def split: prod.splits sum.splits)
      ultimately show ?thesis using hoareD_ok [OF fault_hook_ok [OF R cur]] by auto
    qed
  qed
next
  fix o1 o2 :: "'a owner" and e
  assume r: "R o1" and run: "catch_fault_before_drain env m o1 = (Inl e, o2)"
  show "faultless e o2"
  proof (cases "m o1")
    case (Pair res o3)
    show ?thesis
    proof (cases "\<exists>message. res = Inl (Fault message)")
      case True
      then obtain message where e: "res = Inl (Fault message)" by blast
      then have "R o3" using hoareD_stop [OF m r] Pair by blast
      moreover have "before_resume_fault env o3 = (Inl e, o2)"
        using run Pair e by (auto simp: catch_fault_before_drain_def bindX_def split: prod.splits sum.splits)
      ultimately show ?thesis using hoareD_stop [OF fault_hook_ok [OF R cur]] by blast
    next
      case False
      then have "res = Inl e" using run Pair
        by (cases res) (auto simp: catch_fault_before_drain_def split: stop.splits)
      then show ?thesis using False by (simp add: faultless_def)
    qed
  qed
qed

lemma idle_may_end: "idle_task i o' \<Longrightarrow> may_end i out o'"
  by (auto simp: idle_task_def may_end_def)

lemma validated:
  assumes "\<And>o1. R o1 \<Longrightarrow> exec_ok o1"
  shows "hoare R (bindX (validate_return i 0) (\<lambda>_. retX (0 :: int))) (\<lambda>x o'. R o' \<and> may_end i (Inr x) o' \<and> x = 0)
    (\<lambda>e o'. \<forall>message. e = Fault message \<longrightarrow> R o')"
proof (rule hoareI)
  fix o1 o2 :: "'a owner" and x :: int assume r: "R o1" and run: "bindX (validate_return i 0) (\<lambda>_. retX 0) o1 = (Inr x, o2)"
  then obtain y where y: "validate_return i 0 o1 = (Inr y, o2)" "x = 0" by (auto simp: bindX_eq_Inr)
  have "o2 = o1" by (rule validate_same [OF y(1)])
  then show "R o2 \<and> may_end i (Inr x) o2 \<and> x = 0" using r validate_ok [OF y(1) assms [OF r]] y(2) by simp
next
  fix o1 o2 :: "'a owner" and e assume r: "R o1" and run: "bindX (validate_return i 0) (\<lambda>_. retX (0 :: int)) o1 = (Inl e, o2)"
  then have "validate_return i 0 o1 = (Inl e, o2)" by (auto simp: bindX_eq_Inl)
  then show "\<forall>message. e = Fault message \<longrightarrow> R o2" using r validate_same by blast
qed

lemma wrapper_ok:
  assumes R: "local_to i R" and cur: "\<And>o1. R o1 \<Longrightarrow> sc_current (ow_core o1) = Some i"
  shows "hoare R (wrapper_outcome env i job) (\<lambda>out o'. R o' \<and> may_end i out o' \<and> out \<in> range Inl \<union> {Inr 0}) faultless"
proof -
  let ?post = "\<lambda>out o'. R o' \<and> may_end i out o' \<and> out \<in> range Inl \<union> {Inr 0}"
  have hook: "hoare R (bindX (before_resume_fault env) (\<lambda>_. retX (Inl f))) ?post faultless" for f :: owned_fault
    by (rule hoare_bind [OF fault_hook_ok [OF R cur]]) (auto simp: hoare_def idle_may_end)
  have body: "hoare R (catch_fault_before_drain env (bindX (validate_return i 0) (\<lambda>_. retX 0))) ?post faultless"
    by (rule hoare_weaken [OF catch_ok [OF R cur validated]])
      (use local_toD(1) [OF R] in \<open>auto simp: idle_may_end split: sum.splits\<close>)
  show ?thesis
    unfolding wrapper_outcome_def
    by (rule hoare_bind [OF settling_local [OF R settling_cancel_wait]],
        rule hoare_bind [OF settling_local [OF R settling_update]], simp, simp,
        rule hoare_bind [OF settling_local [OF R settling_world]])
      (use hook body in \<open>simp split: option.split\<close>)
qed


text \<open>The end of a wrapper: nobody waits for the child yet.\<close>

definition nested_ending :: "nat \<Rightarrow> nat \<Rightarrow> 'w owner \<Rightarrow> bool" where
  "nested_ending i p o' \<longleftrightarrow> nested i p o' \<and> sc_current (ow_core o') = None \<and> ending i o'"

lemma nested_ending_drain: "hoare (nested_ending i p) (drain_cleanups env i first) (\<lambda>_. nested_ending i p) faultless"
proof -
  have "hoare (\<lambda>o'. (nested i p o' \<and> sc_current (ow_core o') = None) \<and> ending i o') (drain_cleanups env i first)
      (\<lambda>_ o'. (nested i p o' \<and> sc_current (ow_core o') = None) \<and> ending i o') faultless"
    by (rule hoare_conj; rule hoare_weaken [OF settling_local [OF nested_idle_local settling_drain]]
        hoare_weaken [OF ending_drain]; simp)
  then show ?thesis
    by (rule hoare_weaken) (simp_all add: nested_ending_def)
qed

lemma nested_ending_stamp: "hoare (nested_ending i p) next_stamp (\<lambda>_. nested_ending i p) faultless"
proof (rule hoareI)
  fix o1 o2 :: "'a owner" and n assume e: "nested_ending i p o1" and run: "next_stamp o1 = (Inr n, o2)"
  have "ending i o2" using hoareD_ok [OF ending_stamp _ run] e by (simp add: nested_ending_def)
  moreover have "tasks_of o2 = tasks_of o1" "sc_current (ow_core o2) = sc_current (ow_core o1)"
    using run by (auto simp: next_stamp_def bindX_def split: option.splits)
  ultimately show "nested_ending i p o2" using e by (auto simp: nested_ending_def nested_def ending_def)
qed (auto simp: next_stamp_def bindX_def faultless_def split: option.splits)

lemma nested_ending_state:
  "hoare (nested_ending i p) (updX i (\<lambda>t. t\<lparr>tk_state := s t\<rparr>)) (\<lambda>_ o'. nested i p o' \<and> sc_current (ow_core o') = None) faultless"
proof (rule hoareI)
  fix o1 o2 :: "'a owner" and x assume e: "nested_ending i p o1" and run: "updX i (\<lambda>t. t\<lparr>tk_state := s t\<rparr>) o1 = (Inr x, o2)"
  have ok: "exec_ok o2" using hoareD_ok [OF ending_state _ run] e by (simp add: nested_ending_def)
  obtain t where t: "tasks_of o1 i = Some t" "tk_parent t = Some p" "tk_waiter t = None"
    using e by (auto simp: nested_ending_def nested_def)
  have "o2 = o1\<lparr>ow_core := put_task i (t\<lparr>tk_state := s t\<rparr>) (ow_core o1)\<rparr>"
    using run by (simp add: task_apply(2) [OF t(1)])
  then show "nested i p o2 \<and> sc_current (ow_core o2) = None"
    using e ok t nested_ne [of i p o1] by (auto simp: nested_ending_def nested_def)
qed (auto simp: updX_def taskX_def bindX_def faultless_def split: option.splits)

lemma nested_wake: "nested i p o' \<Longrightarrow> wake_waiter i o' = (Inr (), o')"
  by (auto simp: nested_def wake_waiter_def bindX_def task_apply)

lemma nested_last:
  "hoare (nested_ending i p) (bindX next_stamp (\<lambda>order. bindX (updX i (\<lambda>t. t\<lparr>tk_state := s t order\<rparr>)) (\<lambda>_. wake_waiter i)))
    (\<lambda>_ o'. nested i p o' \<and> sc_current (ow_core o') = None) faultless"
  by (rule hoare_bind [OF nested_ending_stamp], rule hoare_bind [OF nested_ending_state])
    (auto simp: hoare_def nested_wake)

lemma nested_finish:
  assumes "outcome \<in> range Inl \<union> {Inr 0}"
  shows "hoare (\<lambda>o'. nested_running i p o' \<and> may_end i outcome o') (finish_resume env i outcome)
    (\<lambda>_ o'. nested i p o' \<and> sc_current (ow_core o') = None) faultless"
proof -
  have idle: "hoare (\<lambda>o'. nested_running i p o' \<and> may_end i outcome o') (modC (\<lambda>core. core\<lparr>sc_current := None\<rparr>))
      (\<lambda>_. nested_ending i p) faultless"
    using assms by (auto simp: hoare_def nested_running_def nested_ending_def nested_def ending_def may_end_def exec_ok_idle)
  show ?thesis by (rule finish_resume_rule [OF assms idle nested_ending_drain nested_last])
qed

text \<open>\<open>complete_before_cancel\<close>: the child has ended, or nothing but the world has changed.\<close>

lemma complete_ok:
  "hoare (\<lambda>o'. cancelling i p o' \<and> (\<exists>t. tasks_of o' i = Some t \<and> \<not> terminal (tk_state t)))
    (complete_before_cancel env i) (\<lambda>_. cancelling i p) faultless"
proof -
  let ?pre = "\<lambda>o' :: 'a owner. cancelling i p o' \<and> (\<exists>t. tasks_of o' i = Some t \<and> \<not> terminal (tk_state t))"
  have enter: "hoare ?pre
      (bindX (modC (\<lambda>core. core\<lparr>sc_current := Some i, sc_ready := filter (\<lambda>j. j \<noteq> i) (sc_ready core)\<rparr>)) (\<lambda>_.
       updX i (\<lambda>t. t\<lparr>tk_state := Running, tk_waiter := None\<rparr>))) (\<lambda>_. nested_running i p) faultless"
  proof (rule hoareI)
    fix o1 o2 :: "'a owner" and x
    assume pre: "?pre o1" and run: "bindX (modC (\<lambda>core. core\<lparr>sc_current := Some i, sc_ready := filter (\<lambda>j. j \<noteq> i) (sc_ready core)\<rparr>)) (\<lambda>_.
       updX i (\<lambda>t. t\<lparr>tk_state := Running, tk_waiter := None\<rparr>)) o1 = (Inr x, o2)"
    obtain t where t: "tasks_of o1 i = Some t" "tk_parent t = Some p" "\<not> terminal (tk_state t)"
      using pre by (auto simp: cancelling_def)
    have ok: "exec_ok o1" and cur: "sc_current (ow_core o1) = Some p" using pre by (auto simp: cancelling_def running_def)
    let ?o = "o1\<lparr>ow_core := (ow_core o1)\<lparr>sc_current := Some i, sc_ready := filter (\<lambda>j. j \<noteq> i) (sc_ready (ow_core o1))\<rparr>\<rparr>"
    have "current_ok ?o" using t by (simp add: current_ok_def)
    then have mid: "exec_ok ?o"
      using exec_okD(1,2,8) [OF ok] by (simp add: exec_ok_def owner_ok_def frames_ok_def waits_ok_def ids_ok_def root_ok_def ended_ok_def)
    have step: "updX i (\<lambda>t. t\<lparr>tk_state := Running, tk_waiter := None\<rparr>) ?o = (Inr x, o2)" using run by (simp add: bindX_def)
    have kept: "keeps (updX i (\<lambda>t. t\<lparr>tk_state := Running, tk_waiter := None\<rparr>) :: ('a, unit) act)" by (intro keeps_intros)
    have "exec_ok o2" using keepsD(1) [OF kept mid] step by blast
    moreover note step
    moreover have "p \<noteq> i" using child_apart [OF ok t(1,2)] by auto
    ultimately show "nested_running i p o2"
      using t exec_okD(4) [OF ok cur] by (auto simp: nested_running_def nested_def task_apply)
  qed (auto simp: bindX_def updX_def taskX_def faultless_def split: option.splits)
  have leave: "hoare (\<lambda>o'. nested i p o' \<and> sc_current (ow_core o') = None)
      (modC (\<lambda>core. core\<lparr>sc_current := Some p\<rparr>) :: ('a, unit) act) (\<lambda>_. cancelling i p) faultless"
    by (auto simp: hoare_def nested_def cancelling_def running_def exec_ok_def owner_ok_def frames_ok_def waits_ok_def ids_ok_def
        root_ok_def ended_ok_def current_ok_def)
  have waiter: "hoare (cancelling i p) (updX i (\<lambda>u. u\<lparr>tk_waiter := w\<rparr>) :: ('a, unit) act) (\<lambda>_. cancelling i p) faultless" for w
  proof (rule hoareI)
    fix o1 o2 :: "'a owner" and x assume c: "cancelling i p o1" and run: "updX i (\<lambda>u. u\<lparr>tk_waiter := w\<rparr>) o1 = (Inr x, o2)"
    have "exec_ok o2" using keepsD(1) [OF keeps_update _ run] c by (simp add: harmless_intros cancelling_def running_def)
    then show "cancelling i p o2" using c run by (auto simp: cancelling_def running_def task_apply)
  qed (auto simp: updX_def taskX_def bindX_def faultless_def split: option.splits)
  let ?chain = "\<lambda>w job. bindX (bindX (modC (\<lambda>core. core\<lparr>sc_current := Some i, sc_ready := filter (\<lambda>j. j \<noteq> i) (sc_ready core)\<rparr>))
      (\<lambda>_. updX i (\<lambda>t. t\<lparr>tk_state := Running, tk_waiter := None\<rparr>))) (\<lambda>_.
    bindX (wrapper_outcome env i job) (\<lambda>outcome.
    bindX (finish_resume env i outcome) (\<lambda>_.
    bindX (modC (\<lambda>core. core\<lparr>sc_current := Some p\<rparr>)) (\<lambda>_.
    bindX (updX i (\<lambda>u. u\<lparr>tk_waiter := w\<rparr>)) (\<lambda>_.
    bindX (taskX i) (\<lambda>u.
    bindX (guardX (terminal (tk_state u)) (Fatal ''worker completion wrapper suspended'')) (\<lambda>_.
    retX True)))))))"
  have tail: "hoare (cancelling i p) (bindX (taskX i) (\<lambda>u.
      bindX (guardX (terminal (tk_state u)) (Fatal ''worker completion wrapper suspended'')) (\<lambda>_. retX True)) :: ('a, bool) act)
      (\<lambda>_. cancelling i p) faultless"
    by (auto simp: hoare_def cancelling_def bindX_def task_apply faultless_def split: if_splits)
  have finish: "hoare (\<lambda>o'. nested_running i p o' \<and> may_end i outcome o' \<and> outcome \<in> range Inl \<union> {Inr 0})
      (finish_resume env i outcome) (\<lambda>_ o'. nested i p o' \<and> sc_current (ow_core o') = None) faultless" for outcome
    using nested_finish [of outcome i p env] by (cases "outcome \<in> range Inl \<union> {Inr 0}") (simp_all add: hoare_def)
  have cur: "\<And>o1. nested_running i p o1 \<Longrightarrow> sc_current (ow_core o1) = Some i" by (simp add: nested_running_def)
  have chain: "hoare ?pre (?chain w job) (\<lambda>_. cancelling i p) faultless" for w job
    by (intro hoare_bind [OF enter] hoare_bind [OF wrapper_ok [OF nested_local cur]] hoare_bind [OF finish]
        hoare_bind [OF leave] hoare_bind [OF waiter] tail)
  have main: "case r of Inl e \<Rightarrow> faultless e o2 | Inr _ \<Rightarrow> cancelling i p o2"
    if pre: "?pre o1" and run: "complete_before_cancel env i o1 = (r, o2)" for r and o1 o2 :: "'a owner"
  proof -
    obtain t where t: "tasks_of o1 i = Some t" and cur: "sc_current (ow_core o1) = Some p"
      using pre by (auto simp: cancelling_def running_def)
    show ?thesis
    proof (cases "tk_computation t")
      case None
      then show ?thesis using run pre t by (auto simp: complete_before_cancel_def bindX_def task_apply)
    next
      case (Some job)
      let ?o = "o1\<lparr>ow_world := snd (en_computation_first env job (ow_world o1))\<rparr>"
      have pre': "?pre ?o" using pre by (simp add: cancelling_def running_def)
      show ?thesis
      proof (cases "fst (en_computation_first env job (ow_world o1))")
        case False
        then show ?thesis using run pre' Some t by (auto simp: complete_before_cancel_def bindX_def task_apply)
      next
        case True
        then have "complete_before_cancel env i o1 = ?chain (tk_waiter t) job ?o"
          unfolding complete_before_cancel_def bindX_assoc using Some t cur
          by (simp add: bindX_def task_apply cong: sum.case_cong prod.case_cong)
        then have eq: "?chain (tk_waiter t) job ?o = (r, o2)" using run by simp
        show ?thesis
        proof (cases r)
          case (Inl e)
          show ?thesis using hoareD_stop [OF chain pre'] eq Inl by simp
        next
          case (Inr x)
          show ?thesis using hoareD_ok [OF chain pre'] eq Inr by simp
        qed
      qed
    qed
  qed
  show ?thesis
  proof (rule hoareI)
    fix o1 o2 :: "'a owner" and x assume pre: "?pre o1" and run: "complete_before_cancel env i o1 = (Inr x, o2)"
    then show "cancelling i p o2" using main [OF pre run] by simp
  next
    fix o1 o2 :: "'a owner" and e assume pre: "?pre o1" and run: "complete_before_cancel env i o1 = (Inl e, o2)"
    then show "faultless e o2" using main [OF pre run] by simp
  qed
qed


text \<open>\<open>task_cancel_begin\<close>: the running task stays the current one.\<close>

lemma cancelling_update:
  assumes "harmless f" "\<And>t. tk_parent (f t) = tk_parent t"
  shows "hoare (cancelling i p) (updX j f) (\<lambda>_. cancelling i p) faultless"
proof (rule hoareI)
  fix o1 o2 :: "'a owner" and x assume c: "cancelling i p o1" and run: "updX j f o1 = (Inr x, o2)"
  have "exec_ok o2" using keepsD(1) [OF keeps_update [OF assms(1)] _ run] c by (simp add: cancelling_def running_def)
  then show "cancelling i p o2"
    using c run assms(2) by (auto simp: cancelling_def running_def updX_def taskX_def bindX_def split: option.splits)
qed (auto simp: updX_def taskX_def bindX_def faultless_def split: option.splits)

lemma cancelling_forget: "hoare (cancelling i p) (observation_remove i) (\<lambda>_. cancelling i p) faultless"
proof -
  have second: "hoare (cancelling i p) (case tk_parent t of
       None \<Rightarrow> retX ()
     | Some parent \<Rightarrow>
         updX parent (\<lambda>p. p\<lparr>tk_observation :=
           map_option (forget_child i (terminal_order (tk_state t))) (tk_observation p)\<rparr>)) (\<lambda>_. cancelling i p) faultless" for t
    by (cases "tk_parent t") (auto intro!: cancelling_update harmless_intros hoare_ret)
  have first: "hoare (cancelling i p) (taskX i) (\<lambda>_. cancelling i p) faultless"
    by (auto simp: hoare_def taskX_def bindX_def faultless_def split: option.split)
  show ?thesis
    unfolding observation_remove_def by (rule hoare_bind [OF first second])
qed

lemma cancelling_ending: "cancelling i p o' \<Longrightarrow> idle_task i o' \<Longrightarrow> ending i o'"
  using cancelling_apart [of i p o'] by (auto simp: cancelling_def running_def idle_task_def ending_def)

lemma cancelling_end:
  "hoare (\<lambda>o'. cancelling i p o' \<and> idle_task i o') (bindX next_stamp (\<lambda>order. updX i (\<lambda>t. t\<lparr>tk_state := s order\<rparr>)))
    (\<lambda>_. running p) faultless"
proof -
  have stamp: "hoare (\<lambda>o'. cancelling i p o' \<and> idle_task i o') next_stamp
      (\<lambda>_ o' :: 'a owner. ending i o' \<and> sc_current (ow_core o') = Some p) faultless"
  proof (rule hoareI)
    fix o1 o2 :: "'a owner" and n assume c: "cancelling i p o1 \<and> idle_task i o1" and run: "next_stamp o1 = (Inr n, o2)"
    have "ending i o2" using hoareD_ok [OF ending_stamp _ run] cancelling_ending c by blast
    then show "ending i o2 \<and> sc_current (ow_core o2) = Some p"
      using run c by (auto simp: next_stamp_def bindX_def cancelling_def running_def split: option.splits)
  qed (auto simp: next_stamp_def bindX_def faultless_def split: option.splits)
  have upd: "hoare (\<lambda>o'. ending i o' \<and> sc_current (ow_core o') = Some p) (updX i (\<lambda>t. t\<lparr>tk_state := s order\<rparr>))
      (\<lambda>_. running p :: 'a owner \<Rightarrow> bool) faultless" for order
  proof (rule hoareI)
    fix o1 o2 :: "'a owner" and x assume e: "ending i o1 \<and> sc_current (ow_core o1) = Some p"
      and run: "updX i (\<lambda>t. t\<lparr>tk_state := s order\<rparr>) o1 = (Inr x, o2)"
    have "exec_ok o2" using hoareD_ok [OF ending_state [of i "\<lambda>_. s order"] _ run] e by blast
    moreover have "sc_current (ow_core o2) = Some p"
      using run e by (auto simp: updX_def taskX_def bindX_def split: option.splits)
    ultimately show "running p o2" by (simp add: running_def)
  qed (auto simp: updX_def taskX_def bindX_def faultless_def split: option.splits)
  show ?thesis by (rule hoare_bind [OF stamp upd])
qed

text \<open>What cancels a child that has not ended.\<close>

definition cancel_rest :: "'w env \<Rightarrow> nat \<Rightarrow> ('w, unit) act" where
  "cancel_rest env child =
     bindX (complete_before_cancel env child) (\<lambda>completed.
       if completed then retX ()
       else
         bindX (cancel_descendants env child None) (\<lambda>first.
         bindX (cancel_wait env child) (\<lambda>_.
         bindX (cancel_operation env child) (\<lambda>failure.
         bindX (drain_cleanups env child (if first = None then failure else first)) (\<lambda>first.
         bindX next_stamp (\<lambda>order.
         updX child (\<lambda>t. t\<lparr>tk_state :=
           (case first of Some failure \<Rightarrow> Faulted failure order | None \<Rightarrow> Cancelled order)\<rparr>)))))))"

lemma cancel_rest_ok:
  "hoare (\<lambda>o'. cancelling i p o' \<and> (\<exists>t. tasks_of o' i = Some t \<and> \<not> terminal (tk_state t)))
    (cancel_rest env i) (\<lambda>_. running p) faultless"
  unfolding cancel_rest_def
proof (rule hoare_bind [OF complete_ok])
  fix completed
  note steps = hoare_bind [OF descendants_local [OF cancelling_local]] hoare_bind [OF wait_local [OF cancelling_local]]
    hoare_bind [OF idle_local [OF cancelling_local settling_cancel_operation]]
    hoare_bind [OF idle_local [OF cancelling_local settling_drain]]
  have "hoare (cancelling i p) (bindX (cancel_descendants env i None) (\<lambda>first.
         bindX (cancel_wait env i) (\<lambda>_.
         bindX (cancel_operation env i) (\<lambda>failure.
         bindX (drain_cleanups env i (if first = None then failure else first)) (\<lambda>first.
         bindX next_stamp (\<lambda>order.
         updX i (\<lambda>t. t\<lparr>tk_state :=
           (case first of Some failure \<Rightarrow> Faulted failure order | None \<Rightarrow> Cancelled order)\<rparr>)))))))
      (\<lambda>_. running p) faultless"
    by (intro steps cancelling_end)
  then show "hoare (cancelling i p) (if completed then retX () else bindX (cancel_descendants env i None) (\<lambda>first.
         bindX (cancel_wait env i) (\<lambda>_.
         bindX (cancel_operation env i) (\<lambda>failure.
         bindX (drain_cleanups env i (if first = None then failure else first)) (\<lambda>first.
         bindX next_stamp (\<lambda>order.
         updX i (\<lambda>t. t\<lparr>tk_state :=
           (case first of Some failure \<Rightarrow> Faulted failure order | None \<Rightarrow> Cancelled order)\<rparr>))))))) (\<lambda>_. running p) faultless"
    by (simp add: hoare_def cancelling_def)
qed


lemma cancel_begin_ok: "hoare (running p) (task_cancel_begin env child) (\<lambda>_. running p) (fault_running p)"
proof -
  have weak: "faultless e o' \<Longrightarrow> fault_running p e o'" for e and o' :: "'a owner"
    by (auto simp: fault_running_def faultless_def)
  let ?tail = "\<lambda>t. bindX (observation_remove child) (\<lambda>_.
     bindX (updX child (\<lambda>t. t\<lparr>tk_waiter := Some p\<rparr>)) (\<lambda>_.
     if terminal (tk_state t) then retX () else cancel_rest env child))"
  have main: "case r of Inl e \<Rightarrow> fault_running p e o2 | Inr _ \<Rightarrow> running p o2"
    if pre: "running p o1" and run: "task_cancel_begin env child o1 = (r, o2)" for r and o1 o2 :: "'a owner"
  proof (cases "\<exists>t c. tasks_of o1 child = Some t \<and> tk_parent t = Some p \<and> tasks_of o1 p = Some c \<and> tk_state c = Running
      \<and> tk_external c = None \<and> \<not> tk_returned_to_parent t \<and> (tk_waiter t = None \<or> tk_waiter t = Some p)")
    case False
    have cur: "sc_current (ow_core o1) = Some p" using pre by (simp add: running_def)
    obtain c where c: "tasks_of o1 p = Some c" using exec_okD(4) [OF _ cur] pre by (auto simp: running_def)
    have "o2 = o1 \<and> r \<in> range Inl"
      using run cur False c
      by (cases "tasks_of o1 child")
        (auto simp: task_cancel_begin_def parentX_def bindX_def task_apply split: option.splits if_splits)
    then show ?thesis using pre by (auto simp: fault_running_def)
  next
    case True
    then obtain t c where t: "tasks_of o1 child = Some t" "tk_parent t = Some p" and c: "tasks_of o1 p = Some c" "tk_state c = Running"
        "tk_external c = None" "\<not> tk_returned_to_parent t" "tk_waiter t = None \<or> tk_waiter t = Some p" by blast
    have cur: "sc_current (ow_core o1) = Some p" using pre by (simp add: running_def)
    have start: "task_cancel_begin env child o1 = ?tail t o1"
      unfolding task_cancel_begin_def cancel_rest_def [symmetric]
      using t c cur by (auto simp: parentX_def bindX_def task_apply)
    have can: "cancelling child p o1" using pre t by (simp add: cancelling_def)
    let ?state = "\<lambda>o' :: 'a owner. cancelling child p o' \<and> (\<exists>u. tasks_of o' child = Some u \<and> tk_state u = tk_state t)"
    have forget: "hoare ?state (observation_remove child) (\<lambda>_. ?state) faultless"
    proof (rule hoareI)
      fix o3 o4 :: "'a owner" and x assume s: "?state o3" and run: "observation_remove child o3 = (Inr x, o4)"
      have "cancelling child p o4" using hoareD_ok [OF cancelling_forget _ run] s by blast
      moreover have "\<exists>v. tasks_of o4 child = Some v \<and> tk_state v = tk_state t"
        using run s by (auto simp: observation_remove_def bindX_def task_apply updX_def taskX_def split: option.splits)
      ultimately show "?state o4" ..
    qed (use hoareD_stop [OF cancelling_forget] in blast)
    have waiter: "hoare ?state (updX child (\<lambda>t. t\<lparr>tk_waiter := Some p\<rparr>)) (\<lambda>_. ?state) faultless"
    proof (rule hoareI)
      have upd: "hoare (cancelling child p) (updX child (\<lambda>t. t\<lparr>tk_waiter := Some p\<rparr>)) (\<lambda>_. cancelling child p :: 'a owner \<Rightarrow> bool) faultless"
        by (rule cancelling_update) (simp_all add: harmless_intros)
      fix o3 o4 :: "'a owner" and x assume s: "?state o3" and run: "updX child (\<lambda>t. t\<lparr>tk_waiter := Some p\<rparr>) o3 = (Inr x, o4)"
      have "cancelling child p o4" using hoareD_ok [OF upd _ run] s by blast
      then show "?state o4" using run s by (auto simp: task_apply)
    qed (auto simp: updX_def taskX_def bindX_def faultless_def split: option.splits)
    have rest: "hoare ?state (if terminal (tk_state t) then retX () else cancel_rest env child) (\<lambda>_. running p) faultless"
    proof (cases "terminal (tk_state t)")
      case True
      then show ?thesis by (auto simp: hoare_def cancelling_def)
    next
      case False
      then show ?thesis by (auto intro: hoare_weaken [OF cancel_rest_ok])
    qed
    have tail: "hoare ?state (?tail t) (\<lambda>_. running p) faultless"
      by (rule hoare_bind [OF forget hoare_bind [OF waiter rest]])
    have state: "?state o1" using can t by simp
    show ?thesis
    proof (cases r)
      case (Inl e)
      show ?thesis using hoareD_stop [OF tail state] run start Inl weak by simp
    next
      case (Inr x)
      show ?thesis using hoareD_ok [OF tail state] run start Inr by simp
    qed
  qed
  show ?thesis
  proof (rule hoareI)
    fix o1 o2 :: "'a owner" and x assume pre: "running p o1" and run: "task_cancel_begin env child o1 = (Inr x, o2)"
    then show "running p o2" using main [OF pre run] by simp
  next
    fix o1 o2 :: "'a owner" and e assume pre: "running p o1" and run: "task_cancel_begin env child o1 = (Inl e, o2)"
    then show "fault_running p e o2" using main [OF pre run] by simp
  qed
qed

end
