(* ===== verification/Scheduler.thy ===== *)
theory Scheduler
  imports Resume
begin

text \<open>
  The executor (\<open>compiler/runtime/src/tasks.rs\<close>: \<open>Owner::poll\<close>, \<open>drive\<close>, \<open>resume_task\<close>,
  \<open>wait_failure\<close> and \<open>task_run\<close>) as a step relation over its phases.  Generated code is an arbitrary
  sequence of the operations of \<open>TaskOps\<close>, ended by a status or by a fault.
\<close>

section \<open>Polling\<close>

text \<open>The body of the loop of \<open>Owner::poll\<close>: a notification that nobody waits for is dropped.\<close>

definition deliver :: "'w env \<Rightarrow> notification \<Rightarrow> ('w, unit) act" where
  "deliver env n =
     bindX (getC (\<lambda>core. sc_tasks core (nt_owner n))) (\<lambda>found.
     case found of
       None \<Rightarrow> retX ()
     | Some t \<Rightarrow>
         (case tk_external t of
            None \<Rightarrow> retX ()
          | Some ext \<Rightarrow>
              if tk_state t \<noteq> ExternalWaiting \<or> ex_registration ext \<noteq> nt_registration n \<or> ex_ready ext \<noteq> None
              then retX ()
              else
                bindX (case ex_socket ext of
                    None \<Rightarrow> retX ()
                  | Some socket \<Rightarrow> wX (\<lambda>w. ((), en_socket_ready env socket (nt_events n) w))) (\<lambda>_.
                bindX (updX (nt_owner n) (\<lambda>t. t\<lparr>tk_external := Some (ext\<lparr>ex_ready := Some n\<rparr>), tk_state := Queued\<rparr>)) (\<lambda>_.
                bindX pending_less (\<lambda>_.
                modC (push_back (nt_owner n)))))))"

text \<open>\<open>reactor.pop_ready()\<close>; the number of rounds is the length of the reactor's ready queue.\<close>

definition pop_notification :: "('w, notification option) act" where
  "pop_notification = (\<lambda>o'. case ow_reactor o' of
       None \<Rightarrow> (Inl Panic, o')
     | Some r \<Rightarrow> (case pop_ready r of (n, r') \<Rightarrow> (n, o'\<lparr>ow_reactor := Some r'\<rparr>)))"

primrec deliver_loop :: "'w env \<Rightarrow> nat \<Rightarrow> ('w, unit) act" where
  "deliver_loop env 0 = stopX Spinning"
| "deliver_loop env (Suc rounds) =
     bindX pop_notification (\<lambda>found.
     case found of
       None \<Rightarrow> retX ()
     | Some n \<Rightarrow> bindX (deliver env n) (\<lambda>_. deliver_loop env rounds))"

text \<open>\<open>Owner::poll\<close>; \<open>None\<close> is a wait that never returns.\<close>

definition poll :: "'w env \<Rightarrow> bool \<Rightarrow> 'w owner \<Rightarrow> ((stop + (io_error + unit)) \<times> 'w owner) option" where
  "poll env blocking o' =
     (if sc_pending (ow_core o') = 0 then Some (Inr (Inr ()), o')
      else case ow_reactor o' of
        None \<Rightarrow> Some (Inl Panic, o')
      | Some r \<Rightarrow>
          (case wait (en_poller env) (if blocking then None else Some 0) (r, ow_world o') of
             None \<Rightarrow> None
           | Some (result, (r, w)) \<Rightarrow>
               (let o' = o'\<lparr>ow_reactor := Some r, ow_world := w\<rparr> in
                case result of
                  Inl e \<Rightarrow> Some (Inl e, o')
                | Inr (Inl e) \<Rightarrow> Some (Inr (Inl e), o')
                | Inr (Inr _) \<Rightarrow> Some (bindX (deliver_loop env (Suc (length (re_ready r)))) (\<lambda>_. retX (Inr ())) o'))))"

section \<open>Failures of the executor\<close>

text \<open>\<open>Owner::wait_failure\<close>: the diagnostic of a failed wait, after the whole tree is cancelled.\<close>

definition wait_failure :: "'w env \<Rightarrow> nat \<Rightarrow> io_error \<Rightarrow> ('w, owned_fault) act" where
  "wait_failure env root e =
     bindX (case wait_fault env e of
         Fault message \<Rightarrow> bindX (getX ow_world) (\<lambda>w. retX \<lparr>of_message = message, of_test_name = en_test_name env w\<rparr>)
       | stop \<Rightarrow> stopX stop) (\<lambda>failure.
     bindX (cancel_tree env root (Some failure)) (\<lambda>first.
     bindX (modC (\<lambda>core. core\<lparr>sc_root := None, sc_ready := []\<rparr>)) (\<lambda>_.
     someX first Panic)))"

text \<open>\<open>task_run\<close> when the constructor failed: what it created is cancelled.\<close>

definition abandon :: "'w env \<Rightarrow> owned_fault \<Rightarrow> ('w, owned_fault) act" where
  "abandon env failure =
     bindX (getC sc_root) (\<lambda>root.
     bindX (modC (\<lambda>core. core\<lparr>sc_root := None\<rparr>)) (\<lambda>_.
     bindX (case root of None \<Rightarrow> retX (Some failure) | Some root \<Rightarrow> cancel_tree env root (Some failure)) (\<lambda>first.
     bindX (modC (\<lambda>core. core\<lparr>sc_ready := []\<rparr>)) (\<lambda>_.
     someX first Panic))))"

section \<open>Generated code\<close>

datatype operation =
    Cleanup_push int nat
  | Result_cleanup_push nat
  | Cleanup_pop int
  | Adopt nat nat
  | Return nat
  | Create nat nat string
  | Await nat
  | Peek_result nat
  | Result nat
  | Release nat
  | Wait_timer int
  | Wait_source wait_source "nat option"
  | Provider nat bool
  | Observe nat int
  | Wait_next
  | Next_result
  | Next_terminal_result
  | Next_terminal_index
  | Next_terminal_failure
  | Status nat
  | Failure nat
  | Drain nat bool
  | Wait_worker nat nat
  | Worker_result
  | Cancel_begin nat

text \<open>A value that a call returns is used by the generated code only.\<close>

definition call :: "('w, 'a) act \<Rightarrow> ('w, unit) act" where
  "call m = bindX m (\<lambda>_. retX ())"

fun perform :: "'w env \<Rightarrow> operation \<Rightarrow> ('w, unit) act" where
  "perform env (Cleanup_push site callback) = task_cleanup_push site callback"
| "perform env (Result_cleanup_push callback) = task_result_cleanup_push callback"
| "perform env (Cleanup_pop site) = task_cleanup_pop site"
| "perform env (Adopt callee child) = task_adopt callee child"
| "perform env (Return child) = call (task_return child)"
| "perform env (Create frame resume creation) = call (task_create frame resume creation)"
| "perform env (Await child) = call (task_await child)"
| "perform env (Peek_result child) = call (task_peek_result child)"
| "perform env (Result child) = call (task_result child)"
| "perform env (Release child) = task_release child"
| "perform env (Wait_timer deadline) = call (task_wait_timer env deadline)"
| "perform env (Wait_source source socket) = call (wait_source env source socket)"
| "perform env (Provider identity ready) = call (provider_completion env identity ready)"
| "perform env (Observe child n) = call (task_observe child n)"
| "perform env Wait_next = call task_wait_next"
| "perform env Next_result = call task_next_result"
| "perform env Next_terminal_result = call task_next_terminal_result"
| "perform env Next_terminal_index = call task_next_terminal_index"
| "perform env Next_terminal_failure = call task_next_terminal_failure"
| "perform env (Status child) = call (task_status child)"
| "perform env (Failure child) = call (task_failure child)"
| "perform env (Drain child suppress) = call (task_drain env child suppress)"
| "perform env (Wait_worker frame callback) = call (task_wait_worker env frame callback)"
| "perform env Worker_result = call (task_worker_result env)"
| "perform env (Cancel_begin child) = task_cancel_begin env child"

text \<open>Between the calls, generated code may act on the world, and a collection may move every frame.\<close>

inductive acts :: "'w env \<Rightarrow> 'w owner \<Rightarrow> 'w owner \<Rightarrow> bool" for env where
  perform: "perform env op o1 = (Inr (), o2) \<Longrightarrow> acts env o1 o2"
| world: "acts env o1 (o1\<lparr>ow_world := w\<rparr>)"
| collect: "acts env o1 (o1\<lparr>ow_roots := fr_trace move (ow_roots o1)\<rparr>)"

text \<open>The faults of generated code: of an operation, or its own.\<close>

inductive raises :: "'w env \<Rightarrow> 'w owner \<Rightarrow> owned_fault \<Rightarrow> 'w owner \<Rightarrow> bool" for env where
  operation: "perform env op o1 = (Inl (Fault message), o2) \<Longrightarrow>
    raises env o1 \<lparr>of_message = message, of_test_name = en_test_name env (ow_world o2)\<rparr> o2"
| raised: "raises env o1 f o1"

text \<open>The faults of an activation: of its code, or of what it returns.\<close>

inductive faults :: "'w env \<Rightarrow> nat \<Rightarrow> 'w owner \<Rightarrow> owned_fault \<Rightarrow> 'w owner \<Rightarrow> bool" for env i where
  running: "raises env o1 f o2 \<Longrightarrow> faults env i o1 f o2"
| returned: "validate_return i status o1 = (Inl (Fault message), o2) \<Longrightarrow>
    faults env i o1 \<lparr>of_message = message, of_test_name = en_test_name env (ow_world o2)\<rparr> o2"

text \<open>\<open>Owner::resume_task\<close> up to \<open>finish_resume\<close>.\<close>

inductive resumed :: "'w env \<Rightarrow> nat \<Rightarrow> 'w owner \<Rightarrow> owned_fault + int \<Rightarrow> 'w owner \<Rightarrow> bool" for env i where
  returned: "(acts env)\<^sup>*\<^sup>* o1 o2 \<Longrightarrow> validate_return i status o2 = (Inr (), o3) \<Longrightarrow> resumed env i o1 (Inr status) o3"
| faulted: "(acts env)\<^sup>*\<^sup>* o1 o2 \<Longrightarrow> faults env i o2 f o3 \<Longrightarrow> before_resume_fault env o3 = (Inr (), o4) \<Longrightarrow>
    resumed env i o1 (Inl f) o4"

section \<open>The executor\<close>

datatype phase =
    Polling
  | Choosing
  | Sleeping
  | Ended "owned_fault + unit"

text \<open>\<open>Owner::drive\<close>: poll, choose, then resume the chosen task or sleep.\<close>

inductive exec_step :: "'w env \<Rightarrow> nat \<Rightarrow> phase \<times> 'w owner \<Rightarrow> phase \<times> 'w owner \<Rightarrow> bool" for env root where
  polled: "poll env False o1 = Some (Inr (Inr ()), o2) \<Longrightarrow> exec_step env root (Polling, o1) (Choosing, o2)"
| poll_failed: "poll env False o1 = Some (Inr (Inl e), o2) \<Longrightarrow> wait_failure env root e o2 = (Inr f, o3) \<Longrightarrow>
    exec_step env root (Polling, o1) (Ended (Inl f), o3)"
| resume: "drive_next root o1 = (Inr (Resume i), o2) \<Longrightarrow> resumed env i o2 outcome o3 \<Longrightarrow>
    finish_resume env i outcome o3 = (Inr (), o4) \<Longrightarrow> exec_step env root (Choosing, o1) (Polling, o4)"
| blocked: "drive_next root o1 = (Inr Blocked, o2) \<Longrightarrow> exec_step env root (Choosing, o1) (Sleeping, o2)"
| finished: "drive_next root o1 = (Inr (Finished out), o2) \<Longrightarrow> exec_step env root (Choosing, o1) (Ended out, o2)"
| woken: "poll env True o1 = Some (Inr (Inr ()), o2) \<Longrightarrow> exec_step env root (Sleeping, o1) (Polling, o2)"
| wait_failed: "poll env True o1 = Some (Inr (Inl e), o2) \<Longrightarrow> wait_failure env root e o2 = (Inr f, o3) \<Longrightarrow>
    exec_step env root (Sleeping, o1) (Ended (Inl f), o3)"

inductive_cases exec_stepE: "exec_step env root (ph, o1) (ph', o2)"

text \<open>\<open>task_run\<close>: the constructor runs without a current task and must create the root it returns.\<close>

inductive started :: "'w env \<Rightarrow> nat \<Rightarrow> phase \<times> 'w owner \<Rightarrow> bool" for env root where
  driving: "(acts env)\<^sup>*\<^sup>* (new_owner w) o1 \<Longrightarrow> sc_root (ow_core o1) = Some root \<Longrightarrow> started env root (Polling, o1)"
| failed: "(acts env)\<^sup>*\<^sup>* (new_owner w) o1 \<Longrightarrow> raises env o1 f o2 \<Longrightarrow> abandon env f o2 = (Inr f', o3) \<Longrightarrow>
    started env root (Ended (Inl f'), o3)"

end
