(* ===== verification/Executor.thy ===== *)
theory Executor
  imports Scheduler
begin

text \<open>
  The executor's steps keep its invariant: between two activations no task is current, the tree hangs
  below the root, the live frames are those of the tasks, and the pending count is exact.  An executor
  that has ended has nothing left.
\<close>

section \<open>One root\<close>

lemma parents_wf:
  assumes "tree_ok T"
  shows "wf ((parents T)\<inverse>)"
proof (rule finite_acyclic_wf_converse)
  have "parents T \<subseteq> dom T \<times> dom T" using tree_okD(4,6) [OF assms] by (auto simp: parents_def)
  then show "finite (parents T)" using tree_okD(1) [OF assms] finite_subset by blast
  show "acyclic (parents T)" by (rule tree_okD(2) [OF assms])
qed

lemma below_root:
  assumes ok: "exec_ok o'" and root: "sc_root (ow_core o') = Some r"
  shows "subtree (tasks_of o') r = dom (tasks_of o')"
proof
  note tree = owner_okD(1) [OF exec_okD(1) [OF ok]]
  have "r \<in> dom (tasks_of o')" using exec_okD(6) [OF ok root] by blast
  then show "subtree (tasks_of o') r \<subseteq> dom (tasks_of o')" by (rule subtree_dom)
  have "j \<in> dom (tasks_of o') \<longrightarrow> j \<in> subtree (tasks_of o') r" for j
  proof (induction j rule: wf_induct_rule [OF parents_wf [OF tree]])
    case (1 j)
    show ?case
    proof
      assume "j \<in> dom (tasks_of o')"
      then obtain t where t: "tasks_of o' j = Some t" by blast
      show "j \<in> subtree (tasks_of o') r"
      proof (cases "tk_parent t")
        case None
        then show ?thesis using exec_okD(5) [OF ok t] root by simp
      next
        case (Some p)
        then have link: "(j, p) \<in> parents (tasks_of o')" using t by (simp add: parents_iff)
        then have "p \<in> subtree (tasks_of o') r" using 1 [of p] tree_okD(4) [OF tree link] by blast
        then show ?thesis by (rule subtree_step [OF link])
      qed
    qed
  qed
  then show "dom (tasks_of o') \<subseteq> subtree (tasks_of o') r" by blast
qed

text \<open>Nothing is left of the tasks, their waits and their frames.\<close>

definition drained_owner :: "'w owner \<Rightarrow> bool" where
  "drained_owner o' \<longleftrightarrow> tasks_of o' = Map.empty \<and> sc_pending (ow_core o') = 0 \<and> (\<forall>r. roots_of (ow_roots o') r = None)"

lemma no_tasks_drained:
  assumes "owner_ok o'" "tasks_of o' = Map.empty"
  shows "drained_owner o'"
proof -
  have "roots_of (ow_roots o') r = None" for r
    using owner_okD(8) [OF assms(1), of r] assms(2) by (cases "roots_of (ow_roots o') r") auto
  then show ?thesis
    using assms(2) owner_okD(3) [OF assms(1)] by (simp add: drained_owner_def waits_ok_def unready_def)
qed

lemma cancel_root:
  assumes ok: "exec_ok o1" and root: "sc_root (ow_core o1) = Some r"
  shows "(\<exists>message o2. cancel_tree env r first o1 = (Inl (Fatal message), o2))
    \<or> (\<exists>x o2. cancel_tree env r first o1 = (Inr x, o2) \<and> owner_ok o2 \<and> drained_owner o2)"
proof -
  have "r \<in> dom (tasks_of o1)" using exec_okD(6) [OF ok root] by blast
  from cancel_tree_ok [OF exec_okD(1) [OF ok] this, of env first] show ?thesis
  proof (elim disjE exE conjE)
    fix x o2 assume run: "cancel_tree env r first o1 = (Inr x, o2)" and rem: "removes r o1 o2"
    have "dom (tasks_of o2) = {}"
      using rem below_root [OF ok root] dom_cut [of "tasks_of o1" r] by (simp add: removes_def)
    then have "tasks_of o2 = Map.empty" by simp
    moreover have "owner_ok o2" using rem by (simp add: removes_def)
    ultimately show ?thesis using run no_tasks_drained by blast
  qed blast
qed

section \<open>Activations\<close>

lemma keeps_call [keeps_intros]: "keeps m \<Longrightarrow> keeps (call m)"
  unfolding call_def by (intro keeps_intros)

lemma steady_call [steady_intros]: "steady g m \<Longrightarrow> steady g (call m)"
  unfolding call_def by (intro steady_intros)

text \<open>What an activation starts from and where it goes.\<close>

definition active_in :: "nat option \<Rightarrow> nat option \<Rightarrow> 'w owner \<Rightarrow> bool" where
  "active_in c r o' \<longleftrightarrow> exec_ok o' \<and> sc_current (ow_core o') = c \<and> (c \<noteq> None \<longrightarrow> sc_root (ow_core o') = r)"

definition fault_active :: "nat option \<Rightarrow> nat option \<Rightarrow> stop \<Rightarrow> 'w owner \<Rightarrow> bool" where
  "fault_active c r e o' \<longleftrightarrow> (\<forall>message. e = Fault message \<longrightarrow> active_in c r o')"

lemma active_steady:
  assumes "keeps m" "steady sc_current m" "steady sc_root m"
  shows "hoare (active_in c r) m (\<lambda>_. active_in c r) (fault_active c r)"
proof (rule hoareI)
  fix o1 x o2 assume "active_in c r o1" "m o1 = (Inr x, o2)"
  then show "active_in c r o2"
    using keepsD(1) [OF assms(1)] steadyD(1) [OF assms(2)] steadyD(1) [OF assms(3)] by (auto simp: active_in_def)
next
  fix o1 e o2 assume "active_in c r o1" "m o1 = (Inl e, o2)"
  then show "fault_active c r e o2"
    using keepsD(2) [OF assms(1)] steadyD(2) [OF assms(2)] steadyD(2) [OF assms(3)]
    by (auto simp: active_in_def fault_active_def)
qed

lemma active_create:
  "hoare (active_in c r) (task_create frame resume creation) (\<lambda>_. active_in c r) (fault_active c r)"
proof (rule hoareI)
  note kept = keepsD [OF keeps_create] and cur = steadyD [OF steady_current_create]
  fix o1 o2 :: "'a owner" and x assume "active_in c r o1" "task_create frame resume creation o1 = (Inr x, o2)"
  then show "active_in c r o2"
    using kept(1) cur(1) root_create by (fastforce simp: active_in_def)
next
  note kept = keepsD [OF keeps_create] and cur = steadyD [OF steady_current_create]
  fix o1 o2 :: "'a owner" and e assume "active_in c r o1" "task_create frame resume creation o1 = (Inl e, o2)"
  then show "fault_active c r e o2"
    using kept(2) cur(2) root_create by (fastforce simp: active_in_def fault_active_def)
qed

lemma active_cancel_begin:
  "hoare (active_in c r) (task_cancel_begin env child) (\<lambda>_. active_in c r) (fault_active c r)"
proof (cases c)
  case None
  then show ?thesis
    by (auto simp: hoare_def active_in_def fault_active_def task_cancel_begin_def parentX_def bindX_def)
next
  case (Some i)
  have root: "steady sc_root (task_cancel_begin env child)" by (rule steady_root_cancel)
  show ?thesis
  proof (rule hoareI)
    fix o1 o2 :: "'a owner" and x assume "active_in c r o1" "task_cancel_begin env child o1 = (Inr x, o2)"
    then show "active_in c r o2"
      using hoareD_ok [OF cancel_begin_ok [of i env child], of o1 x o2] steadyD(1) [OF root, of o1 x o2] Some
      by (simp add: active_in_def running_def)
  next
    fix o1 o2 :: "'a owner" and e assume "active_in c r o1" "task_cancel_begin env child o1 = (Inl e, o2)"
    then show "fault_active c r e o2"
      using hoareD_stop [OF cancel_begin_ok [of i env child], of o1 e o2] steadyD(2) [OF root, of o1 _ o2] Some
      by (auto simp: active_in_def fault_active_def fault_running_def running_def)
  qed
qed

lemma active_call:
  assumes "hoare (active_in c r) m (\<lambda>_. active_in c r) (fault_active c r)"
  shows "hoare (active_in c r) (call m) (\<lambda>_. active_in c r) (fault_active c r)"
  unfolding call_def by (rule hoare_bind [OF assms]) (simp add: hoare_def)

lemma perform_active: "hoare (active_in c r) (perform env op) (\<lambda>_. active_in c r) (fault_active c r)"
  by (cases op)
    (simp_all add: active_create active_call active_cancel_begin active_steady keeps_intros current.steady_operations
      root.steady_operations)


lemma collect_exec_ok:
  assumes "exec_ok o1"
  shows "exec_ok (o1\<lparr>ow_roots := fr_trace move (ow_roots o1)\<rparr>)"
proof -
  let ?o = "o1\<lparr>ow_roots := fr_trace move (ow_roots o1)\<rparr>"
  note ok = exec_okD(1) [OF assms]
  have "store_wf (ow_roots ?o)" "same_roots (ow_roots o1) (ow_roots ?o)"
    using fr_trace_ok [OF owner_okD(5) [OF ok], of move] by (simp_all add: same_roots_def)
  then have "frames_ok ?o" by (intro frames_ok_links [OF owner_okD(2) [OF ok]]) simp_all
  then have "owner_ok ?o" using ok by (simp add: owner_ok_def waits_ok_def ids_ok_def)
  then show ?thesis using exec_okD(2,3,8) [OF assms] by (simp add: exec_ok_def root_ok_def current_ok_def ended_ok_def)
qed

lemma acts_active:
  assumes "acts env o1 o2" "active_in c r o1"
  shows "active_in c r o2"
  using assms
proof cases
  case (perform op)
  then show ?thesis using hoareD_ok [OF perform_active assms(2)] by blast
next
  case (world w)
  then show ?thesis using assms(2) by (simp add: active_in_def)
next
  case (collect move)
  then show ?thesis using assms(2) by (simp add: active_in_def collect_exec_ok)
qed

lemma acts_star_active: "(acts env)\<^sup>*\<^sup>* o1 o2 \<Longrightarrow> active_in c r o1 \<Longrightarrow> active_in c r o2"
  by (induction rule: rtranclp_induct) (auto intro: acts_active)

lemma raises_active:
  assumes "raises env o1 f o2" "active_in c r o1"
  shows "active_in c r o2"
  using assms
proof cases
  case (operation op message)
  then show ?thesis using hoareD_stop [OF perform_active assms(2) operation(2)] by (simp add: fault_active_def)
qed (use assms in simp)

lemma faults_active:
  assumes "faults env i o1 f o2" "active_in c r o1"
  shows "active_in c r o2"
  using assms
proof cases
  case running
  then show ?thesis using raises_active assms(2) by blast
next
  case (returned status message)
  then show ?thesis using validate_same [OF returned(2)] assms(2) by simp
qed

text \<open>An activation ends in a state from which its task may end.\<close>

lemma resumed_ok:
  assumes "resumed env i o1 outcome o2" "active_in (Some i) r o1"
  shows "may_finish i outcome o2 \<and> active_in (Some i) r o2"
  using assms
proof cases
  case (returned o3 status)
  have mid: "active_in (Some i) r o3" by (rule acts_star_active [OF returned(2) assms(2)])
  have "o2 = o3" by (rule validate_same [OF returned(3)])
  moreover have "may_end i (Inr status) o3"
    by (rule validate_ok [OF returned(3)]) (use mid in \<open>simp add: active_in_def\<close>)
  ultimately show ?thesis
    using mid returned(1) by (auto simp: may_finish_def may_end_def active_in_def)
next
  case (faulted o3 f o4)
  have mid: "active_in (Some i) r o4"
    by (rule faults_active [OF faulted(3) acts_star_active [OF faulted(2) assms(2)]])
  have "running i o4" using mid by (simp add: active_in_def running_def)
  then have hook: "running i o2 \<and> idle_task i o2"
    by (rule hoareD_ok [OF fault_hook_ok [OF running_local] _ faulted(4), rotated]) (simp add: running_def)
  have "sc_root (ow_core o2) = sc_root (ow_core o4)"
    by (rule steadyD(1) [OF root.steady_fault_hook faulted(4)])
  then show ?thesis
    using hook mid by (auto simp: may_finish_def active_in_def running_def idle_task_def)
qed

section \<open>Between activations\<close>

definition between :: "nat \<Rightarrow> 'w owner \<Rightarrow> bool" where
  "between root o' \<longleftrightarrow> exec_ok o' \<and> sc_current (ow_core o') = None \<and> sc_root (ow_core o') = Some root"

lemma finish_current: "finish_resume env i outcome o1 = (Inr x, o2) \<Longrightarrow> sc_current (ow_core o2) = None"
proof -
  assume run: "finish_resume env i outcome o1 = (Inr x, o2)"
  let ?o = "o1\<lparr>ow_core := (ow_core o1)\<lparr>sc_current := None\<rparr>\<rparr>"
  define rest where "rest = bindX (case outcome of
         Inl failure \<Rightarrow>
           bindX (drain_cleanups env i (Some failure)) (\<lambda>first.
           bindX (someX first Panic) (\<lambda>first. retX (Inl first)))
       | Inr status \<Rightarrow> retX (Inr status)) (\<lambda>outcome.
     case outcome of
       Inr status \<Rightarrow>
         if status = 0 then
           bindX next_stamp (\<lambda>order.
           bindX (updX i (\<lambda>t. t\<lparr>tk_state := Completed order\<rparr>)) (\<lambda>_.
           wake_waiter i))
         else guardX (status = 1) (Fatal ''unchecked task resume state'')
     | Inl failure \<Rightarrow>
         bindX next_stamp (\<lambda>order.
         bindX (updX i (\<lambda>t. t\<lparr>tk_state := Faulted (append_creation (tk_creation t) failure) order\<rparr>)) (\<lambda>_.
         wake_waiter i)))"
  have "steady sc_current rest" unfolding rest_def by (intro steady_intros)
  moreover have "rest ?o = (Inr x, o2)"
    using run unfolding finish_resume_def rest_def [symmetric] by (simp add: bindX_def)
  ultimately show ?thesis using steadyD(1) by fastforce
qed

lemma finish_between:
  assumes "finish_resume env i outcome o1 = (Inr x, o2)" "may_finish i outcome o1" "sc_root (ow_core o1) = Some root"
  shows "between root o2"
  using hoareD_ok [OF finish_resume_keeps assms(2,1)] finish_current [OF assms(1)]
    steadyD(1) [OF steady_root_finish assms(1)] assms(3) by (simp add: between_def)

text \<open>A notification is delivered to the task that waits for it, or dropped.\<close>

definition expects :: "notification \<Rightarrow> 'w owner \<Rightarrow> bool" where
  "expects n o' \<longleftrightarrow> (\<exists>t ext. tasks_of o' (nt_owner n) = Some t \<and> tk_external t = Some ext \<and> tk_state t = ExternalWaiting
     \<and> ex_registration ext = nt_registration n \<and> ex_ready ext = None)"

definition delivered :: "notification \<Rightarrow> task \<Rightarrow> task" where
  "delivered n t = t\<lparr>tk_external := map_option (\<lambda>ext. ext\<lparr>ex_ready := Some n\<rparr>) (tk_external t), tk_state := Queued\<rparr>"

lemma deliver_drops: "\<not> expects n o' \<Longrightarrow> deliver env n o' = (Inr (), o')"
  by (auto simp: expects_def deliver_def bindX_def split: option.split)

lemma deliver_ok:
  assumes ok: "exec_ok o1" and n: "expects n o1"
  obtains o2 t where "deliver env n o1 = (Inr (), o2)" "tasks_of o1 (nt_owner n) = Some t"
    "tasks_of o2 = (tasks_of o1)(nt_owner n \<mapsto> delivered n t)" "sc_ready (ow_core o2) = sc_ready (ow_core o1) @ [nt_owner n]"
    "sc_pending (ow_core o1) = Suc (sc_pending (ow_core o2))" "ow_reactor o2 = ow_reactor o1" "exec_ok o2"
    "sc_current (ow_core o2) = sc_current (ow_core o1)" "sc_root (ow_core o2) = sc_root (ow_core o1)"
proof -
  note exec = exec_okD [OF ok]
  let ?i = "nt_owner n"
  obtain t ext where t: "tasks_of o1 ?i = Some t" "tk_external t = Some ext" "tk_state t = ExternalWaiting"
      "ex_registration ext = nt_registration n" "ex_ready ext = None"
    using n by (auto simp: expects_def)
  have waiting: "?i \<in> unready (tasks_of o1)" using t by (simp add: unready_def)
  note fin = finite_unready [OF owner_okD(1) [OF exec(1)]]
  note waits = owner_okD(3) [OF exec(1), unfolded waits_ok_def]
  have pending: "0 < sc_pending (ow_core o1)"
    using waits waiting fin by (auto simp: card_gt_0_iff)
  let ?w = "case ex_socket ext of None \<Rightarrow> ow_world o1 | Some socket \<Rightarrow> en_socket_ready env socket (nt_events n) (ow_world o1)"
  let ?u = "t\<lparr>tk_external := Some (ext\<lparr>ex_ready := Some n\<rparr>), tk_state := Queued\<rparr>"
  let ?o2 = "o1\<lparr>ow_world := ?w, ow_core := (ow_core o1)\<lparr>sc_tasks := (tasks_of o1)(?i \<mapsto> ?u),
    sc_pending := sc_pending (ow_core o1) - 1, sc_ready := sc_ready (ow_core o1) @ [?i]\<rparr>\<rparr>"
  have run: "deliver env n o1 = (Inr (), ?o2)"
    using t pending by (auto simp: deliver_def bindX_def task_apply pending_less_def push_back_def put_task_def split: option.split)
  have "unready ((tasks_of o1)(?i \<mapsto> ?u)) = unready (tasks_of o1) - {?i}"
    by (auto simp: unready_def)
  then have count: "sc_pending (ow_core ?o2) = card (unready (tasks_of ?o2))"
    using waits waiting fin by (simp add: card_Diff_singleton)
  have "exec_ok ?o2"
    by (rule exec_ok_wait [OF ok t(1), where u = ?u]) (use waits t count in \<open>auto simp: links_def\<close>)
  then show ?thesis
    using that [OF run t(1)] t pending by (simp add: delivered_def)
qed


text \<open>What polling does to a task: the first notification that it expects is delivered.\<close>

definition expected :: "nat \<Rightarrow> 'w owner \<Rightarrow> notification list \<Rightarrow> notification option" where
  "expected i o' ns = find (\<lambda>n. nt_owner n = i \<and> expects n o') ns"

definition notified :: "notification list \<Rightarrow> 'w owner \<Rightarrow> 'w owner \<Rightarrow> bool" where
  "notified ns o1 o2 \<longleftrightarrow> (\<forall>i. tasks_of o2 i = (case expected i o1 ns of
       None \<Rightarrow> tasks_of o1 i
     | Some n \<Rightarrow> map_option (delivered n) (tasks_of o1 i)))
   \<and> set (sc_ready (ow_core o2)) = set (sc_ready (ow_core o1)) \<union> {i. expected i o1 ns \<noteq> None}"

lemma expected_simps [simp]:
  "expected i o' [] = None"
  "expected i o' (n # ns) = (if nt_owner n = i \<and> expects n o' then Some n else expected i o' ns)"
  by (simp_all add: expected_def)

lemma expected_cong:
  assumes "tasks_of o2 i = tasks_of o1 i"
  shows "expected i o2 ns = expected i o1 ns"
proof -
  have "(nt_owner n = i \<and> expects n o2) = (nt_owner n = i \<and> expects n o1)" for n
    using assms by (cases "nt_owner n = i") (simp_all add: expects_def)
  then show ?thesis by (simp add: expected_def)
qed

lemma expected_queued:
  assumes "tasks_of o' i = Some t" "tk_state t \<noteq> ExternalWaiting"
  shows "expected i o' ns = None"
  using assms by (induction ns) (auto simp: expects_def)

lemma notified_drop: "\<not> expects n o1 \<Longrightarrow> notified ns o1 o2 \<Longrightarrow> notified (n # ns) o1 o2"
  by (simp add: notified_def)

lemma notified_deliver:
  assumes t: "tasks_of o1 (nt_owner n) = Some t" and n: "expects n o1"
    and o2: "tasks_of o2 = (tasks_of o1)(nt_owner n \<mapsto> delivered n t)"
      "sc_ready (ow_core o2) = sc_ready (ow_core o1) @ [nt_owner n]"
    and rest: "notified ns o2 o3"
  shows "notified (n # ns) o1 o3"
proof -
  have own: "expected (nt_owner n) o2 ns = None"
    by (rule expected_queued [of _ _ "delivered n t"]) (simp_all add: o2 delivered_def)
  have other: "expected i o2 ns = expected i o1 ns" if "i \<noteq> nt_owner n" for i
    by (rule expected_cong) (use that in \<open>simp add: o2\<close>)
  have task: "tasks_of o3 i = (case expected i o2 ns of None \<Rightarrow> tasks_of o2 i | Some n \<Rightarrow> map_option (delivered n) (tasks_of o2 i))" for i
    using rest by (simp add: notified_def)
  show ?thesis
    unfolding notified_def
  proof (intro conjI allI)
    show "tasks_of o3 i = (case expected i o1 (n # ns) of
       None \<Rightarrow> tasks_of o1 i
     | Some n \<Rightarrow> map_option (delivered n) (tasks_of o1 i))" for i
    proof (cases "i = nt_owner n")
      case True
      then show ?thesis using task [of i] own n t by (simp add: o2)
    next
      case False
      have "tasks_of o2 i = tasks_of o1 i" using False by (simp add: o2)
      then show ?thesis using task [of i] other [OF False] False by (simp split: option.split)
    qed
    have "{i. expected i o1 (n # ns) \<noteq> None} = insert (nt_owner n) {i. expected i o2 ns \<noteq> None}"
      using own other n by auto
    then show "set (sc_ready (ow_core o3)) = set (sc_ready (ow_core o1)) \<union> {i. expected i o1 (n # ns) \<noteq> None}"
      using rest by (simp add: notified_def o2)
  qed
qed

lemma exec_ok_reactor:
  assumes "exec_ok o1" "ow_reactor o1 = Some r" "wait_ok {} r'"
  shows "exec_ok (o1\<lparr>ow_reactor := Some r'\<rparr>)"
proof -
  note exec = exec_okD [OF assms(1)]
  have "waits_ok (o1\<lparr>ow_reactor := Some r'\<rparr>)" using owner_okD(3) [OF exec(1)] assms(2,3) by (simp add: waits_ok_def)
  then have "owner_ok (o1\<lparr>ow_reactor := Some r'\<rparr>)"
    using exec(1) by (simp add: owner_ok_def frames_ok_def ids_ok_def)
  then show ?thesis using exec(2,3,8) by (simp add: exec_ok_def root_ok_def current_ok_def ended_ok_def)
qed

lemma pop_wait_ok: "wait_ok {} r \<Longrightarrow> re_ready r = n # ns \<Longrightarrow> wait_ok {} (r\<lparr>re_ready := ns\<rparr>)"
proof (rule wait_ok_ready)
  assume ok: "wait_ok {} r" and ready: "re_ready r = n # ns"
  show "ready_ok (r\<lparr>re_ready := ns\<rparr>)" using wait_okD(5) [OF ok] ready by (auto simp: ready_ok_def)
qed

lemma deliver_loop_ok:
  assumes "exec_ok o1" "ow_reactor o1 = Some r" "length (re_ready r) < rounds"
  shows "\<exists>o2. deliver_loop env rounds o1 = (Inr (), o2) \<and> exec_ok o2 \<and> notified (re_ready r) o1 o2
    \<and> sc_current (ow_core o2) = sc_current (ow_core o1) \<and> sc_root (ow_core o2) = sc_root (ow_core o1)"
  using assms
proof (induction rounds arbitrary: o1 r)
  case (Suc rounds)
  note ok = Suc.prems(1) and reactor = Suc.prems(2)
  have wait: "wait_ok {} r" using owner_okD(3) [OF exec_okD(1) [OF ok]] reactor by (simp add: waits_ok_def)
  show ?case
  proof (cases "re_ready r")
    case Nil
    have same: "o1\<lparr>ow_reactor := Some r\<rparr> = o1" using reactor by (cases o1) simp
    have "deliver_loop env (Suc rounds) o1 = (Inr (), o1)"
      using Nil reactor by (simp add: bindX_def pop_notification_def pop_ready_def same)
    then show ?thesis using ok Nil by (auto simp: notified_def)
  next
    case (Cons n ns)
    let ?o = "o1\<lparr>ow_reactor := Some (r\<lparr>re_ready := ns\<rparr>)\<rparr>"
    have popped: "exec_ok ?o" by (rule exec_ok_reactor [OF ok reactor pop_wait_ok [OF wait Cons]])
    have run: "deliver_loop env (Suc rounds) o1 = bindX (deliver env n) (\<lambda>_. deliver_loop env rounds) ?o"
      using Cons reactor by (simp add: bindX_def pop_notification_def pop_ready_def)
    have short: "length ns < rounds" using Suc.prems(3) Cons by simp
    have expects: "expects n ?o = expects n o1" by (simp add: expects_def)
    have tasks: "tasks_of ?o = tasks_of o1" "sc_ready (ow_core ?o) = sc_ready (ow_core o1)" by simp_all
    have same: "notified ns' o1 o2 = notified ns' ?o o2" for ns' o2
      unfolding notified_def tasks expected_cong [of ?o _ o1, OF fun_cong [OF tasks(1)]] by (rule refl)
    show ?thesis
    proof (cases "expects n o1")
      case False
      then have "deliver env n ?o = (Inr (), ?o)" using deliver_drops expects by blast
      then show ?thesis
        using Suc.IH [OF popped _ , of "r\<lparr>re_ready := ns\<rparr>"] short run notified_drop [OF False] Cons same
        by (auto simp: bindX_def)
    next
      case True
      then have "expects n ?o" using expects by simp
      from deliver_ok [OF popped this, of env] obtain o2 t where step: "deliver env n ?o = (Inr (), o2)"
        "tasks_of ?o (nt_owner n) = Some t" "tasks_of o2 = (tasks_of ?o)(nt_owner n \<mapsto> delivered n t)"
        "sc_ready (ow_core o2) = sc_ready (ow_core ?o) @ [nt_owner n]" "ow_reactor o2 = ow_reactor ?o" "exec_ok o2"
        "sc_current (ow_core o2) = sc_current (ow_core ?o)" "sc_root (ow_core o2) = sc_root (ow_core ?o)"
        by metis
      obtain o3 where rest: "deliver_loop env rounds o2 = (Inr (), o3)" "exec_ok o3" "notified ns o2 o3"
        "sc_current (ow_core o3) = sc_current (ow_core o2)" "sc_root (ow_core o3) = sc_root (ow_core o2)"
        using Suc.IH [OF step(6), of "r\<lparr>re_ready := ns\<rparr>"] step(5) short by auto
      have "notified (n # ns) ?o o3"
        by (rule notified_deliver [OF step(2) \<open>expects n ?o\<close> step(3,4) rest(3)])
      then show ?thesis
        using run step rest Cons same by (auto simp: bindX_def)
    qed
  qed
qed simp

text \<open>\<open>poll\<close> fails with the error of the wait, ends the process, or leaves the executor in order.\<close>

lemma poll_ok:
  assumes ok: "between root o1" and run: "poll env blocking o1 = Some (result, o2)"
  shows "(\<exists>message. result = Inl (Fatal message)) \<or> (\<exists>x. result = Inr x) \<and> between root o2"
proof (cases "sc_pending (ow_core o1) = 0")
  case True
  then show ?thesis using ok run by (auto simp: poll_def)
next
  case False
  have exec: "exec_ok o1" using ok by (simp add: between_def)
  note waits = owner_okD(3) [OF exec_okD(1) [OF exec], unfolded waits_ok_def]
  have "unready (tasks_of o1) \<noteq> {}" using False waits by auto
  then obtain r where r: "ow_reactor o1 = Some r" using waits by (cases "ow_reactor o1") (auto simp: unready_def)
  have wait: "wait_ok {} r" using waits r by simp
  obtain res r' w where returned: "wait (en_poller env) (if blocking then None else Some 0) (r, ow_world o1) = Some (res, (r', w))"
    using run False r by (auto simp: poll_def split: option.splits)
  note sound = wait_sound [OF returned wait]
  let ?o = "o1\<lparr>ow_reactor := Some r', ow_world := w\<rparr>"
  have run': "Some (result, o2) = (case res of
      Inl e \<Rightarrow> Some (Inl e, ?o)
    | Inr (Inl e) \<Rightarrow> Some (Inr (Inl e), ?o)
    | Inr (Inr _) \<Rightarrow> Some (bindX (deliver_loop env (Suc (length (re_ready r')))) (\<lambda>_. retX (Inr ())) ?o))"
    using run False r returned by (simp add: poll_def Let_def)
  show ?thesis
  proof (cases res)
    case (Inl e)
    then show ?thesis using sound run' by auto
  next
    case (Inr y)
    then have "wait_ok {} r'" using sound by simp
    then have mid: "exec_ok ?o" using exec_ok_reactor [OF exec r] by simp
    then have mid_between: "between root ?o" using ok by (simp add: between_def)
    show ?thesis
    proof (cases y)
      case (Inl e)
      then show ?thesis using run' Inr mid_between by simp
    next
      case (Inr k)
      obtain o3 where "deliver_loop env (Suc (length (re_ready r'))) ?o = (Inr (), o3)" "exec_ok o3"
        "sc_current (ow_core o3) = sc_current (ow_core ?o)" "sc_root (ow_core o3) = sc_root (ow_core ?o)"
        using deliver_loop_ok [OF mid, of r' "Suc (length (re_ready r'))" env] by auto
      then show ?thesis using run' \<open>res = Inr y\<close> Inr ok by (simp add: bindX_def between_def)
    qed
  qed
qed


section \<open>The driver\<close>

lemma ended_root:
  assumes ok: "exec_ok o1" and root: "sc_root (ow_core o1) = Some r" and t: "tasks_of o1 r = Some t" and ended: "terminal (tk_state t)"
  shows "tasks_of o1 = [r \<mapsto> t]" "tk_children t = {}" "sc_pending (ow_core o1) = 0"
    "roots_of (ow_roots o1) f \<noteq> None \<Longrightarrow> f = tk_frame t"
proof -
  note exec = exec_okD [OF ok]
  have "root_task t" using exec(6) [OF root] t by simp
  then show childless: "tk_children t = {}" using ended by (simp add: root_task_def)
  have "subtree (tasks_of o1) r = {r}"
    using subtree_cases [of _ "tasks_of o1" r] tree_okD(3) [OF owner_okD(1) [OF exec(1)] t] childless by auto
  then have "dom (tasks_of o1) = {r}" using below_root [OF ok root] by simp
  then show tasks: "tasks_of o1 = [r \<mapsto> t]" using t by (metis dom_eq_singleton_conv fun_upd_same option.inject)
  have "unready (tasks_of o1) = {}" using exec(7) [OF t ended] by (simp add: tasks unready_def)
  then show "sc_pending (ow_core o1) = 0" using owner_okD(3) [OF exec(1)] by (simp add: waits_ok_def)
  show "f = tk_frame t" if "roots_of (ow_roots o1) f \<noteq> None"
    using owner_okD(8) [OF exec(1) that] by (auto simp: tasks split: if_splits)
qed

definition ended_owner :: "'w owner \<Rightarrow> bool" where
  "ended_owner o' \<longleftrightarrow> drained_owner o' \<and> sc_root (ow_core o') = None \<and> sc_ready (ow_core o') = []"

lemma drive_end_ok:
  assumes ok: "exec_ok o1" and root: "sc_root (ow_core o1) = Some r" and t: "tasks_of o1 r = Some t" and ended: "terminal (tk_state t)"
  shows "\<exists>o2. drive_end r t out o1 = (Inr (Finished out), o2) \<and> ended_owner o2 \<and> sc_current (ow_core o2) = sc_current (ow_core o1)"
proof -
  note exec = exec_okD [OF ok] and one = ended_root [OF assms]
  have wf: "store_wf (ow_roots o1)" and live: "roots_of (ow_roots o1) (tk_frame t) \<noteq> None"
    using owner_okD(5,6) [OF exec(1)] t by blast+
  then obtain roots where roots: "fr_remove False (tk_frame t) (ow_roots o1) = (Inr True, roots)"
    using fr_remove_ok [OF wf, of "tk_frame t"] by (cases "fr_position (ow_roots o1) (tk_frame t)") (auto simp: roots_of_def)
  have empty: "roots_of roots f = None" for f
  proof (rule ccontr)
    assume "roots_of roots f \<noteq> None"
    then have "f \<noteq> tk_frame t" "roots_of (ow_roots o1) f \<noteq> None" by (auto simp: fr_remove_wf(3) [OF wf roots] split: if_splits)
    then show False using one(4) by blast
  qed
  show ?thesis
    using roots one(1-3) empty
    by (simp add: drive_end_def bindX_def rootsX_def zoomX_def ended_owner_def drained_owner_def)
qed

lemma next_ready_some: "next_ready T ready = (Some i, rest) \<Longrightarrow> i \<in> dom T"
  by (induction ready) (auto split: if_splits)

lemma exec_ok_queue: "exec_ok (o'\<lparr>ow_core := (ow_core o')\<lparr>sc_ready := ready\<rparr>\<rparr>) = exec_ok o'"
  by (simp add: exec_ok_def owner_ok_def frames_ok_def waits_ok_def ids_ok_def root_ok_def current_ok_def ended_ok_def)

lemma exec_ok_current:
  assumes "exec_ok o'" "tasks_of o' i = Some t" "\<not> terminal (tk_state t)"
  shows "exec_ok (o'\<lparr>ow_core := (ow_core o')\<lparr>sc_current := Some i\<rparr>\<rparr>)"
  using assms by (auto simp: exec_ok_def owner_ok_def frames_ok_def waits_ok_def ids_ok_def root_ok_def current_ok_def ended_ok_def)

text \<open>The driver never panics; it ends with nothing left, or chooses a task that has not ended.\<close>

definition chosen :: "nat \<Rightarrow> driven \<Rightarrow> 'w owner \<Rightarrow> bool" where
  "chosen root choice o' = (case choice of
       Finished _ \<Rightarrow> ended_owner o' \<and> sc_current (ow_core o') = None
     | Resume i \<Rightarrow> active_in (Some i) (Some root) o'
     | Blocked \<Rightarrow> between root o')"

lemma drive_next_ok:
  assumes ok: "between root o1" and run: "drive_next root o1 = (result, o2)"
  shows "case result of Inl e \<Rightarrow> \<exists>message. e = Fatal message | Inr choice \<Rightarrow> chosen root choice o2"
proof -
  have exec: "exec_ok o1" and idle: "sc_current (ow_core o1) = None" and root: "sc_root (ow_core o1) = Some root"
    using ok by (simp_all add: between_def)
  obtain t where t: "tasks_of o1 root = Some t" using exec_okD(6) [OF exec root] by blast
  show ?thesis
  proof (cases "tk_state t = Queued \<or> tk_state t = Running \<or> (\<exists>c. tk_state t = Waiting c)
      \<or> tk_state t = Observing \<or> tk_state t = ExternalWaiting \<or> (\<exists>n. tk_state t = Cancelled n)")
    case False
    then have "(\<exists>n. tk_state t = Completed n) \<or> (\<exists>f n. tk_state t = Faulted f n)" by (cases "tk_state t") auto
    then obtain out where last: "drive_next root o1 = drive_end root t out o1" and ended: "terminal (tk_state t)"
      by (elim disjE exE) (simp_all add: drive_next_def bindX_def task_apply [OF t])
    show ?thesis
      using drive_end_ok [OF exec root t ended, of out] run last idle by (auto simp: chosen_def)
  next
    case True
    obtain found ready where found: "next_ready (tasks_of o1) (sc_ready (ow_core o1)) = (found, ready)" by force
    let ?o = "o1\<lparr>ow_core := (ow_core o1)\<lparr>sc_ready := ready\<rparr>\<rparr>"
    have mid: "between root ?o" using ok by (simp add: between_def exec_ok_queue)
    have next_step: "drive_next root o1 = (case found of
           Some i \<Rightarrow>
             bindX (taskX i) (\<lambda>t.
             bindX (guardX (tk_state t = Queued) (Fatal ''invalid ready task state'')) (\<lambda>_.
             bindX (updX i (\<lambda>t. t\<lparr>tk_state := Running\<rparr>)) (\<lambda>_.
             bindX (modC (\<lambda>core. core\<lparr>sc_current := Some i\<rparr>)) (\<lambda>_.
             retX (Resume i)))))
         | None \<Rightarrow>
             bindX (getC sc_pending) (\<lambda>pending.
             bindX (guardX (pending \<noteq> 0) (Fatal ''task wait has no runnable dependency'')) (\<lambda>_.
             retX Blocked))) ?o"
      using True found by (elim disjE exE) (simp_all add: drive_next_def bindX_def task_apply [OF t])
    show ?thesis
    proof (cases found)
      case None
      then show ?thesis
        using run mid unfolding next_step by (auto simp: bindX_def guardX_def chosen_def split: if_splits)
    next
      case (Some i)
      then obtain u where u: "tasks_of o1 i = Some u" using next_ready_some found by blast
      show ?thesis
      proof (cases "tk_state u = Queued")
        case False
        then show ?thesis using run Some u unfolding next_step by (auto simp: bindX_def guardX_def task_apply)
      next
        case queued: True
        let ?u = "u\<lparr>tk_state := Running\<rparr>"
        let ?o2 = "?o\<lparr>ow_core := (put_task i ?u (ow_core ?o))\<lparr>sc_current := Some i\<rparr>\<rparr>"
        have o2: "result = Inr (Resume i)" "o2 = ?o2"
          using run Some u queued unfolding next_step by (auto simp: bindX_def guardX_def task_apply put_task_def updX_def)
        have sound: "exec_ok ?o" using mid by (simp add: between_def)
        let ?m = "?o\<lparr>ow_core := put_task i ?u (ow_core ?o)\<rparr>"
        have running: "exec_ok ?m"
          by (rule follows_exec_ok [OF sound follows_change [OF sound, of i u]]) (use u in \<open>auto simp: links_def\<close>)
        have "exec_ok (?m\<lparr>ow_core := (ow_core ?m)\<lparr>sc_current := Some i\<rparr>\<rparr>)"
          by (rule exec_ok_current [OF running, of i ?u]) (simp_all add: put_task_def)
        then have "exec_ok ?o2" by simp
        then show ?thesis using o2 root by (simp add: chosen_def active_in_def put_task_def)
      qed
    qed
  qed
qed


section \<open>The first fault\<close>

text \<open>A cancellation that starts with a fault ends with that fault.\<close>

definition firm :: "owned_fault \<Rightarrow> ('w, owned_fault option) act \<Rightarrow> bool" where
  "firm f m \<longleftrightarrow> (\<forall>o1 x o2. m o1 = (Inr x, o2) \<longrightarrow> x = Some f)"

lemma firm_return: "firm f (retX (Some f))"
  by (simp add: firm_def)

lemma firm_bind: "(\<And>x. firm f (k x)) \<Longrightarrow> firm f (bindX m k)"
  unfolding firm_def bindX_def by (auto split: prod.splits sum.splits)

lemma firm_stop: "firm f (stopX e)"
  by (simp add: firm_def stopX_def)

lemma firm_then:
  assumes "firm f m" "firm f (k (Some f))"
  shows "firm f (bindX m k)"
proof (unfold firm_def, intro allI impI)
  fix o1 x o3 assume run: "bindX m k o1 = (Inr x, o3)"
  then obtain y o2 where first: "m o1 = (Inr y, o2)" and rest: "k y o2 = (Inr x, o3)"
    by (auto simp: bindX_def split: prod.splits sum.splits)
  have "y = Some f" using assms(1) first unfolding firm_def by blast
  then show "x = Some f" using assms(2) rest unfolding firm_def by blast
qed

lemma if_cases: "P a \<Longrightarrow> P b \<Longrightarrow> P (if c then a else b)"
  by simp

lemma firm_run_cleanup: "firm f (run_cleanup env t callback (Some f))"
  unfolding run_cleanup_def by (intro firm_bind) (auto simp: firm_def bindX_def split: option.splits prod.splits sum.splits)

lemma firm_drain_loop: "firm f (drain_loop env n i (Some f))"
proof (induction n)
  case (Suc n)
  have rest: "firm f (bindX (run_cleanup env t callback (Some f)) (\<lambda>first. drain_loop env n i first))" for t callback
    by (rule firm_then [OF firm_run_cleanup]) (rule Suc)
  show ?case
    unfolding drain_loop.simps
    by (rule firm_bind, rule if_cases [where P = "firm f"], rule firm_return, rule firm_bind, rule rest)
qed (simp add: firm_return [unfolded retX_def] retX_def)

lemma firm_retire: "firm f (retire env i (Some f))"
  unfolding retire_def drain_cleanups_def
  by (rule firm_bind, rule firm_bind, rule firm_then) (auto intro!: firm_bind firm_return firm_drain_loop)

lemma firm_cancel_loop: "firm f (cancel_loop env n stack (Some f))"
proof (induction n arbitrary: stack)
  case (Suc n)
  show ?case
  proof (cases stack)
    case (Cons e rest)
    obtain i b where e: "e = (i, b)" by force
    show ?thesis
      by (cases b) (simp_all add: Cons e firm_bind Suc firm_then [OF firm_retire])
  qed (simp add: firm_return [unfolded retX_def] retX_def)
qed (simp add: firm_return firm_stop)

lemma firm_cancel_tree: "cancel_tree env i (Some f) o1 = (Inr x, o2) \<Longrightarrow> x = Some f"
  using firm_bind [of f "\<lambda>n. cancel_loop env (2 * Suc n) [(i, False)] (Some f)" "getC sc_next"] firm_cancel_loop [of f env]
  unfolding firm_def cancel_tree_def by blast

section \<open>Failures\<close>

text \<open>A failed wait ends with its own diagnostic and leaves nothing.\<close>

definition wait_diagnostic :: "'w env \<Rightarrow> io_error \<Rightarrow> 'w \<Rightarrow> owned_fault" where
  "wait_diagnostic env e w = \<lparr>of_message = ''task wait failed: '' @ en_error_text env e, of_test_name = en_test_name env w\<rparr>"

lemma drained_end:
  "drained_owner o' \<Longrightarrow> ended_owner (o'\<lparr>ow_core := (ow_core o')\<lparr>sc_root := None, sc_ready := []\<rparr>\<rparr>)"
  by (simp add: ended_owner_def drained_owner_def)

lemma wait_failure_ok:
  assumes ok: "between root o1" and run: "wait_failure env root e o1 = (result, o2)"
  shows "(\<exists>message. result = Inl (Fatal message)) \<or> result = Inr (wait_diagnostic env e (ow_world o1)) \<and> ended_owner o2"
proof (cases "fst e = OutOfMemory")
  case True
  then show ?thesis using run by (auto simp: wait_failure_def wait_fault_def bindX_def stopX_def)
next
  case False
  have exec: "exec_ok o1" and root: "sc_root (ow_core o1) = Some root" using ok by (simp_all add: between_def)
  let ?f = "wait_diagnostic env e (ow_world o1)"
  have tree: "wait_failure env root e o1 = bindX (cancel_tree env root (Some ?f)) (\<lambda>first.
      bindX (modC (\<lambda>core. core\<lparr>sc_root := None, sc_ready := []\<rparr>)) (\<lambda>_. someX first Panic)) o1"
    using False by (simp add: wait_failure_def wait_fault_def bindX_def wait_diagnostic_def)
  from cancel_root [OF exec root, of env "Some ?f"] show ?thesis
  proof (elim disjE exE conjE)
    fix message o3 assume "cancel_tree env root (Some ?f) o1 = (Inl (Fatal message), o3)"
    then have "result = Inl (Fatal message)" using run tree by (simp add: bindX_def)
    then show ?thesis by blast
  next
    fix x o3 assume step: "cancel_tree env root (Some ?f) o1 = (Inr x, o3)" and drained: "drained_owner o3"
    have "x = Some ?f" by (rule firm_cancel_tree [OF step])
    then show ?thesis using run tree step drained_end [OF drained] by (auto simp: bindX_def)
  qed
qed

lemma no_root_empty:
  assumes ok: "exec_ok o'" and root: "sc_root (ow_core o') = None"
  shows "tasks_of o' = Map.empty"
proof -
  note tree = owner_okD(1) [OF exec_okD(1) [OF ok]]
  have "j \<notin> dom (tasks_of o')" for j
  proof (induction j rule: wf_induct_rule [OF parents_wf [OF tree]])
    case (1 j)
    show ?case
    proof
      assume "j \<in> dom (tasks_of o')"
      then obtain t where t: "tasks_of o' j = Some t" by blast
      then obtain p where "tk_parent t = Some p" using exec_okD(5) [OF ok t] root by (cases "tk_parent t") auto
      then have link: "(j, p) \<in> parents (tasks_of o')" using t by (simp add: parents_iff)
      then show False using 1 [of p] tree_okD(4) [OF tree link] by blast
    qed
  qed
  then show ?thesis by blast
qed

text \<open>So does a constructor that failed: it ends with its own fault.\<close>

lemma abandon_ok:
  assumes ok: "exec_ok o1" and run: "abandon env f o1 = (result, o2)"
  shows "(\<exists>message. result = Inl (Fatal message)) \<or> result = Inr f \<and> ended_owner o2"
proof (cases "sc_root (ow_core o1)")
  case None
  then have "drained_owner o1" by (intro no_tasks_drained exec_okD(1) [OF ok] no_root_empty [OF ok])
  then show ?thesis
    using run None by (auto simp: abandon_def bindX_def ended_owner_def drained_owner_def)
next
  case (Some r)
  let ?o = "o1\<lparr>ow_core := (ow_core o1)\<lparr>sc_root := None\<rparr>\<rparr>"
  have owner: "owner_ok ?o"
    using exec_okD(1) [OF ok] by (simp add: owner_ok_def frames_ok_def waits_ok_def ids_ok_def)
  have tree: "abandon env f o1 = bindX (cancel_tree env r (Some f)) (\<lambda>first.
      bindX (modC (\<lambda>core. core\<lparr>sc_ready := []\<rparr>)) (\<lambda>_. someX first Panic)) ?o"
    using Some by (simp add: abandon_def bindX_def)
  have "r \<in> dom (tasks_of ?o)" using exec_okD(6) [OF ok Some] by auto
  from cancel_tree_ok [OF owner this, of env "Some f"] show ?thesis
  proof (elim disjE exE conjE)
    fix message o3 assume "cancel_tree env r (Some f) ?o = (Inl (Fatal message), o3)"
    then have "result = Inl (Fatal message)" using run tree by (simp add: bindX_def)
    then show ?thesis by blast
  next
    fix x o3 assume step: "cancel_tree env r (Some f) ?o = (Inr x, o3)" and rem: "removes r ?o o3"
    have "dom (tasks_of o3) = {}"
      using rem below_root [OF ok Some] dom_cut [of "tasks_of ?o" r] by (simp add: removes_def)
    moreover have "owner_ok o3" using rem by (simp add: removes_def)
    ultimately have "drained_owner o3" by (simp add: no_tasks_drained)
    moreover have "sc_root (ow_core o3) = None"
      using steadyD(1) [OF root.steady_cancel_tree step] by simp
    moreover have "x = Some f" by (rule firm_cancel_tree [OF step])
    ultimately show ?thesis
      using run tree step by (auto simp: bindX_def ended_owner_def drained_owner_def)
  qed
qed

section \<open>The invariant of the executor\<close>

definition exec_inv :: "nat \<Rightarrow> phase \<times> 'w owner \<Rightarrow> bool" where
  "exec_inv root s = (case fst s of Ended _ \<Rightarrow> ended_owner (snd s) | _ \<Rightarrow> between root (snd s))"

lemma started_inv:
  assumes s: "started env root s"
  shows "exec_inv root s"
proof -
  have new: "active_in None None (new_owner w)" for w :: 'a
    using new_owner_exec_ok by (simp add: active_in_def new_owner_def new_sched_def)
  from s show ?thesis
  proof cases
    case (driving w o1)
    then show ?thesis using acts_star_active [OF _ new] by (auto simp: exec_inv_def between_def active_in_def)
  next
    case (failed w o1 f o2 f' o3)
    have "exec_ok o2" using raises_active [OF failed(3) acts_star_active [OF failed(2) new]] by (simp add: active_in_def)
    from abandon_ok [OF this failed(4)] show ?thesis using failed(1) by (simp add: exec_inv_def)
  qed
qed

lemma exec_step_inv:
  assumes "exec_step env root s s'" and "exec_inv root s"
  shows "exec_inv root s'"
  using assms
proof cases
  case (resume o1 i o2 outcome o3 o4)
  have "chosen root (Resume i) o2" using drive_next_ok [OF _ resume(3)] assms(2) resume(1) by (simp add: exec_inv_def)
  then have "active_in (Some i) (Some root) o2" by (simp add: chosen_def)
  from resumed_ok [OF resume(4) this]
  have "may_finish i outcome o3" "sc_root (ow_core o3) = Some root" by (simp_all add: active_in_def)
  from finish_between [OF resume(5) this] show ?thesis using resume(2) by (simp add: exec_inv_def)
next
  case (polled o1 o2)
  then show ?thesis using poll_ok [OF _ polled(3)] assms(2) by (auto simp: exec_inv_def)
next
  case (poll_failed o1 e o2 f o3)
  have "between root o2" using poll_ok [OF _ poll_failed(3)] assms(2) poll_failed(1) by (auto simp: exec_inv_def)
  from wait_failure_ok [OF this poll_failed(4)] show ?thesis using poll_failed(2) by (simp add: exec_inv_def)
next
  case (blocked o1 o2)
  then show ?thesis using drive_next_ok [OF _ blocked(3)] assms(2) by (simp add: exec_inv_def chosen_def)
next
  case (finished o1 out o2)
  then show ?thesis using drive_next_ok [OF _ finished(3)] assms(2) by (simp add: exec_inv_def chosen_def)
next
  case (woken o1 o2)
  then show ?thesis using poll_ok [OF _ woken(3)] assms(2) by (auto simp: exec_inv_def)
next
  case (wait_failed o1 e o2 f o3)
  have "between root o2" using poll_ok [OF _ wait_failed(3)] assms(2) wait_failed(1) by (auto simp: exec_inv_def)
  from wait_failure_ok [OF this wait_failed(4)] show ?thesis using wait_failed(2) by (simp add: exec_inv_def)
qed

inductive reached :: "'w env \<Rightarrow> nat \<Rightarrow> phase \<times> 'w owner \<Rightarrow> bool" for env root where
  start: "started env root s \<Longrightarrow> reached env root s"
| step: "reached env root s \<Longrightarrow> exec_step env root s s' \<Longrightarrow> reached env root s'"

lemma reached_inv: "reached env root s \<Longrightarrow> exec_inv root s"
  by (induction rule: reached.induct) (auto intro: started_inv exec_step_inv)

end
