(* ===== verification/Ending.thy ===== *)
theory Ending
  imports Executor
begin

text \<open>
  What the end of a task does (\<open>compiler/runtime/src/tasks.rs\<close>: \<open>drain_cleanups\<close>, \<open>finish_resume\<close>,
  \<open>poll\<close>): its cleanups run in reverse order, its waiter becomes runnable, and a delivered
  notification makes its task runnable.
\<close>

section \<open>Cleanups\<close>

text \<open>A world that records the callbacks that ran.\<close>

definition records :: "'w env \<Rightarrow> ('w \<Rightarrow> nat list) \<Rightarrow> bool" where
  "records env tape \<longleftrightarrow> (\<forall>callback pointer w. tape (snd (snd (en_cleanup env callback pointer w))) = tape w @ [callback])"

lemma run_cleanup_records:
  assumes rec: "records env tape" and ok: "owner_ok o1" and t: "tasks_of o1 i = Some t"
  obtains x o2 where "run_cleanup env t callback first o1 = (Inr x, o2)" "tasks_of o2 = tasks_of o1" "owner_ok o2"
    "tape (ow_world o2) = tape (ow_world o1) @ [callback]"
proof -
  obtain x o2 where run: "run_cleanup env t callback first o1 = (Inr x, o2)" and set: "settles i o1 o2"
    using settling_run_cleanup [OF ok t] by blast
  obtain pointer failure move w where cleanup: "en_cleanup env callback pointer (ow_world o1) = (failure, move, w)"
    and o2: "ow_world o2 = w" "tasks_of o2 = tasks_of o1"
    using run by (auto simp: run_cleanup_def bindX_def rootsX_def zoomX_def someX_def wX_def
        split: prod.splits sum.splits option.splits)
  have "tape w = tape (ow_world o1) @ [callback]"
    using rec cleanup unfolding records_def by (metis snd_conv)
  then show ?thesis using that [OF run o2(2) settlesD [OF set]] o2(1) by simp
qed

lemma drain_loop_records:
  assumes "records env tape" "owner_ok o1" "tasks_of o1 i = Some t" "length (tk_cleanups t) = n"
  shows "\<exists>x o2 u. drain_loop env n i first o1 = (Inr x, o2) \<and> tasks_of o2 i = Some u \<and> tk_cleanups u = []
    \<and> tape (ow_world o2) = tape (ow_world o1) @ rev (map snd (tk_cleanups t))"
  using assms
proof (induction n arbitrary: o1 t first)
  case (Suc n)
  note t = Suc.prems(3)
  let ?u = "t\<lparr>tk_cleanups := butlast (tk_cleanups t)\<rparr>"
  let ?o = "o1\<lparr>ow_core := put_task i ?u (ow_core o1)\<rparr>"
  have some: "tk_cleanups t \<noteq> []" using Suc.prems(4) by auto
  have "settling i (updX i (\<lambda>t. t\<lparr>tk_cleanups := butlast (tk_cleanups t)\<rparr>) :: ('a, unit) act)" by (rule settling_update) simp_all
  from this Suc.prems(2) t have ok: "owner_ok ?o"
    by (cases rule: settlingD) (auto simp: task_apply(2) [OF t] dest: settlesD)
  have u: "tasks_of ?o i = Some ?u" by simp
  have same: "run_cleanup env t callback first = run_cleanup env ?u callback first" for callback first
    unfolding run_cleanup_def drainedD [OF drained_update(1)] ..
  obtain x o2 where run: "run_cleanup env ?u (snd (last (tk_cleanups t))) first ?o = (Inr x, o2)"
      "tasks_of o2 = tasks_of ?o" "owner_ok o2" "tape (ow_world o2) = tape (ow_world ?o) @ [snd (last (tk_cleanups t))]"
    by (rule run_cleanup_records [OF Suc.prems(1) ok u])
  have u2: "tasks_of o2 i = Some ?u" using run(2) u by simp
  from Suc.IH [OF Suc.prems(1) run(3) u2, of x] Suc.prems(4) obtain y o3 v where
    rest: "drain_loop env n i x o2 = (Inr y, o3)" "tasks_of o3 i = Some v" "tk_cleanups v = []"
      "tape (ow_world o3) = tape (ow_world o2) @ rev (map snd (butlast (tk_cleanups t)))"
    by auto
  have "rev (map snd (tk_cleanups t)) = snd (last (tk_cleanups t)) # rev (map snd (butlast (tk_cleanups t)))"
    using some by (cases "tk_cleanups t" rule: rev_cases) simp_all
  then show ?case
    using rest run(4) some by (simp add: bindX_def task_apply [OF t] same run(1))
qed simp

section \<open>Waiters\<close>

lemma next_stamp_apply:
  "int (sc_next (ow_core o')) + 1 < 2 ^ 64 \<Longrightarrow>
    next_stamp o' = (Inr (sc_next (ow_core o') + 1), o'\<lparr>ow_core := (ow_core o')\<lparr>sc_next := sc_next (ow_core o') + 1\<rparr>\<rparr>)"
  by (simp add: next_stamp_def bindX_def checked_add_def)

lemma wake_waiter_apply:
  assumes "tasks_of o1 i = Some t" "tk_waiter t = Some p" "terminal (tk_state t)"
    and "tasks_of o1 p = Some q" "tk_state q = Waiting i" "tk_observation q = None"
  shows "wake_waiter i o1 = (Inr (), o1\<lparr>ow_core :=
    (if is_faulted (tk_state t) then push_front p else push_back p) (put_task p (q\<lparr>tk_state := Queued\<rparr>) (ow_core o1))\<rparr>)"
proof -
  have "observation_completed p i o1 = (Inr False, o1)"
    using assms by (auto simp: observation_completed_def bindX_def task_apply)
  then show ?thesis
    using assms(2,5) by (simp add: wake_waiter_def bindX_def task_apply(1) [OF assms(1)] task_apply(1) [OF assms(4)]
        task_apply(2) [OF assms(4)])
qed

text \<open>A task that completes queues the task that awaits it, behind the queue.\<close>

lemma finish_completed:
  assumes t: "tasks_of o1 i = Some t" "tk_waiter t = Some p" and q: "tasks_of o1 p = Some q" "tk_state q = Waiting i"
    and other: "p \<noteq> i" "tk_observation q = None" and room: "int (sc_next (ow_core o1)) + 1 < 2 ^ 64"
  shows "\<exists>o2. finish_resume env i (Inr 0) o1 = (Inr (), o2)
    \<and> tasks_of o2 = (tasks_of o1)(i \<mapsto> t\<lparr>tk_state := Completed (sc_next (ow_core o1) + 1)\<rparr>, p \<mapsto> q\<lparr>tk_state := Queued\<rparr>)
    \<and> sc_ready (ow_core o2) = sc_ready (ow_core o1) @ [p] \<and> sc_current (ow_core o2) = None"
proof -
  let ?n = "sc_next (ow_core o1) + 1"
  let ?t = "t\<lparr>tk_state := Completed ?n\<rparr>"
  let ?o = "o1\<lparr>ow_core := put_task i ?t ((ow_core o1)\<lparr>sc_current := None, sc_next := ?n\<rparr>)\<rparr>"
  have run: "finish_resume env i (Inr 0) o1 = wake_waiter i ?o"
    using room t(1) by (simp add: finish_resume_def bindX_def next_stamp_apply task_apply(2) del: One_nat_def)
  have "tasks_of ?o i = Some ?t" "tasks_of ?o p = Some q" using q other by (simp_all add: put_task_def)
  from wake_waiter_apply [OF this(1) _ _ this(2)] t q other show ?thesis
    unfolding run by (simp add: put_task_def push_back_def)
qed

text \<open>A task that faults queues it in front.\<close>

lemma finish_faulted:
  assumes ok: "owner_ok o1" and t: "tasks_of o1 i = Some t" "tk_waiter t = Some p"
    and q: "tasks_of o1 p = Some q" "tk_state q = Waiting i"
    and other: "p \<noteq> i" "tk_observation q = None" and room: "int (sc_next (ow_core o1)) + 1 < 2 ^ 64"
  shows "\<exists>o2 u. finish_resume env i (Inl f) o1 = (Inr (), o2)
    \<and> tasks_of o2 i = Some u \<and> tk_state u = Faulted (append_creation (tk_creation t) f) (sc_next (ow_core o1) + 1)
    \<and> tasks_of o2 p = Some (q\<lparr>tk_state := Queued\<rparr>)
    \<and> sc_ready (ow_core o2) = p # sc_ready (ow_core o1) \<and> sc_current (ow_core o2) = None"
proof -
  let ?o = "o1\<lparr>ow_core := (ow_core o1)\<lparr>sc_current := None\<rparr>\<rparr>"
  have ok': "owner_ok ?o" using ok by (simp add: owner_ok_def frames_ok_def waits_ok_def ids_ok_def)
  have t': "tasks_of ?o i = Some t" using t by simp
  obtain x o2 where drain: "drain_cleanups env i (Some f) ?o = (Inr x, o2)" and set: "settles i ?o o2"
    using settling_drain_loop [OF ok' t', of env "length (tk_cleanups t)" "Some f"] t'
    by (auto simp: drain_cleanups_def bindX_def task_apply)
  have x: "x = Some f"
    using firm_bind [of f "\<lambda>t. drain_loop env (length (tk_cleanups t)) i (Some f)" "taskX i", OF firm_drain_loop] drain
    unfolding firm_def drain_cleanups_def by blast
  obtain u where u: "tasks_of o2 i = Some u" "drained t u"
    using set t' unfolding settles_def by blast
  have p: "tasks_of o2 p = Some q" using settles_rest(4) [OF set other(1)] q by simp
  have core: "sc_ready (ow_core o2) = sc_ready (ow_core o1)" "sc_current (ow_core o2) = None"
      "sc_next (ow_core o2) = sc_next (ow_core o1)"
    using settles_rest(3) [OF set] by (simp_all add: same_core_def)
  have "tk_waiter u = tk_waiter t \<and> tk_creation u = tk_creation t"
    using arg_cong [OF u(2) [unfolded drained_def], of tk_waiter] arg_cong [OF u(2) [unfolded drained_def], of tk_creation]
    by (simp add: bare_def)
  then have links: "tk_waiter u = Some p" "tk_creation u = tk_creation t" using t by simp_all
  let ?n = "sc_next (ow_core o1) + 1"
  let ?u = "u\<lparr>tk_state := Faulted (append_creation (tk_creation t) f) ?n\<rparr>"
  let ?o = "o2\<lparr>ow_core := put_task i ?u ((ow_core o2)\<lparr>sc_next := ?n\<rparr>)\<rparr>"
  have room': "int (sc_next (ow_core o2)) + 1 < 2 ^ 64" using room core by simp
  have run: "finish_resume env i (Inl f) o1 = wake_waiter i ?o"
    using drain x u(1) core links
    by (simp add: finish_resume_def bindX_def next_stamp_apply [OF room'] task_apply(1) task_apply(2) del: One_nat_def)
  have "tasks_of ?o i = Some ?u" "tasks_of ?o p = Some q" using p other by (simp_all add: put_task_def)
  from wake_waiter_apply [OF this(1) _ _ this(2)] links q other core show ?thesis
    unfolding run by (simp add: put_task_def push_front_def)
qed

section \<open>States that arise\<close>

text \<open>Every state between two calls of generated code or two steps of the driver.\<close>

inductive arises :: "'w env \<Rightarrow> nat \<Rightarrow> 'w owner \<Rightarrow> bool" for env root where
  construction: "(acts env)\<^sup>*\<^sup>* (new_owner w) o1 \<Longrightarrow> arises env root o1"
| idle: "reached env root (phase, o1) \<Longrightarrow> \<not> (\<exists>out. phase = Ended out) \<Longrightarrow> arises env root o1"
| activation: "reached env root (Choosing, o1) \<Longrightarrow> drive_next root o1 = (Inr (Resume i), o2) \<Longrightarrow>
    (acts env)\<^sup>*\<^sup>* o2 o3 \<Longrightarrow> arises env root o3"

lemma reached_between: "reached env root (phase, o') \<Longrightarrow> \<not> (\<exists>out. phase = Ended out) \<Longrightarrow> between root o'"
  using reached_inv [of env root "(phase, o')"] by (cases phase) (auto simp: exec_inv_def)

lemma arises_ok: "arises env root o' \<Longrightarrow> exec_ok o'"
proof (induction rule: arises.induct)
  case (construction w o1)
  have "active_in None None (new_owner w)" for w :: 'a
    using new_owner_exec_ok by (simp add: active_in_def new_owner_def new_sched_def)
  from acts_star_active [OF construction this] show ?case by (simp add: active_in_def)
next
  case (idle phase o1)
  from reached_between [OF this] show ?case by (simp add: between_def)
next
  case (activation o1 i o2 o3)
  have "between root o1" by (rule reached_between [OF activation(1)]) simp
  from drive_next_ok [OF this activation(2)] have "active_in (Some i) (Some root) o2" by (simp add: chosen_def)
  from acts_star_active [OF activation(3) this] show ?case by (simp add: active_in_def)
qed

end
