(* ===== verification/Execution.thy ===== *)
theory Execution
  imports Ending
begin

text \<open>
  What the executor of tasks guarantees (\<open>compiler/runtime/src/tasks.rs\<close>), for every program, every
  poller and every schedule, with a small run that shows the statements at work.
\<close>

section \<open>A small run\<close>

text \<open>The world is the list of the cleanup callbacks that ran; the clock stands at 60.\<close>

definition still_poller :: "nat list poller" where
  "still_poller = \<lparr>po_notify = (\<lambda>w. (None, w)), po_add = (\<lambda>n e w. (None, w)),
     po_modify = (\<lambda>n e w. (None, w)), po_delete = (\<lambda>n w. (None, w)),
     po_wait = (\<lambda>t w. (Inr [], w)), po_now = (\<lambda>w. (60, w)), po_linux = True\<rparr>"

definition still_env :: "nat list env" where
  "still_env = \<lparr>en_poller = still_poller, en_poller_new = (\<lambda>w. (None, w)),
     en_cleanup = (\<lambda>callback pointer w. (None, id, w @ [callback])),
     en_operation_drain = (\<lambda>job w. w), en_computation_drain = (\<lambda>job w. (None, w)),
     en_computation_complete = (\<lambda>job w. True), en_computation_first = (\<lambda>job w. (True, w)),
     en_computation_take = (\<lambda>job w. (None, w)), en_submit = (\<lambda>frame callback r w. (Inr 1, w)),
     en_socket_ready = (\<lambda>socket events w. w), en_error_text = snd, en_test_name = (\<lambda>w. None)\<rparr>"

text \<open>What the driver does to the task that it resumes.\<close>

definition resume_state :: "nat \<Rightarrow> 'w owner \<Rightarrow> 'w owner" where
  "resume_state i o' = o'\<lparr>ow_core := (put_task i (the (tasks_of o' i)\<lparr>tk_state := Running\<rparr>) (ow_core o'))\<lparr>
     sc_ready := snd (next_ready (tasks_of o') (sc_ready (ow_core o'))), sc_current := Some i\<rparr>\<rparr>"

lemma drive_next_resume:
  assumes "map_option (\<lambda>t. terminal (tk_state t)) (tasks_of o' root) = Some False"
    and "fst (next_ready (tasks_of o') (sc_ready (ow_core o'))) = Some i"
    and "map_option tk_state (tasks_of o' i) = Some Queued"
  shows "drive_next root o' = (Inr (Resume i), resume_state i o')"
proof -
  obtain t where t: "tasks_of o' root = Some t" "\<not> terminal (tk_state t)" using assms(1) by auto
  obtain u where u: "tasks_of o' i = Some u" "tk_state u = Queued" using assms(3) by auto
  obtain ready where ready: "next_ready (tasks_of o') (sc_ready (ow_core o')) = (Some i, ready)"
    using assms(2) by (metis prod.collapse)
  show ?thesis
    using t u by (cases "tk_state t")
      (simp_all add: drive_next_def bindX_def task_apply ready resume_state_def put_task_def)
qed

text \<open>
  The constructor creates task 1.  Its activation pushes two cleanups, creates task 2 and awaits it.
  Then task 2 runs; in another run task 1 waits for a timer instead.
\<close>

definition after :: "('w, 'a) act \<Rightarrow> 'w owner \<Rightarrow> 'w owner" where
  "after m o1 = snd (m o1)"

definition constructed :: "nat list owner" where
  "constructed = after (call (task_create 100 7 ''root'')) (new_owner [])"

definition root_runs :: "nat list owner" where
  "root_runs = resume_state 1 constructed"

definition with_cleanups :: "nat list owner" where
  "with_cleanups = after (task_cleanup_push 2 12) (after (task_cleanup_push 1 11) root_runs)"

definition with_child :: "nat list owner" where
  "with_child = after (call (task_create 200 8 ''child'')) with_cleanups"

definition awaiting :: "nat list owner" where
  "awaiting = after (call (task_await 2)) with_child"

definition suspended :: "nat list owner" where
  "suspended = after (finish_resume still_env 1 (Inr 1)) awaiting"

definition child_runs :: "nat list owner" where
  "child_runs = resume_state 2 suspended"

definition sleeping :: "nat list owner" where
  "sleeping = after (call (task_wait_timer still_env 50)) root_runs"


lemma runs:
  "fst (call (task_create 100 7 ''root'') (new_owner [])) = Inr ()"
  "fst (task_cleanup_push 1 11 root_runs) = Inr ()"
  "fst (task_cleanup_push 2 12 (after (task_cleanup_push 1 11) root_runs)) = Inr ()"
  "fst (call (task_create 200 8 ''child'') with_cleanups) = Inr ()"
  "fst (call (task_await 2) with_child) = Inr ()"
  "fst (validate_return 1 1 awaiting) = Inr ()"
  "fst (finish_resume still_env 1 (Inr 1) awaiting) = Inr ()"
  "fst (call (task_wait_timer still_env 50) root_runs) = Inr ()"
  "fst (validate_return 1 1 sleeping) = Inr ()"
  "fst (finish_resume still_env 1 (Inr 1) sleeping) = Inr ()"
  by code_simp+


lemma performs: "fst (perform env op o1) = Inr () \<Longrightarrow> acts env o1 (after (perform env op) o1)"
  unfolding after_def by (rule acts.perform [of env op]) (simp add: prod_eq_iff)

lemma constructed_acts: "(acts still_env)\<^sup>*\<^sup>* (new_owner []) constructed"
  using performs [of still_env "Create 100 7 ''root''" "new_owner []"] runs(1) by (auto simp: constructed_def)

lemma with_cleanups_acts: "(acts still_env)\<^sup>*\<^sup>* root_runs with_cleanups"
  using performs [of still_env "Cleanup_push 1 11" root_runs]
    performs [of still_env "Cleanup_push 2 12" "after (task_cleanup_push 1 11) root_runs"] runs(2,3)
  by (auto simp: with_cleanups_def intro: converse_rtranclp_into_rtranclp)



lemma root_state:
  "sc_root (ow_core constructed) = Some 1"
  "sc_pending (ow_core constructed) = 0" "sc_pending (ow_core suspended) = 0"
  by code_simp+

lemma next_states:
  "drive_next 1 constructed = (Inr (Resume 1), root_runs)"
  "drive_next 1 suspended = (Inr (Resume 2), child_runs)"
  unfolding root_runs_def child_runs_def by (rule drive_next_resume; code_simp)+

lemma constructed_reached: "reached still_env 1 (Polling, constructed)"
  by (rule reached.start, rule started.driving [OF constructed_acts]) (rule root_state)

lemma choosing_reached: "reached still_env 1 (Choosing, constructed)"
  by (rule reached.step [OF constructed_reached], rule exec_step.polled) (simp add: poll_def root_state)




lemma with_cleanups_arises: "arises still_env 1 with_cleanups"
  by (rule arises.activation [OF choosing_reached next_states(1) with_cleanups_acts])



section \<open>The invariant\<close>







section \<open>Safety\<close>




section \<open>Cancellation\<close>






section \<open>Progress\<close>


lemma expects_code [code]:
  "expects n o' = (case tasks_of o' (nt_owner n) of
       None \<Rightarrow> False
     | Some t \<Rightarrow>
         (case tk_external t of
            None \<Rightarrow> False
          | Some ext \<Rightarrow> tk_state t = ExternalWaiting \<and> ex_registration ext = nt_registration n \<and> ex_ready ext = None))"
  by (auto simp: expects_def split: option.split)




text \<open>
  C30.  Cleanups run in the reverse of their order: draining a task runs each of its cleanups once,
  the last one first, and leaves none.
\<close>

theorem cleanups_run_in_reverse:
  assumes "arises env root o1" and "records env tape" and "tasks_of o1 i = Some t"
  shows "\<exists>x o2 u. drain_cleanups env i first o1 = (Inr x, o2) \<and> tasks_of o2 i = Some u \<and> tk_cleanups u = []
    \<and> tape (ow_world o2) = tape (ow_world o1) @ rev (map snd (tk_cleanups t))"
proof -
  have ok: "owner_ok o1" by (rule exec_okD(1) [OF arises_ok [OF assms(1)]])
  from drain_loop_records [OF assms(2) ok assms(3) refl, of first] show ?thesis
    by (simp add: drain_cleanups_def bindX_def task_apply [OF assms(3)])
qed

theorem cleanups_run_in_reverse_witness:
  "records still_env id \<and> (\<exists>o2. drain_cleanups still_env 1 None with_cleanups = (Inr None, o2) \<and> ow_world o2 = [12, 11])"
proof -
  have rec: "records still_env id" by (simp add: records_def still_env_def)
  have "map_option tk_cleanups (tasks_of with_cleanups 1) = Some [(1, 11), (2, 12)]" and world: "ow_world with_cleanups = []"
    and run: "fst (drain_cleanups still_env 1 None with_cleanups) = Inr None"
    by code_simp+
  then obtain t where t: "tasks_of with_cleanups 1 = Some t" "tk_cleanups t = [(1, 11), (2, 12)]" by auto
  from cleanups_run_in_reverse [OF with_cleanups_arises rec t(1), of None] show ?thesis
    using rec run world t(2) by auto
qed

lemma drive_end_finishes: "drive_end root t out o1 = (Inr c, o2) \<Longrightarrow> c = Finished out"
  by (auto simp: drive_end_def bindX_def guardX_def split: prod.splits sum.splits if_splits)

lemma drive_choice:
  assumes "drive_next root o1 = (Inr (Resume i), o2)"
  obtains rest t where "next_ready (tasks_of o1) (sc_ready (ow_core o1)) = (Some i, rest)" "tasks_of o1 i = Some t"
    "tk_state t = Queued"
    "o2 = o1\<lparr>ow_core := (ow_core o1)\<lparr>sc_tasks := (tasks_of o1)(i \<mapsto> t\<lparr>tk_state := Running\<rparr>), sc_ready := rest, sc_current := Some i\<rparr>\<rparr>"
proof -
  obtain r where r: "tasks_of o1 root = Some r"
    using assms by (cases "tasks_of o1 root") (auto simp: drive_next_def bindX_def taskX_def)
  obtain found rest where ready: "next_ready (tasks_of o1) (sc_ready (ow_core o1)) = (found, rest)" by force
  let ?o = "o1\<lparr>ow_core := (ow_core o1)\<lparr>sc_ready := rest\<rparr>\<rparr>"
  have "(case found of
       Some i \<Rightarrow>
         bindX (taskX i) (\<lambda>t.
         bindX (guardX (tk_state t = Queued) (Fatal ''invalid ready task state'')) (\<lambda>_.
         bindX (updX i (\<lambda>t. t\<lparr>tk_state := Running\<rparr>)) (\<lambda>_.
         bindX (modC (\<lambda>core. core\<lparr>sc_current := Some i\<rparr>)) (\<lambda>_.
         retX (Resume i)))))
     | None \<Rightarrow>
         bindX (getC sc_pending) (\<lambda>pending.
         bindX (guardX (pending \<noteq> 0) (Fatal ''task wait has no runnable dependency'')) (\<lambda>_.
         retX Blocked))) ?o = (Inr (Resume i), o2)"
    using assms drive_end_finishes [of root r _ o1 "Resume i" o2]
    by (cases "tk_state r") (auto simp: drive_next_def bindX_def [of "taskX root"] bindX_def [of "getC _"] bindX_def [of "modC _"]
        task_apply(1) [OF r] ready)
  then obtain t where "found = Some i" "tasks_of ?o i = Some t" "tk_state t = Queued"
      "o2 = ?o\<lparr>ow_core := (put_task i (t\<lparr>tk_state := Running\<rparr>) (ow_core ?o))\<lparr>sc_current := Some i\<rparr>\<rparr>"
    by (cases found) (auto simp: bindX_def guardX_def taskX_def updX_def someX_def split: if_splits option.splits)
  then show ?thesis using that ready by (simp add: put_task_def)
qed

text \<open>
  C31.  The driver resumes the first ready task that still exists: it drops the queue up to that task,
  which was queued, makes it the running one and changes nothing else.
\<close>

theorem driver_resumes_first:
  assumes "drive_next root o1 = (Inr (Resume i), o2)"
  shows "\<exists>gone rest t. sc_ready (ow_core o1) = gone @ i # rest \<and> (\<forall>j. j \<in> set gone \<longrightarrow> tasks_of o1 j = None)
    \<and> tasks_of o1 i = Some t \<and> tk_state t = Queued
    \<and> o2 = o1\<lparr>ow_core := (ow_core o1)\<lparr>sc_tasks := (tasks_of o1)(i \<mapsto> t\<lparr>tk_state := Running\<rparr>), sc_ready := rest, sc_current := Some i\<rparr>\<rparr>"
proof -
  obtain rest t where choice: "next_ready (tasks_of o1) (sc_ready (ow_core o1)) = (Some i, rest)" "tasks_of o1 i = Some t"
    "tk_state t = Queued"
    "o2 = o1\<lparr>ow_core := (ow_core o1)\<lparr>sc_tasks := (tasks_of o1)(i \<mapsto> t\<lparr>tk_state := Running\<rparr>), sc_ready := rest, sc_current := Some i\<rparr>\<rparr>"
    by (rule drive_choice [OF assms])
  have "\<exists>gone. ready = gone @ i # rest \<and> (\<forall>j. j \<in> set gone \<longrightarrow> T j = None)"
    if "next_ready T ready = (Some i, rest)" for T ready
    using that by (induction ready) (auto split: if_splits intro: exI [of _ "_ # _"])
  from this [OF choice(1)] show ?thesis using choice by blast
qed

theorem driver_resumes_first_witness:
  "drive_next 1 constructed = (Inr (Resume 1), root_runs)
    \<and> (\<exists>gone rest. sc_ready (ow_core constructed) = gone @ 1 # rest) \<and> sc_current (ow_core root_runs) = Some 1"
proof -
  have "sc_current (ow_core root_runs) = Some 1" by code_simp
  then show ?thesis using next_states(1) driver_resumes_first [OF next_states(1)] by blast
qed

end
