(* ===== verification/Walk.thy ===== *)
theory Walk
  imports Layout
begin

text \<open>
  Traversals of checked code by the native code generator (\<open>compiler/src/codegen/llvm_gc.rs\<close>:
  \<open>walk_expression\<close>, \<open>walk_block\<close>; \<open>llvm_cleanup.rs\<close>: \<open>walk\<close>, \<open>walk_expr\<close>).  The callbacks
  of the code see each expression and statement once, before what it contains; a walk is the list of
  what they see.
\<close>

section \<open>The walk of a whole body\<close>

datatype (plugins only: code size) visit = On_expr expr | On_stmt stmt

fun walk_expr :: "expr \<Rightarrow> visit list"
and walk_kind :: "expr_kind \<Rightarrow> visit list"
and walk_exprs :: "expr list \<Rightarrow> visit list"
and walk_fields :: "(nat \<times> expr) list \<Rightarrow> visit list"
and walk_arms :: "match_arm list \<Rightarrow> visit list"
and walk_block :: "block \<Rightarrow> visit list"
and walk_stmts :: "stmt list \<Rightarrow> visit list"
and walk_stmt :: "stmt_kind \<Rightarrow> visit list" where
  "walk_expr (Expr kind t span) = On_expr (Expr kind t span) # walk_kind kind"
| "walk_kind (EUnary _ e) = walk_expr e"
| "walk_kind (EField e _) = walk_expr e"
| "walk_kind (EClosure _ e) = walk_expr e"
| "walk_kind (ECoerce e) = walk_expr e"
| "walk_kind (EDynBox _ e) = walk_expr e"
| "walk_kind (EDynCall receiver _ args) = walk_expr receiver @ walk_exprs args"
| "walk_kind (EIndirectCall callee args) = walk_expr callee @ walk_exprs args"
| "walk_kind (EBinary _ a b) = walk_expr a @ walk_expr b"
| "walk_kind (ECall _ args) = walk_exprs args"
| "walk_kind (EPrimitive _ args) = walk_exprs args"
| "walk_kind (EList args) = walk_exprs args"
| "walk_kind (EVariant _ args) = walk_exprs args"
| "walk_kind (ERecord fs) = walk_fields fs"
| "walk_kind (EFrameNew fs) = walk_fields fs"
| "walk_kind (EFrameStore frame _ e) = walk_expr frame @ walk_expr e"
| "walk_kind (EBlock b) = walk_block b"
| "walk_kind (EMatch e arms) = walk_expr e @ walk_arms arms"
| "walk_kind (EIf e yes None) = walk_expr e @ walk_block yes"
| "walk_kind (EIf e yes (Some no)) = walk_expr e @ walk_block yes @ walk_block no"
| "walk_kind _ = []"
| "walk_exprs [] = []"
| "walk_exprs (e # es) = walk_expr e @ walk_exprs es"
| "walk_fields [] = []"
| "walk_fields ((_, e) # fs) = walk_expr e @ walk_fields fs"
| "walk_arms [] = []"
| "walk_arms (MatchArm _ _ _ b # arms) = walk_block b @ walk_arms arms"
| "walk_block (Block ss None _) = walk_stmts ss"
| "walk_block (Block ss (Some e) _) = walk_stmts ss @ walk_expr e"
| "walk_stmts [] = []"
| "walk_stmts (Stmt kind span # ss) = On_stmt (Stmt kind span) # walk_stmt kind @ walk_stmts ss"
| "walk_stmt (SLet _ e) = walk_expr e"
| "walk_stmt (SAssign _ e) = walk_expr e"
| "walk_stmt (SAssert e _) = walk_expr e"
| "walk_stmt (SDiscard e) = walk_expr e"
| "walk_stmt (SExpr e) = walk_expr e"
| "walk_stmt (SReturn (Some e)) = walk_expr e"
| "walk_stmt (SWhile e b) = walk_expr e @ walk_block b"
| "walk_stmt (SDefer _ b) = walk_block b"
| "walk_stmt (SCleanup _ b) = walk_block b"
| "walk_stmt _ = []"

text \<open>\<open>expressions\<close> and \<open>block_expressions\<close>.\<close>

fun visited_exprs :: "visit list \<Rightarrow> expr list" where
  "visited_exprs [] = []"
| "visited_exprs (On_expr e # vs) = e # visited_exprs vs"
| "visited_exprs (On_stmt _ # vs) = visited_exprs vs"

definition expressions :: "expr \<Rightarrow> expr list" where
  "expressions e = visited_exprs (walk_expr e)"

definition block_expressions :: "block \<Rightarrow> expr list" where
  "block_expressions b = visited_exprs (walk_block b)"

text \<open>What \<open>allocating_functions\<close> and the escape analysis look at: the guards and the body.\<close>

definition function_expressions :: "func \<Rightarrow> expr list" where
  "function_expressions f = concat (map expressions (fn_requires f)) @ block_expressions (fn_body f)"


section \<open>Positions\<close>

text \<open>
  The code generator keys its plans by the addresses of expressions, statements and blocks.  Here a
  key is a position: the child indices on the way from the root of the body, the innermost first.
\<close>

type_synonym position = "nat list"

datatype (plugins only: code size) node = At_expr expr | At_stmt stmt | At_block block

fun nodes_expr :: "expr \<Rightarrow> position \<Rightarrow> (position \<times> node) list"
and nodes_kind :: "expr_kind \<Rightarrow> position \<Rightarrow> (position \<times> node) list"
and nodes_exprs :: "expr list \<Rightarrow> nat \<Rightarrow> position \<Rightarrow> (position \<times> node) list"
and nodes_fields :: "(nat \<times> expr) list \<Rightarrow> nat \<Rightarrow> position \<Rightarrow> (position \<times> node) list"
and nodes_arms :: "match_arm list \<Rightarrow> nat \<Rightarrow> position \<Rightarrow> (position \<times> node) list"
and nodes_block :: "block \<Rightarrow> position \<Rightarrow> (position \<times> node) list"
and nodes_stmts :: "stmt list \<Rightarrow> nat \<Rightarrow> position \<Rightarrow> (position \<times> node) list"
and nodes_stmt :: "stmt_kind \<Rightarrow> position \<Rightarrow> (position \<times> node) list" where
  "nodes_expr (Expr kind t span) = (\<lambda>pos. (pos, At_expr (Expr kind t span)) # nodes_kind kind pos)"
| "nodes_kind (EUnary _ e) = (\<lambda>pos. nodes_expr e (0 # pos))"
| "nodes_kind (EField e _) = (\<lambda>pos. nodes_expr e (0 # pos))"
| "nodes_kind (EClosure _ e) = (\<lambda>pos. nodes_expr e (0 # pos))"
| "nodes_kind (ECoerce e) = (\<lambda>pos. nodes_expr e (0 # pos))"
| "nodes_kind (EDynBox _ e) = (\<lambda>pos. nodes_expr e (0 # pos))"
| "nodes_kind (EDynCall receiver _ args) = (\<lambda>pos. nodes_expr receiver (0 # pos) @ nodes_exprs args 1 pos)"
| "nodes_kind (EIndirectCall callee args) = (\<lambda>pos. nodes_expr callee (0 # pos) @ nodes_exprs args 1 pos)"
| "nodes_kind (EBinary _ a b) = (\<lambda>pos. nodes_expr a (0 # pos) @ nodes_expr b (1 # pos))"
| "nodes_kind (ECall _ args) = (\<lambda>pos. nodes_exprs args 0 pos)"
| "nodes_kind (EPrimitive _ args) = (\<lambda>pos. nodes_exprs args 0 pos)"
| "nodes_kind (EList args) = (\<lambda>pos. nodes_exprs args 0 pos)"
| "nodes_kind (EVariant _ args) = (\<lambda>pos. nodes_exprs args 0 pos)"
| "nodes_kind (ERecord fs) = (\<lambda>pos. nodes_fields fs 0 pos)"
| "nodes_kind (EFrameNew fs) = (\<lambda>pos. nodes_fields fs 0 pos)"
| "nodes_kind (EFrameStore frame _ e) = (\<lambda>pos. nodes_expr frame (0 # pos) @ nodes_expr e (1 # pos))"
| "nodes_kind (EBlock b) = (\<lambda>pos. nodes_block b (0 # pos))"
| "nodes_kind (EMatch e arms) = (\<lambda>pos. nodes_expr e (0 # pos) @ nodes_arms arms 1 pos)"
| "nodes_kind (EIf e yes None) = (\<lambda>pos. nodes_expr e (0 # pos) @ nodes_block yes (1 # pos))"
| "nodes_kind (EIf e yes (Some no)) =
     (\<lambda>pos. nodes_expr e (0 # pos) @ nodes_block yes (1 # pos) @ nodes_block no (2 # pos))"
| "nodes_kind _ = (\<lambda>pos. [])"
| "nodes_exprs [] = (\<lambda>k pos. [])"
| "nodes_exprs (e # es) = (\<lambda>k pos. nodes_expr e (k # pos) @ nodes_exprs es (Suc k) pos)"
| "nodes_fields [] = (\<lambda>k pos. [])"
| "nodes_fields ((_, e) # fs) = (\<lambda>k pos. nodes_expr e (k # pos) @ nodes_fields fs (Suc k) pos)"
| "nodes_arms [] = (\<lambda>k pos. [])"
| "nodes_arms (MatchArm _ _ _ b # arms) = (\<lambda>k pos. nodes_block b (k # pos) @ nodes_arms arms (Suc k) pos)"
| "nodes_block (Block ss None falls) = (\<lambda>pos. (pos, At_block (Block ss None falls)) # nodes_stmts ss 0 pos)"
| "nodes_block (Block ss (Some e) falls) =
     (\<lambda>pos. (pos, At_block (Block ss (Some e) falls)) # nodes_stmts ss 0 pos @ nodes_expr e (length ss # pos))"
| "nodes_stmts [] = (\<lambda>k pos. [])"
| "nodes_stmts (Stmt kind span # ss) =
     (\<lambda>k pos. (k # pos, At_stmt (Stmt kind span)) # nodes_stmt kind (k # pos) @ nodes_stmts ss (Suc k) pos)"
| "nodes_stmt (SLet _ e) = (\<lambda>pos. nodes_expr e (0 # pos))"
| "nodes_stmt (SAssign _ e) = (\<lambda>pos. nodes_expr e (0 # pos))"
| "nodes_stmt (SAssert e _) = (\<lambda>pos. nodes_expr e (0 # pos))"
| "nodes_stmt (SDiscard e) = (\<lambda>pos. nodes_expr e (0 # pos))"
| "nodes_stmt (SExpr e) = (\<lambda>pos. nodes_expr e (0 # pos))"
| "nodes_stmt (SReturn (Some e)) = (\<lambda>pos. nodes_expr e (0 # pos))"
| "nodes_stmt (SWhile e b) = (\<lambda>pos. nodes_expr e (0 # pos) @ nodes_block b (1 # pos))"
| "nodes_stmt (SDefer _ b) = (\<lambda>pos. nodes_block b (0 # pos))"
| "nodes_stmt (SCleanup _ b) = (\<lambda>pos. nodes_block b (0 # pos))"
| "nodes_stmt _ = (\<lambda>pos. [])"

text \<open>A position at or below another, and at or below a child from the \<open>k\<close>th on and before the \<open>n\<close>th.\<close>

definition at_or_below :: "position \<Rightarrow> position set" where
  "at_or_below pos = {q. \<exists>r. q = r @ pos}"

definition below_kids :: "nat \<Rightarrow> nat \<Rightarrow> position \<Rightarrow> position set" where
  "below_kids k n pos = {q. \<exists>r i. k \<le> i \<and> i < n \<and> q = r @ i # pos}"

lemma below_self [simp]: "pos \<in> at_or_below pos"
  by (simp add: at_or_below_def)

lemma below_kid_index: "r @ i # pos = s @ j # pos \<Longrightarrow> i = j"
proof -
  assume eq: "r @ i # pos = s @ j # pos"
  have "length (r @ i # pos) = length (s @ j # pos)" using eq by simp
  then have "length r = length s" by simp
  then show "i = j" using eq by simp
qed

lemma below_kids_below: "below_kids k n pos \<subseteq> at_or_below pos"
proof
  fix q assume "q \<in> below_kids k n pos"
  then obtain r i where "q = r @ i # pos" by (auto simp: below_kids_def)
  then have "q = (r @ [i]) @ pos" by simp
  then show "q \<in> at_or_below pos" unfolding at_or_below_def by blast
qed

lemma below_kids_not_self: "pos \<notin> below_kids k n pos"
proof
  assume "pos \<in> below_kids k n pos"
  then obtain r i where "pos = r @ i # pos" by (auto simp: below_kids_def)
  then have "length pos = length (r @ i # pos)" by simp
  then show False by simp
qed

lemma below_kids_one: "at_or_below (k # pos) \<subseteq> below_kids k (Suc k) pos"
  by (auto simp: below_kids_def at_or_below_def)

lemma below_kids_disjoint: "n \<le> k \<Longrightarrow> below_kids j n pos \<inter> below_kids k m pos = {}"
proof -
  assume "n \<le> k"
  show ?thesis
  proof (rule equals0I)
    fix q assume "q \<in> below_kids j n pos \<inter> below_kids k m pos"
    then obtain r i s i' where "i < n" "k \<le> i'" "q = r @ i # pos" "q = s @ i' # pos"
      by (auto simp: below_kids_def)
    then show False using below_kid_index [of r i pos s i'] \<open>n \<le> k\<close> by simp
  qed
qed

lemma below_kids_mono: "k' \<le> k \<Longrightarrow> n \<le> n' \<Longrightarrow> below_kids k n pos \<subseteq> below_kids k' n' pos"
  unfolding below_kids_def by fastforce

lemma below_kids_join: "k \<le> n \<Longrightarrow> n \<le> m \<Longrightarrow> below_kids k n pos \<union> below_kids n m pos \<subseteq> below_kids k m pos"
  using below_kids_mono [of k k n m pos] below_kids_mono [of k n m m pos] by simp

text \<open>Distinct positions in a part of the tree.\<close>

definition spread_over :: "position set \<Rightarrow> (position \<times> node) list \<Rightarrow> bool" where
  "spread_over P ns \<longleftrightarrow> distinct (map fst ns) \<and> set (map fst ns) \<subseteq> P"

lemma spread_over_nil [simp]: "spread_over P []"
  by (simp add: spread_over_def)

lemma spread_over_mono: "spread_over P ns \<Longrightarrow> P \<subseteq> Q \<Longrightarrow> spread_over Q ns"
  unfolding spread_over_def by blast

lemma spread_over_append:
  "spread_over P ns \<Longrightarrow> spread_over Q ms \<Longrightarrow> P \<inter> Q = {} \<Longrightarrow> P \<union> Q \<subseteq> S \<Longrightarrow> spread_over S (ns @ ms)"
  unfolding spread_over_def map_append distinct_append set_append by blast

lemma spread_kids_append:
  "spread_over (below_kids k n pos) ns \<Longrightarrow> spread_over (below_kids n m pos) ms \<Longrightarrow> k \<le> n \<Longrightarrow> n \<le> m \<Longrightarrow>
    spread_over (below_kids k m pos) (ns @ ms)"
  by (rule spread_over_append [OF _ _ below_kids_disjoint below_kids_join]) simp_all

lemma spread_kid: "spread_over (at_or_below (k # pos)) ns \<Longrightarrow> spread_over (below_kids k (Suc k) pos) ns"
  by (rule spread_over_mono [OF _ below_kids_one])

lemma spread_kid_append:
  "spread_over (at_or_below (k # pos)) ns \<Longrightarrow> spread_over (below_kids (Suc k) m pos) ms \<Longrightarrow> Suc k \<le> m \<Longrightarrow>
    spread_over (below_kids k m pos) (ns @ ms)"
  by (rule spread_kids_append [OF spread_kid]) simp_all

lemma spread_node: "spread_over (below_kids k n pos) ns \<Longrightarrow> spread_over (at_or_below pos) ((pos, x) # ns)"
  using below_kids_not_self [of pos k n] below_kids_below [of k n pos]
  unfolding spread_over_def by auto

text \<open>Every node of a body has its own position.\<close>

definition spread_from :: "nat \<Rightarrow> position \<Rightarrow> (position \<times> node) list \<Rightarrow> bool" where
  "spread_from k pos ns \<longleftrightarrow> (\<exists>n \<ge> k. spread_over (below_kids k n pos) ns)"

lemma spread_from_nil: "spread_from k pos []"
  by (auto simp: spread_from_def)

lemma spread_from_one: "spread_over (at_or_below (k # pos)) ns \<Longrightarrow> spread_from k pos ns"
  unfolding spread_from_def using spread_kid by (intro exI [of _ "Suc k"]) simp

lemma spread_from_more:
  "spread_over (at_or_below (k # pos)) ns \<Longrightarrow> spread_from (Suc k) pos ms \<Longrightarrow> spread_from k pos (ns @ ms)"
  unfolding spread_from_def using spread_kid_append Suc_leD by blast

lemma spread_from_node: "spread_from 0 pos ns \<Longrightarrow> spread_over (at_or_below pos) ((pos, x) # ns)"
  unfolding spread_from_def using spread_node by blast

lemma spread_from_whole: "spread_over (below_kids 0 n pos) ns \<Longrightarrow> spread_from 0 pos ns"
  unfolding spread_from_def by blast

lemma spread_from_last:
  "spread_over (below_kids 0 n pos) ns \<Longrightarrow> spread_over (at_or_below (n # pos)) ms \<Longrightarrow> spread_from 0 pos (ns @ ms)"
  by (rule spread_from_whole, rule spread_kids_append [OF _ spread_kid]) simp_all

lemma spread_stmt:
  "spread_from 0 (k # pos) ns \<Longrightarrow> spread_over (below_kids (Suc k) (Suc k + n) pos) ms \<Longrightarrow>
    spread_over (below_kids k (Suc (k + n)) pos) ((k # pos, x) # ns @ ms)"
  using spread_kid_append [OF spread_from_node, of k pos ns "Suc k + n" ms x] by simp

lemmas spread_from = spread_from_nil spread_from_one spread_from_more spread_from_node numeral_2_eq_2

lemma nodes_spread:
  "spread_over (at_or_below pos) (nodes_expr e pos)"
  "spread_from 0 pos (nodes_kind kind pos)"
  "spread_from k pos (nodes_exprs es k pos)"
  "spread_from k pos (nodes_fields fs k pos)"
  "spread_from k pos (nodes_arms arms k pos)"
  "spread_over (at_or_below pos) (nodes_block b pos)"
  "spread_over (below_kids k (k + length ss) pos) (nodes_stmts ss k pos)"
  "spread_from 0 pos (nodes_stmt sk pos)"
proof (induction e and kind and es and fs and arms and b and ss and sk
    arbitrary: pos and pos and k pos and k pos and k pos and pos and k pos and pos
    rule: nodes_expr_nodes_kind_nodes_exprs_nodes_fields_nodes_arms_nodes_block_nodes_stmts_nodes_stmt.induct, goal_cases)
  case (34 ss falls pos)
  show ?case using 34(1) [where k = 0 and pos = pos] by (simp add: spread_from_node spread_from_whole)
next
  case (35 ss e falls pos)
  show ?case using 35(1) [where k = 0 and pos = pos] 35(2) [where pos = "length ss # pos"]
    by (simp add: spread_from_node spread_from_last)
next
  case (37 sk span ss k pos)
  show ?case using spread_stmt [OF 37(1) 37(2)] by simp
qed (simp_all add: spread_from)

lemma nodes_distinct: "distinct (map fst (nodes_expr e pos))" "distinct (map fst (nodes_block b pos))"
  using nodes_spread(1,6) by (simp_all add: spread_over_def)

text \<open>A node of a part is a node of the whole.\<close>

lemma nodes_inside:
  "(q, At_expr d) \<in> set (nodes_expr e pos) \<Longrightarrow> set (nodes_expr d q) \<subseteq> set (nodes_expr e pos)"
  "(q, At_expr d) \<in> set (nodes_kind kind pos) \<Longrightarrow> set (nodes_expr d q) \<subseteq> set (nodes_kind kind pos)"
  "(q, At_expr d) \<in> set (nodes_exprs es k pos) \<Longrightarrow> set (nodes_expr d q) \<subseteq> set (nodes_exprs es k pos)"
  "(q, At_expr d) \<in> set (nodes_fields fs k pos) \<Longrightarrow> set (nodes_expr d q) \<subseteq> set (nodes_fields fs k pos)"
  "(q, At_expr d) \<in> set (nodes_arms arms k pos) \<Longrightarrow> set (nodes_expr d q) \<subseteq> set (nodes_arms arms k pos)"
  "(q, At_expr d) \<in> set (nodes_block b pos) \<Longrightarrow> set (nodes_expr d q) \<subseteq> set (nodes_block b pos)"
  "(q, At_expr d) \<in> set (nodes_stmts ss k pos) \<Longrightarrow> set (nodes_expr d q) \<subseteq> set (nodes_stmts ss k pos)"
  "(q, At_expr d) \<in> set (nodes_stmt sk pos) \<Longrightarrow> set (nodes_expr d q) \<subseteq> set (nodes_stmt sk pos)"
proof (induction e and kind and es and fs and arms and b and ss and sk
    arbitrary: pos and pos and k pos and k pos and k pos and pos and k pos and pos
    rule: nodes_expr_nodes_kind_nodes_exprs_nodes_fields_nodes_arms_nodes_block_nodes_stmts_nodes_stmt.induct)
qed auto

end
