(* ===== verification/Values.thy ===== *)
theory Values
  imports Layout
begin

text \<open>
  What the native code generator asks of a type (\<open>compiler/src/codegen/llvm_gc.rs\<close>: \<open>managed\<close>;
  \<open>llvm_storage.rs\<close>: \<open>storage\<close>; \<open>llvm.rs\<close>: \<open>value_words\<close>, \<open>payload_words\<close>).  The functions follow
  the fields of a value through the type table.  Their recursion is bounded by a number of levels;
  \<open>None\<close> and \<open>Panicked\<close> are the outcome of a recursion that would go deeper, or of an index out of
  range.  One level more than there are types is enough for the layouts that the decoder accepts.
\<close>

section \<open>Types that hold managed data\<close>

text \<open>\<open>any\<close> of an iterator: it stops at the first element that holds.\<close>

fun any_known :: "('a \<Rightarrow> bool option) \<Rightarrow> 'a list \<Rightarrow> bool option" where
  "any_known f [] = Some False"
| "any_known f (x # xs) = (case f x of None \<Rightarrow> None | Some True \<Rightarrow> Some True | Some False \<Rightarrow> any_known f xs)"

lemma any_known_cong [fundef_cong]:
  "xs = ys \<Longrightarrow> (\<And>x. x \<in> set ys \<Longrightarrow> f x = g x) \<Longrightarrow> any_known f xs = any_known g ys"
  by (induction xs arbitrary: ys) (auto split: option.split bool.split)

lemma any_known_iff: "list_all (\<lambda>x. f x \<noteq> None) xs \<Longrightarrow> any_known f xs = Some (\<exists>x \<in> set xs. f x = Some True)"
  by (induction xs) (auto split: option.split bool.split)

text \<open>The walk through a value's inline parts, with the verdict on handles given by \<open>leaf\<close>.\<close>

fun managed_in :: "nat \<Rightarrow> program \<Rightarrow> ty \<Rightarrow> bool option" where
  "managed_in 0 p t = None"
| "managed_in (Suc n) p t =
     (case t of
        TText \<Rightarrow> Some True
      | TBytes \<Rightarrow> Some True
      | TList _ \<Rightarrow> Some True
      | TDyn _ \<Rightarrow> Some True
      | TFunction _ \<Rightarrow> Some True
      | TData i \<Rightarrow>
          (case map_option data_kind_of (get_nth (p_types p) i) of
             None \<Rightarrow> None
           | Some (KTask _) \<Rightarrow> Some False
           | Some (KFrame _) \<Rightarrow> Some True
           | Some (KRefined base) \<Rightarrow> managed_in n p base
           | Some (KRecord fs) \<Rightarrow> any_known (\<lambda>(_, t). managed_in n p t) fs
           | Some (KEnum variants) \<Rightarrow> any_known (\<lambda>(_, ts). any_known (managed_in n p) ts) variants)
      | _ \<Rightarrow> Some False)"

definition managed :: "program \<Rightarrow> ty \<Rightarrow> bool" where
  "managed p t \<longleftrightarrow> managed_in (Suc (length (p_types p))) p t = Some True"

fun storage_in :: "nat \<Rightarrow> program \<Rightarrow> ty \<Rightarrow> bool option" where
  "storage_in 0 p t = None"
| "storage_in (Suc n) p t =
     (case t of
        TList _ \<Rightarrow> Some True
      | TBytes \<Rightarrow> Some True
      | TFunction _ \<Rightarrow> Some True
      | TDyn _ \<Rightarrow> Some True
      | TData i \<Rightarrow>
          (case map_option data_kind_of (get_nth (p_types p) i) of
             None \<Rightarrow> None
           | Some (KFrame _) \<Rightarrow> Some True
           | Some (KTask _) \<Rightarrow> Some True
           | Some (KRefined base) \<Rightarrow> storage_in n p base
           | Some (KRecord fs) \<Rightarrow> any_known (\<lambda>(_, t). storage_in n p t) fs
           | Some (KEnum variants) \<Rightarrow> any_known (\<lambda>(_, ts). any_known (storage_in n p) ts) variants)
      | _ \<Rightarrow> Some False)"

definition storage :: "program \<Rightarrow> ty \<Rightarrow> bool" where
  "storage p t \<longleftrightarrow> storage_in (Suc (length (p_types p))) p t = Some True"

section \<open>The size of a value\<close>

definition add_words :: "string \<Rightarrow> nat \<Rightarrow> nat \<Rightarrow> nat result" where
  "add_words message a b = (if int a + int b < 2 ^ 64 then Inr (a + b) else Inl (Rejected message))"

definition sum_words :: "string \<Rightarrow> (ty \<Rightarrow> nat result) \<Rightarrow> ty list \<Rightarrow> nat result" where
  "sum_words message words ts = foldE (\<lambda>t total. bindE (words t) (add_words message total)) ts 0"

text \<open>\<open>payload_words\<close>: the largest variant.\<close>

definition payload_words :: "(ty \<Rightarrow> nat result) \<Rightarrow> (string \<times> ty list) list \<Rightarrow> nat result" where
  "payload_words words variants =
     foldE (\<lambda>(_, ts) largest. mapE (max largest) (sum_words ''enum layout is too large'' words ts)) variants 0"

fun value_words_in :: "nat \<Rightarrow> program \<Rightarrow> ty \<Rightarrow> nat result" where
  "value_words_in 0 p t = Inl Panicked"
| "value_words_in (Suc n) p t =
     (case t of
        TInt \<Rightarrow> Inr 1
      | TFloat \<Rightarrow> Inr 1
      | TBool \<Rightarrow> Inr 1
      | TText \<Rightarrow> Inr 1
      | TBytes \<Rightarrow> Inr 1
      | TList _ \<Rightarrow> Inr 1
      | TDyn _ \<Rightarrow> Inr 2
      | TFunction _ \<Rightarrow> Inr 2
      | TUnit \<Rightarrow> Inr 0
      | TParameter _ \<Rightarrow> Inl (Rejected ''unbound type parameter reached native layout'')
      | TData i \<Rightarrow>
          (case map_option data_kind_of (get_nth (p_types p) i) of
             None \<Rightarrow> Inl Panicked
           | Some (KTask _) \<Rightarrow> Inr 1
           | Some (KFrame _) \<Rightarrow> Inr 1
           | Some (KRefined base) \<Rightarrow> value_words_in n p base
           | Some (KRecord fs) \<Rightarrow> sum_words ''record layout is too large'' (value_words_in n p) (map snd fs)
           | Some (KEnum variants) \<Rightarrow>
               bindE (payload_words (value_words_in n p) variants) (\<lambda>words. add_words ''enum layout is too large'' words 1)))"

definition value_words :: "program \<Rightarrow> ty \<Rightarrow> nat result" where
  "value_words p = value_words_in (Suc (length (p_types p))) p"

section \<open>Enough levels\<close>

text \<open>The types inside type \<open>i\<close>, by value.\<close>

definition inner_types :: "program \<Rightarrow> nat \<Rightarrow> nat set" where
  "inner_types p i = {j. (i, j) \<in> (contains_value p)\<^sup>+}"

definition depth_of :: "program \<Rightarrow> ty \<Rightarrow> nat" where
  "depth_of p t = (case t of TData i \<Rightarrow> Suc (card (inner_types p i)) | _ \<Rightarrow> 0)"

lemma inner_types_range:
  assumes "types_closed p"
  shows "inner_types p i \<subseteq> {..<length (p_types p)}"
proof
  fix j assume "j \<in> inner_types p i"
  then obtain k where "(k, j) \<in> contains_value p" unfolding inner_types_def by (auto elim: tranclE)
  then have "k < length (p_types p)" "TData j \<in> set (kind_contents (data_kind_of (p_types p ! k)))"
    by (simp_all add: contains_value_def)
  from types_closed_contents [OF assms this] show "j \<in> {..<length (p_types p)}" by simp
qed

lemma inner_types_smaller:
  assumes "types_closed p" "acyclic (contains_value p)" "(i, j) \<in> contains_value p"
  shows "card (inner_types p j) < card (inner_types p i)"
proof (rule psubset_card_mono)
  show "finite (inner_types p i)" using inner_types_range [OF assms(1)] finite_subset by blast
  have "j \<notin> inner_types p j" using assms(2) by (simp add: inner_types_def acyclic_def)
  moreover have "j \<in> inner_types p i" using assms(3) by (auto simp: inner_types_def)
  moreover have "inner_types p j \<subseteq> inner_types p i" using assms(3) by (auto simp: inner_types_def)
  ultimately show "inner_types p j \<subset> inner_types p i" by blast
qed

lemma depth_enough:
  assumes "types_closed p" "acyclic (contains_value p)" "ty_in_range p t"
  shows "depth_of p t \<le> length (p_types p)"
proof (cases t)
  case (TData i)
  have "i \<notin> inner_types p i" using assms(2) by (simp add: inner_types_def acyclic_def)
  moreover have "finite (inner_types p i)" using inner_types_range [OF assms(1)] finite_subset by blast
  ultimately have "insert i (inner_types p i) \<subseteq> {..<length (p_types p)}" "card (insert i (inner_types p i)) = Suc (card (inner_types p i))"
    using inner_types_range [OF assms(1), of i] assms(3) TData by auto
  then have "Suc (card (inner_types p i)) \<le> card {..<length (p_types p)}" by (metis card_mono finite_lessThan)
  then show ?thesis using TData by (simp add: depth_of_def)
qed (simp_all add: depth_of_def)

text \<open>The induction over a type's contents.\<close>

lemma depth_induct [consumes 3, case_names step]:
  assumes closed: "types_closed p" and acyclic: "acyclic (contains_value p)" and "ty_in_range p t"
    and step: "\<And>t. ty_in_range p t \<Longrightarrow>
      (\<And>i u. t = TData i \<Longrightarrow> u \<in> set (kind_contents (data_kind_of (p_types p ! i))) \<Longrightarrow>
         ty_in_range p u \<and> depth_of p u < depth_of p t \<and> P u) \<Longrightarrow> P t"
  shows "P t"
  using assms(3)
proof (induction "depth_of p t" arbitrary: t rule: less_induct)
  case less
  show ?case
  proof (rule step [OF less.prems])
    fix i u assume t: "t = TData i" and u: "u \<in> set (kind_contents (data_kind_of (p_types p ! i)))"
    have i: "i < length (p_types p)" using less.prems t by simp
    have range: "ty_in_range p u" by (rule types_closed_contents [OF closed i u])
    have "depth_of p u < depth_of p t"
    proof (cases u)
      case (TData j)
      then have "(i, j) \<in> contains_value p" using i u by (simp add: contains_value_def)
      from inner_types_smaller [OF closed acyclic this] show ?thesis using TData t by (simp add: depth_of_def)
    qed (simp_all add: depth_of_def t)
    then show "ty_in_range p u \<and> depth_of p u < depth_of p t \<and> P u" using range less.hyps by blast
  qed
qed


section \<open>What the functions compute\<close>

text \<open>The parts that a value holds inline.\<close>

inductive part_of :: "program \<Rightarrow> ty \<Rightarrow> ty \<Rightarrow> bool" for p where
  itself: "part_of p t t"
| inner: "u \<in> set (kind_contents (data_kind_of (p_types p ! i))) \<Longrightarrow> part_of p u v \<Longrightarrow> part_of p (TData i) v"

inductive_cases part_ofE: "part_of p t u"

definition gc_handle :: "program \<Rightarrow> ty \<Rightarrow> bool" where
  "gc_handle p t = (case t of
       TText \<Rightarrow> True | TBytes \<Rightarrow> True | TList _ \<Rightarrow> True | TDyn _ \<Rightarrow> True | TFunction _ \<Rightarrow> True
     | TData i \<Rightarrow> (case data_kind_of (p_types p ! i) of KFrame _ \<Rightarrow> True | _ \<Rightarrow> False)
     | _ \<Rightarrow> False)"

definition storage_handle :: "program \<Rightarrow> ty \<Rightarrow> bool" where
  "storage_handle p t = (case t of
       TBytes \<Rightarrow> True | TList _ \<Rightarrow> True | TDyn _ \<Rightarrow> True | TFunction _ \<Rightarrow> True
     | TData i \<Rightarrow> (case data_kind_of (p_types p ! i) of KFrame _ \<Rightarrow> True | KTask _ \<Rightarrow> True | _ \<Rightarrow> False)
     | _ \<Rightarrow> False)"

lemma part_of_data:
  "part_of p (TData i) v \<longleftrightarrow> v = TData i \<or> (\<exists>u \<in> set (kind_contents (data_kind_of (p_types p ! i))). part_of p u v)"
  by (auto elim: part_ofE intro: part_of.intros)

lemma part_of_leaf: "\<not> (\<exists>i. t = TData i) \<Longrightarrow> part_of p t v \<longleftrightarrow> v = t"
  by (auto elim: part_ofE intro: part_of.intros)

lemma any_known_fields:
  assumes "\<forall>f \<in> set fs. g (snd f) = Some (h (snd f))"
  shows "any_known (\<lambda>(_, t). g t) fs = Some (\<exists>t \<in> set (map snd fs). h t)"
  using assms by (induction fs) (auto split: bool.split)

lemma any_known_types:
  assumes "\<forall>t \<in> set ts. g t = Some (h t)"
  shows "any_known g ts = Some (\<exists>t \<in> set ts. h t)"
  using assms by (induction ts) (auto split: bool.split)

lemma any_known_variants:
  assumes "\<forall>t \<in> set (concat (map snd vs)). g t = Some (h t)"
  shows "any_known (\<lambda>(_, ts). any_known g ts) vs = Some (\<exists>t \<in> set (concat (map snd vs)). h t)"
proof -
  have "any_known (\<lambda>(_, ts). any_known g ts) vs = Some (\<exists>ts \<in> set (map snd vs). \<exists>t \<in> set ts. h t)"
  proof (rule any_known_fields, intro ballI)
    fix v assume "v \<in> set vs"
    then show "any_known g (snd v) = Some (\<exists>t \<in> set (snd v). h t)"
      using assms by (intro any_known_types) auto
  qed
  then show ?thesis by auto
qed

lemmas any_known_parts = any_known_fields any_known_types any_known_variants

lemma managed_in_iff:
  assumes "types_closed p" "acyclic (contains_value p)" "ty_in_range p t"
  shows "depth_of p t < n \<Longrightarrow> managed_in n p t = Some (\<exists>u. part_of p t u \<and> gc_handle p u)"
  using assms
proof (induction t arbitrary: n rule: depth_induct)
  case (step t)
  then obtain m where n: "n = Suc m" by (cases n) auto
  show ?case
  proof (cases "\<exists>i. t = TData i")
    case False
    then show ?thesis unfolding part_of_leaf [OF False] by (cases t) (simp_all add: n gc_handle_def)
  next
    case True
    then obtain i where i: "t = TData i" ..
    have range: "i < length (p_types p)" using step.hyps i by simp
    have rest: "managed_in m p u = Some (\<exists>v. part_of p u v \<and> gc_handle p v)"
      if "u \<in> set (kind_contents (data_kind_of (p_types p ! i)))" for u
      using step.IH [OF i that] step.prems(1) n by auto
    show ?thesis
      unfolding i n part_of_data using range rest
      by (cases "data_kind_of (p_types p ! i)")
        (auto simp: get_nth_def kind_contents_def gc_handle_def
          any_known_parts [where h = "\<lambda>u. \<exists>v. part_of p u v \<and> gc_handle p v"])
  qed
qed

lemma storage_in_iff:
  assumes "types_closed p" "acyclic (contains_value p)" "ty_in_range p t"
  shows "depth_of p t < n \<Longrightarrow> storage_in n p t = Some (\<exists>u. part_of p t u \<and> storage_handle p u)"
  using assms
proof (induction t arbitrary: n rule: depth_induct)
  case (step t)
  then obtain m where n: "n = Suc m" by (cases n) auto
  show ?case
  proof (cases "\<exists>i. t = TData i")
    case False
    then show ?thesis unfolding part_of_leaf [OF False] by (cases t) (simp_all add: n storage_handle_def)
  next
    case True
    then obtain i where i: "t = TData i" ..
    have range: "i < length (p_types p)" using step.hyps i by simp
    have rest: "storage_in m p u = Some (\<exists>v. part_of p u v \<and> storage_handle p v)"
      if "u \<in> set (kind_contents (data_kind_of (p_types p ! i)))" for u
      using step.IH [OF i that] step.prems(1) n by auto
    show ?thesis
      unfolding i n part_of_data using range rest
      by (cases "data_kind_of (p_types p ! i)")
        (auto simp: get_nth_def kind_contents_def storage_handle_def
          any_known_parts [where h = "\<lambda>u. \<exists>v. part_of p u v \<and> storage_handle p v"])
  qed
qed

section \<open>Sizes are computed and fit\<close>

lemma add_words_Inr: "add_words message a b = Inr n \<longleftrightarrow> n = a + b \<and> int n < 2 ^ 64"
  by (auto simp: add_words_def)

lemma sum_words_ok:
  assumes "\<And>t. t \<in> set ts \<Longrightarrow> safe (words t)"
  shows "safe (sum_words message words ts)" "sum_words message words ts = Inr n \<Longrightarrow> int n < 2 ^ 64"
proof -
  show "safe (sum_words message words ts)" unfolding sum_words_def
    by (rule safe_foldE [where P = "\<lambda>_. True"]) (auto intro!: safe_bindE assms simp: add_words_def)
  show "int n < 2 ^ 64" if "sum_words message words ts = Inr n"
    by (rule foldE_invariant [OF that [unfolded sum_words_def], where P = "\<lambda>n. int n < 2 ^ 64"]) (auto simp: add_words_Inr)
qed

lemma payload_words_ok:
  assumes "\<And>t. t \<in> set (concat (map snd vs)) \<Longrightarrow> safe (words t)"
  shows "safe (payload_words words vs)" "payload_words words vs = Inr n \<Longrightarrow> int n < 2 ^ 64"
proof -
  have sum: "safe (sum_words message words (snd v))"
    "sum_words message words (snd v) = Inr k \<Longrightarrow> int k < 2 ^ 64" if "v \<in> set vs" for v message k
    using sum_words_ok [where ts = "snd v" and words = words and message = message] assms that by auto
  show "safe (payload_words words vs)" unfolding payload_words_def
    by (rule safe_foldE [where P = "\<lambda>_. True"]) (use sum(1) in \<open>auto split: prod.split\<close>)
  show "int n < 2 ^ 64" if "payload_words words vs = Inr n"
    by (rule foldE_invariant [OF that [unfolded payload_words_def], where P = "\<lambda>n. int n < 2 ^ 64"])
      (use sum(2) in \<open>auto split: prod.splits simp: mapE_def max_def\<close>)
qed

text \<open>The payload of an enum has room for every variant.\<close>

lemma payload_words_max:
  assumes "payload_words words vs = Inr n" "v \<in> set vs"
  shows "\<exists>k \<le> n. sum_words ''enum layout is too large'' words (snd v) = Inr k"
proof -
  let ?f = "\<lambda>(_, ts) largest. mapE (max largest) (sum_words ''enum layout is too large'' words ts)"
  have "foldE ?f vs m = Inr n \<Longrightarrow> m \<le> n \<and> (v \<in> set vs \<longrightarrow> (\<exists>k \<le> n. sum_words ''enum layout is too large'' words (snd v) = Inr k))" for m
    by (induction vs arbitrary: m) (fastforce simp: mapE_def split: prod.splits)+
  then show ?thesis using assms by (simp add: payload_words_def)
qed

lemma value_words_in_ok:
  assumes "types_closed p" "acyclic (contains_value p)" "ty_in_range p t"
  shows "depth_of p t < n \<Longrightarrow> safe (value_words_in n p t) \<and> (\<forall>k. value_words_in n p t = Inr k \<longrightarrow> int k < 2 ^ 64)"
  using assms
proof (induction t arbitrary: n rule: depth_induct)
  case (step t)
  then obtain m where n: "n = Suc m" by (cases n) auto
  show ?case
  proof (cases "\<exists>i. t = TData i")
    case False
    then show ?thesis by (cases t) (simp_all add: n)
  next
    case True
    then obtain i where i: "t = TData i" ..
    have range: "i < length (p_types p)" using step.hyps i by simp
    have less_trans_Suc: "depth_of p u < m" if "depth_of p u < depth_of p t" for u
      using that step.prems(1) n by simp
    have rest: "safe (value_words_in m p u)" "\<forall>k. value_words_in m p u = Inr k \<longrightarrow> int k < 2 ^ 64"
      if "u \<in> set (kind_contents (data_kind_of (p_types p ! i)))" for u
      using step.IH [OF i that] step.prems(1) n less_trans_Suc by (blast, blast)
    show ?thesis
    proof (cases "data_kind_of (p_types p ! i)")
      case (KRecord fs)
      then show ?thesis using sum_words_ok [where ts = "map snd fs" and words = "value_words_in m p" and message = "''record layout is too large''"] rest range
        by (simp add: n i get_nth_def kind_contents_def)
    next
      case (KEnum vs)
      then show ?thesis using payload_words_ok [where vs = vs and words = "value_words_in m p"] rest range
        by (auto simp: n i get_nth_def kind_contents_def add_words_Inr add_words_def intro!: safe_bindE)
    qed (use rest range in \<open>auto simp: n i get_nth_def kind_contents_def\<close>)
  qed
qed

end
