(* ===== verification/Collect.thy ===== *)
theory Collect
  imports Walk Values
begin

text \<open>
  Where generated code can collect (\<open>compiler/src/codegen/llvm_gc.rs\<close>: \<open>allocates\<close>,
  \<open>allocating_functions\<close>, \<open>TemporarySlots::may_allocate\<close> and \<open>block_allocates\<close>).  The addresses that
  the code uses as keys are positions here (theory \<open>Walk\<close>).
\<close>

section \<open>Operations that allocate\<close>

fun core_allocates :: "core_op \<Rightarrow> bool" where
  "core_allocates FloatFormat = True"
| "core_allocates TextConcat = True"
| "core_allocates TextSlice = True"
| "core_allocates ArgText = True"
| "core_allocates ProcessCaptureConfigured = True"
| "core_allocates ProcessCaptureInputConfigured = True"
| "core_allocates EnvGet = True"
| "core_allocates BytesNew = True"
| "core_allocates BytesPush = True"
| "core_allocates BytesTextCopy = True"
| "core_allocates ListNew = True"
| "core_allocates ListNewCapacity = True"
| "core_allocates ListPush = True"
| "core_allocates ListPop = True"
| "core_allocates CleanupEach = True"
| "core_allocates _ = False"

fun platform_allocates :: "platform_op \<Rightarrow> bool" where
  "platform_allocates Read = True"
| "platform_allocates SocketRead = True"
| "platform_allocates SocketReceiveFrom = True"
| "platform_allocates SocketAddress = True"
| "platform_allocates TlsRead = True"
| "platform_allocates TlsOutput = True"
| "platform_allocates TlsProtocol = True"
| "platform_allocates TlsPeerCertificate = True"
| "platform_allocates DirectoryRead = True"
| "platform_allocates PathCanonical = True"
| "platform_allocates _ = False"

fun task_allocates :: "task_op \<Rightarrow> bool" where
  "task_allocates TaskRun = True"
| "task_allocates TaskBytesResult = True"
| "task_allocates TaskProcessCaptureResult = True"
| "task_allocates MutexLock = True"
| "task_allocates TaskWorkerResult = True"
| "task_allocates TaskWaitWorker = True"
| "task_allocates TaskFailure = True"
| "task_allocates TaskNextTerminalFailure = True"
| "task_allocates TaskCancelBegin = True"
| "task_allocates TaskDrain = True"
| "task_allocates FaultText = True"
| "task_allocates _ = False"

fun op_allocates :: "primitive \<Rightarrow> bool" where
  "op_allocates (Core op) = core_allocates op"
| "op_allocates (Platform op) = platform_allocates op"
| "op_allocates (Scheduling op) = task_allocates op"

section \<open>Functions that allocate\<close>

text \<open>What \<open>allocating_functions\<close> collects from the expressions of one function.\<close>

record gathered =
  ga_allocating :: "nat set"
  ga_calls :: "nat \<Rightarrow> nat list"
  ga_keys :: "nat set"                \<comment> \<open>the keys of the map \<open>calls\<close>\<close>
  ga_references :: "ty \<Rightarrow> nat set"
  ga_indirect :: "(nat \<times> ty) list"

definition gather :: "bool \<Rightarrow> nat \<Rightarrow> expr \<Rightarrow> gathered \<Rightarrow> gathered" where
  "gather library i e g = (case e_kind e of
       EDynBox _ _ \<Rightarrow> g\<lparr>ga_allocating := insert i (ga_allocating g)\<rparr>
     | EDynCall _ _ _ \<Rightarrow> g\<lparr>ga_allocating := insert i (ga_allocating g)\<rparr>
     | EList _ \<Rightarrow> g\<lparr>ga_allocating := insert i (ga_allocating g)\<rparr>
     | EBytes _ \<Rightarrow> g\<lparr>ga_allocating := insert i (ga_allocating g)\<rparr>
     | EFrameNew _ \<Rightarrow> g\<lparr>ga_allocating := insert i (ga_allocating g)\<rparr>
     | EFunctionRef target \<Rightarrow>
         g\<lparr>ga_references := (ga_references g)(e_ty e := insert target (ga_references g (e_ty e)))\<rparr>
     | EClosure target _ \<Rightarrow>
         g\<lparr>ga_references := (ga_references g)(e_ty e := insert target (ga_references g (e_ty e)))\<rparr>
     | EIndirectCall callee _ \<Rightarrow>
         if library then g\<lparr>ga_allocating := insert i (ga_allocating g)\<rparr>
         else g\<lparr>ga_indirect := ga_indirect g @ [(i, e_ty callee)]\<rparr>
     | EPrimitive op _ \<Rightarrow> if op_allocates op then g\<lparr>ga_allocating := insert i (ga_allocating g)\<rparr> else g
     | ECall target _ \<Rightarrow>
         g\<lparr>ga_calls := (ga_calls g)(i := ga_calls g i @ [target]), ga_keys := insert i (ga_keys g)\<rparr>
     | _ \<Rightarrow> g)"

definition gather_function :: "program \<Rightarrow> bool \<Rightarrow> nat \<Rightarrow> gathered \<Rightarrow> gathered" where
  "gather_function p library i g = fold (gather library i) (function_expressions (p_functions p ! i)) g"

text \<open>An indirect call may reach every referenced function of its type.\<close>

definition resolve_indirect :: "nat \<times> ty \<Rightarrow> gathered \<Rightarrow> gathered" where
  "resolve_indirect = (\<lambda>(caller, t) g.
     if ga_references g t = {} then g
     else g\<lparr>ga_calls := (ga_calls g)(caller := ga_calls g caller @ sorted_list_of_set (ga_references g t)),
       ga_keys := insert caller (ga_keys g)\<rparr>)"

definition gathered_calls :: "program \<Rightarrow> nat set \<Rightarrow> bool \<Rightarrow> gathered" where
  "gathered_calls p reachable library =
     (let g = fold (gather_function p library) (sorted_list_of_set reachable)
        \<lparr>ga_allocating = {}, ga_calls = (\<lambda>_. []), ga_keys = {}, ga_references = (\<lambda>_. {}), ga_indirect = []\<rparr> in
      fold resolve_indirect (ga_indirect g) g)"

text \<open>One round over the map \<open>calls\<close>, in the order of a hash map, and the rounds until nothing is added.\<close>

definition spread :: "(nat \<Rightarrow> nat list) \<Rightarrow> nat list \<Rightarrow> nat set \<Rightarrow> nat set" where
  "spread calls order A = fold (\<lambda>i A. if \<exists>target \<in> set (calls i). target \<in> A then insert i A else A) order A"

lemma spread_bounds: "A \<subseteq> spread calls order A" "spread calls order A \<subseteq> A \<union> set order"
proof -
  have "A \<subseteq> spread calls order A \<and> spread calls order A \<subseteq> A \<union> set order"
    unfolding spread_def by (induction order arbitrary: A) (auto split: if_splits, blast+)
  then show "A \<subseteq> spread calls order A" "spread calls order A \<subseteq> A \<union> set order" by blast+
qed

function spread_all :: "(nat \<Rightarrow> nat list) \<Rightarrow> nat list \<Rightarrow> nat set \<Rightarrow> nat set" where
  "spread_all calls order A =
     (let B = spread calls order A in if card B = card A then B else spread_all calls order B)"
  by pat_completeness auto

termination
proof (relation "measure (\<lambda>(calls, order, A). card (set order - A))", goal_cases)
  case (2 calls order A B)
  have "B \<noteq> A" "A \<subseteq> B" "B \<subseteq> A \<union> set order" using 2 spread_bounds [where A = A] by auto
  then have "set order - B \<subset> set order - A" by blast
  then have "card (set order - B) < card (set order - A)" by (intro psubset_card_mono) auto
  then show ?case by simp
qed simp

declare spread_all.simps [simp del]

definition allocating_functions :: "nat list \<Rightarrow> program \<Rightarrow> nat set \<Rightarrow> bool \<Rightarrow> nat set" where
  "allocating_functions order p reachable library =
     (let g = gathered_calls p reachable library in spread_all (ga_calls g) order (ga_allocating g))"


section \<open>The least set\<close>

text \<open>What an expression contributes by itself.\<close>

definition direct_node :: "bool \<Rightarrow> expr \<Rightarrow> bool" where
  "direct_node library e = (case e_kind e of
       EDynBox _ _ \<Rightarrow> True | EDynCall _ _ _ \<Rightarrow> True | EList _ \<Rightarrow> True | EBytes _ \<Rightarrow> True | EFrameNew _ \<Rightarrow> True
     | EIndirectCall _ _ \<Rightarrow> library
     | EPrimitive op _ \<Rightarrow> op_allocates op
     | _ \<Rightarrow> False)"

definition called_node :: "expr \<Rightarrow> nat \<Rightarrow> bool" where
  "called_node e target = (case e_kind e of ECall f _ \<Rightarrow> f = target | _ \<Rightarrow> False)"

definition referred_node :: "expr \<Rightarrow> ty \<Rightarrow> nat \<Rightarrow> bool" where
  "referred_node e t target = (e_ty e = t \<and> (case e_kind e of
       EFunctionRef f \<Rightarrow> f = target | EClosure f _ \<Rightarrow> f = target | _ \<Rightarrow> False))"

definition indirect_node :: "expr \<Rightarrow> ty \<Rightarrow> bool" where
  "indirect_node e t = (case e_kind e of EIndirectCall callee _ \<Rightarrow> e_ty callee = t | _ \<Rightarrow> False)"

lemma gather_parts:
  "ga_allocating (gather library i e g) = ga_allocating g \<union> {i | x :: unit. direct_node library e}"
  "target \<in> set (ga_calls (gather library i e g) j) \<longleftrightarrow> target \<in> set (ga_calls g j) \<or> j = i \<and> called_node e target"
  "target \<in> ga_references (gather library i e g) t \<longleftrightarrow> target \<in> ga_references g t \<or> referred_node e t target"
  "(j, t) \<in> set (ga_indirect (gather library i e g)) \<longleftrightarrow> (j, t) \<in> set (ga_indirect g)
     \<or> j = i \<and> \<not> library \<and> indirect_node e t"
  "ga_keys (gather library i e g) = ga_keys g \<union> {i | target :: nat. called_node e target}"
  by (cases "e_kind e"; auto simp: gather_def direct_node_def called_node_def referred_node_def indirect_node_def)+

lemma fold_gather_parts:
  "ga_allocating (fold (gather library i) es g) = ga_allocating g \<union> {i | e. e \<in> set es \<and> direct_node library e}"
  "target \<in> set (ga_calls (fold (gather library i) es g) j)
     \<longleftrightarrow> target \<in> set (ga_calls g j) \<or> j = i \<and> (\<exists>e \<in> set es. called_node e target)"
  "target \<in> ga_references (fold (gather library i) es g) t
     \<longleftrightarrow> target \<in> ga_references g t \<or> (\<exists>e \<in> set es. referred_node e t target)"
  "(j, t) \<in> set (ga_indirect (fold (gather library i) es g)) \<longleftrightarrow> (j, t) \<in> set (ga_indirect g)
     \<or> j = i \<and> \<not> library \<and> (\<exists>e \<in> set es. indirect_node e t)"
  "ga_keys (fold (gather library i) es g) = ga_keys g \<union> {i | e target. e \<in> set es \<and> called_node e target}"
  by (induction es arbitrary: g) (auto simp: gather_parts)

definition exprs_of :: "program \<Rightarrow> nat \<Rightarrow> expr set" where
  "exprs_of p i = set (function_expressions (p_functions p ! i))"

lemma fold_functions_parts:
  "ga_allocating (fold (gather_function p library) ids g) = ga_allocating g \<union> {i. i \<in> set ids \<and> (\<exists>e \<in> exprs_of p i. direct_node library e)}"
  "target \<in> set (ga_calls (fold (gather_function p library) ids g) j)
     \<longleftrightarrow> target \<in> set (ga_calls g j) \<or> j \<in> set ids \<and> (\<exists>e \<in> exprs_of p j. called_node e target)"
  "target \<in> ga_references (fold (gather_function p library) ids g) t
     \<longleftrightarrow> target \<in> ga_references g t \<or> (\<exists>i \<in> set ids. \<exists>e \<in> exprs_of p i. referred_node e t target)"
  "(j, t) \<in> set (ga_indirect (fold (gather_function p library) ids g)) \<longleftrightarrow> (j, t) \<in> set (ga_indirect g)
     \<or> j \<in> set ids \<and> \<not> library \<and> (\<exists>e \<in> exprs_of p j. indirect_node e t)"
  "ga_keys (fold (gather_function p library) ids g) = ga_keys g \<union> {i. i \<in> set ids \<and> (\<exists>e \<in> exprs_of p i. \<exists>target. called_node e target)}"
  by (induction ids arbitrary: g) (auto simp: gather_function_def fold_gather_parts exprs_of_def)

lemma resolve_parts:
  assumes "\<And>t. finite (ga_references g t)"
  shows "ga_allocating (resolve_indirect (c, t) g) = ga_allocating g"
    "ga_references (resolve_indirect (c, t) g) = ga_references g"
    "target \<in> set (ga_calls (resolve_indirect (c, t) g) j)
       \<longleftrightarrow> target \<in> set (ga_calls g j) \<or> (j = c \<and> target \<in> ga_references g t)"
    "ga_keys (resolve_indirect (c, t) g) = ga_keys g \<union> {j. j = c \<and> (\<exists>target. target \<in> ga_references g t)}"
  using assms by (auto simp: resolve_indirect_def)

lemma fold_resolve_parts:
  assumes "\<And>t. finite (ga_references g t)"
  shows "ga_allocating (fold resolve_indirect es g) = ga_allocating g"
    "ga_references (fold resolve_indirect es g) = ga_references g"
    "target \<in> set (ga_calls (fold resolve_indirect es g) j)
       \<longleftrightarrow> target \<in> set (ga_calls g j) \<or> (\<exists>t. (j, t) \<in> set es \<and> target \<in> ga_references g t)"
    "ga_keys (fold resolve_indirect es g) = ga_keys g \<union> {j. \<exists>t target. (j, t) \<in> set es \<and> target \<in> ga_references g t}"
proof -
  have "ga_allocating (fold resolve_indirect es g) = ga_allocating g
      \<and> ga_references (fold resolve_indirect es g) = ga_references g
      \<and> (target \<in> set (ga_calls (fold resolve_indirect es g) j)
         \<longleftrightarrow> target \<in> set (ga_calls g j) \<or> (\<exists>t. (j, t) \<in> set es \<and> target \<in> ga_references g t))
      \<and> ga_keys (fold resolve_indirect es g) = ga_keys g \<union> {j. \<exists>t target. (j, t) \<in> set es \<and> target \<in> ga_references g t}"
    using assms
  proof (induction es arbitrary: g)
    case (Cons e es)
    obtain c t where e: "e = (c, t)" by force
    note one = resolve_parts [OF Cons.prems, where c = c and t = t]
    note rest = Cons.IH [of "resolve_indirect (c, t) g", unfolded one, OF Cons.prems]
    have fold: "fold resolve_indirect (e # es) g = fold resolve_indirect es (resolve_indirect (c, t) g)" by (simp add: e)
    have calls: "(target \<in> set (ga_calls g j) \<or> j = c \<and> target \<in> ga_references g t) \<or> (\<exists>t. (j, t) \<in> set es \<and> target \<in> ga_references g t)
      \<longleftrightarrow> target \<in> set (ga_calls g j) \<or> (\<exists>t. (j, t) \<in> set (e # es) \<and> target \<in> ga_references g t)" by (auto simp: e)
    have keys: "ga_keys g \<union> {j. j = c \<and> (\<exists>target. target \<in> ga_references g t)} \<union> {j. \<exists>t target. (j, t) \<in> set es \<and> target \<in> ga_references g t}
      = ga_keys g \<union> {j. \<exists>t target. (j, t) \<in> set (e # es) \<and> target \<in> ga_references g t}" by (auto simp: e)
    show ?case using rest unfolding fold calls keys by blast
  qed simp
  then show "ga_allocating (fold resolve_indirect es g) = ga_allocating g"
    "ga_references (fold resolve_indirect es g) = ga_references g"
    "target \<in> set (ga_calls (fold resolve_indirect es g) j)
       \<longleftrightarrow> target \<in> set (ga_calls g j) \<or> (\<exists>t. (j, t) \<in> set es \<and> target \<in> ga_references g t)"
    "ga_keys (fold resolve_indirect es g) = ga_keys g \<union> {j. \<exists>t target. (j, t) \<in> set es \<and> target \<in> ga_references g t}"
    by blast+
qed

text \<open>Which function can call which.\<close>

definition may_call :: "program \<Rightarrow> nat set \<Rightarrow> bool \<Rightarrow> nat \<Rightarrow> nat \<Rightarrow> bool" where
  "may_call p R library i target \<longleftrightarrow> i \<in> R \<and> ((\<exists>e \<in> exprs_of p i. called_node e target)
     \<or> \<not> library \<and> (\<exists>e \<in> exprs_of p i. \<exists>t. indirect_node e t \<and> (\<exists>j \<in> R. \<exists>d \<in> exprs_of p j. referred_node d t target)))"

inductive may_collect :: "program \<Rightarrow> nat set \<Rightarrow> bool \<Rightarrow> nat \<Rightarrow> bool" for p R library where
  direct: "i \<in> R \<Longrightarrow> e \<in> exprs_of p i \<Longrightarrow> direct_node library e \<Longrightarrow> may_collect p R library i"
| calling: "may_call p R library i target \<Longrightarrow> may_collect p R library target \<Longrightarrow> may_collect p R library i"

lemma finite_referred: "finite {target. \<exists>i \<in> set ids. \<exists>e \<in> exprs_of p i. referred_node e t target}"
proof -
  have one: "finite {target. referred_node e t target}" for e
    by (cases "e_kind e") (simp_all add: referred_node_def)
  have "{target. \<exists>i \<in> set ids. \<exists>e \<in> exprs_of p i. referred_node e t target}
      = (\<Union>i \<in> set ids. \<Union>e \<in> exprs_of p i. {target. referred_node e t target})" by auto
  then show ?thesis using one by (simp add: exprs_of_def)
qed

lemma gathered_calls_iff:
  assumes "finite R"
  shows "ga_allocating (gathered_calls p R library) = {i \<in> R. \<exists>e \<in> exprs_of p i. direct_node library e}"
    "target \<in> set (ga_calls (gathered_calls p R library) i) \<longleftrightarrow> may_call p R library i target"
    "ga_keys (gathered_calls p R library) = {i. \<exists>target. may_call p R library i target}"
proof -
  let ?start = "\<lparr>ga_allocating = {}, ga_calls = (\<lambda>_. []), ga_keys = {}, ga_references = (\<lambda>_. {}), ga_indirect = []\<rparr>"
  let ?g = "fold (gather_function p library) (sorted_list_of_set R) ?start"
  note parts = fold_functions_parts [where library = library and p = p and ids = "sorted_list_of_set R" and g = ?start]
  have refs: "ga_references ?g t = {target. \<exists>i \<in> R. \<exists>e \<in> exprs_of p i. referred_node e t target}" for t
    using assms by (simp add: set_eq_iff parts)
  then have "finite (ga_references ?g t)" for t
    using finite_referred [of "sorted_list_of_set R" p t] assms by simp
  note resolved = fold_resolve_parts [OF this, where es = "ga_indirect ?g"]
  show "ga_allocating (gathered_calls p R library) = {i \<in> R. \<exists>e \<in> exprs_of p i. direct_node library e}"
    using assms by (simp add: gathered_calls_def Let_def resolved parts)
  show calls: "target \<in> set (ga_calls (gathered_calls p R library) i) \<longleftrightarrow> may_call p R library i target" for target i
    using assms by (auto simp: gathered_calls_def Let_def resolved parts refs may_call_def)
  show "ga_keys (gathered_calls p R library) = {i. \<exists>target. may_call p R library i target}"
    using assms by (simp add: gathered_calls_def Let_def resolved parts refs may_call_def) blast
qed

text \<open>The rounds reach the least set that the calls close, in whatever order they go.\<close>

lemma spread_fixed:
  assumes "spread calls order A = A" "i \<in> set order" "target \<in> set (calls i)" "target \<in> A"
  shows "i \<in> A"
proof -
  have "i \<in> spread calls order A"
    using assms(2-)
  proof (induction order arbitrary: A)
    case (Cons j order)
    let ?B = "if \<exists>target \<in> set (calls j). target \<in> A then insert j A else A"
    have step: "spread calls (j # order) A = spread calls order ?B" by (simp add: spread_def)
    show ?case
    proof (cases "i = j")
      case True
      then have "i \<in> ?B" using Cons.prems by auto
      then show ?thesis using step spread_bounds(1) by blast
    next
      case False
      then show ?thesis using Cons.IH [of ?B] Cons.prems step by auto
    qed
  qed simp
  then show ?thesis using assms(1) by simp
qed

lemma spread_sound:
  assumes "\<And>i target. target \<in> set (calls i) \<Longrightarrow> target \<in> C \<Longrightarrow> i \<in> C" "A \<subseteq> C"
  shows "spread calls order A \<subseteq> C"
  using assms(2)
proof (induction order arbitrary: A)
  case (Cons i order)
  let ?B = "if \<exists>target \<in> set (calls i). target \<in> A then insert i A else A"
  have "?B \<subseteq> C" using Cons.prems assms(1) by auto
  from Cons.IH [OF this] show ?case by (simp add: spread_def)
qed (simp add: spread_def)

lemma spread_all_ok:
  assumes "finite A"
  shows "A \<subseteq> spread_all calls order A"
    "i \<in> set order \<Longrightarrow> target \<in> set (calls i) \<Longrightarrow> target \<in> spread_all calls order A \<Longrightarrow> i \<in> spread_all calls order A"
    "(\<And>i target. target \<in> set (calls i) \<Longrightarrow> target \<in> C \<Longrightarrow> i \<in> C) \<Longrightarrow> A \<subseteq> C \<Longrightarrow> spread_all calls order A \<subseteq> C"
proof -
  have "A \<subseteq> spread_all calls order A \<and> spread calls order (spread_all calls order A) = spread_all calls order A
    \<and> ((\<forall>i target. target \<in> set (calls i) \<longrightarrow> target \<in> C \<longrightarrow> i \<in> C) \<longrightarrow> A \<subseteq> C \<longrightarrow> spread_all calls order A \<subseteq> C)"
    using assms
  proof (induction calls order A rule: spread_all.induct)
    case (1 calls order A)
    let ?B = "spread calls order A"
    have fin: "finite ?B" using 1(2) spread_bounds(2) [of calls order A] finite_subset by blast
    show ?case
    proof (cases "card ?B = card A")
      case True
      then have "?B = A" using card_subset_eq [OF fin spread_bounds(1)] by metis
      then show ?thesis using True by (simp add: spread_all.simps [of calls order A])
    next
      case False
      then have "spread_all calls order A = spread_all calls order ?B" by (simp add: spread_all.simps [of calls order A] Let_def)
      then show ?thesis
        using 1(1) [OF refl False fin] spread_bounds(1) [of A calls order] spread_sound [of calls C A order] by auto
    qed
  qed
  then show "A \<subseteq> spread_all calls order A"
    "i \<in> set order \<Longrightarrow> target \<in> set (calls i) \<Longrightarrow> target \<in> spread_all calls order A \<Longrightarrow> i \<in> spread_all calls order A"
    "(\<And>i target. target \<in> set (calls i) \<Longrightarrow> target \<in> C \<Longrightarrow> i \<in> C) \<Longrightarrow> A \<subseteq> C \<Longrightarrow> spread_all calls order A \<subseteq> C"
    using spread_fixed by blast+
qed

lemma allocating_functions_iff:
  assumes "finite R" and "set order = ga_keys (gathered_calls p R library)"
  shows "i \<in> allocating_functions order p R library \<longleftrightarrow> may_collect p R library i"
proof -
  let ?g = "gathered_calls p R library"
  note g = gathered_calls_iff [OF assms(1), where p = p and library = library]
  have fin: "finite (ga_allocating ?g)" using assms(1) by (simp add: g)
  note all = spread_all_ok [OF fin, where calls = "ga_calls ?g" and order = order]
  have def: "allocating_functions order p R library = spread_all (ga_calls ?g) order (ga_allocating ?g)"
    by (simp add: allocating_functions_def Let_def)
  show ?thesis
    unfolding def
  proof
    have "spread_all (ga_calls ?g) order (ga_allocating ?g) \<subseteq> {i. may_collect p R library i}"
      by (rule spread_all_ok(3) [OF fin]) (auto simp: g intro: may_collect.intros)
    then show "i \<in> spread_all (ga_calls ?g) order (ga_allocating ?g) \<Longrightarrow> may_collect p R library i" by blast
    show "may_collect p R library i \<Longrightarrow> i \<in> spread_all (ga_calls ?g) order (ga_allocating ?g)"
    proof (induction rule: may_collect.induct)
      case (direct i e)
      then show ?case using all(1) by (auto simp: g)
    next
      case (calling i target)
      then show ?case using all(2) [of i target] assms(2) by (auto simp: g)
    qed
  qed
qed


section \<open>Expressions that allocate\<close>

text \<open>
  \<open>may_allocate\<close> and \<open>block_allocates\<close> keep their answers in the map \<open>allocation\<close>, keyed by the
  address of the expression.  Deferred code runs elsewhere and does not count.
\<close>

type_synonym answers = "position \<rightharpoonup> bool"

definition answered :: "bool \<Rightarrow> answers \<Rightarrow> bool \<times> answers" where
  "answered b m = (b, m)"

definition or_may :: "(answers \<Rightarrow> bool \<times> answers) \<Rightarrow> (answers \<Rightarrow> bool \<times> answers) \<Rightarrow> answers \<Rightarrow> bool \<times> answers" where
  "or_may f g m = (case f m of (b, m) \<Rightarrow> if b then (True, m) else g m)"

fun may_expr :: "bool \<Rightarrow> nat set \<Rightarrow> expr \<Rightarrow> position \<Rightarrow> answers \<Rightarrow> bool \<times> answers"
and may_kind :: "bool \<Rightarrow> nat set \<Rightarrow> expr_kind \<Rightarrow> position \<Rightarrow> answers \<Rightarrow> bool \<times> answers"
and may_exprs :: "bool \<Rightarrow> nat set \<Rightarrow> expr list \<Rightarrow> nat \<Rightarrow> position \<Rightarrow> answers \<Rightarrow> bool \<times> answers"
and may_fields :: "bool \<Rightarrow> nat set \<Rightarrow> (nat \<times> expr) list \<Rightarrow> nat \<Rightarrow> position \<Rightarrow> answers \<Rightarrow> bool \<times> answers"
and may_arms :: "bool \<Rightarrow> nat set \<Rightarrow> match_arm list \<Rightarrow> nat \<Rightarrow> position \<Rightarrow> answers \<Rightarrow> bool \<times> answers"
and may_block :: "bool \<Rightarrow> nat set \<Rightarrow> block \<Rightarrow> position \<Rightarrow> answers \<Rightarrow> bool \<times> answers"
and may_stmts :: "bool \<Rightarrow> nat set \<Rightarrow> stmt list \<Rightarrow> nat \<Rightarrow> position \<Rightarrow> answers \<Rightarrow> bool \<times> answers"
and may_stmt :: "bool \<Rightarrow> nat set \<Rightarrow> stmt_kind \<Rightarrow> position \<Rightarrow> answers \<Rightarrow> bool \<times> answers" where
  "may_expr sh A (Expr kind _ _) = (\<lambda>pos m.
     if sh then (True, m)
     else case m pos of
       Some b \<Rightarrow> (b, m)
     | None \<Rightarrow> (case may_kind sh A kind pos m of (b, m) \<Rightarrow> (b, m(pos \<mapsto> b))))"
| "may_kind sh A (EDynBox _ _) = (\<lambda>pos. answered True)"
| "may_kind sh A (EDynCall _ _ _) = (\<lambda>pos. answered True)"
| "may_kind sh A (EList _) = (\<lambda>pos. answered True)"
| "may_kind sh A (EBytes _) = (\<lambda>pos. answered True)"
| "may_kind sh A (EIndirectCall _ _) = (\<lambda>pos. answered True)"
| "may_kind sh A (EUnary _ e) = (\<lambda>pos. may_expr sh A e (0 # pos))"
| "may_kind sh A (EField e _) = (\<lambda>pos. may_expr sh A e (0 # pos))"
| "may_kind sh A (EClosure _ e) = (\<lambda>pos. may_expr sh A e (0 # pos))"
| "may_kind sh A (ECoerce e) = (\<lambda>pos. may_expr sh A e (0 # pos))"
| "may_kind sh A (EBinary _ a b) = (\<lambda>pos. or_may (may_expr sh A a (0 # pos)) (may_expr sh A b (1 # pos)))"
| "may_kind sh A (ECall target args) = (\<lambda>pos. or_may (answered (target \<in> A)) (may_exprs sh A args 0 pos))"
| "may_kind sh A (EPrimitive op args) = (\<lambda>pos. or_may (answered (op_allocates op)) (may_exprs sh A args 0 pos))"
| "may_kind sh A (EVariant _ args) = (\<lambda>pos. may_exprs sh A args 0 pos)"
| "may_kind sh A (EFrameNew _) = (\<lambda>pos. answered True)"
| "may_kind sh A (EFrameStore frame _ e) = (\<lambda>pos. or_may (may_expr sh A frame (0 # pos)) (may_expr sh A e (1 # pos)))"
| "may_kind sh A (ERecord fs) = (\<lambda>pos. may_fields sh A fs 0 pos)"
| "may_kind sh A (EBlock b) = (\<lambda>pos. may_block sh A b (0 # pos))"
| "may_kind sh A (EMatch e arms) = (\<lambda>pos. or_may (may_expr sh A e (0 # pos)) (may_arms sh A arms 1 pos))"
| "may_kind sh A (EIf e yes None) = (\<lambda>pos. or_may (may_expr sh A e (0 # pos)) (may_block sh A yes (1 # pos)))"
| "may_kind sh A (EIf e yes (Some no)) =
     (\<lambda>pos. or_may (may_expr sh A e (0 # pos)) (or_may (may_block sh A yes (1 # pos)) (may_block sh A no (2 # pos))))"
| "may_kind sh A _ = (\<lambda>pos. answered False)"
| "may_exprs sh A [] = (\<lambda>k pos. answered False)"
| "may_exprs sh A (e # es) = (\<lambda>k pos. or_may (may_expr sh A e (k # pos)) (may_exprs sh A es (Suc k) pos))"
| "may_fields sh A [] = (\<lambda>k pos. answered False)"
| "may_fields sh A ((_, e) # fs) = (\<lambda>k pos. or_may (may_expr sh A e (k # pos)) (may_fields sh A fs (Suc k) pos))"
| "may_arms sh A [] = (\<lambda>k pos. answered False)"
| "may_arms sh A (MatchArm _ _ _ b # arms) = (\<lambda>k pos. or_may (may_block sh A b (k # pos)) (may_arms sh A arms (Suc k) pos))"
| "may_block sh A (Block ss None _) = (\<lambda>pos. may_stmts sh A ss 0 pos)"
| "may_block sh A (Block ss (Some e) _) = (\<lambda>pos. or_may (may_stmts sh A ss 0 pos) (may_expr sh A e (length ss # pos)))"
| "may_stmts sh A [] = (\<lambda>k pos. answered False)"
| "may_stmts sh A (Stmt kind _ # ss) = (\<lambda>k pos. or_may (may_stmt sh A kind (k # pos)) (may_stmts sh A ss (Suc k) pos))"
| "may_stmt sh A (SLet _ e) = (\<lambda>pos. may_expr sh A e (0 # pos))"
| "may_stmt sh A (SAssign _ e) = (\<lambda>pos. may_expr sh A e (0 # pos))"
| "may_stmt sh A (SAssert e _) = (\<lambda>pos. may_expr sh A e (0 # pos))"
| "may_stmt sh A (SDiscard e) = (\<lambda>pos. may_expr sh A e (0 # pos))"
| "may_stmt sh A (SExpr e) = (\<lambda>pos. may_expr sh A e (0 # pos))"
| "may_stmt sh A (SReturn (Some e)) = (\<lambda>pos. may_expr sh A e (0 # pos))"
| "may_stmt sh A (SWhile e b) = (\<lambda>pos. or_may (may_expr sh A e (0 # pos)) (may_block sh A b (1 # pos)))"
| "may_stmt sh A (SCleanup _ b) = (\<lambda>pos. may_block sh A b (0 # pos))"
| "may_stmt sh A _ = (\<lambda>pos. answered False)"


text \<open>
  The question they answer: whether an expression that is evaluated now, deferred code aside,
  allocates.
\<close>

fun eager_expr :: "expr \<Rightarrow> expr list"
and eager_kind :: "expr_kind \<Rightarrow> expr list"
and eager_exprs :: "expr list \<Rightarrow> expr list"
and eager_fields :: "(nat \<times> expr) list \<Rightarrow> expr list"
and eager_arms :: "match_arm list \<Rightarrow> expr list"
and eager_block :: "block \<Rightarrow> expr list"
and eager_stmts :: "stmt list \<Rightarrow> expr list"
and eager_stmt :: "stmt_kind \<Rightarrow> expr list" where
  "eager_expr (Expr kind t span) = Expr kind t span # eager_kind kind"
| "eager_kind (EUnary _ e) = eager_expr e"
| "eager_kind (EField e _) = eager_expr e"
| "eager_kind (EClosure _ e) = eager_expr e"
| "eager_kind (ECoerce e) = eager_expr e"
| "eager_kind (EDynBox _ e) = eager_expr e"
| "eager_kind (EDynCall receiver _ args) = eager_expr receiver @ eager_exprs args"
| "eager_kind (EIndirectCall callee args) = eager_expr callee @ eager_exprs args"
| "eager_kind (EBinary _ a b) = eager_expr a @ eager_expr b"
| "eager_kind (ECall _ args) = eager_exprs args"
| "eager_kind (EPrimitive _ args) = eager_exprs args"
| "eager_kind (EList args) = eager_exprs args"
| "eager_kind (EVariant _ args) = eager_exprs args"
| "eager_kind (ERecord fs) = eager_fields fs"
| "eager_kind (EFrameNew fs) = eager_fields fs"
| "eager_kind (EFrameStore frame _ e) = eager_expr frame @ eager_expr e"
| "eager_kind (EBlock b) = eager_block b"
| "eager_kind (EMatch e arms) = eager_expr e @ eager_arms arms"
| "eager_kind (EIf e yes None) = eager_expr e @ eager_block yes"
| "eager_kind (EIf e yes (Some no)) = eager_expr e @ eager_block yes @ eager_block no"
| "eager_kind _ = []"
| "eager_exprs [] = []"
| "eager_exprs (e # es) = eager_expr e @ eager_exprs es"
| "eager_fields [] = []"
| "eager_fields ((_, e) # fs) = eager_expr e @ eager_fields fs"
| "eager_arms [] = []"
| "eager_arms (MatchArm _ _ _ b # arms) = eager_block b @ eager_arms arms"
| "eager_block (Block ss None _) = eager_stmts ss"
| "eager_block (Block ss (Some e) _) = eager_stmts ss @ eager_expr e"
| "eager_stmts [] = []"
| "eager_stmts (Stmt kind span # ss) = eager_stmt kind @ eager_stmts ss"
| "eager_stmt (SLet _ e) = eager_expr e"
| "eager_stmt (SAssign _ e) = eager_expr e"
| "eager_stmt (SAssert e _) = eager_expr e"
| "eager_stmt (SDiscard e) = eager_expr e"
| "eager_stmt (SExpr e) = eager_expr e"
| "eager_stmt (SReturn (Some e)) = eager_expr e"
| "eager_stmt (SWhile e b) = eager_expr e @ eager_block b"
| "eager_stmt (SCleanup _ b) = eager_block b"
| "eager_stmt _ = []"

definition allocates_here :: "nat set \<Rightarrow> expr \<Rightarrow> bool" where
  "allocates_here A e = (case e_kind e of
       EDynBox _ _ \<Rightarrow> True | EDynCall _ _ _ \<Rightarrow> True | EList _ \<Rightarrow> True | EBytes _ \<Rightarrow> True | EFrameNew _ \<Rightarrow> True
     | EIndirectCall _ _ \<Rightarrow> True
     | ECall target _ \<Rightarrow> target \<in> A
     | EPrimitive op _ \<Rightarrow> op_allocates op
     | _ \<Rightarrow> False)"

definition can_allocate :: "bool \<Rightarrow> nat set \<Rightarrow> expr list \<Rightarrow> bool" where
  "can_allocate sh A es \<longleftrightarrow> (\<exists>e \<in> set es. sh \<or> allocates_here A e)"

lemma can_allocate_simps [simp]:
  "can_allocate sh A [] \<longleftrightarrow> False"
  "can_allocate sh A (e # es) \<longleftrightarrow> sh \<or> allocates_here A e \<or> can_allocate sh A es"
  "can_allocate sh A (es @ ds) \<longleftrightarrow> can_allocate sh A es \<or> can_allocate sh A ds"
  by (auto simp: can_allocate_def)

text \<open>Answers kept for the nodes of a body are right, and stay right.\<close>

definition right_answers :: "bool \<Rightarrow> nat set \<Rightarrow> (position \<times> node) list \<Rightarrow> answers \<Rightarrow> bool" where
  "right_answers sh A ns m \<longleftrightarrow> (\<forall>pos e b. (pos, At_expr e) \<in> set ns \<longrightarrow> m pos = Some b \<longrightarrow> b = can_allocate sh A (eager_expr e))"

definition tells :: "bool \<Rightarrow> nat set \<Rightarrow> (position \<times> node) list \<Rightarrow> (answers \<Rightarrow> bool \<times> answers) \<Rightarrow> bool \<Rightarrow> bool" where
  "tells sh A ns f b \<longleftrightarrow> (\<forall>m. right_answers sh A ns m \<longrightarrow> fst (f m) = b \<and> right_answers sh A ns (snd (f m)))"

lemma tells_answered: "tells sh A ns (answered b) b"
  by (simp add: tells_def answered_def)

lemma tells_or_may: "tells sh A ns f a \<Longrightarrow> tells sh A ns g b \<Longrightarrow> tells sh A ns (or_may f g) (a \<or> b)"
  unfolding tells_def or_may_def by (auto split: prod.split)

lemma tells_expr:
  assumes "sh \<or> tells sh A ns (may_kind sh A kind pos) (can_allocate sh A (eager_expr (Expr kind t span)))"
    and "(pos, At_expr (Expr kind t span)) \<in> set ns" and "distinct (map fst ns)"
  shows "tells sh A ns (may_expr sh A (Expr kind t span) pos) (can_allocate sh A (eager_expr (Expr kind t span)))"
  unfolding tells_def
proof (intro allI impI)
  fix m assume m: "right_answers sh A ns m"
  let ?e = "Expr kind t span"
  show "fst (may_expr sh A ?e pos m) = can_allocate sh A (eager_expr ?e) \<and> right_answers sh A ns (snd (may_expr sh A ?e pos m))"
  proof (cases "sh \<or> m pos \<noteq> None")
    case True
    have "b = can_allocate sh A (eager_expr ?e)" if "m pos = Some b" for b
      using m [unfolded right_answers_def, rule_format, OF assms(2) that] .
    then show ?thesis using True m by auto
  next
    case False
    obtain b m' where run: "may_kind sh A kind pos m = (b, m')" by force
    have "b = can_allocate sh A (eager_expr ?e)" "right_answers sh A ns m'"
      using assms(1) False m run unfolding tells_def by auto
    moreover have "d = ?e" if "(pos, At_expr d) \<in> set ns" for d
      using that assms(2,3) eq_key_imp_eq_value by fastforce
    ultimately have "right_answers sh A ns (m'(pos \<mapsto> b))"
      unfolding right_answers_def by (metis fun_upd_apply option.inject)
    then show ?thesis using False run \<open>b = _\<close> by auto
  qed
qed

text \<open>The parts of a body keep the answers right, and give the right one.\<close>

lemma tells_now:
  assumes "distinct (map fst ns)"
  shows "set (nodes_expr e pos) \<subseteq> set ns \<Longrightarrow> tells sh A ns (may_expr sh A e pos) (can_allocate sh A (eager_expr e))"
  "set (nodes_kind kind pos) \<subseteq> set ns \<Longrightarrow>
    sh \<or> tells sh A ns (may_kind sh A kind pos) (can_allocate sh A (eager_expr (Expr kind t span)))"
  "set (nodes_exprs es k pos) \<subseteq> set ns \<Longrightarrow> tells sh A ns (may_exprs sh A es k pos) (can_allocate sh A (eager_exprs es))"
  "set (nodes_fields fs k pos) \<subseteq> set ns \<Longrightarrow> tells sh A ns (may_fields sh A fs k pos) (can_allocate sh A (eager_fields fs))"
  "set (nodes_arms arms k pos) \<subseteq> set ns \<Longrightarrow> tells sh A ns (may_arms sh A arms k pos) (can_allocate sh A (eager_arms arms))"
  "set (nodes_block b pos) \<subseteq> set ns \<Longrightarrow> tells sh A ns (may_block sh A b pos) (can_allocate sh A (eager_block b))"
  "set (nodes_stmts ss k pos) \<subseteq> set ns \<Longrightarrow> tells sh A ns (may_stmts sh A ss k pos) (can_allocate sh A (eager_stmts ss))"
  "set (nodes_stmt sk pos) \<subseteq> set ns \<Longrightarrow> tells sh A ns (may_stmt sh A sk pos) (can_allocate sh A (eager_stmt sk))"
proof (induction e and kind and es and fs and arms and b and ss and sk
    arbitrary: pos and pos t span and k pos and k pos and k pos and pos and k pos and pos
    rule: nodes_expr_nodes_kind_nodes_exprs_nodes_fields_nodes_arms_nodes_block_nodes_stmts_nodes_stmt.induct,
    goal_cases)
  case (1 kind t span pos)
  show ?case by (rule tells_expr) (use 1 assms in auto)
qed (cases sh; auto simp: tells_answered tells_or_may allocates_here_def)+

end
