(* ===== verification/Slots.thy ===== *)
theory Slots
  imports Collect "HOL-Library.AList"
begin

text \<open>
  Slots for pending values (\<open>compiler/src/codegen/llvm_gc.rs\<close>: \<open>TemporarySlots\<close>).  A value that waits
  for a later operand or operation that can collect gets a slot on the stack that the collector
  scans.  Slots are pooled by type and used like a stack.  Slot numbers are indices of the list of
  types.  \<open>None\<close> is a panic of an index or a slice.
\<close>

section \<open>The state\<close>

type_synonym usage = "(ty \<times> nat) list"   \<comment> \<open>the map \<open>used\<close>; its order does not matter\<close>

record temporaries =
  tm_types :: "ty list"
  tm_pools :: "ty \<rightharpoonup> nat list"
  tm_used :: usage
  tm_slots :: "position \<rightharpoonup> nat"            \<comment> \<open>\<open>expressions\<close>\<close>
  tm_retired :: "position \<rightharpoonup> nat list"
  tm_exits :: "position \<rightharpoonup> nat list"
  tm_loop_bases :: "usage list"           \<comment> \<open>the innermost first\<close>
  tm_answers :: answers

text \<open>The parameters that every function of the code passes on.\<close>

record query =
  q_program :: program
  q_shared :: bool
  q_allocating :: "nat set"

fun needs_snapshot :: "program \<Rightarrow> expr \<Rightarrow> bool"
and any_snapshot :: "program \<Rightarrow> expr list \<Rightarrow> bool"
and any_field_snapshot :: "program \<Rightarrow> (nat \<times> expr) list \<Rightarrow> bool" where
  "needs_snapshot p (Expr (EText _) _ _) = False"
| "needs_snapshot p (Expr (ERecord fs) _ _) = any_field_snapshot p fs"
| "needs_snapshot p (Expr (EVariant _ es) _ _) = any_snapshot p es"
| "needs_snapshot p (Expr (ECoerce e) _ _) = needs_snapshot p e"
| "needs_snapshot p (Expr _ t _) = managed p t"
| "any_snapshot p [] = False"
| "any_snapshot p (e # es) = (needs_snapshot p e \<or> any_snapshot p es)"
| "any_field_snapshot p [] = False"
| "any_field_snapshot p ((_, e) # fs) = (needs_snapshot p e \<or> any_field_snapshot p fs)"

definition count_used :: "usage \<Rightarrow> ty \<Rightarrow> nat" where
  "count_used u t = (case map_of u t of None \<Rightarrow> 0 | Some n \<Rightarrow> n)"

definition pool_of :: "temporaries \<Rightarrow> ty \<Rightarrow> nat list" where
  "pool_of s t = (case tm_pools s t of None \<Rightarrow> [] | Some ks \<Rightarrow> ks)"

section \<open>The operations\<close>

text \<open>The slot of an expression: the next one of its type's pool, or a new one.\<close>

definition reserve :: "position \<Rightarrow> ty \<Rightarrow> temporaries \<Rightarrow> temporaries option" where
  "reserve pos t s =
     (let used = count_used (tm_used s) t;
          pool = pool_of s t;
          grow = (used = length pool);
          pool = (if grow then pool @ [length (tm_types s)] else pool);
          types = (if grow then tm_types s @ [t] else tm_types s) in
      map_option (\<lambda>slot. s\<lparr>tm_types := types, tm_pools := (tm_pools s)(t \<mapsto> pool),
        tm_slots := (tm_slots s)(pos \<mapsto> slot), tm_used := AList.update t (used + 1) (tm_used s)\<rparr>)
        (get_nth pool used))"

definition slice :: "'a list \<Rightarrow> nat \<Rightarrow> nat \<Rightarrow> 'a list option" where
  "slice xs i j = (if i \<le> j \<and> j \<le> length xs then Some (drop i (take j xs)) else None)"

fun retired_from :: "usage \<Rightarrow> (ty \<rightharpoonup> nat list) \<Rightarrow> usage \<Rightarrow> nat list option" where
  "retired_from base pools [] = Some []"
| "retired_from base pools ((t, used) # us) =
     Option.bind (pools t) (\<lambda>pool.
     Option.bind (slice pool (count_used base t) used) (\<lambda>slots.
     map_option (\<lambda>rest. slots @ rest) (retired_from base pools us)))"

definition retired_since :: "usage \<Rightarrow> temporaries \<Rightarrow> nat list option" where
  "retired_since base s = map_option sort (retired_from base (tm_pools s) (tm_used s))"

text \<open>Which of some operands wait for a later allocation; the answers are asked from the last one on.\<close>

fun sibling_flags :: "query \<Rightarrow> (position \<times> expr) list \<Rightarrow> bool \<Rightarrow> answers \<Rightarrow> bool list \<times> bool \<times> answers" where
  "sibling_flags q [] later m = ([], later, m)"
| "sibling_flags q ((pos, e) # vs) later m =
     (case sibling_flags q vs later m of (flags, later, m) \<Rightarrow>
      (case may_expr (q_shared q) (q_allocating q) e pos m of (b, m) \<Rightarrow> (later # flags, later \<or> b, m)))"

definition with_flags :: "query \<Rightarrow> (position \<times> expr) list \<Rightarrow> bool \<Rightarrow> (bool list \<Rightarrow> temporaries \<Rightarrow> temporaries option) \<Rightarrow>
    temporaries \<Rightarrow> temporaries option" where
  "with_flags q vs later f s = (case sibling_flags q vs later (tm_answers s) of (flags, _, m) \<Rightarrow> f flags (s\<lparr>tm_answers := m\<rparr>))"

fun kids_at :: "nat \<Rightarrow> position \<Rightarrow> expr list \<Rightarrow> (position \<times> expr) list" where
  "kids_at k pos [] = []"
| "kids_at k pos (e # es) = (k # pos, e) # kids_at (Suc k) pos es"

definition both :: "('s \<Rightarrow> 's option) \<Rightarrow> ('s \<Rightarrow> 's option) \<Rightarrow> 's \<Rightarrow> 's option" where
  "both f g s = Option.bind (f s) g"

text \<open>\<open>branches\<close>: every body starts from the same usage, and the largest usage stays.\<close>

fun raise_peak :: "usage \<Rightarrow> usage \<Rightarrow> usage" where
  "raise_peak peak [] = peak"
| "raise_peak peak ((t, used) # us) = raise_peak (AList.update t (max (count_used peak t) used) peak) us"

definition branch :: "usage \<Rightarrow> (temporaries \<Rightarrow> temporaries option) \<Rightarrow> (usage \<Rightarrow> temporaries \<Rightarrow> temporaries option) \<Rightarrow>
    usage \<Rightarrow> temporaries \<Rightarrow> temporaries option" where
  "branch base f rest peak s = Option.bind (f (s\<lparr>tm_used := base\<rparr>)) (\<lambda>s. rest (raise_peak peak (tm_used s)) s)"

definition end_branches :: "usage \<Rightarrow> temporaries \<Rightarrow> temporaries option" where
  "end_branches peak s = Some (s\<lparr>tm_used := peak\<rparr>)"

definition from_here :: "(usage \<Rightarrow> temporaries \<Rightarrow> temporaries option) \<Rightarrow> temporaries \<Rightarrow> temporaries option" where
  "from_here f s = f (tm_used s) s"

text \<open>The end of an expression: what its operands reserved is free again.\<close>

definition hand_over :: "position \<Rightarrow> usage \<Rightarrow> temporaries \<Rightarrow> temporaries option" where
  "hand_over pos base s = map_option (\<lambda>retired.
     s\<lparr>tm_retired := (if retired = [] then tm_retired s else (tm_retired s)(pos \<mapsto> retired)), tm_used := base\<rparr>)
     (retired_since base s)"

definition exit_loop :: "position \<Rightarrow> temporaries \<Rightarrow> temporaries option" where
  "exit_loop pos s = (case tm_loop_bases s of
       [] \<Rightarrow> Some s
     | base # _ \<Rightarrow> map_option (\<lambda>retired.
         if retired = [] then s else s\<lparr>tm_exits := (tm_exits s)(pos \<mapsto> retired)\<rparr>) (retired_since base s))"

definition enter_loop :: "temporaries \<Rightarrow> temporaries option" where
  "enter_loop s = Some (s\<lparr>tm_loop_bases := tm_used s # tm_loop_bases s\<rparr>)"

definition leave_loop :: "temporaries \<Rightarrow> temporaries option" where
  "leave_loop s = Some (s\<lparr>tm_loop_bases := tl (tm_loop_bases s)\<rparr>)"

definition back_to :: "usage \<Rightarrow> temporaries \<Rightarrow> temporaries option" where
  "back_to base s = Some (s\<lparr>tm_used := base\<rparr>)"

definition place_here :: "query \<Rightarrow> expr \<Rightarrow> (temporaries \<Rightarrow> temporaries option) \<Rightarrow> position \<Rightarrow> bool \<Rightarrow> temporaries \<Rightarrow> temporaries option" where
  "place_here q e kids pos protect s =
     Option.bind (if protect \<and> needs_snapshot (q_program q) e then reserve pos (e_ty e) s else Some s)
       (from_here (\<lambda>base. both kids (hand_over pos base)))"

fun place_expr :: "query \<Rightarrow> expr \<Rightarrow> position \<Rightarrow> bool \<Rightarrow> temporaries \<Rightarrow> temporaries option"
and place_kind :: "query \<Rightarrow> expr_kind \<Rightarrow> position \<Rightarrow> temporaries \<Rightarrow> temporaries option"
and place_exprs :: "query \<Rightarrow> expr list \<Rightarrow> nat \<Rightarrow> position \<Rightarrow> bool list \<Rightarrow> temporaries \<Rightarrow> temporaries option"
and place_fields :: "query \<Rightarrow> (nat \<times> expr) list \<Rightarrow> nat \<Rightarrow> position \<Rightarrow> bool list \<Rightarrow> temporaries \<Rightarrow> temporaries option"
and place_arms :: "query \<Rightarrow> match_arm list \<Rightarrow> nat \<Rightarrow> position \<Rightarrow> usage \<Rightarrow> usage \<Rightarrow> temporaries \<Rightarrow> temporaries option"
and place_block :: "query \<Rightarrow> block \<Rightarrow> position \<Rightarrow> temporaries \<Rightarrow> temporaries option"
and place_stmts :: "query \<Rightarrow> stmt list \<Rightarrow> nat \<Rightarrow> position \<Rightarrow> usage \<Rightarrow> temporaries \<Rightarrow> temporaries option"
and place_stmt :: "query \<Rightarrow> stmt_kind \<Rightarrow> position \<Rightarrow> temporaries \<Rightarrow> temporaries option" where
  "place_expr q (Expr kind t span) = (\<lambda>pos. place_here q (Expr kind t span) (place_kind q kind pos) pos)"
| "place_kind q (EUnary _ e) = (\<lambda>pos. place_expr q e (0 # pos) (q_shared q))"
| "place_kind q (EField e _) = (\<lambda>pos. place_expr q e (0 # pos) (q_shared q))"
| "place_kind q (EClosure _ e) = (\<lambda>pos. place_expr q e (0 # pos) (q_shared q))"
| "place_kind q (ECoerce e) = (\<lambda>pos. place_expr q e (0 # pos) (q_shared q))"
| "place_kind q (EDynBox _ e) = (\<lambda>pos. place_expr q e (0 # pos) True)"
| "place_kind q (EDynCall receiver _ args) = (\<lambda>pos. with_flags q (kids_at 0 pos (receiver # args)) True
     (\<lambda>flags. both (place_expr q receiver (0 # pos) (hd flags)) (place_exprs q args 1 pos (tl flags))))"
| "place_kind q (EIndirectCall callee args) = (\<lambda>pos. with_flags q (kids_at 0 pos (callee # args)) True
     (\<lambda>flags. both (place_expr q callee (0 # pos) (hd flags)) (place_exprs q args 1 pos (tl flags))))"
| "place_kind q (EBinary _ a b) = (\<lambda>pos. with_flags q (kids_at 0 pos [a, b]) False
     (\<lambda>flags. both (place_expr q a (0 # pos) (hd flags)) (place_expr q b (1 # pos) (hd (tl flags)))))"
| "place_kind q (ECall target args) = (\<lambda>pos. with_flags q (kids_at 0 pos args) (target \<in> q_allocating q)
     (place_exprs q args 0 pos))"
| "place_kind q (EPrimitive op args) = (\<lambda>pos. with_flags q (kids_at 0 pos args) (q_shared q \<or> op_allocates op)
     (place_exprs q args 0 pos))"
| "place_kind q (EVariant _ args) = (\<lambda>pos. with_flags q (kids_at 0 pos args) False (place_exprs q args 0 pos))"
| "place_kind q (EList args) = (\<lambda>pos. with_flags q (kids_at 0 pos args) True (place_exprs q args 0 pos))"
| "place_kind q (ERecord fs) = (\<lambda>pos. with_flags q (kids_at 0 pos (map snd fs)) False (place_fields q fs 0 pos))"
| "place_kind q (EFrameNew fs) = (\<lambda>pos. with_flags q (kids_at 0 pos (map snd fs)) True (place_fields q fs 0 pos))"
| "place_kind q (EFrameStore frame _ e) = (\<lambda>pos. with_flags q (kids_at 0 pos [frame, e]) (q_shared q)
     (\<lambda>flags. both (place_expr q frame (0 # pos) (hd flags)) (place_expr q e (1 # pos) (hd (tl flags)))))"
| "place_kind q (EBlock b) = (\<lambda>pos. place_block q b (0 # pos))"
| "place_kind q (EMatch e arms) = (\<lambda>pos. both (place_expr q e (0 # pos) False)
     (from_here (\<lambda>base. place_arms q arms 1 pos base base)))"
| "place_kind q (EIf e yes None) = (\<lambda>pos. both (place_expr q e (0 # pos) False)
     (from_here (\<lambda>base. branch base (place_block q yes (1 # pos)) end_branches base)))"
| "place_kind q (EIf e yes (Some no)) = (\<lambda>pos. both (place_expr q e (0 # pos) False)
     (from_here (\<lambda>base. branch base (place_block q yes (1 # pos)) (branch base (place_block q no (2 # pos)) end_branches) base)))"
| "place_kind q _ = (\<lambda>pos. Some)"
| "place_exprs q [] = (\<lambda>k pos flags. Some)"
| "place_exprs q (e # es) = (\<lambda>k pos flags. both (place_expr q e (k # pos) (hd flags)) (place_exprs q es (Suc k) pos (tl flags)))"
| "place_fields q [] = (\<lambda>k pos flags. Some)"
| "place_fields q ((_, e) # fs) = (\<lambda>k pos flags. both (place_expr q e (k # pos) (hd flags)) (place_fields q fs (Suc k) pos (tl flags)))"
| "place_arms q [] = (\<lambda>k pos base. end_branches)"
| "place_arms q (MatchArm _ _ _ b # arms) = (\<lambda>k pos base. branch base (place_block q b (k # pos)) (place_arms q arms (Suc k) pos base))"
| "place_block q (Block ss None _) = (\<lambda>pos. from_here (place_stmts q ss 0 pos))"
| "place_block q (Block ss (Some e) _) = (\<lambda>pos. both (from_here (place_stmts q ss 0 pos)) (place_expr q e (length ss # pos) False))"
| "place_stmts q [] = (\<lambda>k pos base. Some)"
| "place_stmts q (Stmt kind _ # ss) = (\<lambda>k pos base. both (place_stmt q kind (k # pos)) (both (back_to base) (place_stmts q ss (Suc k) pos base)))"
| "place_stmt q (SLet _ e) = (\<lambda>pos. place_expr q e (0 # pos) False)"
| "place_stmt q (SAssign _ e) = (\<lambda>pos. place_expr q e (0 # pos) False)"
| "place_stmt q (SAssert e _) = (\<lambda>pos. place_expr q e (0 # pos) False)"
| "place_stmt q (SDiscard e) = (\<lambda>pos. place_expr q e (0 # pos) False)"
| "place_stmt q (SExpr e) = (\<lambda>pos. place_expr q e (0 # pos) False)"
| "place_stmt q (SReturn (Some e)) = (\<lambda>pos. place_expr q e (0 # pos) False)"
| "place_stmt q (SWhile e b) = (\<lambda>pos. both (place_expr q e (0 # pos) False) (both enter_loop (both (place_block q b (1 # pos)) leave_loop)))"
| "place_stmt q SBreak = exit_loop"
| "place_stmt q SContinue = exit_loop"
| "place_stmt q _ = (\<lambda>pos. Some)"

end
