(* ===== verification/SlotUse.thy ===== *)
theory SlotUse
  imports Slots "HOL-Library.Sublist"
begin

text \<open>
  Pending values never share a slot, and no slot is given back while a value waits in it
  (\<open>TemporarySlots\<close> of \<open>Slots\<close>).
\<close>

section \<open>Taken and free slots\<close>

definition taken :: "usage \<Rightarrow> temporaries \<Rightarrow> nat set" where
  "taken u s = {k. \<exists>t i. i < count_used u t \<and> i < length (pool_of s t) \<and> k = pool_of s t ! i}"

definition free :: "usage \<Rightarrow> temporaries \<Rightarrow> nat set" where
  "free u s = {k. \<exists>t i. count_used u t \<le> i \<and> i < length (pool_of s t) \<and> k = pool_of s t ! i}"

definition le_used :: "usage \<Rightarrow> usage \<Rightarrow> bool" where
  "le_used u v \<longleftrightarrow> (\<forall>t. count_used u t \<le> count_used v t)"

text \<open>A usage that counts slots of pools that exist.\<close>

definition usage_ok :: "temporaries \<Rightarrow> usage \<Rightarrow> bool" where
  "usage_ok s u \<longleftrightarrow> distinct (map fst u) \<and> (\<forall>(t, n) \<in> set u. tm_pools s t \<noteq> None \<and> n \<le> length (pool_of s t))"

definition pools_ok :: "temporaries \<Rightarrow> bool" where
  "pools_ok s \<longleftrightarrow> (\<forall>t. distinct (pool_of s t) \<and> (\<forall>k \<in> set (pool_of s t). k < length (tm_types s) \<and> tm_types s ! k = t))"

definition temps_ok :: "temporaries \<Rightarrow> bool" where
  "temps_ok s \<longleftrightarrow> pools_ok s \<and> usage_ok s (tm_used s)
     \<and> (\<forall>base \<in> set (tm_loop_bases s). usage_ok s base \<and> le_used base (tm_used s))"

definition extends :: "temporaries \<Rightarrow> temporaries \<Rightarrow> bool" where
  "extends s s' \<longleftrightarrow> (\<forall>t. prefix (pool_of s t) (pool_of s' t) \<and> (tm_pools s t \<noteq> None \<longrightarrow> tm_pools s' t \<noteq> None))"

lemma le_used_refl [simp]: "le_used u u"
  by (simp add: le_used_def)

lemma le_used_trans: "le_used u v \<Longrightarrow> le_used v w \<Longrightarrow> le_used u w"
  unfolding le_used_def using le_trans by blast

lemma extends_refl [simp]: "extends s s"
  by (simp add: extends_def)

lemma extends_trans: "extends s s' \<Longrightarrow> extends s' s'' \<Longrightarrow> extends s s''"
  unfolding extends_def using prefix_order.order_trans by blast

lemma prefix_elem: "prefix xs ys \<Longrightarrow> i < length xs \<Longrightarrow> i < length ys \<and> xs ! i = ys ! i"
  by (auto simp: prefix_def nth_append)

lemma taken_mono: "extends s s' \<Longrightarrow> le_used u v \<Longrightarrow> taken u s \<subseteq> taken v s'"
proof
  fix k assume e: "extends s s'" and l: "le_used u v" and "k \<in> taken u s"
  then obtain t i where i: "i < count_used u t" "i < length (pool_of s t)" "k = pool_of s t ! i"
    by (auto simp: taken_def)
  have "prefix (pool_of s t) (pool_of s' t)" using e by (simp add: extends_def)
  from prefix_elem [OF this i(2)] have "i < length (pool_of s' t)" "k = pool_of s' t ! i" using i(3) by auto
  moreover have "i < count_used v t" using i(1) l less_le_trans unfolding le_used_def by blast
  ultimately show "k \<in> taken v s'" unfolding taken_def by blast
qed

lemma free_mono: "extends s s' \<Longrightarrow> le_used u v \<Longrightarrow> free v s \<subseteq> free u s'"
proof
  fix k assume e: "extends s s'" and l: "le_used u v" and "k \<in> free v s"
  then obtain t i where i: "count_used v t \<le> i" "i < length (pool_of s t)" "k = pool_of s t ! i"
    by (auto simp: free_def)
  have "prefix (pool_of s t) (pool_of s' t)" using e by (simp add: extends_def)
  from prefix_elem [OF this i(2)] have "i < length (pool_of s' t)" "k = pool_of s' t ! i" using i(3) by auto
  moreover have "count_used u t \<le> i" using i(1) l le_trans unfolding le_used_def by blast
  ultimately show "k \<in> free u s'" unfolding free_def by blast
qed

lemma taken_free: "pools_ok s \<Longrightarrow> taken u s \<inter> free u s = {}"
proof (rule equals0I)
  fix k assume p: "pools_ok s" and "k \<in> taken u s \<inter> free u s"
  then obtain t i t' i' where k: "i < count_used u t" "i < length (pool_of s t)" "k = pool_of s t ! i"
    "count_used u t' \<le> i'" "i' < length (pool_of s t')" "k = pool_of s t' ! i'" unfolding taken_def free_def by blast
  have "tm_types s ! k = t" "tm_types s ! k = t'" using p k nth_mem unfolding pools_ok_def by metis+
  then have "t = t'" by simp
  moreover have "distinct (pool_of s t)" using p by (simp add: pools_ok_def)
  ultimately have "i = i'" using k nth_eq_iff_index_eq by metis
  then show False using k(1,4) \<open>t = t'\<close> by simp
qed

lemma usage_ok_mono: "usage_ok s u \<Longrightarrow> extends s s' \<Longrightarrow> usage_ok s' u"
  unfolding usage_ok_def extends_def by (fastforce dest: prefix_length_le)

lemma usage_count: "usage_ok s u \<Longrightarrow> count_used u t \<le> length (pool_of s t)"
  by (auto simp: usage_ok_def count_used_def split: option.split dest: map_of_SomeD)

text \<open>Fields that do not matter.\<close>

lemma pool_of_simps [simp]:
  "pool_of (s\<lparr>tm_used := u\<rparr>) = pool_of s"
  "pool_of (s\<lparr>tm_slots := x\<rparr>) = pool_of s"
  "pool_of (s\<lparr>tm_retired := r\<rparr>) = pool_of s"
  "pool_of (s\<lparr>tm_exits := r\<rparr>) = pool_of s"
  "pool_of (s\<lparr>tm_loop_bases := b\<rparr>) = pool_of s"
  "pool_of (s\<lparr>tm_answers := m\<rparr>) = pool_of s"
  by (simp_all add: fun_eq_iff pool_of_def)

lemma count_update [simp]: "count_used (AList.update t n u) t' = (if t' = t then n else count_used u t')"
  by (simp add: count_used_def update_conv')

lemma usage_ok_iff: "usage_ok s u \<longleftrightarrow> distinct (map fst u)
    \<and> (\<forall>t n. map_of u t = Some n \<longrightarrow> tm_pools s t \<noteq> None \<and> n \<le> length (pool_of s t))"
proof (cases "distinct (map fst u)")
  case True
  then have "(t, n) \<in> set u \<longleftrightarrow> map_of u t = Some n" for t n by (simp add: map_of_eq_Some_iff)
  then show ?thesis using True by (auto simp: usage_ok_def)
qed (simp add: usage_ok_def)

lemma usage_update:
  "usage_ok s u \<Longrightarrow> tm_pools s t \<noteq> None \<Longrightarrow> n \<le> length (pool_of s t) \<Longrightarrow> usage_ok s (AList.update t n u)"
  unfolding usage_ok_iff by (auto simp: distinct_update update_conv' split: if_splits)

section \<open>Retired slots\<close>

lemma retired_from_ok:
  assumes "usage_ok s u" "le_used base u"
  shows "set us \<subseteq> set u \<Longrightarrow> \<exists>ks. retired_from base (tm_pools s) us = Some ks \<and> set ks \<subseteq> free base s"
proof (induction us)
  case (Cons e us)
  obtain t n where e: "e = (t, n)" by force
  obtain ks where ks: "retired_from base (tm_pools s) us = Some ks" "set ks \<subseteq> free base s" using Cons by auto
  have "map_of u t = Some n" using Cons.prems assms(1) by (simp add: e usage_ok_def map_of_eq_Some_iff)
  then have n: "tm_pools s t \<noteq> None" "n \<le> length (pool_of s t)" "count_used base t \<le> n"
    using assms by (auto simp: usage_ok_iff le_used_def count_used_def dest!: spec [of _ t])
  then obtain pool where pool: "tm_pools s t = Some pool" "pool_of s t = pool" by (auto simp: pool_of_def)
  have "set (drop (count_used base t) (take n pool)) \<subseteq> free base s"
  proof
    fix k assume "k \<in> set (drop (count_used base t) (take n pool))"
    then obtain i where i: "i < length (drop (count_used base t) (take n pool))"
      "k = drop (count_used base t) (take n pool) ! i" by (metis in_set_conv_nth)
    have "length (take n pool) = n" using n pool by simp
    then have "count_used base t + i < n" "k = pool ! (count_used base t + i)" using i n pool by simp_all
    then show "k \<in> free base s" using n pool unfolding free_def
      by (auto intro!: exI [of _ t] exI [of _ "count_used base t + i"])
  qed
  then show ?case using ks n pool by (simp add: e slice_def)
qed simp

lemma retired_since_ok:
  assumes "usage_ok s (tm_used s)" "le_used base (tm_used s)"
  shows "\<exists>ks. retired_since base s = Some ks \<and> set ks \<subseteq> free base s"
  using retired_from_ok [OF assms subset_refl] by (auto simp: retired_since_def)

section \<open>Positions that wait for each other\<close>

text \<open>The value at \<open>p\<close> is pending while \<open>q\<close> is evaluated: \<open>q\<close> is part of it, or of a later operand.\<close>

definition crossing :: "position \<Rightarrow> position \<Rightarrow> bool" where
  "crossing p q \<longleftrightarrow> (\<exists>r. r \<noteq> [] \<and> q = r @ p) \<or> (\<exists>par i j r. i < j \<and> p = i # par \<and> q = r @ j # par)"

lemma below_kids_iff: "q \<in> below_kids k n pos \<longleftrightarrow> (\<exists>i. k \<le> i \<and> i < n \<and> q \<in> at_or_below (i # pos))"
  by (auto simp: below_kids_def at_or_below_def)

lemma at_or_below_longer: "q \<in> at_or_below pos \<Longrightarrow> length pos \<le> length q \<and> drop (length q - length pos) q = pos"
  by (auto simp: at_or_below_def)

lemma crossing_parent: "q \<in> below_kids k n pos \<Longrightarrow> \<not> crossing q pos"
proof -
  assume "q \<in> below_kids k n pos"
  then have "length pos < length q" by (auto simp: below_kids_def)
  then show ?thesis by (auto simp: crossing_def)
qed

text \<open>Between two operands only the first one itself is pending.\<close>

lemma crossing_kids:
  assumes "p \<in> at_or_below (i # pos)" "q \<in> at_or_below (j # pos)" "i < j"
  shows "crossing p q \<Longrightarrow> p = i # pos" "\<not> crossing q p"
proof -
  obtain a b where p: "p = a @ i # pos" and q: "q = b @ j # pos" using assms(1,2) by (auto simp: at_or_below_def)
  have apart: "u @ i # pos \<noteq> v @ j # pos" for u v using below_kid_index [of u i pos v j] assms(3) by auto
  show "p = i # pos" if "crossing p q"
  proof (rule ccontr)
    assume "p \<noteq> i # pos"
    then obtain x a' where a: "a = x # a'" using p by (cases a) auto
    from that consider r where "q = r @ p" | par x' y r where "p = x' # par" "q = r @ y # par" by (auto simp: crossing_def)
    then show False
    proof cases
      case 1
      then show ?thesis using p q apart [of "r @ a" b] by simp
    next
      case 2
      then show ?thesis using p q a apart [of "r @ y # a'" b] by simp
    qed
  qed
  show "\<not> crossing q p"
  proof
    assume "crossing q p"
    then consider r where "p = r @ q" | par x y r where "x < y" "q = x # par" "p = r @ y # par" by (auto simp: crossing_def)
    then show False
    proof cases
      case 1
      then show ?thesis using p q apart [of a "r @ b"] by simp
    next
      case 2
      show ?thesis
      proof (cases b)
        case Nil
        then have "a @ i # pos = r @ y # pos" "x = j" using 2 p q by auto
        then have "i = y" by (blast dest: below_kid_index)
        then show ?thesis using 2(1) \<open>x = j\<close> assms(3) by simp
      next
        case (Cons z b')
        then show ?thesis using 2 p q apart [of a "r @ y # b'"] by simp
      qed
    qed
  qed
qed

section \<open>What a step of the placement keeps_types\<close>

definition slots_at :: "temporaries \<Rightarrow> position \<Rightarrow> nat set" where
  "slots_at s p = set_option (tm_slots s p)"

definition retired_at :: "temporaries \<Rightarrow> position \<Rightarrow> nat set" where
  "retired_at s p = (case tm_retired s p of None \<Rightarrow> {} | Some ks \<Rightarrow> set ks)"

definition apart :: "position set \<Rightarrow> temporaries \<Rightarrow> bool" where
  "apart P s \<longleftrightarrow> (\<forall>p \<in> P. slots_at s p \<inter> retired_at s p = {}
     \<and> (\<forall>q \<in> P. crossing p q \<longrightarrow> slots_at s p \<inter> (slots_at s q \<union> retired_at s q) = {}))"

definition blank :: "position set \<Rightarrow> temporaries \<Rightarrow> bool" where
  "blank P s \<longleftrightarrow> (\<forall>p \<in> P. slots_at s p = {} \<and> retired_at s p = {})"

text \<open>From \<open>s\<close> to \<open>s'\<close> the positions \<open>P\<close> were slotted; those in \<open>R\<close> are still pending.\<close>

definition slotted :: "position set \<Rightarrow> position set \<Rightarrow> temporaries \<Rightarrow> temporaries \<Rightarrow> bool" where
  "slotted P R s s' \<longleftrightarrow> temps_ok s' \<and> extends s s' \<and> le_used (tm_used s) (tm_used s') \<and> tm_loop_bases s' = tm_loop_bases s
     \<and> (\<forall>p. p \<notin> P \<longrightarrow> slots_at s' p = slots_at s p \<and> retired_at s' p = retired_at s p)
     \<and> (\<forall>p \<in> P. slots_at s' p \<union> retired_at s' p \<subseteq> free (tm_used s) s')
     \<and> (\<forall>p \<in> R. p \<in> P \<longrightarrow> slots_at s' p \<subseteq> taken (tm_used s') s')
     \<and> apart P s'"

definition steps :: "position set \<Rightarrow> position set \<Rightarrow> (temporaries \<Rightarrow> temporaries option) \<Rightarrow> temporaries \<Rightarrow> bool" where
  "steps P R f s \<longleftrightarrow> (\<exists>s'. f s = Some s' \<and> slotted P R s s')"

lemma slots_at_simps [simp]:
  "slots_at (s\<lparr>tm_used := u\<rparr>) = slots_at s" "retired_at (s\<lparr>tm_used := u\<rparr>) = retired_at s"
  "slots_at (s\<lparr>tm_answers := m\<rparr>) = slots_at s" "retired_at (s\<lparr>tm_answers := m\<rparr>) = retired_at s"
  "slots_at (s\<lparr>tm_exits := x\<rparr>) = slots_at s" "retired_at (s\<lparr>tm_exits := x\<rparr>) = retired_at s"
  "slots_at (s\<lparr>tm_loop_bases := b\<rparr>) = slots_at s" "retired_at (s\<lparr>tm_loop_bases := b\<rparr>) = retired_at s"
  "slots_at (s\<lparr>tm_retired := r\<rparr>) = slots_at s"
  by (simp_all add: fun_eq_iff slots_at_def retired_at_def)

lemma free_simps [simp]:
  "free u (s\<lparr>tm_used := v\<rparr>) = free u s" "taken u (s\<lparr>tm_used := v\<rparr>) = taken u s"
  "free u (s\<lparr>tm_answers := m\<rparr>) = free u s" "taken u (s\<lparr>tm_answers := m\<rparr>) = taken u s"
  "free u (s\<lparr>tm_exits := x\<rparr>) = free u s" "taken u (s\<lparr>tm_exits := x\<rparr>) = taken u s"
  "free u (s\<lparr>tm_loop_bases := b\<rparr>) = free u s" "taken u (s\<lparr>tm_loop_bases := b\<rparr>) = taken u s"
  "free u (s\<lparr>tm_retired := r\<rparr>) = free u s" "taken u (s\<lparr>tm_retired := r\<rparr>) = taken u s"
  by (simp_all add: free_def taken_def)

lemma apart_simps [simp]:
  "apart P (s\<lparr>tm_used := v\<rparr>) = apart P s" "apart P (s\<lparr>tm_answers := m\<rparr>) = apart P s"
  "apart P (s\<lparr>tm_exits := x\<rparr>) = apart P s" "apart P (s\<lparr>tm_loop_bases := b\<rparr>) = apart P s"
  by (simp_all add: apart_def)

lemma usage_ok_simps [simp]:
  "usage_ok (s\<lparr>tm_used := v\<rparr>) = usage_ok s" "usage_ok (s\<lparr>tm_answers := m\<rparr>) = usage_ok s"
  "usage_ok (s\<lparr>tm_exits := x\<rparr>) = usage_ok s" "usage_ok (s\<lparr>tm_loop_bases := b\<rparr>) = usage_ok s"
  "usage_ok (s\<lparr>tm_retired := r\<rparr>) = usage_ok s"
  "pools_ok (s\<lparr>tm_used := v\<rparr>) = pools_ok s" "pools_ok (s\<lparr>tm_answers := m\<rparr>) = pools_ok s"
  "pools_ok (s\<lparr>tm_exits := x\<rparr>) = pools_ok s" "pools_ok (s\<lparr>tm_loop_bases := b\<rparr>) = pools_ok s"
  "pools_ok (s\<lparr>tm_retired := r\<rparr>) = pools_ok s"
  by (simp_all add: fun_eq_iff usage_ok_def pools_ok_def)

lemma extends_simps [simp]:
  "extends (s\<lparr>tm_used := v\<rparr>) s' = extends s s'" "extends s (s'\<lparr>tm_used := v\<rparr>) = extends s s'"
  "extends (s\<lparr>tm_answers := m\<rparr>) s' = extends s s'" "extends s (s'\<lparr>tm_answers := m\<rparr>) = extends s s'"
  "extends (s\<lparr>tm_loop_bases := b\<rparr>) s' = extends s s'" "extends s (s'\<lparr>tm_loop_bases := b\<rparr>) = extends s s'"
  "extends s (s'\<lparr>tm_exits := x\<rparr>) = extends s s'" "extends s (s'\<lparr>tm_retired := r\<rparr>) = extends s s'"
  by (simp_all add: extends_def)

lemma temps_ok_answers [simp]: "temps_ok (s\<lparr>tm_answers := m\<rparr>) = temps_ok s"
  by (simp add: temps_ok_def)

lemma placed_answers [simp]: "slotted P R (s\<lparr>tm_answers := m\<rparr>) s' = slotted P R s s'"
  by (simp add: slotted_def)

lemma blank_simps [simp]:
  "blank P (s\<lparr>tm_answers := m\<rparr>) = blank P s" "blank P (s\<lparr>tm_used := u\<rparr>) = blank P s" "blank P (s\<lparr>tm_loop_bases := b\<rparr>) = blank P s"
  by (simp_all add: blank_def)

lemma blank_mono: "blank Q s \<Longrightarrow> P \<subseteq> Q \<Longrightarrow> blank P s"
  by (auto simp: blank_def)

lemma placedD:
  assumes "slotted P R s s'"
  shows "temps_ok s'" "extends s s'" "le_used (tm_used s) (tm_used s')" "tm_loop_bases s' = tm_loop_bases s"
    "p \<notin> P \<Longrightarrow> slots_at s' p = slots_at s p" "p \<notin> P \<Longrightarrow> retired_at s' p = retired_at s p"
    "p \<in> P \<Longrightarrow> slots_at s' p \<subseteq> free (tm_used s) s'" "p \<in> P \<Longrightarrow> retired_at s' p \<subseteq> free (tm_used s) s'"
    "p \<in> R \<Longrightarrow> p \<in> P \<Longrightarrow> slots_at s' p \<subseteq> taken (tm_used s') s'" "apart P s'"
  using assms by (simp_all add: slotted_def)

lemma placedI:
  assumes "temps_ok s'" "extends s s'" "le_used (tm_used s) (tm_used s')" "tm_loop_bases s' = tm_loop_bases s"
    "\<And>p. p \<notin> P \<Longrightarrow> slots_at s' p = slots_at s p" "\<And>p. p \<notin> P \<Longrightarrow> retired_at s' p = retired_at s p"
    "\<And>p. p \<in> P \<Longrightarrow> slots_at s' p \<subseteq> free (tm_used s) s'" "\<And>p. p \<in> P \<Longrightarrow> retired_at s' p \<subseteq> free (tm_used s) s'"
    "\<And>p. p \<in> R \<Longrightarrow> p \<in> P \<Longrightarrow> slots_at s' p \<subseteq> taken (tm_used s') s'" "apart P s'"
  shows "slotted P R s s'"
  using assms unfolding slotted_def by simp

lemma apartD:
  "apart P s \<Longrightarrow> p \<in> P \<Longrightarrow> slots_at s p \<inter> retired_at s p = {}"
  "apart P s \<Longrightarrow> p \<in> P \<Longrightarrow> q \<in> P \<Longrightarrow> crossing p q \<Longrightarrow> slots_at s p \<inter> (slots_at s q \<union> retired_at s q) = {}"
  by (simp_all add: apart_def)

lemma apartI:
  "(\<And>p. p \<in> P \<Longrightarrow> slots_at s p \<inter> retired_at s p = {}) \<Longrightarrow>
    (\<And>p q. p \<in> P \<Longrightarrow> q \<in> P \<Longrightarrow> crossing p q \<Longrightarrow> slots_at s p \<inter> (slots_at s q \<union> retired_at s q) = {}) \<Longrightarrow> apart P s"
  by (simp add: apart_def)

lemma blank_placed: "blank Q s \<Longrightarrow> slotted P R s s' \<Longrightarrow> P \<inter> Q = {} \<Longrightarrow> blank Q s'"
  unfolding blank_def by (metis disjoint_iff placedD(5,6))

lemma placed_refl: "temps_ok s \<Longrightarrow> slotted {} R s s"
  by (simp add: slotted_def apart_def)

lemma placed_weaken:
  assumes "slotted P R s s'" "P \<subseteq> P'" "R' \<inter> P \<subseteq> R" "blank P' s"
  shows "slotted P' R' s s'"
proof -
  note one = placedD [OF assms(1)]
  have out: "slots_at s' p = {}" "retired_at s' p = {}" if "p \<in> P'" "p \<notin> P" for p
    using one(5,6) [OF that(2)] assms(4) that(1) by (simp_all add: blank_def)
  show ?thesis
  proof (rule placedI)
    show "temps_ok s'" "extends s s'" "le_used (tm_used s) (tm_used s')" "tm_loop_bases s' = tm_loop_bases s" by (fact one)+
    show "slots_at s' p = slots_at s p" "retired_at s' p = retired_at s p" if "p \<notin> P'" for p
      using that assms(2) one(5,6) [of p] by blast+
    show "slots_at s' p \<subseteq> free (tm_used s) s'" "retired_at s' p \<subseteq> free (tm_used s) s'" if "p \<in> P'" for p
      using out [OF that] one(7,8) [of p] by blast+
    show "slots_at s' p \<subseteq> taken (tm_used s') s'" if "p \<in> R'" "p \<in> P'" for p
      using out(1) [OF that(2)] one(9) [of p] that(1) assms(3) by blast
    show "apart P' s'"
    proof (rule apartI)
      fix p assume p: "p \<in> P'"
      show "slots_at s' p \<inter> retired_at s' p = {}" using out [OF p] apartD(1) [OF one(10), of p] by blast
      fix q assume q: "q \<in> P'" "crossing p q"
      show "slots_at s' p \<inter> (slots_at s' q \<union> retired_at s' q) = {}"
        using out [OF p] out [OF q(1)] apartD(2) [OF one(10) _ _ q(2)] by blast
    qed
  qed
qed

text \<open>One part after another.\<close>

lemma placed_seq:
  assumes one: "slotted P R s t" and two: "slotted Q S t u"
    and disjoint: "P \<inter> Q = {}"
    and forward: "\<And>p q. p \<in> P \<Longrightarrow> q \<in> Q \<Longrightarrow> crossing p q \<Longrightarrow> p \<in> R"
    and backward: "\<And>p q. p \<in> P \<Longrightarrow> q \<in> Q \<Longrightarrow> \<not> crossing q p"
  shows "slotted (P \<union> Q) ((R \<inter> P) \<union> (S \<inter> Q)) s u"
proof -
  note a = placedD [OF one] and b = placedD [OF two]
  have pools: "pools_ok u" using b(1) by (simp add: temps_ok_def)
  have in_p: "slots_at u p = slots_at t p" "retired_at u p = retired_at t p" if "p \<in> P" for p
    using that b(5,6) [of p] disjoint by blast+
  have free_t: "free (tm_used s) t \<subseteq> free (tm_used s) u" "free (tm_used t) u \<subseteq> free (tm_used s) u"
    using free_mono [OF b(2) le_used_refl] free_mono [OF extends_refl a(3)] by blast+
  have taken_t: "taken (tm_used t) t \<subseteq> taken (tm_used t) u" "taken (tm_used t) t \<subseteq> taken (tm_used u) u"
    using taken_mono [OF b(2) le_used_refl] taken_mono [OF b(2,3)] by blast+
  show ?thesis
  proof (rule placedI)
    show "temps_ok u" by (fact b(1))
    show "extends s u" by (rule extends_trans [OF a(2) b(2)])
    show "le_used (tm_used s) (tm_used u)" by (rule le_used_trans [OF a(3) b(3)])
    show "tm_loop_bases u = tm_loop_bases s" using a(4) b(4) by simp
    show "slots_at u p = slots_at s p" "retired_at u p = retired_at s p" if "p \<notin> P \<union> Q" for p
      using that a(5,6) [of p] b(5,6) [of p] by simp_all
    show "slots_at u p \<subseteq> free (tm_used s) u" "retired_at u p \<subseteq> free (tm_used s) u" if "p \<in> P \<union> Q" for p
      using that a(7,8) [of p] b(7,8) [of p] in_p [of p] free_t by blast+
    show "slots_at u p \<subseteq> taken (tm_used u) u" if "p \<in> (R \<inter> P) \<union> (S \<inter> Q)" for p
      using that a(9) [of p] b(9) [of p] in_p [of p] taken_t(2) by blast
    show "apart (P \<union> Q) u"
    proof (rule apartI)
      fix p assume p: "p \<in> P \<union> Q"
      show "slots_at u p \<inter> retired_at u p = {}"
        using p in_p [of p] apartD(1) [OF a(10), of p] apartD(1) [OF b(10), of p] by auto
      fix q assume q: "q \<in> P \<union> Q" "crossing p q"
      consider "p \<in> P" "q \<in> P" | "p \<in> Q" "q \<in> Q" | "p \<in> P" "q \<in> Q" | "p \<in> Q" "q \<in> P" using p q by blast
      then show "slots_at u p \<inter> (slots_at u q \<union> retired_at u q) = {}"
      proof cases
        case 1
        then show ?thesis using in_p apartD(2) [OF a(10) _ _ q(2)] by simp
      next
        case 2
        then show ?thesis using apartD(2) [OF b(10) _ _ q(2)] by simp
      next
        case 3
        have "slots_at u p \<subseteq> taken (tm_used t) u"
          using forward [OF 3 q(2)] a(9) [of p] in_p(1) [OF 3(1)] 3(1) taken_t(1) by blast
        moreover have "slots_at u q \<union> retired_at u q \<subseteq> free (tm_used t) u" using b(7,8) [OF 3(2)] by blast
        ultimately show ?thesis using taken_free [OF pools] by blast
      next
        case 4
        then show ?thesis using backward q(2) by blast
      qed
    qed
  qed
qed

section \<open>Rules\<close>

definition kid_roots :: "position \<Rightarrow> position set" where
  "kid_roots pos = {i # pos | i. True}"

definition spot_ok :: "position \<Rightarrow> (temporaries \<Rightarrow> temporaries option) \<Rightarrow> bool" where
  "spot_ok pos f \<longleftrightarrow> (\<forall>s. temps_ok s \<longrightarrow> blank (at_or_below pos) s \<longrightarrow> steps (at_or_below pos) {pos} f s)"

definition node_quiet :: "position \<Rightarrow> (temporaries \<Rightarrow> temporaries option) \<Rightarrow> bool" where
  "node_quiet pos f \<longleftrightarrow> (\<forall>s. temps_ok s \<longrightarrow> blank (at_or_below pos) s \<longrightarrow>
     (\<exists>s'. f s = Some s' \<and> slotted (at_or_below pos) {pos} s s' \<and> slots_at s' pos = {}))"

definition kids_ok :: "nat \<Rightarrow> nat \<Rightarrow> position \<Rightarrow> (temporaries \<Rightarrow> temporaries option) \<Rightarrow> bool" where
  "kids_ok k n pos f \<longleftrightarrow> (\<forall>s. temps_ok s \<longrightarrow> blank (below_kids k n pos) s \<longrightarrow> steps (below_kids k n pos) (kid_roots pos) f s)"

lemma quiet_ok: "node_quiet pos f \<Longrightarrow> spot_ok pos f"
  unfolding node_quiet_def spot_ok_def steps_def by blast

lemma below_empty [simp]: "below_kids k k pos = {}"
  by (auto simp: below_kids_def)

lemma below_one: "below_kids k (Suc k) pos = at_or_below (k # pos)"
  by (auto simp: below_kids_iff less_Suc_eq_le)

lemma below_split: "k \<le> n \<Longrightarrow> n \<le> m \<Longrightarrow> below_kids k m pos = below_kids k n pos \<union> below_kids n m pos"
  unfolding below_kids_iff set_eq_iff Un_iff by (meson le_trans less_le_trans not_le)

lemma below_first: "Suc k \<le> n \<Longrightarrow> below_kids k n pos = at_or_below (k # pos) \<union> below_kids (Suc k) n pos"
  using below_split [of k "Suc k" n pos] by (simp add: below_one)

lemma kid_root_here: "p \<in> kid_roots pos \<Longrightarrow> p \<in> at_or_below (k # pos) \<Longrightarrow> p = k # pos"
  by (auto simp: kid_roots_def at_or_below_def)

lemma crossing_below:
  assumes "p \<in> below_kids k n pos" "q \<in> below_kids n m pos"
  shows "crossing p q \<Longrightarrow> p \<in> kid_roots pos" "\<not> crossing q p"
proof -
  obtain i j where ij: "i < n" "n \<le> j" "p \<in> at_or_below (i # pos)" "q \<in> at_or_below (j # pos)"
    using assms by (auto simp: below_kids_iff)
  then have "i < j" by simp
  with ij(3,4) show "crossing p q \<Longrightarrow> p \<in> kid_roots pos" "\<not> crossing q p"
    using crossing_kids [OF ij(3,4)] by (auto simp: kid_roots_def)
qed

lemma placed_kids:
  assumes "slotted (below_kids k n pos) (kid_roots pos) s t" "slotted (below_kids n m pos) (kid_roots pos) t u" "k \<le> n" "n \<le> m"
  shows "slotted (below_kids k m pos) (kid_roots pos) s u"
proof -
  have eq: "(kid_roots pos \<inter> below_kids k n pos) \<union> (kid_roots pos \<inter> below_kids n m pos) = kid_roots pos \<inter> below_kids k m pos"
    unfolding below_split [OF assms(3,4)] by blast
  have "slotted (below_kids k n pos \<union> below_kids n m pos)
      ((kid_roots pos \<inter> below_kids k n pos) \<union> (kid_roots pos \<inter> below_kids n m pos)) s u"
    by (rule placed_seq [OF assms(1,2) below_kids_disjoint [OF le_refl]])
      (use crossing_below in blast)+
  then have "slotted (below_kids k m pos) (kid_roots pos \<inter> below_kids k m pos) s u"
    unfolding eq below_split [OF assms(3,4), symmetric] .
  then show ?thesis by (simp add: slotted_def)
qed

lemma kids_seq:
  assumes "kids_ok k n pos f" "kids_ok n m pos g" "k \<le> n" "n \<le> m"
  shows "kids_ok k m pos (both f g)"
  unfolding kids_ok_def
proof (intro allI impI)
  fix s assume s: "temps_ok s" "blank (below_kids k m pos) s"
  have blank: "blank (below_kids k n pos) s" "blank (below_kids n m pos) s"
    using s(2) unfolding below_split [OF assms(3,4)] by (auto simp: blank_def)
  obtain t where t: "f s = Some t" "slotted (below_kids k n pos) (kid_roots pos) s t"
    using assms(1) s(1) blank(1) unfolding kids_ok_def steps_def by blast
  have "blank (below_kids n m pos) t" by (rule blank_placed [OF blank(2) t(2) below_kids_disjoint [OF le_refl]])
  then obtain u where u: "g t = Some u" "slotted (below_kids n m pos) (kid_roots pos) t u"
    using assms(2) placedD(1) [OF t(2)] unfolding kids_ok_def steps_def by blast
  then show "steps (below_kids k m pos) (kid_roots pos) (both f g) s"
    using t placed_kids [OF t(2) u(2) assms(3,4)] unfolding steps_def both_def by simp
qed

lemma kids_none: "kids_ok k k pos Some"
  by (simp add: kids_ok_def steps_def placed_refl)

lemma kids_one: "spot_ok (k # pos) f \<Longrightarrow> kids_ok k (Suc k) pos f"
proof -
  assume f: "spot_ok (k # pos) f"
  show ?thesis
    unfolding kids_ok_def below_one
  proof (intro allI impI)
    fix s assume s: "temps_ok s" "blank (at_or_below (k # pos)) s"
    then obtain t where t: "f s = Some t" "slotted (at_or_below (k # pos)) {k # pos} s t"
      using f unfolding spot_ok_def steps_def by blast
    have "slotted (at_or_below (k # pos)) (kid_roots pos) s t"
      by (rule placed_weaken [OF t(2) subset_refl _ s(2)]) (use kid_root_here in blast)
    then show "steps (at_or_below (k # pos)) (kid_roots pos) f s" using t(1) by (auto simp: steps_def)
  qed
qed

lemma kids_cons: "spot_ok (k # pos) f \<Longrightarrow> kids_ok (Suc k) n pos g \<Longrightarrow> Suc k \<le> n \<Longrightarrow> kids_ok k n pos (both f g)"
  using kids_seq [OF kids_one] by simp

lemma kids_quiet:
  assumes "kids_ok 0 n pos f"
  shows "node_quiet pos f"
  unfolding node_quiet_def
proof (intro allI impI)
  fix s assume s: "temps_ok s" "blank (at_or_below pos) s"
  obtain t where t: "f s = Some t" "slotted (below_kids 0 n pos) (kid_roots pos) s t"
    using assms s(1) blank_mono [OF s(2) below_kids_below] unfolding kids_ok_def steps_def by blast
  have same: "slots_at t pos = {}"
    using placedD(5) [OF t(2) below_kids_not_self] s(2) by (simp add: blank_def)
  have "slotted (at_or_below pos) {pos} s t"
    by (rule placed_weaken [OF t(2) below_kids_below _ s(2)]) (use below_kids_not_self in blast)
  then show "\<exists>s'. f s = Some s' \<and> slotted (at_or_below pos) {pos} s s' \<and> slots_at s' pos = {}"
    using t(1) same by blast
qed

lemma kids_flags:
  assumes "\<And>flags. kids_ok k n pos (f flags)"
  shows "kids_ok k n pos (with_flags q vs later f)"
  unfolding kids_ok_def
proof (intro allI impI)
  fix s assume s: "temps_ok s" "blank (below_kids k n pos) s"
  obtain flags l m where flags: "sibling_flags q vs later (tm_answers s) = (flags, l, m)" by (metis prod_cases3)
  have "steps (below_kids k n pos) (kid_roots pos) (f flags) (s\<lparr>tm_answers := m\<rparr>)"
    using assms [of flags] s unfolding kids_ok_def by simp
  then show "steps (below_kids k n pos) (kid_roots pos) (with_flags q vs later f) s"
    by (simp add: steps_def with_flags_def flags)
qed

text \<open>The end of a scope gives back what was used in it.\<close>

lemma placed_reset:
  assumes "slotted P R s t" "temps_ok s" "\<And>p. p \<in> R \<Longrightarrow> p \<in> P \<Longrightarrow> slots_at t p = {}"
  shows "slotted P R s (t\<lparr>tm_used := tm_used s\<rparr>)"
proof -
  note a = placedD [OF assms(1)]
  have "usage_ok t (tm_used s)" using assms(2) a(2) usage_ok_mono by (auto simp: temps_ok_def)
  then have "temps_ok (t\<lparr>tm_used := tm_used s\<rparr>)"
    using a(1,4) assms(2) by (simp add: temps_ok_def)
  then show ?thesis using assms(1,3) by (simp add: slotted_def)
qed

lemma reserve_ok:
  assumes "temps_ok s" "blank {pos} s"
  shows "\<exists>t. reserve pos ty s = Some t \<and> slotted {pos} {pos} s t"
proof -
  let ?used = "count_used (tm_used s) ty"
  let ?pool = "pool_of s ty"
  let ?grow = "?used = length ?pool"
  let ?new = "if ?grow then ?pool @ [length (tm_types s)] else ?pool"
  let ?types = "if ?grow then tm_types s @ [ty] else tm_types s"
  have ok: "pools_ok s" "usage_ok s (tm_used s)" using assms(1) by (simp_all add: temps_ok_def)
  have le: "?used \<le> length ?pool" by (rule usage_count [OF ok(2)])
  then have slot: "?used < length ?new" by auto
  define t where "t = s\<lparr>tm_types := ?types, tm_pools := (tm_pools s)(ty \<mapsto> ?new),
    tm_slots := (tm_slots s)(pos \<mapsto> ?new ! ?used), tm_used := AList.update ty (?used + 1) (tm_used s)\<rparr>"
  have run: "reserve pos ty s = Some t"
    using slot by (auto simp: reserve_def Let_def t_def get_nth_def)
  have pool: "pool_of t u = (if u = ty then ?new else pool_of s u)" for u by (simp add: t_def pool_of_def)
  have ext: "extends s t" by (simp add: extends_def pool) (simp add: t_def)
  have types_t: "tm_types t = ?types" by (simp add: t_def)
  have pools: "pools_ok t"
    unfolding pools_ok_def
  proof (intro allI conjI ballI)
    fix u
    have old: "distinct (pool_of s u)" "\<And>k. k \<in> set (pool_of s u) \<Longrightarrow> k < length (tm_types s) \<and> tm_types s ! k = u"
      using ok(1) by (simp_all add: pools_ok_def)
    show "distinct (pool_of t u)" using old by (auto simp: pool)
    fix k assume k: "k \<in> set (pool_of t u)"
    show "k < length (tm_types t)" "tm_types t ! k = u"
      using k old(2) [of k] by (auto simp: pool types_t nth_append split: if_splits)
  qed
  have used: "tm_used t = AList.update ty (?used + 1) (tm_used s)" by (simp add: t_def)
  have le_t: "le_used (tm_used s) (tm_used t)" by (simp add: le_used_def used)
  have "usage_ok t (tm_used t)"
    unfolding used
    by (rule usage_update [OF usage_ok_mono [OF ok(2) ext]]) (use slot in \<open>simp_all add: pool\<close>, simp add: t_def)
  moreover have "usage_ok t base \<and> le_used base (tm_used t)" if "base \<in> set (tm_loop_bases s)" for base
    using assms(1) that usage_ok_mono [OF _ ext] le_used_trans [OF _ le_t] by (simp add: temps_ok_def)
  ultimately have temps: "temps_ok t" using pools by (simp add: temps_ok_def t_def)
  have here: "slots_at t pos = {?new ! ?used}" "retired_at t pos = {}"
    using assms(2) by (simp_all add: blank_def slots_at_def retired_at_def t_def)
  have "slotted {pos} {pos} s t"
  proof (rule placedI)
    show "temps_ok t" "extends s t" "le_used (tm_used s) (tm_used t)" by fact+
    show "tm_loop_bases t = tm_loop_bases s" by (simp add: t_def)
    show "slots_at t p = slots_at s p" "retired_at t p = retired_at s p" if "p \<notin> {pos}" for p
      using that by (simp_all add: slots_at_def retired_at_def t_def)
    show "slots_at t p \<subseteq> free (tm_used s) t" if "p \<in> {pos}" for p
      using that slot by (auto simp: here free_def pool intro!: exI [of _ ty] exI [of _ ?used])
    show "retired_at t p \<subseteq> free (tm_used s) t" if "p \<in> {pos}" for p using that here by simp
    show "slots_at t p \<subseteq> taken (tm_used t) t" if "p \<in> {pos}" for p
      using that slot by (auto simp: here taken_def pool used intro!: exI [of _ ty] exI [of _ ?used])
    have "\<not> crossing pos pos" by (auto simp: crossing_def)
    then show "apart {pos} t" using here by (simp add: apart_def)
  qed
  then show ?thesis using run by blast
qed

text \<open>An expression: its slot first, then its operands, whose slots it gives back.\<close>

lemma crossing_at:
  assumes "q \<in> at_or_below pos"
  shows "\<not> crossing q pos"
proof
  assume "crossing q pos"
  obtain b where q: "q = b @ pos" using assms by (auto simp: at_or_below_def)
  from \<open>crossing q pos\<close> consider r where "r \<noteq> []" "pos = r @ q" | par i j r where "i < j" "q = i # par" "pos = r @ j # par"
    by (auto simp: crossing_def)
  then show False
  proof cases
    case 1
    then have "length pos = length r + length q" by simp
    then show ?thesis using 1(1) q by simp
  next
    case 2
    then have "length q = Suc (length par)" "length pos = length r + Suc (length par)" by simp_all
    then have "b = []" "r = []" using q by simp_all
    then show ?thesis using 2 q by simp
  qed
qed

lemma hand_over_ok:
  assumes own: "slotted {pos} {pos} s t" and kids: "slotted (below_kids 0 n pos) R t u"
    and ok: "temps_ok t" "blank (at_or_below pos) s"
  shows "\<exists>v. hand_over pos (tm_used t) u = Some v \<and> slotted (at_or_below pos) {pos} s v \<and> slots_at v pos = slots_at t pos"
proof -
  note a = placedD [OF own] and b = placedD [OF kids]
  have "usage_ok u (tm_used u)" using b(1) by (simp add: temps_ok_def)
  from retired_since_ok [OF this b(3)] obtain ks where
    ks: "retired_since (tm_used t) u = Some ks" "set ks \<subseteq> free (tm_used t) u" by blast
  define v where "v = u\<lparr>tm_retired := (if ks = [] then tm_retired u else (tm_retired u)(pos \<mapsto> ks)), tm_used := tm_used t\<rparr>"
  have run: "hand_over pos (tm_used t) u = Some v" by (simp add: hand_over_def ks v_def)
  have not_kid: "pos \<notin> below_kids 0 n pos" by (rule below_kids_not_self)
  have "slotted ({pos} \<union> below_kids 0 n pos) (({pos} \<inter> {pos}) \<union> (R \<inter> below_kids 0 n pos)) s u"
    by (rule placed_seq [OF own kids]) (use not_kid crossing_parent in auto)
  moreover have "{pos} \<union> below_kids 0 n pos \<subseteq> at_or_below pos" using below_kids_below [of 0 n pos] by simp
  ultimately have both: "slotted (at_or_below pos) {} s u" by (rule placed_weaken) (use ok(2) in simp_all)
  note c = placedD [OF both]
  have slots: "slots_at v = slots_at u" by (simp add: v_def)
  have same: "slots_at u pos = slots_at t pos" "retired_at u pos = retired_at t pos" using b(5,6) [OF not_kid] by blast+
  have retired: "retired_at v p = (if p = pos \<and> ks \<noteq> [] then set ks else retired_at u p)" for p
    by (simp add: v_def retired_at_def)
  have sim: "free w v = free w u" "taken w v = taken w u" "extends w' v = extends w' u" "usage_ok v = usage_ok u" "pools_ok v = pools_ok u"
    "tm_used v = tm_used t" "tm_loop_bases v = tm_loop_bases u" for w w' by (simp_all add: v_def)
  have pools: "pools_ok u" using b(1) by (simp add: temps_ok_def)
  have own_slot: "slots_at u pos \<subseteq> taken (tm_used t) u"
    using a(9) [of pos] taken_mono [OF b(2) le_used_refl] same(1) by blast
  have ks_free: "set ks \<subseteq> free (tm_used s) u" using ks(2) free_mono [OF extends_refl a(3)] by blast
  have "usage_ok u w \<and> le_used w (tm_used t)" if "w = tm_used t \<or> w \<in> set (tm_loop_bases t)" for w
    using that ok(1) usage_ok_mono [OF _ b(2)] by (auto simp: temps_ok_def)
  then have temps: "temps_ok v" using pools b(4) unfolding temps_ok_def sim by simp
  have "slotted (at_or_below pos) {pos} s v"
  proof (rule placedI)
    show "temps_ok v" by (rule temps)
    show "extends s v" "le_used (tm_used s) (tm_used v)" "tm_loop_bases v = tm_loop_bases s" using c(2,4) a(3) by (simp_all add: sim)
    show "slots_at v p = slots_at s p" "retired_at v p = retired_at s p" if "p \<notin> at_or_below pos" for p
      using c(5,6) [OF that] that by (auto simp: slots retired)
    show "slots_at v p \<subseteq> free (tm_used s) v" "retired_at v p \<subseteq> free (tm_used s) v" if "p \<in> at_or_below pos" for p
      using c(7,8) [OF that] ks_free by (simp_all add: slots retired sim)
    show "slots_at v p \<subseteq> taken (tm_used v) v" if "p \<in> {pos}" for p using that own_slot by (simp add: slots sim)
    show "apart (at_or_below pos) v"
    proof (rule apartI)
      fix p assume p: "p \<in> at_or_below pos"
      show "slots_at v p \<inter> retired_at v p = {}"
        using apartD(1) [OF c(10) p] own_slot ks(2) taken_free [OF pools, of "tm_used t"] by (auto simp: slots retired)
      fix q assume q: "q \<in> at_or_below pos" "crossing p q"
      have "q \<noteq> pos" using crossing_at [OF p] q(2) by blast
      then show "slots_at v p \<inter> (slots_at v q \<union> retired_at v q) = {}"
        using apartD(2) [OF c(10) p q] by (simp add: slots retired)
    qed
  qed
  then show ?thesis using run same(1) by (auto simp: slots)
qed

lemma place_here_ok:
  assumes kids: "kids_ok 0 n pos f"
  shows "spot_ok pos (place_here q e f pos protect)" "\<not> protect \<Longrightarrow> node_quiet pos (place_here q e f pos protect)"
proof -
  have "\<exists>v. place_here q e f pos protect s = Some v \<and> slotted (at_or_below pos) {pos} s v \<and> (protect \<or> slots_at v pos = {})"
    if s: "temps_ok s" "blank (at_or_below pos) s" for s
  proof -
    have here: "blank {pos} s" using blank_mono [OF s(2)] by simp
    obtain t where t: "(if protect \<and> needs_snapshot (q_program q) e then reserve pos (e_ty e) s else Some s) = Some t"
      "slotted {pos} {pos} s t" "protect \<or> slots_at t pos = {}"
    proof (cases "protect \<and> needs_snapshot (q_program q) e")
      case True
      then show ?thesis using that reserve_ok [OF s(1) here] by auto
    next
      case False
      have "slotted {pos} {pos} s s"
        by (rule placed_weaken [where R = "{}", OF placed_refl [OF s(1)] _ _ here]) simp_all
      then show ?thesis using that False here by (auto simp: blank_def)
    qed
    have "blank (below_kids 0 n pos) t"
      by (rule blank_placed [OF blank_mono [OF s(2) below_kids_below] t(2)]) (use below_kids_not_self in auto)
    then obtain u where u: "f t = Some u" "slotted (below_kids 0 n pos) (kid_roots pos) t u"
      using kids placedD(1) [OF t(2)] unfolding kids_ok_def steps_def by blast
    from hand_over_ok [OF t(2) u(2) placedD(1) [OF t(2)] s(2)] show ?thesis
      using t u(1) by (auto simp: place_here_def from_here_def both_def)
  qed
  then show "spot_ok pos (place_here q e f pos protect)" "\<not> protect \<Longrightarrow> node_quiet pos (place_here q e f pos protect)"
    unfolding spot_ok_def node_quiet_def steps_def by blast+
qed

text \<open>Statements, one after another, each from the same usage.\<close>

definition lines_ok :: "nat \<Rightarrow> nat \<Rightarrow> position \<Rightarrow> usage \<Rightarrow> (temporaries \<Rightarrow> temporaries option) \<Rightarrow> bool" where
  "lines_ok k n pos base f \<longleftrightarrow> (\<forall>s. temps_ok s \<longrightarrow> tm_used s = base \<longrightarrow> blank (below_kids k n pos) s \<longrightarrow>
     steps (below_kids k n pos) (kid_roots pos) f s)"

lemma lines_none: "lines_ok k k pos base Some"
  by (simp add: lines_ok_def steps_def placed_refl)

lemma lines_cons:
  assumes "node_quiet (k # pos) f" "lines_ok (Suc k) n pos base g" "Suc k \<le> n"
  shows "lines_ok k n pos base (both f (both (back_to base) g))"
  unfolding lines_ok_def
proof (intro allI impI)
  fix s assume s: "temps_ok s" "tm_used s = base" "blank (below_kids k n pos) s"
  have blank: "blank (at_or_below (k # pos)) s" "blank (below_kids (Suc k) n pos) s"
    using s(3) unfolding below_first [OF assms(3)] by (auto simp: blank_def)
  obtain t where t: "f s = Some t" "slotted (at_or_below (k # pos)) {k # pos} s t" "slots_at t (k # pos) = {}"
    using assms(1) s(1) blank(1) unfolding node_quiet_def by blast
  let ?t = "t\<lparr>tm_used := base\<rparr>"
  have reset: "slotted (at_or_below (k # pos)) {k # pos} s ?t"
    using placed_reset [OF t(2) s(1)] t(3) s(2) by simp
  then have one: "slotted (below_kids k (Suc k) pos) (kid_roots pos) s ?t"
    unfolding below_one by (rule placed_weaken [OF _ subset_refl _ blank(1)]) (use kid_root_here in blast)
  have "blank (below_kids (Suc k) n pos) ?t"
    by (rule blank_placed [OF blank(2) one below_kids_disjoint [OF le_refl]])
  then obtain u where u: "g ?t = Some u" "slotted (below_kids (Suc k) n pos) (kid_roots pos) ?t u"
    using assms(2) [unfolded lines_ok_def, rule_format, of ?t] placedD(1) [OF one] by (auto simp: steps_def)
  show "steps (below_kids k n pos) (kid_roots pos) (both f (both (back_to base) g)) s"
    using placed_kids [OF one u(2) _ assms(3)] t(1) u(1) by (simp add: steps_def both_def back_to_def)
qed

lemma kids_lines: "(\<And>base. lines_ok k n pos base (f base)) \<Longrightarrow> kids_ok k n pos (from_here f)"
  unfolding kids_ok_def lines_ok_def steps_def from_here_def by blast

text \<open>Branches, each from the same usage; the largest usage stays.\<close>

definition arms_ok :: "nat \<Rightarrow> nat \<Rightarrow> position \<Rightarrow> usage \<Rightarrow> (usage \<Rightarrow> temporaries \<Rightarrow> temporaries option) \<Rightarrow> bool" where
  "arms_ok k n pos base f \<longleftrightarrow> (\<forall>s peak. temps_ok (s\<lparr>tm_used := base\<rparr>) \<longrightarrow> usage_ok s peak \<longrightarrow> le_used base peak \<longrightarrow>
     blank (below_kids k n pos) s \<longrightarrow>
     (\<exists>s'. f peak s = Some s' \<and> slotted (below_kids k n pos) (kid_roots pos) (s\<lparr>tm_used := base\<rparr>) s'))"

lemma arms_none: "arms_ok k k pos base end_branches"
  unfolding arms_ok_def end_branches_def slotted_def
  by (auto simp: temps_ok_def apart_def intro: le_used_trans)

lemma raise_peak_ok:
  assumes "usage_ok s peak" "\<forall>(t, n) \<in> set us. tm_pools s t \<noteq> None \<and> n \<le> length (pool_of s t)"
  shows "usage_ok s (raise_peak peak us) \<and> le_used peak (raise_peak peak us)"
  using assms
proof (induction peak us rule: raise_peak.induct)
  case (2 peak t used us)
  have ok: "usage_ok s (AList.update t (max (count_used peak t) used) peak)"
    using 2(2,3) usage_count [OF 2(2), of t] by (intro usage_update) auto
  have "le_used peak (AList.update t (max (count_used peak t) used) peak)" by (simp add: le_used_def)
  with 2(1) [OF ok] 2(3) le_used_trans show ?case by auto
qed simp

lemma arms_cons:
  assumes "node_quiet (k # pos) f" "arms_ok (Suc k) n pos base g" "Suc k \<le> n"
  shows "arms_ok k n pos base (branch base f g)"
  unfolding arms_ok_def
proof (intro allI impI)
  fix s peak assume s: "temps_ok (s\<lparr>tm_used := base\<rparr>)" "usage_ok s peak" "le_used base peak" "blank (below_kids k n pos) s"
  let ?s = "s\<lparr>tm_used := base\<rparr>"
  have blank: "blank (at_or_below (k # pos)) ?s" "blank (below_kids (Suc k) n pos) ?s"
    using s(4) unfolding below_first [OF assms(3)] by (auto simp: blank_def)
  obtain t where t: "f ?s = Some t" "slotted (at_or_below (k # pos)) {k # pos} ?s t" "slots_at t (k # pos) = {}"
    using assms(1) s(1) blank(1) unfolding node_quiet_def by blast
  let ?t = "t\<lparr>tm_used := base\<rparr>"
  have reset: "slotted (at_or_below (k # pos)) {k # pos} ?s ?t"
    using placed_reset [OF t(2) s(1)] t(3) by simp
  then have one: "slotted (below_kids k (Suc k) pos) (kid_roots pos) ?s ?t"
    unfolding below_one by (rule placed_weaken [OF _ subset_refl _ blank(1)]) (use kid_root_here in blast)
  have rest: "blank (below_kids (Suc k) n pos) t"
    using blank_placed [OF blank(2) one below_kids_disjoint [OF le_refl]] by simp
  have "usage_ok t peak" using usage_ok_mono [OF s(2)] placedD(2) [OF t(2)] by simp
  moreover have "\<forall>(ty, n) \<in> set (tm_used t). tm_pools t ty \<noteq> None \<and> n \<le> length (pool_of t ty)"
    using placedD(1) [OF t(2)] by (simp add: temps_ok_def usage_ok_def)
  ultimately have peak: "usage_ok t (raise_peak peak (tm_used t))" "le_used base (raise_peak peak (tm_used t))"
    using raise_peak_ok le_used_trans [OF s(3)] by blast+
  then obtain u where u: "g (raise_peak peak (tm_used t)) t = Some u" "slotted (below_kids (Suc k) n pos) (kid_roots pos) ?t u"
    using assms(2) placedD(1) [OF one] rest unfolding arms_ok_def by blast
  show "\<exists>s'. branch base f g peak s = Some s' \<and> slotted (below_kids k n pos) (kid_roots pos) ?s s'"
    using placed_kids [OF one u(2) _ assms(3)] t(1) u(1) by (simp add: branch_def)
qed

lemma kids_arms:
  assumes "\<And>base. arms_ok k n pos base (f base)"
  shows "kids_ok k n pos (from_here (\<lambda>base. f base base))"
  unfolding kids_ok_def
proof (intro allI impI)
  fix s assume s: "temps_ok s" "blank (below_kids k n pos) s"
  have "usage_ok s (tm_used s)" "s\<lparr>tm_used := tm_used s\<rparr> = s" using s(1) by (simp_all add: temps_ok_def)
  then show "steps (below_kids k n pos) (kid_roots pos) (from_here (\<lambda>base. f base base)) s"
    using assms [of "tm_used s"] s unfolding arms_ok_def steps_def from_here_def by force
qed

text \<open>Loops.\<close>

lemma node_loop:
  assumes "spot_ok pos f"
  shows "spot_ok pos (both enter_loop (both f leave_loop))"
  unfolding spot_ok_def
proof (intro allI impI)
  fix s assume s: "temps_ok s" "blank (at_or_below pos) s"
  let ?s = "s\<lparr>tm_loop_bases := tm_used s # tm_loop_bases s\<rparr>"
  have "temps_ok ?s" using s(1) by (simp add: temps_ok_def)
  then obtain t where t: "f ?s = Some t" "slotted (at_or_below pos) {pos} ?s t"
    using assms s(2) unfolding spot_ok_def steps_def by auto
  note a = placedD [OF t(2)]
  have "temps_ok (t\<lparr>tm_loop_bases := tm_loop_bases s\<rparr>)" using a(1,4) by (simp add: temps_ok_def)
  then have "slotted (at_or_below pos) {pos} s (t\<lparr>tm_loop_bases := tm_loop_bases s\<rparr>)"
    using t(2) by (simp add: slotted_def)
  then show "steps (at_or_below pos) {pos} (both enter_loop (both f leave_loop)) s"
    using t(1) a(4) by (simp add: steps_def both_def enter_loop_def leave_loop_def)
qed

lemma exit_ok: "kids_ok 0 0 pos (exit_loop pos)"
  unfolding kids_ok_def
proof (intro allI impI)
  fix s assume s: "temps_ok s"
  show "steps (below_kids 0 0 pos) (kid_roots pos) (exit_loop pos) s"
  proof (cases "tm_loop_bases s")
    case Nil
    then show ?thesis using placed_refl [OF s] by (simp add: steps_def exit_loop_def)
  next
    case (Cons base bases)
    then have "usage_ok s (tm_used s)" "le_used base (tm_used s)" using s by (simp_all add: temps_ok_def)
    then obtain ks where "retired_since base s = Some ks" using retired_since_ok by blast
    moreover have "slotted {} (kid_roots pos) s (s\<lparr>tm_exits := x\<rparr>)" for x
      using s by (simp add: slotted_def temps_ok_def apart_def)
    ultimately show ?thesis using Cons placed_refl [OF s] by (simp add: steps_def exit_loop_def)
  qed
qed

section \<open>Every part of a body\<close>

definition expr_slotted :: "position \<Rightarrow> (bool \<Rightarrow> temporaries \<Rightarrow> temporaries option) \<Rightarrow> bool" where
  "expr_slotted pos f \<longleftrightarrow> (\<forall>protect. spot_ok pos (f protect)) \<and> node_quiet pos (f False)"

lemma expr_slottedD: "expr_slotted pos f \<Longrightarrow> spot_ok pos (f protect)" "expr_slotted pos f \<Longrightarrow> node_quiet pos (f False)"
  by (auto simp: expr_slotted_def)

definition some_kids :: "position \<Rightarrow> (temporaries \<Rightarrow> temporaries option) \<Rightarrow> bool" where
  "some_kids pos f \<longleftrightarrow> (\<exists>n. kids_ok 0 n pos f)"

lemma some_kidsI: "kids_ok 0 n pos f \<Longrightarrow> some_kids pos f"
  by (auto simp: some_kids_def)

lemma some_node: "spot_ok (0 # pos) f \<Longrightarrow> some_kids pos f"
  by (rule some_kidsI, rule kids_one)

lemma some_none: "some_kids pos Some"
  by (rule some_kidsI, rule kids_none)

lemma some_two: "spot_ok (0 # pos) f \<Longrightarrow> spot_ok (Suc 0 # pos) g \<Longrightarrow> some_kids pos (both f g)"
  by (rule some_kidsI, rule kids_cons [OF _ kids_one]) simp_all

lemma kids_two: "spot_ok (k # pos) f \<Longrightarrow> spot_ok (Suc k # pos) g \<Longrightarrow> kids_ok k (Suc (Suc k)) pos (both f g)"
  by (rule kids_cons [OF _ kids_one]) simp_all

lemma some_flags: "(\<And>flags. kids_ok 0 n pos (f flags)) \<Longrightarrow> some_kids pos (with_flags q vs later f)"
  by (rule some_kidsI, rule kids_flags)

lemma expr_node: "some_kids pos f \<Longrightarrow> expr_slotted pos (place_here q e f pos)"
  unfolding some_kids_def expr_slotted_def using place_here_ok by blast

lemma some_quiet: "some_kids pos f \<Longrightarrow> node_quiet pos f"
  unfolding some_kids_def using kids_quiet by blast

lemma place_ok:
  "expr_slotted pos (place_expr q e pos)"
  "some_kids pos (place_kind q kind pos)"
  "kids_ok k (k + length es) pos (place_exprs q es k pos flags)"
  "kids_ok k (k + length fs) pos (place_fields q fs k pos flags)"
  "arms_ok k (k + length arms) pos base (place_arms q arms k pos base)"
  "node_quiet pos (place_block q b pos)"
  "lines_ok k (k + length ss) pos base (place_stmts q ss k pos base)"
  "some_kids pos (place_stmt q sk pos)"
proof (induction q e and q kind and q es and q fs and q arms and q b and q ss and q sk
    arbitrary: pos and pos and k pos flags and k pos flags and k pos base and pos and k pos base and pos
    rule: place_expr_place_kind_place_exprs_place_fields_place_arms_place_block_place_stmts_place_stmt.induct,
    goal_cases)
  case (7 q receiver u args pos)
  show ?case by simp (rule some_flags, rule kids_cons [OF expr_slottedD(1) [OF 7(1)] 7(2)], simp)
next
  case (8 q callee args pos)
  show ?case by simp (rule some_flags, rule kids_cons [OF expr_slottedD(1) [OF 8(1)] 8(2)], simp)
next
  case (9 q u a b pos)
  show ?case by simp (rule some_flags, rule kids_two [OF expr_slottedD(1) [OF 9(1)] expr_slottedD(1) [OF 9(2)]])
next
  case (10 q target args pos)
  show ?case by simp (rule some_flags, rule 10)
next
  case (11 q op args pos)
  show ?case by simp (rule some_flags, rule 11)
next
  case (12 q u args pos)
  show ?case by simp (rule some_flags, rule 12)
next
  case (13 q args pos)
  show ?case by simp (rule some_flags, rule 13)
next
  case (14 q fs pos)
  show ?case by simp (rule some_flags, rule 14)
next
  case (15 q fs pos)
  show ?case by simp (rule some_flags, rule 15)
next
  case (16 q frame u e pos)
  show ?case by simp (rule some_flags, rule kids_two [OF expr_slottedD(1) [OF 16(1)] expr_slottedD(1) [OF 16(2)]])
next
  case (17 q b pos)
  show ?case by (simp add: some_node [OF quiet_ok [OF 17(1)]])
next
  case (18 q e arms pos)
  have "kids_ok (Suc 0) (Suc 0 + length arms) pos (from_here (\<lambda>base. place_arms q arms (Suc 0) pos base base))"
    by (rule kids_arms) (rule 18(2))
  then show ?case
    by (simp add: some_kidsI [OF kids_cons [OF expr_slottedD(1) [OF 18(1)]]])
next
  case (19 q e yes pos)
  have "kids_ok (Suc 0) (Suc (Suc 0)) pos
      (from_here (\<lambda>base. branch base (place_block q yes (Suc 0 # pos)) end_branches base))"
    by (rule kids_arms) (rule arms_cons [OF 19(2) arms_none], simp)
  from some_kidsI [OF kids_cons [OF expr_slottedD(1) [OF 19(1)] this]] show ?case by simp
next
  case (20 q e yes no pos)
  have "kids_ok (Suc 0) (Suc (Suc (Suc 0))) pos (from_here (\<lambda>base. branch base (place_block q yes (Suc 0 # pos))
      (branch base (place_block q no (Suc (Suc 0) # pos)) end_branches) base))"
    by (rule kids_arms) (rule arms_cons [OF 20(2) arms_cons [OF 20(3) arms_none]], simp_all)
  from some_kidsI [OF kids_cons [OF expr_slottedD(1) [OF 20(1)] this]] show ?case by (simp add: numeral_2_eq_2)
next
  case (29 q e es k pos flags)
  show ?case using kids_cons [OF expr_slottedD(1) [OF 29(1)] 29(2)] by simp
next
  case (31 q u e fs k pos flags)
  show ?case using kids_cons [OF expr_slottedD(1) [OF 31(1)] 31(2)] by simp
next
  case (33 q a b c body arms k pos base)
  show ?case using arms_cons [OF 33(1) 33(2)] by simp
next
  case (34 q ss u pos)
  have "kids_ok 0 (0 + length ss) pos (from_here (place_stmts q ss 0 pos))" by (rule kids_lines) (rule 34(1))
  from kids_quiet [OF this] show ?case by simp
next
  case (35 q ss e u pos)
  have "kids_ok 0 (0 + length ss) pos (from_here (place_stmts q ss 0 pos))" by (rule kids_lines) (rule 35(1))
  from kids_quiet [OF kids_seq [OF this kids_one [OF expr_slottedD(1) [OF 35(2)]]]] show ?case by simp
next
  case (37 q kind u ss k pos base)
  show ?case using lines_cons [OF some_quiet [OF 37(1)] 37(2)] by simp
next
  case (44 q e b pos)
  have "spot_ok (Suc 0 # pos) (both enter_loop (both (place_block q b (Suc 0 # pos)) leave_loop))"
    by (rule node_loop [OF quiet_ok [OF 44(2)]])
  from some_two [OF expr_slottedD(1) [OF 44(1)] this] show ?case by simp
qed (simp_all add: expr_node some_node expr_slottedD(1) some_none kids_none lines_none arms_none some_kidsI [OF exit_ok])

section \<open>A function\<close>

text \<open>\<open>root_function\<close>: the guards, then the body.  A callback has its body only.\<close>

definition no_temporaries :: temporaries where
  "no_temporaries = \<lparr>tm_types = [], tm_pools = Map.empty, tm_used = [], tm_slots = Map.empty, tm_retired = Map.empty,
     tm_exits = Map.empty, tm_loop_bases = [], tm_answers = Map.empty\<rparr>"

fun place_guards :: "query \<Rightarrow> expr list \<Rightarrow> nat \<Rightarrow> temporaries \<Rightarrow> temporaries option" where
  "place_guards q [] k = Some"
| "place_guards q (e # es) k = both (place_expr q e [k] False) (both (back_to []) (place_guards q es (Suc k)))"

definition place_function :: "query \<Rightarrow> expr list \<Rightarrow> block \<Rightarrow> temporaries option" where
  "place_function q guards body =
     both (place_guards q guards 0) (place_block q body [length guards]) no_temporaries"

lemma place_guards_ok: "lines_ok k (k + length es) [] [] (place_guards q es k)"
proof (induction es arbitrary: k)
  case (Cons e es)
  show ?case using lines_cons [OF expr_slottedD(2) [OF place_ok(1) [where e = e and pos = "[k]" and q = q]] Cons [of "Suc k"]] by simp
qed (simp add: lines_none)

lemma place_function_ok:
  "\<exists>s. place_function q guards body = Some s \<and> temps_ok s \<and> apart (below_kids 0 (Suc (length guards)) []) s
    \<and> (\<forall>p. p \<notin> below_kids 0 (Suc (length guards)) [] \<longrightarrow> slots_at s p = {} \<and> retired_at s p = {})"
proof -
  let ?P = "below_kids 0 (length guards) []"
  have start: "temps_ok no_temporaries" "blank P no_temporaries" "tm_used no_temporaries = []" for P
    by (auto simp: temps_ok_def pools_ok_def usage_ok_def pool_of_def no_temporaries_def blank_def slots_at_def retired_at_def)
  obtain t where t: "place_guards q guards 0 no_temporaries = Some t" "slotted ?P (kid_roots []) no_temporaries t"
    using place_guards_ok [where k = 0 and es = guards and q = q] start(1,3) start(2) [of ?P] unfolding lines_ok_def steps_def by auto
  have body: "kids_ok (length guards) (Suc (length guards)) [] (place_block q body [length guards])"
    by (rule kids_one) (rule quiet_ok [OF place_ok(6)])
  have "blank (below_kids (length guards) (Suc (length guards)) []) t"
    by (rule blank_placed [OF start(2) t(2) below_kids_disjoint [OF le_refl]])
  then obtain u where u: "place_block q body [length guards] t = Some u"
    "slotted (below_kids (length guards) (Suc (length guards)) []) (kid_roots []) t u"
    using body placedD(1) [OF t(2)] unfolding kids_ok_def steps_def by blast
  note all = placedD [OF placed_kids [OF t(2) u(2)], simplified]
  have "place_function q guards body = Some u" using t(1) u(1) by (simp add: place_function_def both_def)
  then show ?thesis using all(1,5,6,10) start(2) [of UNIV] by (auto simp: blank_def)
qed

section \<open>Slots have the types of their values\<close>

definition slots_typed :: "(position \<times> node) list \<Rightarrow> temporaries \<Rightarrow> bool" where
  "slots_typed ns s \<longleftrightarrow> pools_ok s \<and> (\<forall>pos e k. (pos, At_expr e) \<in> set ns \<longrightarrow> tm_slots s pos = Some k \<longrightarrow>
     k < length (tm_types s) \<and> tm_types s ! k = e_ty e)"

definition keeps_types :: "(position \<times> node) list \<Rightarrow> (temporaries \<Rightarrow> temporaries option) \<Rightarrow> bool" where
  "keeps_types ns f \<longleftrightarrow> (\<forall>s t. slots_typed ns s \<longrightarrow> f s = Some t \<longrightarrow> slots_typed ns t)"

lemma slots_typed_simps [simp]:
  "slots_typed ns (s\<lparr>tm_used := u\<rparr>) = slots_typed ns s" "slots_typed ns (s\<lparr>tm_retired := r\<rparr>) = slots_typed ns s"
  "slots_typed ns (s\<lparr>tm_exits := x\<rparr>) = slots_typed ns s" "slots_typed ns (s\<lparr>tm_loop_bases := b\<rparr>) = slots_typed ns s"
  "slots_typed ns (s\<lparr>tm_answers := m\<rparr>) = slots_typed ns s"
  by (simp_all add: slots_typed_def)

lemma keeps_typesI: "(\<And>s t. slots_typed ns s \<Longrightarrow> f s = Some t \<Longrightarrow> slots_typed ns t) \<Longrightarrow> keeps_types ns f"
  by (simp add: keeps_types_def)

lemma keeps_typesD: "keeps_types ns f \<Longrightarrow> slots_typed ns s \<Longrightarrow> f s = Some t \<Longrightarrow> slots_typed ns t"
  by (simp add: keeps_types_def)

lemma keeps_both: "keeps_types ns f \<Longrightarrow> keeps_types ns g \<Longrightarrow> keeps_types ns (both f g)"
  unfolding both_def by (rule keeps_typesI) (auto simp: bind_eq_Some_conv dest: keeps_typesD)

lemma keeps_none: "keeps_types ns Some"
  by (simp add: keeps_types_def)

lemma keeps_here: "(\<And>base. keeps_types ns (f base)) \<Longrightarrow> keeps_types ns (from_here f)"
  by (simp add: keeps_types_def from_here_def)

lemma keeps_flags: "(\<And>flags. keeps_types ns (f flags)) \<Longrightarrow> keeps_types ns (with_flags q vs later f)"
proof (rule keeps_typesI)
  fix s t assume f: "\<And>flags. keeps_types ns (f flags)" and s: "slots_typed ns s" "with_flags q vs later f s = Some t"
  obtain flags l m where flags: "sibling_flags q vs later (tm_answers s) = (flags, l, m)" by (metis prod_cases3)
  then have "f flags (s\<lparr>tm_answers := m\<rparr>) = Some t" using s(2) by (simp add: with_flags_def)
  then show "slots_typed ns t" using keeps_typesD [OF f, of "s\<lparr>tm_answers := m\<rparr>"] s(1) by simp
qed

lemma keeps_branch: "keeps_types ns f \<Longrightarrow> (\<And>peak. keeps_types ns (g peak)) \<Longrightarrow> keeps_types ns (branch base f g peak)"
proof (rule keeps_typesI)
  fix s t assume fg: "keeps_types ns f" "\<And>peak. keeps_types ns (g peak)" and s: "slots_typed ns s" "branch base f g peak s = Some t"
  obtain u where u: "f (s\<lparr>tm_used := base\<rparr>) = Some u" "g (raise_peak peak (tm_used u)) u = Some t"
    using s(2) by (auto simp: branch_def bind_eq_Some_conv)
  have "slots_typed ns u" using keeps_typesD [OF fg(1) _ u(1)] s(1) by simp
  then show "slots_typed ns t" by (rule keeps_typesD [OF fg(2) _ u(2)])
qed

lemma keeps_small:
  "keeps_types ns (back_to base)" "keeps_types ns enter_loop" "keeps_types ns leave_loop" "keeps_types ns (end_branches peak)"
  "keeps_types ns (hand_over pos base)" "keeps_types ns (exit_loop pos)"
proof -
  show "keeps_types ns (back_to base)" "keeps_types ns enter_loop" "keeps_types ns leave_loop" "keeps_types ns (end_branches peak)"
    by (auto simp: keeps_types_def back_to_def enter_loop_def leave_loop_def end_branches_def)
  show "keeps_types ns (hand_over pos base)" by (auto simp: keeps_types_def hand_over_def)
  show "keeps_types ns (exit_loop pos)" by (auto simp: keeps_types_def exit_loop_def split: list.splits if_splits)
qed

lemma keeps_reserve:
  assumes "(pos, At_expr e) \<in> set ns" "distinct (map fst ns)"
  shows "keeps_types ns (reserve pos (e_ty e))"
proof (rule keeps_typesI)
  fix s t assume s: "slots_typed ns s" and run: "reserve pos (e_ty e) s = Some t"
  let ?ty = "e_ty e"
  let ?used = "count_used (tm_used s) ?ty"
  let ?grow = "?used = length (pool_of s ?ty)"
  let ?new = "if ?grow then pool_of s ?ty @ [length (tm_types s)] else pool_of s ?ty"
  let ?types = "if ?grow then tm_types s @ [?ty] else tm_types s"
  have slot: "?used < length ?new" and t: "t = s\<lparr>tm_types := ?types, tm_pools := (tm_pools s)(?ty \<mapsto> ?new),
    tm_slots := (tm_slots s)(pos \<mapsto> ?new ! ?used), tm_used := AList.update ?ty (?used + 1) (tm_used s)\<rparr>"
    using run by (auto simp: reserve_def Let_def get_nth_def split: if_splits)
  have pool: "pool_of t u = (if u = ?ty then ?new else pool_of s u)" for u by (simp add: t pool_of_def)
  have types: "tm_types t = ?types" by (simp add: t)
  have pools: "pools_ok t"
    unfolding pools_ok_def
  proof (intro allI conjI ballI)
    fix u
    have old: "distinct (pool_of s u)" "\<And>k. k \<in> set (pool_of s u) \<Longrightarrow> k < length (tm_types s) \<and> tm_types s ! k = u"
      using s by (simp_all add: pools_ok_def slots_typed_def)
    show "distinct (pool_of t u)" using old by (auto simp: pool)
    fix k assume k: "k \<in> set (pool_of t u)"
    show "k < length (tm_types t)" "tm_types t ! k = u"
      using k old(2) [of k] by (auto simp: pool types nth_append split: if_splits)
  qed
  have "k < length (tm_types t) \<and> tm_types t ! k = e_ty d" if "(p, At_expr d) \<in> set ns" "tm_slots t p = Some k" for p d k
  proof (cases "p = pos")
    case True
    then have "d = e" using that(1) assms eq_key_imp_eq_value by fastforce
    moreover have "k = ?new ! ?used" using that(2) True by (simp add: t)
    then have "k \<in> set (pool_of t ?ty)" using nth_mem [OF slot] by (simp only: pool refl if_True)
    ultimately show ?thesis using pools by (simp add: pools_ok_def)
  next
    case False
    then have "tm_slots s p = Some k" using that(2) by (simp add: t)
    then have "k < length (tm_types s) \<and> tm_types s ! k = e_ty d" using s that(1) unfolding slots_typed_def by blast
    then show ?thesis by (simp add: types nth_append)
  qed
  then show "slots_typed ns t" using pools by (simp add: slots_typed_def)
qed

lemma keeps_place_here:
  assumes "keeps_types ns f" "(pos, At_expr e) \<in> set ns" "distinct (map fst ns)"
  shows "keeps_types ns (place_here q e f pos protect)"
proof (rule keeps_typesI)
  fix s t assume s: "slots_typed ns s" "place_here q e f pos protect s = Some t"
  then obtain u where u: "(if protect \<and> needs_snapshot (q_program q) e then reserve pos (e_ty e) s else Some s) = Some u"
    "from_here (\<lambda>base. both f (hand_over pos base)) u = Some t"
    by (auto simp: place_here_def bind_eq_Some_conv)
  have "slots_typed ns u" using u(1) s(1) keeps_reserve [OF assms(2,3)] by (auto simp: keeps_types_def split: if_splits)
  moreover have "keeps_types ns (from_here (\<lambda>base. both f (hand_over pos base)))"
    by (intro keeps_here keeps_both assms(1) keeps_small)
  ultimately show "slots_typed ns t" using u(2) by (simp add: keeps_types_def)
qed

lemma place_keeps:
  assumes "distinct (map fst ns)"
  shows "set (nodes_expr e pos) \<subseteq> set ns \<Longrightarrow> keeps_types ns (place_expr q e pos protect)"
    "set (nodes_kind kind pos) \<subseteq> set ns \<Longrightarrow> keeps_types ns (place_kind q kind pos)"
    "set (nodes_exprs es k pos) \<subseteq> set ns \<Longrightarrow> keeps_types ns (place_exprs q es k pos flags)"
    "set (nodes_fields fs k pos) \<subseteq> set ns \<Longrightarrow> keeps_types ns (place_fields q fs k pos flags)"
    "set (nodes_arms arms k pos) \<subseteq> set ns \<Longrightarrow> keeps_types ns (place_arms q arms k pos base peak)"
    "set (nodes_block b pos) \<subseteq> set ns \<Longrightarrow> keeps_types ns (place_block q b pos)"
    "set (nodes_stmts ss k pos) \<subseteq> set ns \<Longrightarrow> keeps_types ns (place_stmts q ss k pos base)"
    "set (nodes_stmt sk pos) \<subseteq> set ns \<Longrightarrow> keeps_types ns (place_stmt q sk pos)"
proof (induction q e and q kind and q es and q fs and q arms and q b and q ss and q sk
    arbitrary: pos protect and pos and k pos flags and k pos flags and k pos base peak and pos and k pos base and pos
    rule: place_expr_place_kind_place_exprs_place_fields_place_arms_place_block_place_stmts_place_stmt.induct,
    goal_cases)
  case (1 q kind t span pos protect)
  show ?case using keeps_place_here [OF 1(1) _ assms] 1(2) by simp
qed (simp_all add: keeps_none keeps_small keeps_here keeps_flags keeps_both keeps_branch)

end
