(* ===== verification/Reach.thy ===== *)
theory Reach
  imports Walk "HOL-Library.Product_Lexorder"
begin

text \<open>
  The closed world of a native program (\<open>compiler/src/codegen/llvm.rs\<close>: \<open>reachable_functions\<close>): the
  functions, witness tables and method slots that the roots can reach.
\<close>

section \<open>The order of types\<close>

text \<open>The derived \<open>Ord\<close> of \<open>Type\<close>: the constructor first, then its index.\<close>

definition ty_key :: "ty \<Rightarrow> nat \<times> nat" where
  "ty_key t = (case t of
       TInt \<Rightarrow> (0, 0) | TFloat \<Rightarrow> (1, 0) | TBool \<Rightarrow> (2, 0) | TText \<Rightarrow> (3, 0) | TBytes \<Rightarrow> (4, 0)
     | TList i \<Rightarrow> (5, i) | TDyn i \<Rightarrow> (6, i) | TFunction i \<Rightarrow> (7, i) | TUnit \<Rightarrow> (8, 0) | TData i \<Rightarrow> (9, i)
     | TParameter i \<Rightarrow> (10, i))"

lemma ty_key_inject: "ty_key t = ty_key u \<longleftrightarrow> t = u"
  by (cases t; cases u) (simp_all add: ty_key_def)

instantiation ty :: linorder
begin

definition less_eq_ty :: "ty \<Rightarrow> ty \<Rightarrow> bool" where
  "less_eq_ty t u \<longleftrightarrow> ty_key t \<le> ty_key u"

definition less_ty :: "ty \<Rightarrow> ty \<Rightarrow> bool" where
  "less_ty t u \<longleftrightarrow> ty_key t < ty_key u"

instance
  by standard (auto simp: less_eq_ty_def less_ty_def less_le_not_le ty_key_inject)

end

section \<open>What code uses\<close>

datatype (plugins only: code size) use_of = Use_function nat | Use_witness nat | Use_slot ty nat

fun uses_expr :: "expr \<Rightarrow> use_of list"
and uses_kind :: "expr_kind \<Rightarrow> use_of list"
and uses_exprs :: "expr list \<Rightarrow> use_of list"
and uses_fields :: "(nat \<times> expr) list \<Rightarrow> use_of list"
and uses_arms :: "match_arm list \<Rightarrow> use_of list"
and uses_block :: "block \<Rightarrow> use_of list"
and uses_stmts :: "stmt list \<Rightarrow> use_of list"
and uses_stmt :: "stmt_kind \<Rightarrow> use_of list" where
  "uses_expr (Expr kind _ _) = uses_kind kind"
| "uses_kind (EUnary _ e) = uses_expr e"
| "uses_kind (EField e _) = uses_expr e"
| "uses_kind (ECoerce e) = uses_expr e"
| "uses_kind (EDynBox w e) = Use_witness w # uses_expr e"
| "uses_kind (EDynCall receiver slot args) = Use_slot (e_ty receiver) slot # uses_expr receiver @ uses_exprs args"
| "uses_kind (EBinary _ a b) = uses_expr a @ uses_expr b"
| "uses_kind (ECall f args) = Use_function f # uses_exprs args"
| "uses_kind (EFunctionRef f) = [Use_function f]"
| "uses_kind (EClosure f e) = Use_function f # uses_expr e"
| "uses_kind (EIndirectCall callee args) = uses_expr callee @ uses_exprs args"
| "uses_kind (EPrimitive _ args) = uses_exprs args"
| "uses_kind (EList args) = uses_exprs args"
| "uses_kind (ERecord fs) = uses_fields fs"
| "uses_kind (EFrameNew fs) = uses_fields fs"
| "uses_kind (EFrameStore frame _ e) = uses_expr frame @ uses_expr e"
| "uses_kind (EVariant _ args) = uses_exprs args"
| "uses_kind (EMatch e arms) = uses_expr e @ uses_arms arms"
| "uses_kind (EBlock b) = uses_block b"
| "uses_kind (EIf e yes None) = uses_expr e @ uses_block yes"
| "uses_kind (EIf e yes (Some no)) = uses_expr e @ uses_block yes @ uses_block no"
| "uses_kind _ = []"
| "uses_exprs [] = []"
| "uses_exprs (e # es) = uses_expr e @ uses_exprs es"
| "uses_fields [] = []"
| "uses_fields ((_, e) # fs) = uses_expr e @ uses_fields fs"
| "uses_arms [] = []"
| "uses_arms (MatchArm _ _ _ b # arms) = uses_block b @ uses_arms arms"
| "uses_block (Block ss None _) = uses_stmts ss"
| "uses_block (Block ss (Some e) _) = uses_stmts ss @ uses_expr e"
| "uses_stmts [] = []"
| "uses_stmts (Stmt kind _ # ss) = uses_stmt kind @ uses_stmts ss"
| "uses_stmt (SLet _ e) = uses_expr e"
| "uses_stmt (SAssign _ e) = uses_expr e"
| "uses_stmt (SAssert e _) = uses_expr e"
| "uses_stmt (SDiscard e) = uses_expr e"
| "uses_stmt (SExpr e) = uses_expr e"
| "uses_stmt (SReturn (Some e)) = uses_expr e"
| "uses_stmt (SWhile e b) = uses_expr e @ uses_block b"
| "uses_stmt (SDefer _ b) = uses_block b"
| "uses_stmt (SCleanup _ b) = uses_block b"
| "uses_stmt _ = []"

definition function_uses :: "func \<Rightarrow> use_of list" where
  "function_uses f = concat (map uses_expr (fn_requires f)) @ uses_block (fn_body f)"

text \<open>The uses are those of the expressions that the walk of the code meets.\<close>

definition node_uses :: "expr \<Rightarrow> use_of list" where
  "node_uses e = (case e_kind e of
       EDynBox w _ \<Rightarrow> [Use_witness w]
     | EDynCall receiver slot _ \<Rightarrow> [Use_slot (e_ty receiver) slot]
     | ECall f _ \<Rightarrow> [Use_function f]
     | EFunctionRef f \<Rightarrow> [Use_function f]
     | EClosure f _ \<Rightarrow> [Use_function f]
     | _ \<Rightarrow> [])"

lemma visited_append [simp]: "visited_exprs (vs @ ws) = visited_exprs vs @ visited_exprs ws"
  by (induction vs rule: visited_exprs.induct) simp_all

lemma uses_walk:
  "uses_expr e = concat (map node_uses (visited_exprs (walk_expr e)))"
  "concat (map node_uses (visited_exprs (walk_expr (Expr k t sp)))) = uses_kind k"
  "uses_exprs es = concat (map node_uses (visited_exprs (walk_exprs es)))"
  "uses_fields fs = concat (map node_uses (visited_exprs (walk_fields fs)))"
  "uses_arms arms = concat (map node_uses (visited_exprs (walk_arms arms)))"
  "uses_block b = concat (map node_uses (visited_exprs (walk_block b)))"
  "uses_stmts ss = concat (map node_uses (visited_exprs (walk_stmts ss)))"
  "uses_stmt st = concat (map node_uses (visited_exprs (walk_stmt st)))"
  by (induction e and k and es and fs and arms and b and ss and st
      rule: uses_expr_uses_kind_uses_exprs_uses_fields_uses_arms_uses_block_uses_stmts_uses_stmt.induct)
    (simp_all add: node_uses_def)

lemma function_uses_expressions:
  "function_uses f = concat (map node_uses (function_expressions f))"
proof -
  have "concat (map uses_expr es) = concat (map node_uses (concat (map expressions es)))" for es
    by (induction es) (simp_all add: expressions_def uses_walk(1))
  then show ?thesis
    by (simp add: function_uses_def function_expressions_def block_expressions_def uses_walk(6))
qed

section \<open>The closure\<close>

record reach =
  rc_functions :: "nat set"
  rc_pending :: "nat list"           \<comment> \<open>the last one is taken first\<close>
  rc_witnesses :: "nat set"
  rc_pending_witnesses :: "nat list"
  rc_slots :: "(ty \<times> nat) set"

definition add_use :: "use_of \<Rightarrow> reach \<Rightarrow> reach" where
  "add_use u s = (case u of
       Use_function f \<Rightarrow> s\<lparr>rc_pending := rc_pending s @ [f]\<rparr>
     | Use_witness w \<Rightarrow> s\<lparr>rc_pending_witnesses := rc_pending_witnesses s @ [w]\<rparr>
     | Use_slot t i \<Rightarrow> s\<lparr>rc_slots := insert (t, i) (rc_slots s)\<rparr>)"

text \<open>The pending functions, until there are none.\<close>

definition visit_function :: "program \<Rightarrow> nat \<Rightarrow> reach \<Rightarrow> reach result" where
  "visit_function p i s =
     bindE (ok_or (get_nth (p_functions p) i) (Rejected ''invalid checked function ID'')) (\<lambda>f.
     Inr (fold add_use (function_uses f) (s\<lparr>rc_functions := insert i (rc_functions s)\<rparr>)))"

lemma fold_add_use_keeps [simp]:
  "rc_functions (fold add_use us s) = rc_functions s"
  "rc_witnesses (fold add_use us s) = rc_witnesses s"
proof -
  have "rc_functions (add_use u s) = rc_functions s \<and> rc_witnesses (add_use u s) = rc_witnesses s" for u s
    by (cases u) (simp_all add: add_use_def)
  then show "rc_functions (fold add_use us s) = rc_functions s" "rc_witnesses (fold add_use us s) = rc_witnesses s"
    by (induction us arbitrary: s) simp_all
qed

lemma visit_function_Inr:
  "visit_function p i s = Inr s' \<longleftrightarrow> i < length (p_functions p)
     \<and> s' = fold add_use (function_uses (p_functions p ! i)) (s\<lparr>rc_functions := insert i (rc_functions s)\<rparr>)"
  by (auto simp: visit_function_def)

definition unreached :: "program \<Rightarrow> nat set \<Rightarrow> nat" where
  "unreached p R = card ({..<length (p_functions p)} - R)"

lemma unreached_less: "i < length (p_functions p) \<Longrightarrow> i \<notin> R \<Longrightarrow> R \<subseteq> S \<Longrightarrow> i \<in> S \<Longrightarrow> unreached p S < unreached p R"
  unfolding unreached_def by (rule psubset_card_mono) auto

function drain_functions :: "program \<Rightarrow> reach \<Rightarrow> reach result" where
  "drain_functions p s =
     (if rc_pending s = [] then Inr s
      else
        let i = last (rc_pending s); s = s\<lparr>rc_pending := butlast (rc_pending s)\<rparr> in
        if i \<in> rc_functions s then drain_functions p s
        else (case visit_function p i s of Inl e \<Rightarrow> Inl e | Inr s \<Rightarrow> drain_functions p s))"
  by pat_completeness auto

termination
proof (relation "measures [\<lambda>(p, s). unreached p (rc_functions s), \<lambda>(p, s). length (rc_pending s)]", goal_cases)
  case (3 p s i t u)
  then show ?case by (auto simp: visit_function_Inr intro!: unreached_less)
qed simp_all

declare drain_functions.simps [simp del]

text \<open>The pending witnesses; a library keeps every method of a table that it builds.\<close>

definition visit_witness :: "program \<Rightarrow> bool \<Rightarrow> nat \<Rightarrow> reach \<Rightarrow> reach result" where
  "visit_witness p library i s =
     (if i \<in> rc_witnesses s then Inr s
      else
        let s = s\<lparr>rc_witnesses := insert i (rc_witnesses s)\<rparr> in
        bindE (ok_or (get_nth (p_witnesses p) i) (Rejected ''invalid checked witness ID'')) (\<lambda>w.
        if library \<and> None \<in> set (wit_methods w)
        then Inl (Rejected ''exported witness tables must retain every method'')
        else if library
        then Inr (s\<lparr>rc_slots := rc_slots s \<union> (\<lambda>slot. (TDyn (wit_interface w), slot)) ` {..<length (wit_methods w)}\<rparr>)
        else Inr s))"

definition drain_witnesses :: "program \<Rightarrow> bool \<Rightarrow> reach \<Rightarrow> reach result" where
  "drain_witnesses p library s =
     foldE (visit_witness p library) (rev (rc_pending_witnesses s)) (s\<lparr>rc_pending_witnesses := []\<rparr>)"

text \<open>A slot that is called activates the method of every live witness of its interface.\<close>

definition activate_witness :: "program \<Rightarrow> nat \<Rightarrow> nat \<Rightarrow> nat \<Rightarrow> reach \<Rightarrow> reach result" where
  "activate_witness p interface slot i s =
     bindE (idx (p_witnesses p) i) (\<lambda>w.
     if wit_interface w \<noteq> interface then Inr s
     else
       bindE (ok_or (Option.bind (get_nth (wit_methods w) slot) id)
         (Rejected ''reachable dyn call refers to an absent witness method'')) (\<lambda>target.
       Inr (if target \<in> rc_functions s then s else s\<lparr>rc_pending := rc_pending s @ [target]\<rparr>)))"

definition activate_slot :: "program \<Rightarrow> ty \<times> nat \<Rightarrow> reach \<Rightarrow> reach result" where
  "activate_slot p = (\<lambda>(t, slot) s.
     case t of
       TDyn interface \<Rightarrow>
         bindE (ok_or (Option.bind (get_nth (p_interfaces p) interface) (\<lambda>methods. get_nth methods slot))
           (Rejected ''invalid checked dyn method slot'')) (\<lambda>_.
         foldE (activate_witness p interface slot) (sorted_list_of_set (rc_witnesses s)) s)
     | _ \<Rightarrow> Inl (Rejected ''invalid dyn receiver type''))"

definition activate_slots :: "program \<Rightarrow> reach \<Rightarrow> reach result" where
  "activate_slots p s = foldE (activate_slot p) (sorted_list_of_set (rc_slots s)) s"

definition reach_round :: "program \<Rightarrow> bool \<Rightarrow> reach \<Rightarrow> reach result" where
  "reach_round p library s =
     bindE (drain_functions p s) (\<lambda>s. bindE (drain_witnesses p library s) (activate_slots p))"


section \<open>What the rounds keep\<close>

text \<open>What a state knows: what was visited and what is pending.\<close>

definition known :: "reach \<Rightarrow> use_of set" where
  "known s = Use_function ` (rc_functions s \<union> set (rc_pending s))
     \<union> Use_witness ` (rc_witnesses s \<union> set (rc_pending_witnesses s)) \<union> (\<lambda>(t, i). Use_slot t i) ` rc_slots s"

lemma known_iff [simp]:
  "Use_function i \<in> known s \<longleftrightarrow> i \<in> rc_functions s \<or> i \<in> set (rc_pending s)"
  "Use_witness w \<in> known s \<longleftrightarrow> w \<in> rc_witnesses s \<or> w \<in> set (rc_pending_witnesses s)"
  "Use_slot t n \<in> known s \<longleftrightarrow> (t, n) \<in> rc_slots s"
  by (auto simp: known_def)

lemma known_add_use: "known (fold add_use us s) = known s \<union> set us"
proof -
  have "known (add_use u s) = insert u (known s)" for u s
    by (cases u) (auto simp: add_use_def known_def)
  then show ?thesis by (induction us arbitrary: s) auto
qed

lemma pending_add_use: "set (rc_pending s) \<subseteq> set (rc_pending (fold add_use us s))"
proof (induction us arbitrary: s)
  case (Cons u us)
  have "set (rc_pending s) \<subseteq> set (rc_pending (add_use u s))" by (cases u) (auto simp: add_use_def)
  then show ?case using Cons [of "add_use u s"] by auto
qed simp

lemma known_insert: "known (s\<lparr>rc_functions := insert i (rc_functions s)\<rparr>) = insert (Use_function i) (known s)"
  by (auto simp: known_def)

lemma known_pop:
  assumes "rc_pending s \<noteq> []"
  shows "known s = insert (Use_function (last (rc_pending s))) (known (s\<lparr>rc_pending := butlast (rc_pending s)\<rparr>))"
proof -
  have "set (rc_pending s) = insert (last (rc_pending s)) (set (butlast (rc_pending s)))"
    using arg_cong [OF append_butlast_last_id [OF assms], of set] by simp
  then show ?thesis by (auto simp: known_def)
qed

text \<open>Code that was visited has all its uses known.\<close>

definition code_closed :: "program \<Rightarrow> reach \<Rightarrow> bool" where
  "code_closed p s \<longleftrightarrow> (\<forall>i \<in> rc_functions s. i < length (p_functions p) \<and> set (function_uses (p_functions p ! i)) \<subseteq> known s)"

definition tables_closed :: "program \<Rightarrow> bool \<Rightarrow> reach \<Rightarrow> bool" where
  "tables_closed p library s \<longleftrightarrow> (\<forall>w \<in> rc_witnesses s. w < length (p_witnesses p)
     \<and> (library \<longrightarrow> (\<forall>n < length (wit_methods (p_witnesses p ! w)). Use_slot (TDyn (wit_interface (p_witnesses p ! w))) n \<in> known s)))"

definition reach_grows :: "reach \<Rightarrow> reach \<Rightarrow> bool" where
  "reach_grows s s' \<longleftrightarrow> rc_functions s \<subseteq> rc_functions s' \<and> known s \<subseteq> known s'"

text \<open>The three ways in which the loop goes on.\<close>

abbreviation popped :: "reach \<Rightarrow> reach" where
  "popped s \<equiv> s\<lparr>rc_pending := butlast (rc_pending s)\<rparr>"

lemma drain_functions_induct [consumes 1, case_names finished skipped visited]:
  assumes "drain_functions p s = Inr s'"
    and finished: "\<And>s. rc_pending s = [] \<Longrightarrow> s' = s \<Longrightarrow> Q s"
    and skipped: "\<And>s i. rc_pending s \<noteq> [] \<Longrightarrow> i = last (rc_pending s) \<Longrightarrow> i \<in> rc_functions s \<Longrightarrow>
      known (popped s) = known s \<Longrightarrow> set (rc_pending s) = insert i (set (rc_pending (popped s))) \<Longrightarrow> Q (popped s) \<Longrightarrow> Q s"
    and visited: "\<And>s i u. rc_pending s \<noteq> [] \<Longrightarrow> i = last (rc_pending s) \<Longrightarrow> i \<notin> rc_functions s \<Longrightarrow>
      i < length (p_functions p) \<Longrightarrow> rc_functions u = insert i (rc_functions s) \<Longrightarrow> rc_witnesses u = rc_witnesses s \<Longrightarrow>
      known u = known s \<union> set (function_uses (p_functions p ! i)) \<Longrightarrow> set (rc_pending s) \<subseteq> insert i (set (rc_pending u)) \<Longrightarrow>
      Q u \<Longrightarrow> Q s"
  shows "Q s"
  using assms(1)
proof (induction p\<equiv>p s rule: drain_functions.induct)
  case (1 s)
  let ?i = "last (rc_pending s)"
  show ?case
  proof (cases "rc_pending s = []")
    case True
    then show ?thesis using finished 1(3) by (simp add: drain_functions.simps [of p s])
  next
    case False
    note pop = known_pop [OF False]
    have elems: "set (rc_pending s) = insert ?i (set (butlast (rc_pending s)))"
      using arg_cong [OF append_butlast_last_id [OF False], of set] by simp
    show ?thesis
    proof (cases "?i \<in> rc_functions s")
      case True
      have run: "drain_functions p (popped s) = Inr s'"
        using 1(3) False True by (simp add: drain_functions.simps [of p s] Let_def)
      have "Q (popped s)" using 1(1) [OF False refl refl _ run] True by simp
      moreover have "known (popped s) = known s" using True unfolding pop by auto
      ultimately show ?thesis using skipped [OF False refl True] elems by simp
    next
      case out: False
      obtain u where u: "visit_function p ?i (popped s) = Inr u" and run: "drain_functions p u = Inr s'"
        using 1(3) False out by (auto simp: drain_functions.simps [of p s] Let_def split: sum.splits)
      note visit = u [unfolded visit_function_Inr]
      have "Q u" using 1(2) [OF False refl refl _ u run] out by simp
      moreover have "known u = known s \<union> set (function_uses (p_functions p ! ?i))"
        unfolding conjunct2 [OF visit] known_add_use known_insert pop by simp
      moreover have "set (butlast (rc_pending s)) \<subseteq> set (rc_pending u)"
        using pending_add_use [of "(popped s)\<lparr>rc_functions := insert ?i (rc_functions (popped s))\<rparr>"] visit by simp
      ultimately show ?thesis using visited [OF False refl out, of u] visit elems by auto
    qed
  qed
qed

lemma drain_functions_grows:
  assumes "drain_functions p s = Inr s'"
  shows "rc_functions s \<union> set (rc_pending s) \<subseteq> rc_functions s' \<and> rc_pending s' = [] \<and> known s \<subseteq> known s'
    \<and> rc_witnesses s' = rc_witnesses s \<and> rc_functions s' \<subseteq> rc_functions s \<union> {..<length (p_functions p)}"
  using assms by (induction rule: drain_functions_induct) auto

lemma drain_functions_closed:
  assumes "drain_functions p s = Inr s'" "code_closed p s"
  shows "code_closed p s'"
  using assms
proof (induction rule: drain_functions_induct)
  case (visited s i u)
  then have "code_closed p u" by (auto simp: code_closed_def)
  then show ?case by (rule visited)
qed (simp_all add: code_closed_def)

lemma drain_functions_ok:
  assumes "drain_functions p s = Inr s'" "code_closed p s"
  shows "reach_grows s s' \<and> code_closed p s' \<and> rc_pending s' = [] \<and> rc_witnesses s' = rc_witnesses s
    \<and> set (rc_pending s) \<subseteq> rc_functions s'"
  using drain_functions_grows [OF assms(1)] drain_functions_closed [OF assms] by (simp add: reach_grows_def)

text \<open>Draining the witnesses changes no function and no pending function.\<close>

lemma visit_witness_ok:
  assumes "visit_witness p library w s = Inr s'" "tables_closed p library s"
  shows "tables_closed p library s' \<and> rc_functions s' = rc_functions s \<and> rc_pending s' = rc_pending s
    \<and> rc_pending_witnesses s' = rc_pending_witnesses s
    \<and> rc_witnesses s' = insert w (rc_witnesses s) \<and> rc_slots s \<subseteq> rc_slots s'"
  using assms by (auto simp: visit_witness_def Let_def tables_closed_def insert_absorb split: if_splits)

lemma visit_witnesses_ok:
  assumes "foldE (visit_witness p library) ws s = Inr s'" "tables_closed p library s"
  shows "tables_closed p library s' \<and> rc_functions s' = rc_functions s \<and> rc_pending s' = rc_pending s
    \<and> rc_pending_witnesses s' = rc_pending_witnesses s
    \<and> rc_witnesses s' = set ws \<union> rc_witnesses s \<and> rc_slots s \<subseteq> rc_slots s'"
  using assms
proof (induction ws arbitrary: s)
  case (Cons w ws)
  then obtain u where u: "visit_witness p library w s = Inr u" "foldE (visit_witness p library) ws u = Inr s'" by auto
  note one = visit_witness_ok [OF u(1) Cons.prems(2)]
  from Cons.IH [OF u(2) conjunct1 [OF one]] one show ?case by auto
qed simp

lemma drain_witnesses_ok:
  assumes "drain_witnesses p library s = Inr s'" "tables_closed p library s" "code_closed p s"
  shows "tables_closed p library s' \<and> code_closed p s' \<and> rc_functions s' = rc_functions s \<and> rc_pending s' = rc_pending s
    \<and> rc_pending_witnesses s' = [] \<and> known s \<subseteq> known s'"
proof -
  have "tables_closed p library (s\<lparr>rc_pending_witnesses := []\<rparr>)" using assms(2) by (simp add: tables_closed_def)
  note all = visit_witnesses_ok [OF assms(1) [unfolded drain_witnesses_def] this]
  then have "known s \<subseteq> known s'" by (auto simp: known_def)
  then show ?thesis using all assms(3) by (auto simp: code_closed_def)
qed

text \<open>Activating a slot only adds functions that were not visited yet.\<close>

definition adds_targets :: "program \<Rightarrow> reach \<Rightarrow> reach \<Rightarrow> bool" where
  "adds_targets p s s' \<longleftrightarrow> (\<exists>new. s' = s\<lparr>rc_pending := rc_pending s @ new\<rparr> \<and> set new \<inter> rc_functions s = {})"

lemma adds_refl: "adds_targets p s s"
  unfolding adds_targets_def by (rule exI [of _ "[]"]) simp

lemma adds_trans: "adds_targets p s t \<Longrightarrow> adds_targets p t u \<Longrightarrow> adds_targets p s u"
  unfolding adds_targets_def
proof (elim exE conjE)
  fix new newer
  assume "t = s\<lparr>rc_pending := rc_pending s @ new\<rparr>" "set new \<inter> rc_functions s = {}"
    "u = t\<lparr>rc_pending := rc_pending t @ newer\<rparr>" "set newer \<inter> rc_functions t = {}"
  then show "\<exists>new. u = s\<lparr>rc_pending := rc_pending s @ new\<rparr> \<and> set new \<inter> rc_functions s = {}"
    by (intro exI [of _ "new @ newer"]) auto
qed

lemma foldE_adds:
  assumes "foldE f xs s = Inr s'" and "\<And>x s s'. x \<in> set xs \<Longrightarrow> f x s = Inr s' \<Longrightarrow> adds_targets p s s'"
  shows "adds_targets p s s'"
  by (rule foldE_invariant [OF assms(1), where P = "adds_targets p s"]) (auto intro: adds_refl adds_trans assms(2))

definition method_of :: "program \<Rightarrow> nat \<Rightarrow> nat \<Rightarrow> nat \<Rightarrow> nat \<Rightarrow> bool" where
  "method_of p interface slot w target \<longleftrightarrow> w < length (p_witnesses p) \<and> wit_interface (p_witnesses p ! w) = interface
     \<and> get_nth (wit_methods (p_witnesses p ! w)) slot = Some (Some target)"

lemma bind_present: "Option.bind x id = Some y \<longleftrightarrow> x = Some (Some y)"
  by (cases x) auto

lemma activate_witness_ok:
  assumes "activate_witness p interface slot w s = Inr s'"
  shows "adds_targets p s s'" "method_of p interface slot w target \<Longrightarrow> Use_function target \<in> known s'"
    "known s' \<subseteq> known s \<union> {Use_function target | target. method_of p interface slot w target}"
proof -
  show "adds_targets p s s'"
    using assms by (auto simp: activate_witness_def adds_targets_def split: if_splits
        intro: exI [of _ "[]"] exI [of _ "[target]" for target])
  show "Use_function target \<in> known s'" if "method_of p interface slot w target"
    using assms that by (auto simp: activate_witness_def method_of_def bind_present simp del: get_nth_eq_Some split: if_splits)
  show "known s' \<subseteq> known s \<union> {Use_function target | target. method_of p interface slot w target}"
    using assms by (auto simp: activate_witness_def method_of_def known_def bind_present simp del: get_nth_eq_Some split: if_splits)
qed

lemma adds_known: "adds_targets p s s' \<Longrightarrow> known s \<subseteq> known s'"
  by (auto simp: adds_targets_def known_def)

lemma adds_same:
  "adds_targets p s s' \<Longrightarrow> rc_functions s' = rc_functions s \<and> rc_witnesses s' = rc_witnesses s \<and> rc_slots s' = rc_slots s
     \<and> rc_pending_witnesses s' = rc_pending_witnesses s"
  by (auto simp: adds_targets_def)

lemma foldE_collects:
  assumes "foldE f xs s = Inr s'" and "\<And>x s s'. x \<in> set xs \<Longrightarrow> f x s = Inr s' \<Longrightarrow> adds_targets p s s' \<and> N x \<subseteq> known s'"
    and "x \<in> set xs"
  shows "N x \<subseteq> known s'"
  using assms
proof (induction xs arbitrary: s)
  case (Cons y xs)
  then obtain t where t: "f y s = Inr t" "foldE f xs t = Inr s'" by auto
  have rest: "adds_targets p t s'" by (rule foldE_adds [OF t(2)]) (use Cons.prems(2) in auto)
  show ?case
  proof (cases "x = y")
    case True
    then show ?thesis using Cons.prems(2) [of y s t] t(1) adds_known [OF rest] by auto
  next
    case False
    then show ?thesis using Cons.IH [OF t(2)] Cons.prems(2,3) by auto
  qed
qed simp

lemma foldE_bounded:
  assumes "foldE f xs s = Inr s'" and "\<And>x s s'. x \<in> set xs \<Longrightarrow> f x s = Inr s' \<Longrightarrow> known s' \<subseteq> known s \<union> N"
  shows "known s' \<subseteq> known s \<union> N"
  by (rule foldE_invariant [OF assms(1), where P = "\<lambda>t. known t \<subseteq> known s \<union> N"]) (use assms(2) in blast)+

lemma activate_slot_ok:
  assumes "activate_slot p (t, slot) s = Inr s'" "finite (rc_witnesses s)"
  shows "adds_targets p s s'"
    "t = TDyn interface \<Longrightarrow> w \<in> rc_witnesses s \<Longrightarrow> method_of p interface slot w target \<Longrightarrow> Use_function target \<in> known s'"
    "known s' \<subseteq> known s \<union> {Use_function target | target interface w. t = TDyn interface \<and> w \<in> rc_witnesses s \<and> method_of p interface slot w target}"
proof -
  obtain i where t: "t = TDyn i" and run: "foldE (activate_witness p i slot) (sorted_list_of_set (rc_witnesses s)) s = Inr s'"
    using assms(1) by (auto simp: activate_slot_def split: ty.splits)
  show "adds_targets p s s'" by (rule foldE_adds [OF run activate_witness_ok(1)])
  show "Use_function target \<in> known s'"
    if "t = TDyn interface" "w \<in> rc_witnesses s" "method_of p interface slot w target"
  proof -
    have "{Use_function target |target. method_of p i slot w target} \<subseteq> known s'"
      by (rule foldE_collects [OF run, where p = p]) (use activate_witness_ok(1,2) that(2) assms(2) in \<open>blast | simp\<close>)+
    then show ?thesis using that t by blast
  qed
  show "known s' \<subseteq> known s \<union> {Use_function target | target interface w. t = TDyn interface \<and> w \<in> rc_witnesses s \<and> method_of p interface slot w target}"
    by (rule foldE_bounded [OF run]) (use activate_witness_ok(3) t assms(2) in fastforce)
qed


text \<open>The methods that a slot activates.\<close>

definition slot_targets :: "program \<Rightarrow> nat set \<Rightarrow> ty \<times> nat \<Rightarrow> use_of set" where
  "slot_targets p W e = {Use_function target | target interface w.
     fst e = TDyn interface \<and> w \<in> W \<and> method_of p interface (snd e) w target}"

lemma activate_slot_targets:
  assumes "activate_slot p e s = Inr s'" "finite (rc_witnesses s)"
  shows "adds_targets p s s'" "slot_targets p (rc_witnesses s) e \<subseteq> known s'"
    "known s' \<subseteq> known s \<union> slot_targets p (rc_witnesses s) e"
proof -
  obtain t slot where e: "e = (t, slot)" by force
  note one = activate_slot_ok [OF assms(1) [unfolded e] assms(2)]
  show "adds_targets p s s'" by (rule one(1))
  show "slot_targets p (rc_witnesses s) e \<subseteq> known s'" using one(2) by (auto simp: slot_targets_def e)
  show "known s' \<subseteq> known s \<union> slot_targets p (rc_witnesses s) e" using one(3) by (simp add: slot_targets_def e)
qed

lemma activate_list_ok:
  assumes "foldE (activate_slot p) es s = Inr s'" "finite (rc_witnesses s)"
  shows "adds_targets p s s' \<and> (\<forall>e \<in> set es. slot_targets p (rc_witnesses s) e \<subseteq> known s')
    \<and> known s' \<subseteq> known s \<union> (\<Union>e \<in> set es. slot_targets p (rc_witnesses s) e)"
  using assms
proof (induction es arbitrary: s)
  case (Cons e es)
  obtain u where u: "activate_slot p e s = Inr u" "foldE (activate_slot p) es u = Inr s'"
    using Cons.prems(1) by auto
  note one = activate_slot_targets [OF u(1) Cons.prems(2)]
  have same: "rc_witnesses u = rc_witnesses s" using adds_same [OF one(1)] by simp
  note rest = Cons.IH [OF u(2), unfolded same, OF Cons.prems(2)]
  have "adds_targets p s s'" using adds_trans [OF one(1) conjunct1 [OF rest]] .
  moreover have "slot_targets p (rc_witnesses s) e \<subseteq> known s'"
    using one(2) adds_known [OF conjunct1 [OF rest]] by blast
  moreover have "known s' \<subseteq> known s \<union> (\<Union>e \<in> set (e # es). slot_targets p (rc_witnesses s) e)"
    using rest one(3) by (simp add: Un_assoc) blast
  ultimately show ?case using rest by simp
qed (simp add: adds_refl)

lemma activate_slots_ok:
  assumes "activate_slots p s = Inr s'" "finite (rc_witnesses s)" "finite (rc_slots s)"
  shows "adds_targets p s s'" "e \<in> rc_slots s \<Longrightarrow> slot_targets p (rc_witnesses s) e \<subseteq> known s'"
    "known s' \<subseteq> known s \<union> (\<Union>e \<in> rc_slots s. slot_targets p (rc_witnesses s) e)"
  using activate_list_ok [OF assms(1) [unfolded activate_slots_def] assms(2)] assms(3) by auto

text \<open>A property of what is known that the uses of known code keep.\<close>

lemma drain_functions_known:
  assumes step: "\<And>i K. P K \<Longrightarrow> Use_function i \<in> K \<Longrightarrow> i < length (p_functions p)
      \<Longrightarrow> P (K \<union> set (function_uses (p_functions p ! i)))"
    and run: "drain_functions p s = Inr s'" and "P (known s)"
  shows "P (known s')"
  using run assms(3)
proof (induction rule: drain_functions_induct)
  case (visited s i u)
  then have "Use_function i \<in> known s" by simp
  then show ?case using visited step [of "known s" i] by simp
qed simp_all

lemma visit_witnesses_known:
  assumes step: "\<And>w n K. P K \<Longrightarrow> Use_witness w \<in> K \<Longrightarrow> w < length (p_witnesses p) \<Longrightarrow> library \<Longrightarrow>
      P (K \<union> (\<lambda>n. Use_slot (TDyn (wit_interface (p_witnesses p ! w))) n) ` {..<length (wit_methods (p_witnesses p ! w))})"
    and "foldE (visit_witness p library) ws s = Inr s'" "P (known s \<union> Use_witness ` set ws)"
  shows "P (known s')"
  using assms(2,3)
proof (induction ws arbitrary: s)
  case (Cons w ws)
  then obtain u where u: "visit_witness p library w s = Inr u" "foldE (visit_witness p library) ws u = Inr s'" by auto
  have "P (known u \<union> Use_witness ` set ws)"
  proof (cases "library \<and> w \<notin> rc_witnesses s")
    case True
    let ?slots = "(\<lambda>n. Use_slot (TDyn (wit_interface (p_witnesses p ! w))) n) ` {..<length (wit_methods (p_witnesses p ! w))}"
    have "known u = insert (Use_witness w) (known s) \<union> ?slots" and range: "w < length (p_witnesses p)"
      using u(1) True by (auto simp: visit_witness_def Let_def known_def split: if_splits)
    then have "known u \<union> Use_witness ` set ws = known s \<union> Use_witness ` set (w # ws) \<union> ?slots" by auto
    then show ?thesis using step [OF Cons.prems(2) _ range] True by simp
  next
    case False
    have "known u = insert (Use_witness w) (known s)"
      using u(1) False by (auto simp: visit_witness_def Let_def known_def split: if_splits)
    then have "known u \<union> Use_witness ` set ws = known s \<union> Use_witness ` set (w # ws)" by auto
    then show ?thesis using Cons.prems(2) by simp
  qed
  then show ?case by (rule Cons.IH [OF u(2)])
qed simp

lemma drain_witnesses_known:
  assumes "\<And>w n K. P K \<Longrightarrow> Use_witness w \<in> K \<Longrightarrow> w < length (p_witnesses p) \<Longrightarrow> library \<Longrightarrow>
      P (K \<union> (\<lambda>n. Use_slot (TDyn (wit_interface (p_witnesses p ! w))) n) ` {..<length (wit_methods (p_witnesses p ! w))})"
    and "drain_witnesses p library s = Inr s'" "P (known s)"
  shows "P (known s')"
proof -
  have "known (s\<lparr>rc_pending_witnesses := []\<rparr>) \<union> Use_witness ` set (rev (rc_pending_witnesses s)) = known s"
    by (auto simp: known_def)
  then show ?thesis
    using visit_witnesses_known [where P = P, OF assms(1) assms(2) [unfolded drain_witnesses_def]] assms(3) by simp
qed

section \<open>The loop\<close>

definition reach_ok :: "program \<Rightarrow> bool \<Rightarrow> reach \<Rightarrow> bool" where
  "reach_ok p library s \<longleftrightarrow> code_closed p s \<and> tables_closed p library s \<and> finite (known s)"

lemma finite_parts:
  assumes "finite (known s)"
  shows "finite (rc_witnesses s)" "finite (rc_slots s)" "finite (rc_functions s)"
proof -
  have "finite (Use_witness ` rc_witnesses s)" "finite (Use_function ` rc_functions s)" "finite ((\<lambda>(t, i). Use_slot t i) ` rc_slots s)"
    using assms by (auto simp: known_def image_Un)
  then show "finite (rc_witnesses s)" "finite (rc_slots s)" "finite (rc_functions s)"
    by (auto elim!: finite_imageD simp: inj_on_def)
qed

lemma tables_closed_mono:
  "tables_closed p library s \<Longrightarrow> rc_witnesses t = rc_witnesses s \<Longrightarrow> known s \<subseteq> known t \<Longrightarrow> tables_closed p library t"
  unfolding tables_closed_def by (metis subsetD)

lemma code_closed_mono: "code_closed p s \<Longrightarrow> rc_functions t = rc_functions s \<Longrightarrow> known s \<subseteq> known t \<Longrightarrow> code_closed p t"
  unfolding code_closed_def by (metis order_trans)

lemma reach_round_ok:
  assumes run: "reach_round p library s = Inr s'" and ok: "reach_ok p library s"
  shows "reach_ok p library s'" "known s \<subseteq> known s'" "rc_functions s \<union> set (rc_pending s) \<subseteq> rc_functions s'"
    "set (rc_pending s') \<inter> rc_functions s' = {}" "rc_pending_witnesses s' = []"
    "e \<in> rc_slots s' \<Longrightarrow> slot_targets p (rc_witnesses s') e \<subseteq> known s'"
proof -
  obtain t u where t: "drain_functions p s = Inr t" and u: "drain_witnesses p library t = Inr u"
    and s': "activate_slots p u = Inr s'" using run by (auto simp: reach_round_def)
  have parts: "code_closed p s" "tables_closed p library s" "finite (known s)" using ok by (simp_all add: reach_ok_def)
  note one = drain_functions_ok [OF t parts(1)]
  have "tables_closed p library t"
    by (rule tables_closed_mono [OF parts(2)]) (use one in \<open>auto simp: reach_grows_def\<close>)
  note two = drain_witnesses_ok [OF u this conjunct1 [OF conjunct2 [OF one]]]
  have fin_t: "finite (known t)" by (rule drain_functions_known [where P = finite, OF _ t parts(3)]) simp
  have fin: "finite (known u)" by (rule drain_witnesses_known [where P = finite, OF _ u fin_t]) simp
  note three = activate_slots_ok [OF s' finite_parts(1,2) [OF fin]]
  note same = adds_same [OF three(1)] and more = adds_known [OF three(1)]
  obtain new where new: "s' = u\<lparr>rc_pending := rc_pending u @ new\<rparr>" "set new \<inter> rc_functions u = {}"
    using three(1) by (auto simp: adds_targets_def)
  have "finite (known s')" using fin by (auto simp: new(1) known_def image_Un)
  moreover have "code_closed p s'" using code_closed_mono [of p u s'] two same more by blast
  moreover have "tables_closed p library s'" using tables_closed_mono [of p library u s'] two same more by blast
  ultimately show "reach_ok p library s'" by (simp add: reach_ok_def)
  show "known s \<subseteq> known s'" using one two more by (auto simp: reach_grows_def)
  show "rc_functions s \<union> set (rc_pending s) \<subseteq> rc_functions s'" using one two same by (auto simp: reach_grows_def)
  show "set (rc_pending s') \<inter> rc_functions s' = {}" using one two new by auto
  show "rc_pending_witnesses s' = []" using two same by simp
  show "slot_targets p (rc_witnesses s') e \<subseteq> known s'" if "e \<in> rc_slots s'" using three(2) that same by simp
qed

text \<open>Functions that cannot be in a program end the search with an error, so the rounds are finite.\<close>

definition open_rank :: "program \<Rightarrow> reach \<Rightarrow> nat" where
  "open_rank p s = 2 * unreached p (rc_functions s) + (if set (rc_pending s) \<subseteq> rc_functions s then 1 else 0)"


lemma activate_slots_adds:
  assumes "activate_slots p s = Inr s'"
  shows "adds_targets p s s'"
proof (rule foldE_adds [OF assms [unfolded activate_slots_def]])
  fix e t u assume run: "activate_slot p e t = Inr u"
  obtain ty slot where e: "e = (ty, slot)" by force
  obtain i where "foldE (activate_witness p i slot) (sorted_list_of_set (rc_witnesses t)) t = Inr u"
    using run by (auto simp: activate_slot_def e split: ty.splits)
  then show "adds_targets p t u" by (rule foldE_adds) (rule activate_witness_ok(1))
qed

lemma visit_witness_functions:
  "visit_witness p library w s = Inr s' \<Longrightarrow> rc_functions s' = rc_functions s \<and> rc_pending s' = rc_pending s"
  by (auto simp: visit_witness_def Let_def split: if_splits)

lemma drain_witnesses_functions:
  assumes "drain_witnesses p library s = Inr s'"
  shows "rc_functions s' = rc_functions s \<and> rc_pending s' = rc_pending s"
  by (rule foldE_invariant [OF assms [unfolded drain_witnesses_def],
        where P = "\<lambda>t. rc_functions t = rc_functions s \<and> rc_pending t = rc_pending s"])
    (auto dest: visit_witness_functions)

lemma round_functions:
  assumes "reach_round p library s = Inr s'"
  shows "rc_functions s \<union> set (rc_pending s) \<subseteq> rc_functions s'"
    "rc_functions s' \<subseteq> rc_functions s \<union> {..<length (p_functions p)}"
    "set (rc_pending s') \<inter> rc_functions s' = {}"
proof -
  obtain t u where t: "drain_functions p s = Inr t" and u: "drain_witnesses p library t = Inr u"
    and s': "activate_slots p u = Inr s'" using assms by (auto simp: reach_round_def)
  note one = drain_functions_grows [OF t] and two = drain_witnesses_functions [OF u]
  obtain new where new: "s' = u\<lparr>rc_pending := rc_pending u @ new\<rparr>" "set new \<inter> rc_functions u = {}"
    using activate_slots_adds [OF s'] by (auto simp: adds_targets_def)
  show "rc_functions s \<union> set (rc_pending s) \<subseteq> rc_functions s'"
    "rc_functions s' \<subseteq> rc_functions s \<union> {..<length (p_functions p)}"
    "set (rc_pending s') \<inter> rc_functions s' = {}"
    using one two new by auto
qed

lemma open_rank_less:
  assumes "reach_round p library s = Inr s'" "rc_pending s' \<noteq> []"
  shows "open_rank p s' < open_rank p s"
proof -
  note round = round_functions [OF assms(1)]
  have new: "\<not> set (rc_pending s') \<subseteq> rc_functions s'" using round(3) assms(2) by (cases "rc_pending s'") auto
  show ?thesis
  proof (cases "set (rc_pending s) \<subseteq> rc_functions s")
    case True
    have "unreached p (rc_functions s') \<le> unreached p (rc_functions s)"
      unfolding unreached_def by (rule card_mono) (use round(1) in auto)
    then show ?thesis using True new by (simp add: open_rank_def)
  next
    case False
    then obtain i where i: "i \<in> set (rc_pending s)" "i \<notin> rc_functions s" by blast
    then have "i \<in> rc_functions s'" "i < length (p_functions p)" using round(1,2) by auto
    with i(2) have "unreached p (rc_functions s') < unreached p (rc_functions s)" using round(1) by (intro unreached_less) auto
    then show ?thesis using False new by (simp add: open_rank_def)
  qed
qed

function reach_loop :: "program \<Rightarrow> bool \<Rightarrow> reach \<Rightarrow> reach result" where
  "reach_loop p library s =
     (case reach_round p library s of
        Inl e \<Rightarrow> Inl e
      | Inr s \<Rightarrow> if rc_pending s = [] then Inr s else reach_loop p library s)"
  by pat_completeness auto

termination
  by (relation "measure (\<lambda>(p, library, s). open_rank p s)") (simp_all add: open_rank_less)

declare reach_loop.simps [simp del]

record reachable =
  ra_functions :: "nat set"
  ra_witnesses :: "nat set"
  ra_slots :: "(ty \<times> nat) set"

definition reachable_functions :: "program \<Rightarrow> nat list \<Rightarrow> bool \<Rightarrow> reachable result" where
  "reachable_functions p roots library =
     mapE (\<lambda>s. \<lparr>ra_functions = rc_functions s, ra_witnesses = rc_witnesses s, ra_slots = rc_slots s\<rparr>)
       (reach_loop p library
         \<lparr>rc_functions = {}, rc_pending = roots, rc_witnesses = {}, rc_pending_witnesses = [], rc_slots = {}\<rparr>)"

section \<open>The closed world\<close>

text \<open>What a program can use, as the least relation: the roots, the uses of usable code, every slot of a
  table that a library exports, and the methods of usable tables at usable slots.\<close>

inductive usable :: "program \<Rightarrow> nat list \<Rightarrow> bool \<Rightarrow> use_of \<Rightarrow> bool" for p roots library where
  root: "i \<in> set roots \<Longrightarrow> usable p roots library (Use_function i)"
| code: "usable p roots library (Use_function i) \<Longrightarrow> i < length (p_functions p) \<Longrightarrow>
    u \<in> set (function_uses (p_functions p ! i)) \<Longrightarrow> usable p roots library u"
| exported: "library \<Longrightarrow> usable p roots library (Use_witness w) \<Longrightarrow> w < length (p_witnesses p) \<Longrightarrow>
    n < length (wit_methods (p_witnesses p ! w)) \<Longrightarrow>
    usable p roots library (Use_slot (TDyn (wit_interface (p_witnesses p ! w))) n)"
| invoked: "usable p roots library (Use_slot (TDyn interface) slot) \<Longrightarrow> usable p roots library (Use_witness w) \<Longrightarrow>
    method_of p interface slot w target \<Longrightarrow> usable p roots library (Use_function target)"

text \<open>Nothing but usable things becomes known.\<close>

definition sound_uses :: "program \<Rightarrow> nat list \<Rightarrow> bool \<Rightarrow> use_of set \<Rightarrow> bool" where
  "sound_uses p roots library K \<longleftrightarrow> (\<forall>u \<in> K. usable p roots library u)"

lemma round_sound:
  assumes run: "reach_round p library s = Inr s'" and sound: "sound_uses p roots library (known s)" and ok: "reach_ok p library s"
  shows "sound_uses p roots library (known s')"
proof -
  obtain t u where t: "drain_functions p s = Inr t" and u: "drain_witnesses p library t = Inr u"
    and s': "activate_slots p u = Inr s'" using run by (auto simp: reach_round_def)
  have st: "sound_uses p roots library (known t)"
    by (rule drain_functions_known [where P = "sound_uses p roots library", OF _ t sound])
      (auto simp: sound_uses_def intro: usable.code)
  have su: "sound_uses p roots library (known u)"
    by (rule drain_witnesses_known [where P = "sound_uses p roots library", OF _ u st])
      (auto simp: sound_uses_def intro: usable.exported)
  have fin_t: "finite (known t)"
    by (rule drain_functions_known [where P = finite, OF _ t]) (use ok in \<open>simp_all add: reach_ok_def\<close>)
  have fin: "finite (known u)" by (rule drain_witnesses_known [where P = finite, OF _ u fin_t]) simp
  have "usable p roots library v" if v: "v \<in> slot_targets p (rc_witnesses u) e" "e \<in> rc_slots u" for v e
  proof -
    obtain target interface w where "v = Use_function target" "fst e = TDyn interface" "w \<in> rc_witnesses u"
      "method_of p interface (snd e) w target" using v by (auto simp: slot_targets_def)
    moreover have "Use_slot (fst e) (snd e) \<in> known u" "Use_witness w \<in> known u" using v(2) calculation(3) by simp_all
    then have "usable p roots library (Use_slot (fst e) (snd e))" "usable p roots library (Use_witness w)"
      using su unfolding sound_uses_def by blast+
    ultimately show ?thesis by (metis usable.invoked)
  qed
  then show ?thesis
    using activate_slots_ok(3) [OF s' finite_parts(1,2) [OF fin]] su by (fastforce simp: sound_uses_def)
qed

lemma reach_loop_ok:
  assumes "reach_loop p library s = Inr s'" "reach_ok p library s" "sound_uses p roots library (known s)"
  shows "reach_ok p library s' \<and> sound_uses p roots library (known s') \<and> known s \<subseteq> known s'
    \<and> rc_pending s' = [] \<and> rc_pending_witnesses s' = []
    \<and> (\<forall>e \<in> rc_slots s'. slot_targets p (rc_witnesses s') e \<subseteq> known s')"
  using assms
proof (induction p library s rule: reach_loop.induct)
  case (1 p library s)
  obtain t where t: "reach_round p library s = Inr t"
    using 1(2) by (cases "reach_round p library s") (simp_all add: reach_loop.simps [of p library s])
  note round = reach_round_ok [OF t 1(3)] and sound = round_sound [OF t 1(4,3)]
  show ?case
  proof (cases "rc_pending t = []")
    case True
    then have "s' = t" using 1(2) t by (simp add: reach_loop.simps [of p library s])
    then show ?thesis using round sound True by blast
  next
    case False
    then have "reach_loop p library t = Inr s'" using 1(2) t by (simp add: reach_loop.simps [of p library s])
    from 1(1) [OF t False this round(1) sound] round(2) show ?thesis by blast
  qed
qed

lemma reachable_functions_iff:
  assumes "reachable_functions p roots library = Inr r"
  shows "i \<in> ra_functions r \<longleftrightarrow> usable p roots library (Use_function i)"
    "w \<in> ra_witnesses r \<longleftrightarrow> usable p roots library (Use_witness w)"
    "(t, n) \<in> ra_slots r \<longleftrightarrow> usable p roots library (Use_slot t n)"
    "ra_functions r \<subseteq> {..<length (p_functions p)}"
proof -
  let ?s = "\<lparr>rc_functions = {}, rc_pending = roots, rc_witnesses = {}, rc_pending_witnesses = [], rc_slots = {}\<rparr>"
  obtain s where s: "reach_loop p library ?s = Inr s"
    and r: "r = \<lparr>ra_functions = rc_functions s, ra_witnesses = rc_witnesses s, ra_slots = rc_slots s\<rparr>"
    using assms by (auto simp: reachable_functions_def)
  have "reach_ok p library ?s" "sound_uses p roots library (known ?s)"
    by (auto simp: reach_ok_def code_closed_def tables_closed_def known_def sound_uses_def intro: usable.root)
  note fin = reach_loop_ok [OF s this]
  have "usable p roots library u \<Longrightarrow> u \<in> known s" for u
  proof (induction rule: usable.induct)
    case (root i)
    then show ?case using fin by (auto simp: known_def)
  next
    case (code i u)
    then show ?case using fin by (auto simp: reach_ok_def code_closed_def)
  next
    case (exported w n)
    then show ?case using fin by (auto simp: reach_ok_def tables_closed_def)
  next
    case (invoked interface slot w target)
    then have "Use_function target \<in> slot_targets p (rc_witnesses s) (TDyn interface, slot)"
      using fin by (auto simp: slot_targets_def)
    moreover have "(TDyn interface, slot) \<in> rc_slots s" using invoked.IH(1) by simp
    ultimately show ?case using fin by blast
  qed
  moreover have "u \<in> known s \<Longrightarrow> usable p roots library u" for u using fin by (auto simp: sound_uses_def)
  ultimately have all: "u \<in> known s \<longleftrightarrow> usable p roots library u" for u by blast
  show "i \<in> ra_functions r \<longleftrightarrow> usable p roots library (Use_function i)"
    "w \<in> ra_witnesses r \<longleftrightarrow> usable p roots library (Use_witness w)"
    "(t, n) \<in> ra_slots r \<longleftrightarrow> usable p roots library (Use_slot t n)"
    using all [of "Use_function i"] all [of "Use_witness w"] all [of "Use_slot t n"] fin r by simp_all
  show "ra_functions r \<subseteq> {..<length (p_functions p)}"
    using fin r by (auto simp: reach_ok_def code_closed_def)
qed

end
