(* ===== verification/Analyses.thy ===== *)
theory Analyses
  imports Reach Collect Decoded
begin

text \<open>
  What the analyses of the code generator promise for well-formed programs, which are the ones that
  the decoder accepts.
\<close>

section \<open>The closed world of a well-formed program\<close>

definition use_in :: "program \<Rightarrow> use_of \<Rightarrow> bool" where
  "use_in p u = (case u of
       Use_function i \<Rightarrow> i < length (p_functions p)
     | Use_witness w \<Rightarrow> w < length (p_witnesses p)
     | Use_slot t n \<Rightarrow> (case t of
           TDyn i \<Rightarrow> i < length (p_interfaces p) \<and> n < length (p_interfaces p ! i) | _ \<Rightarrow> False))"

text \<open>Every expression that a walk of well-formed code meets is shaped as its type says.\<close>

definition all_ok :: "scope \<Rightarrow> visit list \<Rightarrow> bool" where
  "all_ok s vs \<longleftrightarrow> (\<forall>e \<in> set (visited_exprs vs). scoped_ty s (e_ty e) \<and> kind_ok s (e_ty e) (e_kind e))"

lemma all_ok_simps [simp]:
  "all_ok s []"
  "all_ok s (On_expr e # vs) \<longleftrightarrow> scoped_ty s (e_ty e) \<and> kind_ok s (e_ty e) (e_kind e) \<and> all_ok s vs"
  "all_ok s (On_stmt st # vs) \<longleftrightarrow> all_ok s vs"
  "all_ok s (vs @ ws) \<longleftrightarrow> all_ok s vs \<and> all_ok s ws"
  by (auto simp: all_ok_def)

lemma walk_ok:
  "wf_expr s loop e \<Longrightarrow> all_ok s (walk_expr e)"
  "wf_kind s loop kind \<Longrightarrow> all_ok s (walk_kind kind)"
  "\<forall>e \<in> set es. wf_expr s loop e \<Longrightarrow> all_ok s (walk_exprs es)"
  "\<forall>v \<in> set fs. wf_expr s loop (snd v) \<Longrightarrow> all_ok s (walk_fields fs)"
  "\<forall>a \<in> set arms. wf_arm s loop a \<Longrightarrow> all_ok s (walk_arms arms)"
  "wf_block s loop b \<Longrightarrow> all_ok s (walk_block b)"
  "\<forall>st \<in> set ss. wf_stmt s loop st \<Longrightarrow> all_ok s (walk_stmts ss)"
  "wf_stmt_kind s loop sk \<Longrightarrow> all_ok s (walk_stmt sk)"
  by (induction e and kind and es and fs and arms and b and ss and sk
      arbitrary: loop and loop and loop and loop and loop and loop and loop and loop
      rule: walk_expr_walk_kind_walk_exprs_walk_fields_walk_arms_walk_block_walk_stmts_walk_stmt.induct)
    auto

lemma function_expressions_ok:
  assumes "wf_function p f" "e \<in> set (function_expressions f)"
  shows "kind_ok (scope_of p (function_signatures p) (fn_locals f)) (e_ty e) (e_kind e)"
proof -
  let ?s = "scope_of p (function_signatures p) (fn_locals f)"
  have "all_ok ?s (walk_block (fn_body f))" "\<forall>e \<in> set (fn_requires f). all_ok ?s (walk_expr e)"
    using assms(1) walk_ok(1,6) by (auto simp: wf_function_def Let_def)
  then show ?thesis
    using assms(2) by (auto simp: function_expressions_def expressions_def block_expressions_def all_ok_def)
qed

lemma node_uses_in:
  assumes "kind_ok (scope_of p (function_signatures p) locals) (e_ty e) (e_kind e)" "u \<in> set (node_uses e)"
  shows "use_in p u"
  using assms
  by (cases "e_kind e")
    (auto simp: node_uses_def use_in_def kind_ok_def scope_of_def function_signatures_def get_nth_def split: ty.splits if_splits)

lemma function_uses_in:
  assumes "wf_program p" "i < length (p_functions p)" "u \<in> set (function_uses (p_functions p ! i))"
  shows "use_in p u"
proof -
  have "wf_function p (p_functions p ! i)" using assms(1,2) by (simp add: wf_program_def)
  moreover obtain e where "e \<in> set (function_expressions (p_functions p ! i))" "u \<in> set (node_uses e)"
    using assms(3) by (auto simp: function_uses_expressions)
  ultimately show ?thesis using function_expressions_ok node_uses_in by blast
qed

lemma witness_in:
  assumes "wf_program p" "w < length (p_witnesses p)"
  shows "wit_interface (p_witnesses p ! w) < length (p_interfaces p)"
    "length (wit_methods (p_witnesses p ! w)) = length (p_interfaces p ! wit_interface (p_witnesses p ! w))"
    "n < length (wit_methods (p_witnesses p ! w)) \<Longrightarrow> wit_methods (p_witnesses p ! w) ! n = Some i \<Longrightarrow> i < length (p_functions p)"
proof -
  have w: "wf_witness p (p_witnesses p ! w)" using assms by (simp add: wf_program_def)
  then show "wit_interface (p_witnesses p ! w) < length (p_interfaces p)" by (simp add: wf_witness_def)
  show "length (wit_methods (p_witnesses p ! w)) = length (p_interfaces p ! wit_interface (p_witnesses p ! w))"
    using w by (auto simp: wf_witness_def dest: list_all2_lengthD)
  show "i < length (p_functions p)" if "n < length (wit_methods (p_witnesses p ! w))" "wit_methods (p_witnesses p ! w) ! n = Some i"
    using w that by (auto simp: wf_witness_def list_all2_conv_all_nth function_signatures_def get_nth_def split: if_splits)
qed

lemma usable_in:
  assumes "wf_program p" "set start \<subseteq> {..<length (p_functions p)}" "usable p start library u"
  shows "use_in p u"
  using assms(3)
proof (induction rule: usable.induct)
  case (root i)
  then show ?case using assms(2) by (auto simp: use_in_def)
next
  case (code i u)
  then show ?case using function_uses_in [OF assms(1)] by blast
next
  case (exported w n)
  then show ?case using witness_in [OF assms(1)] by (simp add: use_in_def)
next
  case (invoked interface slot w target)
  then show ?case using witness_in(3) [OF assms(1), of w slot target]
    by (auto simp: use_in_def method_of_def get_nth_def split: if_splits)
qed

text \<open>What can still go wrong: the two rejections of a table with absent methods.\<close>

abbreviation absent_method :: error where
  "absent_method \<equiv> Rejected ''reachable dyn call refers to an absent witness method''"

abbreviation partial_export :: error where
  "partial_export \<equiv> Rejected ''exported witness tables must retain every method''"

lemma drain_functions_total:
  assumes wf: "wf_program p"
  shows "known s \<subseteq> Collect (use_in p) \<Longrightarrow> \<exists>s'. drain_functions p s = Inr s'"
  using wf
proof (induction p s rule: drain_functions.induct)
  case (1 p s)
  let ?i = "last (rc_pending s)"
  show ?case
  proof (cases "rc_pending s = []")
    case True
    then show ?thesis by (simp add: drain_functions.simps [of p s])
  next
    case False
    then have "Use_function ?i \<in> known s" by simp
    then have "use_in p (Use_function ?i)" using 1(3) by blast
    then have i: "?i < length (p_functions p)" by (simp add: use_in_def)
    have kept: "known (popped s) \<subseteq> Collect (use_in p)"
      using 1(3) known_pop [OF False] by blast
    show ?thesis
    proof (cases "?i \<in> rc_functions s")
      case True
      then show ?thesis using 1(1) [OF False refl refl _ kept 1(4)] False by (simp add: drain_functions.simps [of p s] Let_def)
    next
      case out: False
      obtain u where u: "visit_function p ?i (popped s) = Inr u"
        using i by (simp add: visit_function_def get_nth_def)
      note visit = conjunct2 [OF u [unfolded visit_function_Inr]]
      have "known u \<subseteq> Collect (use_in p)"
        unfolding visit known_add_use known_insert
        using kept i function_uses_in [OF 1(4) i] by (auto simp: use_in_def)
      then show ?thesis using 1(2) [OF False refl refl _ u _ 1(4)] u False out
        by (simp add: drain_functions.simps [of p s] Let_def)
    qed
  qed
qed

lemma drain_witnesses_error:
  assumes "wf_program p" "known s \<subseteq> Collect (use_in p)" "drain_witnesses p library s = Inl e"
  shows "e = partial_export \<and> library"
proof -
  have "foldE (visit_witness p library) ws t = Inl e \<Longrightarrow> \<forall>w \<in> set ws. w < length (p_witnesses p) \<Longrightarrow> e = partial_export \<and> library" for ws t
    by (induction ws arbitrary: t) (auto simp: visit_witness_def Let_def get_nth_def split: if_splits sum.splits)
  moreover have "\<forall>w \<in> set (rev (rc_pending_witnesses s)). w < length (p_witnesses p)"
    using assms(2) by (auto simp: known_def use_in_def)
  ultimately show ?thesis using assms(3) unfolding drain_witnesses_def by blast
qed

lemma foldE_error:
  assumes "foldE f xs s = Inl e" "P s"
    and "\<And>x s s'. x \<in> set xs \<Longrightarrow> P s \<Longrightarrow> f x s = Inr s' \<Longrightarrow> P s'"
    and "\<And>x s. x \<in> set xs \<Longrightarrow> P s \<Longrightarrow> f x s = Inl e \<Longrightarrow> Q"
  shows Q
  using assms
proof (induction xs arbitrary: s)
  case (Cons x xs)
  show ?case
  proof (cases "f x s")
    case (Inl d)
    then show ?thesis using Cons.prems(1) Cons.prems(4) [of x s] Cons.prems(2) by simp
  next
    case (Inr t)
    have "P t" using Cons.prems(3) [of x s t] Cons.prems(2) Inr by simp
    moreover have "foldE f xs t = Inl e" using Cons.prems(1) Inr by simp
    moreover have "P v" if "y \<in> set xs" "P u" "f y u = Inr v" for y u v
      using Cons.prems(3) [of y u v] that by simp
    moreover have Q if "y \<in> set xs" "P u" "f y u = Inl e" for y u
      using Cons.prems(4) [of y u] that by simp
    ultimately show ?thesis using Cons.IH [of t] by blast
  qed
qed simp

lemma activate_witness_error:
  assumes "activate_witness p interface slot w s = Inl e" "w < length (p_witnesses p)"
  shows "e = absent_method"
  using assms
  by (cases "Option.bind (get_nth (wit_methods (p_witnesses p ! w)) slot) id")
    (auto simp: activate_witness_def bindE_eq_Inl idx_def get_nth_def ok_or_def split: if_splits)

lemma activate_slots_error:
  assumes "finite (known s)" "known s \<subseteq> Collect (use_in p)" "activate_slots p s = Inl e"
  shows "e = absent_method"
proof (rule foldE_error [OF assms(3) [unfolded activate_slots_def], where P = "\<lambda>t. rc_witnesses t = rc_witnesses s"])
  fix x t u assume "activate_slot p x t = Inr u" "rc_witnesses t = rc_witnesses s"
  then show "rc_witnesses u = rc_witnesses s"
    using activate_slot_targets(1) adds_same finite_parts [OF assms(1)] by metis
next
  fix x t assume x: "x \<in> set (sorted_list_of_set (rc_slots s))" and t: "rc_witnesses t = rc_witnesses s"
    and run: "activate_slot p x t = Inl e"
  obtain ty slot where pair: "x = (ty, slot)" by force
  have "(ty, slot) \<in> rc_slots s" using x finite_parts [OF assms(1)] by (simp add: pair)
  then have "Use_slot ty slot \<in> known s" by simp
  then have "use_in p (Use_slot ty slot)" using assms(2) by blast
  then obtain i where i: "ty = TDyn i" "i < length (p_interfaces p)" "slot < length (p_interfaces p ! i)"
    by (auto simp: use_in_def split: ty.splits)
  have witnesses: "w < length (p_witnesses p)" if "w \<in> rc_witnesses s" for w
  proof -
    have "Use_witness w \<in> known s" using that by simp
    then have "use_in p (Use_witness w)" using assms(2) by blast
    then show ?thesis by (simp add: use_in_def)
  qed
  have "foldE (activate_witness p i slot) (sorted_list_of_set (rc_witnesses s)) t = Inl e"
    using run i t by (simp add: activate_slot_def pair get_nth_def ok_or_def)
  then show "e = absent_method"
    by (rule foldE_error [where P = "\<lambda>_. True"])
      (use activate_witness_error witnesses finite_parts [OF assms(1)] in auto)
qed simp

lemma reach_round_error:
  assumes "wf_program p" "finite (known s)" "known s \<subseteq> Collect (use_in p)" "reach_round p library s = Inl e"
  shows "e \<in> {partial_export, absent_method}"
proof -
  obtain t where t: "drain_functions p s = Inr t" using drain_functions_total [OF assms(1,3)] by blast
  have known_t: "finite (known t) \<and> known t \<subseteq> Collect (use_in p)"
    by (rule drain_functions_known [where P = "\<lambda>K. finite K \<and> K \<subseteq> Collect (use_in p)", OF _ t])
      (use assms(2,3) function_uses_in [OF assms(1)] in auto)
  show ?thesis
  proof (cases "drain_witnesses p library t")
    case (Inl d)
    then show ?thesis using assms(4) t drain_witnesses_error [OF assms(1) conjunct2 [OF known_t] Inl]
      by (simp add: reach_round_def)
  next
    case (Inr u)
    have "finite (known u) \<and> known u \<subseteq> Collect (use_in p)"
      by (rule drain_witnesses_known [where P = "\<lambda>K. finite K \<and> K \<subseteq> Collect (use_in p)", OF _ Inr known_t])
        (use witness_in [OF assms(1)] in \<open>auto simp: use_in_def\<close>)
    then show ?thesis using assms(4) t Inr activate_slots_error by (auto simp: reach_round_def)
  qed
qed

lemma reach_loop_error:
  assumes "wf_program p" "set start \<subseteq> {..<length (p_functions p)}"
  shows "reach_loop p library s = Inl e \<Longrightarrow> reach_ok p library s \<Longrightarrow> sound_uses p start library (known s) \<Longrightarrow>
    e \<in> {partial_export, absent_method}"
  using assms
proof (induction p library s rule: reach_loop.induct)
  case (1 p library s)
  have known: "finite (known s)" "known s \<subseteq> Collect (use_in p)"
    using 1(3,4) usable_in [OF 1(5,6)] by (auto simp: reach_ok_def sound_uses_def)
  show ?case
  proof (cases "reach_round p library s")
    case (Inl d)
    then show ?thesis using reach_round_error [OF 1(5) known Inl] 1(2) by (simp add: reach_loop.simps [of p library s])
  next
    case (Inr t)
    then have "rc_pending t \<noteq> []" "reach_loop p library t = Inl e"
      using 1(2) by (auto simp: reach_loop.simps [of p library s] split: if_splits)
    then show ?thesis
      using 1(1) [OF Inr] reach_round_ok(1) [OF Inr 1(3)] round_sound [OF Inr 1(4,3)] 1(5,6) by blast
  qed
qed

lemma reachable_functions_error:
  assumes "wf_program p" "set start \<subseteq> {..<length (p_functions p)}" "reachable_functions p start library = Inl e"
  shows "e \<in> {partial_export, absent_method}"
proof -
  let ?s = "\<lparr>rc_functions = {}, rc_pending = start, rc_witnesses = {}, rc_pending_witnesses = [], rc_slots = {}\<rparr>"
  have "reach_loop p library ?s = Inl e" using assms(3) by (cases "reach_loop p library ?s") (auto simp: reachable_functions_def)
  then show ?thesis
    by (rule reach_loop_error [OF assms(1,2)])
      (auto simp: reach_ok_def code_closed_def tables_closed_def known_def sound_uses_def intro: usable.root)
qed

section \<open>Handles inside values\<close>

lemma wf_types_closed: "wf_program p \<Longrightarrow> types_closed p"
  by (simp add: wf_program_def types_closed_def kind_types_refs)

lemma wf_managed:
  assumes "wf_program p" "acyclic (contains_value p)" "ty_in_range p t"
  shows "managed p t \<longleftrightarrow> (\<exists>u. part_of p t u \<and> gc_handle p u)" "storage p t \<longleftrightarrow> (\<exists>u. part_of p t u \<and> storage_handle p u)"
  using managed_in_iff [OF wf_types_closed [OF assms(1)] assms(2,3) le_imp_less_Suc [OF depth_enough]]
    storage_in_iff [OF wf_types_closed [OF assms(1)] assms(2,3) le_imp_less_Suc [OF depth_enough]]
    wf_types_closed [OF assms(1)] assms(2,3)
  by (simp_all add: managed_def storage_def)

section \<open>A small program\<close>

text \<open>The first function calls the second, which builds a list; the third does nothing.\<close>

abbreviation nowhere :: span where
  "nowhere \<equiv> \<lparr>sp_start = 0, sp_end = 0\<rparr>"

definition call_body :: block where
  "call_body = Block [Stmt (SExpr (Expr (ECall 1 []) TUnit nowhere)) nowhere] None True"

definition list_body :: block where
  "list_body = Block [Stmt (SDiscard (Expr (EList []) (TList 0) nowhere)) nowhere] None True"

definition unit_function :: "block \<Rightarrow> func" where
  "unit_function b = \<lparr>fn_name = ''f'', fn_params = [], fn_result = TUnit, fn_locals = [], fn_requires = [],
     fn_body = b, fn_span = nowhere\<rparr>"

definition small_program :: program where
  "small_program = \<lparr>p_types = [], p_lists = [TInt],
     p_functions = [unit_function call_body, unit_function list_body, unit_function (Block [] None True)],
     p_function_types = [], p_interfaces = [], p_witnesses = [], p_entry = Some 0, p_tests = [], p_test_names = [],
     p_target_inputs = [], p_source_locations = \<lparr>paths = [], sites = Map.empty\<rparr>, p_exports = []\<rparr>"

lemma small_wf: "wf_program small_program"
  by code_simp

lemma small_acyclic: "acyclic (contains_value small_program)"
proof -
  have "contains_value small_program = {}" by (simp add: contains_value_def small_program_def)
  then show ?thesis by (simp add: acyclic_def)
qed

section \<open>Properties\<close>

text \<open>
  C32.  For a well-formed program and roots that are functions of it, \<open>reachable_functions\<close> finds
  exactly the functions, witness tables and table slots that the program can use from its roots, or
  it rejects a table for a method that is absent; no reference is ever found to be invalid.
\<close>

theorem reachable_exact:
  assumes "wf_program p" and "set start \<subseteq> {..<length (p_functions p)}"
  shows "(case reachable_functions p start library of
      Inr r \<Rightarrow> ra_functions r = {i. usable p start library (Use_function i)}
        \<and> ra_witnesses r = {w. usable p start library (Use_witness w)}
        \<and> ra_slots r = {(t, n). usable p start library (Use_slot t n)}
    | Inl e \<Rightarrow> e = absent_method \<or> e = partial_export)"
proof (cases "reachable_functions p start library")
  case (Inl e)
  then show ?thesis using reachable_functions_error [OF assms Inl] by auto
next
  case (Inr r)
  then show ?thesis using reachable_functions_iff [OF Inr] by auto
qed

theorem reachable_exact_witness:
  "\<exists>r. reachable_functions small_program [0] False = Inr r \<and> 1 \<in> ra_functions r
    \<and> ra_functions r = {i. usable small_program [0] False (Use_function i)}"
proof -
  have "(case reachable_functions small_program [0] False of Inr r \<Rightarrow> 1 \<in> ra_functions r | Inl _ \<Rightarrow> False)" by code_simp
  then obtain r where "reachable_functions small_program [0] False = Inr r" "1 \<in> ra_functions r"
    by (auto split: sum.splits)
  moreover have "set [0] \<subseteq> {..<length (p_functions small_program)}" by (simp add: small_program_def)
  ultimately show ?thesis using reachable_exact [OF small_wf, where start = "[0]" and library = False] by simp
qed

text \<open>
  C33.  \<open>allocating_functions\<close> finds exactly the functions that can reach a collection: those that
  allocate themselves, and those that can call one that does, directly or through a function value
  of the right type.  The order in which the map of calls is iterated does not matter.
\<close>

theorem allocating_exact:
  assumes "R \<subseteq> {..<length (p_functions p)}" and "set order = ga_keys (gathered_calls p R library)"
  shows "allocating_functions order p R library = {i. may_collect p R library i}"
  using allocating_functions_iff [OF finite_subset [OF assms(1)] assms(2)] by auto

theorem allocating_exact_witness:
  "allocating_functions [0] small_program {0, 1, 2} False = {i. may_collect small_program {0, 1, 2} False i}
    \<and> may_collect small_program {0, 1, 2} False 0 \<and> \<not> may_collect small_program {0, 1, 2} False 2"
proof -
  have order: "set [0] = ga_keys (gathered_calls small_program {0, 1, 2} False)" by code_simp
  have "0 \<in> allocating_functions [0] small_program {0, 1, 2} False
      \<and> 2 \<notin> allocating_functions [0] small_program {0, 1, 2} False" by code_simp
  moreover have "{0, 1, 2} \<subseteq> {..<length (p_functions small_program)}" by (simp add: small_program_def)
  ultimately show ?thesis using allocating_exact [OF _ order] by auto
qed

text \<open>
  C34.  \<open>managed\<close> and \<open>storage\<close> decide, for every type of a well-formed program with finite
  layouts, whether a value of the type holds a collected handle, or a handle to mutable storage,
  among its inline parts.
\<close>

theorem handles_decided:
  assumes "wf_program p" and "acyclic (contains_value p)" and "ty_in_range p t"
  shows "managed p t = (\<exists>u. part_of p t u \<and> gc_handle p u) \<and> storage p t = (\<exists>u. part_of p t u \<and> storage_handle p u)"
  using wf_managed [OF assms] by simp

theorem handles_decided_witness:
  "managed small_program (TList 0) = (\<exists>u. part_of small_program (TList 0) u \<and> gc_handle small_program u)
    \<and> managed small_program (TList 0)"
proof -
  have "ty_in_range small_program (TList 0)" by (simp add: small_program_def)
  moreover have "managed small_program (TList 0)" by code_simp
  ultimately show ?thesis using handles_decided [OF small_wf small_acyclic] by blast
qed

text \<open>
  C35.  Whatever questions were asked before, \<open>may_allocate\<close> answers for an expression of a body
  whether something that it evaluates, deferred code aside, can allocate, and the answers it keeps
  stay right.
\<close>

theorem may_allocate_exact:
  assumes "right_answers sh A (nodes_block b []) m" and "(pos, At_expr e) \<in> set (nodes_block b [])"
  shows "fst (may_expr sh A e pos m) = can_allocate sh A (eager_expr e)
    \<and> right_answers sh A (nodes_block b []) (snd (may_expr sh A e pos m))"
  using tells_now(1) [OF nodes_distinct(2) nodes_inside(6) [OF assms(2)]] assms(1) unfolding tells_def by blast

theorem may_allocate_exact_witness:
  "fst (may_expr False {1} (Expr (ECall 1 []) TUnit nowhere) [0, 0] Map.empty)
    \<and> right_answers False {1} (nodes_block call_body []) (snd (may_expr False {1} (Expr (ECall 1 []) TUnit nowhere) [0, 0] Map.empty))"
proof -
  have "right_answers False {1} (nodes_block call_body []) Map.empty" by (simp add: right_answers_def)
  moreover have "([0, 0], At_expr (Expr (ECall 1 []) TUnit nowhere)) \<in> set (nodes_block call_body [])"
    by (simp add: call_body_def)
  ultimately show ?thesis using may_allocate_exact by (fastforce simp: allocates_here_def)
qed



end
