(* ===== verification/Pending.thy ===== *)
theory Pending
  imports SlotUse Analyses
begin

text \<open>
  Which values get a slot (\<open>TemporarySlots\<close> of \<open>Slots\<close>): an operand gets one exactly when it holds a
  collected handle that is no constant, and its consumer, or an operand after it, can collect.
\<close>

section \<open>Operands\<close>

fun operands :: "expr_kind \<Rightarrow> expr list" where
  "operands (EUnary _ e) = [e]"
| "operands (EField e _) = [e]"
| "operands (EClosure _ e) = [e]"
| "operands (ECoerce e) = [e]"
| "operands (EDynBox _ e) = [e]"
| "operands (EDynCall receiver _ args) = receiver # args"
| "operands (EIndirectCall callee args) = callee # args"
| "operands (EBinary _ a b) = [a, b]"
| "operands (ECall _ args) = args"
| "operands (EPrimitive _ args) = args"
| "operands (EVariant _ args) = args"
| "operands (EList args) = args"
| "operands (ERecord fs) = map snd fs"
| "operands (EFrameNew fs) = map snd fs"
| "operands (EFrameStore frame _ e) = [frame, e]"
| "operands (EMatch e _) = [e]"
| "operands (EIf e _ _) = [e]"
| "operands _ = []"

text \<open>Whether the operation itself can collect while it holds its operands.\<close>

fun consumer_collects :: "query \<Rightarrow> expr_kind \<Rightarrow> bool" where
  "consumer_collects q (EUnary _ _) = q_shared q"
| "consumer_collects q (EField _ _) = q_shared q"
| "consumer_collects q (EClosure _ _) = q_shared q"
| "consumer_collects q (ECoerce _) = q_shared q"
| "consumer_collects q (EFrameStore _ _ _) = q_shared q"
| "consumer_collects q (EDynBox _ _) = True"
| "consumer_collects q (EDynCall _ _ _) = True"
| "consumer_collects q (EIndirectCall _ _) = True"
| "consumer_collects q (EList _) = True"
| "consumer_collects q (EFrameNew _) = True"
| "consumer_collects q (ECall target _) = (target \<in> q_allocating q)"
| "consumer_collects q (EPrimitive op _) = (q_shared q \<or> op_allocates op)"
| "consumer_collects q _ = False"

definition can_collect :: "query \<Rightarrow> expr \<Rightarrow> bool" where
  "can_collect q e = can_allocate (q_shared q) (q_allocating q) (eager_expr e)"

definition waits :: "query \<Rightarrow> expr \<Rightarrow> nat \<Rightarrow> bool" where
  "waits q d i \<longleftrightarrow> consumer_collects q (e_kind d)
     \<or> (\<exists>j < length (operands (e_kind d)). i < j \<and> can_collect q (operands (e_kind d) ! j))"

section \<open>Flags\<close>

fun wait_flags :: "query \<Rightarrow> expr list \<Rightarrow> bool \<Rightarrow> bool list" where
  "wait_flags q [] later = []"
| "wait_flags q (e # es) later = (later \<or> (\<exists>d \<in> set es. can_collect q d)) # wait_flags q es later"

lemma ex_later: "(\<exists>j < Suc n. i < j \<and> P j) \<longleftrightarrow> (\<exists>j < n. i \<le> j \<and> P (Suc j))"
proof
  assume "\<exists>j < Suc n. i < j \<and> P j"
  then obtain j where "j < Suc n" "i < j" "P j" by blast
  then show "\<exists>j < n. i \<le> j \<and> P (Suc j)" by (cases j) auto
next
  assume "\<exists>j < n. i \<le> j \<and> P (Suc j)"
  then obtain j where "j < n" "i \<le> j" "P (Suc j)" by blast
  then show "\<exists>j < Suc n. i < j \<and> P j" by (intro exI [of _ "Suc j"]) simp
qed

lemma waiting_nth: "i < length es \<Longrightarrow> wait_flags q es later ! i \<longleftrightarrow> later \<or> (\<exists>j < length es. i < j \<and> can_collect q (es ! j))"
proof (induction es arbitrary: i)
  case (Cons e es)
  show ?case
  proof (cases i)
    case 0
    have "(\<exists>d \<in> set es. can_collect q d) \<longleftrightarrow> (\<exists>j < length es. can_collect q (es ! j))"
      by (metis in_set_conv_nth)
    then show ?thesis by (simp add: 0 ex_later)
  next
    case (Suc k)
    then show ?thesis using Cons by (simp add: ex_later Suc_le_eq)
  qed
qed simp

lemma waiting_length [simp]: "length (wait_flags q es later) = length es"
  by (induction es) simp_all

abbreviation right :: "query \<Rightarrow> (position \<times> node) list \<Rightarrow> answers \<Rightarrow> bool" where
  "right q ns m \<equiv> right_answers (q_shared q) (q_allocating q) ns m"

lemma sibling_flags_right:
  assumes "distinct (map fst ns)"
  shows "set (nodes_exprs es k pos) \<subseteq> set ns \<Longrightarrow> right q ns m \<Longrightarrow>
    (case sibling_flags q (kids_at k pos es) later m of (flags, l, m') \<Rightarrow>
      flags = wait_flags q es later \<and> l = (later \<or> (\<exists>d \<in> set es. can_collect q d)) \<and> right q ns m')"
proof (induction es arbitrary: k)
  case (Cons e es)
  obtain flags l m' where rest: "sibling_flags q (kids_at (Suc k) pos es) later m = (flags, l, m')" by (metis prod_cases3)
  obtain b m'' where e: "may_expr (q_shared q) (q_allocating q) e (k # pos) m' = (b, m'')" by force
  have "flags = wait_flags q es later" "l = (later \<or> (\<exists>d \<in> set es. can_collect q d))" "right q ns m'"
    using Cons.IH [of "Suc k"] Cons.prems rest by auto
  moreover have "b = can_collect q e \<and> right q ns m''"
    using tells_now(1) [OF assms, where e = e and pos = "k # pos" and sh = "q_shared q" and A = "q_allocating q"]
      Cons.prems(1) calculation(3) e unfolding tells_def can_collect_def by fastforce
  ultimately show ?case using rest e by auto
qed simp

section \<open>The code of a frame\<close>

text \<open>The nodes that run in the frame of the function: deferred and cleanup bodies are callbacks with
  frames of their own.\<close>

fun direct_expr :: "expr \<Rightarrow> position \<Rightarrow> (position \<times> node) list"
and direct_kind :: "expr_kind \<Rightarrow> position \<Rightarrow> (position \<times> node) list"
and direct_exprs :: "expr list \<Rightarrow> nat \<Rightarrow> position \<Rightarrow> (position \<times> node) list"
and direct_fields :: "(nat \<times> expr) list \<Rightarrow> nat \<Rightarrow> position \<Rightarrow> (position \<times> node) list"
and direct_arms :: "match_arm list \<Rightarrow> nat \<Rightarrow> position \<Rightarrow> (position \<times> node) list"
and direct_block :: "block \<Rightarrow> position \<Rightarrow> (position \<times> node) list"
and direct_stmts :: "stmt list \<Rightarrow> nat \<Rightarrow> position \<Rightarrow> (position \<times> node) list"
and direct_stmt :: "stmt_kind \<Rightarrow> position \<Rightarrow> (position \<times> node) list" where
  "direct_expr (Expr kind t span) = (\<lambda>pos. (pos, At_expr (Expr kind t span)) # direct_kind kind pos)"
| "direct_kind (EUnary _ e) = (\<lambda>pos. direct_expr e (0 # pos))"
| "direct_kind (EField e _) = (\<lambda>pos. direct_expr e (0 # pos))"
| "direct_kind (EClosure _ e) = (\<lambda>pos. direct_expr e (0 # pos))"
| "direct_kind (ECoerce e) = (\<lambda>pos. direct_expr e (0 # pos))"
| "direct_kind (EDynBox _ e) = (\<lambda>pos. direct_expr e (0 # pos))"
| "direct_kind (EDynCall receiver _ args) = (\<lambda>pos. direct_expr receiver (0 # pos) @ direct_exprs args 1 pos)"
| "direct_kind (EIndirectCall callee args) = (\<lambda>pos. direct_expr callee (0 # pos) @ direct_exprs args 1 pos)"
| "direct_kind (EBinary _ a b) = (\<lambda>pos. direct_expr a (0 # pos) @ direct_expr b (1 # pos))"
| "direct_kind (ECall _ args) = (\<lambda>pos. direct_exprs args 0 pos)"
| "direct_kind (EPrimitive _ args) = (\<lambda>pos. direct_exprs args 0 pos)"
| "direct_kind (EList args) = (\<lambda>pos. direct_exprs args 0 pos)"
| "direct_kind (EVariant _ args) = (\<lambda>pos. direct_exprs args 0 pos)"
| "direct_kind (ERecord fs) = (\<lambda>pos. direct_fields fs 0 pos)"
| "direct_kind (EFrameNew fs) = (\<lambda>pos. direct_fields fs 0 pos)"
| "direct_kind (EFrameStore frame _ e) = (\<lambda>pos. direct_expr frame (0 # pos) @ direct_expr e (1 # pos))"
| "direct_kind (EBlock b) = (\<lambda>pos. direct_block b (0 # pos))"
| "direct_kind (EMatch e arms) = (\<lambda>pos. direct_expr e (0 # pos) @ direct_arms arms 1 pos)"
| "direct_kind (EIf e yes None) = (\<lambda>pos. direct_expr e (0 # pos) @ direct_block yes (1 # pos))"
| "direct_kind (EIf e yes (Some no)) =
     (\<lambda>pos. direct_expr e (0 # pos) @ direct_block yes (1 # pos) @ direct_block no (2 # pos))"
| "direct_kind _ = (\<lambda>pos. [])"
| "direct_exprs [] = (\<lambda>k pos. [])"
| "direct_exprs (e # es) = (\<lambda>k pos. direct_expr e (k # pos) @ direct_exprs es (Suc k) pos)"
| "direct_fields [] = (\<lambda>k pos. [])"
| "direct_fields ((_, e) # fs) = (\<lambda>k pos. direct_expr e (k # pos) @ direct_fields fs (Suc k) pos)"
| "direct_arms [] = (\<lambda>k pos. [])"
| "direct_arms (MatchArm _ _ _ b # arms) = (\<lambda>k pos. direct_block b (k # pos) @ direct_arms arms (Suc k) pos)"
| "direct_block (Block ss None falls) = (\<lambda>pos. (pos, At_block (Block ss None falls)) # direct_stmts ss 0 pos)"
| "direct_block (Block ss (Some e) falls) =
     (\<lambda>pos. (pos, At_block (Block ss (Some e) falls)) # direct_stmts ss 0 pos @ direct_expr e (length ss # pos))"
| "direct_stmts [] = (\<lambda>k pos. [])"
| "direct_stmts (Stmt kind span # ss) =
     (\<lambda>k pos. (k # pos, At_stmt (Stmt kind span)) # direct_stmt kind (k # pos) @ direct_stmts ss (Suc k) pos)"
| "direct_stmt (SLet _ e) = (\<lambda>pos. direct_expr e (0 # pos))"
| "direct_stmt (SAssign _ e) = (\<lambda>pos. direct_expr e (0 # pos))"
| "direct_stmt (SAssert e _) = (\<lambda>pos. direct_expr e (0 # pos))"
| "direct_stmt (SDiscard e) = (\<lambda>pos. direct_expr e (0 # pos))"
| "direct_stmt (SExpr e) = (\<lambda>pos. direct_expr e (0 # pos))"
| "direct_stmt (SReturn (Some e)) = (\<lambda>pos. direct_expr e (0 # pos))"
| "direct_stmt (SWhile e b) = (\<lambda>pos. direct_expr e (0 # pos) @ direct_block b (1 # pos))"
| "direct_stmt _ = (\<lambda>pos. [])"

lemma direct_nodes:
  "set (direct_expr e pos) \<subseteq> set (nodes_expr e pos)"
  "set (direct_kind kind pos) \<subseteq> set (nodes_kind kind pos)"
  "set (direct_exprs es k pos) \<subseteq> set (nodes_exprs es k pos)"
  "set (direct_fields fs k pos) \<subseteq> set (nodes_fields fs k pos)"
  "set (direct_arms arms k pos) \<subseteq> set (nodes_arms arms k pos)"
  "set (direct_block b pos) \<subseteq> set (nodes_block b pos)"
  "set (direct_stmts ss k pos) \<subseteq> set (nodes_stmts ss k pos)"
  "set (direct_stmt sk pos) \<subseteq> set (nodes_stmt sk pos)"
proof (induction e and kind and es and fs and arms and b and ss and sk
    arbitrary: pos and pos and k pos and k pos and k pos and pos and k pos and pos
    rule: direct_expr_direct_kind_direct_exprs_direct_fields_direct_arms_direct_block_direct_stmts_direct_stmt.induct)
qed (simp_all, blast+)

section \<open>The positions that get a slot\<close>

definition needs :: "query \<Rightarrow> expr \<Rightarrow> bool" where
  "needs q e = needs_snapshot (q_program q) e"

definition own_keys :: "query \<Rightarrow> position \<Rightarrow> expr \<Rightarrow> position set" where
  "own_keys q pos d = {i # pos | i. i < length (operands (e_kind d)) \<and> waits q d i \<and> needs q (operands (e_kind d) ! i)}"

definition slot_keys :: "query \<Rightarrow> (position \<times> node) list \<Rightarrow> position set" where
  "slot_keys q ns = {p. \<exists>pos d. (pos, At_expr d) \<in> set ns \<and> p \<in> own_keys q pos d}"

fun flag_keys :: "query \<Rightarrow> position \<Rightarrow> nat \<Rightarrow> expr list \<Rightarrow> bool list \<Rightarrow> position set" where
  "flag_keys q pos k [] flags = {}"
| "flag_keys q pos k (e # es) flags = (if hd flags \<and> needs q e then {k # pos} else {}) \<union> flag_keys q pos (Suc k) es (tl flags)"

lemma slot_keys_simps [simp]:
  "slot_keys q [] = {}"
  "slot_keys q (ns @ ms) = slot_keys q ns \<union> slot_keys q ms"
  "slot_keys q ((pos, At_expr d) # ns) = own_keys q pos d \<union> slot_keys q ns"
  "slot_keys q ((pos, At_stmt st) # ns) = slot_keys q ns"
  "slot_keys q ((pos, At_block b) # ns) = slot_keys q ns"
  unfolding slot_keys_def by auto

lemma flag_keys_iff:
  "length flags = length es \<Longrightarrow> flag_keys q pos k es flags = {(k + i) # pos | i. i < length es \<and> flags ! i \<and> needs q (es ! i)}"
proof (induction q pos k es flags rule: flag_keys.induct)
  case (2 q pos k e es flags)
  then obtain f fs where flags: "flags = f # fs" by (cases flags) auto
  have "{(k + i) # pos | i. i < length (e # es) \<and> flags ! i \<and> needs q ((e # es) ! i)}
      = (if f \<and> needs q e then {k # pos} else {}) \<union> {(Suc k + i) # pos | i. i < length es \<and> fs ! i \<and> needs q (es ! i)}"
    (is "?all = ?first \<union> ?rest")
  proof
    show "?all \<subseteq> ?first \<union> ?rest"
    proof
      fix p assume "p \<in> ?all"
      then obtain i where i: "p = (k + i) # pos" "i < length (e # es)" "flags ! i" "needs q ((e # es) ! i)" by blast
      then show "p \<in> ?first \<union> ?rest" by (cases i) (auto simp: flags)
    qed
    show "?first \<union> ?rest \<subseteq> ?all"
    proof
      fix p assume "p \<in> ?first \<union> ?rest"
      then consider "p = k # pos" "f" "needs q e" | i where "p = (Suc k + i) # pos" "i < length es" "fs ! i" "needs q (es ! i)"
        by (auto split: if_splits)
      then show "p \<in> ?all"
      proof cases
        case 1
        then show ?thesis by (auto simp: flags intro!: exI [of _ 0])
      next
        case 2
        then show ?thesis by (auto simp: flags intro!: exI [of _ "Suc i"])
      qed
    qed
  qed
  then show ?case using 2 by (simp add: flags)
qed simp

lemma own_keys_flags:
  "own_keys q pos d = flag_keys q pos 0 (operands (e_kind d)) (wait_flags q (operands (e_kind d)) (consumer_collects q (e_kind d)))"
  unfolding own_keys_def flag_keys_iff [OF waiting_length] using waiting_nth by (auto simp: waits_def)

section \<open>The steps\<close>

definition fills :: "query \<Rightarrow> (position \<times> node) list \<Rightarrow> position set \<Rightarrow> (temporaries \<Rightarrow> temporaries option) \<Rightarrow> bool" where
  "fills q ns K f \<longleftrightarrow> (\<forall>s t. right q ns (tm_answers s) \<longrightarrow> f s = Some t \<longrightarrow>
     right q ns (tm_answers t) \<and> dom (tm_slots t) = dom (tm_slots s) \<union> K)"

lemma fillsI: "(\<And>s t. right q ns (tm_answers s) \<Longrightarrow> f s = Some t \<Longrightarrow>
    right q ns (tm_answers t) \<and> dom (tm_slots t) = dom (tm_slots s) \<union> K) \<Longrightarrow> fills q ns K f"
  by (simp add: fills_def)

lemma fillsD: "fills q ns K f \<Longrightarrow> right q ns (tm_answers s) \<Longrightarrow> f s = Some t \<Longrightarrow> right q ns (tm_answers t)"
  "fills q ns K f \<Longrightarrow> right q ns (tm_answers s) \<Longrightarrow> f s = Some t \<Longrightarrow> dom (tm_slots t) = dom (tm_slots s) \<union> K"
  by (simp_all add: fills_def)

lemma fills_both:
  assumes "fills q ns K f" "fills q ns L g"
  shows "fills q ns (K \<union> L) (both f g)"
proof (rule fillsI)
  fix s t assume s: "right q ns (tm_answers s)" "both f g s = Some t"
  then obtain u where u: "f s = Some u" "g u = Some t" by (auto simp: both_def bind_eq_Some_conv)
  note one = fillsD [OF assms(1) s(1) u(1)]
  from one fillsD [OF assms(2) one(1) u(2)]
  show "right q ns (tm_answers t) \<and> dom (tm_slots t) = dom (tm_slots s) \<union> (K \<union> L)" by auto
qed

lemma fills_none: "fills q ns {} Some"
  by (simp add: fills_def)

lemma fills_here: "(\<And>base. fills q ns K (f base)) \<Longrightarrow> fills q ns K (from_here f)"
  by (simp add: fills_def from_here_def)

lemma fills_small:
  "fills q ns {} (back_to base)" "fills q ns {} enter_loop" "fills q ns {} leave_loop" "fills q ns {} (end_branches peak)"
  "fills q ns {} (hand_over pos base)" "fills q ns {} (exit_loop pos)"
proof -
  show "fills q ns {} (back_to base)" "fills q ns {} enter_loop" "fills q ns {} leave_loop" "fills q ns {} (end_branches peak)"
    by (auto simp: fills_def back_to_def enter_loop_def leave_loop_def end_branches_def)
  show "fills q ns {} (hand_over pos base)" by (auto simp: fills_def hand_over_def)
  show "fills q ns {} (exit_loop pos)" by (auto simp: fills_def exit_loop_def split: list.splits if_splits)
qed

lemma fills_branch:
  assumes "fills q ns K f" "\<And>peak. fills q ns L (g peak)"
  shows "fills q ns (K \<union> L) (branch base f g peak)"
proof (rule fillsI)
  fix s t assume s: "right q ns (tm_answers s)" "branch base f g peak s = Some t"
  obtain u where u: "f (s\<lparr>tm_used := base\<rparr>) = Some u" "g (raise_peak peak (tm_used u)) u = Some t"
    using s(2) by (auto simp: branch_def bind_eq_Some_conv)
  have start: "right q ns (tm_answers (s\<lparr>tm_used := base\<rparr>))" using s(1) by simp
  note one = fillsD [OF assms(1) start u(1)]
  from one fillsD [OF assms(2) one(1) u(2)]
  show "right q ns (tm_answers t) \<and> dom (tm_slots t) = dom (tm_slots s) \<union> (K \<union> L)" by auto
qed

lemma fills_flags:
  assumes "distinct (map fst ns)" "set (nodes_exprs es k pos) \<subseteq> set ns" "fills q ns K (f (wait_flags q es later))"
  shows "fills q ns K (with_flags q (kids_at k pos es) later f)"
proof (rule fillsI)
  fix s t assume s: "right q ns (tm_answers s)" "with_flags q (kids_at k pos es) later f s = Some t"
  obtain flags l m where flags: "sibling_flags q (kids_at k pos es) later (tm_answers s) = (flags, l, m)" by (metis prod_cases3)
  have ok: "flags = wait_flags q es later" "right q ns m"
    using sibling_flags_right [OF assms(1,2) s(1), of later] flags by simp_all
  have "f (wait_flags q es later) (s\<lparr>tm_answers := m\<rparr>) = Some t" using s(2) flags ok(1) by (simp add: with_flags_def)
  from fillsD [OF assms(3) _ this] ok(2)
  show "right q ns (tm_answers t) \<and> dom (tm_slots t) = dom (tm_slots s) \<union> K" by simp
qed

lemma fills_reserve: "fills q ns {pos} (reserve pos t)"
  by (rule fillsI) (auto simp: reserve_def Let_def)

lemma fills_place_here:
  assumes "fills q ns K f"
  shows "fills q ns ((if protect \<and> needs q e then {pos} else {}) \<union> K) (place_here q e f pos protect)"
proof -
  have "place_here q e f pos protect = both (if protect \<and> needs q e then reserve pos (e_ty e) else Some)
      (from_here (\<lambda>base. both f (hand_over pos base)))"
    by (cases "protect \<and> needs q e") (auto simp: fun_eq_iff place_here_def both_def needs_def)
  moreover have "fills q ns (if protect \<and> needs q e then {pos} else {}) (if protect \<and> needs q e then reserve pos (e_ty e) else Some)"
    by (simp add: fills_reserve fills_none)
  moreover have "fills q ns K (from_here (\<lambda>base. both f (hand_over pos base)))"
    using fills_here [OF fills_both [OF assms fills_small(5)]] by simp
  ultimately show ?thesis using fills_both by metis
qed

lemma fills_eq: "fills q ns K f \<Longrightarrow> K = L \<Longrightarrow> fills q ns L f"
  by simp

lemma nodes_fields_exprs: "nodes_fields fs k pos = nodes_exprs (map snd fs) k pos"
  by (induction fs arbitrary: k) auto

lemma place_fills:
  assumes "distinct (map fst ns)"
  shows "set (nodes_expr e pos) \<subseteq> set ns \<Longrightarrow>
      fills q ns ((if protect \<and> needs q e then {pos} else {}) \<union> slot_keys q (direct_expr e pos)) (place_expr q e pos protect)"
    "set (nodes_kind kind pos) \<subseteq> set ns \<Longrightarrow>
      fills q ns (own_keys q pos (Expr kind t span) \<union> slot_keys q (direct_kind kind pos)) (place_kind q kind pos)"
    "set (nodes_exprs es k pos) \<subseteq> set ns \<Longrightarrow>
      fills q ns (flag_keys q pos k es flags \<union> slot_keys q (direct_exprs es k pos)) (place_exprs q es k pos flags)"
    "set (nodes_fields fs k pos) \<subseteq> set ns \<Longrightarrow>
      fills q ns (flag_keys q pos k (map snd fs) flags \<union> slot_keys q (direct_fields fs k pos)) (place_fields q fs k pos flags)"
    "set (nodes_arms arms k pos) \<subseteq> set ns \<Longrightarrow> fills q ns (slot_keys q (direct_arms arms k pos)) (place_arms q arms k pos base peak)"
    "set (nodes_block b pos) \<subseteq> set ns \<Longrightarrow> fills q ns (slot_keys q (direct_block b pos)) (place_block q b pos)"
    "set (nodes_stmts ss k pos) \<subseteq> set ns \<Longrightarrow> fills q ns (slot_keys q (direct_stmts ss k pos)) (place_stmts q ss k pos base)"
    "set (nodes_stmt sk pos) \<subseteq> set ns \<Longrightarrow> fills q ns (slot_keys q (direct_stmt sk pos)) (place_stmt q sk pos)"
proof (induction q e and q kind and q es and q fs and q arms and q b and q ss and q sk
    arbitrary: pos protect and pos t span and k pos flags and k pos flags and k pos base peak and pos and k pos base and pos
    rule: place_expr_place_kind_place_exprs_place_fields_place_arms_place_block_place_stmts_place_stmt.induct,
    goal_cases)
  case (1 q kind t span pos protect)
  show ?case using fills_place_here [OF 1(1) [where pos = pos and t = t and span = span], of protect "Expr kind t span"] 1(2)
    by simp
next
  case (10 q target args pos t span)
  have sub: "set (nodes_exprs (operands (ECall target args)) 0 pos) \<subseteq> set ns" using 10(2) by (simp add: nodes_fields_exprs)
  show ?case unfolding place_kind.simps
    by (rule fills_eq [OF fills_flags [OF assms sub [simplified] 10(1)]])
      (use 10(2) in \<open>auto simp: own_keys_flags\<close>)
next
  case (11 q op args pos t span)
  have sub: "set (nodes_exprs (operands (EPrimitive op args)) 0 pos) \<subseteq> set ns" using 11(2) by (simp add: nodes_fields_exprs)
  show ?case unfolding place_kind.simps
    by (rule fills_eq [OF fills_flags [OF assms sub [simplified] 11(1)]])
      (use 11(2) in \<open>auto simp: own_keys_flags\<close>)
next
  case (12 q u args pos t span)
  have sub: "set (nodes_exprs (operands (EVariant u args)) 0 pos) \<subseteq> set ns" using 12(2) by (simp add: nodes_fields_exprs)
  show ?case unfolding place_kind.simps
    by (rule fills_eq [OF fills_flags [OF assms sub [simplified] 12(1)]])
      (use 12(2) in \<open>auto simp: own_keys_flags\<close>)
next
  case (13 q args pos t span)
  have sub: "set (nodes_exprs (operands (EList args)) 0 pos) \<subseteq> set ns" using 13(2) by (simp add: nodes_fields_exprs)
  show ?case unfolding place_kind.simps
    by (rule fills_eq [OF fills_flags [OF assms sub [simplified] 13(1)]])
      (use 13(2) in \<open>auto simp: own_keys_flags\<close>)
next
  case (14 q fs pos t span)
  have sub: "set (nodes_exprs (operands (ERecord fs)) 0 pos) \<subseteq> set ns" using 14(2) by (simp add: nodes_fields_exprs)
  show ?case unfolding place_kind.simps
    by (rule fills_eq [OF fills_flags [OF assms sub [simplified] 14(1)]])
      (use 14(2) in \<open>auto simp: own_keys_flags\<close>)
next
  case (15 q fs pos t span)
  have sub: "set (nodes_exprs (operands (EFrameNew fs)) 0 pos) \<subseteq> set ns" using 15(2) by (simp add: nodes_fields_exprs)
  show ?case unfolding place_kind.simps
    by (rule fills_eq [OF fills_flags [OF assms sub [simplified] 15(1)]])
      (use 15(2) in \<open>auto simp: own_keys_flags\<close>)
next
  case (7 q receiver u args pos t span)
  have sub: "set (nodes_exprs (operands (EDynCall receiver u args)) 0 pos) \<subseteq> set ns" "set (nodes_expr receiver (0 # pos)) \<subseteq> set ns"
    "set (nodes_exprs args 1 pos) \<subseteq> set ns" using 7(3) by simp_all
  show ?case unfolding place_kind.simps
    by (rule fills_eq [OF fills_flags [OF assms sub(1) [unfolded operands.simps] fills_both [OF 7(1) [OF sub(2)] 7(2) [OF sub(3)]]]])
      (auto simp: own_keys_flags)
next
  case (8 q callee args pos t span)
  have sub: "set (nodes_exprs (operands (EIndirectCall callee args)) 0 pos) \<subseteq> set ns" "set (nodes_expr callee (0 # pos)) \<subseteq> set ns"
    "set (nodes_exprs args 1 pos) \<subseteq> set ns" using 8(3) by simp_all
  show ?case unfolding place_kind.simps
    by (rule fills_eq [OF fills_flags [OF assms sub(1) [unfolded operands.simps] fills_both [OF 8(1) [OF sub(2)] 8(2) [OF sub(3)]]]])
      (auto simp: own_keys_flags)
next
  case (9 q u a b pos t span)
  have sub: "set (nodes_exprs (operands (EBinary u a b)) 0 pos) \<subseteq> set ns" "set (nodes_expr a (0 # pos)) \<subseteq> set ns"
    "set (nodes_expr b (1 # pos)) \<subseteq> set ns" using 9(3) by simp_all
  show ?case unfolding place_kind.simps
    by (rule fills_eq [OF fills_flags [OF assms sub(1) [unfolded operands.simps] fills_both [OF 9(1) [OF sub(2)] 9(2) [OF sub(3)]]]])
      (auto simp: own_keys_flags)
next
  case (16 q frame u e pos t span)
  have sub: "set (nodes_exprs (operands (EFrameStore frame u e)) 0 pos) \<subseteq> set ns" "set (nodes_expr frame (0 # pos)) \<subseteq> set ns"
    "set (nodes_expr e (1 # pos)) \<subseteq> set ns" using 16(3) by simp_all
  show ?case unfolding place_kind.simps
    by (rule fills_eq [OF fills_flags [OF assms sub(1) [unfolded operands.simps] fills_both [OF 16(1) [OF sub(2)] 16(2) [OF sub(3)]]]])
      (auto simp: own_keys_flags)
next
  case (2 q u e pos t span)
  show ?case unfolding place_kind.simps
    by (rule fills_eq [OF 2(1)]) (use 2(2) in \<open>auto simp: own_keys_flags\<close>)
next
  case (3 q e u pos t span)
  show ?case unfolding place_kind.simps
    by (rule fills_eq [OF 3(1)]) (use 3(2) in \<open>auto simp: own_keys_flags\<close>)
next
  case (4 q u e pos t span)
  show ?case unfolding place_kind.simps
    by (rule fills_eq [OF 4(1)]) (use 4(2) in \<open>auto simp: own_keys_flags\<close>)
next
  case (5 q e pos t span)
  show ?case unfolding place_kind.simps
    by (rule fills_eq [OF 5(1)]) (use 5(2) in \<open>auto simp: own_keys_flags\<close>)
next
  case (6 q u e pos t span)
  show ?case unfolding place_kind.simps
    by (rule fills_eq [OF 6(1)]) (use 6(2) in \<open>auto simp: own_keys_flags\<close>)
next
  case (18 q e arms pos t span)
  show ?case unfolding place_kind.simps
    by (rule fills_eq [OF fills_both [OF 18(1) fills_here [OF 18(2)]]]) (use 18(3) in \<open>auto simp: own_keys_flags\<close>)
next
  case (19 q e yes pos t span)
  show ?case unfolding place_kind.simps
    by (rule fills_eq [OF fills_both [OF 19(1) fills_here [OF fills_branch [OF 19(2) fills_small(4)]]]])
      (use 19(3) in \<open>auto simp: own_keys_flags\<close>)
next
  case (20 q e yes no pos t span)
  show ?case unfolding place_kind.simps
    by (rule fills_eq [OF fills_both [OF 20(1) fills_here [OF fills_branch [OF 20(2) fills_branch [OF 20(3) fills_small(4)]]]]])
      (use 20(4) in \<open>auto simp: own_keys_flags\<close>)
next
  case (29 q e es k pos flags)
  show ?case unfolding place_exprs.simps
    by (rule fills_eq [OF fills_both [OF 29(1) 29(2)]]) (use 29(3) in auto)
next
  case (31 q u e fs k pos flags)
  show ?case unfolding place_fields.simps
    by (rule fills_eq [OF fills_both [OF 31(1) 31(2)]]) (use 31(3) in auto)
next
  case (33 q a b c body arms k pos base peak)
  show ?case unfolding place_arms.simps
    by (rule fills_eq [OF fills_branch [OF 33(1) 33(2)]]) (use 33(3) in auto)
next
  case (34 q ss u pos)
  show ?case unfolding place_block.simps
    by (rule fills_eq [OF fills_here [OF 34(1)]]) (use 34(2) in auto)
next
  case (35 q ss e u pos)
  show ?case unfolding place_block.simps
    by (rule fills_eq [OF fills_both [OF fills_here [OF 35(1)] 35(2)]]) (use 35(3) in auto)
next
  case (37 q kind u ss k pos base)
  show ?case unfolding place_stmts.simps
    by (rule fills_eq [OF fills_both [OF 37(1) fills_both [OF fills_small(1) 37(2)]]]) (use 37(3) in auto)
next
  case (44 q e b pos)
  show ?case unfolding place_stmt.simps
    by (rule fills_eq [OF fills_both [OF 44(1) fills_both [OF fills_small(2) fills_both [OF 44(2) fills_small(3)]]]])
      (use 44(3) in auto)
next
  case (38 q u e pos)
  show ?case unfolding place_stmt.simps by (rule fills_eq [OF 38(1)]) (use 38(2) in auto)
next
  case (39 q u e pos)
  show ?case unfolding place_stmt.simps by (rule fills_eq [OF 39(1)]) (use 39(2) in auto)
next
  case (40 q e u pos)
  show ?case unfolding place_stmt.simps by (rule fills_eq [OF 40(1)]) (use 40(2) in auto)
next
  case (41 q e pos)
  show ?case unfolding place_stmt.simps by (rule fills_eq [OF 41(1)]) (use 41(2) in auto)
next
  case (42 q e pos)
  show ?case unfolding place_stmt.simps by (rule fills_eq [OF 42(1)]) (use 42(2) in auto)
next
  case (43 q e pos)
  show ?case unfolding place_stmt.simps by (rule fills_eq [OF 43(1)]) (use 43(2) in auto)
qed (auto simp: fills_none fills_small own_keys_flags)

section \<open>Functions\<close>

definition all_nodes :: "expr list \<Rightarrow> block \<Rightarrow> (position \<times> node) list" where
  "all_nodes guards body = nodes_exprs guards 0 [] @ nodes_block body [length guards]"

definition frame_nodes :: "expr list \<Rightarrow> block \<Rightarrow> (position \<times> node) list" where
  "frame_nodes guards body = direct_exprs guards 0 [] @ direct_block body [length guards]"

lemma exprs_spread: "spread_over (below_kids k (k + length es) pos) (nodes_exprs es k pos)"
proof (induction es arbitrary: k)
  case (Cons e es)
  show ?case using spread_kid_append [OF nodes_spread(1) [where e = e and pos = "k # pos"] Cons [of "Suc k"]] by simp
qed simp

lemma all_nodes_distinct: "distinct (map fst (all_nodes guards body))"
proof -
  have "spread_over (below_kids 0 (Suc (length guards)) []) (all_nodes guards body)"
    unfolding all_nodes_def
    by (rule spread_kids_append [where n = "length guards"])
      (use exprs_spread [where k = 0 and es = guards and pos = "[]"] spread_kid [OF nodes_spread(6)] in simp_all)
  then show ?thesis by (simp add: spread_over_def)
qed

lemma place_guards_keeps:
  assumes "distinct (map fst ns)"
  shows "set (nodes_exprs es k []) \<subseteq> set ns \<Longrightarrow> keeps_types ns (place_guards q es k)"
    "set (nodes_exprs es k []) \<subseteq> set ns \<Longrightarrow> fills q ns (slot_keys q (direct_exprs es k [])) (place_guards q es k)"
proof (induction es arbitrary: k)
  case (Cons e es)
  {
    case 1
    then show ?case using Cons place_keeps(1) [OF assms] by (simp add: keeps_both keeps_small)
  next
    case 2
    have e: "set (nodes_expr e [k]) \<subseteq> set ns" using 2 by simp
    show ?case unfolding place_guards.simps
      by (rule fills_eq [OF fills_both [OF place_fills(1) [OF assms e] fills_both [OF fills_small(1) Cons(2)]]]) (use 2 in auto)
  }
qed (simp_all add: keeps_none fills_none)

lemma place_function_facts:
  assumes "place_function q guards body = Some s"
  shows "slots_typed (all_nodes guards body) s" "dom (tm_slots s) = slot_keys q (frame_nodes guards body)"
proof -
  let ?ns = "all_nodes guards body"
  have sub: "set (nodes_exprs guards 0 []) \<subseteq> set ?ns" "set (nodes_block body [length guards]) \<subseteq> set ?ns"
    by (simp_all add: all_nodes_def)
  have run: "both (place_guards q guards 0) (place_block q body [length guards]) no_temporaries = Some s"
    using assms by (simp add: place_function_def)
  have start: "slots_typed ?ns no_temporaries" "right q ?ns (tm_answers no_temporaries)" "dom (tm_slots no_temporaries) = {}"
    by (simp_all add: slots_typed_def pools_ok_def pool_of_def no_temporaries_def right_answers_def)
  have types: "keeps_types ?ns (both (place_guards q guards 0) (place_block q body [length guards]))"
    by (intro keeps_both place_guards_keeps(1) place_keeps(6) all_nodes_distinct sub)
  show "slots_typed ?ns s" by (rule keeps_typesD [OF types start(1) run])
  have "fills q ?ns (slot_keys q (frame_nodes guards body)) (both (place_guards q guards 0) (place_block q body [length guards]))"
    unfolding frame_nodes_def slot_keys_simps
    by (intro fills_both place_guards_keeps(2) place_fills(6) all_nodes_distinct sub)
  from fillsD(2) [OF this start(2) run] show "dom (tm_slots s) = slot_keys q (frame_nodes guards body)"
    by (simp add: start(3))
qed

lemma frame_nodes_in: "set (frame_nodes guards body) \<subseteq> set (all_nodes guards body)"
  unfolding frame_nodes_def all_nodes_def set_append by (rule Un_mono [OF direct_nodes(3) direct_nodes(6)])

lemma slot_keys_iff:
  assumes "(pos, At_expr d) \<in> set (frame_nodes guards body)"
  shows "i # pos \<in> slot_keys q (frame_nodes guards body)
    \<longleftrightarrow> i < length (operands (e_kind d)) \<and> waits q d i \<and> needs q (operands (e_kind d) ! i)"
proof -
  have "d' = d" if "(pos, At_expr d') \<in> set (frame_nodes guards body)" for d'
  proof -
    have "At_expr d' = At_expr d"
      by (rule eq_key_imp_eq_value [OF all_nodes_distinct subsetD [OF frame_nodes_in that] subsetD [OF frame_nodes_in assms]])
    then show ?thesis by simp
  qed
  moreover have "i # pos \<in> own_keys q pos' d' \<longleftrightarrow> pos' = pos \<and> i < length (operands (e_kind d'))
      \<and> waits q d' i \<and> needs q (operands (e_kind d') ! i)" for pos' d'
    unfolding own_keys_def by simp metis
  ultimately show ?thesis unfolding slot_keys_def mem_Collect_eq using assms by metis
qed

section \<open>Properties\<close>

definition empty_list :: expr where
  "empty_list = Expr (EList []) (TList 0) nowhere"

definition pair_body :: block where
  "pair_body = Block [] (Some (Expr (ECall 2 [empty_list, empty_list]) TUnit nowhere)) True"

definition small_query :: query where
  "small_query = \<lparr>q_program = small_program, q_shared = False, q_allocating = {}\<rparr>"



text \<open>
  C38.  An operand has a slot exactly when its value can be lost: it holds a collected handle that is
  no constant, and the operation that consumes it, or an operand after it, can collect.
\<close>

theorem pending_exact:
  assumes "place_function q guards body = Some s" and "(pos, At_expr d) \<in> set (frame_nodes guards body)"
    and "i < length (operands (e_kind d))"
  shows "(tm_slots s (i # pos) \<noteq> None) = (waits q d i \<and> needs_snapshot (q_program q) (operands (e_kind d) ! i))"
proof -
  have "(tm_slots s (i # pos) \<noteq> None) = (i # pos \<in> slot_keys q (frame_nodes guards body))"
    using place_function_facts(2) [OF assms(1)] by auto
  then show ?thesis using slot_keys_iff [OF assms(2)] assms(3) by (simp add: needs_def)
qed

theorem pending_exact_witness:
  "\<exists>s. place_function small_query [] pair_body = Some s
    \<and> (tm_slots s [0, 0, 0] \<noteq> None) = (waits small_query (Expr (ECall 2 [empty_list, empty_list]) TUnit nowhere) 0
        \<and> needs_snapshot small_program empty_list)
    \<and> tm_slots s [0, 0, 0] \<noteq> None"
proof -
  have "map_option (\<lambda>s. tm_slots s [0, 0, 0] \<noteq> None) (place_function small_query [] pair_body) = Some True" by code_simp
  then obtain s where s: "place_function small_query [] pair_body = Some s" "tm_slots s [0, 0, 0] \<noteq> None"
    by (cases "place_function small_query [] pair_body") auto
  have "([0, 0], At_expr (Expr (ECall 2 [empty_list, empty_list]) TUnit nowhere)) \<in> set (frame_nodes [] pair_body)"
    by (simp add: frame_nodes_def pair_body_def)
  from pending_exact [OF s(1) this, of 0] s show ?thesis by (auto simp: small_query_def)
qed

end
