(* ===== verification/Liveness.thy ===== *)
theory Liveness
  imports Collect
begin

text \<open>
  Liveness of locals (\<open>compiler/src/codegen/llvm_gc_liveness.rs\<close>).  The plan tells the code generator
  where the root of a local can be cleared: on entry to a block, after a statement and after an
  expression, and which locals an expression has to restore after it collects.  The code runs
  backwards and repeats the body of a loop until the live set at its head is stable; here the
  repetitions are bounded by a number, and \<open>None\<close> means that it was not enough.
\<close>

section \<open>The state\<close>

record plan =
  pl_entries :: "position \<rightharpoonup> nat set"
  pl_retired :: "position \<rightharpoonup> nat set"
  pl_expressions :: "position \<rightharpoonup> nat set"
  pl_restores :: "position \<rightharpoonup> nat set"
  pl_definitions :: "nat set"      \<comment> \<open>the set that is passed on as \<open>definitions\<close>\<close>
  pl_answers :: answers            \<comment> \<open>of the query in \<open>Collections\<close>\<close>

record scan =
  sn_shared :: bool
  sn_allocating :: "nat set"
  sn_rounds :: nat                 \<comment> \<open>the bound of the repetitions\<close>

type_synonym targets = "(nat set \<times> nat set) option"   \<comment> \<open>live after the loop, and at its head\<close>

type_synonym 'a analysis = "plan \<Rightarrow> ('a \<times> plan) option"

definition andThen :: "'a analysis \<Rightarrow> ('a \<Rightarrow> 'b analysis) \<Rightarrow> 'b analysis" where
  "andThen f g s = Option.bind (f s) (\<lambda>(x, s). g x s)"

definition give :: "'a \<Rightarrow> 'a analysis" where
  "give x s = Some (x, s)"

section \<open>The steps\<close>

definition ask :: "scan \<Rightarrow> expr \<Rightarrow> position \<Rightarrow> bool analysis" where
  "ask q e pos s = (case may_expr (sn_shared q) (sn_allocating q) e pos (pl_answers s) of
     (b, m) \<Rightarrow> Some (b, s\<lparr>pl_answers := m\<rparr>))"

definition ask_block :: "scan \<Rightarrow> block \<Rightarrow> position \<Rightarrow> bool analysis" where
  "ask_block q b pos s = (case may_block (sn_shared q) (sn_allocating q) b pos (pl_answers s) of
     (x, m) \<Rightarrow> Some (x, s\<lparr>pl_answers := m\<rparr>))"

text \<open>\<open>a || b\<close>: the second question is asked only when the first one is not enough.\<close>

definition or_ask :: "bool \<Rightarrow> bool analysis \<Rightarrow> bool analysis" where
  "or_ask b f = (if b then give True else f)"

definition expression_retirement :: "position \<Rightarrow> nat set \<Rightarrow> unit analysis" where
  "expression_retirement pos retired s =
     Some ((), s\<lparr>pl_expressions := (pl_expressions s)(pos := (if retired = {} then None else Some retired))\<rparr>)"

definition put_entry :: "position \<Rightarrow> nat set \<Rightarrow> unit analysis" where
  "put_entry pos retired s = Some ((), s\<lparr>pl_entries := (pl_entries s)(pos \<mapsto> retired)\<rparr>)"

definition put_retired :: "position \<Rightarrow> nat set \<Rightarrow> unit analysis" where
  "put_retired pos retired s = Some ((), s\<lparr>pl_retired := (pl_retired s)(pos \<mapsto> retired)\<rparr>)"

definition put_restore :: "bool \<Rightarrow> position \<Rightarrow> nat set \<Rightarrow> unit analysis" where
  "put_restore collects pos live s =
     Some ((), if collects then s\<lparr>pl_restores := (pl_restores s)(pos \<mapsto> live)\<rparr> else s)"

definition define_locals :: "nat set \<Rightarrow> unit analysis" where
  "define_locals ids s = Some ((), s\<lparr>pl_definitions := pl_definitions s \<union> ids\<rparr>)"

text \<open>A statement collects what it writes in a set of its own.\<close>

definition with_written :: "nat set \<Rightarrow> 'a analysis \<Rightarrow> ('a \<times> nat set) analysis" where
  "with_written written f s =
     Option.bind (f (s\<lparr>pl_definitions := written\<rparr>)) (\<lambda>(x, t).
     Some ((x, pl_definitions t), t\<lparr>pl_definitions := pl_definitions s \<union> pl_definitions t\<rparr>))"

fun field_local :: "expr \<Rightarrow> nat option" where
  "field_local (Expr (ELocal i) _ _) = Some i"
| "field_local (Expr (EField e _) _ _) = field_local e"
| "field_local _ = None"

definition scalar_ty :: "ty \<Rightarrow> bool" where
  "scalar_ty t = (case t of TUnit \<Rightarrow> True | TInt \<Rightarrow> True | TBool \<Rightarrow> True | TFloat \<Rightarrow> True | _ \<Rightarrow> False)"

definition if_so :: "bool \<Rightarrow> nat set \<Rightarrow> nat set" where
  "if_so b A = (if b then A else {})"

definition exit_live :: "targets \<Rightarrow> nat set" where
  "exit_live T = (case T of None \<Rightarrow> {} | Some (exit, _) \<Rightarrow> exit)"

definition head_live :: "targets \<Rightarrow> nat set" where
  "head_live T = (case T of None \<Rightarrow> {} | Some (_, head) \<Rightarrow> head)"

text \<open>The loop over the live set at the head of a \<open>while\<close>.\<close>

fun rounds :: "nat \<Rightarrow> (nat set \<Rightarrow> (nat set \<times> nat set) analysis) \<Rightarrow> nat set \<Rightarrow> (nat set \<times> nat set) analysis" where
  "rounds 0 f head s = None"
| "rounds (Suc n) f head s = Option.bind (f head s) (\<lambda>((before, nxt), s).
     if nxt = head then Some ((before, head), s) else rounds n f nxt s)"

definition arm_locals :: "nat option list \<Rightarrow> nat option \<Rightarrow> nat set" where
  "arm_locals bindings whole = set (List.map_filter id (bindings @ [whole]))"

fun put_entries :: "nat set \<Rightarrow> (position \<times> nat set \<times> bool) list \<Rightarrow> unit analysis" where
  "put_entries branches [] = give ()"
| "put_entries branches ((pos, entry, collects) # incoming) =
     andThen (put_entry pos (if_so collects (branches - entry))) (\<lambda>_. put_entries branches incoming)"

text \<open>What an operation adds to \<open>future\<close> for its operands.\<close>

definition own_collection :: "scan \<Rightarrow> expr_kind \<Rightarrow> bool" where
  "own_collection q kind = (case kind of
       ECall target _ \<Rightarrow> target \<in> sn_allocating q
     | EPrimitive op _ \<Rightarrow> op_allocates op
     | EList _ \<Rightarrow> True
     | EFrameNew _ \<Rightarrow> True
     | _ \<Rightarrow> False)"

definition lazy :: "binary \<Rightarrow> bool" where
  "lazy op \<longleftrightarrow> op = BAnd \<or> op = BOr"

section \<open>The analysis\<close>

fun live_expr :: "scan \<Rightarrow> expr \<Rightarrow> position \<Rightarrow> nat set \<Rightarrow> targets \<Rightarrow> bool \<Rightarrow> nat set analysis"
and live_kind :: "scan \<Rightarrow> expr_kind \<Rightarrow> ty \<Rightarrow> position \<Rightarrow> nat set \<Rightarrow> targets \<Rightarrow> bool \<Rightarrow> nat set analysis"
and live_exprs :: "scan \<Rightarrow> expr list \<Rightarrow> nat \<Rightarrow> position \<Rightarrow> nat set \<Rightarrow> targets \<Rightarrow> bool \<Rightarrow> (nat set \<times> bool) analysis"
and live_fields :: "scan \<Rightarrow> (nat \<times> expr) list \<Rightarrow> nat \<Rightarrow> position \<Rightarrow> nat set \<Rightarrow> targets \<Rightarrow> bool \<Rightarrow> (nat set \<times> bool) analysis"
and live_args :: "scan \<Rightarrow> expr list \<Rightarrow> nat \<Rightarrow> position \<Rightarrow> nat set \<Rightarrow> targets \<Rightarrow> nat set analysis"
and live_arms :: "scan \<Rightarrow> match_arm list \<Rightarrow> nat \<Rightarrow> position \<Rightarrow> nat set \<Rightarrow> targets \<Rightarrow> bool \<Rightarrow> nat set \<Rightarrow> bool \<Rightarrow>
    (position \<times> nat set \<times> bool) list \<Rightarrow> (nat set \<times> bool \<times> (position \<times> nat set \<times> bool) list) analysis"
and live_block :: "scan \<Rightarrow> block \<Rightarrow> position \<Rightarrow> nat set \<Rightarrow> targets \<Rightarrow> bool \<Rightarrow> nat set analysis"
and live_stmts :: "scan \<Rightarrow> stmt list \<Rightarrow> nat \<Rightarrow> position \<Rightarrow> nat set \<Rightarrow> targets \<Rightarrow> bool \<Rightarrow> (nat set \<times> bool) analysis"
and live_stmt :: "scan \<Rightarrow> stmt_kind \<Rightarrow> position \<Rightarrow> nat set \<Rightarrow> targets \<Rightarrow> bool \<Rightarrow> (nat set \<times> bool) analysis" where
  "live_expr q (Expr kind t span) = (\<lambda>pos live T future.
     andThen (ask q (Expr kind t span) pos) (\<lambda>collects.
     andThen (put_restore collects pos live) (\<lambda>_. live_kind q kind t pos live T future)))"
| "live_kind q (ELocal i) = (\<lambda>t pos live T future.
     andThen (expression_retirement pos (if_so (future \<and> i \<notin> live \<and> \<not> scalar_ty t) {i})) (\<lambda>_. give (insert i live)))"
| "live_kind q (EField receiver _) = (\<lambda>t pos live T future.
     andThen (expression_retirement pos (case field_local receiver of
         None \<Rightarrow> {} | Some i \<Rightarrow> if_so (future \<and> i \<notin> live) {i})) (\<lambda>_.
     live_expr q receiver (0 # pos) live T future))"
| "live_kind q (EUnary _ e) = (\<lambda>t pos live T future. live_expr q e (0 # pos) live T future)"
| "live_kind q (ECoerce e) = (\<lambda>t pos live T future. live_expr q e (0 # pos) live T future)"
| "live_kind q (EClosure _ e) = (\<lambda>t pos live T future. live_expr q e (0 # pos) live T future)"
| "live_kind q (EDynBox _ e) = (\<lambda>t pos live T future. live_expr q e (0 # pos) live T True)"
| "live_kind q (EBinary op a b) = (\<lambda>t pos live T future.
     andThen (live_expr q b (1 # pos) live T future) (\<lambda>before.
     andThen (if lazy op then expression_retirement pos (if_so future (before - live)) else give ()) (\<lambda>_.
     andThen (or_ask future (ask q b (1 # pos))) (\<lambda>future.
     live_expr q a (0 # pos) (if lazy op then before \<union> live else before) T future))))"
| "live_kind q (ECall target args) = (\<lambda>t pos live T future.
     andThen (live_exprs q args 0 pos live T (future \<or> own_collection q (ECall target args))) (\<lambda>(live, _). give live))"
| "live_kind q (EPrimitive op args) = (\<lambda>t pos live T future.
     andThen (live_exprs q args 0 pos live T (future \<or> own_collection q (EPrimitive op args))) (\<lambda>(live, _). give live))"
| "live_kind q (EList args) = (\<lambda>t pos live T future.
     andThen (live_exprs q args 0 pos live T (future \<or> own_collection q (EList args))) (\<lambda>(live, _). give live))"
| "live_kind q (EVariant v args) = (\<lambda>t pos live T future.
     andThen (live_exprs q args 0 pos live T (future \<or> own_collection q (EVariant v args))) (\<lambda>(live, _). give live))"
| "live_kind q (EIndirectCall callee args) = (\<lambda>t pos live T future.
     andThen (live_args q args 1 pos live T) (\<lambda>live. live_expr q callee (0 # pos) live T True))"
| "live_kind q (EDynCall receiver _ args) = (\<lambda>t pos live T future.
     andThen (live_args q args 1 pos live T) (\<lambda>live. live_expr q receiver (0 # pos) live T True))"
| "live_kind q (ERecord fs) = (\<lambda>t pos live T future.
     andThen (live_fields q fs 0 pos live T (future \<or> own_collection q (ERecord fs))) (\<lambda>(live, _). give live))"
| "live_kind q (EFrameNew fs) = (\<lambda>t pos live T future.
     andThen (live_fields q fs 0 pos live T (future \<or> own_collection q (EFrameNew fs))) (\<lambda>(live, _). give live))"
| "live_kind q (EFrameStore frame _ e) = (\<lambda>t pos live T future.
     andThen (live_expr q e (1 # pos) live T future) (\<lambda>live.
     andThen (or_ask future (ask q e (1 # pos))) (\<lambda>future. live_expr q frame (0 # pos) live T future)))"
| "live_kind q (EBlock b) = (\<lambda>t pos live T future. live_block q b (0 # pos) live T future)"
| "live_kind q (EIf e yes None) = (\<lambda>t pos live T future.
     andThen (live_block q yes (1 # pos) live T future) (\<lambda>yes_live.
     let branches = yes_live \<union> live in
     andThen (expression_retirement pos (if_so future (branches - live))) (\<lambda>_.
     andThen (or_ask future (ask_block q yes (1 # pos))) (\<lambda>collects.
     andThen (put_entry (1 # pos) (if_so collects (branches - yes_live))) (\<lambda>_.
     live_expr q e (0 # pos) branches T collects)))))"
| "live_kind q (EIf e yes (Some no)) = (\<lambda>t pos live T future.
     andThen (live_block q yes (1 # pos) live T future) (\<lambda>yes_live.
     andThen (live_block q no (2 # pos) live T future) (\<lambda>no_live.
     let branches = yes_live \<union> no_live in
     andThen (expression_retirement pos (if_so future (branches - live))) (\<lambda>_.
     andThen (or_ask future (ask_block q yes (1 # pos))) (\<lambda>collects.
     andThen (put_entry (1 # pos) (if_so collects (branches - yes_live))) (\<lambda>_.
     andThen (or_ask future (ask_block q no (2 # pos))) (\<lambda>no_collects.
     andThen (put_entry (2 # pos) (if_so no_collects (branches - no_live))) (\<lambda>_.
     andThen (or_ask collects (ask_block q no (2 # pos))) (\<lambda>future.
     live_expr q e (0 # pos) branches T future)))))))))"
| "live_kind q (EMatch e arms) = (\<lambda>t pos live T future.
     andThen (live_arms q arms 1 pos live T future {} future []) (\<lambda>(branches, collecting, incoming).
     andThen (put_entries branches incoming) (\<lambda>_.
     live_expr q e (0 # pos) branches T collecting)))"
| "live_kind q _ = (\<lambda>t pos live T future. give live)"
| "live_exprs q [] = (\<lambda>k pos live T future. give (live, future))"
| "live_exprs q (e # es) = (\<lambda>k pos live T future.
     andThen (live_exprs q es (Suc k) pos live T future) (\<lambda>(live, future).
     andThen (live_expr q e (k # pos) live T future) (\<lambda>live.
     andThen (ask q e (k # pos)) (\<lambda>collects. give (live, future \<or> collects)))))"
| "live_fields q [] = (\<lambda>k pos live T future. give (live, future))"
| "live_fields q ((_, e) # fs) = (\<lambda>k pos live T future.
     andThen (live_fields q fs (Suc k) pos live T future) (\<lambda>(live, future).
     andThen (live_expr q e (k # pos) live T future) (\<lambda>live.
     andThen (ask q e (k # pos)) (\<lambda>collects. give (live, future \<or> collects)))))"
| "live_args q [] = (\<lambda>k pos live T. give live)"
| "live_args q (e # es) = (\<lambda>k pos live T.
     andThen (live_args q es (Suc k) pos live T) (\<lambda>live. live_expr q e (k # pos) live T True))"
| "live_arms q [] = (\<lambda>k pos live T future branches collecting incoming. give (branches, collecting, incoming))"
| "live_arms q (MatchArm _ bindings whole b # arms) = (\<lambda>k pos live T future branches collecting incoming.
     andThen (live_block q b (k # pos) live T future) (\<lambda>entry.
     andThen (define_locals (arm_locals bindings whole)) (\<lambda>_.
     andThen (or_ask future (ask_block q b (k # pos))) (\<lambda>collects.
     live_arms q arms (Suc k) pos live T future (branches \<union> (entry - arm_locals bindings whole)) (collecting \<or> collects)
       (incoming @ [(k # pos, entry, collects)])))))"
| "live_block q (Block ss None _) = (\<lambda>pos live T future.
     andThen (live_stmts q ss 0 pos live T future) (\<lambda>(live, _). give live))"
| "live_block q (Block ss (Some e) _) = (\<lambda>pos live T future.
     andThen (live_expr q e (length ss # pos) live T future) (\<lambda>live.
     andThen (ask q e (length ss # pos)) (\<lambda>collects.
     andThen (live_stmts q ss 0 pos live T (future \<or> collects)) (\<lambda>(live, _). give live))))"
| "live_stmts q [] = (\<lambda>k pos live T future. give (live, future))"
| "live_stmts q (Stmt kind _ # ss) = (\<lambda>k pos live T future.
     andThen (live_stmts q ss (Suc k) pos live T future) (\<lambda>(after, after_collection).
     andThen (with_written {} (live_stmt q kind (k # pos) after T after_collection)) (\<lambda>((live, future), written).
     andThen (put_retired (k # pos) (if_so after_collection (live \<union> written - after))) (\<lambda>_. give (live, future)))))"
| "live_stmt q (SLet i e) = (\<lambda>pos live T future.
     andThen (define_locals {i}) (\<lambda>_.
     andThen (live_expr q e (0 # pos) (live - {i}) T future) (\<lambda>live.
     andThen (ask q e (0 # pos)) (\<lambda>collects. give (live, future \<or> collects)))))"
| "live_stmt q (SAssign i e) = (\<lambda>pos live T future.
     andThen (define_locals {i}) (\<lambda>_.
     andThen (live_expr q e (0 # pos) (live - {i}) T future) (\<lambda>live.
     andThen (ask q e (0 # pos)) (\<lambda>collects. give (live, future \<or> collects)))))"
| "live_stmt q (SReturn None) = (\<lambda>pos live T future. give ({}, False))"
| "live_stmt q (SReturn (Some e)) = (\<lambda>pos live T future.
     andThen (live_expr q e (0 # pos) {} T False) (\<lambda>live.
     andThen (ask q e (0 # pos)) (\<lambda>collects. give (live, collects))))"
| "live_stmt q (SAssert e _) = (\<lambda>pos live T future.
     andThen (live_expr q e (0 # pos) live T future) (\<lambda>live.
     andThen (ask q e (0 # pos)) (\<lambda>collects. give (live, future \<or> collects))))"
| "live_stmt q (SDiscard e) = (\<lambda>pos live T future.
     andThen (live_expr q e (0 # pos) live T future) (\<lambda>live.
     andThen (ask q e (0 # pos)) (\<lambda>collects. give (live, future \<or> collects))))"
| "live_stmt q (SExpr e) = (\<lambda>pos live T future.
     andThen (live_expr q e (0 # pos) live T future) (\<lambda>live.
     andThen (ask q e (0 # pos)) (\<lambda>collects. give (live, future \<or> collects))))"
| "live_stmt q (SWhile e b) = (\<lambda>pos after T future.
     andThen (ask q e (0 # pos)) (\<lambda>condition.
     andThen (or_ask condition (ask_block q b (1 # pos))) (\<lambda>repeats.
     andThen (rounds (sn_rounds q) (\<lambda>head.
       andThen (live_block q b (1 # pos) head (Some (after, head)) (future \<or> repeats)) (\<lambda>before.
       andThen (live_expr q e (0 # pos) (after \<union> before) T (future \<or> repeats)) (\<lambda>nxt. give (before, nxt)))) {}) (\<lambda>(before, head).
     andThen (put_entry (1 # pos) (if_so (future \<or> repeats) (head - before))) (\<lambda>_.
     give (head, future \<or> repeats))))))"
| "live_stmt q SBreak = (\<lambda>pos live T future. give (exit_live T, True))"
| "live_stmt q SContinue = (\<lambda>pos live T future. give (head_live T, True))"
| "live_stmt q (SCleanup _ b) = (\<lambda>pos live T future.
     andThen (ask_block q b (0 # pos)) (\<lambda>collects. give (live, future \<or> collects)))"
| "live_stmt q (SDefer _ b) = (\<lambda>pos live T future. give (live, future))"

definition no_plan :: plan where
  "no_plan = \<lparr>pl_entries = Map.empty, pl_retired = Map.empty, pl_expressions = Map.empty, pl_restores = Map.empty,
     pl_definitions = {}, pl_answers = Map.empty\<rparr>"

text \<open>\<open>Plan::new\<close>.\<close>

definition plan_new :: "scan \<Rightarrow> block \<Rightarrow> nat \<Rightarrow> plan option" where
  "plan_new q body parameters =
     map_option snd (andThen (live_block q body [] {} None (sn_shared q)) (\<lambda>before.
       andThen (ask_block q body []) (\<lambda>collects.
       put_entry [] (if_so collects ({..<parameters} - before)))) no_plan)"

end
