(* ===== verification/Paths.thy ===== *)
theory Paths
  imports Liveness
begin

text \<open>
  The paths of a function, and what a liveness plan promises for them.  A path is the list of the
  reads and writes of locals and of the points where generated code consults the plan, in the order
  of \<open>FunctionEmitter::expr\<close>, \<open>block_inner\<close> and \<open>match_expr\<close> (\<open>llvm.rs\<close>); conditions may go either way.
  Deferred and cleanup bodies run in callbacks, through captures that the plan does not clear.
  A local that the plan pins is never cleared and always restored, and a field of a stack local is
  loaded without the points of its receiver: then a path has fewer points, and reads the same.
\<close>

section \<open>Events\<close>

datatype event = Reads nat | Writes nat | Enters position | Done position | Ends position

datatype way = Falls | Breaks | Continues | Returns

type_synonym path = "event list \<times> way"

definition skip :: "path set" where
  "skip = {([], Falls)}"

definition point :: "event \<Rightarrow> path set" where
  "point e = {([e], Falls)}"

definition ahead :: "path set \<Rightarrow> path set \<Rightarrow> path set" where
  "ahead A B = {(t @ u, w) | t u w. (t, Falls) \<in> A \<and> (u, w) \<in> B} \<union> {(t, w) \<in> A. w \<noteq> Falls}"

inductive_set turns :: "path set \<Rightarrow> path set \<Rightarrow> path set" for C B where
  leave: "(t, Falls) \<in> C \<Longrightarrow> (t, Falls) \<in> turns C B"
| outer: "(t, w) \<in> C \<Longrightarrow> w \<noteq> Falls \<Longrightarrow> (t, w) \<in> turns C B"
| break: "(t, Falls) \<in> C \<Longrightarrow> (u, Breaks) \<in> B \<Longrightarrow> (t @ u, Falls) \<in> turns C B"
| return: "(t, Falls) \<in> C \<Longrightarrow> (u, Returns) \<in> B \<Longrightarrow> (t @ u, Returns) \<in> turns C B"
| again: "(t, Falls) \<in> C \<Longrightarrow> (u, w) \<in> B \<Longrightarrow> w = Falls \<or> w = Continues \<Longrightarrow> (v, w') \<in> turns C B \<Longrightarrow>
    (t @ u @ v, w') \<in> turns C B"

section \<open>Paths of code\<close>

fun path_expr :: "expr \<Rightarrow> position \<Rightarrow> path set"
and path_kind :: "expr_kind \<Rightarrow> position \<Rightarrow> path set"
and path_exprs :: "expr list \<Rightarrow> nat \<Rightarrow> position \<Rightarrow> path set"
and path_fields :: "(nat \<times> expr) list \<Rightarrow> nat \<Rightarrow> position \<Rightarrow> path set"
and path_arms :: "match_arm list \<Rightarrow> nat \<Rightarrow> position \<Rightarrow> path set"
and path_block :: "block \<Rightarrow> position \<Rightarrow> path set"
and path_stmts :: "stmt list \<Rightarrow> nat \<Rightarrow> position \<Rightarrow> path set"
and path_stmt :: "stmt_kind \<Rightarrow> position \<Rightarrow> path set" where
  "path_expr (Expr kind t span) = (\<lambda>pos. ahead (path_kind kind pos) (point (Done pos)))"
| "path_kind (ELocal i) = (\<lambda>pos. point (Reads i))"
| "path_kind (EUnary _ e) = (\<lambda>pos. path_expr e (0 # pos))"
| "path_kind (EField e _) = (\<lambda>pos. path_expr e (0 # pos))"
| "path_kind (EClosure _ e) = (\<lambda>pos. path_expr e (0 # pos))"
| "path_kind (ECoerce e) = (\<lambda>pos. path_expr e (0 # pos))"
| "path_kind (EDynBox _ e) = (\<lambda>pos. path_expr e (0 # pos))"
| "path_kind (EDynCall receiver _ args) = (\<lambda>pos. ahead (path_expr receiver (0 # pos)) (path_exprs args 1 pos))"
| "path_kind (EIndirectCall callee args) = (\<lambda>pos. ahead (path_expr callee (0 # pos)) (path_exprs args 1 pos))"
| "path_kind (EBinary op a b) = (\<lambda>pos. ahead (path_expr a (0 # pos))
     (if lazy op then skip \<union> path_expr b (1 # pos) else path_expr b (1 # pos)))"
| "path_kind (ECall _ args) = (\<lambda>pos. path_exprs args 0 pos)"
| "path_kind (EPrimitive _ args) = (\<lambda>pos. path_exprs args 0 pos)"
| "path_kind (EList args) = (\<lambda>pos. path_exprs args 0 pos)"
| "path_kind (EVariant _ args) = (\<lambda>pos. path_exprs args 0 pos)"
| "path_kind (ERecord fs) = (\<lambda>pos. path_fields fs 0 pos)"
| "path_kind (EFrameNew fs) = (\<lambda>pos. path_fields fs 0 pos)"
| "path_kind (EFrameStore frame _ e) = (\<lambda>pos. ahead (path_expr frame (0 # pos)) (path_expr e (1 # pos)))"
| "path_kind (EBlock b) = (\<lambda>pos. path_block b (0 # pos))"
| "path_kind (EMatch e arms) = (\<lambda>pos. ahead (path_expr e (0 # pos)) (path_arms arms 1 pos))"
| "path_kind (EIf e yes None) = (\<lambda>pos. ahead (path_expr e (0 # pos)) (path_block yes (1 # pos) \<union> skip))"
| "path_kind (EIf e yes (Some no)) =
     (\<lambda>pos. ahead (path_expr e (0 # pos)) (path_block yes (1 # pos) \<union> path_block no (2 # pos)))"
| "path_kind _ = (\<lambda>pos. skip)"
| "path_exprs [] = (\<lambda>k pos. skip)"
| "path_exprs (e # es) = (\<lambda>k pos. ahead (path_expr e (k # pos)) (path_exprs es (Suc k) pos))"
| "path_fields [] = (\<lambda>k pos. skip)"
| "path_fields ((_, e) # fs) = (\<lambda>k pos. ahead (path_expr e (k # pos)) (path_fields fs (Suc k) pos))"
| "path_arms [] = (\<lambda>k pos. {})"
| "path_arms (MatchArm _ bindings whole b # arms) = (\<lambda>k pos.
     ahead {(map Writes ids, Falls) | ids. set ids = arm_locals bindings whole} (path_block b (k # pos)) \<union> path_arms arms (Suc k) pos)"
| "path_block (Block ss None _) = (\<lambda>pos. ahead (point (Enters pos)) (path_stmts ss 0 pos))"
| "path_block (Block ss (Some e) _) =
     (\<lambda>pos. ahead (point (Enters pos)) (ahead (path_stmts ss 0 pos) (path_expr e (length ss # pos))))"
| "path_stmts [] = (\<lambda>k pos. skip)"
| "path_stmts (Stmt kind span # ss) = (\<lambda>k pos.
     ahead (path_stmt kind (k # pos)) (ahead (point (Ends (k # pos))) (path_stmts ss (Suc k) pos)))"
| "path_stmt (SLet i e) = (\<lambda>pos. ahead (path_expr e (0 # pos)) (point (Writes i)))"
| "path_stmt (SAssign i e) = (\<lambda>pos. ahead (path_expr e (0 # pos)) (point (Writes i)))"
| "path_stmt (SAssert e _) = (\<lambda>pos. path_expr e (0 # pos))"
| "path_stmt (SDiscard e) = (\<lambda>pos. path_expr e (0 # pos))"
| "path_stmt (SExpr e) = (\<lambda>pos. path_expr e (0 # pos))"
| "path_stmt (SReturn None) = (\<lambda>pos. {([], Returns)})"
| "path_stmt (SReturn (Some e)) = (\<lambda>pos. ahead (path_expr e (0 # pos)) {([], Returns)})"
| "path_stmt (SWhile e b) = (\<lambda>pos. turns (path_expr e (0 # pos)) (path_block b (1 # pos)))"
| "path_stmt SBreak = (\<lambda>pos. {([], Breaks)})"
| "path_stmt SContinue = (\<lambda>pos. {([], Continues)})"
| "path_stmt _ = (\<lambda>pos. skip)"

section \<open>What a path needs\<close>

text \<open>The locals that are read before they are written; \<open>L\<close> is what is needed at the end.\<close>

fun need :: "event list \<Rightarrow> nat set \<Rightarrow> nat set" where
  "need [] L = L"
| "need (Reads i # t) L = insert i (need t L)"
| "need (Writes i # t) L = need t L - {i}"
| "need (_ # t) L = need t L"

definition lookup_set :: "(position \<rightharpoonup> nat set) \<Rightarrow> position \<Rightarrow> nat set" where
  "lookup_set m p = (case m p of None \<Rightarrow> {} | Some A \<Rightarrow> A)"

text \<open>At a point the plan clears nothing that is needed, and restores everything that is.\<close>

fun point_ok :: "plan \<Rightarrow> event \<Rightarrow> nat set \<Rightarrow> bool" where
  "point_ok plan (Enters p) L = (lookup_set (pl_entries plan) p \<inter> L = {})"
| "point_ok plan (Ends p) L = (lookup_set (pl_retired plan) p \<inter> L = {})"
| "point_ok plan (Done p) L = (lookup_set (pl_expressions plan) p \<inter> L = {}
     \<and> (case pl_restores plan p of None \<Rightarrow> True | Some R \<Rightarrow> L \<subseteq> R))"
| "point_ok plan _ L = True"

fun good :: "plan \<Rightarrow> event list \<Rightarrow> nat set \<Rightarrow> bool" where
  "good plan [] L = True"
| "good plan (e # t) L = (point_ok plan e (need t L) \<and> good plan t L)"

definition path_safe :: "plan \<Rightarrow> path set \<Rightarrow> nat set \<Rightarrow> (way \<Rightarrow> nat set) \<Rightarrow> bool" where
  "path_safe plan A before out \<longleftrightarrow> (\<forall>(t, w) \<in> A. good plan t (out w) \<and> need t (out w) \<subseteq> before)"

fun outs :: "targets \<Rightarrow> nat set \<Rightarrow> way \<Rightarrow> nat set" where
  "outs T live Falls = live"
| "outs T live Breaks = exit_live T"
| "outs T live Continues = head_live T"
| "outs T live Returns = {}"

lemma need_append [simp]: "need (t @ u) L = need t (need u L)"
  by (induction t L rule: need.induct) auto

lemma good_append [simp]: "good plan (t @ u) L \<longleftrightarrow> good plan t (need u L) \<and> good plan u L"
  by (induction t) auto

lemma need_mono: "L \<subseteq> M \<Longrightarrow> need t L \<subseteq> need t M"
  by (induction t L rule: need.induct) auto

lemma point_ok_mono: "L \<subseteq> M \<Longrightarrow> point_ok plan e M \<Longrightarrow> point_ok plan e L"
  by (cases e) (auto split: option.splits)

lemma good_mono: "L \<subseteq> M \<Longrightarrow> good plan t M \<Longrightarrow> good plan t L"
proof (induction t)
  case (Cons e t)
  then show ?case using point_ok_mono [OF need_mono, of L M plan e t] by simp
qed simp

lemma soundD: "path_safe plan A before out \<Longrightarrow> (t, w) \<in> A \<Longrightarrow> good plan t (out w)"
  "path_safe plan A before out \<Longrightarrow> (t, w) \<in> A \<Longrightarrow> need t (out w) \<subseteq> before"
  unfolding path_safe_def by blast+

lemma soundI: "(\<And>t w. (t, w) \<in> A \<Longrightarrow> good plan t (out w) \<and> need t (out w) \<subseteq> before) \<Longrightarrow> path_safe plan A before out"
  unfolding path_safe_def by blast

lemma sound_weak: "path_safe plan A before out \<Longrightarrow> before \<subseteq> before' \<Longrightarrow> path_safe plan A before' out"
  unfolding path_safe_def by blast

lemma aheadI: "(t, Falls) \<in> A \<Longrightarrow> (u, w) \<in> B \<Longrightarrow> (t @ u, w) \<in> ahead A B"
  unfolding ahead_def by blast

lemma point_in: "([e], Falls) \<in> point e" and skip_in: "([], Falls) \<in> skip"
  by (simp_all add: point_def skip_def)

lemma sound_skip: "live \<subseteq> before \<Longrightarrow> path_safe plan skip before (outs T live)"
  by (simp add: path_safe_def skip_def)

lemma sound_point: "point_ok plan e live \<Longrightarrow> need [e] live \<subseteq> before \<Longrightarrow> path_safe plan (point e) before (outs T live)"
  by (simp add: path_safe_def point_def)

lemma sound_union: "path_safe plan A before out \<Longrightarrow> path_safe plan B before out \<Longrightarrow> path_safe plan (A \<union> B) before out"
  unfolding path_safe_def by blast

lemma sound_less:
  assumes "path_safe plan A before (outs T live')" "live \<subseteq> live'"
  shows "path_safe plan A before (outs T live)"
proof (rule soundI)
  fix t w assume t: "(t, w) \<in> A"
  have "outs T live w \<subseteq> outs T live' w" using assms(2) by (cases w) auto
  then show "good plan t (outs T live w) \<and> need t (outs T live w) \<subseteq> before"
    using soundD [OF assms(1) t] good_mono need_mono by blast
qed

lemma sound_ahead:
  assumes A: "path_safe plan A before (outs T mid)" and B: "path_safe plan B mid (outs T live)"
  shows "path_safe plan (ahead A B) before (outs T live)"
proof (rule soundI)
  fix t w assume "(t, w) \<in> ahead A B"
  then consider u v where "t = u @ v" "(u, Falls) \<in> A" "(v, w) \<in> B" | "(t, w) \<in> A" "w \<noteq> Falls"
    unfolding ahead_def by blast
  then show "good plan t (outs T live w) \<and> need t (outs T live w) \<subseteq> before"
  proof cases
    case 1
    have v: "good plan v (outs T live w)" "need v (outs T live w) \<subseteq> mid" using soundD [OF B 1(3)] by blast+
    have u: "good plan u mid" "need u mid \<subseteq> before" using soundD [OF A 1(2)] by simp_all
    show ?thesis using v(1) good_mono [OF v(2) u(1)] need_mono [OF v(2), of u] u(2) by (auto simp: 1(1))
  next
    case 2
    have "outs T live w = outs T mid w" using 2(2) by (cases w) simp_all
    then show ?thesis using soundD [OF A 2(1)] by simp
  qed
qed

lemma sound_turns:
  assumes C: "path_safe plan C head (outs T (after \<union> before))" and B: "path_safe plan B before (outs (Some (after, head)) head)"
  shows "path_safe plan (turns C B) head (outs T after)"
proof (rule soundI)
  have cond: "good plan t L \<and> need t L \<subseteq> head" if "(t, Falls) \<in> C" "L \<subseteq> after \<union> before" for t L
    using soundD [OF C that(1)] good_mono [OF that(2)] need_mono [OF that(2), of t] by auto
  have join: "good plan (t @ u) L \<and> need (t @ u) L \<subseteq> head"
    if "(t, Falls) \<in> C" "(u, w) \<in> B" "L \<subseteq> outs (Some (after, head)) head w" for t u w L
  proof -
    have "good plan u L" "need u L \<subseteq> before"
      using soundD [OF B that(2)] good_mono [OF that(3)] need_mono [OF that(3), of u] by auto
    then show ?thesis using cond [OF that(1), of "need u L"] by auto
  qed
  fix t w assume "(t, w) \<in> turns C B"
  then show "good plan t (outs T after w) \<and> need t (outs T after w) \<subseteq> head"
  proof (induction rule: turns.induct)
    case (leave t)
    then show ?case using cond by simp
  next
    case (outer t w)
    then have "outs T after w = outs T (after \<union> before) w" by (cases w) simp_all
    then show ?case using soundD [OF C outer(1)] by simp
  next
    case (break t u)
    then show ?case using join [OF break, of after] by (simp add: exit_live_def)
  next
    case (return t u)
    then show ?case using join [OF return, of "{}"] by simp
  next
    case (again t u w v w')
    have "need v (outs T after w') \<subseteq> outs (Some (after, head)) head w"
      using again.IH again.hyps(3) by (auto simp: head_live_def)
    from join [OF again.hyps(1,2) this] again.IH show ?case by simp
  qed
qed

end
