(* ===== verification/Clearing.thy ===== *)
theory Clearing
  imports Paths
begin

text \<open>
  The liveness plan is sound: what it clears is not read before it is written, and what an expression
  has to restore contains everything that is read later.  Each step of the analysis writes the cells
  of the plan in its own part of the tree, and keeps what the later steps rely on.
\<close>

section \<open>Cells of a plan\<close>

datatype cell = Entry position | Ended position | Clear position | Restore position

fun cell_at :: "cell \<Rightarrow> position" where
  "cell_at (Entry p) = p"
| "cell_at (Ended p) = p"
| "cell_at (Clear p) = p"
| "cell_at (Restore p) = p"

fun cell_of :: "plan \<Rightarrow> cell \<Rightarrow> nat set option" where
  "cell_of s (Entry p) = pl_entries s p"
| "cell_of s (Ended p) = pl_retired s p"
| "cell_of s (Clear p) = pl_expressions s p"
| "cell_of s (Restore p) = pl_restores s p"

text \<open>The index of the child of \<open>pos\<close> that a position is in.\<close>

definition kid :: "position \<Rightarrow> position \<Rightarrow> nat option" where
  "kid pos p = (let n = length p - length pos in
     if length pos < length p \<and> drop n p = pos then Some (p ! (n - 1)) else None)"

lemma kid_iff: "kid pos p = Some i \<longleftrightarrow> (\<exists>r. p = r @ i # pos)"
proof
  assume "kid pos p = Some i"
  then have n: "length pos < length p" "drop (length p - length pos) p = pos" "p ! (length p - length pos - 1) = i"
    by (auto simp: kid_def Let_def split: if_splits)
  have "p = take (length p - length pos - 1) p @ i # drop (Suc (length p - length pos - 1)) p"
    using id_take_nth_drop [of "length p - length pos - 1" p] n by simp
  then show "\<exists>r. p = r @ i # pos" using n by (metis Suc_diff_1 zero_less_diff)
next
  assume "\<exists>r. p = r @ i # pos"
  then show "kid pos p = Some i" by (auto simp: kid_def nth_append)
qed

lemma kid_self [simp]: "kid pos pos = None"
  using kid_iff by (metis append_Cons append_Nil append_assoc append_self_conv2 list.discI not_None_eq)

lemma kid_child [simp]: "kid pos (i # pos) = Some i"
  unfolding kid_iff by (rule exI [of _ "[]"]) simp

definition under :: "position \<Rightarrow> cell set" where
  "under pos = {c. cell_at c \<in> at_or_below pos}"

definition kidded :: "position \<Rightarrow> nat set \<Rightarrow> cell set" where
  "kidded pos I = {c. \<exists>i \<in> I. kid pos (cell_at c) = Some i}"

lemma under_kid: "under (i # pos) = kidded pos {i}"
  by (auto simp: under_def kidded_def at_or_below_def kid_iff)

lemma under_iff: "c \<in> under pos \<longleftrightarrow> cell_at c = pos \<or> kid pos (cell_at c) \<noteq> None"
proof -
  have "(\<exists>r. p = r @ pos) \<longleftrightarrow> p = pos \<or> (\<exists>i r. p = r @ i # pos)" for p
    by (metis append.assoc append_Cons append_Nil append_butlast_last_id)
  moreover have "kid pos p \<noteq> None \<longleftrightarrow> (\<exists>i r. p = r @ i # pos)" for p unfolding not_None_eq kid_iff ..
  ultimately show ?thesis unfolding under_def at_or_below_def by simp
qed

lemmas cells = under_kid kidded_def

section \<open>What every step keeps\<close>

text \<open>The expressions that can have a cell of \<open>expressions\<close>.\<close>

fun clearing_kind :: "expr_kind \<Rightarrow> bool" where
  "clearing_kind (ELocal _) = True"
| "clearing_kind (EField _ _) = True"
| "clearing_kind (EBinary op _ _) = lazy op"
| "clearing_kind (EIf _ _ _) = True"
| "clearing_kind _ = False"

definition plan_ok :: "scan \<Rightarrow> (position \<times> node) list \<Rightarrow> plan \<Rightarrow> bool" where
  "plan_ok q N s \<longleftrightarrow> right_answers (sn_shared q) (sn_allocating q) N (pl_answers s)
     \<and> (\<forall>pos e. (pos, At_expr e) \<in> set N \<longrightarrow> \<not> clearing_kind (e_kind e) \<longrightarrow> pl_expressions s pos = None)
     \<and> (\<forall>pos e. (pos, At_expr e) \<in> set N \<longrightarrow> \<not> can_allocate (sn_shared q) (sn_allocating q) (eager_expr e)
          \<longrightarrow> pl_restores s pos = None)
     \<and> (\<forall>pos. pl_entries s (0 # pos) = None)"

definition secures :: "scan \<Rightarrow> (position \<times> node) list \<Rightarrow> cell set \<Rightarrow> 'a analysis \<Rightarrow> ('a \<Rightarrow> plan \<Rightarrow> bool) \<Rightarrow> bool" where
  "secures q N P f R \<longleftrightarrow> (\<forall>s x s'. plan_ok q N s \<longrightarrow> f s = Some (x, s') \<longrightarrow>
     plan_ok q N s' \<and> (\<forall>c. c \<notin> P \<longrightarrow> cell_of s' c = cell_of s c)
     \<and> (\<forall>plan. (\<forall>c \<in> P. cell_of plan c = cell_of s' c) \<longrightarrow> R x plan))"

lemma securesI:
  assumes "\<And>s x s'. plan_ok q N s \<Longrightarrow> f s = Some (x, s') \<Longrightarrow> plan_ok q N s'"
    and "\<And>s x s' c. plan_ok q N s \<Longrightarrow> f s = Some (x, s') \<Longrightarrow> c \<notin> P \<Longrightarrow> cell_of s' c = cell_of s c"
    and "\<And>s x s' plan. plan_ok q N s \<Longrightarrow> f s = Some (x, s') \<Longrightarrow> \<forall>c \<in> P. cell_of plan c = cell_of s' c \<Longrightarrow> R x plan"
  shows "secures q N P f R"
  unfolding secures_def using assms by blast

lemma securesD:
  assumes "secures q N P f R" "plan_ok q N s" "f s = Some (x, s')"
  shows "plan_ok q N s'" "c \<notin> P \<Longrightarrow> cell_of s' c = cell_of s c"
    "\<forall>c \<in> P. cell_of plan c = cell_of s' c \<Longrightarrow> R x plan"
  using assms unfolding secures_def by blast+

lemma secures_more: "secures q N P f R \<Longrightarrow> P \<subseteq> Q \<Longrightarrow> (\<And>x plan. R x plan \<Longrightarrow> S x plan) \<Longrightarrow> secures q N Q f S"
  unfolding secures_def by blast

lemma secures_give: "(\<And>plan. R x plan) \<Longrightarrow> secures q N P (give x) R"
  by (rule securesI) (auto simp: give_def)

lemma secures_dep:
  assumes f: "secures q N P f R" and F: "\<And>x plan. R x plan \<Longrightarrow> F x" and g: "\<And>x. F x \<Longrightarrow> secures q N Q (g x) (S x)"
    and apart: "P \<inter> Q = {}" and whole: "P \<union> Q \<subseteq> V"
    and both: "\<And>x y plan. R x plan \<Longrightarrow> S x y plan \<Longrightarrow> U y plan"
  shows "secures q N V (andThen f g) U"
proof (rule securesI)
  fix s y t assume s: "plan_ok q N s" "andThen f g s = Some (y, t)"
  then obtain x s' where run: "f s = Some (x, s')" "g x s' = Some (y, t)"
    by (auto simp: andThen_def split: bind_splits)
  note one = securesD [OF f s(1) run(1)]
  have "F x" by (rule F [OF one(3) [of s']]) simp
  note two = securesD [OF g [OF this] one(1) run(2)]
  show "plan_ok q N t" by (rule two(1))
  show "cell_of t c = cell_of s c" if "c \<notin> V" for c
  proof -
    have "c \<notin> P" "c \<notin> Q" using that whole by blast+
    then show ?thesis using one(2) two(2) by simp
  qed
  show "U y plan" if agree: "\<forall>c \<in> V. cell_of plan c = cell_of t c" for plan
  proof (rule both)
    show "R x plan" by (rule one(3)) (use agree whole apart two(2) in fastforce)
    show "S x y plan" by (rule two(3)) (use agree whole in blast)
  qed
qed

lemma secures_then:
  assumes "secures q N P f R" "\<And>x. secures q N Q (g x) (S x)" "P \<inter> Q = {}" "P \<union> Q \<subseteq> V"
    and "\<And>x y plan. R x plan \<Longrightarrow> S x y plan \<Longrightarrow> U y plan"
  shows "secures q N V (andThen f g) U"
  by (rule secures_dep [OF assms(1), where F = "\<lambda>_. True", OF _ assms(2-5)]) simp_all

text \<open>A first step that leaves the plan alone; what it says holds for every plan.\<close>

lemma secures_fact:
  assumes "secures q N {} f (\<lambda>x _. F x)" "\<And>x. F x \<Longrightarrow> secures q N V (g x) U"
  shows "secures q N V (andThen f g) U"
  by (rule secures_dep [OF assms(1) _ assms(2)]) simp_all

section \<open>The steps\<close>

lemma plan_ok_answers: "plan_ok q N s \<Longrightarrow> right_answers (sn_shared q) (sn_allocating q) N m \<Longrightarrow> plan_ok q N (s\<lparr>pl_answers := m\<rparr>)"
  by (simp add: plan_ok_def)

lemma cell_of_answers [simp]: "cell_of (s\<lparr>pl_answers := m\<rparr>) c = cell_of s c" "cell_of (s\<lparr>pl_definitions := d\<rparr>) c = cell_of s c"
  by (cases c; simp)+

lemma secures_ask:
  assumes "distinct (map fst N)" "set (nodes_expr e pos) \<subseteq> set N"
  shows "secures q N {} (ask q e pos) (\<lambda>b _. b = can_allocate (sn_shared q) (sn_allocating q) (eager_expr e))"
proof -
  let ?f = "may_expr (sn_shared q) (sn_allocating q) e pos"
  let ?b = "can_allocate (sn_shared q) (sn_allocating q) (eager_expr e)"
  have "x = ?b \<and> plan_ok q N s' \<and> (\<exists>m. s' = s\<lparr>pl_answers := m\<rparr>)" if s: "plan_ok q N s" "ask q e pos s = Some (x, s')" for s x s'
  proof -
    have "right_answers (sn_shared q) (sn_allocating q) N (pl_answers s)" using s(1) by (simp add: plan_ok_def)
    with tells_now(1) [OF assms] have "fst (?f (pl_answers s)) = ?b"
        "right_answers (sn_shared q) (sn_allocating q) N (snd (?f (pl_answers s)))"
      unfolding tells_def by blast+
    then show ?thesis using s(2) plan_ok_answers [OF s(1)] by (auto simp: ask_def split: prod.splits)
  qed
  then show ?thesis by (intro securesI) fastforce+
qed

lemma secures_ask_block:
  assumes "distinct (map fst N)" "set (nodes_block b pos) \<subseteq> set N"
  shows "secures q N {} (ask_block q b pos) (\<lambda>x _. x = can_allocate (sn_shared q) (sn_allocating q) (eager_block b))"
proof -
  let ?b = "can_allocate (sn_shared q) (sn_allocating q) (eager_block b)"
  let ?f = "may_block (sn_shared q) (sn_allocating q) b pos"
  have "x = ?b \<and> plan_ok q N s' \<and> (\<exists>m. s' = s\<lparr>pl_answers := m\<rparr>)" if s: "plan_ok q N s" "ask_block q b pos s = Some (x, s')" for s x s'
  proof -
    have "right_answers (sn_shared q) (sn_allocating q) N (pl_answers s)" using s(1) by (simp add: plan_ok_def)
    with tells_now(6) [OF assms] have "fst (?f (pl_answers s)) = ?b" "right_answers (sn_shared q) (sn_allocating q) N (snd (?f (pl_answers s)))"
      unfolding tells_def by blast+
    then show ?thesis using s(2) plan_ok_answers [OF s(1)] by (auto simp: ask_block_def split: prod.splits)
  qed
  then show ?thesis by (intro securesI) fastforce+
qed

lemma secures_or_ask: "secures q N {} f (\<lambda>x _. True) \<Longrightarrow> secures q N {} (or_ask b f) (\<lambda>x _. True)"
  by (simp add: or_ask_def secures_give)

lemma secures_define: "secures q N {} (define_locals ids) (\<lambda>x _. True)"
  by (rule securesI) (auto simp: define_locals_def plan_ok_def)

lemma secures_written: "secures q N P f R \<Longrightarrow> secures q N P (with_written w f) (\<lambda>x. R (fst x))"
proof (rule securesI)
  fix s x s' assume f: "secures q N P f R" and s: "plan_ok q N s" "with_written w f s = Some (x, s')"
  then obtain y t where run: "f (s\<lparr>pl_definitions := w\<rparr>) = Some (y, t)" "fst x = y"
      "s' = t\<lparr>pl_definitions := pl_definitions s \<union> pl_definitions t\<rparr>"
    by (auto simp: with_written_def split: bind_splits)
  have "plan_ok q N (s\<lparr>pl_definitions := w\<rparr>)" using s(1) by (simp add: plan_ok_def)
  note one = securesD [OF f this run(1)]
  show "plan_ok q N s'" using one(1) by (simp add: run(3) plan_ok_def)
  show "cell_of s' c = cell_of s c" if "c \<notin> P" for c using one(2) [OF that] by (simp add: run(3))
  show "R (fst x) plan" if "\<forall>c \<in> P. cell_of plan c = cell_of s' c" for plan
    unfolding run(2) by (rule one(3)) (use that in \<open>simp add: run(3)\<close>)
qed

lemma secures_entry: "secures q N {Entry (Suc k # pos)} (put_entry (Suc k # pos) A) (\<lambda>_ plan. lookup_set (pl_entries plan) (Suc k # pos) = A)"
proof (rule securesI)
  fix s x s' c assume "plan_ok q N s" "put_entry (Suc k # pos) A s = Some (x, s')" "c \<notin> {Entry (Suc k # pos)}"
  then show "cell_of s' c = cell_of s c" by (cases c) (auto simp: put_entry_def)
qed (auto simp: put_entry_def plan_ok_def lookup_set_def)

lemma secures_retired: "secures q N {Ended pos} (put_retired pos A) (\<lambda>_ plan. lookup_set (pl_retired plan) pos = A)"
proof (rule securesI)
  fix s x s' c assume "plan_ok q N s" "put_retired pos A s = Some (x, s')" "c \<notin> {Ended pos}"
  then show "cell_of s' c = cell_of s c" by (cases c) (auto simp: put_retired_def)
qed (auto simp: put_retired_def plan_ok_def lookup_set_def)

text \<open>The keys of the nodes are distinct, so a cell belongs to one expression.\<close>

lemma same_node: "distinct (map fst N) \<Longrightarrow> (pos, x) \<in> set N \<Longrightarrow> (pos, y) \<in> set N \<Longrightarrow> x = y"
  by (rule eq_key_imp_eq_value)

lemma secures_retirement:
  assumes "distinct (map fst N)" "(pos, At_expr e) \<in> set N" "clearing_kind (e_kind e)"
  shows "secures q N {Clear pos} (expression_retirement pos A) (\<lambda>_ plan. lookup_set (pl_expressions plan) pos = A)"
proof (rule securesI)
  fix s x s' c assume "plan_ok q N s" "expression_retirement pos A s = Some (x, s')" "c \<notin> {Clear pos}"
  then show "cell_of s' c = cell_of s c" by (cases c) (auto simp: expression_retirement_def)
next
  fix s x s' assume s: "plan_ok q N s" "expression_retirement pos A s = Some (x, s')"
  have "p \<noteq> pos" if "(p, At_expr d) \<in> set N" "\<not> clearing_kind (e_kind d)" for p d
    using same_node [OF assms(1,2)] that assms(3) by blast
  then show "plan_ok q N s'" using s unfolding plan_ok_def by (auto simp: expression_retirement_def)
qed (auto simp: expression_retirement_def lookup_set_def split: if_splits)

lemma secures_uncleared:
  assumes f: "secures q N P f R" and e: "(pos, At_expr e) \<in> set N" "\<not> clearing_kind (e_kind e)"
  shows "secures q N (insert (Clear pos) P) f (\<lambda>x plan. R x plan \<and> lookup_set (pl_expressions plan) pos = {})"
proof (rule securesI)
  fix s x s' assume s: "plan_ok q N s" "f s = Some (x, s')"
  note one = securesD [OF f s]
  show "plan_ok q N s'" by (rule one(1))
  show "cell_of s' c = cell_of s c" if "c \<notin> insert (Clear pos) P" for c using one(2) that by blast
  have "cell_of s' (Clear pos) = None" using one(1) e unfolding plan_ok_def by simp
  then show "R x plan \<and> lookup_set (pl_expressions plan) pos = {}"
    if "\<forall>c \<in> insert (Clear pos) P. cell_of plan c = cell_of s' c" for plan
    using one(3) [of plan] that by (auto simp: lookup_set_def)
qed

lemma secures_restore:
  assumes "distinct (map fst N)" "(pos, At_expr e) \<in> set N"
  shows "secures q N {Restore pos} (put_restore (can_allocate (sn_shared q) (sn_allocating q) (eager_expr e)) pos live)
    (\<lambda>_ plan. pl_restores plan pos = None \<or> pl_restores plan pos = Some live)"
proof (rule securesI)
  fix s x s' c
  assume "plan_ok q N s" "put_restore (can_allocate (sn_shared q) (sn_allocating q) (eager_expr e)) pos live s = Some (x, s')"
    "c \<notin> {Restore pos}"
  then show "cell_of s' c = cell_of s c" by (cases c) (auto simp: put_restore_def split: if_splits)
next
  fix s x s' assume s: "plan_ok q N s" "put_restore (can_allocate (sn_shared q) (sn_allocating q) (eager_expr e)) pos live s = Some (x, s')"
  have "can_allocate (sn_shared q) (sn_allocating q) (eager_expr d)"
    if "can_allocate (sn_shared q) (sn_allocating q) (eager_expr e)" "(pos, At_expr d) \<in> set N" for d
    using same_node [OF assms(1,2)] that by blast
  then show "plan_ok q N s'" using s unfolding plan_ok_def by (auto simp: put_restore_def split: if_splits)
next
  fix s x s' plan assume s: "plan_ok q N s" "put_restore (can_allocate (sn_shared q) (sn_allocating q) (eager_expr e)) pos live s = Some (x, s')"
    "\<forall>c \<in> {Restore pos}. cell_of plan c = cell_of s' c"
  then show "pl_restores plan pos = None \<or> pl_restores plan pos = Some live"
    using assms(2) unfolding plan_ok_def by (auto simp: put_restore_def split: if_splits)
qed

lemma secures_rounds:
  assumes "\<And>head. secures q N P (f head) (R head)"
  shows "secures q N P (rounds n f head) (\<lambda>x. R (snd x) x)"
proof (induction n arbitrary: head)
  case 0
  show ?case by (rule securesI) simp_all
next
  case (Suc n)
  show ?case
  proof (rule securesI)
    fix s x t assume s: "plan_ok q N s" "rounds (Suc n) f head s = Some (x, t)"
    then obtain before nxt s' where run: "f head s = Some ((before, nxt), s')"
        "if nxt = head then x = (before, head) \<and> t = s' else rounds n f nxt s' = Some (x, t)"
      by (auto split: bind_splits if_splits)
    note one = securesD [OF assms s(1) run(1)]
    have two: "plan_ok q N t \<and> (c \<notin> P \<longrightarrow> cell_of t c = cell_of s c)
      \<and> ((\<forall>c \<in> P. cell_of plan c = cell_of t c) \<longrightarrow> R (snd x) x plan)" for c plan
    proof (cases "nxt = head")
      case True
      then show ?thesis using one run(2) by auto
    next
      case False
      then have "rounds n f nxt s' = Some (x, t)" using run(2) by simp
      note two = securesD [OF Suc.IH one(1) this]
      show ?thesis using one(2) two by auto
    qed
    then show "plan_ok q N t" by blast
    show "cell_of t c = cell_of s c" if "c \<notin> P" for c using two that by blast
    show "R (snd x) x plan" if "\<forall>c \<in> P. cell_of plan c = cell_of t c" for plan
      using two that by blast
  qed
qed

section \<open>The shapes of the analysis\<close>

lemma secures_pair:
  assumes "secures q N P f (\<lambda>x. R (fst x))" "\<And>a b. secures q N Q (g a b) (S a)" "P \<inter> Q = {}" "P \<union> Q \<subseteq> V"
    and "\<And>a y plan. R a plan \<Longrightarrow> S a y plan \<Longrightarrow> U y plan"
  shows "secures q N V (andThen f (\<lambda>(a, b). g a b)) U"
proof (rule secures_then [OF assms(1) _ assms(3,4)])
  show "secures q N Q ((\<lambda>(a, b). g a b) x) (S (fst x))" for x using assms(2) by (cases x) simp
  show "R (fst x) plan \<Longrightarrow> S (fst x) y plan \<Longrightarrow> U y plan" for x y plan by (rule assms(5))
qed

lemma secures_fst:
  assumes "secures q N P f (\<lambda>x. R (fst x))"
  shows "secures q N P (andThen f (\<lambda>(live, b). give live)) R"
  by (rule secures_pair [OF assms, where Q = "{}" and S = "\<lambda>a y plan. a = y"]) (auto intro: secures_give)

lemma secures_asked:
  assumes "secures q N P f R" "distinct (map fst N)" "set (nodes_expr e pos) \<subseteq> set N"
  shows "secures q N P (andThen f (\<lambda>live. andThen (ask q e pos) (\<lambda>c. give (live, h c)))) (\<lambda>x. R (fst x))"
proof (rule secures_then [OF assms(1), where Q = "{}" and S = "\<lambda>a y plan. fst y = a"])
  show "secures q N {} (andThen (ask q e pos) (\<lambda>c. give (live, h c))) (\<lambda>y plan. fst y = live)" for live
    by (rule secures_fact [OF secures_more [OF secures_ask [OF assms(2,3)], where S = "\<lambda>_ _. True"]])
      (auto intro: secures_give)
qed auto

text \<open>The analysis goes backwards: \<open>f\<close> is for what is evaluated last.\<close>

definition sound_for :: "path set \<Rightarrow> targets \<Rightarrow> nat set \<Rightarrow> nat set \<Rightarrow> plan \<Rightarrow> bool" where
  "sound_for A T live before plan \<longleftrightarrow> path_safe plan A before (outs T live)"

lemma secures_seq:
  assumes "secures q N P f (sound_for B T live)" "\<And>x. secures q N Q (g x) (sound_for A T x)"
    and "P \<inter> Q = {}" "P \<union> Q \<subseteq> V"
  shows "secures q N V (andThen f g) (sound_for (ahead A B) T live)"
  by (rule secures_then [OF assms]) (simp add: sound_for_def sound_ahead)

lemma secures_seq_pair:
  assumes "secures q N P f (\<lambda>x. sound_for B T live (fst x))" "\<And>a b. secures q N Q (g a b) (\<lambda>x. sound_for A T a (h x))"
    and "P \<inter> Q = {}" "P \<union> Q \<subseteq> V"
  shows "secures q N V (andThen f (\<lambda>(a, b). g a b)) (\<lambda>x. sound_for (ahead A B) T live (h x))"
  by (rule secures_pair [OF assms]) (simp add: sound_for_def sound_ahead)

definition kind_for :: "expr_kind \<Rightarrow> position \<Rightarrow> targets \<Rightarrow> nat set \<Rightarrow> nat set \<Rightarrow> plan \<Rightarrow> bool" where
  "kind_for kind pos T live before plan \<longleftrightarrow> path_safe plan (path_kind kind pos) before (outs T live)
     \<and> lookup_set (pl_expressions plan) pos \<inter> live = {}"

lemma secures_plain:
  assumes "(pos, At_expr (Expr kind t span)) \<in> set N" "secures q N P f (sound_for A T live)" "P \<subseteq> kidded pos UNIV"
    and "path_kind kind pos = A" "\<not> clearing_kind kind"
  shows "secures q N (insert (Clear pos) (kidded pos UNIV)) f (kind_for kind pos T live)"
  by (rule secures_more [OF secures_uncleared [OF assms(2,1)]]) (use assms(3-5) in \<open>auto simp: kind_for_def sound_for_def\<close>)

definition block_for :: "block \<Rightarrow> position \<Rightarrow> targets \<Rightarrow> nat set \<Rightarrow> nat set \<Rightarrow> plan \<Rightarrow> bool" where
  "block_for b pos T live before plan \<longleftrightarrow>
     (lookup_set (pl_entries plan) pos \<inter> before = {} \<longrightarrow> path_safe plan (path_block b pos) before (outs T live))"

text \<open>The cells of the arms of a match, without those of their entries.\<close>

definition arm_cells :: "nat \<Rightarrow> position \<Rightarrow> cell set" where
  "arm_cells k pos = {c \<in> kidded pos {k..}. \<forall>i. c \<noteq> Entry (i # pos)}"

definition arms_for :: "match_arm list \<Rightarrow> nat \<Rightarrow> position \<Rightarrow> targets \<Rightarrow> nat set \<Rightarrow> (position \<times> nat set \<times> bool) list \<Rightarrow> nat set \<Rightarrow>
    nat set \<times> bool \<times> (position \<times> nat set \<times> bool) list \<Rightarrow> plan \<Rightarrow> bool" where
  "arms_for arms k pos T live incoming branches x plan \<longleftrightarrow> branches \<subseteq> fst x
     \<and> set incoming \<subseteq> set (snd (snd x))
     \<and> map fst (snd (snd x)) = map fst incoming @ map (\<lambda>i. i # pos) [k..<k + length arms]
     \<and> ((\<forall>(p, entry, _) \<in> set (snd (snd x)). lookup_set (pl_entries plan) p \<inter> entry = {}) \<longrightarrow>
         path_safe plan (path_arms arms k pos) (fst x) (outs T live))"

lemma lookup_if_so: "A \<inter> B = {} \<Longrightarrow> if_so b A \<inter> B = {}"
  by (simp add: if_so_def)

lemma clear_apart [simp]: "Clear pos \<notin> kidded pos I" "Entry pos \<notin> kidded pos I" "Restore pos \<notin> kidded pos I"
  "Entry (k # pos) \<in> kidded pos I \<longleftrightarrow> k \<in> I" "Ended (k # pos) \<in> kidded pos I \<longleftrightarrow> k \<in> I"
  by (auto simp: kidded_def)

lemma kidded_parts [simp]: "kidded pos I \<inter> kidded pos J = {} \<longleftrightarrow> I \<inter> J = {}" "kidded pos I \<subseteq> kidded pos J \<longleftrightarrow> I \<subseteq> J"
proof -
  show "kidded pos I \<inter> kidded pos J = {} \<longleftrightarrow> I \<inter> J = {}"
  proof
    assume "kidded pos I \<inter> kidded pos J = {}"
    then have "Entry (i # pos) \<notin> kidded pos I \<inter> kidded pos J" for i by simp
    then show "I \<inter> J = {}" by auto
  qed (auto simp: kidded_def)
  show "kidded pos I \<subseteq> kidded pos J \<longleftrightarrow> I \<subseteq> J"
  proof
    assume sub: "kidded pos I \<subseteq> kidded pos J"
    show "I \<subseteq> J"
    proof
      fix i assume "i \<in> I"
      then have "Entry (i # pos) \<in> kidded pos J" using sub by (intro subsetD [OF sub]) simp
      then show "i \<in> J" by simp
    qed
  qed (auto simp: kidded_def)
qed

lemma under_parts: "insert (Clear pos) (kidded pos UNIV) \<union> {Restore pos} \<subseteq> under pos"
  "kidded pos I \<subseteq> under pos - {Entry pos}"
  by (auto simp: under_iff kidded_def)

lemma stmt_cells: "kidded (k # pos) UNIV \<subseteq> kidded pos {k}" "Ended (k # pos) \<notin> kidded (k # pos) UNIV"
  using under_parts(2) [of "k # pos" UNIV] by (auto simp: under_kid kidded_def)

lemma secures_nothing: "live \<subseteq> before \<Longrightarrow> secures q N P (give before) (sound_for skip T live)"
  by (rule secures_give) (simp add: sound_for_def sound_skip)


lemma andThen_give [simp]: "andThen (give x) g = g x"
  by (rule ext) (simp add: andThen_def give_def)

lemma secures_asking:
  assumes "distinct (map fst N)" "set (nodes_expr e pos) \<subseteq> set N" "\<And>c. secures q N V (g c) U"
  shows "secures q N V (andThen (or_ask b (ask q e pos)) g) U" "secures q N V (andThen (ask q e pos) g) U"
  by (rule secures_fact [OF secures_or_ask [OF secures_more [OF secures_ask [OF assms(1,2)]]]] secures_fact [OF secures_more [OF secures_ask [OF assms(1,2)]]];
    (rule assms(3) | simp))+

lemma secures_asking_block:
  assumes "distinct (map fst N)" "set (nodes_block e pos) \<subseteq> set N" "\<And>c. secures q N V (g c) U"
  shows "secures q N V (andThen (or_ask b (ask_block q e pos)) g) U" "secures q N V (andThen (ask_block q e pos) g) U"
  by (rule secures_fact [OF secures_or_ask [OF secures_more [OF secures_ask_block [OF assms(1,2)]]]] secures_fact [OF secures_more [OF secures_ask_block [OF assms(1,2)]]];
    (rule assms(3) | simp))+

lemma secures_unentered:
  assumes f: "secures q N P f R"
  shows "secures q N (insert (Entry (0 # pos)) P) f (\<lambda>x plan. R x plan \<and> lookup_set (pl_entries plan) (0 # pos) = {})"
proof (rule securesI)
  fix s x s' assume s: "plan_ok q N s" "f s = Some (x, s')"
  note one = securesD [OF f s]
  show "plan_ok q N s'" by (rule one(1))
  show "cell_of s' c = cell_of s c" if "c \<notin> insert (Entry (0 # pos)) P" for c using one(2) that by blast
  have "cell_of s' (Entry (0 # pos)) = None" using one(1) unfolding plan_ok_def by simp
  then show "R x plan \<and> lookup_set (pl_entries plan) (0 # pos) = {}"
    if "\<forall>c \<in> insert (Entry (0 # pos)) P. cell_of plan c = cell_of s' c" for plan
    using one(3) [of plan] that by (auto simp: lookup_set_def)
qed

lemma secures_entered: "0 < k \<Longrightarrow> secures q N {Entry (k # pos)} (put_entry (k # pos) A) (\<lambda>_ plan. lookup_set (pl_entries plan) (k # pos) = A)"
  using secures_entry [where k = "k - 1"] by simp

lemma secures_entries:
  assumes "distinct (map fst incoming)" "fst ` set incoming \<subseteq> (\<lambda>i. i # pos) ` {1..}"
  shows "secures q N (Entry ` fst ` set incoming) (put_entries branches incoming)
    (\<lambda>_ plan. \<forall>(p, entry, _) \<in> set incoming. lookup_set (pl_entries plan) p \<inter> entry = {})"
  using assms
proof (induction incoming)
  case Nil
  then show ?case by (auto intro: secures_give)
next
  case (Cons x incoming)
  obtain p entry c where x: "x = (p, entry, c)" by (metis prod.exhaust)
  from Cons.prems(2) obtain i where p: "p = i # pos" "0 < i" by (auto simp: x)
  have rest: "secures q N (Entry ` fst ` set incoming) (put_entries branches incoming)
      (\<lambda>_ plan. \<forall>(p, entry, _) \<in> set incoming. lookup_set (pl_entries plan) p \<inter> entry = {})"
    by (rule Cons.IH) (use Cons.prems in auto)
  show ?case unfolding x put_entries.simps p(1)
    by (rule secures_then [OF secures_entered [OF p(2)] rest]) (use Cons.prems(1) in \<open>auto simp: x p(1) if_so_def\<close>)
qed

lemma secures_block:
  assumes "secures q N P f (sound_for A T live)" "P \<subseteq> kidded pos UNIV" "path_block b pos = ahead (point (Enters pos)) A"
  shows "secures q N (under pos - {Entry pos}) f (block_for b pos T live)"
proof (rule secures_more [OF assms(1)])
  show "P \<subseteq> under pos - {Entry pos}" using assms(2) under_parts(2) [of pos UNIV] by blast
  fix before plan assume A: "sound_for A T live before plan"
  have "path_safe plan (point (Enters pos)) before (outs T before)" if "lookup_set (pl_entries plan) pos \<inter> before = {}"
    by (rule sound_point) (simp_all add: that)
  then show "block_for b pos T live before plan"
    using A by (auto simp: block_for_def sound_for_def assms(3) intro: sound_ahead)
qed

lemma sound_writes:
  assumes "entry - L \<subseteq> before"
  shows "path_safe plan {(map Writes ids, Falls) | ids. set ids = L} before (outs T entry)"
proof -
  have "good plan (map Writes ids) M \<and> need (map Writes ids) M = M - set ids" for ids M
    by (induction ids) auto
  then show ?thesis using assms by (auto simp: path_safe_def)
qed

lemma sound_write: "path_safe plan A before (outs T (live - {i})) \<Longrightarrow> path_safe plan (ahead A (point (Writes i))) before (outs T live)"
  by (rule sound_ahead, assumption, rule sound_point) simp_all

end
