(* ===== verification/Retiring.thy ===== *)
theory Retiring
  imports Clearing
begin

text \<open>
  The liveness plan of a function is safe on every path: the induction over the code (theory \<open>Clearing\<close>
  has the rules), and the theorem about \<open>Plan::new\<close>.
\<close>

section \<open>Every part of the code\<close>

lemma settling:
  assumes "distinct (map fst N)"
  shows "set (nodes_expr e pos) \<subseteq> set N \<Longrightarrow> secures q N (under pos) (live_expr q e pos live T future) (sound_for (path_expr e pos) T live)"
  "(pos, At_expr (Expr kind t span)) \<in> set N \<Longrightarrow> set (nodes_kind kind pos) \<subseteq> set N \<Longrightarrow>
    secures q N (insert (Clear pos) (kidded pos UNIV)) (live_kind q kind t' pos live T future) (kind_for kind pos T live)"
  "set (nodes_exprs es k pos) \<subseteq> set N \<Longrightarrow>
    secures q N (kidded pos {k..}) (live_exprs q es k pos live T future) (\<lambda>x. sound_for (path_exprs es k pos) T live (fst x))"
  "set (nodes_fields fs k pos) \<subseteq> set N \<Longrightarrow>
    secures q N (kidded pos {k..}) (live_fields q fs k pos live T future) (\<lambda>x. sound_for (path_fields fs k pos) T live (fst x))"
  "set (nodes_exprs es k pos) \<subseteq> set N \<Longrightarrow>
    secures q N (kidded pos {k..}) (live_args q es k pos live T) (sound_for (path_exprs es k pos) T live)"
  "set (nodes_arms arms k pos) \<subseteq> set N \<Longrightarrow>
    secures q N (arm_cells k pos) (live_arms q arms k pos live T future branches collecting incoming)
      (arms_for arms k pos T live incoming branches)"
  "set (nodes_block b pos) \<subseteq> set N \<Longrightarrow>
    secures q N (under pos - {Entry pos}) (live_block q b pos live T future) (block_for b pos T live)"
  "set (nodes_stmts ss k pos) \<subseteq> set N \<Longrightarrow>
    secures q N (kidded pos {k..<k + length ss}) (live_stmts q ss k pos live T future)
      (\<lambda>x. sound_for (path_stmts ss k pos) T live (fst x))"
  "set (nodes_stmt sk pos) \<subseteq> set N \<Longrightarrow>
    secures q N (kidded pos UNIV) (live_stmt q sk pos live T future) (\<lambda>x. sound_for (path_stmt sk pos) T live (fst x))"
proof (induction q e and q kind and q es and q fs and q es and q arms and q b and q ss and q sk
    arbitrary: pos live T future and pos t span t' live T future and k pos live T future and k pos live T future
      and k pos live T and k pos live T future branches collecting incoming and pos live T future and k pos live T future
      and pos live T future
    rule: live_expr_live_kind_live_exprs_live_fields_live_args_live_arms_live_block_live_stmts_live_stmt.induct,
    goal_cases)
  case (1 q kind t span pos live T future)
  have node: "(pos, At_expr (Expr kind t span)) \<in> set N" "set (nodes_kind kind pos) \<subseteq> set N" using 1(2) by auto
  note steps = secures_then [OF secures_restore [OF assms node(1)] 1(1) [OF node]]
  show ?case unfolding live_expr.simps path_expr.simps
  proof (rule secures_fact [OF secures_ask [OF assms 1(2)]], hypsubst, rule steps, goal_cases)
    case (3 c u before plan)
    then have "point_ok plan (Done pos) live" by (auto simp: kind_for_def)
    then have "path_safe plan (point (Done pos)) live (outs T live)" by (rule sound_point) simp
    then show ?case using 3(2) by (auto simp: kind_for_def sound_for_def intro: sound_ahead)
  qed (use under_parts(1) [of pos] in auto)
next
  case (2 q i pos t span t' live T future)
  show ?case unfolding live_kind.simps
    by (rule secures_then [OF secures_retirement [OF assms 2(1)] secures_give [where R = "\<lambda>x plan. x = insert i live"]])
      (auto simp: kind_for_def if_so_def intro: sound_point)
next
  case (3 q e f pos t span t' live T future)
  show ?case unfolding live_kind.simps
    by (rule secures_then [OF secures_retirement [OF assms 3(2)] 3(1)])
      (use 3(3) in \<open>auto simp: kind_for_def if_so_def sound_for_def cells split: option.split\<close>)
next
  case (4 q op e pos t span t' live T future)
  show ?case unfolding live_kind.simps
    by (rule secures_plain [OF 4(2,1)]) (use 4(3) in \<open>auto simp: cells\<close>)
next
  case (5 q e pos t span t' live T future)
  show ?case unfolding live_kind.simps
    by (rule secures_plain [OF 5(2,1)]) (use 5(3) in \<open>auto simp: cells\<close>)
next
  case (6 q target e pos t span t' live T future)
  show ?case unfolding live_kind.simps
    by (rule secures_plain [OF 6(2,1)]) (use 6(3) in \<open>auto simp: cells\<close>)
next
  case (7 q table e pos t span t' live T future)
  show ?case unfolding live_kind.simps
    by (rule secures_plain [OF 7(2,1)]) (use 7(3) in \<open>auto simp: cells\<close>)
next
  case (8 q op a b pos t span t' live T future)
  have nodes: "set (nodes_expr a (0 # pos)) \<subseteq> set N" "set (nodes_expr b (1 # pos)) \<subseteq> set N" using 8(4) by auto
  note asking = secures_asking(1) [OF assms nodes(2)]
  show ?case
  proof (cases "lazy op")
    case True
    have inner: "secures q N (insert (Clear pos) (kidded pos {0}))
        (andThen (expression_retirement pos A) (\<lambda>_. andThen (or_ask future (ask q b (1 # pos)))
          (\<lambda>future. live_expr q a (0 # pos) M T future)))
        (\<lambda>y plan. lookup_set (pl_expressions plan) pos = A \<and> sound_for (path_expr a (0 # pos)) T M y plan)" for A M
      by (rule secures_then [OF secures_retirement [OF assms 8(3)] asking [OF 8(2) [OF nodes(1)]]])
        (auto simp: True cells)
    show ?thesis unfolding live_kind.simps if_P [OF True]
    proof (rule secures_then [OF 8(1) [OF nodes(2)] inner], goal_cases)
      case (3 before y plan)
      have "path_safe plan (skip \<union> path_expr b (1 # pos)) (before \<union> live) (outs T live)"
        using 3(1) by (auto simp: sound_for_def intro!: sound_union sound_skip intro: sound_weak)
      then show ?case using 3(2) True by (auto simp: kind_for_def sound_for_def if_so_def intro: sound_ahead)
    qed (auto simp: cells)
  next
    case False
    have kind: "path_kind (EBinary op a b) pos = ahead (path_expr a (0 # pos)) (path_expr b (1 # pos))" by (simp add: False)
    show ?thesis unfolding live_kind.simps if_not_P [OF False] andThen_give
      by (rule secures_plain [OF 8(3) secures_seq [OF 8(1) [OF nodes(2)] asking [OF 8(2) [OF nodes(1)]] _ order.refl] _ kind])
        (auto simp: cells False)
  qed
next
  case (9 q target args pos t span t' live T future)
  show ?case unfolding live_kind.simps
    by (rule secures_plain [OF 9(2) secures_fst [OF 9(1)]]) (use 9(3) in \<open>auto simp: cells\<close>)
next
  case (10 q op args pos t span t' live T future)
  show ?case unfolding live_kind.simps
    by (rule secures_plain [OF 10(2) secures_fst [OF 10(1)]]) (use 10(3) in \<open>auto simp: cells\<close>)
next
  case (13 q callee args pos t span t' live T future)
  have nodes: "set (nodes_expr callee (0 # pos)) \<subseteq> set N" "set (nodes_exprs args 1 pos) \<subseteq> set N" using 13(4) by auto
  show ?case unfolding live_kind.simps
    by (rule secures_plain [OF 13(3) secures_seq [OF 13(1) [OF nodes(2)] 13(2) [OF nodes(1)] _ order.refl]]) (auto simp: cells)
next
  case (14 q receiver slot args pos t span t' live T future)
  have nodes: "set (nodes_expr receiver (0 # pos)) \<subseteq> set N" "set (nodes_exprs args 1 pos) \<subseteq> set N" using 14(4) by auto
  show ?case unfolding live_kind.simps
    by (rule secures_plain [OF 14(3) secures_seq [OF 14(1) [OF nodes(2)] 14(2) [OF nodes(1)] _ order.refl]]) (auto simp: cells)
next
  case (11 q args pos t span t' live T future)
  show ?case unfolding live_kind.simps
    by (rule secures_plain [OF 11(2) secures_fst [OF 11(1)]]) (use 11(3) in \<open>auto simp: cells\<close>)
next
  case (12 q v args pos t span t' live T future)
  show ?case unfolding live_kind.simps
    by (rule secures_plain [OF 12(2) secures_fst [OF 12(1)]]) (use 12(3) in \<open>auto simp: cells\<close>)
next
  case (15 q fs pos t span t' live T future)
  show ?case unfolding live_kind.simps
    by (rule secures_plain [OF 15(2) secures_fst [OF 15(1)]]) (use 15(3) in \<open>auto simp: cells\<close>)
next
  case (16 q fs pos t span t' live T future)
  show ?case unfolding live_kind.simps
    by (rule secures_plain [OF 16(2) secures_fst [OF 16(1)]]) (use 16(3) in \<open>auto simp: cells\<close>)
next
  case (17 q frame f e pos t span t' live T future)
  have nodes: "set (nodes_expr frame (0 # pos)) \<subseteq> set N" "set (nodes_expr e (1 # pos)) \<subseteq> set N" using 17(4) by auto
  note second = secures_asking(1) [OF assms nodes(2) 17(2) [OF nodes(1)]]
  show ?case unfolding live_kind.simps
    by (rule secures_plain [OF 17(3) secures_seq [OF 17(1) [OF nodes(2)] second _ order.refl]]) (auto simp: cells)
next
  case (18 q b pos t span t' live T future)
  have b: "set (nodes_block b (0 # pos)) \<subseteq> set N" using 18(3) by simp
  show ?case unfolding live_kind.simps
    by (rule secures_plain [OF 18(2) secures_more [OF secures_unentered [OF 18(1) [OF b]] order.refl]])
      (auto simp: cells block_for_def sound_for_def)
next
  case (19 q e yes pos t span t' live T future)
  have nodes: "set (nodes_expr e (0 # pos)) \<subseteq> set N" "set (nodes_block yes (1 # pos)) \<subseteq> set N" using 19(4) by auto
  have inner: "secures q N (insert (Clear pos) (insert (Entry (1 # pos)) (kidded pos {0})))
      (andThen (expression_retirement pos A) (\<lambda>_. andThen (or_ask future (ask_block q yes (1 # pos))) (\<lambda>collects.
        andThen (put_entry (1 # pos) (if_so collects B)) (\<lambda>_. live_expr q e (0 # pos) M T collects))))
      (\<lambda>y plan. lookup_set (pl_expressions plan) pos = A \<and> lookup_set (pl_entries plan) (1 # pos) \<subseteq> B
         \<and> sound_for (path_expr e (0 # pos)) T M y plan)" for A B M
    by (rule secures_then [OF secures_retirement [OF assms 19(3)] secures_asking_block(1) [OF assms nodes(2)
          secures_then [OF secures_entered 19(2) [OF refl nodes(1)] _ order.refl]]])
      (auto simp: cells if_so_def)
  show ?case unfolding live_kind.simps Let_def
  proof (rule secures_then [OF 19(1) [OF nodes(2)] inner], goal_cases)
    case (3 before y plan)
    then have "path_safe plan (path_block yes (1 # pos)) before (outs T live)" by (auto simp: block_for_def)
    then have "path_safe plan (path_block yes (1 # pos) \<union> skip) (before \<union> live) (outs T live)"
      by (auto intro!: sound_union sound_skip intro: sound_weak)
    then show ?case using 3(2) by (auto simp: kind_for_def sound_for_def if_so_def intro: sound_ahead)
  qed (auto simp: cells)
next
  case (20 q e yes no pos t span t' live T future)
  have nodes: "set (nodes_expr e (0 # pos)) \<subseteq> set N" "set (nodes_block yes (1 # pos)) \<subseteq> set N"
    "set (nodes_block no (2 # pos)) \<subseteq> set N" using 20(5) by auto
  have last: "secures q N (insert (Entry (2 # pos)) (kidded pos {0}))
      (andThen (put_entry (2 # pos) (if_so c C)) (\<lambda>_. andThen (or_ask c' (ask_block q no (2 # pos))) (\<lambda>future.
         live_expr q e (0 # pos) M T future)))
      (\<lambda>y plan. lookup_set (pl_entries plan) (2 # pos) \<subseteq> C \<and> sound_for (path_expr e (0 # pos)) T M y plan)" for c c' C M
    by (rule secures_then [OF secures_entered secures_asking_block(1) [OF assms nodes(3) 20(3) [OF refl nodes(1)]]])
      (auto simp: cells if_so_def)
  have inner: "secures q N (insert (Clear pos) (insert (Entry (1 # pos)) (insert (Entry (2 # pos)) (kidded pos {0}))))
      (andThen (expression_retirement pos A) (\<lambda>_. andThen (or_ask future (ask_block q yes (1 # pos))) (\<lambda>collects.
        andThen (put_entry (1 # pos) (if_so collects B)) (\<lambda>_. andThen (or_ask future (ask_block q no (2 # pos))) (\<lambda>no_collects.
        andThen (put_entry (2 # pos) (if_so no_collects C)) (\<lambda>_. andThen (or_ask collects (ask_block q no (2 # pos))) (\<lambda>future.
          live_expr q e (0 # pos) M T future)))))))
      (\<lambda>y plan. lookup_set (pl_expressions plan) pos = A \<and> lookup_set (pl_entries plan) (1 # pos) \<subseteq> B
         \<and> lookup_set (pl_entries plan) (2 # pos) \<subseteq> C \<and> sound_for (path_expr e (0 # pos)) T M y plan)" for A B C M
    by (rule secures_then [OF secures_retirement [OF assms 20(4)] secures_asking_block(1) [OF assms nodes(2)
          secures_then [OF secures_entered secures_asking_block(1) [OF assms nodes(3) last] _ order.refl]]])
      (auto simp: cells if_so_def)
  let ?all = "\<lambda>yes_live y plan. \<exists>no_live. block_for no (2 # pos) T live no_live plan
     \<and> lookup_set (pl_expressions plan) pos \<inter> live = {}
     \<and> lookup_set (pl_entries plan) (1 # pos) \<inter> yes_live = {} \<and> lookup_set (pl_entries plan) (2 # pos) \<inter> no_live = {}
     \<and> sound_for (path_expr e (0 # pos)) T (yes_live \<union> no_live) y plan"
  have both: "secures q N (insert (Clear pos) (kidded pos {0, 2} \<union> {Entry (1 # pos)}))
      (andThen (live_block q no (2 # pos) live T future) (\<lambda>no_live.
        andThen (expression_retirement pos (if_so future (yes_live \<union> no_live - live))) (\<lambda>_.
        andThen (or_ask future (ask_block q yes (1 # pos))) (\<lambda>collects.
        andThen (put_entry (1 # pos) (if_so collects (yes_live \<union> no_live - yes_live))) (\<lambda>_.
        andThen (or_ask future (ask_block q no (2 # pos))) (\<lambda>no_collects.
        andThen (put_entry (2 # pos) (if_so no_collects (yes_live \<union> no_live - no_live))) (\<lambda>_.
        andThen (or_ask collects (ask_block q no (2 # pos))) (\<lambda>future.
          live_expr q e (0 # pos) (yes_live \<union> no_live) T future)))))))) (?all yes_live)" for yes_live
  proof (rule secures_then [OF 20(2) [OF nodes(3)] inner], goal_cases)
    case (3 no_live y plan)
    then show ?case by (intro exI [of _ no_live]) (auto simp: if_so_def)
  qed (auto simp: cells)
  show ?case unfolding live_kind.simps Let_def
  proof (rule secures_then [OF 20(1) [OF nodes(2)] both], goal_cases)
    case (3 yes_live y plan)
    then obtain no_live where no: "block_for no (2 # pos) T live no_live plan" "lookup_set (pl_expressions plan) pos \<inter> live = {}"
      "lookup_set (pl_entries plan) (1 # pos) \<inter> yes_live = {}" "lookup_set (pl_entries plan) (2 # pos) \<inter> no_live = {}"
      "sound_for (path_expr e (0 # pos)) T (yes_live \<union> no_live) y plan" by blast
    have "path_safe plan (path_block yes (1 # pos) \<union> path_block no (2 # pos)) (yes_live \<union> no_live) (outs T live)"
      using 3(1) no(1,3,4) by (auto simp: block_for_def intro!: sound_union intro: sound_weak)
    then show ?case using no(2,5) by (auto simp: kind_for_def sound_for_def intro: sound_ahead)
  qed (auto simp: cells)
next
  case (21 q e arms pos t span t' live T future)
  have nodes: "set (nodes_expr e (0 # pos)) \<subseteq> set N" "set (nodes_arms arms 1 pos) \<subseteq> set N" using 21(4) by auto
  let ?keys = "\<lambda>x. map fst (snd (snd x)) = map (\<lambda>i. i # pos) [1..<1 + length arms]"
  let ?inner = "\<lambda>x y plan. (\<forall>(p, entry, _) \<in> set (snd (snd x)). lookup_set (pl_entries plan) p \<inter> entry = {})
     \<and> sound_for (path_expr e (0 # pos)) T (fst x) y plan"
  have inner: "secures q N (kidded pos {0} \<union> range (\<lambda>i. Entry (i # pos)))
      ((\<lambda>(branches, collecting, incoming). andThen (put_entries branches incoming) (\<lambda>_. live_expr q e (0 # pos) branches T collecting)) x)
      (?inner x)" if keys: "?keys x" for x
  proof -
    obtain branches collecting incoming where x: "x = (branches, collecting, incoming)" by (metis prod.exhaust)
    have "fst ` set incoming = (\<lambda>i. i # pos) ` {1..<1 + length arms}" "distinct (map fst incoming)"
      using keys by (metis x snd_conv set_map set_upt, simp add: x distinct_map inj_on_def)
    then show ?thesis unfolding x split
      by (intro secures_then [OF secures_entries 21(2) [OF nodes(1)]]) (auto simp: cells)
  qed
  show ?case unfolding live_kind.simps
  proof (rule secures_dep [OF secures_uncleared [OF 21(1) [OF nodes(2)] 21(3)], where F = ?keys, OF _ _ inner], goal_cases)
    case (6 x y plan)
    then show ?case by (auto simp: kind_for_def arms_for_def sound_for_def intro: sound_ahead)
  qed (auto simp: cells arm_cells_def arms_for_def)
next
  case (22 q v pos t span t' live T future)
  show ?case unfolding live_kind.simps
    by (rule secures_plain [OF 22(1) secures_nothing [OF order.refl]]) auto
next
  case (23 q v pos t span t' live T future)
  show ?case unfolding live_kind.simps
    by (rule secures_plain [OF 23(1) secures_nothing [OF order.refl]]) auto
next
  case (24 q v pos t span t' live T future)
  show ?case unfolding live_kind.simps
    by (rule secures_plain [OF 24(1) secures_nothing [OF order.refl]]) auto
next
  case (25 q v pos t span t' live T future)
  show ?case unfolding live_kind.simps
    by (rule secures_plain [OF 25(1) secures_nothing [OF order.refl]]) auto
next
  case (26 q v pos t span t' live T future)
  show ?case unfolding live_kind.simps
    by (rule secures_plain [OF 26(1) secures_nothing [OF order.refl]]) auto
next
  case (27 q v pos t span t' live T future)
  show ?case unfolding live_kind.simps
    by (rule secures_plain [OF 27(1) secures_nothing [OF order.refl]]) auto
next
  case (29 q e es k pos live T future)
  have nodes: "set (nodes_expr e (k # pos)) \<subseteq> set N" "set (nodes_exprs es (Suc k) pos) \<subseteq> set N" using 29(3) by auto
  show ?case unfolding live_exprs.simps path_exprs.simps
    by (rule secures_seq_pair [OF 29(1) [OF nodes(2)] secures_asked [OF 29(2) [OF nodes(1)] assms nodes(1)]]) (auto simp: cells)
next
  case (31 q f e fs k pos live T future)
  have nodes: "set (nodes_expr e (k # pos)) \<subseteq> set N" "set (nodes_fields fs (Suc k) pos) \<subseteq> set N" using 31(3) by auto
  show ?case unfolding live_fields.simps path_fields.simps
    by (rule secures_seq_pair [OF 31(1) [OF nodes(2)] secures_asked [OF 31(2) [OF nodes(1)] assms nodes(1)]]) (auto simp: cells)
next
  case (33 q e es k pos live T)
  have nodes: "set (nodes_expr e (k # pos)) \<subseteq> set N" "set (nodes_exprs es (Suc k) pos) \<subseteq> set N" using 33(3) by auto
  show ?case unfolding live_args.simps path_exprs.simps
    by (rule secures_seq [OF 33(1) [OF nodes(2)] 33(2) [OF nodes(1)]]) (auto simp: cells)
next
  case (35 q v bindings whole b arms k pos live T future branches collecting incoming)
  have nodes: "set (nodes_block b (k # pos)) \<subseteq> set N" "set (nodes_arms arms (Suc k) pos) \<subseteq> set N" using 35(3) by auto
  let ?more = "\<lambda>entry x plan. \<exists>c. arms_for arms (Suc k) pos T live (incoming @ [(k # pos, entry, c)]) (branches \<union> (entry - arm_locals bindings whole)) x plan"
  have inner: "secures q N (arm_cells (Suc k) pos) (andThen (define_locals (arm_locals bindings whole)) (\<lambda>_.
      andThen (or_ask future (ask_block q b (k # pos))) (\<lambda>collects.
      live_arms q arms (Suc k) pos live T future (branches \<union> (entry - arm_locals bindings whole)) (collecting \<or> collects)
       (incoming @ [(k # pos, entry, collects)])))) (?more entry)" for entry
    by (rule secures_fact [OF secures_define secures_asking_block(1) [OF assms nodes(1) secures_more [OF 35(2) [OF nodes(2)]]]])
      blast+
  show ?case unfolding live_arms.simps
  proof (rule secures_then [OF 35(1) [OF nodes(1)] inner], goal_cases)
    case (3 entry x plan)
    then obtain c where arms: "arms_for arms (Suc k) pos T live (incoming @ [(k # pos, entry, c)]) (branches \<union> (entry - arm_locals bindings whole)) x plan"
      by blast
    let ?L = "arm_locals bindings whole"
    have x: "branches \<union> (entry - ?L) \<subseteq> fst x" using arms unfolding arms_for_def by blast
    have "path_safe plan (path_arms (MatchArm v bindings whole b # arms) k pos) (fst x) (outs T live)"
      if look: "\<forall>(p, entry, _) \<in> set (snd (snd x)). lookup_set (pl_entries plan) p \<inter> entry = {}"
    proof -
      have "path_safe plan (path_block b (k # pos)) entry (outs T live)"
        using 3(1) arms look by (auto simp: block_for_def arms_for_def)
      moreover have "path_safe plan (path_arms arms (Suc k) pos) (fst x) (outs T live)"
        using arms look unfolding arms_for_def by blast
      ultimately show ?thesis unfolding path_arms.simps
        by (intro sound_union sound_ahead [OF sound_writes]) (use x in auto)
    qed
    moreover have "map fst (snd (snd x)) = map fst incoming @ map (\<lambda>i. i # pos) [k..<k + length (MatchArm v bindings whole b # arms)]"
    proof -
      have "[k..<k + length (MatchArm v bindings whole b # arms)] = k # [Suc k..<Suc k + length arms]" by (simp add: upt_conv_Cons del: upt_Suc)
      then show ?thesis using arms by (simp add: arms_for_def del: upt_Suc)
    qed
    ultimately show ?case using arms x unfolding arms_for_def by auto
  qed (auto simp: cells arm_cells_def)
next
  case (36 q ss falls pos live T future)
  show ?case unfolding live_block.simps
    by (rule secures_block [OF secures_fst [OF 36(1)]]) (use 36(2) in auto)
next
  case (37 q ss e falls pos live T future)
  have nodes: "set (nodes_expr e (length ss # pos)) \<subseteq> set N" "set (nodes_stmts ss 0 pos) \<subseteq> set N" using 37(3) by auto
  show ?case unfolding live_block.simps
    by (rule secures_block [OF secures_seq [OF 37(1) [OF nodes(1)]
        secures_asking(2) [OF assms nodes(1) secures_fst [OF 37(2) [OF nodes(2)]]] _ order.refl]]) (auto simp: cells)
next
  case (39 q kind span ss k pos live T future)
  have nodes: "set (nodes_stmt kind (k # pos)) \<subseteq> set N" "set (nodes_stmts ss (Suc k) pos) \<subseteq> set N" using 39(3) by auto
  have put: "secures q N {Ended (k # pos)} ((\<lambda>((live, future), written). andThen (put_retired (k # pos)
      (if_so c (live \<union> written - after))) (\<lambda>_. give (live, future))) x)
      (\<lambda>y plan. fst y = fst (fst x) \<and> lookup_set (pl_retired plan) (k # pos) \<inter> after = {})" for x c after
    by (cases x; cases "fst x")
      (auto simp: if_so_def intro!: secures_then [OF secures_retired secures_give [where P = "{}" and R = "\<lambda>y plan. fst y = fst (fst x)"]])
  have inner: "secures q N (kidded pos {k})
      (andThen (with_written {} (live_stmt q kind (k # pos) after T c)) (\<lambda>((live, future), written).
        andThen (put_retired (k # pos) (if_so c (live \<union> written - after))) (\<lambda>_. give (live, future))))
      (\<lambda>y plan. sound_for (path_stmt kind (k # pos)) T after (fst y) plan \<and> lookup_set (pl_retired plan) (k # pos) \<inter> after = {})" for after c
    by (rule secures_then [OF secures_written [OF 39(2) [OF nodes(1)]] put]) (use stmt_cells in auto)
  show ?case unfolding live_stmts.simps
  proof (rule secures_pair [OF 39(1) [OF nodes(2)] inner], goal_cases)
    case (3 after y plan)
    have "path_safe plan (point (Ends (k # pos))) after (outs T after)" by (rule sound_point) (use 3 in simp_all)
    then show ?case using 3 by (auto simp: sound_for_def intro: sound_ahead)
  qed auto
next
  case (40 q i e pos live T future)
  have e: "set (nodes_expr e (0 # pos)) \<subseteq> set N" using 40(2) by simp
  show ?case unfolding live_stmt.simps path_stmt.simps
    by (rule secures_then [OF secures_define secures_asked [OF 40(1) [OF e] assms e]])
      (auto simp: cells sound_for_def intro: sound_write)
next
  case (41 q i e pos live T future)
  have e: "set (nodes_expr e (0 # pos)) \<subseteq> set N" using 41(2) by simp
  show ?case unfolding live_stmt.simps path_stmt.simps
    by (rule secures_then [OF secures_define secures_asked [OF 41(1) [OF e] assms e]])
      (auto simp: cells sound_for_def intro: sound_write)
next
  case (43 q e pos live T future)
  have e: "set (nodes_expr e (0 # pos)) \<subseteq> set N" using 43(2) by simp
  have ret: "path_safe plan {([], Returns)} {} (outs T live)" for plan by (simp add: path_safe_def)
  show ?case unfolding live_stmt.simps path_stmt.simps
    by (rule secures_more [OF secures_asked [OF 43(1) [OF e] assms e, where h = "\<lambda>c. c"]])
      (use ret in \<open>auto simp: cells sound_for_def intro: sound_ahead\<close>)
next
  case (44 q e v pos live T future)
  have e: "set (nodes_expr e (0 # pos)) \<subseteq> set N" using 44(2) by simp
  show ?case unfolding live_stmt.simps path_stmt.simps
    by (rule secures_more [OF secures_asked [OF 44(1) [OF e] assms e] _ order.refl [THEN predicate2D]]) (auto simp: cells)
next
  case (45 q e pos live T future)
  have e: "set (nodes_expr e (0 # pos)) \<subseteq> set N" using 45(2) by simp
  show ?case unfolding live_stmt.simps path_stmt.simps
    by (rule secures_more [OF secures_asked [OF 45(1) [OF e] assms e] _ order.refl [THEN predicate2D]]) (auto simp: cells)
next
  case (46 q e pos live T future)
  have e: "set (nodes_expr e (0 # pos)) \<subseteq> set N" using 46(2) by simp
  show ?case unfolding live_stmt.simps path_stmt.simps
    by (rule secures_more [OF secures_asked [OF 46(1) [OF e] assms e] _ order.refl [THEN predicate2D]]) (auto simp: cells)
next
  case (47 q e b pos after T future)
  have nodes: "set (nodes_expr e (0 # pos)) \<subseteq> set N" "set (nodes_block b (1 # pos)) \<subseteq> set N" using 47(3) by auto
  let ?round = "\<lambda>head x plan. block_for b (1 # pos) (Some (after, head)) head (fst x) plan
     \<and> sound_for (path_expr e (0 # pos)) T (after \<union> fst x) (snd x) plan"
  have one: "secures q N (kidded pos UNIV - {Entry (1 # pos)})
      (andThen (live_block q b (1 # pos) head (Some (after, head)) c) (\<lambda>before.
       andThen (live_expr q e (0 # pos) (after \<union> before) T c) (\<lambda>nxt. give (before, nxt)))) (?round head)" for head c
  proof (rule secures_then [OF 47(1) [OF nodes(2)], where Q = "under (0 # pos)"
        and S = "\<lambda>before y plan. fst y = before \<and> sound_for (path_expr e (0 # pos)) T (after \<union> before) (snd y) plan"], goal_cases)
    case (1 before)
    show ?case by (rule secures_then [OF 47(2) [OF nodes(1)], where Q = "{}" and S = "\<lambda>nxt y plan. y = (before, nxt)"])
      (auto intro: secures_give)
  qed (auto simp: cells)
  have put: "secures q N {Entry (1 # pos)} ((\<lambda>(before, head). andThen (put_entry (1 # pos) (if_so c (head - before)))
      (\<lambda>_. give (head, c))) x)
      (\<lambda>y plan. fst y = snd x \<and> lookup_set (pl_entries plan) (1 # pos) \<inter> fst x = {})" for x c
    by (cases x) (auto simp: if_so_def intro!: secures_then [OF secures_entered secures_give [where P = "{}" and R = "\<lambda>y plan. fst y = snd x"]])
  have all: "secures q N (kidded pos UNIV) (andThen (rounds (sn_rounds q) (\<lambda>head.
      andThen (live_block q b (1 # pos) head (Some (after, head)) c) (\<lambda>before.
      andThen (live_expr q e (0 # pos) (after \<union> before) T c) (\<lambda>nxt. give (before, nxt)))) {}) (\<lambda>(before, head).
      andThen (put_entry (1 # pos) (if_so c (head - before))) (\<lambda>_. give (head, c))))
      (\<lambda>x. sound_for (path_stmt (SWhile e b) pos) T after (fst x))" for c
  proof (rule secures_then [OF secures_rounds [where R = ?round, OF one] put], goal_cases)
    case (3 x y plan)
    then show ?case by (auto simp: sound_for_def block_for_def intro: sound_turns)
  qed auto
  show ?case unfolding live_stmt.simps
    by (rule secures_asking(2) [OF assms nodes(1) secures_asking_block(1) [OF assms nodes(2) all]])
next
  case (50 q v b pos live T future)
  have b: "set (nodes_block b (0 # pos)) \<subseteq> set N" using 50 by simp
  show ?case unfolding live_stmt.simps path_stmt.simps
    by (rule secures_asking_block(2) [OF assms b secures_give]) (simp add: sound_for_def sound_skip)
qed (auto simp: sound_for_def path_safe_def skip_def arms_for_def intro!: secures_give)


section \<open>The plan of a function\<close>

lemma plan_ok_start: "plan_ok q N no_plan"
  by (simp add: plan_ok_def no_plan_def right_answers_def)

lemma plan_new_steps:
  assumes "plan_new q body parameters = Some plan"
  obtains before s c s' where "live_block q body [] {} None (sn_shared q) no_plan = Some (before, s)"
    "ask_block q body [] s = Some (c, s')" "plan = s'\<lparr>pl_entries := (pl_entries s')([] \<mapsto> if_so c ({..<parameters} - before))\<rparr>"
  using assms by (auto simp: plan_new_def andThen_def put_entry_def split: bind_splits)

lemma plan_new_sound:
  assumes "plan_new q body parameters = Some plan"
  obtains before where "path_safe plan (path_block body []) before (outs None {})"
    "lookup_set (pl_entries plan) [] = if_so (can_allocate (sn_shared q) (sn_allocating q) (eager_block body)) ({..<parameters} - before)"
proof -
  obtain before s c s' where run: "live_block q body [] {} None (sn_shared q) no_plan = Some (before, s)"
    "ask_block q body [] s = Some (c, s')" "plan = s'\<lparr>pl_entries := (pl_entries s')([] \<mapsto> if_so c ({..<parameters} - before))\<rparr>"
    by (rule plan_new_steps [OF assms])
  let ?N = "nodes_block body []"
  note one = securesD [OF settling(7) [OF nodes_distinct(2) order.refl] plan_ok_start run(1)]
  note two = securesD [OF secures_ask_block [OF nodes_distinct(2) order.refl] one(1) run(2)]
  have c: "c = can_allocate (sn_shared q) (sn_allocating q) (eager_block body)" by (rule two(3)) simp
  have look: "lookup_set (pl_entries plan) [] = if_so c ({..<parameters} - before)" by (simp add: run(3) lookup_set_def)
  have "cell_of plan x = cell_of s x" if "x \<noteq> Entry []" for x
    using that two(2) [of x] by (cases x) (auto simp: run(3))
  then have "block_for body [] None {} before plan" by (intro one(3)) simp
  then have "path_safe plan (path_block body []) before (outs None {})"
    unfolding block_for_def by (auto simp: look if_so_def split: if_splits)
  then show thesis using that look c by blast
qed

text \<open>A loop that reads the locals 0 and 1 and allocates; parameter 2 is never read.\<close>

definition sample_loop :: block where
  "sample_loop =
     (let at = \<lparr>sp_start = 0, sp_end = 0\<rparr>;
        body = Block [Stmt (SExpr (Expr (EList [Expr (ELocal 1) TText at]) (TList 0) at)) at] None True
      in Block [Stmt (SWhile (Expr (ELocal 0) TBool at) body) at] None True)"

definition sample_scan :: scan where
  "sample_scan = \<lparr>sn_shared = False, sn_allocating = {}, sn_rounds = 3\<rparr>"

text \<open>
  C39. The plan of \<open>Plan::new\<close> is safe: at every point of every path through the function where generated code
  consults it, it clearing_kind no local that is read later before it is written, and what an expression
  restores after it collected contains every such local.
\<close>

theorem plan_safe:
  assumes "plan_new q body parameters = Some plan" and "(t @ e # u, w) \<in> path_block body []"
  shows "point_ok plan e (need u {})"
proof -
  obtain before where "path_safe plan (path_block body []) before (outs None {})" by (rule plan_new_sound [OF assms(1)])
  from soundD(1) [OF this assms(2)] have "good plan (t @ e # u) (outs None {} w)" .
  moreover have "outs None {} w = {}" by (cases w) (simp_all add: exit_live_def head_live_def)
  ultimately show ?thesis by simp
qed

theorem plan_safe_witness:
  "\<exists>plan. plan_new sample_scan sample_loop 3 = Some plan \<and> lookup_set (pl_entries plan) [] = {2}
     \<and> point_ok plan (Enters []) (need [Reads 0, Done [0, 0], Ends [0]] {})"
proof -
  have "map_option (\<lambda>plan. lookup_set (pl_entries plan) [] = {2}) (plan_new sample_scan sample_loop 3) = Some True"
    by code_simp
  then obtain plan where plan: "plan_new sample_scan sample_loop 3 = Some plan" "lookup_set (pl_entries plan) [] = {2}"
    by auto
  let ?cond = "path_expr (Expr (ELocal 0) TBool \<lparr>sp_start = 0, sp_end = 0\<rparr>) [0, 0]"
  have "([Reads 0] @ [Done [0, 0]], Falls) \<in> ?cond" unfolding path_expr.simps path_kind.simps by (intro aheadI point_in)
  then have "([Enters []] @ [Reads 0, Done [0, 0]] @ [Ends [0]] @ [], Falls)
      \<in> ahead (point (Enters [])) (ahead (turns ?cond B) (ahead (point (Ends [0])) skip))" for B
    by (intro aheadI point_in turns.leave skip_in) simp
  then have "([] @ Enters [] # [Reads 0, Done [0, 0], Ends [0]], Falls) \<in> path_block sample_loop []"
    unfolding sample_loop_def Let_def path_block.simps path_stmts.simps path_stmt.simps by simp
  from plan_safe [OF plan(1) this] plan show ?thesis by blast
qed

end
