(* ===== verification/Fixpoint.thy ===== *)
theory Fixpoint
  imports Retiring
begin

text \<open>
  What the liveness analysis computes, and that it ends: the live sets by structural equations, in
  which a loop is a least fixed point, and the proof that the code's repetitions find it once they
  may be more than the function has locals.
\<close>

section \<open>Live sets\<close>

fun before_expr :: "expr \<Rightarrow> nat set \<Rightarrow> targets \<Rightarrow> nat set"
and before_kind :: "expr_kind \<Rightarrow> nat set \<Rightarrow> targets \<Rightarrow> nat set"
and before_exprs :: "expr list \<Rightarrow> nat set \<Rightarrow> targets \<Rightarrow> nat set"
and before_fields :: "(nat \<times> expr) list \<Rightarrow> nat set \<Rightarrow> targets \<Rightarrow> nat set"
and before_arms :: "match_arm list \<Rightarrow> nat set \<Rightarrow> targets \<Rightarrow> nat set"
and before_block :: "block \<Rightarrow> nat set \<Rightarrow> targets \<Rightarrow> nat set"
and before_stmts :: "stmt list \<Rightarrow> nat set \<Rightarrow> targets \<Rightarrow> nat set"
and before_stmt :: "stmt_kind \<Rightarrow> nat set \<Rightarrow> targets \<Rightarrow> nat set" where
  "before_expr (Expr kind t span) = before_kind kind"
| "before_kind (ELocal i) = (\<lambda>live T. insert i live)"
| "before_kind (EUnary _ e) = before_expr e"
| "before_kind (EField e _) = before_expr e"
| "before_kind (EClosure _ e) = before_expr e"
| "before_kind (ECoerce e) = before_expr e"
| "before_kind (EDynBox _ e) = before_expr e"
| "before_kind (EDynCall receiver _ args) = (\<lambda>live T. before_expr receiver (before_exprs args live T) T)"
| "before_kind (EIndirectCall callee args) = (\<lambda>live T. before_expr callee (before_exprs args live T) T)"
| "before_kind (EBinary op a b) = (\<lambda>live T.
     before_expr a (if lazy op then before_expr b live T \<union> live else before_expr b live T) T)"
| "before_kind (ECall _ args) = before_exprs args"
| "before_kind (EPrimitive _ args) = before_exprs args"
| "before_kind (EList args) = before_exprs args"
| "before_kind (EVariant _ args) = before_exprs args"
| "before_kind (ERecord fs) = before_fields fs"
| "before_kind (EFrameNew fs) = before_fields fs"
| "before_kind (EFrameStore frame _ e) = (\<lambda>live T. before_expr frame (before_expr e live T) T)"
| "before_kind (EBlock b) = before_block b"
| "before_kind (EMatch e arms) = (\<lambda>live T. before_expr e (before_arms arms live T) T)"
| "before_kind (EIf e yes None) = (\<lambda>live T. before_expr e (before_block yes live T \<union> live) T)"
| "before_kind (EIf e yes (Some no)) = (\<lambda>live T. before_expr e (before_block yes live T \<union> before_block no live T) T)"
| "before_kind _ = (\<lambda>live T. live)"
| "before_exprs [] = (\<lambda>live T. live)"
| "before_exprs (e # es) = (\<lambda>live T. before_expr e (before_exprs es live T) T)"
| "before_fields [] = (\<lambda>live T. live)"
| "before_fields ((_, e) # fs) = (\<lambda>live T. before_expr e (before_fields fs live T) T)"
| "before_arms [] = (\<lambda>live T. {})"
| "before_arms (MatchArm _ bindings whole b # arms) = (\<lambda>live T.
     (before_block b live T - arm_locals bindings whole) \<union> before_arms arms live T)"
| "before_block (Block ss None _) = before_stmts ss"
| "before_block (Block ss (Some e) _) = (\<lambda>live T. before_stmts ss (before_expr e live T) T)"
| "before_stmts [] = (\<lambda>live T. live)"
| "before_stmts (Stmt kind span # ss) = (\<lambda>live T. before_stmt kind (before_stmts ss live T) T)"
| "before_stmt (SLet i e) = (\<lambda>live T. before_expr e (live - {i}) T)"
| "before_stmt (SAssign i e) = (\<lambda>live T. before_expr e (live - {i}) T)"
| "before_stmt (SAssert e _) = before_expr e"
| "before_stmt (SDiscard e) = before_expr e"
| "before_stmt (SExpr e) = before_expr e"
| "before_stmt (SReturn None) = (\<lambda>live T. {})"
| "before_stmt (SReturn (Some e)) = (\<lambda>live T. before_expr e {} T)"
| "before_stmt (SWhile e b) = (\<lambda>after T.
     lfp (\<lambda>head. before_expr e (after \<union> before_block b head (Some (after, head))) T))"
| "before_stmt SBreak = (\<lambda>live T. exit_live T)"
| "before_stmt SContinue = (\<lambda>live T. head_live T)"
| "before_stmt (SCleanup _ _) = (\<lambda>live T. live)"
| "before_stmt (SDefer _ _) = (\<lambda>live T. live)"

section \<open>Monotone and bounded\<close>

definition fewer :: "targets \<Rightarrow> targets \<Rightarrow> bool" where
  "fewer T S \<longleftrightarrow> exit_live T \<subseteq> exit_live S \<and> head_live T \<subseteq> head_live S"

lemma fewer_Some [simp]: "fewer (Some (a, h)) (Some (a', h')) \<longleftrightarrow> a \<subseteq> a' \<and> h \<subseteq> h'"
  by (simp add: fewer_def exit_live_def head_live_def)

lemma fewer_refl [simp]: "fewer T T"
  by (simp add: fewer_def)

definition grows_with :: "(nat set \<Rightarrow> targets \<Rightarrow> nat set) \<Rightarrow> bool" where
  "grows_with f \<longleftrightarrow> (\<forall>live live' T T'. live \<subseteq> live' \<longrightarrow> fewer T T' \<longrightarrow> f live T \<subseteq> f live' T')"

lemma grows_withD: "grows_with f \<Longrightarrow> live \<subseteq> live' \<Longrightarrow> fewer T T' \<Longrightarrow> f live T \<subseteq> f live' T'"
  unfolding grows_with_def by blast

lemma grows_withI: "(\<And>live live' T T'. live \<subseteq> live' \<Longrightarrow> fewer T T' \<Longrightarrow> f live T \<subseteq> f live' T') \<Longrightarrow> grows_with f"
  unfolding grows_with_def by blast

lemma grows_after: "grows_with f \<Longrightarrow> grows_with g \<Longrightarrow> grows_with (\<lambda>live T. f (g live T) T)"
  by (rule grows_withI) (rule grows_withD [of f], assumption, rule grows_withD [of g])

lemma grows_live: "grows_with (\<lambda>live T. live)"
  by (rule grows_withI)

lemma grows_union: "grows_with f \<Longrightarrow> grows_with g \<Longrightarrow> grows_with (\<lambda>live T. f live T \<union> g live T)"
  by (rule grows_withI) (blast dest: grows_withD)

lemma grows_minus: "grows_with f \<Longrightarrow> grows_with (\<lambda>live T. f live T - A)"
  by (rule grows_withI) (blast dest: grows_withD)

lemma grows_insert: "grows_with (\<lambda>live T. insert i live)"
  by (rule grows_withI) blast

lemma grows_const: "grows_with (\<lambda>live T. A)"
  by (rule grows_withI) blast

lemma grows_targets: "grows_with (\<lambda>live T. exit_live T)" "grows_with (\<lambda>live T. head_live T)"
  by (rule grows_withI, simp add: fewer_def)+

lemma grows_loop:
  assumes "grows_with f" "grows_with g"
  shows "grows_with (\<lambda>after T. lfp (\<lambda>head. f (after \<union> g head (Some (after, head))) T))"
proof (rule grows_withI, rule lfp_mono)
  fix after after' head :: "nat set" and T T' assume "after \<subseteq> after'" "fewer T T'"
  then show "f (after \<union> g head (Some (after, head))) T \<subseteq> f (after' \<union> g head (Some (after', head))) T'"
    using grows_withD [OF assms(2), of head head "Some (after, head)" "Some (after', head)"]
    by (intro grows_withD [OF assms(1)]) auto
qed

lemmas grows_with = grows_after grows_live grows_union grows_minus grows_insert grows_const grows_targets grows_loop

lemma before_grows:
  "grows_with (before_expr e)" "grows_with (before_kind kind)" "grows_with (before_exprs es)" "grows_with (before_fields fs)"
  "grows_with (before_arms arms)" "grows_with (before_block b)" "grows_with (before_stmts ss)" "grows_with (before_stmt sk)"
proof (induction e and kind and es and fs and arms and b and ss and sk
    rule: before_expr_before_kind_before_exprs_before_fields_before_arms_before_block_before_stmts_before_stmt.induct, goal_cases)
  case (10 op a b)
  have a: "grows_with (before_expr a)" and b: "grows_with (before_expr b)" using 10 by blast+
  show ?case using grows_after [OF a b] grows_after [OF a grows_union [OF b grows_live]] by (cases "lazy op") simp_all
qed (simp only: before_expr.simps before_kind.simps before_exprs.simps before_fields.simps before_arms.simps
    before_block.simps before_stmts.simps before_stmt.simps;
  (assumption | rule grows_live grows_insert grows_const grows_targets | rule grows_after, assumption, assumption
  | rule grows_loop, assumption, assumption | rule grows_union [OF grows_minus], assumption, assumption
  | rule grows_after [OF _ grows_minus [OF grows_live]], assumption | rule grows_after [OF _ grows_const], assumption
  | rule grows_after [OF _ grows_union [OF _ grows_live]], assumption, assumption
  | rule grows_after [OF _ grows_union], assumption, assumption, assumption))+

text \<open>The locals that a part of the code reads.\<close>

definition read_locals :: "visit list \<Rightarrow> nat set" where
  "read_locals vs = {i. \<exists>t span. On_expr (Expr (ELocal i) t span) \<in> set vs}"

lemma reads_simps [simp]:
  "read_locals [] = {}"
  "read_locals (vs @ us) = read_locals vs \<union> read_locals us"
  "read_locals (On_stmt x # vs) = read_locals vs"
  "read_locals (On_expr (Expr kind t span) # vs) = (case kind of ELocal i \<Rightarrow> {i} | _ \<Rightarrow> {}) \<union> read_locals vs"
  by (auto simp: read_locals_def split: expr_kind.split)

definition bounded :: "nat set \<Rightarrow> nat set \<Rightarrow> targets \<Rightarrow> bool" where
  "bounded U live T \<longleftrightarrow> live \<subseteq> U \<and> exit_live T \<subseteq> U \<and> head_live T \<subseteq> U"

lemma boundedI: "bounded U live T \<Longrightarrow> live' \<subseteq> U \<Longrightarrow> bounded U live' T"
  "bounded U live T \<Longrightarrow> live' \<subseteq> U \<Longrightarrow> bounded U live' (Some (live, live'))"
  by (auto simp: bounded_def exit_live_def head_live_def)

lemma boundedD: "bounded U live T \<Longrightarrow> live \<subseteq> U" "bounded U live T \<Longrightarrow> exit_live T \<subseteq> U" "bounded U live T \<Longrightarrow> head_live T \<subseteq> U"
  by (simp_all add: bounded_def)

lemma diff_in: "A \<subseteq> U \<Longrightarrow> A - B \<subseteq> U"
  by blast

lemma before_bounded:
  "read_locals (walk_expr e) \<subseteq> U \<Longrightarrow> bounded U live T \<Longrightarrow> before_expr e live T \<subseteq> U"
  "read_locals (walk_expr (Expr kind t span)) \<subseteq> U \<Longrightarrow> bounded U live T \<Longrightarrow> before_kind kind live T \<subseteq> U"
  "read_locals (walk_exprs es) \<subseteq> U \<Longrightarrow> bounded U live T \<Longrightarrow> before_exprs es live T \<subseteq> U"
  "read_locals (walk_fields fs) \<subseteq> U \<Longrightarrow> bounded U live T \<Longrightarrow> before_fields fs live T \<subseteq> U"
  "read_locals (walk_arms arms) \<subseteq> U \<Longrightarrow> bounded U live T \<Longrightarrow> before_arms arms live T \<subseteq> U"
  "read_locals (walk_block b) \<subseteq> U \<Longrightarrow> bounded U live T \<Longrightarrow> before_block b live T \<subseteq> U"
  "read_locals (walk_stmts ss) \<subseteq> U \<Longrightarrow> bounded U live T \<Longrightarrow> before_stmts ss live T \<subseteq> U"
  "read_locals (walk_stmt sk) \<subseteq> U \<Longrightarrow> bounded U live T \<Longrightarrow> before_stmt sk live T \<subseteq> U"
proof (induction e and kind and es and fs and arms and b and ss and sk
    arbitrary: live T and t span live T and live T and live T and live T and live T and live T and live T
    rule: before_expr_before_kind_before_exprs_before_fields_before_arms_before_block_before_stmts_before_stmt.induct, goal_cases)
  case (45 e b live T)
  have "before_block b U (Some (live, U)) \<subseteq> U" by (rule 45) (use 45 in \<open>auto dest: boundedD intro: boundedI\<close>)
  then have "before_expr e (live \<union> before_block b U (Some (live, U))) T \<subseteq> U"
    by (intro 45) (use 45 in \<open>auto simp: bounded_def\<close>)
  then show ?case by (auto intro: lfp_lowerbound [THEN subsetD])
qed (simp_all add: bounded_def diff_in exit_live_def head_live_def)

section \<open>The code finds them\<close>

definition delivers :: "'a analysis \<Rightarrow> ('a \<Rightarrow> bool) \<Rightarrow> bool" where
  "delivers f P \<longleftrightarrow> (\<forall>s. \<exists>x s'. f s = Some (x, s') \<and> P x)"

lemma delivers_then: "delivers f P \<Longrightarrow> (\<And>x. P x \<Longrightarrow> delivers (g x) Q) \<Longrightarrow> delivers (andThen f g) Q"
  unfolding delivers_def andThen_def by (metis bind.bind_lunit case_prod_conv)

lemma delivers_give: "P x \<Longrightarrow> delivers (give x) P"
  by (simp add: delivers_def give_def)

lemma delivers_more: "delivers f P \<Longrightarrow> (\<And>x. P x \<Longrightarrow> Q x) \<Longrightarrow> delivers f Q"
  unfolding delivers_def by blast

text \<open>The steps always return; what they return is of no importance here.\<close>

lemma delivers_steps:
  "delivers (ask q e pos) (\<lambda>_. True)" "delivers (ask_block q b pos) (\<lambda>_. True)"
  "delivers (or_ask c (ask q e pos)) (\<lambda>_. True)" "delivers (or_ask c (ask_block q b pos)) (\<lambda>_. True)"
  "delivers (put_entry pos A) (\<lambda>_. True)" "delivers (put_retired pos A) (\<lambda>_. True)"
  "delivers (put_restore c pos A) (\<lambda>_. True)" "delivers (expression_retirement pos A) (\<lambda>_. True)"
  "delivers (define_locals A) (\<lambda>_. True)"
  by (simp_all add: delivers_def ask_def ask_block_def or_ask_def give_def put_entry_def put_retired_def
      put_restore_def expression_retirement_def define_locals_def ex_bool_eq split: prod.split)

lemma delivers_skip:
  assumes "delivers h Q"
  shows "delivers (andThen (ask q e pos) (\<lambda>_. h)) Q" "delivers (andThen (put_entry pos A) (\<lambda>_. h)) Q"
    "delivers (andThen (put_retired pos A) (\<lambda>_. h)) Q" "delivers (andThen (put_restore c pos A) (\<lambda>_. h)) Q"
    "delivers (andThen (expression_retirement pos A) (\<lambda>_. h)) Q" "delivers (andThen (define_locals A) (\<lambda>_. h)) Q"
  by (rule delivers_then [OF delivers_steps(1)] delivers_then [OF delivers_steps(5)] delivers_then [OF delivers_steps(6)]
      delivers_then [OF delivers_steps(7)] delivers_then [OF delivers_steps(8)] delivers_then [OF delivers_steps(9)], rule assms)+

lemma delivers_asked:
  assumes "\<And>c. delivers (g c) Q"
  shows "delivers (andThen (ask q e pos) g) Q" "delivers (andThen (ask_block q b pos) g) Q"
    "delivers (andThen (or_ask d (ask q e pos)) g) Q" "delivers (andThen (or_ask d (ask_block q b pos)) g) Q"
  by (rule delivers_then [OF delivers_steps(1)] delivers_then [OF delivers_steps(2)] delivers_then [OF delivers_steps(3)]
      delivers_then [OF delivers_steps(4)], rule assms)+

lemma delivers_entries: "delivers (put_entries branches incoming) (\<lambda>_. True)"
proof (induction incoming)
  case Nil
  show ?case by (simp add: delivers_give)
next
  case (Cons x incoming)
  then show ?case by (cases x) (simp add: delivers_skip(2))
qed

lemma delivers_written:
  assumes "delivers f P"
  shows "delivers (with_written w f) (\<lambda>x. P (fst x))"
  unfolding delivers_def
proof
  fix s
  obtain x t where "f (s\<lparr>pl_definitions := w\<rparr>) = Some (x, t)" "P x" using assms unfolding delivers_def by blast
  then show "\<exists>x s'. with_written w f s = Some (x, s') \<and> P (fst x)" by (simp add: with_written_def)
qed

text \<open>From below, the repetitions reach the least fixed point.\<close>

lemma delivers_rounds:
  assumes "finite U" "mono F" "\<And>head. head \<subseteq> U \<Longrightarrow> F head \<subseteq> U"
    and f: "\<And>head. head \<subseteq> U \<Longrightarrow> delivers (f head) (\<lambda>x. snd x = F head)"
  shows "head \<subseteq> F head \<Longrightarrow> head \<subseteq> lfp F \<Longrightarrow> head \<subseteq> U \<Longrightarrow> card (U - head) < n \<Longrightarrow>
    delivers (rounds n f head) (\<lambda>x. snd x = lfp F)"
proof (induction n arbitrary: head)
  case (Suc n)
  show ?case unfolding delivers_def
  proof
    fix s
    obtain before s' where run: "f head s = Some ((before, F head), s')"
      using f [OF Suc.prems(3)] unfolding delivers_def by (metis prod.collapse)
    show "\<exists>x t. rounds (Suc n) f head s = Some (x, t) \<and> snd x = lfp F"
    proof (cases "F head = head")
      case True
      then have "lfp F = head" using Suc.prems(2) lfp_lowerbound [of F head] by auto
      then show ?thesis using True by (simp add: run)
    next
      case False
      have up: "F head \<subseteq> F (F head)" "F head \<subseteq> lfp F"
        using monoD [OF assms(2) Suc.prems(1)] monoD [OF assms(2) Suc.prems(2)] lfp_unfold [OF assms(2)] by simp_all
      have "U - F head \<subset> U - head" using False Suc.prems(1) assms(3) [OF Suc.prems(3)] by blast
      then have "card (U - F head) < card (U - head)" using assms(1) by (intro psubset_card_mono) auto
      then have "delivers (rounds n f (F head)) (\<lambda>x. snd x = lfp F)"
        using Suc.prems(4) by (intro Suc.IH up assms(3) Suc.prems(3)) simp
      then show ?thesis using False unfolding delivers_def by (simp add: run)
    qed
  qed
qed simp

lemma delivers_eq_then: "delivers f (\<lambda>x. x = a) \<Longrightarrow> delivers (g a) Q \<Longrightarrow> delivers (andThen f g) Q"
  by (erule delivers_then) simp

lemma delivers_fst_then:
  assumes "delivers f (\<lambda>x. fst x = a)" "\<And>b. delivers (g a b) Q"
  shows "delivers (andThen f (\<lambda>(a, b). g a b)) Q"
  by (rule delivers_then [OF assms(1)]) (use assms(2) in auto)

lemma delivers_first: "delivers f (\<lambda>x. fst x = a) \<Longrightarrow> delivers (andThen f (\<lambda>(live, b). give live)) (\<lambda>x. x = a)"
  by (erule delivers_fst_then) (simp add: delivers_give)

lemma delivers_ended:
  "delivers f (\<lambda>x. x = a) \<Longrightarrow> delivers (andThen f (\<lambda>live. andThen (ask q e pos) (\<lambda>c. give (live, h c)))) (\<lambda>x. fst x = a)"
  by (rule delivers_eq_then, assumption, rule delivers_asked, rule delivers_give) simp

lemma before_still:
  "read_locals (walk_expr e) \<subseteq> U \<Longrightarrow> bounded U live T \<Longrightarrow> bounded U (before_expr e live T) T"
  "read_locals (walk_exprs es) \<subseteq> U \<Longrightarrow> bounded U live T \<Longrightarrow> bounded U (before_exprs es live T) T"
  "read_locals (walk_fields fs) \<subseteq> U \<Longrightarrow> bounded U live T \<Longrightarrow> bounded U (before_fields fs live T) T"
  "read_locals (walk_arms arms) \<subseteq> U \<Longrightarrow> bounded U live T \<Longrightarrow> bounded U (before_arms arms live T) T"
  "read_locals (walk_block b) \<subseteq> U \<Longrightarrow> bounded U live T \<Longrightarrow> bounded U (before_block b live T) T"
  "read_locals (walk_stmts ss) \<subseteq> U \<Longrightarrow> bounded U live T \<Longrightarrow> bounded U (before_stmts ss live T) T"
  by (rule boundedI(1), assumption, rule before_bounded, assumption+)+

lemma bounded_parts:
  "bounded U live T \<Longrightarrow> bounded U (live - A) T" "bounded U live T \<Longrightarrow> bounded U {} T"
  "bounded U live T \<Longrightarrow> bounded U live' T \<Longrightarrow> bounded U (live \<union> live') T"
  by (auto simp: bounded_def)

lemma finds:
  assumes U: "finite U" "card U < sn_rounds q"
  shows "read_locals (walk_expr e) \<subseteq> U \<Longrightarrow> bounded U live T \<Longrightarrow>
    delivers (live_expr q e pos live T future) (\<lambda>x. x = before_expr e live T)"
  "read_locals (walk_kind kind) \<subseteq> U \<Longrightarrow> bounded U live T \<Longrightarrow>
    delivers (live_kind q kind t pos live T future) (\<lambda>x. x = before_kind kind live T)"
  "read_locals (walk_exprs es) \<subseteq> U \<Longrightarrow> bounded U live T \<Longrightarrow>
    delivers (live_exprs q es k pos live T future) (\<lambda>x. fst x = before_exprs es live T)"
  "read_locals (walk_fields fs) \<subseteq> U \<Longrightarrow> bounded U live T \<Longrightarrow>
    delivers (live_fields q fs k pos live T future) (\<lambda>x. fst x = before_fields fs live T)"
  "read_locals (walk_exprs es) \<subseteq> U \<Longrightarrow> bounded U live T \<Longrightarrow>
    delivers (live_args q es k pos live T) (\<lambda>x. x = before_exprs es live T)"
  "read_locals (walk_arms arms) \<subseteq> U \<Longrightarrow> bounded U live T \<Longrightarrow>
    delivers (live_arms q arms k pos live T future branches collecting incoming) (\<lambda>x. fst x = branches \<union> before_arms arms live T)"
  "read_locals (walk_block b) \<subseteq> U \<Longrightarrow> bounded U live T \<Longrightarrow>
    delivers (live_block q b pos live T future) (\<lambda>x. x = before_block b live T)"
  "read_locals (walk_stmts ss) \<subseteq> U \<Longrightarrow> bounded U live T \<Longrightarrow>
    delivers (live_stmts q ss k pos live T future) (\<lambda>x. fst x = before_stmts ss live T)"
  "read_locals (walk_stmt sk) \<subseteq> U \<Longrightarrow> bounded U live T \<Longrightarrow>
    delivers (live_stmt q sk pos live T future) (\<lambda>x. fst x = before_stmt sk live T)"
  using U(2)
proof (induction q e and q kind and q es and q fs and q es and q arms and q b and q ss and q sk
    arbitrary: pos live T future and pos t live T future and k pos live T future and k pos live T future
      and k pos live T and k pos live T future branches collecting incoming and pos live T future and k pos live T future
      and pos live T future
    rule: live_expr_live_kind_live_exprs_live_fields_live_args_live_arms_live_block_live_stmts_live_stmt.induct,
    goal_cases)
  case (1 q kind t span pos live T future)
  show ?case unfolding live_expr.simps before_expr.simps
    by (intro delivers_asked delivers_skip 1) (use 1 in simp_all)
next
  case (2 q i pos t live T future)
  show ?case unfolding live_kind.simps before_kind.simps by (intro delivers_skip delivers_give) simp
next
  case (3 q e f pos t live T future)
  show ?case unfolding live_kind.simps before_kind.simps by (intro delivers_skip 3) (use 3 in simp_all)
next
  case (8 q op a b pos t live T future)
  have b: "delivers (live_expr q b (1 # pos) live T future) (\<lambda>x. x = before_expr b live T)"
    by (rule 8) (use 8 in simp_all)
  have a: "delivers (live_expr q a (0 # pos) L T c) (\<lambda>x. x = before_expr a L T)" if "bounded U L T" for L c
    by (rule 8(2)) (use 8 that in simp_all)
  show ?case
  proof (cases "lazy op")
    case True
    show ?thesis unfolding live_kind.simps before_kind.simps if_P [OF True]
      by (rule delivers_eq_then [OF b], intro delivers_skip delivers_asked a bounded_parts before_still) (use 8 in simp_all)
  next
    case False
    show ?thesis unfolding live_kind.simps before_kind.simps if_not_P [OF False] andThen_give
      by (rule delivers_eq_then [OF b], intro delivers_asked a before_still) (use 8 in simp_all)
  qed
next
  case (13 q callee args pos t live T future)
  show ?case unfolding live_kind.simps before_kind.simps
    by (rule delivers_eq_then [OF 13(1) 13(2)]) (use 13 in \<open>simp_all add: before_still\<close>)
next
  case (14 q receiver slot args pos t live T future)
  show ?case unfolding live_kind.simps before_kind.simps
    by (rule delivers_eq_then [OF 14(1) 14(2)]) (use 14 in \<open>simp_all add: before_still\<close>)
next
  case (17 q frame f e pos t live T future)
  have e: "delivers (live_expr q e (1 # pos) live T future) (\<lambda>x. x = before_expr e live T)"
    by (rule 17) (use 17 in simp_all)
  have frame: "delivers (live_expr q frame (0 # pos) L T c) (\<lambda>x. x = before_expr frame L T)" if "bounded U L T" for L c
    by (rule 17(2)) (use 17 that in simp_all)
  show ?case unfolding live_kind.simps before_kind.simps
    by (rule delivers_eq_then [OF e], intro delivers_asked frame before_still) (use 17 in simp_all)
next
  case (19 q e yes pos t live T future)
  have yes: "delivers (live_block q yes (1 # pos) live T future) (\<lambda>x. x = before_block yes live T)"
    by (rule 19) (use 19 in simp_all)
  have e: "delivers (live_expr q e (0 # pos) (before_block yes live T \<union> live) T c)
      (\<lambda>x. x = before_expr e (before_block yes live T \<union> live) T)" for c
    by (rule 19(2) [OF refl]) (use 19 in \<open>simp_all add: before_still bounded_parts\<close>)
  show ?case unfolding live_kind.simps before_kind.simps Let_def
    by (rule delivers_eq_then [OF yes], intro delivers_skip delivers_asked e)
next
  case (20 q e yes no pos t live T future)
  have yes: "delivers (live_block q yes (1 # pos) live T future) (\<lambda>x. x = before_block yes live T)"
    by (rule 20(1)) (use 20 in simp_all)
  have no: "delivers (live_block q no (2 # pos) live T future) (\<lambda>x. x = before_block no live T)"
    by (rule 20(2)) (use 20 in simp_all)
  have e: "delivers (live_expr q e (0 # pos) (before_block yes live T \<union> before_block no live T) T c)
      (\<lambda>x. x = before_expr e (before_block yes live T \<union> before_block no live T) T)" for c
    by (rule 20(3) [OF refl]) (use 20 in \<open>simp_all add: before_still bounded_parts\<close>)
  show ?case unfolding live_kind.simps before_kind.simps Let_def
    by (rule delivers_eq_then [OF yes], rule delivers_eq_then [OF no], intro delivers_skip delivers_asked e)
next
  case (21 q e arms pos t live T future)
  have arms: "delivers (live_arms q arms 1 pos live T future {} future []) (\<lambda>x. fst x = before_arms arms live T)"
    using 21(1) [of live T 1 pos future "{}" future "[]"] 21(3-5) by simp
  have e: "delivers (live_expr q e (0 # pos) (before_arms arms live T) T c) (\<lambda>x. x = before_expr e (before_arms arms live T) T)" for c
    by (rule 21(2)) (use 21 in \<open>simp_all add: before_still\<close>)
  show ?case unfolding live_kind.simps before_kind.simps
  proof (rule delivers_then [OF arms])
    fix x :: "nat set \<times> bool \<times> (position \<times> nat set \<times> bool) list"
    assume x: "fst x = before_arms arms live T"
    show "delivers ((\<lambda>(branches, collecting, incoming). andThen (put_entries branches incoming)
        (\<lambda>_. live_expr q e (0 # pos) branches T collecting)) x) (\<lambda>x. x = before_expr e (before_arms arms live T) T)"
      using x e by (cases x) (auto intro: delivers_then [OF delivers_entries])
  qed
next
  case (29 q e es k pos live T future)
  show ?case unfolding live_exprs.simps before_exprs.simps
    by (rule delivers_fst_then [OF 29(1) delivers_ended [OF 29(2)]]) (use 29 in \<open>simp_all add: before_still\<close>)
next
  case (31 q f e fs k pos live T future)
  show ?case unfolding live_fields.simps before_fields.simps
    by (rule delivers_fst_then [OF 31(1) delivers_ended [OF 31(2)]]) (use 31 in \<open>simp_all add: before_still\<close>)
next
  case (33 q e es k pos live T)
  show ?case unfolding live_args.simps before_exprs.simps
    by (rule delivers_eq_then [OF 33(1) 33(2)]) (use 33 in \<open>simp_all add: before_still\<close>)
next
  case (35 q v bindings whole b arms k pos live T future branches collecting incoming)
  have b: "delivers (live_block q b (k # pos) live T future) (\<lambda>x. x = before_block b live T)"
    by (rule 35(1)) (use 35 in simp_all)
  have arms: "delivers (live_arms q arms (Suc k) pos live T future B c inc) (\<lambda>x. fst x = B \<union> before_arms arms live T)" for B c inc
    by (rule 35(2)) (use 35 in simp_all)
  have more: "delivers (live_arms q arms (Suc k) pos live T future (branches \<union> A) c inc) (\<lambda>x. fst x = branches \<union> (A \<union> before_arms arms live T))" for A c inc
    using arms [of "branches \<union> A"] by (simp add: Un_assoc)
  show ?case unfolding live_arms.simps before_arms.simps
    by (rule delivers_eq_then [OF b], intro delivers_skip delivers_asked more)
next
  case (36 q ss falls pos live T future)
  show ?case unfolding live_block.simps before_block.simps
    by (rule delivers_first, rule 36) (use 36 in simp_all)
next
  case (37 q ss e falls pos live T future)
  have e: "delivers (live_expr q e (length ss # pos) live T future) (\<lambda>x. x = before_expr e live T)"
    by (rule 37) (use 37 in simp_all)
  have ss: "delivers (live_stmts q ss 0 pos (before_expr e live T) T c) (\<lambda>x. fst x = before_stmts ss (before_expr e live T) T)" for c
    by (rule 37(2)) (use 37 in \<open>simp_all add: before_still\<close>)
  show ?case unfolding live_block.simps before_block.simps
    by (rule delivers_eq_then [OF e], intro delivers_asked delivers_first ss)
next
  case (39 q kind span ss k pos live T future)
  have ss: "delivers (live_stmts q ss (Suc k) pos live T future) (\<lambda>x. fst x = before_stmts ss live T)"
    by (rule 39) (use 39 in simp_all)
  have sk: "delivers (live_stmt q kind (k # pos) (before_stmts ss live T) T c) (\<lambda>x. fst x = before_stmt kind (before_stmts ss live T) T)" for c
    by (rule 39(2)) (use 39 in \<open>simp_all add: before_still\<close>)
  have rest: "delivers ((\<lambda>((live, future), written). andThen (put_retired (k # pos) (A live written)) (\<lambda>_. give (live, future))) x)
      (\<lambda>y. fst y = a)" if "fst (fst x) = a" for x A a
    using that by (cases x; cases "fst x") (auto intro!: delivers_skip delivers_give)
  show ?case unfolding live_stmts.simps before_stmts.simps
    by (rule delivers_fst_then [OF ss], rule delivers_then [OF delivers_written [OF sk]], rule rest)
next
  case (40 q i e pos live T future)
  have e: "delivers (live_expr q e (0 # pos) (live - {i}) T c) (\<lambda>x. x = before_expr e (live - {i}) T)" for c
    by (rule 40) (use 40 in \<open>simp_all add: bounded_parts\<close>)
  show ?case unfolding live_stmt.simps before_stmt.simps by (intro delivers_skip delivers_ended e)
next
  case (41 q i e pos live T future)
  have e: "delivers (live_expr q e (0 # pos) (live - {i}) T c) (\<lambda>x. x = before_expr e (live - {i}) T)" for c
    by (rule 41) (use 41 in \<open>simp_all add: bounded_parts\<close>)
  show ?case unfolding live_stmt.simps before_stmt.simps by (intro delivers_skip delivers_ended e)
next
  case (43 q e pos live T future)
  have e: "delivers (live_expr q e (0 # pos) {} T c) (\<lambda>x. x = before_expr e {} T)" for c
    by (rule 43) (use 43 in \<open>simp_all add: bounded_parts\<close>)
  show ?case unfolding live_stmt.simps before_stmt.simps by (intro delivers_skip delivers_ended e)
next
  case (44 q e v pos live T future)
  have e: "delivers (live_expr q e (0 # pos) live T c) (\<lambda>x. x = before_expr e live T)" for c
    by (rule 44) (use 44 in \<open>simp_all add: bounded_parts\<close>)
  show ?case unfolding live_stmt.simps before_stmt.simps by (intro delivers_skip delivers_ended e)
next
  case (45 q e pos live T future)
  have e: "delivers (live_expr q e (0 # pos) live T c) (\<lambda>x. x = before_expr e live T)" for c
    by (rule 45) (use 45 in \<open>simp_all add: bounded_parts\<close>)
  show ?case unfolding live_stmt.simps before_stmt.simps by (intro delivers_skip delivers_ended e)
next
  case (46 q e pos live T future)
  have e: "delivers (live_expr q e (0 # pos) live T c) (\<lambda>x. x = before_expr e live T)" for c
    by (rule 46) (use 46 in \<open>simp_all add: bounded_parts\<close>)
  show ?case unfolding live_stmt.simps before_stmt.simps by (intro delivers_skip delivers_ended e)
next
  case (47 q e b pos after T future)
  let ?F = "\<lambda>head. before_expr e (after \<union> before_block b head (Some (after, head))) T"
  have targets: "bounded U head (Some (after, head))" if "head \<subseteq> U" for head
    using that 47(4) by (auto simp: bounded_def exit_live_def head_live_def)
  have inside: "bounded U (after \<union> before_block b head (Some (after, head))) T" if "head \<subseteq> U" for head
    using before_bounded(6) [OF _ targets [OF that], of b] 47(3,4) by (auto simp: bounded_def)
  have mono: "mono ?F"
  proof (rule monoI)
    fix head head' :: "nat set" assume "head \<subseteq> head'"
    then show "?F head \<subseteq> ?F head'"
      using grows_withD [OF before_grows(6), of head head' "Some (after, head)" "Some (after, head')" b]
      by (intro grows_withD [OF before_grows(1)]) auto
  qed
  have round: "delivers (andThen (live_block q b (1 # pos) head (Some (after, head)) c) (\<lambda>before.
      andThen (live_expr q e (0 # pos) (after \<union> before) T c) (\<lambda>nxt. give (before, nxt)))) (\<lambda>x. snd x = ?F head)"
    if "head \<subseteq> U" for head c
  proof -
    have b: "delivers (live_block q b (1 # pos) head (Some (after, head)) c) (\<lambda>x. x = before_block b head (Some (after, head)))"
      by (rule 47(1)) (use 47 that targets in simp_all)
    have e: "delivers (live_expr q e (0 # pos) (after \<union> before_block b head (Some (after, head))) T c) (\<lambda>x. x = ?F head)"
      by (rule 47(2)) (use 47 that inside in simp_all)
    show ?thesis by (rule delivers_eq_then [OF b], rule delivers_eq_then [OF e], rule delivers_give) simp
  qed
  have start: "{} \<subseteq> ?F {}" "{} \<subseteq> lfp ?F" "{} \<subseteq> U" "card (U - {}) < sn_rounds q" using 47(5) by simp_all
  have inU: "?F head \<subseteq> U" if "head \<subseteq> U" for head
    by (rule before_bounded(1) [OF _ inside [OF that]]) (use 47(3) in simp)
  note rounds = delivers_rounds [OF U(1) mono inU round start]
  have rest: "delivers ((\<lambda>(before, head). andThen (put_entry (1 # pos) (A head before)) (\<lambda>_. give (head, c))) x) (\<lambda>y. fst y = a)"
    if "snd x = a" for x A a c
    using that by (cases x) (auto intro!: delivers_skip delivers_give)
  show ?case unfolding live_stmt.simps before_stmt.simps
    by (intro delivers_asked delivers_then [OF rounds] rest)
next
  case (50 q v b pos live T future)
  show ?case unfolding live_stmt.simps before_stmt.simps by (intro delivers_asked delivers_give) simp
qed (simp_all add: delivers_give delivers_first)


section \<open>The plan of a function\<close>

text \<open>
  C40. The analysis of a function ends: when a loop may be repeated more often than the function has
  locals, \<open>Plan::new\<close> returns a plan, and what it clearing_kind on entry is what the live sets say, in which
  each loop is the least fixed point: the parameters that no path reads, where the body can collect.
\<close>

theorem plan_found:
  assumes "\<forall>i \<in> read_locals (walk_block body). i < locals" and "locals < sn_rounds q"
  shows "\<exists>plan. plan_new q body parameters = Some plan \<and> pl_entries plan [] = Some
    (if_so (can_allocate (sn_shared q) (sn_allocating q) (eager_block body)) ({..<parameters} - before_block body {} None))"
proof -
  have U: "finite {..<locals}" "card {..<locals} < sn_rounds q" using assms(2) by simp_all
  have "read_locals (walk_block body) \<subseteq> {..<locals}" "bounded {..<locals} {} None"
    using assms(1) by (auto simp: bounded_def exit_live_def head_live_def)
  from finds(7) [OF U this, where pos = "[]" and future = "sn_shared q"]
  obtain s where run: "live_block q body [] {} None (sn_shared q) no_plan = Some (before_block body {} None, s)"
    unfolding delivers_def by blast
  obtain c s' where ask: "ask_block q body [] s = Some (c, s')"
    using delivers_steps(2) [of q body "[]"] unfolding delivers_def by blast
  note ok = securesD(1) [OF settling(7) [OF nodes_distinct(2) order.refl] plan_ok_start run]
  have "c = can_allocate (sn_shared q) (sn_allocating q) (eager_block body)"
    by (rule securesD(3) [OF secures_ask_block [OF nodes_distinct(2) order.refl] ok ask]) simp
  then show ?thesis by (simp add: plan_new_def andThen_def run ask put_entry_def)
qed

theorem plan_found_witness:
  "read_locals (walk_block sample_loop) = {0, 1} \<and> (\<exists>plan. plan_new sample_scan sample_loop 3 = Some plan)"
proof -
  have read_locals: "read_locals (walk_block sample_loop) = {0, 1}" by (auto simp: sample_loop_def Let_def)
  have "\<forall>i \<in> read_locals (walk_block sample_loop). i < 2" "2 < sn_rounds sample_scan"
    by (simp_all add: read_locals sample_scan_def)
  from plan_found [OF this, of 3] show ?thesis using read_locals by blast
qed

end
