(* ===== verification/Spec2Isabelle.thy ===== *)
theory Spec2Isabelle
  imports Decoded Codec Guards Execution Pending Fixpoint
begin

text \<open>
  The Loom compiler's native back end and its runtime (\<open>compiler/src\<close>, \<open>compiler/runtime/src\<close>).

  The source compiler, written in Loom, emits a checked program as a text stream.  The Rust back end
  decodes it (\<open>native_input.rs\<close>) into the checked intermediate representation (\<open>model.rs\<close>) and hands
  it to the LLVM code generator.  A generated program runs on the runtime: asynchronous tasks
  (\<open>tasks.rs\<close> and its submodules) whose frames the garbage collector moves (\<open>frame_roots.rs\<close>), which
  wait on timers, descriptors and completions (\<open>wait.rs\<close>), and worker threads that synchronise
  through mutexes and storage guards (\<open>mutex.rs\<close>, \<open>shared_access.rs\<close>, \<open>worker_control.rs\<close>).

  The decoder.  \<open>Model\<close> has the data types of \<open>model.rs\<close>.  \<open>Utf8\<close> models what the reader uses of the
  standard library: UTF-8 validity, character boundaries and number parsing.  \<open>Wire\<close> is the reader and
  the recursive wire expressions, \<open>Operators\<close> the tables of operators and primitives, \<open>Access\<close> the
  checked lookups of the converter, \<open>Convert\<close> and \<open>Converter\<close> the conversion of expressions and
  statements, \<open>Layout\<close> the check of value layouts, \<open>Decode\<close> the sections, the tables and \<open>decode\<close>
  itself.  Every slice, index and \<open>unreachable!()\<close> of the code is a branch with the value \<open>Panicked\<close>.
  \<open>Reading\<close> proves where the reader stands after each item, \<open>Safety\<close> and \<open>Building\<close> that no branch
  panics, \<open>WellFormed\<close> states the typing of a checked program, \<open>Soundness\<close> and \<open>Decoded\<close> that decoding
  establishes it, \<open>Codec\<close> that reading inverts printing, through the locale \<open>codec\<close> of items that can
  be read back at any position.

  The runtime.  \<open>Runtime\<close> has the outcome monad and the locale \<open>one_shot\<close>: identities that are issued
  once and never resolved again after they die.  It is interpreted on the frame store (\<open>Frames\<close>), on
  the mutex tokens (\<open>Guards\<close>), and twice on the reactor (\<open>Reactor\<close>): for active registrations and for
  deliveries.  \<open>Waits\<close> defines the reactor, \<open>Reactor\<close> its invariant and what each operation keeps;
  \<open>Tasks\<close> and \<open>TaskOps\<close> define the owner of the tasks and every operation that generated code calls.
  \<open>TaskTree\<close> has the invariant of the owner (a tree of tasks, frames that belong to tasks, an exact count
  of waits) and shows what cancelling a subtree does; \<open>TaskInv\<close> that every operation keeps the invariant,
  \<open>TaskCur\<close> that operations leave the current task and the root alone, through the locale \<open>core_field\<close>,
  and \<open>Resume\<close> what holds when an activation ends.  \<open>Scheduler\<close> defines polling and the executor as a step
  relation in which generated code is an arbitrary sequence of operations, \<open>Executor\<close> proves its invariant,
  \<open>Ending\<close> what the end of a task does, and \<open>Execution\<close> states the properties C23 to C31.

  The code generator's analyses.  \<open>Values\<close> has the questions about a type (\<open>managed\<close>, \<open>storage\<close>,
  \<open>value_words\<close>), whose recursion gets one level more than there are types: enough for finite layouts.
  \<open>Walk\<close> has the traversals of checked code and its positions, lists of child indices that stand for
  the addresses the code uses as keys; every node has its own.  \<open>Reach\<close> is the closed world of
  \<open>reachable_functions\<close>, \<open>Collect\<close> the analysis of what allocates; their rounds (\<open>reach_loop\<close>,
  \<open>spread_all\<close>) are total functions, because each adds something of a finite set.  \<open>Analyses\<close> proves
  that both are least closed sets and that the answers are right (C32 to C36).  \<open>Slots\<close> is
  \<open>TemporarySlots\<close>, the stack slots of pending values; \<open>SlotUse\<close> proves that no slot is given to two
  values that wait, \<open>Pending\<close> which values get one (C37, C38).
  \<open>Liveness\<close> is the plan of \<open>llvm_gc_liveness.rs\<close>: where the root of a local can be cleared and what an
  expression restores after a collection.  \<open>Paths\<close> states what it has to promise, over the reads, writes
  and points of every path through a function; \<open>Clearing\<close> has the rules that follow the cells of the plan
  through the analysis, \<open>Retiring\<close> the induction over the code and C39.  The code repeats the body of a
  loop until its live set is stable; the model bounds the repetitions, and \<open>Fixpoint\<close> proves that more
  repetitions than there are locals are enough and find the least solution (C40).

  Bounds and loops.  The decoder's recursion is bounded by the code (512 levels); lists are read with
  the declared length, checked against the remaining bytes.  \<open>wait_loop\<close> may wait forever and is a
  partial function whose value is \<open>None\<close> then; C21 proves that polling returns.  The loops over a
  task's cleanups and children are bounded by what they have left to do.  Sizes and counters are
  natural numbers with the overflow checks of the code written out at 64 bits.

  Parameters.  The operating system's poller and clock, the generated cleanup callbacks, the worker
  pools and the sockets are fields of records, functions of a state of the outside world.

  Not modelled.  The emission of LLVM code, whose output has no meaning without a semantics of LLVM, and
  the escape and cleanup plans that it follows (\<open>llvm_storage.rs\<close>, \<open>llvm_cleanup.rs\<close>); the raw-memory heap
  and collector; unwinding; sockets, files and processes.  A blocked lock call is retried after any step, so
  condition variables are not part of the state; the reactor's operations are atomic, so operations
  of other threads fall between the operations of the model, not inside one poll.
\<close>

section \<open>The decoder\<close>

text \<open>A checked stream with one type, one function and no optional section.\<close>

definition lines :: "string list \<Rightarrow> string" where
  "lines xs = concat (map (\<lambda>x. x @ [CHR 0x0A]) xs)"

definition sample_stream :: string where
  "sample_stream = lines [''loom-checked-1'', ''1'', ''0'', ''0'', ''1'', ''0'', ''0'', ''0'', ''0'',
     ''0'', ''0'', ''0'', ''11'', ''0'', ''0'', ''0'', ''0'', ''-1'', ''1'', ''0'', ''0'', ''0'', ''0'',
     ''0'']"

text \<open>
  C1.  Decoding never panics: for every UTF-8 text, \<open>decode\<close> returns a program or an error; no
  slice of the text, no index into a program table, no \<open>unreachable!()\<close> and no layout recursion
  leaves its bounds.
\<close>

theorem decode_never_panics:
  assumes "valid_utf8 input"
  shows "decode input \<noteq> Inl Panicked"
  using decode_safe [OF assms] by (simp add: safe_def)

theorem decode_never_panics_witness:
  "valid_utf8 sample_stream \<and> decode sample_stream \<noteq> Inl Panicked"
proof -
  have "valid_utf8 sample_stream" by code_simp
  with decode_never_panics [OF this] show ?thesis by blast
qed


definition sample_program :: program where
  "sample_program = (case decode sample_stream of Inr p \<Rightarrow> p | Inl _ \<Rightarrow> undefined)"

lemma sample_decodes: "\<exists>p. decode sample_stream = Inr p \<and> length (p_functions p) = 1"
proof -
  have "(case decode sample_stream of Inr p \<Rightarrow> length (p_functions p) = 1 | Inl _ \<Rightarrow> False)"
    by code_simp
  then show ?thesis
    by (cases "decode sample_stream") simp_all
qed

lemma sample_decodes_to: "decode sample_stream = Inr sample_program"
  using sample_decodes by (auto simp: sample_program_def)


text \<open>
  C3.  A decoded program has finite values: no type contains itself by value, through the fields
  of records and frames, the payloads of enum variants and the bases of refined types, and every
  refined type's base is one that a predicate can be stated over.
\<close>

theorem decoded_layouts_finite:
  assumes "decode input = Inr p"
  shows "acyclic (contains_value p) \<and> refined_bases p"
  by (rule decode_parts [OF assms]) (simp add: build_wf)

theorem decoded_layouts_finite_witness:
  "decode sample_stream = Inr sample_program \<and> acyclic (contains_value sample_program)"
  using sample_decodes_to decoded_layouts_finite [OF sample_decodes_to] by blast

text \<open>
  C4.  The layout check decides exactly the finite layouts: with all type references in range, it
  accepts a program if and only if containment by value is acyclic and the refined types have
  admissible bases.
\<close>

theorem layout_check_decides:
  assumes "types_closed p"
  shows "(\<exists>s. check_layouts p = Inr s) \<longleftrightarrow> acyclic (contains_value p) \<and> refined_bases p"
  by (rule check_layouts_iff [OF assms])

text \<open>Two records: the second holds the first by value, the first holds a list of the second.\<close>

definition nested_records :: program where
  "nested_records =
     \<lparr>p_types = [\<lparr>data_name = ''a'', data_kind_of = KRecord [(''b'', TList 0)]\<rparr>,
                 \<lparr>data_name = ''b'', data_kind_of = KRecord [(''a'', TData 0)]\<rparr>],
      p_lists = [TData 1], p_functions = [], p_function_types = [], p_interfaces = [],
      p_witnesses = [], p_entry = None, p_tests = [], p_test_names = [], p_target_inputs = [],
      p_source_locations = \<lparr>paths = [], sites = Map.empty\<rparr>, p_exports = []\<rparr>"

theorem layout_check_decides_witness:
  "types_closed nested_records \<and> check_layouts nested_records = Inr [2, 2]
   \<and> acyclic (contains_value nested_records)"
proof -
  have closed: "types_closed nested_records"
    by (simp add: nested_records_def types_closed_def kind_refs_def)
  moreover have "check_layouts nested_records = Inr [2, 2]"
    by code_simp
  ultimately show ?thesis
    using layout_check_decides [OF closed] by blast
qed

text \<open>
  C5.  The stream is read exactly to its end: when decoding accepts, the reader has consumed the
  whole body behind the header, so no trailing bytes are ignored.
\<close>

theorem decode_reads_everything:
  assumes "valid_utf8 input" and "strip_prefix header input = Some body"
    and "rd_wire \<lparr>r_text = body, r_offset = 0\<rparr> = Inr (w, r)"
  shows "r_text r = body \<and> r_offset r = length body"
  using rd_wire_end [OF assms(3) decode_reader_ok [OF assms(1,2)]] by simp

theorem decode_reads_everything_witness:
  "\<exists>body w r. rd_wire \<lparr>r_text = body, r_offset = 0\<rparr> = Inr (w, r) \<and> r_offset r = 48"
proof -
  have utf8: "valid_utf8 sample_stream" by code_simp
  obtain body w r where body: "strip_prefix header sample_stream = Some body"
    and r: "rd_wire \<lparr>r_text = body, r_offset = 0\<rparr> = Inr (w, r)"
    using decode_parts [OF sample_decodes_to] by blast
  have "map_option length (strip_prefix header sample_stream) = Some 48"
    by code_simp
  then have "length body = 48"
    by (simp add: body)
  then show ?thesis
    using decode_reads_everything [OF utf8 body r] r by metis
qed

text \<open>
  C6.  Decoding inverts printing: the tables of a program without optional sections, printed as the
  source compiler prints them, decode to the program they describe, for every text length below
  \<open>2 ^ 63\<close> and every expression that nests at most 513 deep.
\<close>

theorem decode_printed:
  assumes "tables_ok w" and "in_usize (length (print_tables w))"
  shows "decode (header @ print_tables w) = build w"
  using rd_wire_tables [OF assms] by (simp add: decode_def strip_prefix_def)

definition empty_tables :: wire where
  "empty_tables =
     \<lparr>wr_data = [], wr_functions = [], wr_entry = None, wr_tests = [], wr_exports = [],
      wr_interfaces = [], wr_witnesses = [], wr_test_names = [], wr_target_inputs = [],
      wr_locations = \<lparr>paths = [], sites = Map.empty\<rparr>, wr_features = replicate 4 False\<rparr>"

definition one_type :: wire where
  "one_type = empty_tables\<lparr>wr_data := [\<lparr>wd_tag = 6, wd_symbol = - 7, wd_element = 0, wd_params = [],
     wd_fields = [], wd_variants = []\<rparr>], wr_tests := [3]\<rparr>"

theorem decode_printed_witness:
  "decode (header @ print_tables one_type) = build one_type"
proof (rule decode_printed)
  show "tables_ok one_type"
    by (simp add: one_type_def empty_tables_def tables_ok_def data_ok_def optional_ok_def
        in_usize_def in_i64_def i64_min_def i64_max_def)
  have "length (print_tables one_type) = 20"
    by code_simp
  then show "in_usize (length (print_tables one_type))"
    by (simp add: in_usize_def in_i64_def i64_min_def i64_max_def)
qed


definition zero_expr :: wexpr where
  "zero_expr = WExpr 0 0 \<lparr>sp_start = 0, sp_end = 0\<rparr> ''0'' (- 1) True [] []"



text \<open>
  C8.  The recursion of the decoder is bounded: whatever the stream holds, an expression that is
  read from depth 0 nests at most 513 deep.
\<close>

theorem read_depth_bounded:
  assumes "rd_expression 0 r = Inr (e, r')"
  shows "expr_depth e \<le> 513"
  using rd_expr_depth [of 513 r e r'] assms by (simp add: rd_expression_def)

theorem read_depth_bounded_witness:
  "rd_expression 0 (cursor [] (print_expr zero_expr)) = Inr (zero_expr, cursor (print_expr zero_expr) [])
   \<and> expr_depth zero_expr \<le> 513"
proof -
  have ok: "expr_ok 513 zero_expr"
    by (rule expr_ok_mono [of "Suc 0"])
      (simp_all add: zero_expr_def span_ok_def in_usize_def in_i64_def i64_min_def i64_max_def
        clean_def is_continuation_def byte_of_def)
  have "length (print_expr zero_expr) = 20"
    by code_simp
  then have "in_usize (length (print_expr zero_expr))"
    by (simp add: in_usize_def in_i64_def i64_min_def i64_max_def)
  from expr.whole [OF ok this]
  have "rd_expression 0 (cursor [] (print_expr zero_expr)) = Inr (zero_expr, cursor (print_expr zero_expr) [])"
    by (simp add: rd_expression_def)
  with read_depth_bounded [OF this] show ?thesis by blast
qed

section \<open>Retained frames\<close>

text \<open>
  C9.  The frame store implements a map from identities to pointers: from every state that the
  operations can reach, \<open>get\<close> reads the map, \<open>insert\<close> adds a fresh identity, \<open>replace\<close> and \<open>remove\<close>
  say whether the identity is live and change exactly its entry, and \<open>trace\<close> moves every pointer.
\<close>

theorem frame_store_refines_map:
  assumes "fr_step\<^sup>*\<^sup>* empty_store s"
  shows "fr_get i s = (Inr (roots_of s i), s)
    \<and> (fr_insert c p s = (Inr r, t) \<longrightarrow> roots_of s r = None \<and> roots_of t = (roots_of s)(r \<mapsto> p))
    \<and> (\<exists>t. fr_replace False i p s = (Inr (roots_of s i \<noteq> None), t)
        \<and> roots_of t = (if roots_of s i = None then roots_of s else (roots_of s)(i \<mapsto> p)))
    \<and> (\<exists>t. fr_remove False i s = (Inr (roots_of s i \<noteq> None), t) \<and> roots_of t = (roots_of s)(i := None))
    \<and> roots_of (fr_trace visit s) = map_option visit \<circ> roots_of s"
proof -
  have ok: "store_wf s" by (rule frames.inv_run [OF assms empty_store_wf])
  then have get: "fr_get i s = (Inr (roots_of s i), s)"
    by (simp add: fr_get_roots store_wf_def)
  have insert: "roots_of s r = None \<and> roots_of t = (roots_of s)(r \<mapsto> p)" if "fr_insert c p s = (Inr r, t)"
    using fr_insert_ok [OF ok that] frames.live_issued [OF ok] by blast
  obtain b u where replace: "fr_replace False i p s = (Inr b, u)"
    using fr_replace_ok [OF ok] by (cases "fr_position s i") auto
  obtain b' u' where remove: "fr_remove False i s = (Inr b', u')"
    using fr_remove_ok [OF ok] by (cases "fr_position s i") auto
  from get insert fr_replace_wf [OF ok replace] replace fr_remove_wf [OF ok remove] remove fr_trace_ok(2) [OF ok]
  show ?thesis by auto
qed

text \<open>A store with one live frame, whose slot was used before.\<close>

definition used_store :: store where
  "used_store = \<lparr>st_active = [\<lparr>fe_slot = 0, fe_pointer = 8\<rparr>],
     st_slots = [\<lparr>fs_generation = 2, fs_position = Some 0\<rparr>], st_free = []\<rparr>"

definition first_frame :: frame_id where
  "first_frame = \<lparr>fid_key = 0, fid_generation = 1\<rparr>"

lemma used_store_runs:
  "\<exists>s t. fr_step\<^sup>*\<^sup>* empty_store s \<and> fr_remove False first_frame s = (Inr True, t) \<and> fr_step t used_store"
proof -
  have "\<exists>s t u. fr_insert False 7 empty_store = (Inr first_frame, s)
      \<and> fr_remove False first_frame s = (Inr True, t)
      \<and> fr_insert False 8 t = (Inr \<lparr>fid_key = 0, fid_generation = 2\<rparr>, used_store)"
    by (simp add: fr_insert_def fr_remove_def fr_position_def set_position_def empty_store_def used_store_def
        first_frame_def bindX_def last_of_def checked_add_def swap_remove_def get_def)
  then show ?thesis
    by (meson fr_step.insert r_into_rtranclp)
qed

lemma used_store_reachable: "fr_step\<^sup>*\<^sup>* empty_store used_store"
proof -
  obtain s t where "fr_step\<^sup>*\<^sup>* empty_store s" "fr_remove False first_frame s = (Inr True, t)" "fr_step t used_store"
    using used_store_runs by blast
  then show ?thesis
    by (meson fr_step.remove rtranclp.rtrancl_into_rtrancl)
qed

theorem frame_store_refines_map_witness:
  "fr_step\<^sup>*\<^sup>* empty_store used_store \<and> fr_get \<lparr>fid_key = 0, fid_generation = 2\<rparr> used_store = (Inr (Some 8), used_store)"
proof -
  have "roots_of used_store \<lparr>fid_key = 0, fid_generation = 2\<rparr> = Some 8"
    by (simp add: used_store_def roots_of_def fr_position_def get_def)
  then show ?thesis
    using frame_store_refines_map [OF used_store_reachable, of "\<lparr>fid_key = 0, fid_generation = 2\<rparr>"]
      used_store_reachable by simp
qed

text \<open>
  C10.  An identity dies for good: once \<open>remove\<close> retired it, no sequence of operations makes it
  resolve again, although its slot is used again.
\<close>

theorem frame_identity_one_shot:
  assumes "fr_step\<^sup>*\<^sup>* empty_store s" and "fr_remove c i s = (Inr True, t)" and "fr_step\<^sup>*\<^sup>* t u"
  shows "fr_get i u = (Inr None, u) \<and> fr_remove False i u = (Inr False, u)"
proof -
  have ok: "store_wf s" by (rule frames.inv_run [OF assms(1) empty_store_wf])
  note removed = fr_remove_wf [OF ok assms(2)]
  have "fr_issued t i"
    using removed frames.live_issued [OF ok] by simp
  then have dead: "roots_of u i = None"
    using frames.stale_run [OF assms(3) removed(1), of i] removed(3) by simp
  have ok': "store_wf u" by (rule frames.inv_run [OF assms(3) removed(1)])
  have "fr_position u i = None"
    using dead by (simp add: roots_of_def)
  then show ?thesis
    using ok' dead fr_remove_ok [OF ok', of i] by (simp add: fr_get_roots store_wf_def)
qed

theorem frame_identity_one_shot_witness:
  "fr_get first_frame used_store = (Inr None, used_store) \<and> length (st_active used_store) = 1"
proof -
  obtain s t where "fr_step\<^sup>*\<^sup>* empty_store s" "fr_remove False first_frame s = (Inr True, t)"
      "fr_step\<^sup>*\<^sup>* t used_store"
    using used_store_runs by blast
  from frame_identity_one_shot [OF this] show ?thesis
    by (simp add: used_store_def)
qed



section \<open>Locks\<close>


text \<open>One thread locks an object, another one waits for it.\<close>

definition contended :: locks where
  "contended = no_locks\<lparr>lk_next := 3, lk_objects := [5], lk_mutexes := [(5, 0)], lk_created := 1, lk_taken := {0},
     lk_threads := (\<lambda>_. idle_thread)(0 := idle_thread\<lparr>th_guards := [(1, 0)]\<rparr>,
       1 := idle_thread\<lparr>th_pending := Some (2, 0)\<rparr>)\<rparr>"

lemma contended_reachable: "lock_step\<^sup>*\<^sup>* no_locks contended"
proof -
  let ?s0 = "no_locks\<lparr>lk_objects := [5]\<rparr>"
  have collect: "lock_step no_locks ?s0"
    using lock_step.collect [of no_locks "\<lambda>_. None" "[5]"] by (simp add: relocate_def no_locks_def)
  have "\<exists>r1 s1 r2 s2 r3. mutex_begin 0 5 ?s0 = (r1, s1) \<and> th_pending (lk_threads ?s0 0) = None
      \<and> mutex_acquire 0 s1 = Some (r2, s2)
      \<and> mutex_begin 1 5 s2 = (r3, contended) \<and> th_pending (lk_threads s2 1) = None"
    by (simp add: mutex_begin_def mutex_acquire_def bindX_def checkpoint_def requested_def control_of_def entry_def
        Let_def control_acquire_def acquire_def try_acquire_def set_thread_def no_locks_def idle_thread_def
        contended_def fun_eq_iff)
  then show ?thesis
    using collect by (meson lock_step.begin_lock lock_step.acquire_lock r_into_rtranclp rtranclp.rtrancl_into_rtrancl)
qed

lemma contended_thread: "th_guards (lk_threads contended 0) = [(1, 0)]"
  by (simp add: contended_def)


text \<open>
  C13.  A guard is released once: after a token unlocked its mutex, no thread unlocks anything with
  that token again, whatever happens in between, and the lock of a later guard is never affected.
\<close>

theorem mutex_token_one_shot:
  assumes "lock_step\<^sup>*\<^sup>* no_locks s" and "mutex_unlock t token s = (True, s')" and "lock_step\<^sup>*\<^sup>* s' s''"
  shows "mutex_unlock u token s'' = (False, s'')"
  by (rule unlock_once [OF tokens.inv_run [OF assms(1) no_locks_ok] assms(2,3)])

lemma contended_unlock: "fst (mutex_unlock 0 1 contended)"
  by (simp add: mutex_unlock_def contended_def)

theorem mutex_token_one_shot_witness:
  "\<exists>s'. mutex_unlock 0 1 contended = (True, s') \<and> mutex_unlock 0 1 s' = (False, s')"
proof -
  obtain s' where s': "mutex_unlock 0 1 contended = (True, s')"
    using contended_unlock by (metis prod.collapse)
  from mutex_token_one_shot [OF contended_reachable s', of s' 0] s' show ?thesis by blast
qed

text \<open>
  C14.  A call that has its token waits exactly while another guard or hold of the access exists; a
  cancelled worker gives up without touching the locks, and otherwise the call gets the lock.
\<close>

theorem lock_acquisition:
  assumes "lock_step\<^sup>*\<^sup>* no_locks s" and "th_pending (lk_threads s t) = Some (token, a)"
  shows "(requested (lk_threads s t) \<longrightarrow>
        (\<exists>s'. mutex_acquire t s = Some (Inl Interrupted, s') \<and> lk_taken s' = lk_taken s))
    \<and> (\<not> requested (lk_threads s t) \<and> (\<exists>u. a \<in> owned (lk_threads s u)) \<longrightarrow> mutex_acquire t s = None)
    \<and> (\<not> requested (lk_threads s t) \<and> (\<forall>u. a \<notin> owned (lk_threads s u)) \<longrightarrow>
        (\<exists>s'. mutex_acquire t s = Some (Inr token, s') \<and> (token, a) \<in> set (th_guards (lk_threads s' t))))"
proof -
  have ok: "locks_ok s" by (rule tokens.inv_run [OF assms(1) no_locks_ok])
  have "a \<in> lk_taken s \<longleftrightarrow> (\<exists>u. a \<in> owned (lk_threads s u))"
    using locks_okD(5,7) [OF ok] by blast
  then show ?thesis
    using assms(2) by (auto simp: mutex_acquire_def control_acquire_def requested_def acquire_def try_acquire_def
        split: option.splits bool.splits)
qed

theorem lock_acquisition_witness:
  "th_pending (lk_threads contended 1) = Some (2, 0) \<and> mutex_acquire 1 contended = None"
proof -
  have pending: "th_pending (lk_threads contended 1) = Some (2, 0)" "\<not> requested (lk_threads contended 1)"
    by (simp_all add: contended_def idle_thread_def requested_def control_of_def)
  have "0 \<in> owned (lk_threads contended 0)"
    by (simp add: owned_def guarded_def contended_thread)
  with lock_acquisition [OF contended_reachable pending(1)] pending show ?thesis by blast
qed

text \<open>
  C15.  Giving back every storage access of a thread frees exactly the accesses it holds and leaves
  its mutex guards and every other thread alone.
\<close>

theorem release_all_exact:
  assumes "lock_step\<^sup>*\<^sup>* no_locks s"
  shows "lk_taken (release_all t s) = lk_taken s - set (th_held (lk_threads s t))
    \<and> th_held (lk_threads (release_all t s) t) = []
    \<and> th_guards (lk_threads (release_all t s) t) = th_guards (lk_threads s t)
    \<and> (\<forall>u. u \<noteq> t \<longrightarrow> lk_threads (release_all t s) u = lk_threads s u)"
  using release_all_ok(2) [OF tokens.inv_run [OF assms no_locks_ok]] release_all_threads release_all_taken by metis

text \<open>A thread that entered the same object twice.\<close>

definition entered :: locks where
  "entered = no_locks\<lparr>lk_objects := [5], lk_access := [(5, 0)], lk_created := 1, lk_taken := {0},
     lk_threads := (\<lambda>_. idle_thread)(0 := idle_thread\<lparr>th_held := [0, 0]\<rparr>)\<rparr>"

lemma entered_reachable: "lock_step\<^sup>*\<^sup>* no_locks entered"
proof -
  let ?s0 = "no_locks\<lparr>lk_objects := [5]\<rparr>"
  have collect: "lock_step no_locks ?s0"
    using lock_step.collect [of no_locks "\<lambda>_. None" "[5]"] by (simp add: relocate_def no_locks_def)
  have "\<exists>r1 s1 r2. access_begin 0 5 ?s0 = Some (r1, s1) \<and> access_begin 0 5 s1 = Some (r2, entered)"
    by (simp add: access_begin_def hold_def entry_def acquire_def try_acquire_def set_thread_def no_locks_def
        idle_thread_def entered_def fun_eq_iff)
  then show ?thesis
    using collect by (meson lock_step.begin_access r_into_rtranclp rtranclp.rtrancl_into_rtrancl)
qed

theorem release_all_exact_witness:
  "lock_step\<^sup>*\<^sup>* no_locks entered \<and> lk_taken entered = {0} \<and> lk_taken (release_all 0 entered) = {}"
  using entered_reachable release_all_exact [OF entered_reachable, of 0] by (simp add: entered_def)

section \<open>The reactor\<close>

text \<open>
  C16.  In every state of the reactor, each active registration is a valid source and is exactly
  where its kind needs it: a timer in the ordered timer tree at its deadline, a readiness wait in
  the interests of its handle under a polling key that leads back to the handle.  The queued
  notifications are for distinct registrations that are no longer active.
\<close>

theorem reactor_invariant:
  assumes "(reactor_step p)\<^sup>*\<^sup>* new_reactor core"
  shows "(\<forall>r a. active core r = Some a \<longrightarrow> valid_source (aw_source a) \<and> linked core r a)
    \<and> timers_ok core \<and> handles_ok core \<and> polls_ok core \<and> ready_ok core"
  using registrations.inv_run [OF assms new_reactor_ok] by (simp add: wait_ok_def)

text \<open>A poller that has no events; its world is a clock.\<close>

definition quiet_poller :: "nat poller" where
  "quiet_poller = \<lparr>po_notify = (\<lambda>w. (None, w)), po_add = (\<lambda>n e w. (None, w)),
     po_modify = (\<lambda>n e w. (None, w)), po_delete = (\<lambda>n w. (None, w)),
     po_wait = (\<lambda>t w. (Inr [], case t of None \<Rightarrow> w | Some d \<Rightarrow> w + d)), po_now = (\<lambda>w. (w, w + 1)), po_linux = True\<rparr>"

definition timer_at :: "nat \<Rightarrow> wait_source" where
  "timer_at deadline = \<lparr>ws_kind = KIND_TIMER, ws_interests = 0, ws_handle = 0, ws_deadline = deadline\<rparr>"

definition first_wait :: registration where
  "first_wait = \<lparr>rg_key = 0, rg_generation = 1\<rparr>"

definition one_timer :: reactor where
  "one_timer = new_reactor\<lparr>re_slots := [\<lparr>wt_generation = 1, wt_active = Some \<lparr>aw_source = timer_at 50, aw_owner = 7\<rparr>\<rparr>],
     re_timers := [((50, 0), first_wait)]\<rparr>"

lemma one_timer_registered:
  "register quiet_poller (timer_at 50) 7 (new_reactor, w) = (Inr (Inr first_wait), (one_timer, w))"
  by (simp add: register_def valid_source_def timer_at_def KIND_TIMER_def KIND_READINESS_def KIND_COMPLETION_def
      bindX_def bindIO_apply pollIO_def quiet_poller_def new_reactor_def first_wait_def one_timer_def
      worldX_def coreX_def zoomX_def core_insert_def last_of_def get_def checked_add_def handle_of_def)

lemma one_timer_reachable: "(reactor_step quiet_poller)\<^sup>*\<^sup>* new_reactor one_timer"
  using one_timer_registered by (blast intro: reactor_step.register)

lemma one_timer_active: "active one_timer first_wait = Some \<lparr>aw_source = timer_at 50, aw_owner = 7\<rparr>"
  by (simp add: active_def get_def one_timer_def first_wait_def)

theorem reactor_invariant_witness:
  "(reactor_step quiet_poller)\<^sup>*\<^sup>* new_reactor one_timer
   \<and> linked one_timer first_wait \<lparr>aw_source = timer_at 50, aw_owner = 7\<rparr>"
  using one_timer_reachable reactor_invariant [OF one_timer_reachable] one_timer_active by blast

text \<open>
  C17.  A wait is delivered at most once: after its notification was taken from the queue, the
  registration is neither active nor queued in any later state, and cancelling it does nothing.
\<close>

theorem delivered_once:
  assumes "(reactor_step p)\<^sup>*\<^sup>* new_reactor core" and "pop_ready core = (Inr (Some n), core')"
    and "(reactor_step p)\<^sup>*\<^sup>* core' core''"
  shows "nt_registration n \<notin> nt_registration ` set (re_ready core'')
    \<and> cancel p (nt_registration n) (core'', w) = (Inr (Inr False), (core'', w))"
proof -
  let ?r = "nt_registration n"
  have ok: "wait_ok {} core" by (rule registrations.inv_run [OF assms(1) new_reactor_ok])
  obtain rest where ready: "re_ready core = n # rest" and core': "core' = core\<lparr>re_ready := rest\<rparr>"
    using assms(2) by (auto simp: pop_ready_def split: list.splits)
  note queue = wait_okD(5) [OF ok, unfolded ready_ok_def ready]
  have step: "reactor_step p core core'" by (rule reactor_step.pop [OF assms(2)])
  then have ok': "wait_ok {} core'" using deliveries.inv_step [OF _ ok] by blast
  have "\<not> waiting core' ?r" "issued core' ?r"
    using queue by (auto simp: waiting_def core')
  then have "\<not> waiting core'' ?r"
    by (rule deliveries.stale_run [OF assms(3) ok', rotated])
  then show ?thesis
    by (auto simp: waiting_def cancel_def bindX_def)
qed

text \<open>The timer has fired.\<close>

definition fired_timer :: reactor where
  "fired_timer = new_reactor\<lparr>re_slots := [\<lparr>wt_generation = 1, wt_active = None\<rparr>], re_free := [0],
     re_ready := [\<lparr>nt_registration = first_wait, nt_owner = 7, nt_events = TIMER, nt_os_error = 0\<rparr>]\<rparr>"

lemma fired_timer_wait: "wait quiet_poller (Some 0) (one_timer, 60) = Some (Inr (Inr 1), (fired_timer, 61))"
  by (simp add: wait_def wait_begin_def fire_now_def fire_timers_def bindX_def worldX_def coreX_def zoomX_def
      quiet_poller_def one_timer_def fired_timer_def new_reactor_def core_finish_def core_remove_def get_def
      first_wait_def ready_count_def)

lemma fired_timer_reachable: "(reactor_step quiet_poller)\<^sup>*\<^sup>* new_reactor fired_timer"
  using one_timer_reachable fired_timer_wait by (meson reactor_step.wait rtranclp.rtrancl_into_rtrancl)

theorem delivered_once_witness:
  "\<exists>n core'. pop_ready fired_timer = (Inr (Some n), core') \<and> nt_registration n = first_wait
     \<and> cancel quiet_poller first_wait (core', 0) = (Inr (Inr False), (core', 0))"
proof -
  obtain n core' where pop: "pop_ready fired_timer = (Inr (Some n), core')" "nt_registration n = first_wait"
    by (simp add: pop_ready_def fired_timer_def)
  from delivered_once [OF fired_timer_reachable pop(1), of core' 0] pop show ?thesis by auto
qed

text \<open>
  C18.  Cancelling retires exactly its registration: it says whether the registration was active,
  queues nothing and leaves every other registration alone; a cancellation that fails changes no
  registration; and a cancelled registration is never delivered afterwards.
\<close>

theorem cancel_exact:
  assumes "(reactor_step p)\<^sup>*\<^sup>* new_reactor core" and "cancel p r (core, w) = (Inr res, (core', w'))"
  shows "re_ready core' = re_ready core \<and> (case res of
       Inl _ \<Rightarrow> active core' = active core
     | Inr found \<Rightarrow> found = (active core r \<noteq> None) \<and> active core' = (active core)(r := None)
         \<and> (\<forall>core''. found \<and> (reactor_step p)\<^sup>*\<^sup>* core' core'' \<longrightarrow> \<not> waiting core'' r))"
proof -
  have ok: "wait_ok {} core" by (rule registrations.inv_run [OF assms(1) new_reactor_ok])
  from cancel_ok [OF ok, of p r w] have ok': "wait_ok {} core'" and evolved: "evolves core core'"
    and effect: "cancel_effect core r (Inr res, (core', w'))"
    by (simp_all add: assms(2))
  show ?thesis
  proof (cases res)
    case (Inl e)
    with effect show ?thesis by simp
  next
    case (Inr found)
    have "\<not> waiting core'' r" if "found" and run: "(reactor_step p)\<^sup>*\<^sup>* core' core''" for core''
    proof (rule deliveries.stale_run [OF run ok'])
      have live: "active core r \<noteq> None" using effect Inr that by simp
      then show "issued core' r"
        using evolved active_issued [OF wait_okD(1) [OF ok]] by (auto simp: evolves_def)
      show "\<not> waiting core' r"
        using effect Inr live wait_okD(5) [OF ok] by (auto simp: waiting_def ready_ok_def)
    qed
    with effect Inr show ?thesis by simp
  qed
qed

theorem cancel_exact_witness:
  "\<exists>core' w'. cancel quiet_poller first_wait (one_timer, 0) = (Inr (Inr True), (core', w'))
     \<and> active core' first_wait = None"
proof -
  have "cancel quiet_poller first_wait (one_timer, 0) = (Inr (Inr True), (removed_from new_reactor
      \<lparr>rg_key = 0, rg_generation = 0\<rparr>\<lparr>re_slots := [\<lparr>wt_generation = 1, wt_active = None\<rparr>], re_free := [0]\<rparr>, 0))"
    using one_timer_active
    by (simp add: cancel_def bindX_def bindIO_apply pollIO_def quiet_poller_def worldX_def coreX_def zoomX_def
        timer_at_def KIND_TIMER_def KIND_READINESS_def KIND_COMPLETION_def core_remove_def get_def tree_remove_def
        one_timer_def first_wait_def new_reactor_def removed_from_def)
  from cancel_exact [OF one_timer_reachable this] this show ?thesis by auto
qed

text \<open>
  C19.  Exactly the due timers fire, in the order of their deadlines: firing at \<open>now\<close> moves the
  timers that are due from the tree to the end of the ready queue and touches nothing else.
\<close>

theorem due_timers_fire:
  assumes "(reactor_step p)\<^sup>*\<^sup>* new_reactor core"
  shows "\<exists>core'. fire_timers now core = (Inr (), core')
    \<and> map nt_registration (re_ready core') = map nt_registration (re_ready core)
        @ map snd (filter (\<lambda>e. fst (fst e) \<le> now) (re_timers core))
    \<and> re_timers core' = filter (\<lambda>e. now < fst (fst e)) (re_timers core)
    \<and> sorted (map (fst \<circ> fst) (filter (\<lambda>e. fst (fst e) \<le> now) (re_timers core)))"
proof -
  have ok: "wait_ok {} core" by (rule registrations.inv_run [OF assms new_reactor_ok])
  have "sorted_wrt key_less (map fst (re_timers core))"
    using wait_okD(2) [OF ok] by (simp add: timers_ok_def)
  then have sorted: "sorted (map (fst \<circ> fst) (re_timers core))"
    by (simp add: sorted_wrt_map) (rule sorted_wrt_mono_rel, auto simp: key_less_def)
  from fire_due_ok [OF ok refl, of now] sorted show ?thesis
    by (auto simp: fire_timers_def sorted_due sorted_filter_deadline)
qed

theorem due_timers_fire_witness:
  "\<exists>core'. fire_timers 60 one_timer = (Inr (), core') \<and> map nt_registration (re_ready core') = [first_wait]"
  using due_timers_fire [OF one_timer_reachable, of 60] by (auto simp: one_timer_def new_reactor_def)

text \<open>
  C20.  A registration is all or nothing: it publishes one fresh identity for its source and owner,
  or it fails and leaves the active registrations and the queue as they were.
\<close>

theorem register_atomic:
  assumes "(reactor_step p)\<^sup>*\<^sup>* new_reactor core" and "register p source owner (core, w) = (Inr res, (core', w'))"
  shows "re_ready core' = re_ready core \<and> (case res of
       Inl _ \<Rightarrow> active core' = active core
     | Inr r \<Rightarrow> \<not> issued core r \<and> active core' = (active core)(r \<mapsto> \<lparr>aw_source = source, aw_owner = owner\<rparr>))"
  using register_ok [OF registrations.inv_run [OF assms(1) new_reactor_ok], of p source owner w]
  by (cases res) (simp_all add: assms(2))

theorem register_atomic_witness:
  "register quiet_poller (timer_at 50) 7 (new_reactor, 0) = (Inr (Inr first_wait), (one_timer, 0))
   \<and> \<not> issued new_reactor first_wait"
  using register_atomic [OF rtranclp.rtrancl_refl one_timer_registered [of 0]] one_timer_registered by auto



text \<open>
  C22.  No operation of the reactor panics: from every reachable state, registering, cancelling,
  completing, revoking and waiting return, or end the process with a diagnostic; no index, no
  \<open>unwrap\<close> and no map access fails.
\<close>

theorem reactor_never_panics:
  assumes "(reactor_step p)\<^sup>*\<^sup>* new_reactor core"
  shows "fst (register p source owner (core, w)) \<noteq> Inl Panic
    \<and> fst (cancel p r (core, w)) \<noteq> Inl Panic
    \<and> fst (notify_completion p r events e (core, w)) \<noteq> Inl Panic
    \<and> fst (revoke_readiness p handle (core, w)) \<noteq> Inl Panic
    \<and> map_option fst (wait p timeout (core, w)) \<noteq> Some (Inl Panic)"
proof -
  have ok: "wait_ok {} core" by (rule registrations.inv_run [OF assms new_reactor_ok])
  have "map_option fst (wait p timeout (core, w)) \<noteq> Some (Inl Panic)"
    using wait_sound [OF _ ok, of p timeout w] by (cases "wait p timeout (core, w)") (auto dest: sound_never)
  then show ?thesis
    by (intro conjI sound_never [OF register_sound [OF ok]] sound_never [OF cancel_sound [OF ok]]
      sound_never [OF notify_completion_sound [OF ok]] sound_never [OF soundXD [OF revoke_sound ok]])
qed

theorem reactor_never_panics_witness:
  "fst (cancel quiet_poller first_wait (one_timer, 0)) \<noteq> Inl Panic"
  using reactor_never_panics [OF one_timer_reachable] by blast

end
